(* ===== verification/Prelude.thy ===== *)
theory Prelude
  imports Main "HOL-Library.Word"
begin

text \<open>
  Shared vocabulary of the development: the outcome type of a Rust function, checked
  machine arithmetic on unsigned integers, slices, loops that may stop early, state passing
  and the little-endian encodings.

  Unsigned integers of the program (u64, u32, usize) are natural numbers. Each operation
  that can leave the width is a checked operation whose result is \<open>Panic\<close> when it does, as
  in a build with overflow checks; the properties show under which conditions a function
  does not panic, and there a build with wrapping arithmetic computes the same values. Values
  the code takes apart bit by bit are words. A usize has 64 bits.
\<close>

unbundle bit_operations_syntax

subsection \<open>Outcomes\<close>

text \<open>
  A Rust function returns a value, returns an error, or panics (a failed \<open>assert!\<close>,
  \<open>unwrap\<close>, index or checked arithmetic).
\<close>

datatype ('e, 'a) res = Ok 'a | Err 'e | Panic

type_synonym u8 = "8 word"
type_synonym u32 = "32 word"

named_theorems res_simps \<open>unfolding rules of the outcome and arithmetic primitives\<close>

primrec rbind :: "('e, 'a) res \<Rightarrow> ('a \<Rightarrow> ('e, 'b) res) \<Rightarrow> ('e, 'b) res" where
  "rbind (Ok x) f = f x"
| "rbind (Err e) f = Err e"
| "rbind Panic f = Panic"

primrec rmap :: "('a \<Rightarrow> 'b) \<Rightarrow> ('e, 'a) res \<Rightarrow> ('e, 'b) res" where
  "rmap f (Ok x) = Ok (f x)"
| "rmap f (Err e) = Err e"
| "rmap f Panic = Panic"

definition is_ok :: "('e, 'a) res \<Rightarrow> bool" where
  "is_ok r = (case r of Ok _ \<Rightarrow> True | _ \<Rightarrow> False)"

lemma rbind_Ok_iff [simp]:
  "rbind m f = Ok y \<longleftrightarrow> (\<exists>x. m = Ok x \<and> f x = Ok y)"
  by (cases m) auto

lemma rbind_Err_iff:
  "rbind m f = Err e \<longleftrightarrow> m = Err e \<or> (\<exists>x. m = Ok x \<and> f x = Err e)"
  by (cases m) auto

lemma rbind_Panic_iff:
  "rbind m f = Panic \<longleftrightarrow> m = Panic \<or> (\<exists>x. m = Ok x \<and> f x = Panic)"
  by (cases m) auto

lemma rbind_assoc: "rbind (rbind m f) g = rbind m (\<lambda>x. rbind (f x) g)"
  by (cases m) auto

lemma rbind_Ok_right [simp]: "rbind m Ok = m"
  by (cases m) auto

lemma rmap_Ok_iff [simp]: "rmap f m = Ok y \<longleftrightarrow> (\<exists>x. m = Ok x \<and> y = f x)"
  by (cases m) auto

lemma is_ok_simps [simp]: "is_ok (Ok x)" "\<not> is_ok (Err e)" "\<not> is_ok Panic"
  by (simp_all add: is_ok_def)

lemma is_ok_iff: "is_ok r \<longleftrightarrow> (\<exists>x. r = Ok x)"
  by (cases r) auto

subsection \<open>Checked arithmetic\<close>

definition add_w :: "nat \<Rightarrow> nat \<Rightarrow> nat \<Rightarrow> ('e, nat) res" where
  "add_w w a b = (if a + b < 2 ^ w then Ok (a + b) else Panic)"

definition mul_w :: "nat \<Rightarrow> nat \<Rightarrow> nat \<Rightarrow> ('e, nat) res" where
  "mul_w w a b = (if a * b < 2 ^ w then Ok (a * b) else Panic)"

definition sub_r :: "nat \<Rightarrow> nat \<Rightarrow> ('e, nat) res" where
  "sub_r a b = (if b \<le> a then Ok (a - b) else Panic)"

definition div_r :: "nat \<Rightarrow> nat \<Rightarrow> ('e, nat) res" where
  "div_r a b = (if b = 0 then Panic else Ok (a div b))"

definition mod_r :: "nat \<Rightarrow> nat \<Rightarrow> ('e, nat) res" where
  "mod_r a b = (if b = 0 then Panic else Ok (a mod b))"

abbreviation add64 :: "nat \<Rightarrow> nat \<Rightarrow> ('e, nat) res" where
  "add64 \<equiv> add_w 64"

abbreviation mul64 :: "nat \<Rightarrow> nat \<Rightarrow> ('e, nat) res" where
  "mul64 \<equiv> mul_w 64"

text \<open>The \<open>checked_add\<close>, \<open>checked_sub\<close> and \<open>next_multiple_of\<close> of the standard library on u64.\<close>

definition checked_add64 :: "nat \<Rightarrow> nat \<Rightarrow> nat option" where
  "checked_add64 a b = (if a + b < 2 ^ 64 then Some (a + b) else None)"

definition checked_sub64 :: "nat \<Rightarrow> nat \<Rightarrow> nat option" where
  "checked_sub64 a b = (if b \<le> a then Some (a - b) else None)"

definition next_multiple_of64 :: "nat \<Rightarrow> nat \<Rightarrow> ('e, nat) res" where
  "next_multiple_of64 a m =
     (if m = 0 then Panic
      else if a mod m = 0 then Ok a
      else add64 a (m - a mod m))"

definition div_ceil :: "nat \<Rightarrow> nat \<Rightarrow> nat" where
  "div_ceil a b = (a div b) + (if a mod b = 0 then 0 else 1)"

definition rassert :: "bool \<Rightarrow> ('e, unit) res" where
  "rassert b = (if b then Ok () else Panic)"

definition ok_or :: "'a option \<Rightarrow> 'e \<Rightarrow> ('e, 'a) res" where
  "ok_or x e = (case x of Some v \<Rightarrow> Ok v | None \<Rightarrow> Err e)"

definition expect :: "'a option \<Rightarrow> ('e, 'a) res" where
  "expect x = (case x of Some v \<Rightarrow> Ok v | None \<Rightarrow> Panic)"

lemma add_w_Ok [simp]: "add_w w a b = Ok c \<longleftrightarrow> a + b < 2 ^ w \<and> c = a + b"
  by (auto simp: add_w_def)

lemma mul_w_Ok [simp]: "mul_w w a b = Ok c \<longleftrightarrow> a * b < 2 ^ w \<and> c = a * b"
  by (auto simp: mul_w_def)

lemma sub_r_Ok [simp]: "sub_r a b = Ok c \<longleftrightarrow> b \<le> a \<and> c = a - b"
  by (auto simp: sub_r_def)

lemma div_r_Ok [simp]: "div_r a b = Ok c \<longleftrightarrow> b \<noteq> 0 \<and> c = a div b"
  by (auto simp: div_r_def)

lemma mod_r_Ok [simp]: "mod_r a b = Ok c \<longleftrightarrow> b \<noteq> 0 \<and> c = a mod b"
  by (auto simp: mod_r_def)

lemma ok_or_Ok [simp]: "ok_or x e = Ok v \<longleftrightarrow> x = Some v"
  by (cases x) (auto simp: ok_or_def)

lemma expect_Ok [simp]: "expect x = Ok v \<longleftrightarrow> x = Some v"
  by (cases x) (auto simp: expect_def)

lemma rassert_Ok [simp]: "rassert b = Ok u \<longleftrightarrow> b"
  by (auto simp: rassert_def)

lemma arith_not_Err [simp]:
  "add_w w a b \<noteq> Err e" "mul_w w a b \<noteq> Err e" "sub_r a b \<noteq> Err e" "div_r a b \<noteq> Err e"
  "mod_r a b \<noteq> Err e" "expect x \<noteq> Err e" "rassert p \<noteq> Err e"
  by (auto simp: add_w_def mul_w_def sub_r_def div_r_def mod_r_def expect_def rassert_def
      split: option.splits)

text \<open>Rewriting a primitive to its value, where its side condition is known.\<close>

lemma add_w_eq [res_simps]: "a + b < 2 ^ w \<Longrightarrow> add_w w a b = Ok (a + b)"
  by (simp add: add_w_def)

lemma mul_w_eq [res_simps]: "a * b < 2 ^ w \<Longrightarrow> mul_w w a b = Ok (a * b)"
  by (simp add: mul_w_def)

lemma sub_r_eq [res_simps]: "b \<le> a \<Longrightarrow> sub_r a b = Ok (a - b)"
  by (simp add: sub_r_def)

lemma div_r_eq [res_simps]: "b \<noteq> 0 \<Longrightarrow> div_r a b = Ok (a div b)"
  by (simp add: div_r_def)

lemma mod_r_eq [res_simps]: "b \<noteq> 0 \<Longrightarrow> mod_r a b = Ok (a mod b)"
  by (simp add: mod_r_def)

lemma rassert_eq [res_simps]: "p \<Longrightarrow> rassert p = Ok ()"
  by (simp add: rassert_def)

lemma ok_or_simps [simp]: "ok_or (Some v) e = Ok v" "ok_or None e = Err e"
  by (simp_all add: ok_or_def)

lemma expect_simps [simp]: "expect (Some v) = Ok v" "expect None = Panic"
  by (simp_all add: expect_def)

lemma next_multiple_of64_Ok:
  assumes "next_multiple_of64 a m = Ok c"
  shows "a \<le> c" "m dvd c" "c < a + m" "0 < m"
proof -
  show pos: "0 < m"
    using assms by (auto simp: next_multiple_of64_def split: if_splits)
  have c: "c = (if a mod m = 0 then a else a + (m - a mod m))"
    using assms by (auto simp: next_multiple_of64_def split: if_splits)
  have le: "a mod m < m" using pos by simp
  show "a \<le> c" using c by auto
  show "c < a + m" using c le pos by auto
  show "m dvd c"
  proof (cases "a mod m = 0")
    case True
    then show ?thesis using c by (simp add: dvd_eq_mod_eq_0)
  next
    case False
    have "a + (m - a mod m) = m * (a div m) + m"
      using le mult_div_mod_eq [of m a] by linarith
    then show ?thesis using False c by simp
  qed
qed

lemma div_ceil_mult: "div_ceil a b * b = (if a mod b = 0 then a else a - a mod b + b)"
  by (auto simp: div_ceil_def minus_mod_eq_div_mult algebra_simps)

lemma div_ceil_bounds:
  assumes "0 < b"
  shows "a \<le> div_ceil a b * b" and "div_ceil a b * b < a + b"
proof -
  have m: "a mod b < b" "a mod b \<le> a"
    using assms by simp_all
  show "a \<le> div_ceil a b * b"
    using m by (simp only: div_ceil_mult split: if_split) linarith
  show "div_ceil a b * b < a + b"
    using m assms by (simp only: div_ceil_mult split: if_split) linarith
qed

subsection \<open>Slices and loops\<close>

text \<open>\<open>xs[a..b]\<close>: out of range indices panic.\<close>

definition slice_r :: "'a list \<Rightarrow> nat \<Rightarrow> nat \<Rightarrow> ('e, 'a list) res" where
  "slice_r xs a b = (if a \<le> b \<and> b \<le> length xs then Ok (take (b - a) (drop a xs)) else Panic)"

definition nth_r :: "'a list \<Rightarrow> nat \<Rightarrow> ('e, 'a) res" where
  "nth_r xs i = (if i < length xs then Ok (xs ! i) else Panic)"

definition nth_opt :: "'a list \<Rightarrow> nat \<Rightarrow> 'a option" where
  "nth_opt xs i = (if i < length xs then Some (xs ! i) else None)"

lemma slice_r_Ok [simp]:
  "slice_r xs a b = Ok ys \<longleftrightarrow> a \<le> b \<and> b \<le> length xs \<and> ys = take (b - a) (drop a xs)"
  by (auto simp: slice_r_def)

lemma slice_r_eq [res_simps]:
  "a \<le> b \<Longrightarrow> b \<le> length xs \<Longrightarrow> slice_r xs a b = Ok (take (b - a) (drop a xs))"
  by (simp add: slice_r_def)

lemma nth_r_Ok [simp]: "nth_r xs i = Ok y \<longleftrightarrow> i < length xs \<and> y = xs ! i"
  by (auto simp: nth_r_def)

lemma nth_r_eq [res_simps]: "i < length xs \<Longrightarrow> nth_r xs i = Ok (xs ! i)"
  by (simp add: nth_r_def)

lemma nth_opt_Some [simp]: "nth_opt xs i = Some y \<longleftrightarrow> i < length xs \<and> y = xs ! i"
  by (auto simp: nth_opt_def)

text \<open>A \<open>for\<close> loop over a list whose body may fail: the state threads through the body.\<close>

primrec rfold :: "('a \<Rightarrow> 's \<Rightarrow> ('e, 's) res) \<Rightarrow> 'a list \<Rightarrow> 's \<Rightarrow> ('e, 's) res" where
  "rfold f [] s = Ok s"
| "rfold f (x # xs) s = rbind (f x s) (rfold f xs)"

primrec rtraverse :: "('a \<Rightarrow> ('e, 'b) res) \<Rightarrow> 'a list \<Rightarrow> ('e, 'b list) res" where
  "rtraverse f [] = Ok []"
| "rtraverse f (x # xs) = rbind (f x) (\<lambda>y. rbind (rtraverse f xs) (\<lambda>ys. Ok (y # ys)))"

lemma rfold_append: "rfold f (xs @ ys) s = rbind (rfold f xs s) (rfold f ys)"
proof (induction xs arbitrary: s)
  case Nil
  show ?case by simp
next
  case (Cons x xs)
  have "rfold f ((x # xs) @ ys) s = rbind (f x s) (\<lambda>t. rbind (rfold f xs t) (rfold f ys))"
    using Cons.IH by (cases "f x s") auto
  then show ?case by (simp add: rbind_assoc)
qed

lemma rtraverse_Ok_eq:
  "(\<And>x. x \<in> set xs \<Longrightarrow> f x = Ok (g x)) \<Longrightarrow> rtraverse f xs = Ok (map g xs)"
  by (induction xs) auto

lemma rfold_invariant:
  assumes "rfold f xs s = Ok t" and "P s"
    and "\<And>x s t. x \<in> set xs \<Longrightarrow> P s \<Longrightarrow> f x s = Ok t \<Longrightarrow> P t"
  shows "P t"
  using assms by (induction xs arbitrary: s) auto

subsection \<open>State passing\<close>

text \<open>
  A method on \<open>&mut self\<close> maps the state to an outcome and the new state; the state after an
  error is the one the error left behind.
\<close>

type_synonym ('s, 'e, 'a) rsm = "'s \<Rightarrow> ('e, 'a) res \<times> 's"

definition sret :: "'a \<Rightarrow> ('s, 'e, 'a) rsm" where
  "sret x = (\<lambda>s. (Ok x, s))"

definition sfail :: "'e \<Rightarrow> ('s, 'e, 'a) rsm" where
  "sfail e = (\<lambda>s. (Err e, s))"

definition slift :: "('e, 'a) res \<Rightarrow> ('s, 'e, 'a) rsm" where
  "slift r = (\<lambda>s. (r, s))"

definition sbind :: "('s, 'e, 'a) rsm \<Rightarrow> ('a \<Rightarrow> ('s, 'e, 'b) rsm) \<Rightarrow> ('s, 'e, 'b) rsm" where
  "sbind m f = (\<lambda>s. case m s of
       (Ok x, t) \<Rightarrow> f x t
     | (Err e, t) \<Rightarrow> (Err e, t)
     | (Panic, t) \<Rightarrow> (Panic, t))"

lemma sret_apply [simp]: "sret x s = (Ok x, s)"
  by (simp add: sret_def)

lemma sfail_apply [simp]: "sfail e s = (Err e, s)"
  by (simp add: sfail_def)

lemma slift_apply [simp]: "slift r s = (r, s)"
  by (simp add: slift_def)

lemma sbind_Ok_iff [simp]:
  "sbind m f s = (Ok y, u) \<longleftrightarrow> (\<exists>x t. m s = (Ok x, t) \<and> f x t = (Ok y, u))"
  by (auto simp: sbind_def split: prod.splits res.splits)

lemma sbind_eqs:
  "m s = (Ok x, t) \<Longrightarrow> sbind m f s = f x t"
  "m s = (Err e, t) \<Longrightarrow> sbind m f s = (Err e, t)"
  "m s = (Panic, t) \<Longrightarrow> sbind m f s = (Panic, t)"
  by (simp_all add: sbind_def)

lemma sbind_sret [simp]: "sbind (sret x) f = f x"
  by (simp add: sbind_def sret_def)

subsection \<open>Little-endian encodings\<close>

definition to_le :: "nat \<Rightarrow> 'w::len word \<Rightarrow> u8 list" where
  "to_le n w = map (\<lambda>i. ucast (drop_bit (8 * i) w)) [0..<n]"

primrec from_le :: "u8 list \<Rightarrow> 'w::len word" where
  "from_le [] = 0"
| "from_le (b # bs) = ucast b OR push_bit 8 (from_le bs)"

lemma length_to_le [simp]: "length (to_le n w) = n"
  by (simp add: to_le_def)

lemma bit_from_le:
  "bit (from_le bs :: 'w::len word) k \<longleftrightarrow>
     k < LENGTH('w) \<and> k div 8 < length bs \<and> bit (bs ! (k div 8)) (k mod 8)"
proof (induction bs arbitrary: k)
  case Nil
  then show ?case by simp
next
  case (Cons b bs)
  show ?case
  proof (cases "k < 8")
    case True
    then show ?thesis
      by (auto simp: bit_simps)
  next
    case False
    then obtain j where j: "k = j + 8"
      by (metis add.commute le_Suc_ex not_less)
    have "\<not> bit b k" using False by (auto dest: bit_imp_le_length)
    moreover have "(j + 8) div 8 = Suc (j div 8)" by simp
    ultimately show ?thesis
      using Cons.IH [of j] by (auto simp: bit_simps j)
  qed
qed

lemma from_le_to_le:
  assumes "LENGTH('w::len) = 8 * n"
  shows "from_le (to_le n (w :: 'w word)) = w"
proof (rule bit_word_eqI)
  fix k
  assume k: "k < LENGTH('w)"
  then have "k div 8 < n" using assms by (simp add: div_less_iff_less_mult mult.commute)
  then show "bit (from_le (to_le n w) :: 'w word) k = bit w k"
    using k by (auto simp: bit_from_le to_le_def bit_simps)
qed

lemma to_le_from_le:
  assumes "LENGTH('w::len) = 8 * n" and "length bs = n"
  shows "to_le n (from_le bs :: 'w word) = bs"
proof (rule nth_equalityI)
  show "length (to_le n (from_le bs :: 'w word)) = length bs"
    using assms by simp
next
  fix i
  assume "i < length (to_le n (from_le bs :: 'w word))"
  then have i: "i < n" by simp
  show "to_le n (from_le bs :: 'w word) ! i = bs ! i"
  proof (rule bit_word_eqI)
    fix k
    assume k: "k < LENGTH(8)"
    then have "(8 * i + k) div 8 = i" "(8 * i + k) mod 8 = k" "8 * i + k < 8 * n"
      using i by auto
    then show "bit (to_le n (from_le bs :: 'w word) ! i) k = bit (bs ! i) k"
      using i k assms by (auto simp: to_le_def bit_simps bit_from_le)
  qed
qed

lemma from_le_32: "from_le (to_le 4 (w :: 32 word)) = w"
  by (rule from_le_to_le) simp

lemma from_le_64: "from_le (to_le 8 (w :: 64 word)) = w"
  by (rule from_le_to_le) simp

text \<open>\<open>as_chunks\<close>: consecutive chunks of \<open>n\<close> elements; a shorter rest is left out.\<close>

fun chunks_exact :: "nat \<Rightarrow> 'a list \<Rightarrow> 'a list list" where
  "chunks_exact n xs =
     (if n = 0 \<or> length xs < n then [] else take n xs # chunks_exact n (drop n xs))"

declare chunks_exact.simps [simp del]

lemma length_chunks_exact: "0 < n \<Longrightarrow> length (chunks_exact n xs) = length xs div n"
proof (induction n xs rule: chunks_exact.induct)
  case (1 n xs)
  show ?case
  proof (cases "length xs < n")
    case True
    then show ?thesis by (subst chunks_exact.simps) simp
  next
    case False
    then have "length xs div n = Suc ((length xs - n) div n)"
      using 1 by (simp add: le_div_geq)
    then show ?thesis
      using 1 False by (subst chunks_exact.simps) simp
  qed
qed

lemma concat_chunks_exact: "0 < n \<Longrightarrow> n dvd length xs \<Longrightarrow> concat (chunks_exact n xs) = xs"
proof (induction n xs rule: chunks_exact.induct)
  case (1 n xs)
  show ?case
  proof (cases "length xs < n")
    case True
    then show ?thesis using 1 by (subst chunks_exact.simps) (auto dest: dvd_imp_le)
  next
    case False
    then show ?thesis
      using 1 by (subst chunks_exact.simps) (simp add: dvd_diff_nat)
  qed
qed

lemma chunks_exact_length: "c \<in> set (chunks_exact n xs) \<Longrightarrow> length c = n"
proof (induction n xs rule: chunks_exact.induct)
  case (1 n xs)
  then show ?case
    by (subst (asm) (2) chunks_exact.simps) (auto split: if_splits)
qed

end
