(* ===== verification/Target_Memory.thy ===== *)
theory Target_Memory
  imports Prelude
begin

text \<open>
  The memory map of a target description (probe-rs-target/src/memory.rs): address ranges, the
  RAM, NVM and generic regions with their access rights, and the iterator that merges
  adjacent RAM regions. A \<open>Range<u64>\<close> is a pair of bounds, the end exclusive.
\<close>

subsection \<open>Ranges\<close>

record urange =
  rstart :: nat
  rend :: nat

abbreviation mk_range :: "nat \<Rightarrow> nat \<Rightarrow> urange" where
  "mk_range a b \<equiv> \<lparr>rstart = a, rend = b\<rparr>"

text \<open>\<open>Range::contains\<close> of the standard library, and the addresses of a range.\<close>

definition in_range :: "urange \<Rightarrow> nat \<Rightarrow> bool" where
  "in_range r a \<longleftrightarrow> rstart r \<le> a \<and> a < rend r"

definition addrs :: "urange \<Rightarrow> nat set" where
  "addrs r = {rstart r..<rend r}"

definition contains_range :: "urange \<Rightarrow> urange \<Rightarrow> bool" where
  "contains_range self r =
     (if rend r = 0 then False
      else in_range self (rstart r) \<and> in_range self (rend r - 1))"

definition intersects_range :: "urange \<Rightarrow> urange \<Rightarrow> bool" where
  "intersects_range self r =
     (if rend r = 0 then False
      else (in_range self (rstart r) \<and> \<not> in_range self (rend r - 1))
         \<or> (\<not> in_range self (rstart r) \<and> in_range self (rend r - 1))
         \<or> contains_range self r
         \<or> contains_range r self)"

definition align_to_32_bits :: "urange \<Rightarrow> urange" where
  "align_to_32_bits self =
     (let s = (if rstart self mod 4 \<noteq> 0 then rstart self - rstart self mod 4 else rstart self);
          e = (if rend self mod 4 \<noteq> 0 then
                 (case checked_add64 (rend self) (4 - rend self mod 4) of
                    Some new_end \<Rightarrow> new_end
                  | None \<Rightarrow> rend self)
               else rend self)
      in \<lparr>rstart = s, rend = e\<rparr>)"

lemma in_range_addrs: "in_range r a \<longleftrightarrow> a \<in> addrs r"
  by (simp add: in_range_def addrs_def)

lemma contains_range_iff:
  assumes "rstart r < rend r"
  shows "contains_range self r \<longleftrightarrow> rstart self \<le> rstart r \<and> rend r \<le> rend self"
  using assms by (auto simp: contains_range_def in_range_def)

lemma contains_range_start:
  "contains_range self r \<Longrightarrow> rstart self \<le> rstart r \<and> rstart r < rend self \<and> rend r \<le> rend self"
  by (auto simp: contains_range_def in_range_def split: if_splits)

lemma contains_range_addrs:
  assumes "rstart r < rend r"
  shows "contains_range self r \<longleftrightarrow> addrs r \<subseteq> addrs self"
  using assms by (simp add: contains_range_iff addrs_def ivl_subset)

lemma intersects_range_addrs:
  assumes "rstart r < rend r" "rstart self < rend self"
  shows "intersects_range self r \<longleftrightarrow> addrs self \<inter> addrs r \<noteq> {}"
proof
  assume "intersects_range self r"
  then have "rstart r \<in> addrs self \<or> rend r - 1 \<in> addrs self \<or> rstart self \<in> addrs r"
    using assms by (auto simp: intersects_range_def contains_range_def in_range_addrs split: if_splits)
  moreover have "rstart r \<in> addrs r" "rend r - 1 \<in> addrs r" "rstart self \<in> addrs self"
    using assms by (auto simp: addrs_def)
  ultimately show "addrs self \<inter> addrs r \<noteq> {}" by blast
next
  assume "addrs self \<inter> addrs r \<noteq> {}"
  then have "max (rstart self) (rstart r) < min (rend self) (rend r)"
    by (auto simp: addrs_def)
  then show "intersects_range self r"
    using assms by (auto simp: intersects_range_def contains_range_def in_range_def)
qed

subsection \<open>Regions\<close>

record memory_access =
  acc_read :: bool
  acc_write :: bool
  acc_execute :: bool
  acc_boot :: bool

definition default_access :: memory_access where
  "default_access = \<lparr>acc_read = True, acc_write = True, acc_execute = True, acc_boot = False\<rparr>"

record nvm_region =
  nr_name :: "string option"
  nr_range :: urange
  nr_cores :: "string list"
  nr_memory_ports :: "string list"
  nr_is_alias :: bool
  nr_access_opt :: "memory_access option"

record ram_region =
  rr_name :: "string option"
  rr_range :: urange
  rr_cores :: "string list"
  rr_memory_ports :: "string list"
  rr_is_alias :: bool
  rr_access_opt :: "memory_access option"

record generic_region =
  gr_name :: "string option"
  gr_range :: urange
  gr_cores :: "string list"
  gr_memory_ports :: "string list"
  gr_access_opt :: "memory_access option"

definition unwrap_access :: "memory_access option \<Rightarrow> memory_access" where
  "unwrap_access a = (case a of Some x \<Rightarrow> x | None \<Rightarrow> default_access)"

definition nvm_accessible_by :: "nvm_region \<Rightarrow> string \<Rightarrow> bool" where
  "nvm_accessible_by self name \<longleftrightarrow>
     name \<in> set (nr_cores self) \<or> name \<in> set (nr_memory_ports self)"

definition nvm_access :: "nvm_region \<Rightarrow> memory_access" where
  "nvm_access self = unwrap_access (nr_access_opt self)"

definition nvm_is_readable :: "nvm_region \<Rightarrow> bool" where
  "nvm_is_readable self = acc_read (nvm_access self)"

definition nvm_is_writable :: "nvm_region \<Rightarrow> bool" where
  "nvm_is_writable self = acc_write (nvm_access self)"

definition nvm_is_executable :: "nvm_region \<Rightarrow> bool" where
  "nvm_is_executable self = acc_execute (nvm_access self)"

definition nvm_is_boot_memory :: "nvm_region \<Rightarrow> bool" where
  "nvm_is_boot_memory self = acc_boot (nvm_access self)"

definition nvm_info :: "nvm_region \<Rightarrow> nat" where
  "nvm_info self = rstart (nr_range self)"

definition ram_accessible_by :: "ram_region \<Rightarrow> string \<Rightarrow> bool" where
  "ram_accessible_by self name \<longleftrightarrow>
     name \<in> set (rr_cores self) \<or> name \<in> set (rr_memory_ports self)"

definition ram_access :: "ram_region \<Rightarrow> memory_access" where
  "ram_access self = unwrap_access (rr_access_opt self)"

definition ram_is_readable :: "ram_region \<Rightarrow> bool" where
  "ram_is_readable self = acc_read (ram_access self)"

definition ram_is_writable :: "ram_region \<Rightarrow> bool" where
  "ram_is_writable self = acc_write (ram_access self)"

definition ram_is_executable :: "ram_region \<Rightarrow> bool" where
  "ram_is_executable self = acc_execute (ram_access self)"

definition ram_is_boot_memory :: "ram_region \<Rightarrow> bool" where
  "ram_is_boot_memory self = acc_boot (ram_access self)"

definition generic_accessible_by :: "generic_region \<Rightarrow> string \<Rightarrow> bool" where
  "generic_accessible_by self name \<longleftrightarrow>
     name \<in> set (gr_cores self) \<or> name \<in> set (gr_memory_ports self)"

definition generic_access :: "generic_region \<Rightarrow> memory_access" where
  "generic_access self = unwrap_access (gr_access_opt self)"

datatype memory_region = Ram ram_region | Generic generic_region | Nvm nvm_region

fun as_ram_region :: "memory_region \<Rightarrow> ram_region option" where
  "as_ram_region (Ram r) = Some r"
| "as_ram_region _ = None"

fun as_nvm_region :: "memory_region \<Rightarrow> nvm_region option" where
  "as_nvm_region (Nvm r) = Some r"
| "as_nvm_region _ = None"

fun address_range :: "memory_region \<Rightarrow> urange" where
  "address_range (Ram r) = rr_range r"
| "address_range (Generic r) = gr_range r"
| "address_range (Nvm r) = nr_range r"

definition region_contains :: "memory_region \<Rightarrow> nat \<Rightarrow> bool" where
  "region_contains self a = in_range (address_range self) a"

fun region_cores :: "memory_region \<Rightarrow> string list" where
  "region_cores (Ram r) = rr_cores r"
| "region_cores (Generic r) = gr_cores r"
| "region_cores (Nvm r) = nr_cores r"

fun region_memory_ports :: "memory_region \<Rightarrow> string list" where
  "region_memory_ports (Ram r) = rr_memory_ports r"
| "region_memory_ports (Generic r) = gr_memory_ports r"
| "region_memory_ports (Nvm r) = nr_memory_ports r"

fun region_accessible_by :: "memory_region \<Rightarrow> string \<Rightarrow> bool" where
  "region_accessible_by (Ram r) n = ram_accessible_by r n"
| "region_accessible_by (Generic r) n = generic_accessible_by r n"
| "region_accessible_by (Nvm r) n = nvm_accessible_by r n"

fun is_ram :: "memory_region \<Rightarrow> bool" where
  "is_ram (Ram _) = True"
| "is_ram _ = False"

fun is_nvm :: "memory_region \<Rightarrow> bool" where
  "is_nvm (Nvm _) = True"
| "is_nvm _ = False"

text \<open>\<open>filter_map(as_ram_region)\<close>, the way every client reads the RAM of a memory map.\<close>

definition ram_regions :: "memory_region list \<Rightarrow> ram_region list" where
  "ram_regions = List.map_filter as_ram_region"

lemma region_accessible_by_iff:
  "region_accessible_by m n \<longleftrightarrow> n \<in> set (region_cores m) \<or> n \<in> set (region_memory_ports m)"
  by (cases m)
    (auto simp: ram_accessible_by_def generic_accessible_by_def nvm_accessible_by_def)

lemma set_ram_regions: "r \<in> set (ram_regions ms) \<longleftrightarrow> Ram r \<in> set ms"
proof (induction ms)
  case Nil
  then show ?case by (simp add: ram_regions_def)
next
  case (Cons m ms)
  then show ?case by (cases m) (auto simp: ram_regions_def List.map_filter_simps)
qed

subsection \<open>Merging adjacent RAM regions\<close>

text \<open>
  \<open>absorb\<close> is the \<open>while let Some(next) = self.iter.peek()\<close> loop of \<open>MergeConsecutive::next\<close>;
  the underlying iterator is the list of regions it has still to yield.
\<close>

definition merge_stops :: "ram_region \<Rightarrow> ram_region \<Rightarrow> bool" where
  "merge_stops region nxt \<longleftrightarrow>
     rend (rr_range region) \<noteq> rstart (rr_range nxt)
     \<or> rr_access_opt region \<noteq> rr_access_opt nxt
     \<or> rr_is_alias region \<noteq> rr_is_alias nxt"

definition common_cores :: "ram_region \<Rightarrow> ram_region \<Rightarrow> string list" where
  "common_cores region nxt = filter (\<lambda>c. c \<in> set (rr_cores nxt)) (rr_cores region)"

definition merge_into :: "ram_region \<Rightarrow> ram_region \<Rightarrow> ram_region" where
  "merge_into region nxt = region\<lparr>
     rr_cores := common_cores region nxt,
     rr_memory_ports :=
       filter (\<lambda>p. p \<in> set (rr_memory_ports nxt)) (rr_memory_ports region),
     rr_range := (rr_range region)\<lparr>rend := rend (rr_range nxt)\<rparr>\<rparr>"

fun absorb :: "ram_region \<Rightarrow> ram_region list \<Rightarrow> ram_region \<times> ram_region list" where
  "absorb region [] = (region, [])"
| "absorb region (nxt # rest) =
     (if merge_stops region nxt then (region, nxt # rest)
      else if common_cores region nxt = [] then (region, nxt # rest)
      else absorb (merge_into region nxt) rest)"

fun merge_next :: "ram_region list \<Rightarrow> (ram_region \<times> ram_region list) option" where
  "merge_next [] = None"
| "merge_next (r # rs) = Some (absorb r rs)"

lemma absorb_length: "length (snd (absorb r rs)) \<le> length rs"
  by (induction r rs rule: absorb.induct) auto

text \<open>All the regions the iterator yields.\<close>

function merge_consecutive :: "ram_region list \<Rightarrow> ram_region list" where
  "merge_consecutive rs =
     (case merge_next rs of
        None \<Rightarrow> []
      | Some (r, rest) \<Rightarrow> r # merge_consecutive rest)"
  by pat_completeness auto
termination
proof (relation "measure length", simp)
  fix rs x r rest
  assume "merge_next rs = Some x" and x: "(r, rest) = x"
  then obtain q qs where rs: "rs = q # qs" and ab: "absorb q qs = (r, rest)"
    by (cases rs) auto
  have "length rest \<le> length qs"
    using absorb_length [of q qs] ab by simp
  then show "(rest, rs) \<in> measure length"
    by (simp add: rs)
qed

declare merge_consecutive.simps [simp del]

text \<open>
  What merging promises: a merged region is a sequence of input regions laid end to end,
  all of which its cores and memory ports can access, with its access rights.
\<close>

definition range_ok :: "ram_region \<Rightarrow> bool" where
  "range_ok r \<longleftrightarrow> rstart (rr_range r) \<le> rend (rr_range r)"

definition ram_addrs :: "ram_region \<Rightarrow> nat set" where
  "ram_addrs r = addrs (rr_range r)"

definition covers :: "ram_region list \<Rightarrow> ram_region \<Rightarrow> bool" where
  "covers rs m \<longleftrightarrow>
     (\<forall>a \<in> ram_addrs m. \<exists>r \<in> set rs. a \<in> ram_addrs r
        \<and> set (rr_cores m) \<subseteq> set (rr_cores r)
        \<and> set (rr_memory_ports m) \<subseteq> set (rr_memory_ports r)
        \<and> rr_access_opt r = rr_access_opt m \<and> rr_is_alias r = rr_is_alias m)"

lemma covers_self: "r \<in> set rs \<Longrightarrow> covers rs r"
  by (auto simp: covers_def)

lemma covers_mono: "covers rs m \<Longrightarrow> set rs \<subseteq> set ss \<Longrightarrow> covers ss m"
  unfolding covers_def by (meson subsetD)

lemma merge_into_addrs:
  assumes "\<not> merge_stops m n" "range_ok m" "range_ok n"
  shows "ram_addrs (merge_into m n) = ram_addrs m \<union> ram_addrs n" "range_ok (merge_into m n)"
  using assms by (auto simp: merge_into_def merge_stops_def range_ok_def ram_addrs_def addrs_def)

lemma merge_into_covers:
  assumes "\<not> merge_stops m n" "covers rs m" "n \<in> set rs" "range_ok m" "range_ok n"
  shows "covers rs (merge_into m n)"
  unfolding covers_def
proof
  fix a
  assume "a \<in> ram_addrs (merge_into m n)"
  then consider "a \<in> ram_addrs m" | "a \<in> ram_addrs n"
    using merge_into_addrs(1) [OF assms(1,4,5)] by blast
  then obtain r where r: "r \<in> set rs" "a \<in> ram_addrs r"
    "set (rr_cores m) \<inter> set (rr_cores n) \<subseteq> set (rr_cores r)"
    "set (rr_memory_ports m) \<inter> set (rr_memory_ports n) \<subseteq> set (rr_memory_ports r)"
    "rr_access_opt r = rr_access_opt m" "rr_is_alias r = rr_is_alias m"
  proof cases
    case 1
    then obtain r where "r \<in> set rs" "a \<in> ram_addrs r" "set (rr_cores m) \<subseteq> set (rr_cores r)"
      "set (rr_memory_ports m) \<subseteq> set (rr_memory_ports r)"
      "rr_access_opt r = rr_access_opt m" "rr_is_alias r = rr_is_alias m"
      using assms(2) unfolding covers_def by blast
    then show ?thesis by (intro that [of r]) auto
  next
    case 2
    then show ?thesis
      using assms(1,3) by (intro that [of n]) (auto simp: merge_stops_def)
  qed
  have "set (rr_cores (merge_into m n)) \<subseteq> set (rr_cores m) \<inter> set (rr_cores n)"
    "set (rr_memory_ports (merge_into m n)) \<subseteq> set (rr_memory_ports m) \<inter> set (rr_memory_ports n)"
    "rr_access_opt (merge_into m n) = rr_access_opt m"
    "rr_is_alias (merge_into m n) = rr_is_alias m"
    by (auto simp: merge_into_def common_cores_def)
  with r show "\<exists>r \<in> set rs. a \<in> ram_addrs r
      \<and> set (rr_cores (merge_into m n)) \<subseteq> set (rr_cores r)
      \<and> set (rr_memory_ports (merge_into m n)) \<subseteq> set (rr_memory_ports r)
      \<and> rr_access_opt r = rr_access_opt (merge_into m n)
      \<and> rr_is_alias r = rr_is_alias (merge_into m n)"
    by (intro bexI [of _ r]) auto
qed

lemma absorb_sound:
  assumes "absorb r ns = (m, rest)" "range_ok r" "\<forall>n \<in> set ns. range_ok n"
    "covers S r" "set ns \<subseteq> set S"
  shows "range_ok m \<and> covers S m \<and> set rest \<subseteq> set ns
    \<and> ram_addrs m \<union> (\<Union>n \<in> set rest. ram_addrs n) = ram_addrs r \<union> (\<Union>n \<in> set ns. ram_addrs n)"
  using assms
proof (induction r ns rule: absorb.induct)
  case (1 region)
  then show ?case by simp
next
  case (2 region nxt rest')
  show ?case
  proof (cases "merge_stops region nxt \<or> common_cores region nxt = []")
    case True
    then have "m = region \<and> rest = nxt # rest'"
      using "2.prems"(1) by (auto split: if_splits)
    then show ?thesis using "2.prems" by simp
  next
    case False
    then have stops: "\<not> merge_stops region nxt" by simp
    have "range_ok (merge_into region nxt)"
      and addrs: "ram_addrs (merge_into region nxt) = ram_addrs region \<union> ram_addrs nxt"
      using merge_into_addrs [OF stops] "2.prems" by simp_all
    moreover have "covers S (merge_into region nxt)"
      using merge_into_covers [OF stops] "2.prems" by simp
    ultimately have "range_ok m \<and> covers S m \<and> set rest \<subseteq> set rest'
      \<and> ram_addrs m \<union> (\<Union>n \<in> set rest. ram_addrs n)
        = ram_addrs (merge_into region nxt) \<union> (\<Union>n \<in> set rest'. ram_addrs n)"
      using "2.IH" False "2.prems" by simp
    then show ?thesis using addrs by auto
  qed
qed

lemma merge_consecutive_Nil [simp]: "merge_consecutive [] = []"
  by (simp add: merge_consecutive.simps)

lemma merge_consecutive_Cons:
  "merge_consecutive (r # rs) = fst (absorb r rs) # merge_consecutive (snd (absorb r rs))"
  by (subst merge_consecutive.simps) (simp add: case_prod_unfold)

lemma merge_consecutive_sound:
  assumes "\<forall>r \<in> set rs. range_ok r" "set rs \<subseteq> set S"
  shows "(\<forall>m \<in> set (merge_consecutive rs). range_ok m \<and> covers S m)
    \<and> (\<Union>m \<in> set (merge_consecutive rs). ram_addrs m) = (\<Union>r \<in> set rs. ram_addrs r)"
  using assms
proof (induction rs rule: length_induct)
  case (1 rs)
  show ?case
  proof (cases rs)
    case Nil
    then show ?thesis by simp
  next
    case (Cons q qs)
    obtain m rest where ab: "absorb q qs = (m, rest)" by fastforce
    have "length rest < length rs"
      using absorb_length [of q qs] ab Cons by simp
    moreover have "range_ok m \<and> covers S m \<and> set rest \<subseteq> set qs
        \<and> ram_addrs m \<union> (\<Union>n \<in> set rest. ram_addrs n) = ram_addrs q \<union> (\<Union>n \<in> set qs. ram_addrs n)"
      using absorb_sound [OF ab, of S] "1.prems" Cons by (simp add: covers_self)
    ultimately show ?thesis
      using 1 Cons ab by (auto simp: merge_consecutive_Cons subset_iff)
  qed
qed

subsection \<open>Properties\<close>

text \<open>On non-empty ranges \<open>contains_range\<close> decides inclusion of the address sets and
  \<open>intersects_range\<close> decides whether they meet.\<close>

theorem range_tests_decide:
  assumes "rstart r < rend r" "rstart self < rend self"
  shows "(contains_range self r \<longleftrightarrow> addrs r \<subseteq> addrs self)
    \<and> (intersects_range self r \<longleftrightarrow> addrs self \<inter> addrs r \<noteq> {})"
  using contains_range_addrs [OF assms(1)] intersects_range_addrs [OF assms] by simp

theorem range_tests_decide_witness:
  "intersects_range (mk_range 2 9) (mk_range 8 12) \<and> \<not> contains_range (mk_range 2 9) (mk_range 8 12)"
proof -
  have "rstart (mk_range 8 12) < rend (mk_range 8 12)" "rstart (mk_range 2 9) < rend (mk_range 2 9)"
    by simp_all
  from range_tests_decide [OF this] show ?thesis by (auto simp: addrs_def)
qed

text \<open>Merging RAM regions is safe: a merged region lists a core or memory port only if it can
  reach every address of the region, every address keeps its access rights and alias flag, and
  no address is gained or lost.\<close>

theorem merge_consecutive_safe:
  assumes "\<forall>r \<in> set rs. rstart (rr_range r) \<le> rend (rr_range r)"
  shows "(\<forall>m \<in> set (merge_consecutive rs). \<forall>a \<in> ram_addrs m. \<exists>r \<in> set rs. a \<in> ram_addrs r
        \<and> set (rr_cores m) \<subseteq> set (rr_cores r)
        \<and> set (rr_memory_ports m) \<subseteq> set (rr_memory_ports r)
        \<and> rr_access_opt r = rr_access_opt m \<and> rr_is_alias r = rr_is_alias m)
    \<and> (\<Union>m \<in> set (merge_consecutive rs). ram_addrs m) = (\<Union>r \<in> set rs. ram_addrs r)"
proof -
  have "\<forall>r \<in> set rs. range_ok r" using assms by (simp add: range_ok_def)
  from merge_consecutive_sound [OF this order_refl] show ?thesis
    by (simp add: covers_def)
qed

theorem merge_consecutive_safe_witness:
  "\<exists>a b. (\<Union>m \<in> set (merge_consecutive [a, b]). ram_addrs m) = {0..<32}"
proof -
  define a where "a = \<lparr>rr_name = None, rr_range = mk_range 0 16, rr_cores = [''c0''],
    rr_memory_ports = [], rr_is_alias = False, rr_access_opt = None\<rparr>"
  define b where "b = a\<lparr>rr_range := mk_range 16 32, rr_cores := [''c0'', ''c1'']\<rparr>"
  have "\<forall>r \<in> set [a, b]. rstart (rr_range r) \<le> rend (rr_range r)"
    by (simp add: a_def b_def)
  from merge_consecutive_safe [OF this]
  have "(\<Union>m \<in> set (merge_consecutive [a, b]). ram_addrs m) = ram_addrs a \<union> ram_addrs b"
    by simp
  also have "\<dots> = {0..<32}"
    by (auto simp: a_def b_def ram_addrs_def addrs_def)
  finally show ?thesis by blast
qed

end
