(* ===== verification/Flash_Error.thy ===== *)
theory Flash_Error
  imports Target_Memory
begin

text \<open>
  The error type of the flashing code (probe-rs/src/flashing/error.rs), with the variants that
  the modelled functions return. A region in an error is the region, a range the range.
\<close>

datatype flash_error =
    DataOverlaps urange urange
  | MissingRamAlgorithmField string string
  | InvalidFlashAlgorithmLoadAddress nat
  | InvalidFlashAlgorithmStackSize nat
  | InvalidDataAddress nat urange
  | NoRamDefined string
  | NoFlashLoaderAlgorithmAttached string urange
  | MultipleDefaultFlashLoaderAlgorithms nvm_region
  | MultipleFlashLoaderAlgorithmsNoDefault nvm_region

type_synonym 'a flash_res = "(flash_error, 'a) res"

end
