(* ===== verification/Flash_Properties.thy ===== *)
theory Flash_Properties
  imports Flash_Error
begin

text \<open>
  Sectors and pages of a flash (probe-rs-target/src/flash_properties.rs and the descriptions
  in memory.rs). A flash is described by groups of equally sized sectors; the code offers two
  views of it, an iterator over all sectors and a lookup of the sector of an address, and the
  same for pages. The properties say when the iterators end and that the two views agree.
\<close>

subsection \<open>Data\<close>

record sector_info =
  si_base :: nat
  si_size :: nat

definition sector_range :: "sector_info \<Rightarrow> urange flash_res" where
  "sector_range s = rmap (mk_range (si_base s)) (add64 (si_base s) (si_size s))"

record sector_description =
  sd_size :: nat
  sd_address :: nat

record page_info =
  pi_base :: nat
  pi_size :: nat

definition page_range :: "page_info \<Rightarrow> urange flash_res" where
  "page_range p = rmap (mk_range (pi_base p)) (add64 (pi_base p) (pi_size p))"

record flash_properties =
  fp_address_range :: urange
  fp_page_size :: nat
  fp_erased_byte_value :: u8
  fp_program_page_timeout :: nat
  fp_erase_sector_timeout :: nat
  fp_sectors :: "sector_description list"

abbreviation fp_start :: "flash_properties \<Rightarrow> nat" where
  "fp_start p \<equiv> rstart (fp_address_range p)"

abbreviation fp_end :: "flash_properties \<Rightarrow> nat" where
  "fp_end p \<equiv> rend (fp_address_range p)"

definition default_flash_properties :: flash_properties where
  "default_flash_properties = \<lparr>fp_address_range = mk_range 0 0, fp_page_size = 0,
     fp_erased_byte_value = 0, fp_program_page_timeout = 0, fp_erase_sector_timeout = 0,
     fp_sectors = []\<rparr>"

subsection \<open>Lookup of a sector and of a page\<close>

definition sector_info_at :: "flash_properties \<Rightarrow> nat \<Rightarrow> (sector_info option) flash_res" where
  "sector_info_at p address =
     (if \<not> in_range (fp_address_range p) address then Ok None
      else rbind (sub_r address (fp_start p)) (\<lambda>offset_address.
        (case List.find (\<lambda>s. sd_address s \<le> offset_address) (rev (fp_sectors p)) of
           None \<Rightarrow> Ok None
         | Some cs \<Rightarrow>
             rbind (sub_r offset_address (sd_address cs)) (\<lambda>d.
             rbind (div_r d (sd_size cs)) (\<lambda>sector_index.
             rbind (add64 (fp_start p) (sd_address cs)) (\<lambda>base.
             rbind (mul64 sector_index (sd_size cs)) (\<lambda>off.
             rbind (add64 base off) (\<lambda>sector_address.
               Ok (Some \<lparr>si_base = sector_address, si_size = sd_size cs\<rparr>)))))))))"

definition page_info_at :: "flash_properties \<Rightarrow> nat \<Rightarrow> (page_info option) flash_res" where
  "page_info_at p address =
     (if \<not> in_range (fp_address_range p) address then Ok None
      else rbind (mod_r address (fp_page_size p)) (\<lambda>r.
           rbind (sub_r address r) (\<lambda>base.
             Ok (Some \<lparr>pi_base = base, pi_size = fp_page_size p\<rparr>))))"

subsection \<open>Iteration\<close>

text \<open>
  The closures given to \<open>iter::from_fn\<close> own the current address and, for sectors, the index
  of the current group. \<open>sector_next\<close> and \<open>page_next\<close> are one call of the closure; the
  iteration is run until it yields nothing, and does not return for a sector or page size
  of zero (\<open>None\<close>).
\<close>

definition sector_next ::
  "flash_properties \<Rightarrow> nat \<Rightarrow> nat \<Rightarrow> ((sector_info \<times> nat \<times> nat) option) flash_res" where
  "sector_next p addr desc_idx =
     (if fp_end p \<le> addr then Ok None
      else
        rbind (case nth_opt (fp_sectors p) (desc_idx + 1) of
                 None \<Rightarrow> Ok desc_idx
               | Some next_desc \<Rightarrow>
                   rbind (add64 (fp_start p) (sd_address next_desc)) (\<lambda>a.
                     Ok (if a \<le> addr then desc_idx + 1 else desc_idx))) (\<lambda>idx.
        rbind (nth_r (fp_sectors p) idx) (\<lambda>desc.
        rbind (add64 addr (sd_size desc)) (\<lambda>addr'.
          Ok (Some (\<lparr>si_base = addr, si_size = sd_size desc\<rparr>, addr', idx))))))"

partial_function (option) sectors_from ::
  "flash_properties \<Rightarrow> nat \<Rightarrow> nat \<Rightarrow> (sector_info list) flash_res option" where
  "sectors_from p addr desc_idx =
     (case sector_next p addr desc_idx of
        Err e \<Rightarrow> Some (Err e)
      | Panic \<Rightarrow> Some Panic
      | Ok None \<Rightarrow> Some (Ok [])
      | Ok (Some (s, addr', idx)) \<Rightarrow>
          Option.bind (sectors_from p addr' idx) (\<lambda>r. Some (rmap (\<lambda>ss. s # ss) r)))"

definition iter_sectors :: "flash_properties \<Rightarrow> (sector_info list) flash_res option" where
  "iter_sectors p =
     (case fp_sectors p of
        [] \<Rightarrow> Some Panic
      | first # _ \<Rightarrow>
          if sd_address first \<noteq> 0 then Some Panic else sectors_from p (fp_start p) 0)"

definition page_next :: "flash_properties \<Rightarrow> nat \<Rightarrow> ((page_info \<times> nat) option) flash_res" where
  "page_next p addr =
     (if fp_end p \<le> addr then Ok None
      else rbind (add64 addr (fp_page_size p)) (\<lambda>addr'.
             Ok (Some (\<lparr>pi_base = addr, pi_size = fp_page_size p\<rparr>, addr'))))"

partial_function (option) pages_from ::
  "flash_properties \<Rightarrow> nat \<Rightarrow> (page_info list) flash_res option" where
  "pages_from p addr =
     (case page_next p addr of
        Err e \<Rightarrow> Some (Err e)
      | Panic \<Rightarrow> Some Panic
      | Ok None \<Rightarrow> Some (Ok [])
      | Ok (Some (pg, addr')) \<Rightarrow>
          Option.bind (pages_from p addr') (\<lambda>r. Some (rmap (\<lambda>ps. pg # ps) r)))"

definition iter_pages :: "flash_properties \<Rightarrow> (page_info list) flash_res option" where
  "iter_pages p = pages_from p (fp_start p)"

subsection \<open>Well-formed descriptions\<close>

text \<open>
  What a target description has to promise: positive sizes, a first group at offset zero,
  groups in ascending order, each made of whole sectors, and no address past the 64-bit space.
\<close>

definition aligned_groups :: "sector_description list \<Rightarrow> bool" where
  "aligned_groups ds \<longleftrightarrow>
     (\<forall>i. Suc i < length ds \<longrightarrow>
        sd_address (ds ! i) < sd_address (ds ! Suc i)
        \<and> sd_size (ds ! i) dvd sd_address (ds ! Suc i) - sd_address (ds ! i))"

definition wf_sectors :: "flash_properties \<Rightarrow> bool" where
  "wf_sectors p \<longleftrightarrow>
     fp_sectors p \<noteq> [] \<and> sd_address (hd (fp_sectors p)) = 0
     \<and> aligned_groups (fp_sectors p)
     \<and> (\<forall>d \<in> set (fp_sectors p). 0 < sd_size d \<and> fp_end p + sd_size d < 2 ^ 64
          \<and> fp_start p + sd_address d < 2 ^ 64)"

definition wf_pages :: "flash_properties \<Rightarrow> bool" where
  "wf_pages p \<longleftrightarrow> 0 < fp_page_size p \<and> fp_end p + fp_page_size p < 2 ^ 64"

text \<open>Laid end to end from \<open>a\<close> to \<open>b\<close>.\<close>

fun sectors_tile :: "nat \<Rightarrow> sector_info list \<Rightarrow> nat \<Rightarrow> bool" where
  "sectors_tile a [] b \<longleftrightarrow> a = b"
| "sectors_tile a (s # ss) b \<longleftrightarrow> si_base s = a \<and> 0 < si_size s \<and> sectors_tile (a + si_size s) ss b"

fun pages_tile :: "nat \<Rightarrow> page_info list \<Rightarrow> nat \<Rightarrow> bool" where
  "pages_tile a [] b \<longleftrightarrow> a = b"
| "pages_tile a (s # ss) b \<longleftrightarrow> pi_base s = a \<and> 0 < pi_size s \<and> pages_tile (a + pi_size s) ss b"

lemma sectors_tile_le: "sectors_tile a ss b \<Longrightarrow> a \<le> b"
  by (induction ss arbitrary: a) fastforce+

lemma pages_tile_le: "pages_tile a ps b \<Longrightarrow> a \<le> b"
  by (induction ps arbitrary: a) fastforce+

lemma sectors_tile_covers:
  "sectors_tile a ss b \<Longrightarrow> a \<le> x \<Longrightarrow> x < b \<Longrightarrow>
     \<exists>s \<in> set ss. si_base s \<le> x \<and> x < si_base s + si_size s"
proof (induction ss arbitrary: a)
  case Nil
  then show ?case by simp
next
  case (Cons s ss)
  then show ?case
    by (cases "x < a + si_size s") auto
qed

lemma pages_tile_covers:
  "pages_tile a ps b \<Longrightarrow> a \<le> x \<Longrightarrow> x < b \<Longrightarrow>
     \<exists>q \<in> set ps. pi_base q \<le> x \<and> x < pi_base q + pi_size q"
proof (induction ps arbitrary: a)
  case Nil
  then show ?case by simp
next
  case (Cons q ps)
  then show ?case
    by (cases "x < a + pi_size q") auto
qed

lemma pages_tile_bounds:
  "pages_tile a ps b \<Longrightarrow> q \<in> set ps \<Longrightarrow> a \<le> pi_base q \<and> pi_base q + pi_size q \<le> b"
proof (induction ps arbitrary: a)
  case Nil
  then show ?case by simp
next
  case (Cons r ps)
  then show ?case using pages_tile_le [of "a + pi_size r" ps b] by force
qed

lemma sectors_tile_bounds:
  "sectors_tile a ss b \<Longrightarrow> s \<in> set ss \<Longrightarrow> a \<le> si_base s \<and> si_base s + si_size s \<le> b"
proof (induction ss arbitrary: a)
  case Nil
  then show ?case by simp
next
  case (Cons r ss)
  then show ?case using sectors_tile_le [of "a + si_size r" ss b] by force
qed

subsection \<open>The sectors of a well-formed flash\<close>

lemma find_append: "List.find P (xs @ ys) = (case List.find P xs of Some x \<Rightarrow> Some x | None \<Rightarrow> List.find P ys)"
  by (induction xs) auto

lemma find_rev_Some:
  assumes "i < length xs" "P (xs ! i)" "\<And>j. i < j \<Longrightarrow> j < length xs \<Longrightarrow> \<not> P (xs ! j)"
  shows "List.find P (rev xs) = Some (xs ! i)"
proof -
  have split: "rev xs = rev (drop (Suc i) xs) @ xs ! i # rev (take i xs)"
    using arg_cong [OF id_take_nth_drop [OF assms(1)], of rev] by simp
  have "\<forall>x \<in> set (drop (Suc i) xs). \<not> P x"
    using assms(3) by (auto simp: in_set_conv_nth)
  then have "List.find P (rev (drop (Suc i) xs)) = None"
    by (auto simp: find_None_iff)
  then show ?thesis
    unfolding split using assms(2) by (simp add: find_append)
qed

lemma aligned_groups_mono:
  assumes "aligned_groups ds" "i < j" "j < length ds"
  shows "sd_address (ds ! i) < sd_address (ds ! j)"
  using assms(2,3)
proof (induction j)
  case 0
  then show ?case by simp
next
  case (Suc j)
  have "sd_address (ds ! j) < sd_address (ds ! Suc j)"
    using assms(1) Suc.prems by (simp add: aligned_groups_def)
  then show ?case
    using Suc by (cases "i = j") (auto simp: less_Suc_eq)
qed

text \<open>The state of the iterator between two calls.\<close>

definition iter_inv :: "flash_properties \<Rightarrow> nat \<Rightarrow> nat \<Rightarrow> bool" where
  "iter_inv p addr i \<longleftrightarrow>
     i < length (fp_sectors p) \<and> fp_start p \<le> addr
     \<and> fp_start p + sd_address (fp_sectors p ! i) \<le> addr
     \<and> sd_size (fp_sectors p ! i) dvd addr - fp_start p - sd_address (fp_sectors p ! i)
     \<and> (Suc i < length (fp_sectors p) \<longrightarrow> addr \<le> fp_start p + sd_address (fp_sectors p ! Suc i))"

text \<open>After the group index is advanced, the next group starts strictly later.\<close>

definition group_of :: "flash_properties \<Rightarrow> nat \<Rightarrow> nat \<Rightarrow> nat" where
  "group_of p addr i =
     (if Suc i < length (fp_sectors p) \<and> fp_start p + sd_address (fp_sectors p ! Suc i) \<le> addr
      then Suc i else i)"

lemma group_of_inv:
  assumes "wf_sectors p" "iter_inv p addr i"
  defines "j \<equiv> group_of p addr i"
  shows "iter_inv p addr j"
    "Suc j < length (fp_sectors p) \<Longrightarrow> addr < fp_start p + sd_address (fp_sectors p ! Suc j)"
proof -
  have al: "aligned_groups (fp_sectors p)" using assms(1) by (simp add: wf_sectors_def)
  show "iter_inv p addr j"
    using assms al by (auto simp: group_of_def iter_inv_def aligned_groups_def less_imp_le)
  show "addr < fp_start p + sd_address (fp_sectors p ! Suc j)" if "Suc j < length (fp_sectors p)"
    using assms al that
    by (auto simp: group_of_def iter_inv_def aligned_groups_def not_le split: if_splits)
qed

lemma sector_next_eq:
  assumes "wf_sectors p" "iter_inv p addr i" "addr < fp_end p"
  defines "d \<equiv> fp_sectors p ! group_of p addr i"
  shows "sector_next p addr i =
    Ok (Some (\<lparr>si_base = addr, si_size = sd_size d\<rparr>, addr + sd_size d, group_of p addr i))"
proof -
  have "iter_inv p addr (group_of p addr i)" using group_of_inv assms by simp
  then have "group_of p addr i < length (fp_sectors p)" by (simp add: iter_inv_def)
  moreover have "addr + sd_size (fp_sectors p ! group_of p addr i) < 2 ^ 64"
    using assms calculation unfolding wf_sectors_def by (meson nth_mem add_strict_right_mono less_trans)
  moreover have "Suc i < length (fp_sectors p) \<Longrightarrow> fp_start p + sd_address (fp_sectors p ! Suc i) < 2 ^ 64"
    using assms unfolding wf_sectors_def by (meson nth_mem)
  ultimately show ?thesis
    using assms(3) by (auto simp: sector_next_def d_def group_of_def res_simps nth_opt_def)
qed

lemma iter_inv_step:
  assumes "wf_sectors p" "iter_inv p addr i"
  defines "j \<equiv> group_of p addr i"
  shows "iter_inv p (addr + sd_size (fp_sectors p ! j)) j"
proof -
  define ds where "ds = fp_sectors p"
  define k where "k = addr - fp_start p - sd_address (ds ! j)"
  have inv: "iter_inv p addr j"
    and strict: "Suc j < length ds \<Longrightarrow> addr < fp_start p + sd_address (ds ! Suc j)"
    using group_of_inv [OF assms(1,2)] by (simp_all add: j_def ds_def)
  have k: "addr = fp_start p + sd_address (ds ! j) + k" "sd_size (ds ! j) dvd k"
    using inv by (auto simp: iter_inv_def ds_def k_def)
  have "addr + sd_size (ds ! j) \<le> fp_start p + sd_address (ds ! Suc j)" if "Suc j < length ds"
  proof -
    define g where "g = sd_address (ds ! Suc j) - sd_address (ds ! j)"
    have g: "sd_size (ds ! j) dvd g" "sd_address (ds ! Suc j) = sd_address (ds ! j) + g"
      using assms(1) that by (auto simp: wf_sectors_def aligned_groups_def ds_def g_def)
    then have "k < g" using strict [OF that] k by simp
    then have "sd_size (ds ! j) dvd g - k" "0 < g - k"
      using g k by (simp_all add: dvd_diff_nat)
    then have "sd_size (ds ! j) \<le> g - k" by (rule dvd_imp_le)
    then show ?thesis using g k \<open>k < g\<close> by simp
  qed
  then show ?thesis
    using inv k by (auto simp: iter_inv_def ds_def)
qed

lemma sector_info_at_group:
  assumes "wf_sectors p" "iter_inv p addr i" "addr < fp_end p"
  defines "d \<equiv> fp_sectors p ! group_of p addr i"
  assumes "addr \<le> x" "x < addr + sd_size d" "x < fp_end p"
  shows "sector_info_at p x = Ok (Some \<lparr>si_base = addr, si_size = sd_size d\<rparr>)"
proof -
  define j where "j = group_of p addr i"
  define ds where "ds = fp_sectors p"
  have inv: "iter_inv p addr j" and inv': "iter_inv p (addr + sd_size d) j"
    using group_of_inv [OF assms(1,2)] iter_inv_step [OF assms(1,2)] by (simp_all add: j_def d_def)
  have al: "aligned_groups ds" using assms(1) by (simp add: wf_sectors_def ds_def)
  have dj: "d = ds ! j" "j < length ds" using inv by (simp_all add: d_def j_def ds_def iter_inv_def)
  have wf: "0 < sd_size d" "fp_start p + sd_address d < 2 ^ 64" "fp_end p + sd_size d < 2 ^ 64"
    using assms(1) dj by (simp_all add: wf_sectors_def ds_def)
  have "\<not> sd_address (ds ! m) \<le> x - fp_start p" if "j < m" "m < length ds" for m
  proof -
    have "addr + sd_size d \<le> fp_start p + sd_address (ds ! Suc j)"
      using inv' that by (simp add: iter_inv_def ds_def)
    moreover have "sd_address (ds ! Suc j) \<le> sd_address (ds ! m)"
      using aligned_groups_mono [OF al, of "Suc j" m] that
      by (cases "Suc j = m") auto
    moreover have "fp_start p \<le> x"
      using assms(5) inv by (simp add: iter_inv_def)
    ultimately show ?thesis using assms(6) by arith
  qed
  moreover have "sd_address (ds ! j) \<le> x - fp_start p"
    using inv assms(5) unfolding iter_inv_def ds_def by arith
  ultimately have find: "List.find (\<lambda>s. sd_address s \<le> x - fp_start p) (rev ds) = Some d"
    using find_rev_Some [of j ds "\<lambda>s. sd_address s \<le> x - fp_start p"] dj by simp
  have "fp_start p + sd_address d \<le> addr" "sd_size d dvd addr - fp_start p - sd_address d"
    using inv dj by (simp_all add: iter_inv_def ds_def)
  then obtain k where k: "addr = fp_start p + sd_address d + k * sd_size d"
    by (metis dvd_div_mult_self diff_diff_left le_add_diff_inverse)
  define r where "r = x - addr"
  have x: "x = fp_start p + sd_address d + k * sd_size d + r" "r < sd_size d"
    using assms(5,6) k by (simp_all add: r_def)
  have "(k * sd_size d + r) div sd_size d = k" using x(2) wf by simp
  then show ?thesis
    using find x wf assms(7) k
    by (simp add: sector_info_at_def in_range_def ds_def res_simps)
qed

lemma sectors_from_sound:
  assumes "wf_sectors p" "iter_inv p addr i"
  shows "\<exists>ss b. sectors_from p addr i = Some (Ok ss) \<and> sectors_tile addr ss b \<and> fp_end p \<le> b
    \<and> (\<forall>s \<in> set ss. si_base s < fp_end p \<and> si_base s + si_size s < 2 ^ 64
        \<and> (\<forall>x. si_base s \<le> x \<longrightarrow> x < si_base s + si_size s \<longrightarrow> x < fp_end p \<longrightarrow>
             sector_info_at p x = Ok (Some s)))"
  using assms(2)
proof (induction "fp_end p - addr" arbitrary: addr i rule: less_induct)
  case less
  show ?case
  proof (cases "addr < fp_end p")
    case False
    then show ?thesis
      by (subst sectors_from.simps) (simp add: sector_next_def)
  next
    case True
    define j where "j = group_of p addr i"
    define d where "d = fp_sectors p ! j"
    have "j < length (fp_sectors p)"
      using group_of_inv [OF assms(1) less.prems] by (simp add: j_def iter_inv_def)
    then have pos: "0 < sd_size d" "addr + sd_size d < 2 ^ 64"
      using assms(1) True by (auto simp: wf_sectors_def d_def) (meson nth_mem add_strict_right_mono less_trans)
    have "fp_end p - (addr + sd_size d) < fp_end p - addr"
      using True pos by simp
    moreover have "iter_inv p (addr + sd_size d) j"
      using iter_inv_step [OF assms(1) less.prems] by (simp add: j_def d_def)
    ultimately obtain ss b where ss: "sectors_from p (addr + sd_size d) j = Some (Ok ss)"
      "sectors_tile (addr + sd_size d) ss b" "fp_end p \<le> b"
      "\<forall>s \<in> set ss. si_base s < fp_end p \<and> si_base s + si_size s < 2 ^ 64
        \<and> (\<forall>x. si_base s \<le> x \<longrightarrow> x < si_base s + si_size s \<longrightarrow> x < fp_end p \<longrightarrow>
             sector_info_at p x = Ok (Some s))"
      using less.hyps by blast
    let ?s = "\<lparr>si_base = addr, si_size = sd_size d\<rparr>"
    have "sectors_from p addr i = Some (Ok (?s # ss))"
      using sector_next_eq [OF assms(1) less.prems True] ss(1)
      by (subst sectors_from.simps) (simp add: d_def j_def)
    moreover have "sector_info_at p x = Ok (Some ?s)"
      if "addr \<le> x" "x < addr + sd_size d" "x < fp_end p" for x
      using sector_info_at_group [OF assms(1) less.prems True] that by (simp add: d_def j_def)
    ultimately show ?thesis
      using ss pos True by (intro exI [of _ "?s # ss"] exI [of _ b]) auto
  qed
qed

lemma iter_sectors_sound:
  assumes "wf_sectors p"
  shows "\<exists>ss b. iter_sectors p = Some (Ok ss) \<and> sectors_tile (fp_start p) ss b \<and> fp_end p \<le> b
    \<and> (\<forall>s \<in> set ss. si_base s < fp_end p \<and> si_base s + si_size s < 2 ^ 64
        \<and> (\<forall>x. si_base s \<le> x \<longrightarrow> x < si_base s + si_size s \<longrightarrow> x < fp_end p \<longrightarrow>
             sector_info_at p x = Ok (Some s)))"
proof -
  obtain d ds where ds: "fp_sectors p = d # ds" "sd_address d = 0"
    using assms by (cases "fp_sectors p") (auto simp: wf_sectors_def)
  have "iter_inv p (fp_start p) 0"
    using ds by (auto simp: iter_inv_def)
  then show ?thesis
    using sectors_from_sound [OF assms] ds by (simp add: iter_sectors_def)
qed

subsection \<open>The pages of a well-formed flash\<close>

lemma pages_from_sound:
  assumes "wf_pages p"
  shows "\<exists>ps b. pages_from p addr = Some (Ok ps) \<and> pages_tile addr ps b \<and> fp_end p \<le> b
    \<and> (\<forall>q \<in> set ps. pi_size q = fp_page_size p \<and> pi_base q < fp_end p
        \<and> addr \<le> pi_base q \<and> fp_page_size p dvd pi_base q - addr)"
proof (induction "fp_end p - addr" arbitrary: addr rule: less_induct)
  case less
  show ?case
  proof (cases "addr < fp_end p")
    case False
    then show ?thesis
      by (subst pages_from.simps) (simp add: page_next_def)
  next
    case True
    define n where "n = fp_page_size p"
    have n: "0 < n" "addr + n < 2 ^ 64"
      using assms True by (simp_all add: wf_pages_def n_def)
    then have "fp_end p - (addr + n) < fp_end p - addr"
      using True by simp
    then obtain ps b where ps: "pages_from p (addr + n) = Some (Ok ps)"
      "pages_tile (addr + n) ps b" "fp_end p \<le> b"
      "\<forall>q \<in> set ps. pi_size q = n \<and> pi_base q < fp_end p
        \<and> addr + n \<le> pi_base q \<and> n dvd pi_base q - (addr + n)"
      using less.hyps unfolding n_def by blast
    let ?q = "\<lparr>pi_base = addr, pi_size = n\<rparr>"
    have "pages_from p addr = Some (Ok (?q # ps))"
      using True n ps(1) by (subst pages_from.simps) (simp add: page_next_def n_def res_simps)
    moreover have "n dvd pi_base q - addr" if "q \<in> set ps" for q
    proof -
      have "pi_base q - addr = (pi_base q - (addr + n)) + n" "n dvd pi_base q - (addr + n)"
        using ps(4) that by auto
      then show ?thesis by (metis dvd_add dvd_refl)
    qed
    ultimately show ?thesis
      using ps n True by (intro exI [of _ "?q # ps"] exI [of _ b]) (auto simp: n_def)
  qed
qed

lemma iter_pages_sound:
  assumes "wf_pages p"
  shows "\<exists>ps b. iter_pages p = Some (Ok ps) \<and> pages_tile (fp_start p) ps b \<and> fp_end p \<le> b
    \<and> (\<forall>q \<in> set ps. pi_size q = fp_page_size p \<and> pi_base q < fp_end p
        \<and> fp_start p \<le> pi_base q \<and> fp_page_size p dvd pi_base q - fp_start p)"
  unfolding iter_pages_def by (rule pages_from_sound [OF assms])

lemma page_info_at_page:
  assumes "wf_pages p" "fp_page_size p dvd b" "fp_start p \<le> b"
    "b \<le> x" "x < b + fp_page_size p" "x < fp_end p"
  shows "page_info_at p x = Ok (Some \<lparr>pi_base = b, pi_size = fp_page_size p\<rparr>)"
proof -
  obtain r where r: "x = b + r" "r < fp_page_size p"
    using assms(4,5) by (metis le_add_diff_inverse nat_add_left_cancel_less)
  moreover have "(b + r) mod fp_page_size p = r"
    using assms(2) r(2) by (auto simp: dvd_def)
  ultimately show ?thesis
    using assms by (simp add: page_info_at_def in_range_def wf_pages_def res_simps)
qed

subsection \<open>The two views agree\<close>

text \<open>On a well-formed flash the sector iterator ends, its sectors lie end to end from the
  start of the flash to at least its end, and the lookup of any address of the flash returns
  the one iterated sector that contains it.\<close>

theorem sector_views_agree:
  assumes "wf_sectors p"
  shows "\<exists>ss b. iter_sectors p = Some (Ok ss) \<and> sectors_tile (fp_start p) ss b \<and> fp_end p \<le> b
    \<and> (\<forall>x. in_range (fp_address_range p) x \<longrightarrow>
         (\<exists>s \<in> set ss. si_base s \<le> x \<and> x < si_base s + si_size s
            \<and> sector_info_at p x = Ok (Some s)))"
proof -
  obtain ss b where ss: "iter_sectors p = Some (Ok ss)" "sectors_tile (fp_start p) ss b"
    "fp_end p \<le> b"
    "\<forall>s \<in> set ss. \<forall>x. si_base s \<le> x \<longrightarrow> x < si_base s + si_size s \<longrightarrow> x < fp_end p \<longrightarrow>
       sector_info_at p x = Ok (Some s)"
    using iter_sectors_sound [OF assms] by blast
  have "\<exists>s \<in> set ss. si_base s \<le> x \<and> x < si_base s + si_size s \<and> sector_info_at p x = Ok (Some s)"
    if x: "in_range (fp_address_range p) x" for x
  proof -
    have "fp_start p \<le> x" "x < b" "x < fp_end p"
      using x ss(3) by (simp_all add: in_range_def)
    then show ?thesis
      using sectors_tile_covers [OF ss(2), of x] ss(4) by blast
  qed
  then show ?thesis
    using ss(1-3) by (intro exI [of _ ss] exI [of _ b] conjI allI impI) assumption+
qed

definition demo_props :: flash_properties where
  "demo_props = \<lparr>fp_address_range = mk_range 0x1000 0x1500, fp_page_size = 0x40,
     fp_erased_byte_value = 255, fp_program_page_timeout = 200, fp_erase_sector_timeout = 200,
     fp_sectors = [\<lparr>sd_size = 0x100, sd_address = 0\<rparr>, \<lparr>sd_size = 0x80, sd_address = 0x300\<rparr>]\<rparr>"

lemma demo_props_wf: "wf_sectors demo_props" "wf_pages demo_props"
  by (auto simp: demo_props_def wf_sectors_def wf_pages_def aligned_groups_def less_Suc_eq nth_Cons'
      dvd_def)

theorem sector_views_agree_witness:
  "wf_sectors demo_props \<and>
   (\<exists>ss b. iter_sectors demo_props = Some (Ok ss) \<and> sectors_tile 0x1000 ss b \<and> 0x1500 \<le> b)"
  using sector_views_agree [OF demo_props_wf(1)] demo_props_wf(1) by (auto simp: demo_props_def)

text \<open>When the start of the flash is a multiple of the page size, the page iterator ends, its
  pages lie end to end over the flash, and the lookup of any address of the flash returns the
  iterated page that contains it.\<close>

theorem page_views_agree:
  assumes "wf_pages p" "fp_page_size p dvd fp_start p"
  shows "\<exists>ps b. iter_pages p = Some (Ok ps) \<and> pages_tile (fp_start p) ps b \<and> fp_end p \<le> b
    \<and> (\<forall>x. in_range (fp_address_range p) x \<longrightarrow>
         (\<exists>q \<in> set ps. pi_base q \<le> x \<and> x < pi_base q + pi_size q
            \<and> page_info_at p x = Ok (Some q)))"
proof -
  obtain ps b where ps: "iter_pages p = Some (Ok ps)" "pages_tile (fp_start p) ps b" "fp_end p \<le> b"
    "\<forall>q \<in> set ps. pi_size q = fp_page_size p \<and> pi_base q < fp_end p
      \<and> fp_start p \<le> pi_base q \<and> fp_page_size p dvd pi_base q - fp_start p"
    using iter_pages_sound [OF assms(1)] by blast
  have "page_info_at p x = Ok (Some q)"
    if "q \<in> set ps" "pi_base q \<le> x" "x < pi_base q + pi_size q" "x < fp_end p" for q x
  proof -
    have q: "pi_size q = fp_page_size p" "fp_start p \<le> pi_base q"
      "fp_page_size p dvd pi_base q - fp_start p"
      using ps(4) that(1) by auto
    then have "fp_page_size p dvd pi_base q"
      using assms(2) by (metis dvd_add le_add_diff_inverse2)
    then show ?thesis
      using page_info_at_page [OF assms(1), of "pi_base q" x] q that by simp
  qed
  then have "\<exists>q \<in> set ps. pi_base q \<le> x \<and> x < pi_base q + pi_size q \<and> page_info_at p x = Ok (Some q)"
    if "in_range (fp_address_range p) x" for x
    using pages_tile_covers [OF ps(2), of x] that ps(3) unfolding in_range_def by fastforce
  then show ?thesis
    using ps(1-3) by (intro exI [of _ ps] exI [of _ b] conjI allI impI) assumption+
qed

theorem page_views_agree_witness:
  "wf_pages demo_props \<and> fp_page_size demo_props dvd fp_start demo_props \<and>
   (\<exists>ps b. iter_pages demo_props = Some (Ok ps) \<and> pages_tile 0x1000 ps b \<and> 0x1500 \<le> b)"
proof -
  have "fp_page_size demo_props dvd fp_start demo_props" by (simp add: demo_props_def)
  then show ?thesis
    using page_views_agree [OF demo_props_wf(2)] demo_props_wf(2) by (auto simp: demo_props_def)
qed

text \<open>On a flash that does not start at a multiple of its page size the two views of pages
  differ: the iterator counts pages from the start of the flash, the lookup from address zero.
  The lookup of the base of the first iterated page returns a page that begins before the flash.\<close>

theorem page_views_differ_unaligned:
  assumes "wf_pages p" "fp_start p < fp_end p" "\<not> fp_page_size p dvd fp_start p"
  shows "\<exists>q ps r. iter_pages p = Some (Ok (q # ps)) \<and> pi_base q = fp_start p
    \<and> page_info_at p (pi_base q) = Ok (Some r) \<and> pi_base r < fp_start p"
proof -
  obtain qs b where qs: "iter_pages p = Some (Ok qs)" "pages_tile (fp_start p) qs b" "fp_end p \<le> b"
    using iter_pages_sound [OF assms(1)] by blast
  then obtain q ps where q: "qs = q # ps" "pi_base q = fp_start p"
    using assms(2) by (cases qs) auto
  have "0 < fp_start p mod fp_page_size p"
    using assms(3) by (auto simp: dvd_eq_mod_eq_0)
  then have "fp_start p - fp_start p mod fp_page_size p < fp_start p"
    by (metis diff_less gr_zeroI mod_0)
  moreover have "page_info_at p (fp_start p)
      = Ok (Some \<lparr>pi_base = fp_start p - fp_start p mod fp_page_size p, pi_size = fp_page_size p\<rparr>)"
    using assms by (auto simp: page_info_at_def in_range_def wf_pages_def res_simps)
  ultimately show ?thesis
    using qs(1) q by force
qed

theorem page_views_differ_unaligned_witness:
  "\<exists>p q ps r. iter_pages p = Some (Ok (q # ps)) \<and> page_info_at p (pi_base q) = Ok (Some r) \<and> pi_base r < 6"
proof -
  define p where "p = default_flash_properties\<lparr>fp_address_range := mk_range 6 10, fp_page_size := 4\<rparr>"
  have p: "wf_pages p" "fp_start p < fp_end p" "\<not> fp_page_size p dvd fp_start p" "fp_start p = 6"
    by (simp_all add: p_def wf_pages_def)
  show ?thesis
    using page_views_differ_unaligned [OF p(1-3)] p(4) by auto
qed

end
