(* ===== verification/Flash_Builder.thy ===== *)
theory Flash_Builder
  imports Flash_Properties
begin

text \<open>
  Staging of the data to be flashed and its layout into sectors, pages and fills
  (probe-rs/src/flashing/builder.rs). The staged chunks live in a \<open>BTreeMap\<close> from start
  address to bytes; the model is the association list in key order.
\<close>

subsection \<open>Data\<close>

record flash_page =
  page_address :: nat
  page_bytes :: "u8 list"

definition flash_page_new :: "page_info \<Rightarrow> u8 \<Rightarrow> flash_page" where
  "flash_page_new info default_value =
     \<lparr>page_address = pi_base info, page_bytes = replicate (pi_size info) default_value\<rparr>"

definition flash_page_size :: "flash_page \<Rightarrow> nat" where
  "flash_page_size p = length (page_bytes p) mod 2 ^ 32"

record flash_sector =
  sector_address :: nat
  sector_size :: nat

record flash_fill =
  fill_address :: nat
  fill_size :: nat
  fill_page_index :: nat

record flash_data_block_span =
  block_address :: nat
  block_size :: nat

record flash_layout =
  lay_sectors :: "flash_sector list"
  lay_pages :: "flash_page list"
  lay_fills :: "flash_fill list"
  lay_data_blocks :: "flash_data_block_span list"

definition empty_layout :: flash_layout where
  "empty_layout = \<lparr>lay_sectors = [], lay_pages = [], lay_fills = [], lay_data_blocks = []\<rparr>"

definition merge_from :: "flash_layout \<Rightarrow> flash_layout \<Rightarrow> flash_layout" where
  "merge_from self other =
     \<lparr>lay_sectors = lay_sectors self @ lay_sectors other,
      lay_pages = lay_pages self @ lay_pages other,
      lay_fills = lay_fills self @ lay_fills other,
      lay_data_blocks = lay_data_blocks self @ lay_data_blocks other\<rparr>"

type_synonym chunk = "nat \<times> u8 list"

text \<open>The \<open>data: BTreeMap<u64, Vec<u8>>\<close> of a \<open>FlashBuilder\<close>.\<close>

type_synonym staged = "chunk list"

definition flash_builder_new :: staged where
  "flash_builder_new = []"

subsection \<open>The ordered map of the standard library\<close>

fun bt_insert :: "nat \<Rightarrow> 'v \<Rightarrow> (nat \<times> 'v) list \<Rightarrow> (nat \<times> 'v) list" where
  "bt_insert k v [] = [(k, v)]"
| "bt_insert k v ((k', v') # m) =
     (if k < k' then (k, v) # (k', v') # m
      else if k = k' then (k, v) # m
      else (k', v') # bt_insert k v m)"

definition bt_from :: "nat \<Rightarrow> (nat \<times> 'v) list \<Rightarrow> (nat \<times> 'v) list" where
  "bt_from lo m = filter (\<lambda>(k, _). lo \<le> k) m"

definition bt_before :: "nat \<Rightarrow> (nat \<times> 'v) list \<Rightarrow> (nat \<times> 'v) list" where
  "bt_before hi m = filter (\<lambda>(k, _). k < hi) m"

text \<open>\<open>range(lo..hi)\<close> panics when the bounds are reversed.\<close>

definition bt_range :: "nat \<Rightarrow> nat \<Rightarrow> (nat \<times> 'v) list \<Rightarrow> ('e, (nat \<times> 'v) list) res" where
  "bt_range lo hi m = (if hi < lo then Panic else Ok (filter (\<lambda>(k, _). lo \<le> k \<and> k < hi) m))"

definition first_opt :: "'a list \<Rightarrow> 'a option" where
  "first_opt xs = (case xs of [] \<Rightarrow> None | x # _ \<Rightarrow> Some x)"

definition last_opt :: "'a list \<Rightarrow> 'a option" where
  "last_opt xs = (if xs = [] then None else Some (last xs))"

subsection \<open>Staging\<close>

definition overlap_error :: "nat \<Rightarrow> nat \<Rightarrow> nat \<Rightarrow> nat \<Rightarrow> staged flash_res" where
  "overlap_error address len other other_len =
     rbind (add64 address len) (\<lambda>e. rbind (add64 other other_len) (\<lambda>oe.
       Err (DataOverlaps (mk_range address e) (mk_range other oe))))"

definition add_data_left :: "staged \<Rightarrow> nat \<Rightarrow> u8 list \<Rightarrow> staged flash_res" where
  "add_data_left self address data =
     (case last_opt (bt_before address self) of
        Some (prev_addr, prev_data) \<Rightarrow>
          rbind (add64 prev_addr (length prev_data)) (\<lambda>prev_end.
            if prev_end > address then
              overlap_error address (length data) prev_addr (length prev_data)
            else if prev_end = address then
              Ok (bt_insert prev_addr (prev_data @ data) self)
            else Ok (bt_insert address data self))
      | None \<Rightarrow> Ok (bt_insert address data self))"

definition add_data :: "staged \<Rightarrow> nat \<Rightarrow> u8 list \<Rightarrow> staged flash_res" where
  "add_data self address data =
     (if data = [] then Ok self
      else case first_opt (bt_from address self) of
        Some (next_addr, next_data) \<Rightarrow>
          rbind (add64 address (length data)) (\<lambda>end_addr.
            if end_addr > next_addr then
              overlap_error address (length data) next_addr (length next_data)
            else add_data_left self address data)
      | None \<Rightarrow> add_data_left self address data)"

subsection \<open>Staged data of a range\<close>

definition adjusted_start :: "staged \<Rightarrow> urange \<Rightarrow> nat flash_res" where
  "adjusted_start self rng =
     (case last_opt (bt_before (rstart rng) self) of
        Some (prev_addr, prev_data) \<Rightarrow>
          rbind (add64 prev_addr (length prev_data)) (\<lambda>e.
            Ok (if e > rstart rng then prev_addr else rstart rng))
      | None \<Rightarrow> Ok (rstart rng))"

text \<open>The closure that cuts a chunk down to the range.\<close>

definition cut_left :: "urange \<Rightarrow> chunk \<Rightarrow> chunk flash_res" where
  "cut_left rng c = (case c of (addr, data) \<Rightarrow>
     if addr < rstart rng then
       rbind (slice_r data (rstart rng - addr) (length data)) (\<lambda>d. Ok (rstart rng, d))
     else Ok (addr, data))"

definition cut_right :: "urange \<Rightarrow> chunk \<Rightarrow> chunk flash_res" where
  "cut_right rng c = (case c of (addr, data) \<Rightarrow>
     rbind (add64 addr (length data)) (\<lambda>e.
       if e > rend rng then
         rbind (sub_r (rend rng) addr) (\<lambda>n. rbind (slice_r data 0 n) (\<lambda>d. Ok (addr, d)))
       else Ok (addr, data)))"

definition cut_chunk :: "urange \<Rightarrow> chunk \<Rightarrow> chunk flash_res" where
  "cut_chunk rng c = rbind (cut_left rng c) (cut_right rng)"

definition data_in_range :: "staged \<Rightarrow> urange \<Rightarrow> chunk list flash_res" where
  "data_in_range self rng =
     rbind (adjusted_start self rng) (\<lambda>s.
     rbind (bt_range s (rend rng) self) (rtraverse (cut_chunk rng)))"

definition has_data_in_range :: "staged \<Rightarrow> urange \<Rightarrow> bool flash_res" where
  "has_data_in_range self rng =
     rbind (adjusted_start self rng) (\<lambda>s.
     rbind (bt_range s (rend rng) self) (\<lambda>cs.
       case cs of [] \<Rightarrow> Ok False | c # _ \<Rightarrow> rbind (cut_chunk rng c) (\<lambda>_. Ok True)))"

definition has_data_in_overlap :: "staged \<Rightarrow> urange \<Rightarrow> nvm_region \<Rightarrow> bool flash_res" where
  "has_data_in_overlap self rng region =
     (let start = max (rstart rng) (rstart (nr_range region));
          e = min (rend rng) (rend (nr_range region))
      in if start < e then has_data_in_range self (mk_range start e) else Ok False)"

subsection \<open>Layout\<close>

definition copy_into :: "'a list \<Rightarrow> nat \<Rightarrow> 'a list \<Rightarrow> ('e, 'a list) res" where
  "copy_into xs off ys =
     (if off + length ys \<le> length xs then Ok (take off xs @ ys @ drop (off + length ys) xs)
      else Panic)"

definition add_sector ::
  "staged \<Rightarrow> nvm_region \<Rightarrow> flash_properties \<Rightarrow> sector_info \<Rightarrow> flash_layout \<Rightarrow> flash_layout flash_res"
where
  "add_sector self region props info layout =
     rbind (sector_range info) (\<lambda>rng.
       if \<not> contains_range (nr_range region) rng then
         rbind (has_data_in_overlap self rng region) (\<lambda>_. Ok layout)
       else
         rbind (page_info_at props (si_base info)) (\<lambda>pg.
         rbind (expect pg) (\<lambda>pg.
         rbind (page_range pg) (\<lambda>prange.
         rbind (has_data_in_range self rng) (\<lambda>sector_has_data.
         rbind (has_data_in_range self prange) (\<lambda>page_has_data.
           if \<not> sector_has_data \<and> \<not> page_has_data then Ok layout
           else Ok (layout\<lparr>lay_sectors := lay_sectors layout
                  @ [\<lparr>sector_address = si_base info, sector_size = si_size info\<rparr>]\<rparr>)))))))"

text \<open>The loop over the chunks of a page: page buffer, fills and the end of the last chunk.\<close>

definition place_chunk ::
  "page_info \<Rightarrow> nat \<Rightarrow> chunk \<Rightarrow> u8 list \<times> flash_fill list \<times> nat \<Rightarrow>
     (u8 list \<times> flash_fill list \<times> nat) flash_res" where
  "place_chunk info page_index c st = (case c of (address, data) \<Rightarrow> case st of (bytes, fills, fill_start) \<Rightarrow>
     rbind (sub_r address (pi_base info)) (\<lambda>offset.
     rbind (copy_into bytes offset data) (\<lambda>bytes'.
     rbind (if address > fill_start then
              Ok (fills @ [\<lparr>fill_address = fill_start, fill_size = address - fill_start,
                            fill_page_index = page_index\<rparr>])
            else Ok fills) (\<lambda>fills'.
     rbind (add64 address (length data)) (\<lambda>e. Ok (bytes', fills', e))))))"

definition add_page ::
  "staged \<Rightarrow> nvm_region \<Rightarrow> flash_properties \<Rightarrow> bool \<Rightarrow> page_info \<Rightarrow> flash_layout \<Rightarrow>
     flash_layout flash_res"
where
  "add_page self region props include_empty_pages info layout =
     rbind (page_range info) (\<lambda>rng.
       if \<not> contains_range (nr_range region) rng then
         rbind (has_data_in_overlap self rng region) (\<lambda>_. Ok layout)
       else
         rbind (sector_info_at props (pi_base info)) (\<lambda>sec.
         rbind (expect sec) (\<lambda>sec.
         rbind (sector_range sec) (\<lambda>srange.
         rbind (has_data_in_range self srange) (\<lambda>sector_has_data.
         rbind (has_data_in_range self rng) (\<lambda>page_has_data.
           if \<not> page_has_data \<and> (\<not> include_empty_pages \<or> \<not> sector_has_data) then Ok layout
           else
             let page = flash_page_new info (fp_erased_byte_value props);
                 page_index = length (lay_pages layout)
             in rbind (data_in_range self rng) (\<lambda>cs.
                rbind (rfold (place_chunk info page_index) cs
                        (page_bytes page, lay_fills layout, pi_base info)) (\<lambda>(bytes, fills, fill_start).
                  let fills' = (if fill_start < rend rng then
                                  fills @ [\<lparr>fill_address = fill_start,
                                            fill_size = rend rng - fill_start,
                                            fill_page_index = page_index\<rparr>]
                                else fills)
                  in Ok (layout\<lparr>lay_fills := fills',
                          lay_pages := lay_pages layout @ [page\<lparr>page_bytes := bytes\<rparr>]\<rparr>)))))))))"

text \<open>
  \<open>None\<close> is a layout that does not return, for a sector or page size of zero. An iteration is
  run to its end before the loop over it, which changes nothing but which of panicking and
  not returning comes first.
\<close>

definition layout_sectors ::
  "staged \<Rightarrow> nvm_region \<Rightarrow> flash_properties \<Rightarrow> flash_layout flash_res option" where
  "layout_sectors self region props =
     Option.bind (iter_sectors props) (\<lambda>sectors.
       Some (rbind sectors (\<lambda>ss. rfold (add_sector self region props) ss empty_layout)))"

definition layout_pages ::
  "staged \<Rightarrow> nvm_region \<Rightarrow> flash_properties \<Rightarrow> bool \<Rightarrow> flash_layout \<Rightarrow> flash_layout flash_res option"
where
  "layout_pages self region props include_empty_pages layout =
     Option.bind (iter_pages props) (\<lambda>pages.
       Some (rbind pages (\<lambda>ps. rfold (add_page self region props include_empty_pages) ps layout)))"

definition layout_blocks :: "staged \<Rightarrow> nvm_region \<Rightarrow> flash_layout \<Rightarrow> flash_layout flash_res" where
  "layout_blocks self region layout =
     rbind (data_in_range self (nr_range region)) (\<lambda>cs.
       Ok (layout\<lparr>lay_data_blocks := lay_data_blocks layout
              @ map (\<lambda>(a, d). \<lparr>block_address = a, block_size = length d\<rparr>) cs\<rparr>))"

definition build_layout ::
  "staged \<Rightarrow> nvm_region \<Rightarrow> flash_properties \<Rightarrow> bool \<Rightarrow> flash_layout flash_res option" where
  "build_layout self region props include_empty_pages =
     Option.bind (layout_sectors self region props) (\<lambda>r. case r of
         Err e \<Rightarrow> Some (Err e)
       | Panic \<Rightarrow> Some Panic
       | Ok layout \<Rightarrow>
           Option.bind (layout_pages self region props include_empty_pages layout) (\<lambda>r.
             Some (rbind r (layout_blocks self region))))"

definition build_sectors_and_pages ::
  "staged \<Rightarrow> nvm_region \<Rightarrow> flash_properties \<Rightarrow> bool \<Rightarrow> flash_layout flash_res option" where
  "build_sectors_and_pages self region flash_props include_empty_pages =
     build_layout self region flash_props include_empty_pages"

subsection \<open>The image data of a page\<close>

definition piece_step ::
  "flash_page \<Rightarrow> flash_fill \<Rightarrow> chunk list \<times> nat \<Rightarrow> (chunk list \<times> nat) flash_res" where
  "piece_step page fill st = (case st of (pieces, offset) \<Rightarrow>
     rbind (sub_r (fill_address fill) (page_address page)) (\<lambda>fill_offset.
     rbind (if fill_offset > offset then
              rbind (slice_r (page_bytes page) offset fill_offset) (\<lambda>d.
                Ok (pieces @ [(page_address page + offset, d)]))
            else Ok pieces) (\<lambda>pieces'.
     rbind (add64 fill_offset (fill_size fill)) (\<lambda>offset'. Ok (pieces', offset')))))"

definition page_data_without_fills :: "flash_layout \<Rightarrow> nat \<Rightarrow> chunk list flash_res" where
  "page_data_without_fills self page_index =
     rbind (nth_r (lay_pages self) page_index) (\<lambda>page.
       let fills = sort_key fill_address
             (filter (\<lambda>f. fill_page_index f = page_index) (lay_fills self))
       in rbind (rfold (piece_step page) fills ([], 0)) (\<lambda>(pieces, offset).
            if offset < length (page_bytes page) then
              Ok (pieces @ [(page_address page + offset, drop offset (page_bytes page))])
            else Ok pieces))"

subsection \<open>The staged bytes\<close>

text \<open>
  What a builder holds is a partial map from addresses to bytes. \<open>chunks_ok lo m\<close>: the chunks
  are non-empty, ascending and disjoint, start at or after \<open>lo\<close> and end inside the address space.
\<close>

definition staged_byte :: "staged \<Rightarrow> nat \<Rightarrow> u8 option" where
  "staged_byte m a =
     (case List.find (\<lambda>(k, d). k \<le> a \<and> a < k + length d) m of
        Some (k, d) \<Rightarrow> Some (d ! (a - k))
      | None \<Rightarrow> None)"

fun chunks_ok :: "nat \<Rightarrow> staged \<Rightarrow> bool" where
  "chunks_ok lo [] \<longleftrightarrow> True"
| "chunks_ok lo ((k, d) # m) \<longleftrightarrow>
     lo \<le> k \<and> d \<noteq> [] \<and> k + length d < 2 ^ 64 \<and> chunks_ok (k + length d) m"

definition builder_inv :: "staged \<Rightarrow> bool" where
  "builder_inv m \<longleftrightarrow> chunks_ok 0 m"

fun end_from :: "nat \<Rightarrow> staged \<Rightarrow> nat" where
  "end_from lo [] = lo"
| "end_from lo ((k, d) # m) = end_from (k + length d) m"

lemma staged_byte_Nil [simp]: "staged_byte [] a = None"
  by (simp add: staged_byte_def)

lemma staged_byte_Cons [simp]:
  "staged_byte ((k, d) # m) a =
     (if k \<le> a \<and> a < k + length d then Some (d ! (a - k)) else staged_byte m a)"
  by (simp add: staged_byte_def)

lemma staged_byte_append:
  "staged_byte (m @ n) a = (case staged_byte m a of Some b \<Rightarrow> Some b | None \<Rightarrow> staged_byte n a)"
  by (induction m) auto

lemma end_from_append [simp]: "end_from lo (m @ n) = end_from (end_from lo m) n"
  by (induction lo m rule: end_from.induct) auto

lemma chunks_ok_append:
  "chunks_ok lo (m @ n) \<longleftrightarrow> chunks_ok lo m \<and> chunks_ok (end_from lo m) n"
  by (induction lo m rule: chunks_ok.induct) auto

lemma chunks_ok_mono: "chunks_ok lo m \<Longrightarrow> lo' \<le> lo \<Longrightarrow> chunks_ok lo' m"
  by (cases m) auto

lemma chunks_ok_end: "chunks_ok lo m \<Longrightarrow> lo \<le> end_from lo m"
  by (induction lo m rule: chunks_ok.induct) auto

lemma chunks_ok_below: "chunks_ok lo m \<Longrightarrow> a < lo \<Longrightarrow> staged_byte m a = None"
  by (induction lo m rule: chunks_ok.induct) auto

lemma chunks_ok_above: "chunks_ok lo m \<Longrightarrow> end_from lo m \<le> a \<Longrightarrow> staged_byte m a = None"
proof (induction lo m rule: chunks_ok.induct)
  case (1 lo)
  then show ?case by simp
next
  case (2 lo k d m)
  then have "k + length d \<le> end_from (k + length d) m"
    using chunks_ok_end by simp
  then show ?case using 2 by auto
qed

lemma chunks_ok_key: "chunks_ok lo m \<Longrightarrow> (k, d) \<in> set m \<Longrightarrow> lo \<le> k \<and> d \<noteq> [] \<and> k + length d < 2 ^ 64"
  by (induction lo m rule: chunks_ok.induct) force+

lemma chunks_ok_last:
  "chunks_ok lo (m @ [(k, d)]) \<Longrightarrow> end_from lo m \<le> k \<and> d \<noteq> [] \<and> k + length d < 2 ^ 64"
  by (simp add: chunks_ok_append)

lemma chunks_ok_ordered:
  "chunks_ok lo (m @ c # n) \<Longrightarrow> (k, d) \<in> set m \<Longrightarrow> k + length d \<le> fst c"
proof (induction lo m rule: chunks_ok.induct)
  case (1 lo)
  then show ?case by simp
next
  case (2 lo k' d' m)
  then have "k' + length d' \<le> fst c"
    using chunks_ok_key [of "k' + length d'" "m @ c # n" "fst c" "snd c"] by simp
  then show ?case using 2 by auto
qed

subsection \<open>Splitting the map at an address\<close>

lemma bt_split: "chunks_ok lo m \<Longrightarrow> bt_before a m @ bt_from a m = m"
proof (induction lo m rule: chunks_ok.induct)
  case (1 lo)
  then show ?case by (simp add: bt_before_def bt_from_def)
next
  case (2 lo k d m)
  show ?case
  proof (cases "k < a")
    case True
    then show ?thesis using 2 by (simp add: bt_before_def bt_from_def)
  next
    case False
    have later: "\<not> k' < a" if "(k', d') \<in> set m" for k' d'
      using chunks_ok_key [of "k + length d" m k' d'] 2 False that by auto
    have "bt_before a m = []"
      unfolding bt_before_def filter_empty_conv using later by fastforce
    moreover have "bt_from a m = m"
      unfolding bt_from_def filter_id_conv using later by (force simp: not_less)
    ultimately show ?thesis using False by (simp add: bt_before_def bt_from_def)
  qed
qed

lemma bt_before_keys: "(k, d) \<in> set (bt_before a m) \<Longrightarrow> k < a"
  by (auto simp: bt_before_def)

lemma bt_from_keys: "(k, d) \<in> set (bt_from a m) \<Longrightarrow> a \<le> k"
  by (auto simp: bt_from_def)

lemma bt_insert_least: "(\<And>k' v'. (k', v') \<in> set n \<Longrightarrow> k < k') \<Longrightarrow> bt_insert k v n = (k, v) # n"
  by (cases n) force+

lemma bt_insert_middle:
  assumes "\<And>k' v'. (k', v') \<in> set m \<Longrightarrow> k' < k" "\<And>k' v'. (k', v') \<in> set n \<Longrightarrow> k < k'"
  shows "bt_insert k v (m @ n) = m @ (k, v) # n"
  using assms(1)
proof (induction m)
  case Nil
  then show ?case using bt_insert_least [of n k v] assms(2) by simp
next
  case (Cons x m)
  then have "bt_insert k v (m @ n) = m @ (k, v) # n" "fst x < k"
    by (auto simp: prod_eq_iff)
  then show ?case by (cases x) auto
qed

lemma bt_insert_replace:
  assumes "\<And>k' v'. (k', v') \<in> set m \<Longrightarrow> k' < k"
  shows "bt_insert k v (m @ (k, w) # n) = m @ (k, v) # n"
  using assms
proof (induction m)
  case Nil
  then show ?case by simp
next
  case (Cons x m)
  then have "bt_insert k v (m @ (k, w) # n) = m @ (k, v) # n" "fst x < k"
    by (auto simp: prod_eq_iff)
  then show ?case by (cases x) auto
qed

text \<open>The neighbours of an address: the map is the chunks before it and the chunks from it on.\<close>

lemma split_neighbours:
  assumes "builder_inv m"
  obtains l r where "m = l @ r" "bt_before a m = l" "bt_from a m = r"
    "chunks_ok 0 l" "chunks_ok (end_from 0 l) r"
    "\<And>k d. (k, d) \<in> set l \<Longrightarrow> k < a" "\<And>k d. (k, d) \<in> set r \<Longrightarrow> a \<le> k"
proof -
  have "m = bt_before a m @ bt_from a m"
    using bt_split [of 0 m a] assms by (simp add: builder_inv_def)
  then have "chunks_ok 0 (bt_before a m @ bt_from a m)"
    using assms by (simp add: builder_inv_def)
  then have "chunks_ok 0 (bt_before a m)" "chunks_ok (end_from 0 (bt_before a m)) (bt_from a m)"
    by (simp_all add: chunks_ok_append)
  then show ?thesis
    by (rule that [OF \<open>m = bt_before a m @ bt_from a m\<close> refl refl _ _ bt_before_keys bt_from_keys])
qed

lemma last_opt_simps [simp]: "last_opt [] = None" "last_opt (xs @ [x]) = Some x"
  by (simp_all add: last_opt_def)

lemma first_opt_simps [simp]: "first_opt [] = None" "first_opt (x # xs) = Some x"
  by (simp_all add: first_opt_def)

subsection \<open>Adding data\<close>

definition put_bytes :: "(nat \<Rightarrow> u8 option) \<Rightarrow> nat \<Rightarrow> u8 list \<Rightarrow> nat \<Rightarrow> u8 option" where
  "put_bytes f address data a =
     (if address \<le> a \<and> a < address + length data then Some (data ! (a - address)) else f a)"

lemma append_chunk_staged:
  assumes "chunks_ok 0 l" "end_from 0 l \<le> address" "chunks_ok (address + length data) r" "data \<noteq> []"
    "address + length data < 2 ^ 64"
  shows "builder_inv (l @ (address, data) # r)"
    "staged_byte (l @ (address, data) # r) = put_bytes (staged_byte (l @ r)) address data"
proof -
  show "builder_inv (l @ (address, data) # r)"
    using assms by (simp add: builder_inv_def chunks_ok_append)
  have "staged_byte l a = None" if "address \<le> a" for a
    using chunks_ok_above [OF assms(1)] assms(2) that by simp
  then show "staged_byte (l @ (address, data) # r) = put_bytes (staged_byte (l @ r)) address data"
    by (auto simp: fun_eq_iff staged_byte_append put_bytes_def split: option.splits)
qed

lemma extend_chunk_staged:
  assumes "chunks_ok 0 (l @ [(k, d)])" "k + length d = address" "chunks_ok (address + length data) r"
    "address + length data < 2 ^ 64"
  shows "builder_inv (l @ (k, d @ data) # r)"
    "staged_byte (l @ (k, d @ data) # r) = put_bytes (staged_byte (l @ (k, d) # r)) address data"
proof -
  have l: "chunks_ok 0 l" "end_from 0 l \<le> k" "d \<noteq> []"
    using assms(1) by (simp_all add: chunks_ok_append)
  have "k + length (d @ data) = address + length data"
    using assms(2) by simp
  then show "builder_inv (l @ (k, d @ data) # r)"
    using assms(3,4) l by (simp only: builder_inv_def chunks_ok_append chunks_ok.simps) simp
  have "staged_byte l a = None" if "k \<le> a" for a
    using chunks_ok_above [OF l(1)] l(2) that by simp
  then show "staged_byte (l @ (k, d @ data) # r) = put_bytes (staged_byte (l @ (k, d) # r)) address data"
    using assms(2)
    by (auto simp: fun_eq_iff staged_byte_append put_bytes_def nth_append split: option.splits)
qed

lemma staged_byte_key: "chunks_ok lo ((k, d) # m) \<Longrightarrow> staged_byte ((k, d) # m) k \<noteq> None"
  by simp

lemma add_data_cases:
  assumes inv: "builder_inv m" and data: "data \<noteq> []" and lim: "address + length data < 2 ^ 64"
  shows "if \<exists>a. address \<le> a \<and> a < address + length data \<and> staged_byte m a \<noteq> None
    then \<exists>other. add_data m address data
           = Err (DataOverlaps (mk_range address (address + length data)) other)
    else \<exists>m'. add_data m address data = Ok m' \<and> builder_inv m'
           \<and> staged_byte m' = put_bytes (staged_byte m) address data"
    (is "if ?ov then ?err else ?ok")
proof -
  obtain l r where s: "m = l @ r" "bt_before address m = l" "bt_from address m = r"
    "chunks_ok 0 l" "chunks_ok (end_from 0 l) r"
    "\<And>k d. (k, d) \<in> set l \<Longrightarrow> k < address" "\<And>k d. (k, d) \<in> set r \<Longrightarrow> address \<le> k"
    using split_neighbours [OF inv, of address] by metis
  define right where "right = (case r of [] \<Rightarrow> False | (k, d) # _ \<Rightarrow> k < address + length data)"
  define left where "left = (address < end_from 0 l)"
  have r_key: "staged_byte m k \<noteq> None \<and> address \<le> k \<and> k + length d < 2 ^ 64"
    if r: "r = (k, d) # r'" for k d r'
  proof -
    have "address \<le> k" by (rule s(7) [of k d]) (simp add: r)
    moreover have "d \<noteq> []" "k + length d < 2 ^ 64" using s(5) r by simp_all
    ultimately show ?thesis using s(1) r by (auto simp: staged_byte_append split: option.splits)
  qed
  show ?thesis
  proof (cases right)
    case True
    then obtain k d r' where r: "r = (k, d) # r'" "k < address + length data"
      by (auto simp: right_def split: list.splits)
    then have ?ov and "k + length d < 2 ^ 64" using r_key by auto
    moreover have "add_data m address data
        = Err (DataOverlaps (mk_range address (address + length data)) (mk_range k (k + length d)))"
      using r data lim calculation(2) s(3) by (simp add: add_data_def overlap_error_def res_simps)
    ultimately show ?thesis by auto
  next
    case not_right: False
    have r_ok: "chunks_ok (address + length data) r"
      using not_right s(5) by (cases r) (auto simp: right_def)
    have right_free: "staged_byte r a = None" if "a < address + length data" for a
      using chunks_ok_below [OF r_ok that] .
    have add: "add_data m address data = add_data_left m address data"
      using not_right data lim s(3) by (cases r) (auto simp: add_data_def right_def res_simps)
    have keys: "\<And>k d. (k, d) \<in> set r \<Longrightarrow> address < k"
      using chunks_ok_key [OF r_ok] data by (metis add_less_same_cancel1 length_greater_0_conv
          le_neq_implies_less less_add_same_cancel1 order_less_le_trans)
    show ?thesis
    proof (cases l rule: rev_cases)
      case Nil
      then have "add_data m address data = Ok ((address, data) # r)"
        using add s(1,2) bt_insert_middle [of "[]" address r data] keys by (simp add: add_data_left_def)
      moreover have "\<not> ?ov"
        using Nil s(1) right_free by auto
      ultimately show ?thesis
        using append_chunk_staged [of "[]" address data r] r_ok data lim Nil s(1) by simp
    next
      case (snoc l' x)
      obtain k d where x: "x = (k, d)" by fastforce
      have l': "end_from 0 l = k + length d" "k < address" "k + length d < 2 ^ 64" "d \<noteq> []"
        using snoc x s(4,6) by (auto simp: chunks_ok_append)
      have keys': "k' < k" if "(k', d') \<in> set l'" for k' d'
        using chunks_ok_ordered [of 0 l' "(k, d)" "[]" k' d'] snoc x s(4) that
          chunks_ok_key [of 0 l k' d'] by (cases d') simp_all
      have m: "m = l' @ (k, d) # r" using s(1) snoc x by simp
      have before: "last_opt (bt_before address m) = Some (k, d)"
        using s(2) snoc x by simp
      show ?thesis
      proof (cases "k + length d" address rule: linorder_cases)
        case greater
        then have "staged_byte m address \<noteq> None"
          using m l' by (auto simp: staged_byte_append split: option.splits)
        then have ?ov using data by (intro exI [of _ address]) simp
        moreover have "add_data m address data
            = Err (DataOverlaps (mk_range address (address + length data)) (mk_range k (k + length d)))"
          using add before greater lim l'
          by (simp add: add_data_left_def overlap_error_def res_simps)
        ultimately show ?thesis by auto
      next
        case equal
        have free: "\<not> ?ov"
          using chunks_ok_above [OF s(4)] right_free l'(1) equal s(1)
          by (auto simp: staged_byte_append split: option.splits)
        have "add_data m address data = Ok (l' @ (k, d @ data) # r)"
          using add before equal l' bt_insert_replace [of l' k "d @ data" d r] keys' m
          by (simp add: add_data_left_def res_simps)
        then show ?thesis
          using extend_chunk_staged [of l' k d address data r] s(4) snoc x equal r_ok lim m free
          by simp
      next
        case less
        have free: "\<not> ?ov"
          using chunks_ok_above [OF s(4)] right_free l'(1) less s(1)
          by (auto simp: staged_byte_append split: option.splits)
        have "add_data m address data = Ok (l @ (address, data) # r)"
          using add before less l' bt_insert_middle [of l address r data] s(1,6) keys
          by (simp add: add_data_left_def res_simps)
        then show ?thesis
          using append_chunk_staged [OF s(4) _ r_ok data lim] l'(1) less s(1) free by simp
      qed
    qed
  qed
qed

subsection \<open>Reading a range\<close>

definition cut :: "urange \<Rightarrow> chunk \<Rightarrow> chunk" where
  "cut rng c = (case c of (k, d) \<Rightarrow> let k' = max k (rstart rng) in
     (k', take (rend rng - k') (drop (k' - k) d)))"

text \<open>The chunks that meet the range.\<close>

definition meets :: "urange \<Rightarrow> chunk \<Rightarrow> bool" where
  "meets rng c = (case c of (k, d) \<Rightarrow> k < rend rng \<and> rstart rng < k + length d)"

lemma cut_chunk_eq:
  assumes "meets rng (k, d)" "rstart rng < rend rng" "k + length d < 2 ^ 64"
  shows "cut_chunk rng (k, d) = Ok (cut rng (k, d))"
proof (cases "k < rstart rng")
  case True
  then have "cut_left rng (k, d) = Ok (rstart rng, drop (rstart rng - k) d)"
    using assms by (simp add: cut_left_def meets_def res_simps)
  then show ?thesis
    using True assms
    by (simp add: cut_chunk_def cut_right_def cut_def meets_def res_simps Let_def max_def)
next
  case False
  then have "cut_left rng (k, d) = Ok (k, d)"
    by (simp add: cut_left_def)
  then show ?thesis
    using False assms
    by (auto simp: cut_chunk_def cut_right_def cut_def meets_def res_simps Let_def max_def)
qed

lemma chunks_ok_filter: "chunks_ok lo m \<Longrightarrow> chunks_ok lo (filter P m)"
  by (induction lo m rule: chunks_ok.induct) (auto intro: chunks_ok_mono)

lemma cut_chunks:
  assumes "chunks_ok lo cs" "\<forall>c \<in> set cs. meets rng c" "rstart rng < rend rng"
  shows "chunks_ok (max lo (rstart rng)) (map (cut rng) cs)
    \<and> staged_byte (map (cut rng) cs) a = (if in_range rng a then staged_byte cs a else None)
    \<and> (\<forall>(k, d) \<in> set (map (cut rng) cs). k + length d \<le> rend rng)"
  using assms(1,2)
proof (induction lo cs rule: chunks_ok.induct)
  case (1 lo)
  then show ?case by simp
next
  case (2 lo k d cs)
  define k' where "k' = max k (rstart rng)"
  define d' where "d' = take (rend rng - k') (drop (k' - k) d)"
  have cut: "cut rng (k, d) = (k', d')"
    by (simp add: cut_def k'_def d'_def Let_def)
  have tail: "chunks_ok (k + length d) cs" "\<forall>c \<in> set cs. meets rng c" "k < rend rng"
    "rstart rng < k + length d" "k + length d < 2 ^ 64" "lo \<le> k" "0 < length d"
    using 2(2,3) by (auto simp: meets_def)
  have d': "d' \<noteq> []" "k' + length d' = min (rend rng) (k + length d)"
    using tail(3-7) assms(3) by (auto simp: d'_def k'_def max_def)
  note IH = 2(1) [OF tail(1,2)]
  have "chunks_ok (k' + length d') (map (cut rng) cs)"
    using IH d'(2) by (auto intro: chunks_ok_mono)
  then have ok: "chunks_ok (max lo (rstart rng)) (map (cut rng) ((k, d) # cs))"
    using d' tail(5,6) cut by (auto simp: k'_def)
  have "staged_byte cs a = None" if "a < k + length d"
    using chunks_ok_below [OF tail(1) that] .
  moreover have "d' ! (a - k') = d ! (a - k)" if "k' \<le> a" "a < k' + length d'"
  proof -
    have "a - k' < rend rng - k'" "(k' - k) + (a - k') = a - k" "k' - k \<le> length d"
      using that d'(2) tail(4) by (auto simp: k'_def)
    then show ?thesis by (simp add: d'_def)
  qed
  ultimately have byte: "staged_byte (map (cut rng) ((k, d) # cs)) a
      = (if in_range rng a then staged_byte ((k, d) # cs) a else None)"
    using IH d'(2) cut by (auto simp: in_range_def k'_def)
  show ?case
    using ok byte IH d'(2) cut by (simp only: list.map list.set) auto
qed

lemma staged_byte_filter_meets:
  assumes "in_range rng a"
  shows "staged_byte (filter (meets rng) m) a = staged_byte m a"
proof (induction m)
  case Nil
  then show ?case by simp
next
  case (Cons c m)
  then show ?case using assms by (cases c) (auto simp: meets_def in_range_def)
qed

lemma filter_range_meets:
  assumes inv: "builder_inv m" and ne: "rstart rng < rend rng"
  shows "\<exists>s. adjusted_start m rng = Ok s \<and> s \<le> rend rng \<and>
    filter (\<lambda>(k, _). s \<le> k \<and> k < rend rng) m = filter (meets rng) m"
proof -
  obtain l r where s: "m = l @ r" "bt_before (rstart rng) m = l"
    "chunks_ok 0 l" "chunks_ok (end_from 0 l) r"
    "\<And>k d. (k, d) \<in> set l \<Longrightarrow> k < rstart rng" "\<And>k d. (k, d) \<in> set r \<Longrightarrow> rstart rng \<le> k"
    using split_neighbours [OF inv, of "rstart rng"] by metis
  have r: "meets rng (k, d) \<longleftrightarrow> k < rend rng" "rstart rng \<le> k" if "(k, d) \<in> set r" for k d
    using s(6) [OF that] chunks_ok_key [OF s(4) that] by (cases d; auto simp: meets_def)+
  have right: "filter (\<lambda>(k, _). s \<le> k \<and> k < rend rng) r = filter (meets rng) r"
    if "s \<le> rstart rng" for s
    using r that by (intro filter_cong) (auto intro: order_trans)
  show ?thesis
  proof (cases l rule: rev_cases)
    case Nil
    then show ?thesis using s(1,2) right ne by (simp add: adjusted_start_def)
  next
    case (snoc l' x)
    obtain k d where x: "x = (k, d)" by fastforce
    have k: "k < rstart rng" "k + length d < 2 ^ 64" "d \<noteq> []"
      using s(3) s(5) [of k d] snoc x by (auto simp: chunks_ok_append)
    have l': "k' + length d' \<le> k" "d' \<noteq> []" if "(k', d') \<in> set l'" for k' d'
      using chunks_ok_ordered [of 0 l' "(k, d)" "[]" k' d'] snoc x s(3) that
        chunks_ok_key [of 0 l k' d'] by simp_all
    have before: "filter (meets rng) l' = []"
      using l' k by (fastforce simp: filter_empty_conv meets_def)
    have lower: "filter (\<lambda>(k', _). s \<le> k' \<and> k' < rend rng) l' = []" if "k \<le> s" for s
    proof -
      have "k' < s" if "(k', d') \<in> set l'" for k' d'
        using l' [OF that] \<open>k \<le> s\<close> by (cases d') auto
      then show ?thesis by (fastforce simp: filter_empty_conv)
    qed
    have adj: "adjusted_start m rng = Ok (if k + length d > rstart rng then k else rstart rng)"
      using s(2) snoc x k by (simp add: adjusted_start_def res_simps)
    show ?thesis
    proof (cases "k + length d > rstart rng")
      case True
      then show ?thesis
        using adj k ne right [of k] lower [of k] before s(1) snoc x by (simp add: meets_def)
    next
      case False
      then show ?thesis
        using adj k ne right [of "rstart rng"] lower [of "rstart rng"] before s(1) snoc x
        by (simp add: meets_def)
    qed
  qed
qed

definition range_chunks :: "staged \<Rightarrow> urange \<Rightarrow> chunk list" where
  "range_chunks m rng = map (cut rng) (filter (meets rng) m)"

lemma cut_filtered:
  assumes "builder_inv m" "rstart rng < rend rng"
  shows "rtraverse (cut_chunk rng) (filter (meets rng) m) = Ok (range_chunks m rng)"
proof -
  have "cut_chunk rng c = Ok (cut rng c)" if c: "c \<in> set (filter (meets rng) m)" for c
  proof -
    obtain k d where kd: "c = (k, d)" by fastforce
    have "k + length d < 2 ^ 64"
      using chunks_ok_key [of 0 m k d] c assms(1) by (simp add: builder_inv_def kd)
    then show ?thesis
      using cut_chunk_eq [of rng k d] c assms(2) by (simp add: kd)
  qed
  then show ?thesis
    unfolding range_chunks_def by (rule rtraverse_Ok_eq)
qed

lemma data_in_range_eq:
  assumes "builder_inv m" "rstart rng < rend rng"
  shows "data_in_range m rng = Ok (range_chunks m rng)"
proof -
  obtain s where s: "adjusted_start m rng = Ok s" "s \<le> rend rng"
    "filter (\<lambda>(k, _). s \<le> k \<and> k < rend rng) m = filter (meets rng) m"
    using filter_range_meets [OF assms] by blast
  then have "bt_range s (rend rng) m = (Ok (filter (meets rng) m) :: chunk list flash_res)"
    by (simp only: bt_range_def not_less [symmetric] if_False simp_thms)
  then show ?thesis
    using s(1) cut_filtered [OF assms] by (simp add: data_in_range_def)
qed

lemma range_chunks_sound:
  assumes "builder_inv m" "rstart rng < rend rng"
  shows "chunks_ok (rstart rng) (range_chunks m rng)"
    "\<forall>(k, d) \<in> set (range_chunks m rng). k + length d \<le> rend rng"
    "staged_byte (range_chunks m rng) a = (if in_range rng a then staged_byte m a else None)"
proof -
  have "chunks_ok 0 (filter (meets rng) m)"
    using assms(1) by (simp add: builder_inv_def chunks_ok_filter)
  then have c: "chunks_ok (max 0 (rstart rng)) (range_chunks m rng)
    \<and> staged_byte (range_chunks m rng) a
        = (if in_range rng a then staged_byte (filter (meets rng) m) a else None)
    \<and> (\<forall>(k, d) \<in> set (range_chunks m rng). k + length d \<le> rend rng)" for a
    unfolding range_chunks_def
    by (rule cut_chunks) (simp_all only: set_filter mem_Collect_eq assms(2), blast)
  show "chunks_ok (rstart rng) (range_chunks m rng)" using c by simp
  show "\<forall>(k, d) \<in> set (range_chunks m rng). k + length d \<le> rend rng" using c by blast
  show "staged_byte (range_chunks m rng) a = (if in_range rng a then staged_byte m a else None)"
    using c [of a] staged_byte_filter_meets [of rng a m] by simp
qed

lemma has_data_in_range_eq:
  assumes "builder_inv m" "rstart rng < rend rng"
  shows "has_data_in_range m rng = Ok (range_chunks m rng \<noteq> [])"
proof -
  obtain s where s: "adjusted_start m rng = Ok s" "s \<le> rend rng"
    "filter (\<lambda>(k, _). s \<le> k \<and> k < rend rng) m = filter (meets rng) m"
    using filter_range_meets [OF assms] by blast
  show ?thesis
  proof (cases "filter (meets rng) m")
    case Nil
    then show ?thesis using s by (simp add: has_data_in_range_def bt_range_def range_chunks_def)
  next
    case (Cons c cs)
    then have "cut_chunk rng c = Ok (cut rng c)"
      using cut_filtered [OF assms] by (auto simp: range_chunks_def)
    then show ?thesis
      using s Cons by (simp add: has_data_in_range_def bt_range_def range_chunks_def)
  qed
qed

lemma chunks_ok_empty_iff:
  assumes ok: "chunks_ok lo m"
  shows "m = [] \<longleftrightarrow> (\<forall>a. staged_byte m a = None)"
proof (cases m)
  case Nil
  then show ?thesis by simp
next
  case (Cons c m')
  obtain k d where "c = (k, d)" by fastforce
  then have "staged_byte m k \<noteq> None" using ok Cons by simp
  then show ?thesis using Cons by (metis list.distinct(1))
qed

lemma range_chunks_nonempty_iff:
  assumes "builder_inv m" "rstart rng < rend rng"
  shows "range_chunks m rng \<noteq> [] \<longleftrightarrow> (\<exists>a. in_range rng a \<and> staged_byte m a \<noteq> None)"
  using chunks_ok_empty_iff [OF range_chunks_sound(1) [OF assms]] range_chunks_sound(3) [OF assms]
  by (metis (full_types))

subsection \<open>Properties\<close>

text \<open>C32. Staging a chunk that touches no staged byte succeeds, keeps the chunks ordered and
  disjoint, and changes the staged bytes at exactly the addresses of the chunk.\<close>

theorem add_data_exact:
  assumes "builder_inv m" "address + length data < 2 ^ 64"
    and "\<forall>a. address \<le> a \<and> a < address + length data \<longrightarrow> staged_byte m a = None"
  shows "\<exists>m'. add_data m address data = Ok m' \<and> builder_inv m'
    \<and> (\<forall>a. staged_byte m' a = (if address \<le> a \<and> a < address + length data
         then Some (data ! (a - address)) else staged_byte m a))"
proof (cases "data = []")
  case True
  then show ?thesis using assms(1) by (auto simp: add_data_def)
next
  case False
  have free: "\<not> (\<exists>a. address \<le> a \<and> a < address + length data \<and> staged_byte m a \<noteq> None)"
    by (metis assms(3))
  obtain m' where m': "add_data m address data = Ok m'" "builder_inv m'"
    "staged_byte m' = put_bytes (staged_byte m) address data"
    using add_data_cases [OF assms(1) False assms(2), unfolded if_not_P [OF free]]
    by (elim exE conjE) (rule that)
  have "staged_byte m' a = (if address \<le> a \<and> a < address + length data
         then Some (data ! (a - address)) else staged_byte m a)" for a
    using fun_cong [OF m'(3), of a] by (simp only: put_bytes_def)
  then show ?thesis
    using m'(1,2) by (intro exI conjI allI)
qed

theorem add_data_exact_witness:
  "\<exists>m'. add_data [(0x10, [1, 2])] 0x12 [3] = Ok m' \<and> builder_inv m' \<and> staged_byte m' 0x12 = Some 3"
proof -
  have "builder_inv [(0x10, [1, 2 :: u8])]" "(0x12 :: nat) + length [3 :: u8] < 2 ^ 64"
    "\<forall>a. 0x12 \<le> a \<and> a < 0x12 + length [3 :: u8] \<longrightarrow> staged_byte [(0x10, [1, 2])] a = None"
    by (auto simp: builder_inv_def)
  from add_data_exact [OF this] show ?thesis by auto
qed

text \<open>C38. Staging a chunk that touches a staged byte is refused with the range of the chunk, and
  the chunks staged before are left as they are (the call returns no new state).\<close>

theorem add_data_overlap_refused:
  assumes "builder_inv m" "address + length data < 2 ^ 64"
    and "address \<le> a" "a < address + length data" "staged_byte m a \<noteq> None"
  shows "\<exists>other. add_data m address data
    = Err (DataOverlaps (mk_range address (address + length data)) other)"
proof -
  have "data \<noteq> []" using assms(3,4) by auto
  moreover have "\<exists>a. address \<le> a \<and> a < address + length data \<and> staged_byte m a \<noteq> None"
    using assms(3-5) by blast
  ultimately show ?thesis
    using add_data_cases [OF assms(1) _ assms(2)] by simp
qed

theorem add_data_overlap_refused_witness:
  "\<exists>other. add_data [(0x10, [1, 2])] 0xe [3, 4, 5] = Err (DataOverlaps (mk_range 0xe 0x11) other)"
proof -
  have "builder_inv [(0x10, [1, 2 :: u8])]" "(0xe :: nat) + length [3, 4, 5 :: u8] < 2 ^ 64"
    "(0xe :: nat) \<le> 0x10" "(0x10 :: nat) < 0xe + length [3, 4, 5 :: u8]"
    "staged_byte [(0x10, [1, 2])] 0x10 \<noteq> None"
    by (simp_all add: builder_inv_def)
  from add_data_overlap_refused [OF this] show ?thesis by simp
qed

text \<open>C39. The data of a non-empty range is returned as ascending, disjoint, non-empty pieces that
  lie in the range, and they hold exactly the staged bytes of the range; the emptiness test
  answers whether there are any.\<close>

theorem data_in_range_exact:
  assumes "builder_inv m" "rstart rng < rend rng"
  shows "\<exists>cs. data_in_range m rng = Ok cs \<and> chunks_ok (rstart rng) cs
    \<and> (\<forall>(k, d) \<in> set cs. k + length d \<le> rend rng)
    \<and> (\<forall>a. staged_byte cs a = (if in_range rng a then staged_byte m a else None))
    \<and> has_data_in_range m rng = Ok (\<exists>a. in_range rng a \<and> staged_byte m a \<noteq> None)"
  using data_in_range_eq [OF assms] has_data_in_range_eq [OF assms] range_chunks_sound [OF assms]
    range_chunks_nonempty_iff [OF assms] by auto

theorem data_in_range_exact_witness:
  "\<exists>cs. data_in_range [(0x10, [1, 2, 3]), (0x20, [4])] (mk_range 0x11 0x20) = Ok cs
     \<and> staged_byte cs 0x12 = Some 3 \<and> staged_byte cs 0x20 = None"
proof -
  have "builder_inv [(0x10, [1, 2, 3 :: u8]), (0x20, [4])]"
    "rstart (mk_range 0x11 0x20) < rend (mk_range 0x11 0x20)"
    by (simp_all add: builder_inv_def)
  from data_in_range_exact [OF this] show ?thesis by (auto simp: in_range_def)
qed

end
