(* ===== verification/Flash_Layout.thy ===== *)
theory Flash_Layout
  imports Flash_Builder
begin

text \<open>
  What the layout of a flash promises (\<open>build_layout\<close> of probe-rs/src/flashing/builder.rs): a
  specification of the sectors, pages and fills in terms of the staged bytes, the proof that
  the loops of the code compute it, and the guarantees the flasher relies on.
\<close>

subsection \<open>Specification\<close>

definition has_staged :: "staged \<Rightarrow> nat \<Rightarrow> nat \<Rightarrow> bool" where
  "has_staged m a b \<longleftrightarrow> (\<exists>x. a \<le> x \<and> x < b \<and> staged_byte m x \<noteq> None)"

definition sector_wanted :: "staged \<Rightarrow> nvm_region \<Rightarrow> flash_properties \<Rightarrow> sector_info \<Rightarrow> bool" where
  "sector_wanted m region props s \<longleftrightarrow>
     contains_range (nr_range region) (mk_range (si_base s) (si_base s + si_size s))
     \<and> (has_staged m (si_base s) (si_base s + si_size s)
        \<or> (let b = si_base s - si_base s mod fp_page_size props
           in has_staged m b (b + fp_page_size props)))"

definition page_wanted ::
  "staged \<Rightarrow> nvm_region \<Rightarrow> flash_properties \<Rightarrow> bool \<Rightarrow> page_info \<Rightarrow> bool" where
  "page_wanted m region props include_empty q \<longleftrightarrow>
     contains_range (nr_range region) (mk_range (pi_base q) (pi_base q + pi_size q))
     \<and> (has_staged m (pi_base q) (pi_base q + pi_size q)
        \<or> include_empty \<and> (\<exists>s. sector_info_at props (pi_base q) = Ok (Some s)
             \<and> has_staged m (si_base s) (si_base s + si_size s)))"

definition page_image :: "staged \<Rightarrow> flash_properties \<Rightarrow> page_info \<Rightarrow> flash_page" where
  "page_image m props q =
     \<lparr>page_address = pi_base q,
      page_bytes = map (\<lambda>i. case staged_byte m (pi_base q + i) of
          Some b \<Rightarrow> b | None \<Rightarrow> fp_erased_byte_value props) [0..<pi_size q]\<rparr>"

text \<open>The holes before, between and after the chunks that start at or after \<open>lo\<close> and end by \<open>hi\<close>.\<close>

fun gaps :: "nat \<Rightarrow> nat \<Rightarrow> chunk list \<Rightarrow> flash_fill list" where
  "gaps i lo [] = []"
| "gaps i lo ((k, d) # cs) =
     (if lo < k then [\<lparr>fill_address = lo, fill_size = k - lo, fill_page_index = i\<rparr>] else [])
     @ gaps i (k + length d) cs"

definition tail_gap :: "nat \<Rightarrow> nat \<Rightarrow> nat \<Rightarrow> flash_fill list" where
  "tail_gap i lo hi =
     (if lo < hi then [\<lparr>fill_address = lo, fill_size = hi - lo, fill_page_index = i\<rparr>] else [])"

definition page_fills :: "staged \<Rightarrow> nat \<Rightarrow> page_info \<Rightarrow> flash_fill list" where
  "page_fills m i q =
     (let hi = pi_base q + pi_size q;
          cs = range_chunks m (mk_range (pi_base q) hi)
      in gaps i (pi_base q) cs @ tail_gap i (end_from (pi_base q) cs) hi)"

fun fills_from :: "staged \<Rightarrow> nat \<Rightarrow> page_info list \<Rightarrow> flash_fill list" where
  "fills_from m i [] = []"
| "fills_from m i (q # qs) = page_fills m i q @ fills_from m (Suc i) qs"

subsection \<open>A page is filled with its staged bytes\<close>

lemma copy_into_eq: "off + length ys \<le> length xs \<Longrightarrow>
    copy_into xs off ys = Ok (take off xs @ ys @ drop (off + length ys) xs)"
  by (simp add: copy_into_def)

lemma nth_copied:
  assumes "off + length ys \<le> length xs" "i < length xs"
  shows "(take off xs @ ys @ drop (off + length ys) xs) ! i
    = (if off \<le> i \<and> i < off + length ys then ys ! (i - off) else xs ! i)"
  using assms by (auto simp: nth_append min_def)

lemma place_chunk_eq:
  assumes "pi_base q \<le> k" "k + length d \<le> pi_base q + length bytes" "k + length d < 2 ^ 64"
  shows "place_chunk q i (k, d) (bytes, fills, lo) =
    Ok (take (k - pi_base q) bytes @ d @ drop (k - pi_base q + length d) bytes,
        fills @ (if lo < k then [\<lparr>fill_address = lo, fill_size = k - lo, fill_page_index = i\<rparr>] else []),
        k + length d)"
proof -
  have "copy_into bytes (k - pi_base q) d =
      (Ok (take (k - pi_base q) bytes @ d @ drop (k - pi_base q + length d) bytes)
        :: u8 list flash_res)"
    by (rule copy_into_eq) (use assms in arith)
  then show ?thesis using assms by (simp add: place_chunk_def res_simps)
qed

lemma place_chunks:
  assumes "chunks_ok lo cs" "pi_base q \<le> lo" "\<forall>(k, d) \<in> set cs. k + length d \<le> pi_base q + length bytes"
  shows "\<exists>bytes'. rfold (place_chunk q i) cs (bytes, fills, lo)
      = Ok (bytes', fills @ gaps i lo cs, end_from lo cs)
    \<and> length bytes' = length bytes
    \<and> (\<forall>j < length bytes. bytes' ! j =
         (case staged_byte cs (pi_base q + j) of Some b \<Rightarrow> b | None \<Rightarrow> bytes ! j))"
  using assms
proof (induction i lo cs arbitrary: bytes fills rule: gaps.induct)
  case (1 i lo)
  then show ?case by simp
next
  case (2 i lo k d cs)
  define b' where "b' = take (k - pi_base q) bytes @ d @ drop (k - pi_base q + length d) bytes"
  define f' where "f' = fills @ (if lo < k then [\<lparr>fill_address = lo, fill_size = k - lo, fill_page_index = i\<rparr>] else [])"
  have fits: "pi_base q \<le> k" "k + length d \<le> pi_base q + length bytes" "k + length d < 2 ^ 64"
    "chunks_ok (k + length d) cs"
    using 2 by auto
  then have len: "length b' = length bytes" by (simp add: b'_def)
  have step: "place_chunk q i (k, d) (bytes, fills, lo) = Ok (b', f', k + length d)"
    using place_chunk_eq [OF fits(1-3), of i fills lo] by (simp add: b'_def f'_def)
  have "\<forall>(k, d) \<in> set cs. k + length d \<le> pi_base q + length b'" using 2(4) len by auto
  then obtain bytes' where b: "rfold (place_chunk q i) cs (b', f', k + length d)
      = Ok (bytes', f' @ gaps i (k + length d) cs, end_from (k + length d) cs)"
    "length bytes' = length b'"
    "\<forall>j < length b'. bytes' ! j = (case staged_byte cs (pi_base q + j) of Some b \<Rightarrow> b | None \<Rightarrow> b' ! j)"
    using "2.IH" [of b' f'] fits by fastforce
  have "bytes' ! j = (case staged_byte ((k, d) # cs) (pi_base q + j) of Some b \<Rightarrow> b | None \<Rightarrow> bytes ! j)"
    if j: "j < length bytes" for j
  proof (cases "k \<le> pi_base q + j \<and> pi_base q + j < k + length d")
    case True
    then have "staged_byte cs (pi_base q + j) = None"
      using chunks_ok_below [OF fits(4)] by simp
    moreover have "k - pi_base q \<le> j" "j < k - pi_base q + length d" "j - (k - pi_base q) = pi_base q + j - k"
      using True fits(1) by arith+
    moreover have "k - pi_base q + length d \<le> length bytes" using fits by arith
    ultimately show ?thesis
      using b(3) j True len nth_copied [of "k - pi_base q" d bytes j] by (simp add: b'_def)
  next
    case False
    then have "\<not> (k - pi_base q \<le> j \<and> j < k - pi_base q + length d)"
      using fits(1) by arith
    moreover have "k - pi_base q + length d \<le> length bytes" using fits by arith
    ultimately have "b' ! j = bytes ! j"
      using j nth_copied [of "k - pi_base q" d bytes j] by (simp only: b'_def if_False)
    moreover have "staged_byte ((k, d) # cs) (pi_base q + j) = staged_byte cs (pi_base q + j)"
      using False by (simp only: staged_byte_Cons if_False)
    moreover have "bytes' ! j = (case staged_byte cs (pi_base q + j) of Some b \<Rightarrow> b | None \<Rightarrow> b' ! j)"
      using b(3) j len by simp
    ultimately show ?thesis by (simp only: cong: option.case_cong)
  qed
  then show ?case
    using step b(1,2) len by (auto simp: f'_def)
qed

subsection \<open>The loops compute the specification\<close>

lemma has_staged_chunks:
  assumes "builder_inv m" "a < b"
  shows "has_data_in_range m (mk_range a b) = Ok (has_staged m a b)"
  using has_data_in_range_eq [OF assms(1), of "mk_range a b"]
    range_chunks_nonempty_iff [OF assms(1), of "mk_range a b"] assms(2)
  by (simp add: has_staged_def in_range_def)

lemma has_data_in_overlap_Ok:
  assumes "builder_inv m"
  shows "\<exists>r. has_data_in_overlap m rng region = Ok r"
  using has_staged_chunks [OF assms, of "max (rstart rng) (rstart (nr_range region))"
      "min (rend rng) (rend (nr_range region))"]
  unfolding has_data_in_overlap_def Let_def by (metis (full_types))

lemma page_info_at_eq:
  assumes "wf_pages p" "in_range (fp_address_range p) x"
  shows "page_info_at p x = Ok (Some \<lparr>pi_base = x - x mod fp_page_size p, pi_size = fp_page_size p\<rparr>)"
  using assms by (simp add: page_info_at_def wf_pages_def res_simps)

lemma page_span_limit:
  assumes "wf_pages p" "x < fp_end p"
  shows "x - x mod fp_page_size p + fp_page_size p < 2 ^ 64"
proof -
  have "x - x mod fp_page_size p \<le> x" by simp
  then show ?thesis using assms unfolding wf_pages_def by linarith
qed

lemma add_sector_eq:
  assumes inv: "builder_inv m" and wf: "wf_pages props"
    and s: "in_range (fp_address_range props) (si_base s)" "0 < si_size s" "si_base s + si_size s < 2 ^ 64"
  shows "add_sector m region props s layout =
    Ok (if sector_wanted m region props s
        then layout\<lparr>lay_sectors := lay_sectors layout
               @ [\<lparr>sector_address = si_base s, sector_size = si_size s\<rparr>]\<rparr>
        else layout)"
proof -
  define b where "b = si_base s - si_base s mod fp_page_size props"
  have rng: "sector_range s = Ok (mk_range (si_base s) (si_base s + si_size s))"
    using s by (simp add: sector_range_def res_simps)
  have b: "b + fp_page_size props < 2 ^ 64"
    using page_span_limit [OF wf, of "si_base s"] s(1) unfolding b_def in_range_def by blast
  have b': "b < b + fp_page_size props"
    using wf by (simp add: wf_pages_def)
  have "page_range \<lparr>pi_base = b, pi_size = fp_page_size props\<rparr> = Ok (mk_range b (b + fp_page_size props))"
    using b by (simp add: page_range_def res_simps)
  then show ?thesis
    using rng page_info_at_eq [OF wf s(1)] has_staged_chunks [OF inv b']
      has_staged_chunks [OF inv, of "si_base s" "si_base s + si_size s"] s(2)
      has_data_in_overlap_Ok [OF inv, of "mk_range (si_base s) (si_base s + si_size s)" region]
    by (auto simp: add_sector_def sector_wanted_def b_def [symmetric] Let_def)
qed

lemma add_sectors_eq:
  assumes inv: "builder_inv m" and wf: "wf_pages props"
    and s: "\<forall>s \<in> set ss. in_range (fp_address_range props) (si_base s) \<and> 0 < si_size s
      \<and> si_base s + si_size s < 2 ^ 64"
  shows "rfold (add_sector m region props) ss layout =
    Ok (layout\<lparr>lay_sectors := lay_sectors layout
          @ map (\<lambda>s. \<lparr>sector_address = si_base s, sector_size = si_size s\<rparr>)
              (filter (sector_wanted m region props) ss)\<rparr>)"
  using s
proof (induction ss arbitrary: layout)
  case Nil
  then show ?case by simp
next
  case (Cons s ss)
  then show ?case using add_sector_eq [OF inv wf, of s region layout] by simp
qed

lemma page_image_rfold:
  assumes inv: "builder_inv m" and q: "0 < pi_size q" "pi_base q + pi_size q < 2 ^ 64"
  defines "hi \<equiv> pi_base q + pi_size q"
  defines "cs \<equiv> range_chunks m (mk_range (pi_base q) hi)"
  shows "rfold (place_chunk q i) cs
      (page_bytes (flash_page_new q (fp_erased_byte_value props)), fills, pi_base q)
    = Ok (page_bytes (page_image m props q), fills @ gaps i (pi_base q) cs, end_from (pi_base q) cs)"
proof -
  let ?v = "fp_erased_byte_value props"
  let ?blank = "page_bytes (flash_page_new q ?v)"
  have blank: "length ?blank = pi_size q" "\<And>j. j < pi_size q \<Longrightarrow> ?blank ! j = ?v"
    by (simp_all add: flash_page_new_def)
  have ne: "rstart (mk_range (pi_base q) hi) < rend (mk_range (pi_base q) hi)"
    using q by (simp add: hi_def)
  note sound = range_chunks_sound [OF inv ne]
  have cs: "chunks_ok (pi_base q) cs" "\<forall>(k, d) \<in> set cs. k + length d \<le> pi_base q + length ?blank"
    "\<And>a. staged_byte cs a = (if pi_base q \<le> a \<and> a < hi then staged_byte m a else None)"
    using sound blank(1) by (simp_all add: cs_def hi_def in_range_def)
  obtain bytes' where b: "rfold (place_chunk q i) cs (?blank, fills, pi_base q)
      = Ok (bytes', fills @ gaps i (pi_base q) cs, end_from (pi_base q) cs)"
    "length bytes' = length ?blank"
    "\<forall>j < length ?blank. bytes' ! j =
         (case staged_byte cs (pi_base q + j) of Some b \<Rightarrow> b | None \<Rightarrow> ?blank ! j)"
    using place_chunks [OF cs(1) order_refl cs(2)] by blast
  have "bytes' = page_bytes (page_image m props q)"
  proof (rule nth_equalityI)
    show "length bytes' = length (page_bytes (page_image m props q))"
      using b(2) blank(1) by (simp add: page_image_def)
  next
    fix j
    assume "j < length bytes'"
    then have j: "j < pi_size q" using b(2) blank(1) by simp
    then have "staged_byte cs (pi_base q + j) = staged_byte m (pi_base q + j)"
      using cs(3) by (simp add: hi_def)
    then show "bytes' ! j = page_bytes (page_image m props q) ! j"
      using b(3) j blank by (simp add: page_image_def cong: option.case_cong)
  qed
  then show ?thesis using b(1) by simp
qed

lemma add_page_eq:
  assumes inv: "builder_inv m" and q: "0 < pi_size q" "pi_base q + pi_size q < 2 ^ 64"
    and s: "sector_info_at props (pi_base q) = Ok (Some s)" "0 < si_size s" "si_base s + si_size s < 2 ^ 64"
  shows "add_page m region props ie q layout =
    Ok (if page_wanted m region props ie q
        then layout\<lparr>lay_fills := lay_fills layout @ page_fills m (length (lay_pages layout)) q,
               lay_pages := lay_pages layout @ [page_image m props q]\<rparr>
        else layout)"
proof -
  define hi where "hi = pi_base q + pi_size q"
  have rng: "page_range q = Ok (mk_range (pi_base q) hi)"
    using q by (simp add: page_range_def res_simps hi_def)
  have srng: "sector_range s = Ok (mk_range (si_base s) (si_base s + si_size s))"
    using s by (simp add: sector_range_def res_simps)
  have dp: "has_data_in_range m (mk_range (pi_base q) hi) = Ok (has_staged m (pi_base q) hi)"
    using has_staged_chunks [OF inv] q by (simp add: hi_def)
  have ds: "has_data_in_range m (mk_range (si_base s) (si_base s + si_size s))
      = Ok (has_staged m (si_base s) (si_base s + si_size s))"
    using has_staged_chunks [OF inv] s(2) by simp
  have dr: "data_in_range m (mk_range (pi_base q) hi) = Ok (range_chunks m (mk_range (pi_base q) hi))"
    using data_in_range_eq [OF inv] q by (simp add: hi_def)
  obtain r where ov: "has_data_in_overlap m (mk_range (pi_base q) hi) region = Ok r"
    using has_data_in_overlap_Ok [OF inv] by blast
  note fold = page_image_rfold [OF inv q, of "length (lay_pages layout)" props "lay_fills layout",
      folded hi_def]
  have img: "(flash_page_new q v)\<lparr>page_bytes := page_bytes (page_image m props q)\<rparr> = page_image m props q" for v
    by (simp add: flash_page_new_def page_image_def)
  show ?thesis
  proof (cases "contains_range (nr_range region) (mk_range (pi_base q) hi)")
    case False
    then show ?thesis
      using rng ov by (simp add: add_page_def page_wanted_def hi_def [symmetric])
  next
    case True
    then show ?thesis
      using rng srng s(1) dp ds dr fold img
      by (simp add: add_page_def page_wanted_def hi_def [symmetric] page_fills_def tail_gap_def Let_def)
  qed
qed

lemma fills_from_append:
  "fills_from m i (xs @ ys) = fills_from m i xs @ fills_from m (i + length xs) ys"
  by (induction m i xs rule: fills_from.induct) auto

lemma add_pages_eq:
  assumes inv: "builder_inv m"
    and q: "\<forall>q \<in> set qs. 0 < pi_size q \<and> pi_base q + pi_size q < 2 ^ 64
      \<and> (\<exists>s. sector_info_at props (pi_base q) = Ok (Some s) \<and> 0 < si_size s
           \<and> si_base s + si_size s < 2 ^ 64)"
  shows "rfold (add_page m region props ie) qs layout =
    Ok (layout\<lparr>
      lay_fills := lay_fills layout
        @ fills_from m (length (lay_pages layout)) (filter (page_wanted m region props ie) qs),
      lay_pages := lay_pages layout
        @ map (page_image m props) (filter (page_wanted m region props ie) qs)\<rparr>)"
  using q
proof (induction qs arbitrary: layout)
  case Nil
  then show ?case by simp
next
  case (Cons q qs)
  obtain s where s: "sector_info_at props (pi_base q) = Ok (Some s)" "0 < si_size s"
    "si_base s + si_size s < 2 ^ 64"
    using Cons.prems by auto
  have "add_page m region props ie q layout =
    Ok (if page_wanted m region props ie q
        then layout\<lparr>lay_fills := lay_fills layout @ page_fills m (length (lay_pages layout)) q,
               lay_pages := lay_pages layout @ [page_image m props q]\<rparr>
        else layout)"
    using add_page_eq [OF inv _ _ s] Cons.prems by simp
  then show ?case
    using Cons by simp
qed

text \<open>The layout as a specification: which sectors and pages, with which contents and fills.\<close>

definition layout_spec ::
  "staged \<Rightarrow> nvm_region \<Rightarrow> flash_properties \<Rightarrow> bool \<Rightarrow> sector_info list \<Rightarrow> page_info list \<Rightarrow>
     flash_layout" where
  "layout_spec m region props ie ss qs =
     \<lparr>lay_sectors = map (\<lambda>s. \<lparr>sector_address = si_base s, sector_size = si_size s\<rparr>)
        (filter (sector_wanted m region props) ss),
      lay_pages = map (page_image m props) (filter (page_wanted m region props ie) qs),
      lay_fills = fills_from m 0 (filter (page_wanted m region props ie) qs),
      lay_data_blocks = map (\<lambda>(a, d). \<lparr>block_address = a, block_size = length d\<rparr>)
        (range_chunks m (nr_range region))\<rparr>"

lemma sectors_tile_pos: "sectors_tile a ss b \<Longrightarrow> s \<in> set ss \<Longrightarrow> 0 < si_size s"
  by (induction ss arbitrary: a) auto

lemma pages_tile_pos: "pages_tile a qs b \<Longrightarrow> q \<in> set qs \<Longrightarrow> 0 < pi_size q"
  by (induction qs arbitrary: a) auto

lemma build_layout_eq:
  assumes inv: "builder_inv m" and wf: "wf_sectors props" "wf_pages props"
    and region: "rstart (nr_range region) < rend (nr_range region)"
  shows "\<exists>ss qs sb qb. iter_sectors props = Some (Ok ss) \<and> iter_pages props = Some (Ok qs)
    \<and> sectors_tile (fp_start props) ss sb \<and> fp_end props \<le> sb
    \<and> pages_tile (fp_start props) qs qb \<and> fp_end props \<le> qb
    \<and> (\<forall>s \<in> set ss. si_base s < fp_end props
        \<and> (\<forall>x. si_base s \<le> x \<longrightarrow> x < si_base s + si_size s \<longrightarrow> x < fp_end props \<longrightarrow>
             sector_info_at props x = Ok (Some s)))
    \<and> (\<forall>q \<in> set qs. pi_size q = fp_page_size props \<and> pi_base q < fp_end props
        \<and> fp_page_size props dvd pi_base q - fp_start props)
    \<and> build_layout m region props ie = Some (Ok (layout_spec m region props ie ss qs))"
proof -
  obtain ss sb where ss: "iter_sectors props = Some (Ok ss)" "sectors_tile (fp_start props) ss sb"
    "fp_end props \<le> sb"
    and s: "\<forall>s \<in> set ss. si_base s < fp_end props \<and> si_base s + si_size s < 2 ^ 64
        \<and> (\<forall>x. si_base s \<le> x \<longrightarrow> x < si_base s + si_size s \<longrightarrow> x < fp_end props \<longrightarrow>
             sector_info_at props x = Ok (Some s))"
    using iter_sectors_sound [OF wf(1)] by blast
  obtain qs qb where qs: "iter_pages props = Some (Ok qs)" "pages_tile (fp_start props) qs qb"
    "fp_end props \<le> qb"
    and q: "\<forall>q \<in> set qs. pi_size q = fp_page_size props \<and> pi_base q < fp_end props
        \<and> fp_start props \<le> pi_base q \<and> fp_page_size props dvd pi_base q - fp_start props"
    using iter_pages_sound [OF wf(2)] by blast
  have "\<forall>s \<in> set ss. in_range (fp_address_range props) (si_base s) \<and> 0 < si_size s
      \<and> si_base s + si_size s < 2 ^ 64"
    using s sectors_tile_bounds [OF ss(2)] sectors_tile_pos [OF ss(2)] by (simp add: in_range_def)
  then have sec: "layout_sectors m region props = Some (Ok (empty_layout\<lparr>lay_sectors :=
      map (\<lambda>s. \<lparr>sector_address = si_base s, sector_size = si_size s\<rparr>)
        (filter (sector_wanted m region props) ss)\<rparr>))"
    using add_sectors_eq [OF inv wf(2), of ss region empty_layout] ss(1)
    by (simp add: layout_sectors_def empty_layout_def)
  have "\<forall>q \<in> set qs. 0 < pi_size q \<and> pi_base q + pi_size q < 2 ^ 64
      \<and> (\<exists>s. sector_info_at props (pi_base q) = Ok (Some s) \<and> 0 < si_size s
           \<and> si_base s + si_size s < 2 ^ 64)"
  proof
    fix q0
    assume "q0 \<in> set qs"
    then have q0: "pi_size q0 = fp_page_size props" "pi_base q0 < fp_end props" "fp_start props \<le> pi_base q0"
      using q by auto
    then obtain t where t: "t \<in> set ss" "si_base t \<le> pi_base q0" "pi_base q0 < si_base t + si_size t"
      using sectors_tile_covers [OF ss(2), of "pi_base q0"] ss(3) by auto
    moreover have "0 < pi_size q0 \<and> pi_base q0 + pi_size q0 < 2 ^ 64"
      using q0 wf(2) by (simp add: wf_pages_def)
    ultimately show "0 < pi_size q0 \<and> pi_base q0 + pi_size q0 < 2 ^ 64
      \<and> (\<exists>s. sector_info_at props (pi_base q0) = Ok (Some s) \<and> 0 < si_size s
           \<and> si_base s + si_size s < 2 ^ 64)"
      using s q0(2) sectors_tile_pos [OF ss(2)] by blast
  qed
  then have pag: "layout_pages m region props ie lay = Some (Ok (lay\<lparr>
      lay_fills := lay_fills lay
        @ fills_from m (length (lay_pages lay)) (filter (page_wanted m region props ie) qs),
      lay_pages := lay_pages lay
        @ map (page_image m props) (filter (page_wanted m region props ie) qs)\<rparr>))" for lay
    using add_pages_eq [OF inv, of qs props region ie lay] qs(1) by (simp add: layout_pages_def)
  have "build_layout m region props ie = Some (Ok (layout_spec m region props ie ss qs))"
    using sec pag data_in_range_eq [OF inv region]
    by (simp add: build_layout_def layout_blocks_def layout_spec_def empty_layout_def)
  then show ?thesis
    using ss qs s q by blast
qed

subsection \<open>Fills\<close>

text \<open>Ascending, non-empty and disjoint fills of page \<open>i\<close> between \<open>lo\<close> and \<open>hi\<close>.\<close>

fun fills_ok :: "nat \<Rightarrow> nat \<Rightarrow> flash_fill list \<Rightarrow> nat \<Rightarrow> bool" where
  "fills_ok i lo [] hi \<longleftrightarrow> lo \<le> hi"
| "fills_ok i lo (f # fs) hi \<longleftrightarrow>
     fill_page_index f = i \<and> lo \<le> fill_address f \<and> 0 < fill_size f
     \<and> fills_ok i (fill_address f + fill_size f) fs hi"

definition filled :: "flash_fill list \<Rightarrow> nat \<Rightarrow> bool" where
  "filled fs a \<longleftrightarrow> (\<exists>f \<in> set fs. fill_address f \<le> a \<and> a < fill_address f + fill_size f)"

lemma filled_simps [simp]:
  "\<not> filled [] a"
  "filled (f # fs) a \<longleftrightarrow> fill_address f \<le> a \<and> a < fill_address f + fill_size f \<or> filled fs a"
  "filled (fs @ gs) a \<longleftrightarrow> filled fs a \<or> filled gs a"
  by (auto simp: filled_def)

lemma fills_ok_mono: "fills_ok i lo fs hi \<Longrightarrow> lo' \<le> lo \<Longrightarrow> fills_ok i lo' fs hi"
  by (cases fs) auto

lemma fills_ok_le: "fills_ok i lo fs hi \<Longrightarrow> lo \<le> hi"
  by (induction fs arbitrary: lo) fastforce+

lemma fills_ok_bounds: "fills_ok i lo fs hi \<Longrightarrow> filled fs a \<Longrightarrow> lo \<le> a \<and> a < hi"
proof (induction fs arbitrary: lo)
  case Nil
  then show ?case by simp
next
  case (Cons f fs)
  then show ?case
    using fills_ok_le [of i "fill_address f + fill_size f" fs hi] by fastforce
qed

lemma fills_ok_index: "fills_ok i lo fs hi \<Longrightarrow> f \<in> set fs \<Longrightarrow> fill_page_index f = i \<and> lo \<le> fill_address f"
  by (induction fs arbitrary: lo) fastforce+

lemma fills_ok_sorted: "fills_ok i lo fs hi \<Longrightarrow> sorted (map fill_address fs)"
proof (induction fs arbitrary: lo)
  case Nil
  then show ?case by simp
next
  case (Cons f fs)
  then have "\<forall>g \<in> set fs. fill_address f \<le> fill_address g"
    using fills_ok_index [of i "fill_address f + fill_size f" fs hi] by fastforce
  then show ?case using Cons by auto
qed

lemma chunks_end_le: "chunks_ok lo cs \<Longrightarrow> lo \<le> hi \<Longrightarrow> \<forall>(k, d) \<in> set cs. k + length d \<le> hi \<Longrightarrow> end_from lo cs \<le> hi"
  by (induction lo cs rule: chunks_ok.induct) auto

lemma gaps_ok:
  assumes "chunks_ok lo cs" "end_from lo cs \<le> hi"
  shows "fills_ok i lo (gaps i lo cs @ tail_gap i (end_from lo cs) hi) hi
    \<and> (filled (gaps i lo cs @ tail_gap i (end_from lo cs) hi) a
        \<longleftrightarrow> lo \<le> a \<and> a < hi \<and> staged_byte cs a = None)"
  using assms
proof (induction i lo cs rule: gaps.induct)
  case (1 i lo)
  then show ?case by (auto simp: tail_gap_def)
next
  case (2 i lo k d cs)
  have ok: "chunks_ok (k + length d) cs" "lo \<le> k" "d \<noteq> []" "end_from (k + length d) cs \<le> hi"
    using 2(2,3) by simp_all
  note IH = "2.IH" [OF ok(1,4)]
  have kend: "k + length d \<le> hi"
    using chunks_ok_end [OF ok(1)] ok(4) by simp
  have below: "staged_byte cs a = None" if "a < k + length d"
    using chunks_ok_below [OF ok(1) that] .
  have "fills_ok i lo (gaps i lo ((k, d) # cs) @ tail_gap i (end_from lo ((k, d) # cs)) hi) hi"
    using IH ok(2) by (auto intro: fills_ok_mono)
  moreover have "filled (gaps i lo ((k, d) # cs) @ tail_gap i (end_from lo ((k, d) # cs)) hi) a
      \<longleftrightarrow> lo \<le> a \<and> a < hi \<and> staged_byte ((k, d) # cs) a = None"
    using IH ok(2) below kend by (auto split: if_splits)
  ultimately show ?case by blast
qed

lemma page_fills_ok:
  assumes inv: "builder_inv m" and q: "0 < pi_size q"
  shows "fills_ok i (pi_base q) (page_fills m i q) (pi_base q + pi_size q)"
    "filled (page_fills m i q) a
      \<longleftrightarrow> pi_base q \<le> a \<and> a < pi_base q + pi_size q \<and> staged_byte m a = None"
proof -
  define hi where "hi = pi_base q + pi_size q"
  define cs where "cs = range_chunks m (mk_range (pi_base q) hi)"
  have ne: "rstart (mk_range (pi_base q) hi) < rend (mk_range (pi_base q) hi)"
    using q by (simp add: hi_def)
  note sound = range_chunks_sound [OF inv ne]
  have cs: "chunks_ok (pi_base q) cs" "\<forall>(k, d) \<in> set cs. k + length d \<le> hi"
    "\<And>a. staged_byte cs a = (if pi_base q \<le> a \<and> a < hi then staged_byte m a else None)"
    using sound by (simp_all add: cs_def in_range_def)
  have "end_from (pi_base q) cs \<le> hi"
    using chunks_end_le [OF cs(1) _ cs(2)] by (simp add: hi_def)
  note g = gaps_ok [OF cs(1) this, of i]
  have f: "page_fills m i q = gaps i (pi_base q) cs @ tail_gap i (end_from (pi_base q) cs) hi"
    by (simp add: page_fills_def hi_def cs_def Let_def)
  show "fills_ok i (pi_base q) (page_fills m i q) (pi_base q + pi_size q)"
    using g f by (simp add: hi_def)
  have "filled (page_fills m i q) a \<longleftrightarrow> pi_base q \<le> a \<and> a < hi \<and> staged_byte cs a = None"
    using g [of a] f by simp
  then show "filled (page_fills m i q) a
      \<longleftrightarrow> pi_base q \<le> a \<and> a < pi_base q + pi_size q \<and> staged_byte m a = None"
    using cs(3) [of a] by (auto simp: hi_def)
qed

lemma filter_fills_ok: "fills_ok j lo fs hi \<Longrightarrow>
    filter (\<lambda>f. fill_page_index f = i) fs = (if i = j then fs else [])"
  by (induction fs arbitrary: lo) auto

lemma fills_from_index:
  assumes inv: "builder_inv m" and q: "\<forall>q \<in> set qs. 0 < pi_size q"
  shows "filter (\<lambda>f. fill_page_index f = i) (fills_from m n qs)
    = (if n \<le> i \<and> i < n + length qs then page_fills m i (qs ! (i - n)) else [])"
  using q
proof (induction qs arbitrary: n)
  case Nil
  then show ?case by auto
next
  case (Cons q qs)
  have "fills_ok n (pi_base q) (page_fills m n q) (pi_base q + pi_size q)"
    using page_fills_ok(1) [OF inv, of q n] Cons.prems by simp
  then have "filter (\<lambda>f. fill_page_index f = i) (page_fills m n q) = (if i = n then page_fills m n q else [])"
    using filter_fills_ok by simp
  then show ?case
    using Cons by (auto simp: nth_Cons' Suc_le_eq)
qed

subsection \<open>The image data of a page\<close>

text \<open>What \<open>page_data_without_fills\<close> keeps of a page between ascending fills.\<close>

lemma piece_steps:
  assumes "fills_ok i lo fs hi" "page_address pg \<le> lo" "hi = page_address pg + length (page_bytes pg)"
    "hi < 2 ^ 64"
  shows "\<exists>new off. rfold (piece_step pg) fs (pieces, lo - page_address pg) = Ok (pieces @ new, off)
    \<and> off \<le> length (page_bytes pg)
    \<and> (let all = new @ (if off < length (page_bytes pg)
           then [(page_address pg + off, drop off (page_bytes pg))] else [])
       in chunks_ok lo all
        \<and> (\<forall>a. staged_byte all a = (if lo \<le> a \<and> a < hi \<and> \<not> filled fs a
              then Some (page_bytes pg ! (a - page_address pg)) else None)))"
  using assms(1,2)
proof (induction fs arbitrary: lo pieces)
  case Nil
  define off where "off = lo - page_address pg"
  have off: "off \<le> length (page_bytes pg)" "page_address pg + off = lo"
    using Nil assms(3) by (simp_all add: off_def)
  show ?case
    using off assms(3,4) unfolding off_def [symmetric]
    by (intro exI [of _ "[]"] exI [of _ off]) (auto simp: Let_def)
next
  case (Cons f fs)
  let ?p = "page_address pg" and ?b = "page_bytes pg"
  define fo where "fo = fill_address f - ?p"
  define e where "e = fill_address f + fill_size f"
  define d where "d = take (fo - (lo - ?p)) (drop (lo - ?p) ?b)"
  define pre where "pre = (if lo < fill_address f then [(lo, d)] else [])"
  have f: "lo \<le> fill_address f" "0 < fill_size f" "fills_ok i e fs hi" "e \<le> hi"
    using Cons.prems fills_ok_le [of i e fs hi] by (simp_all add: e_def)
  have fo: "fo \<le> length ?b" "?p + fo = fill_address f" "fo + fill_size f = e - ?p"
    "lo - ?p < fo \<longleftrightarrow> lo < fill_address f" "?p \<le> fill_address f" "?p \<le> e"
    using f Cons.prems(2) assms(3) by (auto simp: fo_def e_def)
  have lim: "fo + fill_size f < 2 ^ 64"
    using fo f assms(4) by simp
  have "piece_step pg f (pieces, lo - ?p) = Ok (pieces @ pre, e - ?p)"
    using fo lim Cons.prems(2) unfolding piece_step_def fo_def [symmetric] pre_def d_def
    by (simp add: res_simps fo_def [symmetric])
  moreover obtain new off where new: "rfold (piece_step pg) fs (pieces @ pre, e - ?p)
      = Ok ((pieces @ pre) @ new, off)" "off \<le> length ?b"
    "let all = new @ (if off < length ?b then [(?p + off, drop off ?b)] else [])
       in chunks_ok e all
        \<and> (\<forall>a. staged_byte all a = (if e \<le> a \<and> a < hi \<and> \<not> filled fs a
              then Some (?b ! (a - ?p)) else None))"
    using Cons.IH [OF f(3) fo(6), of "pieces @ pre"] by blast
  define all where "all = new @ (if off < length ?b then [(?p + off, drop off ?b)] else [])"
  have all: "chunks_ok e all"
    "staged_byte all a = (if e \<le> a \<and> a < hi \<and> \<not> filled fs a then Some (?b ! (a - ?p)) else None)" for a
    using new(3) by (simp_all add: all_def Let_def)
  have "length d = min (length ?b - (lo - ?p)) (fo - (lo - ?p))"
    by (simp add: d_def)
  then have len: "length d = fill_address f - lo"
    using fo Cons.prems(2) by linarith
  have nth: "d ! j = ?b ! (lo - ?p + j)" if "j < length d" for j
  proof -
    have "j < fo - (lo - ?p)" "lo - ?p \<le> length ?b"
      using that fo Cons.prems(2) unfolding len by linarith+
    then show ?thesis by (simp only: d_def nth_take nth_drop)
  qed
  note d = len nth
  have "chunks_ok (fill_address f) all"
    using all(1) by (rule chunks_ok_mono) (simp add: e_def)
  then have "chunks_ok lo (pre @ all)"
    using d f assms(4) chunks_ok_mono [OF all(1), of lo] by (auto simp: pre_def e_def)
  moreover have "staged_byte (pre @ all) a = (if lo \<le> a \<and> a < hi \<and> \<not> filled (f # fs) a
              then Some (?b ! (a - ?p)) else None)" for a
  proof (cases "lo \<le> a \<and> a < fill_address f")
    case True
    then have "\<not> filled (f # fs) a" using f(2) fills_ok_bounds [OF f(3), of a] by (auto simp: e_def)
    moreover have "lo - ?p + (a - lo) = a - ?p" using True Cons.prems(2) by simp
    then have "staged_byte (pre @ all) a = Some (?b ! (a - ?p))"
      using True len nth [of "a - lo"] by (auto simp: pre_def)
    ultimately show ?thesis using True f(4) by (simp add: e_def)
  next
    case False
    then have "staged_byte (pre @ all) a = staged_byte all a"
      using d by (auto simp: pre_def)
    then show ?thesis using False all(2) [of a] f by (auto simp: e_def)
  qed
  ultimately show ?case
    using new(1,2) unfolding all_def Let_def
    by (intro exI [of _ "pre @ new"] exI [of _ off]) simp
qed

lemma page_data_without_fills_eq:
  assumes inv: "builder_inv m" and q: "\<forall>q \<in> set qs. 0 < pi_size q \<and> pi_base q + pi_size q < 2 ^ 64"
    and lay: "lay_pages lay = map (page_image m props) qs" "lay_fills lay = fills_from m 0 qs"
    and i: "i < length qs"
  shows "\<exists>pieces. page_data_without_fills lay i = Ok pieces \<and> chunks_ok (pi_base (qs ! i)) pieces
    \<and> (\<forall>a. staged_byte pieces a = (if pi_base (qs ! i) \<le> a \<and> a < pi_base (qs ! i) + pi_size (qs ! i)
         then staged_byte m a else None))"
proof -
  define q0 where "q0 = qs ! i"
  define pg where "pg = page_image m props q0"
  define fs where "fs = page_fills m i q0"
  have q0: "0 < pi_size q0" "pi_base q0 + pi_size q0 < 2 ^ 64"
    using q i by (simp_all add: q0_def)
  have pg: "page_address pg = pi_base q0" "length (page_bytes pg) = pi_size q0"
    by (simp_all add: pg_def page_image_def)
  note ok = page_fills_ok [OF inv q0(1), of i, folded fs_def]
  have fs: "sort_key fill_address (filter (\<lambda>f. fill_page_index f = i) (lay_fills lay)) = fs"
    using fills_from_index [OF inv, of qs i 0] q i lay(2) fills_ok_sorted [OF ok(1)]
    by (simp add: fs_def q0_def sort_key_id_if_sorted)
  obtain new off where new: "rfold (piece_step pg) fs ([], 0) = Ok (new, off)"
    "off \<le> length (page_bytes pg)"
    "let all = new @ (if off < length (page_bytes pg)
           then [(page_address pg + off, drop off (page_bytes pg))] else [])
       in chunks_ok (pi_base q0) all
        \<and> (\<forall>a. staged_byte all a = (if pi_base q0 \<le> a \<and> a < pi_base q0 + pi_size q0 \<and> \<not> filled fs a
              then Some (page_bytes pg ! (a - page_address pg)) else None))"
    using piece_steps [OF ok(1), of pg "[]"] pg q0(2) by auto
  define all where "all = new @ (if off < length (page_bytes pg)
           then [(page_address pg + off, drop off (page_bytes pg))] else [])"
  have all: "chunks_ok (pi_base q0) all"
    "staged_byte all a = (if pi_base q0 \<le> a \<and> a < pi_base q0 + pi_size q0 \<and> \<not> filled fs a
              then Some (page_bytes pg ! (a - pi_base q0)) else None)" for a
    using new(3) pg(1) by (simp_all add: all_def Let_def)
  have "page_data_without_fills lay i = Ok all"
    using new(1) fs i lay(1)
    by (simp add: page_data_without_fills_def nth_r_eq pg_def [symmetric] q0_def [symmetric] all_def)
  moreover have "staged_byte all a = (if pi_base q0 \<le> a \<and> a < pi_base q0 + pi_size q0
         then staged_byte m a else None)" for a
  proof (cases "pi_base q0 \<le> a \<and> a < pi_base q0 + pi_size q0")
    case True
    then have "page_bytes pg ! (a - pi_base q0) = (case staged_byte m a of Some b \<Rightarrow> b
        | None \<Rightarrow> fp_erased_byte_value props)"
      by (simp add: pg_def page_image_def less_diff_conv2)
    then show ?thesis
      using all(2) [of a] ok(2) [of a] True by (cases "staged_byte m a") simp_all
  next
    case False
    then show ?thesis using all(2) [of a] by auto
  qed
  ultimately show ?thesis using all(1) by (auto simp: q0_def)
qed

subsection \<open>What the flasher relies on\<close>

text \<open>C9. The layout of a well-formed flash is always computed, and each of its pages holds, byte by
  byte, the staged data where there is some and the erased value elsewhere.\<close>

theorem layout_page_contents:
  assumes "builder_inv m" "wf_sectors props" "wf_pages props"
    and "rstart (nr_range region) < rend (nr_range region)"
  shows "\<exists>lay. build_layout m region props ie = Some (Ok lay)
    \<and> (\<forall>pg \<in> set (lay_pages lay).
         length (page_bytes pg) = fp_page_size props
         \<and> contains_range (nr_range region)
             (mk_range (page_address pg) (page_address pg + fp_page_size props))
         \<and> (\<forall>i < fp_page_size props. page_bytes pg ! i =
              (case staged_byte m (page_address pg + i) of
                 Some b \<Rightarrow> b | None \<Rightarrow> fp_erased_byte_value props)))"
proof -
  obtain ss qs where lay: "build_layout m region props ie = Some (Ok (layout_spec m region props ie ss qs))"
    and q: "\<forall>q \<in> set qs. pi_size q = fp_page_size props"
    using build_layout_eq [OF assms] by blast
  show ?thesis
    by (intro exI conjI, rule lay)
      (use q in \<open>auto simp: layout_spec_def page_image_def page_wanted_def\<close>)
qed

definition demo_region :: nvm_region where
  "demo_region = \<lparr>nr_name = None, nr_range = mk_range 0x1000 0x1500, nr_cores = [''main''],
     nr_memory_ports = [], nr_is_alias = False, nr_access_opt = None\<rparr>"

definition demo_staged :: staged where
  "demo_staged = [(0x1010, [1, 2, 3]), (0x107e, [4, 5, 6, 7])]"

lemma demo_facts: "builder_inv demo_staged"
  "rstart (nr_range demo_region) < rend (nr_range demo_region)"
  "nr_range demo_region = mk_range 0x1000 0x1500"
  by (simp_all add: demo_staged_def builder_inv_def demo_region_def)

theorem layout_page_contents_witness:
  "\<exists>lay. build_layout demo_staged demo_region demo_props False = Some (Ok lay)
    \<and> (\<forall>pg \<in> set (lay_pages lay). length (page_bytes pg) = 0x40)"
  using layout_page_contents [OF demo_facts(1) demo_props_wf demo_facts(2), of False]
  by (auto simp: demo_props_def)

text \<open>A page or region boundary below an address on the page grid of the flash.\<close>

lemma grid_floor:
  assumes "s \<le> base" "n dvd base - s" "s \<le> lo" "n dvd lo - s" "lo \<le> x" "x < base + n"
  shows "(lo :: nat) \<le> base"
proof (rule ccontr)
  assume "\<not> lo \<le> base"
  then have "base < lo" by simp
  then have "0 < (lo - s) - (base - s)"
    using assms by simp
  with dvd_diff_nat [OF assms(4,2)] have "n \<le> (lo - s) - (base - s)" by (rule dvd_imp_le)
  then show False using assms \<open>base < lo\<close> by linarith
qed

lemma grid_ceil:
  assumes "s \<le> base" "n dvd base - s" "s \<le> hi" "n dvd hi - s" "base \<le> x" "x < hi"
  shows "base + n \<le> (hi :: nat)"
proof -
  have "0 < (hi - s) - (base - s)"
    using assms by simp
  with dvd_diff_nat [OF assms(4,2)] have "n \<le> (hi - s) - (base - s)" by (rule dvd_imp_le)
  then show ?thesis using assms by linarith
qed

text \<open>C10. When the region lies inside the flash and its bounds are on the page grid of the flash,
  no staged byte of the region is lost: some page of the layout holds it at its address.\<close>

theorem layout_pages_complete:
  assumes "builder_inv m" "wf_sectors props" "wf_pages props"
    and "rstart (nr_range region) < rend (nr_range region)"
    and "fp_start props \<le> rstart (nr_range region)" "rend (nr_range region) \<le> fp_end props"
    and "fp_page_size props dvd rstart (nr_range region) - fp_start props"
    and "fp_page_size props dvd rend (nr_range region) - fp_start props"
    and "in_range (nr_range region) a" "staged_byte m a = Some b"
  shows "\<exists>lay. build_layout m region props ie = Some (Ok lay)
    \<and> (\<exists>pg \<in> set (lay_pages lay). page_address pg \<le> a
         \<and> a < page_address pg + length (page_bytes pg)
         \<and> page_bytes pg ! (a - page_address pg) = b)"
proof -
  obtain ss qs qb where lay: "build_layout m region props ie = Some (Ok (layout_spec m region props ie ss qs))"
    and qs: "pages_tile (fp_start props) qs qb" "fp_end props \<le> qb"
    and q: "\<forall>q \<in> set qs. pi_size q = fp_page_size props \<and> fp_page_size props dvd pi_base q - fp_start props"
    using build_layout_eq [OF assms(1-4)] by blast
  have a: "rstart (nr_range region) \<le> a" "a < rend (nr_range region)"
    using assms(9) by (simp_all add: in_range_def)
  obtain q0 where q0: "q0 \<in> set qs" "pi_base q0 \<le> a" "a < pi_base q0 + pi_size q0"
    using pages_tile_covers [OF qs(1), of a] a assms(5,6) qs(2) by auto
  then have g: "fp_start props \<le> pi_base q0" "pi_size q0 = fp_page_size props"
    "fp_page_size props dvd pi_base q0 - fp_start props"
    using q pages_tile_bounds [OF qs(1)] by auto
  have "rstart (nr_range region) \<le> pi_base q0"
    using grid_floor [OF g(1,3) assms(5,7)] a q0 g(2) by simp
  moreover have "pi_base q0 + pi_size q0 \<le> rend (nr_range region)"
    using grid_ceil [OF g(1,3) _ assms(8)] a q0 g(2) assms(4,5) by simp
  ultimately have "contains_range (nr_range region) (mk_range (pi_base q0) (pi_base q0 + pi_size q0))"
    using q0 by (subst contains_range_iff) auto
  then have "page_wanted m region props ie q0"
    using q0 assms(10) by (auto simp: page_wanted_def has_staged_def)
  then have "page_image m props q0 \<in> set (lay_pages (layout_spec m region props ie ss qs))"
    using q0(1) by (simp add: layout_spec_def)
  moreover have "page_bytes (page_image m props q0) ! (a - pi_base q0) = b"
    using q0 assms(10) by (simp add: page_image_def less_diff_conv2)
  ultimately show ?thesis
    using lay q0 by (intro exI conjI bexI [of _ "page_image m props q0"]) (auto simp: page_image_def)
qed

theorem layout_pages_complete_witness:
  "\<exists>lay. build_layout demo_staged demo_region demo_props False = Some (Ok lay)
    \<and> (\<exists>pg \<in> set (lay_pages lay). page_address pg \<le> 0x1080
         \<and> page_bytes pg ! (0x1080 - page_address pg) = 6)"
proof -
  have "fp_start demo_props \<le> rstart (nr_range demo_region)"
    "rend (nr_range demo_region) \<le> fp_end demo_props"
    "fp_page_size demo_props dvd rstart (nr_range demo_region) - fp_start demo_props"
    "fp_page_size demo_props dvd rend (nr_range demo_region) - fp_start demo_props"
    "in_range (nr_range demo_region) 0x1080" "staged_byte demo_staged 0x1080 = Some 6"
    by (simp_all add: demo_props_def demo_facts(3) in_range_def demo_staged_def)
  from layout_pages_complete [OF demo_facts(1) demo_props_wf demo_facts(2) this, of False]
  show ?thesis by auto
qed

text \<open>The sectors of the layout are found by asking the flash for the sector of each address; the page
  that the code looks up for a sector is the page-sized block, counted from address zero, with the
  base of the sector in it.\<close>

lemma block_staged:
  assumes "0 < (n :: nat)"
  shows "has_staged m (b - b mod n) (b - b mod n + n) \<longleftrightarrow> (\<exists>y. staged_byte m y \<noteq> None \<and> y div n = b div n)"
proof -
  have "b - b mod n \<le> y \<and> y < b - b mod n + n \<longleftrightarrow> y div n = b div n" for y
  proof
    assume "b - b mod n \<le> y \<and> y < b - b mod n + n"
    then show "y div n = b div n" by (intro div_nat_eqI) (simp_all add: minus_mod_eq_mult_div)
  next
    assume eq: "y div n = b div n"
    have "b - b mod n = y - y mod n" by (simp only: minus_mod_eq_mult_div eq)
    then show "b - b mod n \<le> y \<and> y < b - b mod n + n"
      using mod_less_divisor [OF assms, of y] mod_less_eq_dividend [of y n] by linarith
  qed
  then show ?thesis unfolding has_staged_def by blast
qed

lemma sector_wanted_iff:
  assumes "0 < fp_page_size props" "0 < si_size s"
  shows "sector_wanted m region props s \<longleftrightarrow>
     rstart (nr_range region) \<le> si_base s \<and> si_base s + si_size s \<le> rend (nr_range region)
     \<and> (\<exists>y. staged_byte m y \<noteq> None \<and> (si_base s \<le> y \<and> y < si_base s + si_size s
            \<or> y div fp_page_size props = si_base s div fp_page_size props))"
proof -
  have "contains_range (nr_range region) (mk_range (si_base s) (si_base s + si_size s))
      \<longleftrightarrow> rstart (nr_range region) \<le> si_base s \<and> si_base s + si_size s \<le> rend (nr_range region)"
    using assms(2) by (subst contains_range_iff) auto
  then show ?thesis
    unfolding sector_wanted_def Let_def block_staged [OF assms(1)] unfolding has_staged_def by blast
qed

lemma spec_sectors:
  assumes "wf_pages props" "sectors_tile (fp_start props) ss sb" "fp_end props \<le> sb"
    and "\<forall>s \<in> set ss. si_base s < fp_end props \<and> (\<forall>x. si_base s \<le> x \<longrightarrow> x < si_base s + si_size s
           \<longrightarrow> x < fp_end props \<longrightarrow> sector_info_at props x = Ok (Some s))"
  shows "\<lparr>sector_address = b, sector_size = n\<rparr> \<in> set (lay_sectors (layout_spec m region props ie ss qs)) \<longleftrightarrow>
     (\<exists>x. sector_info_at props x = Ok (Some \<lparr>si_base = b, si_size = n\<rparr>))
     \<and> rstart (nr_range region) \<le> b \<and> b + n \<le> rend (nr_range region)
     \<and> (\<exists>y. staged_byte m y \<noteq> None \<and> (b \<le> y \<and> y < b + n \<or> y div fp_page_size props = b div fp_page_size props))"
proof -
  let ?s = "\<lparr>si_base = b, si_size = n\<rparr>"
  have found: "?s \<in> set ss" if "sector_info_at props x = Ok (Some ?s)" for x
  proof -
    have "in_range (fp_address_range props) x" using that by (auto simp: sector_info_at_def split: if_splits)
    then show ?thesis using sectors_tile_covers [OF assms(2), of x] assms(3,4) that by (force simp: in_range_def)
  qed
  have "?s \<in> set ss \<Longrightarrow> 0 < n \<and> sector_info_at props b = Ok (Some ?s)"
    using sectors_tile_pos [OF assms(2), of ?s] assms(4) by fastforce
  then have mem: "?s \<in> set ss \<longleftrightarrow> (\<exists>x. sector_info_at props x = Ok (Some ?s))" "?s \<in> set ss \<Longrightarrow> 0 < n"
    using found by blast+
  have page: "0 < fp_page_size props" using assms(1) by (simp add: wf_pages_def)
  have same: "\<lparr>sector_address = b, sector_size = n\<rparr> = \<lparr>sector_address = si_base s, sector_size = si_size s\<rparr> \<longleftrightarrow> s = ?s"
    for s :: sector_info by (cases s) auto
  have wanted: "\<lparr>sector_address = b, sector_size = n\<rparr> \<in> set (lay_sectors (layout_spec m region props ie ss qs))
      \<longleftrightarrow> ?s \<in> set ss \<and> sector_wanted m region props ?s"
    using same by (auto simp: layout_spec_def image_iff)
  show ?thesis
  proof (cases "?s \<in> set ss")
    case True
    with mem(2) have "0 < si_size ?s" by simp
    from sector_wanted_iff [OF page this] mem(1) True show ?thesis unfolding wanted by simp
  qed (use wanted mem(1) in simp)
qed

text \<open>C23. The sectors that are erased are exactly these: the sectors of the flash that lie in the region
  and have staged data in them or in the page-sized block, counted from address zero, of their base. So
  the sector of each staged byte is erased, when it lies in the region, and, on a flash that starts on the
  page grid, so is each sector in the region that contains a page with staged data or starts in one. But a
  sector that starts before such a page, ends in it and has no data in it or in the block of its base is
  not erased, though a part of it is programmed: \<open>programmed_sector_not_erased\<close> is such a case.\<close>

theorem layout_erases_programmed:
  assumes "builder_inv m" "wf_sectors props" "wf_pages props"
    and "rstart (nr_range region) < rend (nr_range region)"
  shows "\<exists>lay. build_layout m region props ie = Some (Ok lay)
    \<and> (\<forall>b n. \<lparr>sector_address = b, sector_size = n\<rparr> \<in> set (lay_sectors lay) \<longleftrightarrow>
         (\<exists>x. sector_info_at props x = Ok (Some \<lparr>si_base = b, si_size = n\<rparr>))
         \<and> rstart (nr_range region) \<le> b \<and> b + n \<le> rend (nr_range region)
         \<and> (\<exists>y. staged_byte m y \<noteq> None
              \<and> (b \<le> y \<and> y < b + n \<or> y div fp_page_size props = b div fp_page_size props)))
    \<and> (\<forall>pg \<in> set (lay_pages lay). \<forall>x b n.
         fp_page_size props dvd fp_start props
         \<and> has_staged m (page_address pg) (page_address pg + fp_page_size props)
         \<and> sector_info_at props x = Ok (Some \<lparr>si_base = b, si_size = n\<rparr>)
         \<and> rstart (nr_range region) \<le> b \<and> b + n \<le> rend (nr_range region)
         \<and> (b \<le> page_address pg \<and> page_address pg + fp_page_size props \<le> b + n
            \<or> page_address pg \<le> b \<and> b < page_address pg + fp_page_size props)
         \<longrightarrow> \<lparr>sector_address = b, sector_size = n\<rparr> \<in> set (lay_sectors lay))"
proof -
  obtain ss sb qs qb where lay: "build_layout m region props ie = Some (Ok (layout_spec m region props ie ss qs))"
    and ss: "sectors_tile (fp_start props) ss sb" "fp_end props \<le> sb"
      "\<forall>s \<in> set ss. si_base s < fp_end props \<and> (\<forall>x. si_base s \<le> x \<longrightarrow> x < si_base s + si_size s
           \<longrightarrow> x < fp_end props \<longrightarrow> sector_info_at props x = Ok (Some s))"
    and qs: "pages_tile (fp_start props) qs qb"
    and q: "\<forall>q \<in> set qs. pi_size q = fp_page_size props \<and> fp_page_size props dvd pi_base q - fp_start props"
    using build_layout_eq [OF assms] by blast
  let ?n = "fp_page_size props" and ?lay = "layout_spec m region props ie ss qs"
  note exact = spec_sectors [OF assms(3) ss, of _ _ m region ie qs]
  have pages: "\<lparr>sector_address = b, sector_size = n\<rparr> \<in> set (lay_sectors ?lay)"
    if pg: "pg \<in> set (lay_pages ?lay)" and grid: "?n dvd fp_start props"
      and data: "has_staged m (page_address pg) (page_address pg + ?n)"
      and sec: "sector_info_at props x = Ok (Some \<lparr>si_base = b, si_size = n\<rparr>)"
        "rstart (nr_range region) \<le> b" "b + n \<le> rend (nr_range region)"
      and nest: "b \<le> page_address pg \<and> page_address pg + ?n \<le> b + n
         \<or> page_address pg \<le> b \<and> b < page_address pg + ?n" for pg x b n
  proof -
    obtain y where y: "staged_byte m y \<noteq> None" "page_address pg \<le> y" "y < page_address pg + ?n"
      using data by (auto simp: has_staged_def)
    obtain q0 where q0: "q0 \<in> set qs" "page_address pg = pi_base q0"
      using pg by (auto simp: layout_spec_def page_image_def)
    then have "?n dvd page_address pg"
      using q grid pages_tile_bounds [OF qs] by (metis dvd_add le_add_diff_inverse2)
    then obtain k where k: "page_address pg = ?n * k" by (rule dvdE)
    have block: "z div ?n = k" if "page_address pg \<le> z" "z < page_address pg + ?n" for z
      using that unfolding k by (intro div_nat_eqI) (simp_all add: algebra_simps)
    have "b \<le> y \<and> y < b + n \<or> y div ?n = b div ?n"
      using nest y(2,3) block by auto
    then show ?thesis unfolding exact using y(1) sec by blast
  qed
  show ?thesis by (intro exI [of _ ?lay] conjI lay) (use exact pages in blast)+
qed

theorem layout_erases_programmed_witness:
  "\<exists>lay. build_layout demo_staged demo_region demo_props False = Some (Ok lay)
    \<and> \<lparr>sector_address = 0x1000, sector_size = 0x100\<rparr> \<in> set (lay_sectors lay)
    \<and> \<lparr>sector_address = 0x1100, sector_size = 0x100\<rparr> \<notin> set (lay_sectors lay)"
proof -
  have at: "sector_info_at demo_props 0x1010 = Ok (Some \<lparr>si_base = 0x1000, si_size = 0x100\<rparr>)"
    by (simp add: sector_info_at_def demo_props_def in_range_def sub_r_eq div_r_def add_w_def mul_w_def)
  have staged: "staged_byte demo_staged 0x1010 \<noteq> None" by code_simp
  have "y < 0x1100 \<and> y div 0x40 < 0x44" if "staged_byte demo_staged y \<noteq> None" for y
    using that by (auto simp: demo_staged_def less_mult_imp_div_less split: if_splits)
  then have empty: "\<not> (\<exists>y. staged_byte demo_staged y \<noteq> None \<and> (0x1100 \<le> y \<and> y < 0x1100 + 0x100
      \<or> y div fp_page_size demo_props = 0x1100 div fp_page_size demo_props))"
    by (fastforce simp: demo_props_def)
  obtain lay where lay: "build_layout demo_staged demo_region demo_props False = Some (Ok lay)"
    and sectors: "\<And>b n. \<lparr>sector_address = b, sector_size = n\<rparr> \<in> set (lay_sectors lay) \<longleftrightarrow>
         (\<exists>x. sector_info_at demo_props x = Ok (Some \<lparr>si_base = b, si_size = n\<rparr>))
         \<and> rstart (nr_range demo_region) \<le> b \<and> b + n \<le> rend (nr_range demo_region)
         \<and> (\<exists>y. staged_byte demo_staged y \<noteq> None
              \<and> (b \<le> y \<and> y < b + n \<or> y div fp_page_size demo_props = b div fp_page_size demo_props))"
    using layout_erases_programmed [OF demo_facts(1) demo_props_wf demo_facts(2), of False] by blast
  have "\<lparr>sector_address = 0x1000, sector_size = 0x100\<rparr> \<in> set (lay_sectors lay)"
    unfolding sectors using at staged by (intro conjI exI [of _ "0x1010"] exI [of _ "0x1010"]) (simp_all add: demo_facts(3))
  moreover have "\<lparr>sector_address = 0x1100, sector_size = 0x100\<rparr> \<notin> set (lay_sectors lay)"
    unfolding sectors using empty by blast
  ultimately show ?thesis using lay by blast
qed

text \<open>Where sectors and pages do not nest, a page is programmed over a sector that is not erased: here
  the page at 0x80 reaches back into the sector at 0x60, whose own base lies in the empty page before.\<close>

definition straddling_props :: flash_properties where
  "straddling_props = demo_props\<lparr>fp_address_range := mk_range 0 0x180, fp_page_size := 0x80, fp_sectors := [\<lparr>sd_size = 0x60, sd_address = 0\<rparr>]\<rparr>"

definition straddling_region :: nvm_region where
  "straddling_region = demo_region\<lparr>nr_range := mk_range 0 0x180\<rparr>"

lemma programmed_sector_not_erased:
  "\<exists>lay. build_layout [(0xd0, [1])] straddling_region straddling_props False = Some (Ok lay)
    \<and> (\<exists>pg \<in> set (lay_pages lay). page_address pg = 0x80 \<and> length (page_bytes pg) = 0x80)
    \<and> sector_info_at straddling_props 0x80 = Ok (Some \<lparr>si_base = 0x60, si_size = 0x60\<rparr>)
    \<and> \<lparr>sector_address = 0x60, sector_size = 0x60\<rparr> \<notin> set (lay_sectors lay)"
proof -
  let ?m = "[(0xd0, [1])] :: staged" and ?p = straddling_props and ?r = straddling_region
  have wf: "builder_inv ?m" "wf_sectors ?p" "wf_pages ?p" "rstart (nr_range ?r) < rend (nr_range ?r)"
    by (simp_all add: straddling_props_def straddling_region_def demo_props_def builder_inv_def wf_sectors_def
        wf_pages_def aligned_groups_def)
  have props: "fp_page_size ?p = 0x80" "fp_start ?p = 0" "fp_end ?p = 0x180" "nr_range ?r = mk_range 0 0x180"
    by (simp_all add: straddling_props_def straddling_region_def demo_props_def)
  obtain ss sb qs qb where lay: "build_layout ?m ?r ?p False = Some (Ok (layout_spec ?m ?r ?p False ss qs))"
    and ss: "sectors_tile (fp_start ?p) ss sb" "fp_end ?p \<le> sb"
      "\<forall>s \<in> set ss. si_base s < fp_end ?p \<and> (\<forall>x. si_base s \<le> x \<longrightarrow> x < si_base s + si_size s
           \<longrightarrow> x < fp_end ?p \<longrightarrow> sector_info_at ?p x = Ok (Some s))"
    and qs: "pages_tile (fp_start ?p) qs qb" "fp_end ?p \<le> qb"
    and q: "\<forall>q \<in> set qs. pi_size q = fp_page_size ?p \<and> fp_page_size ?p dvd pi_base q - fp_start ?p"
    using build_layout_eq [OF wf] by blast
  have staged: "staged_byte ?m y \<noteq> None \<longleftrightarrow> y = 0xd0" for y by auto
  obtain q0 where q0: "q0 \<in> set qs" "pi_base q0 \<le> 0xd0" "0xd0 < pi_base q0 + pi_size q0"
    using pages_tile_covers [OF qs(1), of "0xd0"] qs(2) by (auto simp: props)
  then have "pi_base q0 = 0x80" "pi_size q0 = 0x80" using q by (auto simp: props dvd_def)
  then have "page_wanted ?m ?r ?p False q0"
    unfolding page_wanted_def has_staged_def staged by (subst contains_range_iff) (auto simp: props)
  then have "page_image ?m ?p q0 \<in> set (lay_pages (layout_spec ?m ?r ?p False ss qs))"
    using q0(1) by (simp add: layout_spec_def)
  moreover have "\<lparr>sector_address = 0x60, sector_size = 0x60\<rparr> \<notin> set (lay_sectors (layout_spec ?m ?r ?p False ss qs))"
    unfolding spec_sectors [OF wf(3) ss] staged by (auto simp: props)
  moreover have "sector_info_at ?p 0x80 = Ok (Some \<lparr>si_base = 0x60, si_size = 0x60\<rparr>)"
    by (simp add: sector_info_at_def straddling_props_def demo_props_def in_range_def sub_r_eq div_r_def add_w_def mul_w_def)
  ultimately show ?thesis using lay \<open>pi_base q0 = 0x80\<close> \<open>pi_size q0 = 0x80\<close>
    by (intro exI conjI bexI [of _ "page_image ?m ?p q0"]) (simp_all add: page_image_def)
qed

text \<open>C24. The fills are the exact complement of the image data: on each page, the fills with
  the index of that page are ascending and disjoint, lie in the page, and cover just the
  addresses with no staged byte; what \<open>page_data_without_fills\<close> returns for the page is the
  staged data of the page and nothing else.\<close>

theorem layout_fills_complement:
  assumes "builder_inv m" "wf_sectors props" "wf_pages props"
    and "rstart (nr_range region) < rend (nr_range region)"
  shows "\<exists>lay. build_layout m region props ie = Some (Ok lay)
    \<and> (\<forall>i < length (lay_pages lay).
         let lo = page_address (lay_pages lay ! i);
             hi = lo + fp_page_size props;
             fills = filter (\<lambda>f. fill_page_index f = i) (lay_fills lay)
         in fills_ok i lo fills hi
          \<and> (\<forall>a. filled fills a \<longleftrightarrow> lo \<le> a \<and> a < hi \<and> staged_byte m a = None)
          \<and> (\<exists>pieces. page_data_without_fills lay i = Ok pieces \<and> chunks_ok lo pieces
               \<and> (\<forall>a. staged_byte pieces a = (if lo \<le> a \<and> a < hi then staged_byte m a else None))))"
proof -
  obtain ss qs qb where lay: "build_layout m region props ie = Some (Ok (layout_spec m region props ie ss qs))"
    and qs: "pages_tile (fp_start props) qs qb"
    and q: "\<forall>q \<in> set qs. pi_size q = fp_page_size props \<and> pi_base q < fp_end props"
    using build_layout_eq [OF assms] by blast
  define ws where "ws = filter (page_wanted m region props ie) qs"
  define lay where "lay = layout_spec m region props ie ss qs"
  have l: "lay_pages lay = map (page_image m props) ws" "lay_fills lay = fills_from m 0 ws"
    by (simp_all add: lay_def layout_spec_def ws_def)
  have w: "\<forall>q \<in> set ws. 0 < pi_size q \<and> pi_base q + pi_size q < 2 ^ 64 \<and> pi_size q = fp_page_size props"
    using q assms(3) by (auto simp: ws_def wf_pages_def)
  have "let lo = page_address (lay_pages lay ! i);
             hi = lo + fp_page_size props;
             fills = filter (\<lambda>f. fill_page_index f = i) (lay_fills lay)
         in fills_ok i lo fills hi
          \<and> (\<forall>a. filled fills a \<longleftrightarrow> lo \<le> a \<and> a < hi \<and> staged_byte m a = None)
          \<and> (\<exists>pieces. page_data_without_fills lay i = Ok pieces \<and> chunks_ok lo pieces
               \<and> (\<forall>a. staged_byte pieces a = (if lo \<le> a \<and> a < hi then staged_byte m a else None)))"
    if i: "i < length (lay_pages lay)" for i
  proof -
    have iw: "i < length ws" using i l(1) by simp
    then have i': "i < length ws" "0 < pi_size (ws ! i)" "pi_size (ws ! i) = fp_page_size props"
      using w nth_mem [OF iw] by blast+
    have pos: "\<forall>q \<in> set ws. 0 < pi_size q" using w by blast
    have fills: "filter (\<lambda>f. fill_page_index f = i) (lay_fills lay) = page_fills m i (ws ! i)"
      using fills_from_index [OF assms(1) pos, of i 0] i' l(2) by simp
    have lo: "page_address (lay_pages lay ! i) = pi_base (ws ! i)"
      using i' l(1) by (simp add: page_image_def)
    have "\<forall>q \<in> set ws. 0 < pi_size q \<and> pi_base q + pi_size q < 2 ^ 64" using w by blast
    then show ?thesis
      using page_data_without_fills_eq [OF assms(1) _ l i'(1)] page_fills_ok [OF assms(1) i'(2), of i]
        i'(3)
      unfolding fills lo Let_def by simp
  qed
  then show ?thesis using lay unfolding lay_def by blast
qed

theorem layout_fills_complement_witness:
  "builder_inv demo_staged \<and> wf_sectors demo_props \<and>
   (\<exists>lay. build_layout demo_staged demo_region demo_props False = Some (Ok lay))"
  using layout_fills_complement [OF demo_facts(1) demo_props_wf demo_facts(2), of False]
    demo_facts(1) demo_props_wf by blast

end
