(* ===== verification/Probe_Batch.thy ===== *)
theory Probe_Batch
  imports Prelude "HOL-Library.AList"
begin

text \<open>
  Bit sequences and operation batches shared by the JTAG and SWD drivers: \<open>BitSequence\<close>
  (probe-rs/src/probe/bits.rs), the batch with its cursor, the handles and the result set
  (probe-rs/src/probe/queue.rs).

  A bit sequence is the list of its bits in send order. A \<open>HandleId\<close> is an \<open>Arc\<close>, so its
  identity is an address, here a number. Whether the caller still holds the handle is a
  reference count of the running program, so it is an argument \<open>held\<close> of what asks for it.
\<close>

subsection \<open>Errors of a probe\<close>

datatype debug_probe_error =
    ProbeUsb
  | ProbeSpecific nat
  | TargetNotFound
  | ProbeTimeout
  | OtherExchangeState nat
  | OtherCaptured nat nat
  | OtherInstructionRegister nat
  | OtherMissingCapture
  | OtherInvalidIdCode
  | OtherInvalidIR
  | OtherSpecific nat

subsection \<open>Bit sequences\<close>

type_synonym bits = "bool list"

definition bits_of_byte :: "u8 \<Rightarrow> bits" where
  "bits_of_byte b = map (bit b) [0..<8]"

text \<open>The two nested loops push bits until \<open>len\<close> are there.\<close>

definition bits_from_bytes :: "u8 list \<Rightarrow> nat \<Rightarrow> bits" where
  "bits_from_bytes bytes len = take len (concat (map bits_of_byte bytes))"

definition bits_from_u64 :: "nat \<Rightarrow> 64 word \<Rightarrow> ('e, bits) res" where
  "bits_from_u64 len w = (if len \<le> 64 then Ok (bits_from_bytes (to_le 8 w) len) else Panic)"

definition bits_repeat :: "bool \<Rightarrow> nat \<Rightarrow> bits" where
  "bits_repeat b len = replicate len b"

definition bits_push :: "bits \<Rightarrow> bool \<Rightarrow> bits" where
  "bits_push self b = self @ [b]"

definition bits_extend :: "bits \<Rightarrow> bits \<Rightarrow> bits" where
  "bits_extend self other = self @ other"

definition bits_slice :: "bits \<Rightarrow> nat \<Rightarrow> nat \<Rightarrow> ('e, bits) res" where
  "bits_slice self start len = rbind (add64 start len) (slice_r self start)"

definition bits_to_byte :: "bits \<Rightarrow> u32" where
  "bits_to_byte bs = fold (\<lambda>(i, b) v. if b then v OR push_bit i 1 else v) (enumerate 0 (take 32 bs)) 0"

text \<open>
  \<open>captured_bits_to_bytes\<close>: the loop keeps a partial byte and the number of bits in it.
\<close>

fun pack_bits :: "bits \<Rightarrow> u8 \<Rightarrow> nat \<Rightarrow> u8 list" where
  "pack_bits [] byte n = (if n \<noteq> 0 then [byte] else [])"
| "pack_bits (b # bs) byte n =
     (let byte' = (if b then byte OR push_bit n 1 else byte)
      in if n + 1 = 8 then byte' # pack_bits bs 0 0 else pack_bits bs byte' (n + 1))"

definition captured_bits_to_bytes :: "bits \<Rightarrow> u8 list" where
  "captured_bits_to_bytes bs = pack_bits bs 0 0"

lemma length_bits_of_byte [simp]: "length (bits_of_byte b) = 8"
  by (simp add: bits_of_byte_def)

lemma length_concat_bytes [simp]: "length (concat (map bits_of_byte bytes)) = 8 * length bytes"
  by (induction bytes) simp_all

lemma length_bits_from_bytes [simp]: "length (bits_from_bytes bytes len) = min (8 * length bytes) len"
  by (simp add: bits_from_bytes_def)

lemma nth_concat_bytes:
  "i < 8 * length bytes \<Longrightarrow> concat (map bits_of_byte bytes) ! i = bit (bytes ! (i div 8)) (i mod 8)"
proof (induction bytes arbitrary: i)
  case Nil
  then show ?case by simp
next
  case (Cons b bytes)
  show ?case
  proof (cases "i < 8")
    case True
    then show ?thesis by (simp add: nth_append bits_of_byte_def)
  next
    case False
    then obtain j where j: "i = j + 8"
      by (metis add.commute le_Suc_ex not_less)
    moreover have "(j + 8) div 8 = Suc (j div 8)" by simp
    ultimately show ?thesis
      using Cons by (simp add: nth_append)
  qed
qed

text \<open>Bits of a number in send order: bit \<open>i\<close> of the number is bit \<open>i\<close> of the sequence.\<close>

lemma bits_from_u64_nth:
  assumes "len \<le> 64"
  shows "bits_from_u64 len w = Ok (map (bit w) [0..<len])"
proof -
  have "bits_from_bytes (to_le 8 w) len = map (bit w) [0..<len]"
  proof (rule nth_equalityI)
    show "length (bits_from_bytes (to_le 8 w) len) = length (map (bit w) [0..<len])"
      using assms by simp
  next
    fix i
    assume "i < length (bits_from_bytes (to_le 8 w) len)"
    then have i: "i < len" by simp
    then have "bits_from_bytes (to_le 8 w) len ! i = bit (to_le 8 w ! (i div 8)) (i mod 8)"
      using assms nth_concat_bytes [of i "to_le 8 w"] by (simp add: bits_from_bytes_def)
    also have "\<dots> = bit w i"
      using i assms by (auto simp: to_le_def bit_simps)
    finally show "bits_from_bytes (to_le 8 w) len ! i = map (bit w) [0..<len] ! i"
      using i by simp
  qed
  then show ?thesis using assms by (simp add: bits_from_u64_def)
qed

lemma bit_or_push: "bit (byte OR push_bit n 1 :: u8) k \<longleftrightarrow> bit byte k \<or> (k = n \<and> n < 8)"
  by (auto simp: bit_simps dest: bit_imp_le_length)

lemma pack_bits_unpack:
  assumes "n < 8" "\<forall>k \<ge> n. \<not> bit byte k"
  shows "take (n + length bs) (concat (map bits_of_byte (pack_bits bs byte n)))
    = map (bit byte) [0..<n] @ bs"
  using assms
proof (induction bs byte n rule: pack_bits.induct)
  case (1 byte n)
  have "take n (map (bit byte) [0..<8]) = map (bit byte) [0..<n]"
    using 1(1) by (simp add: take_map)
  then show ?case by (simp add: bits_of_byte_def)
next
  case (2 b bs byte n)
  define byte' where "byte' = (if b then byte OR push_bit n 1 else byte)"
  have b': "bit byte' k \<longleftrightarrow> bit byte k \<or> k = n \<and> b" for k
    using bit_or_push [of byte n k] 2(3) unfolding byte'_def by (cases b) (simp_all only: if_True if_False, auto)
  have low: "map (bit byte') [0..<n] = map (bit byte) [0..<n]" "bit byte' n = b"
    using 2(4) by (auto simp: b')
  show ?case
  proof (cases "n + 1 = 8")
    case True
    have "take (0 + length bs) (concat (map bits_of_byte (pack_bits bs 0 0))) = bs"
      using 2(1) [OF refl True [folded]] True by (simp add: byte'_def)
    moreover have "bits_of_byte byte' = map (bit byte') [0..<n] @ [bit byte' n]"
      using True by (simp add: bits_of_byte_def upt_rec [of 0 8] numeral_eq_Suc upt_Suc_append)
    moreover have "pack_bits (b # bs) byte n = byte' # pack_bits bs 0 0"
      using True by (simp add: byte'_def)
    ultimately show ?thesis
      using True low by (simp del: pack_bits.simps)
  next
    case False
    have "take (n + 1 + length bs) (concat (map bits_of_byte (pack_bits bs byte' (n + 1))))
        = map (bit byte') [0..<n + 1] @ bs"
      using 2(2) [OF byte'_def False] 2(3,4) False by (auto simp: b')
    then show ?thesis
      using False low by (simp add: byte'_def [symmetric] Let_def)
  qed
qed

lemma captured_bits_round_trip: "bits_from_bytes (captured_bits_to_bytes bs) (length bs) = bs"
  using pack_bits_unpack [of 0 0 bs] by (simp add: bits_from_bytes_def captured_bits_to_bytes_def)

subsection \<open>Results\<close>

datatype command_result =
    CrNone
  | CrU8 u8
  | CrU16 "16 word"
  | CrU32 u32
  | CrVecU8 "u8 list"

fun into_u32 :: "command_result \<Rightarrow> ('e, u32) res" where
  "into_u32 (CrU32 v) = Ok v"
| "into_u32 _ = Panic"

fun into_u8 :: "command_result \<Rightarrow> ('e, u8) res" where
  "into_u8 (CrU8 v) = Ok v"
| "into_u8 _ = Panic"

type_synonym handle_id = nat

text \<open>The hash map of results as an association list; the order of a hash map is not observable.\<close>

type_synonym results = "(handle_id \<times> command_result) list"

definition results_new :: results where
  "results_new = []"

definition results_push :: "results \<Rightarrow> handle_id \<Rightarrow> command_result \<Rightarrow> results" where
  "results_push self k r = AList.update k r self"

definition results_len :: "results \<Rightarrow> nat" where
  "results_len self = length self"

definition results_merge_from :: "(handle_id \<Rightarrow> bool) \<Rightarrow> results \<Rightarrow> results \<Rightarrow> results" where
  "results_merge_from held self other =
     filter (\<lambda>(k, _). held k) (fold (\<lambda>(k, r) acc. results_push acc k r) other self)"

text \<open>A handle is its identity and the conversion of the raw result.\<close>

type_synonym ('e, 'a) handle = "handle_id \<times> (command_result \<Rightarrow> ('e, 'a) res)"

definition handle_from_id :: "handle_id \<Rightarrow> ('e, command_result) handle" where
  "handle_from_id k = (k, Ok)"

definition handle_map :: "('e, 'a) handle \<Rightarrow> ('a \<Rightarrow> ('e, 'b) res) \<Rightarrow> ('e, 'b) handle" where
  "handle_map h f = (fst h, \<lambda>r. rbind (snd h r) f)"

text \<open>\<open>take\<close> returns the value, or gives the handle back when there is no result for it.\<close>

definition results_take :: "results \<Rightarrow> ('e, 'a) handle \<Rightarrow> ('e, 'a option) res \<times> results" where
  "results_take self h =
     (case map_of self (fst h) of
        Some r \<Rightarrow> (rmap Some (snd h r), AList.delete (fst h) self)
      | None \<Rightarrow> (Ok None, self))"

subsection \<open>Batches\<close>

record 'op batch =
  commands :: "(handle_id \<times> 'op) list"
  cursor :: nat

definition batch_new :: "'op batch" where
  "batch_new = \<lparr>commands = [], cursor = 0\<rparr>"

text \<open>\<open>fresh\<close> is the address of the new \<open>Arc\<close>.\<close>

definition batch_schedule :: "handle_id \<Rightarrow> 'op \<Rightarrow> 'op batch \<Rightarrow> handle_id \<times> 'op batch" where
  "batch_schedule fresh cmd self = (fresh, self\<lparr>commands := commands self @ [(fresh, cmd)]\<rparr>)"

definition schedule_preserved :: "handle_id \<Rightarrow> 'op \<Rightarrow> 'op batch \<Rightarrow> handle_id \<times> 'op batch" where
  "schedule_preserved k cmd self = (k, self\<lparr>commands := commands self @ [(k, cmd)]\<rparr>)"

definition remaining_with_ids :: "'op batch \<Rightarrow> ('e, (handle_id \<times> 'op) list) res" where
  "remaining_with_ids self = slice_r (commands self) (cursor self) (length (commands self))"

definition replace_remaining :: "'op batch \<Rightarrow> (handle_id \<times> 'op) list \<Rightarrow> 'op batch" where
  "replace_remaining self ops = self\<lparr>commands := take (cursor self) (commands self) @ ops\<rparr>"

definition batch_len :: "'op batch \<Rightarrow> ('e, nat) res" where
  "batch_len self = rmap length (remaining_with_ids self)"

definition batch_is_empty :: "'op batch \<Rightarrow> ('e, bool) res" where
  "batch_is_empty self = rmap (\<lambda>n. n = 0) (batch_len self)"

definition batch_iter :: "'op batch \<Rightarrow> ('e, (handle_id \<times> 'op) list) res" where
  "batch_iter self = remaining_with_ids self"

definition rewind :: "'op batch \<Rightarrow> nat \<Rightarrow> bool \<times> 'op batch" where
  "rewind self by_n =
     (if by_n \<le> cursor self then (True, self\<lparr>cursor := cursor self - by_n\<rparr>) else (False, self))"

definition consume :: "'op batch \<Rightarrow> nat \<Rightarrow> ('e, 'op batch) res" where
  "consume self n =
     rbind (batch_len self) (\<lambda>l. rbind (rassert (n \<le> l)) (\<lambda>_. Ok (self\<lparr>cursor := cursor self + n\<rparr>)))"

text \<open>What every operation keeps: the cursor stays within the commands.\<close>

definition batch_ok :: "'op batch \<Rightarrow> bool" where
  "batch_ok b \<longleftrightarrow> cursor b \<le> length (commands b)"

definition batch_ops :: "'op batch \<Rightarrow> (handle_id \<times> 'op) list" where
  "batch_ops b = drop (cursor b) (commands b)"

lemma batch_ok_iter: "batch_ok b \<Longrightarrow> batch_iter b = Ok (drop (cursor b) (commands b))"
  by (simp add: batch_iter_def remaining_with_ids_def batch_ok_def res_simps)

lemma batch_ok_ops:
  "batch_ok batch_new"
  "batch_ok b \<Longrightarrow> batch_ok (snd (batch_schedule k c b))"
  "batch_ok b \<Longrightarrow> batch_ok (replace_remaining b ops)"
  "batch_ok b \<Longrightarrow> batch_ok (snd (rewind b n))"
  "batch_ok b \<Longrightarrow> consume b n = Ok b' \<Longrightarrow> batch_ok b'"
  by (auto simp: batch_ok_def batch_new_def batch_schedule_def replace_remaining_def rewind_def
      consume_def batch_len_def remaining_with_ids_def)

text \<open>
  An error of a batch: the cause, the results before it and the index it reports. A boxed error
  that a command's own conversion returned is a number.
\<close>

datatype batch_error = BeSpecific nat | BeProbe debug_probe_error

record batch_execution_error =
  be_error :: batch_error
  be_results :: results
  be_fault_operation :: nat

type_synonym 'a batch_res = "(batch_execution_error, 'a) res"

definition new_from_debug_probe_at ::
  "debug_probe_error \<Rightarrow> results \<Rightarrow> nat \<Rightarrow> batch_execution_error" where
  "new_from_debug_probe_at e rs i = \<lparr>be_error = BeProbe e, be_results = rs, be_fault_operation = i\<rparr>"

definition new_from_debug_probe :: "debug_probe_error \<Rightarrow> results \<Rightarrow> batch_execution_error" where
  "new_from_debug_probe e rs = new_from_debug_probe_at e rs (results_len rs)"

subsection \<open>Properties\<close>

text \<open>Retrying a batch is exact: after \<open>k\<close> commands are consumed, the commands left are those
  after the first \<open>k\<close>, in order; rewinding by at most \<open>k\<close> brings back exactly the last ones,
  and rewinding further than was consumed is refused and changes nothing.\<close>

theorem batch_consume_rewind:
  assumes "batch_ok b" "batch_iter b = (Ok ops :: ('e, (handle_id \<times> 'op) list) res)" "k \<le> length ops"
  shows "\<exists>b'. consume b k = (Ok b' :: ('e, 'op batch) res) \<and> batch_ok b'
    \<and> batch_iter b' = (Ok (drop k ops) :: ('e, (handle_id \<times> 'op) list) res)
    \<and> (\<forall>j \<le> k. fst (rewind b' j)
         \<and> batch_iter (snd (rewind b' j)) = (Ok (drop (k - j) ops) :: ('e, (handle_id \<times> 'op) list) res))
    \<and> (\<forall>j > k + cursor b. rewind b' j = (False, b'))"
proof -
  have ops: "ops = drop (cursor b) (commands b)"
    using assms(1,2) by (simp add: batch_ok_iter)
  define b' where "b' = b\<lparr>cursor := cursor b + k\<rparr>"
  have k: "cursor b + k \<le> length (commands b)"
    using assms(1,3) by (simp add: ops batch_ok_def)
  have "consume b k = (Ok b' :: ('e, 'op batch) res)"
    using assms(3) k by (simp add: consume_def batch_len_def remaining_with_ids_def res_simps b'_def ops)
  moreover have "batch_ok b'" using k by (simp add: b'_def batch_ok_def)
  moreover have "batch_iter b' = (Ok (drop k ops) :: ('e, (handle_id \<times> 'op) list) res)"
    using batch_ok_iter [OF calculation(2)] by (simp add: b'_def ops add.commute)
  moreover have "fst (rewind b' j)
      \<and> batch_iter (snd (rewind b' j)) = (Ok (drop (k - j) ops) :: ('e, (handle_id \<times> 'op) list) res)"
    if "j \<le> k" for j
  proof -
    have "snd (rewind b' j) = b\<lparr>cursor := cursor b + k - j\<rparr>" "fst (rewind b' j)"
      using that by (auto simp: rewind_def b'_def)
    moreover have "batch_ok (b\<lparr>cursor := cursor b + k - j\<rparr>)"
      using k by (simp add: batch_ok_def)
    moreover have "cursor b + k - j = (k - j) + cursor b" using that by simp
    ultimately show ?thesis
      using batch_ok_iter [of "b\<lparr>cursor := cursor b + k - j\<rparr>"] by (simp add: ops)
  qed
  moreover have "rewind b' j = (False, b')" if "j > k + cursor b" for j
    using that by (simp add: rewind_def b'_def)
  ultimately show ?thesis by blast
qed

theorem batch_consume_rewind_witness:
  "\<exists>b'. consume \<lparr>commands = [(1, ''a''), (2, ''b''), (3, ''c'')], cursor = 0\<rparr> 2
      = (Ok b' :: (nat, string batch) res)
    \<and> batch_iter b' = (Ok [(3, ''c'')] :: (nat, (handle_id \<times> string) list) res)"
proof -
  let ?b = "\<lparr>commands = [(1, ''a''), (2, ''b''), (3, ''c'')], cursor = 0\<rparr> :: string batch"
  have "batch_ok ?b" "batch_iter ?b = (Ok [(1, ''a''), (2, ''b''), (3, ''c'')] :: (nat, _) res)"
    "2 \<le> length [(1 :: nat, ''a''), (2, ''b''), (3, ''c'')]"
    by (simp_all add: batch_ok_def batch_iter_def remaining_with_ids_def res_simps)
  from batch_consume_rewind [OF this] show ?thesis by auto
qed

text \<open>What a probe captures is what the caller gets: packing the captured bits into bytes and
  reading the same number of bits back from those bytes returns the captured bits.\<close>

theorem captured_bits_exact:
  "bits_from_bytes (captured_bits_to_bytes bs) (length bs) = bs"
  by (rule captured_bits_round_trip)

end
