(* ===== verification/Jtag_Tap.thy ===== *)
theory Jtag_Tap
  imports Probe_Batch
begin

text \<open>
  The JTAG layer (probe-rs/src/probe/jtag/mod.rs): the TAP state machine with the table of TMS
  paths, the operations of a batch, and the lowering of a batch to single clocks. The
  properties relate the clocks on the wire to the sixteen-state TAP controller.
\<close>

subsection \<open>The TAP states\<close>

datatype tap_state = TestLogicReset | RunTestIdle | ShiftIr | ShiftDr | PauseIr | PauseDr

definition tlr_to_tlr :: "bool list" where
  "tlr_to_tlr = [True, True, True, True, True]"

definition tlr_to_rti :: "bool list" where
  "tlr_to_rti = [False]"

definition tlr_to_shift_ir :: "bool list" where
  "tlr_to_shift_ir = [False, True, True, False, False]"

definition tlr_to_shift_dr :: "bool list" where
  "tlr_to_shift_dr = [False, True, False, False]"

definition tlr_to_pause_ir :: "bool list" where
  "tlr_to_pause_ir = [False, True, True, False, True, False]"

definition tlr_to_pause_dr :: "bool list" where
  "tlr_to_pause_dr = [False, True, False, True, False]"

definition rti_to_shift_ir :: "bool list" where
  "rti_to_shift_ir = [True, True, False, False]"

definition rti_to_shift_dr :: "bool list" where
  "rti_to_shift_dr = [True, False, False]"

definition rti_to_pause_ir :: "bool list" where
  "rti_to_pause_ir = [True, True, False, True, False]"

definition rti_to_pause_dr :: "bool list" where
  "rti_to_pause_dr = [True, False, True, False]"

definition shift_ir_to_rti :: "bool list" where
  "shift_ir_to_rti = [True, True, False]"

definition shift_ir_to_shift_dr :: "bool list" where
  "shift_ir_to_shift_dr = [True, True, True, False, False]"

definition shift_ir_to_pause_ir :: "bool list" where
  "shift_ir_to_pause_ir = [True, False]"

definition shift_ir_to_pause_dr :: "bool list" where
  "shift_ir_to_pause_dr = [True, True, True, False, True, False]"

definition shift_dr_to_rti :: "bool list" where
  "shift_dr_to_rti = [True, True, False]"

definition shift_dr_to_shift_ir :: "bool list" where
  "shift_dr_to_shift_ir = [True, True, True, True, False, False]"

definition shift_dr_to_pause_ir :: "bool list" where
  "shift_dr_to_pause_ir = [True, True, True, True, False, True, False]"

definition shift_dr_to_pause_dr :: "bool list" where
  "shift_dr_to_pause_dr = [True, False]"

definition pause_ir_to_rti :: "bool list" where
  "pause_ir_to_rti = [True, True, False]"

definition pause_ir_to_shift_ir :: "bool list" where
  "pause_ir_to_shift_ir = [True, False]"

definition pause_ir_to_shift_dr :: "bool list" where
  "pause_ir_to_shift_dr = [True, True, True, False, False]"

definition pause_ir_to_pause_dr :: "bool list" where
  "pause_ir_to_pause_dr = [True, True, True, False, True, False]"

definition pause_dr_to_rti :: "bool list" where
  "pause_dr_to_rti = [True, True, False]"

definition pause_dr_to_shift_ir :: "bool list" where
  "pause_dr_to_shift_ir = [True, True, True, True, False, False]"

definition pause_dr_to_shift_dr :: "bool list" where
  "pause_dr_to_shift_dr = [True, False]"

definition pause_dr_to_pause_ir :: "bool list" where
  "pause_dr_to_pause_ir = [True, True, True, True, False, True, False]"

fun path_to :: "tap_state \<Rightarrow> tap_state \<Rightarrow> bool list" where
  "path_to TestLogicReset TestLogicReset = tlr_to_tlr"
| "path_to TestLogicReset RunTestIdle = tlr_to_rti"
| "path_to TestLogicReset ShiftIr = tlr_to_shift_ir"
| "path_to TestLogicReset ShiftDr = tlr_to_shift_dr"
| "path_to TestLogicReset PauseIr = tlr_to_pause_ir"
| "path_to TestLogicReset PauseDr = tlr_to_pause_dr"
| "path_to RunTestIdle TestLogicReset = tlr_to_tlr"
| "path_to RunTestIdle RunTestIdle = []"
| "path_to RunTestIdle ShiftIr = rti_to_shift_ir"
| "path_to RunTestIdle ShiftDr = rti_to_shift_dr"
| "path_to RunTestIdle PauseIr = rti_to_pause_ir"
| "path_to RunTestIdle PauseDr = rti_to_pause_dr"
| "path_to ShiftIr TestLogicReset = tlr_to_tlr"
| "path_to ShiftIr RunTestIdle = shift_ir_to_rti"
| "path_to ShiftIr ShiftIr = []"
| "path_to ShiftIr ShiftDr = shift_ir_to_shift_dr"
| "path_to ShiftIr PauseIr = shift_ir_to_pause_ir"
| "path_to ShiftIr PauseDr = shift_ir_to_pause_dr"
| "path_to ShiftDr TestLogicReset = tlr_to_tlr"
| "path_to ShiftDr RunTestIdle = shift_dr_to_rti"
| "path_to ShiftDr ShiftIr = shift_dr_to_shift_ir"
| "path_to ShiftDr ShiftDr = []"
| "path_to ShiftDr PauseIr = shift_dr_to_pause_ir"
| "path_to ShiftDr PauseDr = shift_dr_to_pause_dr"
| "path_to PauseIr TestLogicReset = tlr_to_tlr"
| "path_to PauseIr RunTestIdle = pause_ir_to_rti"
| "path_to PauseIr ShiftIr = pause_ir_to_shift_ir"
| "path_to PauseIr ShiftDr = pause_ir_to_shift_dr"
| "path_to PauseIr PauseIr = []"
| "path_to PauseIr PauseDr = pause_ir_to_pause_dr"
| "path_to PauseDr TestLogicReset = tlr_to_tlr"
| "path_to PauseDr RunTestIdle = pause_dr_to_rti"
| "path_to PauseDr ShiftIr = pause_dr_to_shift_ir"
| "path_to PauseDr ShiftDr = pause_dr_to_shift_dr"
| "path_to PauseDr PauseIr = pause_dr_to_pause_ir"
| "path_to PauseDr PauseDr = []"

datatype full_tap_state =
    FTestLogicReset | FRunTestIdle
  | FSelectDr | FCaptureDr | FShiftDr | FExit1Dr | FPauseDr | FExit2Dr | FUpdateDr
  | FSelectIr | FCaptureIr | FShiftIr | FExit1Ir | FPauseIr | FExit2Ir | FUpdateIr

fun tap_step_high :: "full_tap_state \<Rightarrow> full_tap_state" where
  "tap_step_high FTestLogicReset = FTestLogicReset"
| "tap_step_high FRunTestIdle = FSelectDr"
| "tap_step_high FSelectDr = FSelectIr"
| "tap_step_high FCaptureDr = FExit1Dr"
| "tap_step_high FShiftDr = FExit1Dr"
| "tap_step_high FExit1Dr = FUpdateDr"
| "tap_step_high FExit2Dr = FUpdateDr"
| "tap_step_high FPauseDr = FExit2Dr"
| "tap_step_high FUpdateDr = FSelectDr"
| "tap_step_high FSelectIr = FTestLogicReset"
| "tap_step_high FCaptureIr = FExit1Ir"
| "tap_step_high FShiftIr = FExit1Ir"
| "tap_step_high FExit1Ir = FUpdateIr"
| "tap_step_high FExit2Ir = FUpdateIr"
| "tap_step_high FPauseIr = FExit2Ir"
| "tap_step_high FUpdateIr = FSelectDr"

fun tap_step_low :: "full_tap_state \<Rightarrow> full_tap_state" where
  "tap_step_low FTestLogicReset = FRunTestIdle"
| "tap_step_low FRunTestIdle = FRunTestIdle"
| "tap_step_low FSelectDr = FCaptureDr"
| "tap_step_low FCaptureDr = FShiftDr"
| "tap_step_low FShiftDr = FShiftDr"
| "tap_step_low FExit1Dr = FPauseDr"
| "tap_step_low FPauseDr = FPauseDr"
| "tap_step_low FExit2Dr = FShiftDr"
| "tap_step_low FUpdateDr = FRunTestIdle"
| "tap_step_low FSelectIr = FCaptureIr"
| "tap_step_low FCaptureIr = FShiftIr"
| "tap_step_low FShiftIr = FShiftIr"
| "tap_step_low FExit1Ir = FPauseIr"
| "tap_step_low FPauseIr = FPauseIr"
| "tap_step_low FExit2Ir = FShiftIr"
| "tap_step_low FUpdateIr = FRunTestIdle"

definition tap_step :: "full_tap_state \<Rightarrow> bool \<Rightarrow> full_tap_state" where
  "tap_step s tms = (if tms then tap_step_high s else tap_step_low s)"

fun stable :: "full_tap_state \<Rightarrow> tap_state option" where
  "stable FTestLogicReset = Some TestLogicReset"
| "stable FRunTestIdle = Some RunTestIdle"
| "stable FShiftIr = Some ShiftIr"
| "stable FShiftDr = Some ShiftDr"
| "stable FPauseIr = Some PauseIr"
| "stable FPauseDr = Some PauseDr"
| "stable _ = None"

fun full :: "tap_state \<Rightarrow> full_tap_state" where
  "full TestLogicReset = FTestLogicReset"
| "full RunTestIdle = FRunTestIdle"
| "full ShiftIr = FShiftIr"
| "full ShiftDr = FShiftDr"
| "full PauseIr = FPauseIr"
| "full PauseDr = FPauseDr"

subsection \<open>Operations and batches\<close>

datatype jtag_op =
    EnterState tap_state
  | Exchange bits bool
  | ClockTck nat

type_synonym jtag_batch = "jtag_op batch"

definition jtag_enter :: "handle_id \<Rightarrow> tap_state \<Rightarrow> jtag_batch \<Rightarrow> jtag_batch" where
  "jtag_enter fresh s b = snd (batch_schedule fresh (EnterState s) b)"

definition exchange_result :: "nat \<Rightarrow> command_result \<Rightarrow> ('e, bits) res" where
  "exchange_result bit_len r =
     (case r of CrVecU8 bytes \<Rightarrow> Ok (bits_from_bytes bytes bit_len) | _ \<Rightarrow> Panic)"

definition jtag_exchange ::
  "handle_id \<Rightarrow> bits \<Rightarrow> jtag_batch \<Rightarrow> ('e, bits) handle \<times> jtag_batch" where
  "jtag_exchange fresh data b =
     (let (h, b') = batch_schedule fresh (Exchange data True) b
      in (handle_map (handle_from_id h) (exchange_result (length data)), b'))"

definition exchange_no_capture :: "handle_id \<Rightarrow> bits \<Rightarrow> jtag_batch \<Rightarrow> jtag_batch" where
  "exchange_no_capture fresh data b = snd (batch_schedule fresh (Exchange data False) b)"

definition jtag_clock :: "handle_id \<Rightarrow> nat \<Rightarrow> jtag_batch \<Rightarrow> jtag_batch" where
  "jtag_clock fresh count b = snd (batch_schedule fresh (ClockTck count) b)"

definition exchange_leaves_shift :: "tap_state \<Rightarrow> jtag_op option \<Rightarrow> bool" where
  "exchange_leaves_shift current nxt =
     (case nxt of
        Some (EnterState target) \<Rightarrow> (case path_to current target of [] \<Rightarrow> False | t # _ \<Rightarrow> t)
      | _ \<Rightarrow> False)"

definition enter_tdi :: "tap_state \<Rightarrow> bool" where
  "enter_tdi target \<longleftrightarrow> target = TestLogicReset"

datatype jtag_step =
    StepTms "bool list" bool
  | StepShift bits bool bool
  | StepClock nat bool

subsection \<open>Walking a batch\<close>

text \<open>
  \<open>walk_batch\<close>: the state is the TAP state and the state of the caller's \<open>emit\<close>. \<open>skip\<close> is the
  number of TMS bits of the next move that the exchange before it has clocked.
\<close>

definition is_shift :: "tap_state \<Rightarrow> bool" where
  "is_shift s \<longleftrightarrow> s = ShiftIr \<or> s = ShiftDr"

fun tap_code :: "tap_state \<Rightarrow> nat" where
  "tap_code TestLogicReset = 0"
| "tap_code RunTestIdle = 1"
| "tap_code ShiftIr = 2"
| "tap_code ShiftDr = 3"
| "tap_code PauseIr = 4"
| "tap_code PauseDr = 5"

definition next_op :: "(handle_id \<times> jtag_op) list \<Rightarrow> jtag_op option" where
  "next_op ops = (case ops of [] \<Rightarrow> None | (_, op) # _ \<Rightarrow> Some op)"

fun walk_ops ::
  "(handle_id \<Rightarrow> bool) \<Rightarrow> (jtag_step \<Rightarrow> ('p, debug_probe_error, unit) rsm) \<Rightarrow> nat \<Rightarrow>
     (handle_id \<times> jtag_op) list \<Rightarrow> tap_state \<times> 'p \<Rightarrow>
     (debug_probe_error, unit) res \<times> tap_state \<times> 'p"
where
  "walk_ops held emit skip [] (st, p) = (Ok (), st, p)"
| "walk_ops held emit skip ((k, EnterState target) # ops) (st, p) =
     (let path = path_to st target in
      if length path < skip then (Panic, st, p)
      else case emit (StepTms (drop skip path) (enter_tdi target)) p of
        (Ok _, p') \<Rightarrow> walk_ops held emit 0 ops (target, p')
      | (Err e, p') \<Rightarrow> (Err e, st, p')
      | (Panic, p') \<Rightarrow> (Panic, st, p'))"
| "walk_ops held emit skip ((k, Exchange data capture) # ops) (st, p) =
     (if \<not> is_shift st then (Err (OtherExchangeState (tap_code st)), st, p)
      else
        let leave = data \<noteq> [] \<and> exchange_leaves_shift st (next_op ops) in
        case emit (StepShift data leave (capture \<and> held k)) p of
          (Ok _, p') \<Rightarrow> walk_ops held emit (if leave then 1 else 0) ops (st, p')
        | (Err e, p') \<Rightarrow> (Err e, st, p')
        | (Panic, p') \<Rightarrow> (Panic, st, p'))"
| "walk_ops held emit skip ((k, ClockTck count) # ops) (st, p) =
     (case emit (StepClock count (st = TestLogicReset)) p of
        (Ok _, p') \<Rightarrow> walk_ops held emit skip ops (st, p')
      | (Err e, p') \<Rightarrow> (Err e, st, p')
      | (Panic, p') \<Rightarrow> (Panic, st, p'))"

definition walk_batch ::
  "(handle_id \<Rightarrow> bool) \<Rightarrow> jtag_batch \<Rightarrow> (jtag_step \<Rightarrow> ('p, debug_probe_error, unit) rsm) \<Rightarrow>
     tap_state \<times> 'p \<Rightarrow> (debug_probe_error, unit) res \<times> tap_state \<times> 'p" where
  "walk_batch held b emit s =
     (case batch_iter b of
        Ok ops \<Rightarrow> walk_ops held emit 0 ops s
      | Err e \<Rightarrow> (Err e, s)
      | Panic \<Rightarrow> (Panic, s))"

subsection \<open>Runs and captures\<close>

text \<open>\<open>tms_runs\<close>: the inner loop counts how often the first value repeats.\<close>

fun tms_runs :: "bool list \<Rightarrow> (bool \<times> nat) list" where
  "tms_runs [] = []"
| "tms_runs (b # bs) =
     (let n = length (takeWhile (\<lambda>x. x = b) bs)
      in (b, n + 1) # tms_runs (drop n bs))"

fun distribute_from ::
  "(handle_id \<Rightarrow> bool) \<Rightarrow> (handle_id \<times> jtag_op) list \<Rightarrow> bits \<Rightarrow> nat \<Rightarrow> results \<Rightarrow> results batch_res"
where
  "distribute_from held [] captured offset rs = Ok rs"
| "distribute_from held ((k, Exchange data True) # ops) captured offset rs =
     (if \<not> held k then distribute_from held ops captured offset rs
      else let len = length data in
        if length captured < offset + len then
          Err (new_from_debug_probe (OtherCaptured (length captured) (offset + len)) rs)
        else distribute_from held ops captured (offset + len)
               (results_push rs k (CrVecU8 (captured_bits_to_bytes (take len (drop offset captured))))))"
| "distribute_from held (_ # ops) captured offset rs = distribute_from held ops captured offset rs"

definition distribute_captures ::
  "(handle_id \<Rightarrow> bool) \<Rightarrow> (handle_id \<times> jtag_op) list \<Rightarrow> bits \<Rightarrow> results \<Rightarrow> results batch_res" where
  "distribute_captures held ops captured rs = distribute_from held ops captured 0 rs"

subsection \<open>Bit-banging\<close>

text \<open>A driver: the methods of \<open>BitbangJtag\<close> on its state \<open>'p\<close>.\<close>

record 'p bitbang_jtag =
  bb_shift :: "bool \<Rightarrow> bool \<Rightarrow> bool \<Rightarrow> ('p, debug_probe_error, unit) rsm"
  bb_flush :: "('p, debug_probe_error, unit) rsm"
  bb_captured :: "('p, debug_probe_error, bits) rsm"

text \<open>\<open>shift_all\<close> and the \<open>try_for_each\<close> loops clock one bit after the other.\<close>

fun shift_all ::
  "'p bitbang_jtag \<Rightarrow> (bool \<times> bool \<times> bool) list \<Rightarrow> ('p, debug_probe_error, unit) rsm" where
  "shift_all d [] = sret ()"
| "shift_all d ((tms, tdi, cap) # cs) = sbind (bb_shift d tms tdi cap) (\<lambda>_. shift_all d cs)"

fun step_clocks :: "jtag_step \<Rightarrow> (bool \<times> bool \<times> bool) list" where
  "step_clocks (StepTms path tdi) = map (\<lambda>tms. (tms, tdi, False)) path"
| "step_clocks (StepShift data leave capture) =
     map (\<lambda>i. (leave \<and> i = length data - 1, data ! i, capture)) [0..<length data]"
| "step_clocks (StepClock count tms) = replicate count (tms, False, False)"

definition bitbang_emit ::
  "'p bitbang_jtag \<Rightarrow> jtag_step \<Rightarrow> ('p, debug_probe_error, unit) rsm" where
  "bitbang_emit d step = shift_all d (step_clocks step)"

definition lower_batch ::
  "'p bitbang_jtag \<Rightarrow> (handle_id \<Rightarrow> bool) \<Rightarrow> jtag_batch \<Rightarrow> tap_state \<times> 'p \<Rightarrow>
     results batch_res \<times> tap_state \<times> 'p" where
  "lower_batch d held b s =
     (case walk_batch held b (bitbang_emit d) s of
        (Err e, t) \<Rightarrow> (Err (new_from_debug_probe e results_new), t)
      | (Panic, t) \<Rightarrow> (Panic, t)
      | (Ok _, st, p) \<Rightarrow>
        (case bb_flush d p of
           (Err e, p) \<Rightarrow> (Err (new_from_debug_probe e results_new), st, p)
         | (Panic, p) \<Rightarrow> (Panic, st, p)
         | (Ok _, p) \<Rightarrow>
           (case bb_captured d p of
              (Err e, p) \<Rightarrow> (Err (new_from_debug_probe e results_new), st, p)
            | (Panic, p) \<Rightarrow> (Panic, st, p)
            | (Ok bits, p) \<Rightarrow>
                (rbind (batch_iter b) (\<lambda>ops. distribute_captures held ops bits results_new), st, p))))"

text \<open>\<open>run_bitbang_batch\<close> reads the resting state from the driver and writes it back.\<close>

definition run_bitbang_batch ::
  "'p bitbang_jtag \<Rightarrow> (handle_id \<Rightarrow> bool) \<Rightarrow> jtag_batch \<Rightarrow> tap_state \<times> 'p \<Rightarrow>
     results batch_res \<times> tap_state \<times> 'p" where
  "run_bitbang_batch d held b s = lower_batch d held b s"

subsection \<open>The TAP on the wire\<close>

lemmas tap_paths = tlr_to_tlr_def tlr_to_rti_def tlr_to_shift_ir_def tlr_to_shift_dr_def
  tlr_to_pause_ir_def tlr_to_pause_dr_def rti_to_shift_ir_def rti_to_shift_dr_def
  rti_to_pause_ir_def rti_to_pause_dr_def shift_ir_to_rti_def shift_ir_to_shift_dr_def
  shift_ir_to_pause_ir_def shift_ir_to_pause_dr_def shift_dr_to_rti_def shift_dr_to_shift_ir_def
  shift_dr_to_pause_ir_def shift_dr_to_pause_dr_def pause_ir_to_rti_def pause_ir_to_shift_ir_def
  pause_ir_to_shift_dr_def pause_ir_to_pause_dr_def pause_dr_to_rti_def pause_dr_to_shift_ir_def
  pause_dr_to_shift_dr_def pause_dr_to_pause_ir_def

lemmas tap_step_simps [simp] = tap_step_def

text \<open>The TAP after a sequence of TMS values, and the states it takes on the way.\<close>

fun tap_run :: "full_tap_state \<Rightarrow> bool list \<Rightarrow> full_tap_state" where
  "tap_run s [] = s"
| "tap_run s (t # ts) = tap_run (tap_step s t) ts"

fun tap_visits :: "full_tap_state \<Rightarrow> bool list \<Rightarrow> full_tap_state list" where
  "tap_visits s [] = []"
| "tap_visits s (t # ts) = tap_step s t # tap_visits (tap_step s t) ts"

lemma tap_run_append [simp]: "tap_run s (xs @ ys) = tap_run (tap_run s xs) ys"
  by (induction s xs rule: tap_run.induct) auto

lemma stable_full [simp]: "stable (full s) = Some s"
  by (cases s) auto

lemma path_reaches [simp]: "tap_run (full a) (path_to a b) = full b"
  by (cases a; cases b) (simp_all add: tap_paths)

lemma path_leaves_shift:
  "is_shift a \<Longrightarrow> path_to a b = (if a = b then [] else True # tl (path_to a b))"
  by (cases a; cases b) (simp_all add: tap_paths is_shift_def)

lemma path_self: "path_to a a = (if a = TestLogicReset then replicate 5 True else [])"
  by (cases a) (simp_all add: tap_paths numeral_eq_Suc)

text \<open>Clocking with the level of \<open>StepClock\<close> holds a stable state.\<close>

lemma clock_holds: "tap_run (full s) (replicate n (s = TestLogicReset)) = full s"
  by (induction n) (cases s, auto)+

lemma shift_holds: "is_shift s \<Longrightarrow> tap_run (full s) (replicate n False) = full s"
  by (induction n) (auto simp: is_shift_def)

subsection \<open>The steps of a batch\<close>

text \<open>
  The steps a batch is lowered to: \<open>walk_ops\<close> with an \<open>emit\<close> that records its argument. Every
  operation yields one step.
\<close>

abbreviation record_step :: "jtag_step \<Rightarrow> (jtag_step list, debug_probe_error, unit) rsm" where
  "record_step \<equiv> \<lambda>step ps. (Ok (), ps @ [step])"

fun emits :: "(jtag_step \<Rightarrow> ('p, debug_probe_error, unit) rsm) \<Rightarrow> jtag_step list \<Rightarrow>
    ('p, debug_probe_error, unit) rsm" where
  "emits emit [] = sret ()"
| "emits emit (x # xs) = sbind (emit x) (\<lambda>_. emits emit xs)"

definition plan :: "(handle_id \<Rightarrow> bool) \<Rightarrow> nat \<Rightarrow> tap_state \<Rightarrow> (handle_id \<times> jtag_op) list \<Rightarrow>
    (debug_probe_error, unit) res \<times> tap_state \<times> jtag_step list" where
  "plan held skip st ops = walk_ops held record_step skip ops (st, [])"

lemma walk_record:
  "walk_ops held record_step skip ops (st, ps) =
     (fst (plan held skip st ops), fst (snd (plan held skip st ops)),
      ps @ snd (snd (plan held skip st ops)))"
proof (induction ops arbitrary: skip st ps)
  case Nil
  then show ?case by (simp add: plan_def)
next
  case (Cons x ops)
  obtain k op where x: "x = (k, op)" by fastforce
  show ?case
    unfolding plan_def x
    by (cases op) (simp_all add: Cons.IH [of _ _ "ps @ [_]"] Cons.IH [of _ _ "[_]"] Let_def)
qed

lemma plan_Nil [simp]: "plan held skip st [] = (Ok (), st, [])"
  by (simp add: plan_def)

lemma plan_Cons:
  "plan held skip st ((k, EnterState t) # ops) =
     (if length (path_to st t) < skip then (Panic, st, [])
      else (case plan held 0 t ops of (r, st', steps) \<Rightarrow>
        (r, st', StepTms (drop skip (path_to st t)) (enter_tdi t) # steps)))"
  "plan held skip st ((k, Exchange data c) # ops) =
     (if \<not> is_shift st then (Err (OtherExchangeState (tap_code st)), st, [])
      else let leave = data \<noteq> [] \<and> exchange_leaves_shift st (next_op ops) in
        (case plan held (if leave then 1 else 0) st ops of (r, st', steps) \<Rightarrow>
          (r, st', StepShift data leave (c \<and> held k) # steps)))"
  "plan held skip st ((k, ClockTck n) # ops) =
     (case plan held skip st ops of (r, st', steps) \<Rightarrow>
        (r, st', StepClock n (st = TestLogicReset) # steps))"
  unfolding plan_def [of held skip st "_ # ops"] walk_ops.simps
  by (simp_all add: walk_record Let_def case_prod_unfold)

text \<open>Every \<open>emit\<close> that succeeds on all steps sees the recorded steps in order.\<close>

lemma walk_emits:
  assumes "walk_ops held emit skip ops (st, p) = (Ok u, st', p')"
  shows "\<exists>steps. plan held skip st ops = (Ok (), st', steps) \<and> emits emit steps p = (Ok (), p')"
  using assms
proof (induction ops arbitrary: skip st p)
  case Nil
  then show ?case by simp
next
  case (Cons x ops)
  obtain k op where x: "x = (k, op)" by fastforce
  show ?case
  proof (cases op)
    case (EnterState t)
    then obtain v q where q: "emit (StepTms (drop skip (path_to st t)) (enter_tdi t)) p = (Ok v, q)"
      "walk_ops held emit 0 ops (t, q) = (Ok u, st', p')" "\<not> length (path_to st t) < skip"
      using Cons.prems x by (auto simp: Let_def split: if_splits prod.splits res.splits)
    then show ?thesis
      using Cons.IH [OF q(2)] x EnterState by (auto simp: plan_Cons sbind_def)
  next
    case (Exchange data c)
    define leave where "leave = (data \<noteq> [] \<and> exchange_leaves_shift st (next_op ops))"
    obtain v q where q: "emit (StepShift data leave (c \<and> held k)) p = (Ok v, q)"
      "walk_ops held emit (if leave then 1 else 0) ops (st, q) = (Ok u, st', p')" "is_shift st"
      using Cons.prems x Exchange
      by (auto simp: Let_def leave_def [symmetric] split: if_splits prod.splits res.splits)
    then show ?thesis
      using Cons.IH [OF q(2)] x Exchange
      by (auto simp: plan_Cons sbind_def leave_def [symmetric] Let_def)
  next
    case (ClockTck n)
    then obtain v q where q: "emit (StepClock n (st = TestLogicReset)) p = (Ok v, q)"
      "walk_ops held emit skip ops (st, q) = (Ok u, st', p')"
      using Cons.prems x by (auto split: prod.splits res.splits)
    then show ?thesis
      using Cons.IH [OF q(2)] x ClockTck by (auto simp: plan_Cons sbind_def)
  qed
qed

subsection \<open>A batch ends where it says\<close>

definition wire :: "jtag_step list \<Rightarrow> (bool \<times> bool \<times> bool) list" where
  "wire steps = concat (map step_clocks steps)"

lemma wire_simps [simp]: "wire [] = []" "wire (s # ss) = step_clocks s @ wire ss"
  by (simp_all add: wire_def)

text \<open>The state a batch says it ends in; \<open>None\<close> when an exchange is not in a shift state.\<close>

fun ends_in :: "tap_state \<Rightarrow> (handle_id \<times> jtag_op) list \<Rightarrow> tap_state option" where
  "ends_in st [] = Some st"
| "ends_in st ((k, EnterState t) # ops) = ends_in t ops"
| "ends_in st ((k, Exchange data c) # ops) = (if is_shift st then ends_in st ops else None)"
| "ends_in st ((k, ClockTck n) # ops) = ends_in st ops"

lemma step_clocks_snoc:
  "step_clocks (StepShift (xs @ [x]) leave c) = map (\<lambda>b. (False, b, c)) xs @ [(leave, x, c)]"
  by (auto intro!: nth_equalityI simp: nth_append less_Suc_eq)

lemma step_clocks_empty: "step_clocks (StepShift [] leave c) = []"
  by simp

lemma fst_step_clocks:
  "map fst (step_clocks (StepTms path tdi)) = path"
  "map fst (step_clocks (StepClock n tms)) = replicate n tms"
  by (simp_all add: comp_def map_replicate_const)

lemma shift_run:
  assumes "is_shift st" "leave \<Longrightarrow> data \<noteq> []"
  shows "tap_run (full st) (map fst (step_clocks (StepShift data leave c)))
    = tap_run (full st) (replicate (if leave then 1 else 0) True)"
proof (cases data rule: rev_cases)
  case Nil
  then show ?thesis using assms(2) by auto
next
  case (snoc xs x)
  have "tap_run (full st) (map (\<lambda>b. False) xs) = full st"
    using shift_holds [OF assms(1), of "length xs"] by (simp add: map_replicate_const)
  then show ?thesis
    using assms(1) unfolding snoc step_clocks_snoc by (auto simp: comp_def is_shift_def)
qed

text \<open>What the merged last bit of an exchange leaves of the next move.\<close>

definition merged :: "nat \<Rightarrow> tap_state \<Rightarrow> (handle_id \<times> jtag_op) list \<Rightarrow> bool" where
  "merged skip st ops \<longleftrightarrow> skip = 0 \<or> (skip = 1 \<and> is_shift st \<and> exchange_leaves_shift st (next_op ops))"

lemma merged_enter:
  assumes "merged skip st ((k, EnterState t) # ops)"
  shows "skip \<le> length (path_to st t)" "replicate skip True @ drop skip (path_to st t) = path_to st t"
  using assms by (auto simp: merged_def exchange_leaves_shift_def next_op_def split: list.splits)

lemma merged_other:
  "merged skip st ((k, Exchange data c) # ops) \<Longrightarrow> skip = 0"
  "merged skip st ((k, ClockTck n) # ops) \<Longrightarrow> skip = 0"
  by (auto simp: merged_def exchange_leaves_shift_def next_op_def)

lemma plan_ends:
  assumes "ends_in st ops = Some st'" "merged skip st ops"
  shows "\<exists>steps. plan held skip st ops = (Ok (), st', steps) \<and> length steps = length ops
    \<and> tap_run (tap_run (full st) (replicate skip True)) (map fst (wire steps)) = full st'"
  using assms
proof (induction st ops arbitrary: skip rule: ends_in.induct)
  case (1 st)
  then show ?case by (simp add: merged_def exchange_leaves_shift_def next_op_def)
next
  case (2 st k t ops)
  note m = merged_enter [OF "2.prems"(2)]
  obtain steps where steps: "plan held 0 t ops = (Ok (), st', steps)" "length steps = length ops"
    "tap_run (full t) (map fst (wire steps)) = full st'"
    using "2.IH" [of 0] "2.prems" by (auto simp: merged_def)
  have "tap_run (tap_run (full st) (replicate skip True)) (drop skip (path_to st t)) = full t"
    using arg_cong [OF m(2), of "tap_run (full st)"] by simp
  then show ?case
    using steps m(1) by (simp add: plan_Cons fst_step_clocks del: step_clocks.simps)
next
  case (3 st k data c ops)
  have st: "is_shift st" "ends_in st ops = Some st'" using "3.prems" by (auto split: if_splits)
  define leave where "leave = (data \<noteq> [] \<and> exchange_leaves_shift st (next_op ops))"
  define skip' where "skip' = (if leave then 1 else 0 :: nat)"
  have "merged skip' st ops" using st(1) by (simp add: merged_def skip'_def leave_def)
  then obtain steps where steps: "plan held skip' st ops = (Ok (), st', steps)" "length steps = length ops"
    "tap_run (tap_run (full st) (replicate skip' True)) (map fst (wire steps)) = full st'"
    using "3.IH" [OF st(1,2)] by blast
  have "tap_run (full st) (map fst (step_clocks (StepShift data leave (c \<and> held k))))
      = tap_run (full st) (replicate skip' True)"
    unfolding skip'_def by (rule shift_run [OF st(1)]) (simp add: leave_def)
  then show ?case
    using steps st(1) merged_other(1) [OF "3.prems"(2)]
    by (simp add: plan_Cons Let_def leave_def [symmetric] skip'_def [symmetric] del: step_clocks.simps)
next
  case (4 st k n ops)
  have skip: "skip = 0" using merged_other(2) [OF "4.prems"(2)] .
  obtain steps where steps: "plan held 0 st ops = (Ok (), st', steps)" "length steps = length ops"
    "tap_run (full st) (map fst (wire steps)) = full st'"
    using "4.IH" [of 0] "4.prems" by (auto simp: merged_def)
  then show ?case
    using clock_holds [of st n] skip by (simp add: plan_Cons fst_step_clocks del: step_clocks.simps)
qed

lemma plan_fails:
  assumes "ends_in st ops = None" "merged skip st ops"
  shows "\<exists>bad st' steps. plan held skip st ops = (Err (OtherExchangeState (tap_code bad)), st', steps)
    \<and> \<not> is_shift bad"
  using assms
proof (induction st ops arbitrary: skip rule: ends_in.induct)
  case (1 st)
  then show ?case by simp
next
  case (2 st k t ops)
  then show ?case
    using merged_enter [OF "2.prems"(2)] "2.IH" [of 0] by (fastforce simp: plan_Cons merged_def)
next
  case (3 st k data c ops)
  show ?case
  proof (cases "is_shift st")
    case True
    define leave where "leave = (data \<noteq> [] \<and> exchange_leaves_shift st (next_op ops))"
    have "merged (if leave then 1 else 0) st ops"
      using True by (simp add: merged_def leave_def)
    then show ?thesis
      using "3.IH" [OF True, of "if leave then 1 else 0"] "3.prems"(1) True
      by (fastforce simp: plan_Cons Let_def leave_def [symmetric])
  next
    case False
    then show ?thesis by (auto simp: plan_Cons)
  qed
next
  case (4 st k n ops)
  then show ?case
    using merged_other(2) [OF "4.prems"(2)] "4.IH" [of 0] by (fastforce simp: plan_Cons merged_def)
qed

subsection \<open>What is shifted\<close>

fun shifted :: "full_tap_state \<Rightarrow> (bool \<times> bool \<times> bool) list \<Rightarrow> bits" where
  "shifted s [] = []"
| "shifted s ((tms, tdi, c) # cs) =
     (if s = FShiftIr \<or> s = FShiftDr then [tdi] else []) @ shifted (tap_step s tms) cs"

lemma shifted_append:
  "shifted s (xs @ ys) = shifted s xs @ shifted (tap_run s (map fst xs)) ys"
  by (induction s xs rule: shifted.induct) auto

text \<open>
  A batch is disciplined when it leaves a shift state only right after an exchange with data
  and does not clock idle cycles in one; otherwise the leaving clock shifts a bit of its own.
\<close>

fun disciplined :: "bool \<Rightarrow> tap_state \<Rightarrow> (handle_id \<times> jtag_op) list \<Rightarrow> bool" where
  "disciplined m st [] \<longleftrightarrow> True"
| "disciplined m st ((k, EnterState t) # ops) \<longleftrightarrow> (is_shift st \<longrightarrow> m \<or> t = st) \<and> disciplined False t ops"
| "disciplined m st ((k, Exchange data c) # ops) \<longleftrightarrow> is_shift st \<and> disciplined (data \<noteq> []) st ops"
| "disciplined m st ((k, ClockTck n) # ops) \<longleftrightarrow> (is_shift st \<longrightarrow> n = 0) \<and> disciplined False st ops"

fun op_data :: "handle_id \<times> jtag_op \<Rightarrow> bits" where
  "op_data (k, Exchange data c) = data"
| "op_data _ = []"

lemma shifted_exchange:
  assumes "is_shift st"
  shows "shifted (full st) (step_clocks (StepShift data leave c)) = data"
proof (cases data rule: rev_cases)
  case Nil
  then show ?thesis by simp
next
  case (snoc xs x)
  have st: "full st = FShiftIr \<or> full st = FShiftDr" using assms by (auto simp: is_shift_def)
  have run: "tap_run (full st) (map (\<lambda>b. False) xs) = full st"
    using shift_holds [OF assms, of "length xs"] by (simp add: map_replicate_const)
  have "shifted (full st) (map (\<lambda>b. (False, b, c)) xs) = xs"
    using st by (induction xs) (auto simp: is_shift_def)
  then show ?thesis
    using st run unfolding snoc step_clocks_snoc by (auto simp: shifted_append comp_def)
qed

lemma shifted_path:
  assumes "\<not> is_shift a"
  shows "shifted (full a) (step_clocks (StepTms (path_to a b) x)) = []"
  using assms by (cases a; cases b) (simp_all add: tap_paths is_shift_def)

lemma shifted_rest:
  assumes "is_shift a" "a \<noteq> b"
  shows "shifted (tap_run (full a) [True]) (step_clocks (StepTms (drop 1 (path_to a b)) x)) = []"
  using assms by (cases a; cases b) (simp_all add: tap_paths is_shift_def)

lemma shifted_clock:
  assumes "is_shift a \<longrightarrow> n = 0"
  shows "shifted (full a) (step_clocks (StepClock n (a = TestLogicReset))) = []"
proof (cases "is_shift a")
  case True
  then show ?thesis using assms by simp
next
  case False
  then have "full a \<noteq> FShiftIr" "full a \<noteq> FShiftDr" by (cases a; simp add: is_shift_def)+
  moreover have "tap_step (full a) (a = TestLogicReset) = full a"
    using clock_holds [of a 1] by simp
  ultimately show ?thesis by (induction n) (simp_all del: tap_step_simps)
qed

lemma plan_shifts:
  assumes "disciplined m st ops" "merged skip st ops" "ends_in st ops = Some st'"
    "m \<Longrightarrow> exchange_leaves_shift st (next_op ops) \<Longrightarrow> skip = 1"
    "plan held skip st ops = (Ok (), st', steps)"
  shows "shifted (tap_run (full st) (replicate skip True)) (wire steps) = concat (map op_data ops)"
  using assms
proof (induction m st ops arbitrary: skip steps rule: disciplined.induct)
  case (1 m st)
  then show ?case by simp
next
  case (2 m st k t ops)
  note m = merged_enter [OF "2.prems"(2)]
  define rest where "rest = step_clocks (StepTms (drop skip (path_to st t)) (enter_tdi t))"
  obtain steps' where s: "plan held 0 t ops = (Ok (), st', steps')"
    "steps = StepTms (drop skip (path_to st t)) (enter_tdi t) # steps'"
    using "2.prems"(5) m(1) by (auto simp: plan_Cons split: prod.splits)
  have IH: "shifted (full t) (wire steps') = concat (map op_data ops)"
    using "2.IH" [of 0 steps'] "2.prems" s(1) by (simp add: merged_def)
  have run: "tap_run (tap_run (full st) (replicate skip True)) (map fst rest) = full t"
    using arg_cong [OF m(2), of "tap_run (full st)"]
    by (simp add: rest_def fst_step_clocks del: step_clocks.simps)
  have "shifted (tap_run (full st) (replicate skip True)) rest = []"
  proof (cases "is_shift st")
    case False
    then have "skip = 0"
      using "2.prems"(2) by (auto simp: merged_def exchange_leaves_shift_def next_op_def)
    then show ?thesis using shifted_path [OF False] by (simp add: rest_def)
  next
    case True
    show ?thesis
    proof (cases "t = st")
      case True
      then show ?thesis
        using \<open>is_shift st\<close> path_self [of st] by (auto simp: rest_def is_shift_def)
    next
      case False
      then have "exchange_leaves_shift st (next_op ((k, EnterState t) # ops))"
        using path_leaves_shift [OF True, of t]
        by (auto simp: exchange_leaves_shift_def next_op_def split: list.splits)
      then have "skip = 1" using "2.prems"(1,4) True False by auto
      then show ?thesis
        using shifted_rest [OF True, of t] False by (simp add: rest_def del: step_clocks.simps)
    qed
  qed
  then show ?case
    using IH run unfolding s(2) by (simp add: shifted_append rest_def [symmetric] del: step_clocks.simps)
next
  case (3 m st k data c ops)
  define leave where "leave = (data \<noteq> [] \<and> exchange_leaves_shift st (next_op ops))"
  define skip' where "skip' = (if leave then 1 else 0 :: nat)"
  have st: "is_shift st" using "3.prems"(1) by simp
  have skip: "skip = 0" using merged_other(1) [OF "3.prems"(2)] .
  obtain steps' where s: "plan held skip' st ops = (Ok (), st', steps')"
    "steps = StepShift data leave (c \<and> held k) # steps'"
    using "3.prems"(5) st
    by (auto simp: plan_Cons Let_def leave_def [symmetric] skip'_def [symmetric] split: prod.splits)
  have "disciplined (data \<noteq> []) st ops" "merged skip' st ops" "ends_in st ops = Some st'"
    "data \<noteq> [] \<Longrightarrow> exchange_leaves_shift st (next_op ops) \<Longrightarrow> skip' = 1"
    using "3.prems" st by (auto simp: merged_def skip'_def leave_def)
  then have IH: "shifted (tap_run (full st) (replicate skip' True)) (wire steps') = concat (map op_data ops)"
    using "3.IH" s(1) by blast
  have "tap_run (full st) (map fst (step_clocks (StepShift data leave (c \<and> held k))))
      = tap_run (full st) (replicate skip' True)"
    unfolding skip'_def by (rule shift_run [OF st]) (simp add: leave_def)
  then show ?case
    using IH shifted_exchange [OF st] skip unfolding s(2)
    by (simp add: shifted_append del: step_clocks.simps)
next
  case (4 m st k n ops)
  have skip: "skip = 0" using merged_other(2) [OF "4.prems"(2)] .
  obtain steps' where s: "plan held 0 st ops = (Ok (), st', steps')"
    "steps = StepClock n (st = TestLogicReset) # steps'"
    using "4.prems"(5) skip by (auto simp: plan_Cons split: prod.splits)
  have IH: "shifted (full st) (wire steps') = concat (map op_data ops)"
    using "4.IH" [of 0 steps'] "4.prems" s(1) by (simp add: merged_def)
  then show ?case
    using clock_holds [of st n] shifted_clock [of st n] "4.prems"(1) skip unfolding s(2)
    by (simp add: shifted_append fst_step_clocks del: step_clocks.simps)
qed

subsection \<open>Runs of equal TMS bits\<close>

lemma takeWhile_eq_replicate: "takeWhile (\<lambda>x. x = b) bs = replicate (length (takeWhile (\<lambda>x. x = b) bs)) b"
  by (induction bs) auto

lemma tms_runs_expand: "concat (map (\<lambda>(b, n). replicate n b) (tms_runs bs)) = bs"
proof (induction bs rule: tms_runs.induct)
  case 1
  then show ?case by simp
next
  case (2 b bs)
  define n where "n = length (takeWhile (\<lambda>x. x = b) bs)"
  have "replicate n b @ drop n bs = bs"
    using takeWhile_eq_replicate [of b bs] takeWhile_dropWhile_id [of "\<lambda>x. x = b" bs]
    by (simp add: n_def dropWhile_eq_drop)
  then show ?case
    using 2 [OF n_def] by (simp add: n_def [symmetric] Let_def)
qed

lemma tms_runs_hd: "bs \<noteq> [] \<Longrightarrow> tms_runs bs \<noteq> [] \<and> fst (hd (tms_runs bs)) = hd bs"
  by (cases bs) (simp_all add: Let_def)

lemma tms_runs_maximal:
  "(\<forall>r \<in> set (tms_runs bs). 0 < snd r)
   \<and> (\<forall>i. Suc i < length (tms_runs bs) \<longrightarrow> fst (tms_runs bs ! i) \<noteq> fst (tms_runs bs ! Suc i))"
proof (induction bs rule: tms_runs.induct)
  case 1
  then show ?case by simp
next
  case (2 b bs)
  define n where "n = length (takeWhile (\<lambda>x. x = b) bs)"
  note IH = 2 [OF n_def]
  have r: "tms_runs (b # bs) = (b, n + 1) # tms_runs (drop n bs)"
    by (simp add: n_def Let_def)
  have later: "fst (hd (tms_runs (drop n bs))) \<noteq> b" if "tms_runs (drop n bs) \<noteq> []"
  proof -
    have "drop n bs \<noteq> []" using that by auto
    moreover have "drop n bs = dropWhile (\<lambda>x. x = b) bs"
      by (simp add: n_def dropWhile_eq_drop)
    ultimately show ?thesis
      using tms_runs_hd [of "drop n bs"] hd_dropWhile [of "\<lambda>x. x = b" bs] by auto
  qed
  have "fst (tms_runs (b # bs) ! i) \<noteq> fst (tms_runs (b # bs) ! Suc i)"
    if "Suc i < length (tms_runs (b # bs))" for i
  proof (cases i)
    case 0
    then show ?thesis using later that unfolding r by (cases "tms_runs (drop n bs)") auto
  next
    case (Suc j)
    then show ?thesis using IH that unfolding r by simp
  qed
  then show ?case using IH unfolding r by simp
qed

subsection \<open>Distributing the captured bits\<close>

fun cap_len :: "(handle_id \<Rightarrow> bool) \<Rightarrow> handle_id \<times> jtag_op \<Rightarrow> nat" where
  "cap_len held (k, Exchange data True) = (if held k then length data else 0)"
| "cap_len held _ = 0"

definition cap_total :: "(handle_id \<Rightarrow> bool) \<Rightarrow> (handle_id \<times> jtag_op) list \<Rightarrow> nat" where
  "cap_total held ops = sum_list (map (cap_len held) ops)"

lemma cap_total_simps [simp]:
  "cap_total held [] = 0" "cap_total held (x # ops) = cap_len held x + cap_total held ops"
  by (simp_all add: cap_total_def)

lemma results_push_lookup [simp]:
  "map_of (results_push rs k r) k' = (if k' = k then Some r else map_of rs k')"
  by (simp add: results_push_def AList.update_conv')

lemma distribute_skip:
  assumes "\<not> (\<exists>data. op = Exchange data True \<and> held k)"
  shows "distribute_from held ((k, op) # ops) captured offset rs = distribute_from held ops captured offset rs"
    "cap_len held (k, op) = 0"
proof -
  have "distribute_from held ((k, op) # ops) captured offset rs = distribute_from held ops captured offset rs
    \<and> cap_len held (k, op) = 0"
  proof (cases op)
    case (Exchange data c)
    then show ?thesis using assms by (cases c) simp_all
  qed simp_all
  then show "distribute_from held ((k, op) # ops) captured offset rs = distribute_from held ops captured offset rs"
    "cap_len held (k, op) = 0" by blast+
qed

lemma distribute_ok:
  assumes "distinct (map fst ops)" "offset + cap_total held ops \<le> length captured"
  shows "\<exists>rs'. distribute_from held ops captured offset rs = Ok rs'
    \<and> (\<forall>k. k \<notin> fst ` set ops \<longrightarrow> map_of rs' k = map_of rs k)
    \<and> (\<forall>i k data. i < length ops \<longrightarrow> ops ! i = (k, Exchange data True) \<longrightarrow> held k \<longrightarrow>
         map_of rs' k = Some (CrVecU8 (captured_bits_to_bytes
           (take (length data) (drop (offset + cap_total held (take i ops)) captured)))))"
  using assms
proof (induction ops arbitrary: offset rs)
  case Nil
  then show ?case by simp
next
  case (Cons x ops)
  obtain k op where x: "x = (k, op)" by fastforce
  show ?case
  proof (cases "\<exists>data. op = Exchange data True \<and> held k")
    case True
    then obtain data where op: "op = Exchange data True" "held k" by blast
    define rs1 where "rs1 = results_push rs k
      (CrVecU8 (captured_bits_to_bytes (take (length data) (drop offset captured))))"
    obtain rs' where rs': "distribute_from held ops captured (offset + length data) rs1 = Ok rs'"
      "\<forall>k. k \<notin> fst ` set ops \<longrightarrow> map_of rs' k = map_of rs1 k"
      "\<forall>i k data'. i < length ops \<longrightarrow> ops ! i = (k, Exchange data' True) \<longrightarrow> held k \<longrightarrow>
         map_of rs' k = Some (CrVecU8 (captured_bits_to_bytes
           (take (length data') (drop (offset + length data + cap_total held (take i ops)) captured))))"
      using Cons.IH [of "offset + length data" rs1] Cons.prems x op by auto
    have "k \<notin> fst ` set ops" using Cons.prems x by auto
    then have own: "map_of rs' k = Some (CrVecU8 (captured_bits_to_bytes
           (take (length data) (drop offset captured))))"
      using rs'(2) by (simp add: rs1_def)
    have run: "distribute_from held (x # ops) captured offset rs = Ok rs'"
      using rs'(1) Cons.prems x op by (simp add: rs1_def Let_def)
    have others: "\<forall>k'. k' \<notin> fst ` set (x # ops) \<longrightarrow> map_of rs' k' = map_of rs k'"
      using rs'(2) x by (auto simp: rs1_def)
    have all: "map_of rs' k' = Some (CrVecU8 (captured_bits_to_bytes
           (take (length data') (drop (offset + cap_total held (take i (x # ops))) captured))))"
      if "i < length (x # ops)" "(x # ops) ! i = (k', Exchange data' True)" "held k'" for i k' data'
    proof (cases i)
      case 0
      then show ?thesis using that own x op by simp
    next
      case (Suc j)
      then show ?thesis using that rs'(3) x op by (simp add: add.assoc)
    qed
    show ?thesis
    proof (intro exI [of _ rs'] conjI allI impI)
      show "distribute_from held (x # ops) captured offset rs = Ok rs'" by (rule run)
    next
      fix k'
      assume "k' \<notin> fst ` set (x # ops)"
      then show "map_of rs' k' = map_of rs k'" using others by blast
    next
      fix i k' data'
      assume "i < length (x # ops)" "(x # ops) ! i = (k', Exchange data' True)" "held k'"
      then show "map_of rs' k' = Some (CrVecU8 (captured_bits_to_bytes
           (take (length data') (drop (offset + cap_total held (take i (x # ops))) captured))))"
        by (rule all)
    qed
  next
    case False
    then have eq: "distribute_from held (x # ops) captured offset rs = distribute_from held ops captured offset rs"
      "cap_len held x = 0"
      using distribute_skip [of op held k] x by simp_all
    obtain rs' where rs': "distribute_from held ops captured offset rs = Ok rs'"
      "\<forall>k. k \<notin> fst ` set ops \<longrightarrow> map_of rs' k = map_of rs k"
      "\<forall>i k data'. i < length ops \<longrightarrow> ops ! i = (k, Exchange data' True) \<longrightarrow> held k \<longrightarrow>
         map_of rs' k = Some (CrVecU8 (captured_bits_to_bytes
           (take (length data') (drop (offset + cap_total held (take i ops)) captured))))"
      using Cons.IH [of offset rs] Cons.prems unfolding cap_total_simps eq(2) by auto
    have run: "distribute_from held (x # ops) captured offset rs = Ok rs'"
      using rs'(1) eq(1) by simp
    have others: "\<forall>k'. k' \<notin> fst ` set (x # ops) \<longrightarrow> map_of rs' k' = map_of rs k'"
      using rs'(2) by simp
    have all: "map_of rs' k' = Some (CrVecU8 (captured_bits_to_bytes
           (take (length data') (drop (offset + cap_total held (take i (x # ops))) captured))))"
      if "i < length (x # ops)" "(x # ops) ! i = (k', Exchange data' True)" "held k'" for i k' data'
    proof (cases i)
      case 0
      then show ?thesis using that False x by simp
    next
      case (Suc j)
      then show ?thesis using that rs'(3) eq(2) by simp
    qed
    show ?thesis
    proof (intro exI [of _ rs'] conjI allI impI)
      show "distribute_from held (x # ops) captured offset rs = Ok rs'" by (rule run)
    next
      fix k'
      assume "k' \<notin> fst ` set (x # ops)"
      then show "map_of rs' k' = map_of rs k'" using others by blast
    next
      fix i k' data'
      assume "i < length (x # ops)" "(x # ops) ! i = (k', Exchange data' True)" "held k'"
      then show "map_of rs' k' = Some (CrVecU8 (captured_bits_to_bytes
           (take (length data') (drop (offset + cap_total held (take i (x # ops))) captured))))"
        by (rule all)
    qed
  qed
qed

subsection \<open>Properties\<close>

text \<open>The TMS path of any pair of stable states leads the sixteen-state TAP from the one to
  the other and passes through Test-Logic-Reset just when that is the target; the path to
  Test-Logic-Reset resets the TAP from any of its sixteen states.\<close>

theorem paths_reach_target:
  "tap_run (full a) (path_to a b) = full b
   \<and> (FTestLogicReset \<in> set (tap_visits (full a) (path_to a b)) \<longleftrightarrow> b = TestLogicReset)
   \<and> tap_run s (path_to a TestLogicReset) = FTestLogicReset"
proof -
  have "FTestLogicReset \<in> set (tap_visits (full a) (path_to a b)) \<longleftrightarrow> b = TestLogicReset"
    by (cases a; cases b) (simp_all add: tap_paths)
  moreover have "tap_run s (path_to a TestLogicReset) = FTestLogicReset"
    by (cases s; cases a) (simp_all add: tap_paths)
  ultimately show ?thesis by simp
qed

text \<open>C28. A batch whose exchanges all happen in a shift state is lowered without error to one
  step per operation, and clocking these steps, with the last bit of an exchange merged into
  the move after it, brings the sixteen-state TAP from the resting state to the state the
  batch ends in.\<close>

theorem batch_ends_where_it_says:
  assumes "ends_in st ops = Some st'"
  shows "\<exists>steps. walk_ops held record_step 0 ops (st, []) = (Ok (), st', steps)
    \<and> length steps = length ops \<and> tap_run (full st) (map fst (wire steps)) = full st'"
  using plan_ends [OF assms, of 0 held] by (simp add: plan_def merged_def)

definition demo_ops :: "(handle_id \<times> jtag_op) list" where
  "demo_ops = [(0, EnterState ShiftDr), (1, Exchange [True, False, True] True),
     (2, EnterState RunTestIdle), (3, ClockTck 4)]"

lemma demo_ops_end: "ends_in TestLogicReset demo_ops = Some RunTestIdle"
  by (simp add: demo_ops_def is_shift_def)

theorem batch_ends_where_it_says_witness:
  "\<exists>steps. walk_ops (\<lambda>_. True) record_step 0 demo_ops (TestLogicReset, []) = (Ok (), RunTestIdle, steps)
    \<and> tap_run FTestLogicReset (map fst (wire steps)) = FRunTestIdle"
  using batch_ends_where_it_says [OF demo_ops_end, of "\<lambda>_. True"] by auto

text \<open>C31. A disciplined batch shifts its data and nothing else: the TDI bits at the clocks on which
  the TAP is in a shift state are the concatenated data of the exchanges, in order.\<close>

theorem batch_shifts_its_data:
  assumes "ends_in st ops = Some st'" "disciplined False st ops"
  shows "\<exists>steps. walk_ops held record_step 0 ops (st, []) = (Ok (), st', steps)
    \<and> shifted (full st) (wire steps) = concat (map op_data ops)"
proof -
  obtain steps where s: "plan held 0 st ops = (Ok (), st', steps)"
    using plan_ends [OF assms(1), of 0 held] by (auto simp: merged_def)
  then have "shifted (full st) (wire steps) = concat (map op_data ops)"
    using plan_shifts [OF assms(2) _ assms(1) _ s] by (simp add: merged_def)
  then show ?thesis using s by (simp add: plan_def)
qed

theorem batch_shifts_its_data_witness:
  "\<exists>steps. walk_ops (\<lambda>_. True) record_step 0 demo_ops (TestLogicReset, []) = (Ok (), RunTestIdle, steps)
    \<and> shifted FTestLogicReset (wire steps) = [True, False, True]"
proof -
  have "disciplined False TestLogicReset demo_ops"
    by (simp add: demo_ops_def is_shift_def)
  from batch_shifts_its_data [OF demo_ops_end this, of "\<lambda>_. True"] show ?thesis
    by (simp add: demo_ops_def)
qed

text \<open>The runs of a TMS path are exact and maximal: expanding them gives the path back, none
  is empty, and neighbours have different values.\<close>

theorem tms_runs_exact:
  "concat (map (\<lambda>(b, n). replicate n b) (tms_runs path)) = path
   \<and> (\<forall>r \<in> set (tms_runs path). 0 < snd r)
   \<and> (\<forall>i. Suc i < length (tms_runs path) \<longrightarrow> fst (tms_runs path ! i) \<noteq> fst (tms_runs path ! Suc i))"
  using tms_runs_expand [of path] tms_runs_maximal [of path] by blast

theorem tms_runs_exact_witness:
  "concat (map (\<lambda>(b, n). replicate n b) (tms_runs (path_to PauseDr ShiftIr))) = path_to PauseDr ShiftIr
   \<and> fst (tms_runs (path_to PauseDr ShiftIr) ! 0) \<noteq> fst (tms_runs (path_to PauseDr ShiftIr) ! 1)"
proof -
  have "Suc 0 < length (tms_runs (path_to PauseDr ShiftIr))"
    by (simp add: pause_dr_to_shift_ir_def Let_def)
  then show ?thesis
    using tms_runs_exact [of "path_to PauseDr ShiftIr"] by auto
qed

text \<open>A bit-banged batch that fails always reports operation 0 as the one that failed, and no
  results, when a step is refused, whichever operation it was: an exchange outside a shift state
  at any position \<open>length pre\<close> is reported at index 0.\<close>

theorem refused_exchange_reports_index_zero:
  assumes "batch_ok b" "batch_ops b = pre @ (k, Exchange data c) # post"
    and "ends_in st pre = Some st'" "\<not> is_shift st'"
    and "\<And>tms tdi cap p. \<exists>q. bb_shift d tms tdi cap p = (Ok (), q)"
  shows "\<exists>e s. run_bitbang_batch d held b (st, p) = (Err e, s)
    \<and> be_fault_operation e = 0 \<and> be_results e = []"
proof -
  have total: "\<exists>q. shift_all d cs p = (Ok (), q)" for cs p
  proof (induction cs arbitrary: p)
    case Nil
    then show ?case by simp
  next
    case (Cons x cs)
    obtain tms tdi cap where x: "x = (tms, tdi, cap)" by (cases x) auto
    obtain q where "bb_shift d tms tdi cap p = (Ok (), q)" using assms(5) by blast
    then show ?case using Cons [of q] x by (simp add: sbind_def)
  qed
  have "\<exists>e s'. walk_ops held (bitbang_emit d) skip (pre @ (k, Exchange data c) # post) (st, p) = (Err e, s')"
    if "ends_in st pre = Some st'" "merged skip st (pre @ (k, Exchange data c) # post)" for skip p
    using that
  proof (induction st pre arbitrary: skip p rule: ends_in.induct)
    case (1 st)
    then show ?case using assms(4) by simp
  next
    case (2 st k' t ops)
    let ?step = "StepTms (drop skip (path_to st t)) (enter_tdi t)"
    obtain q where q: "bitbang_emit d ?step p = (Ok (), q)"
      using total unfolding bitbang_emit_def by blast
    have "skip \<le> length (path_to st t)" using merged_enter(1) "2.prems"(2) by simp
    then show ?case
      using q "2.IH" [of 0 q] "2.prems" by (simp add: merged_def Let_def)
  next
    case (3 st k' data' c' ops)
    let ?rest = "ops @ (k, Exchange data c) # post"
    define leave where "leave = (data' \<noteq> [] \<and> exchange_leaves_shift st (next_op ?rest))"
    have st: "is_shift st" "ends_in st ops = Some st'" using "3.prems" by (auto split: if_splits)
    obtain q where q: "bitbang_emit d (StepShift data' leave (c' \<and> held k')) p = (Ok (), q)"
      using total unfolding bitbang_emit_def by blast
    have "merged (if leave then 1 else 0) st ?rest" using st by (simp add: merged_def leave_def)
    then show ?case
      using q "3.IH" [OF st, of "if leave then 1 else 0" q] st(1) by (simp add: Let_def leave_def)
  next
    case (4 st k' n ops)
    obtain q where q: "bitbang_emit d (StepClock n (st = TestLogicReset)) p = (Ok (), q)"
      using total unfolding bitbang_emit_def by blast
    have "skip = 0" using merged_other(2) "4.prems"(2) by simp
    then show ?case using q "4.IH" [of 0 q] "4.prems" by (simp add: merged_def)
  qed
  from this [OF assms(3), of 0 p] obtain e s' where
    "walk_ops held (bitbang_emit d) 0 (batch_ops b) (st, p) = (Err e, s')"
    unfolding assms(2) by (auto simp: merged_def)
  then have "walk_batch held b (bitbang_emit d) (st, p) = (Err e, s')"
    unfolding walk_batch_def batch_ok_iter [OF assms(1)] batch_ops_def by simp
  then show ?thesis
    by (auto simp: run_bitbang_batch_def lower_batch_def new_from_debug_probe_def
        new_from_debug_probe_at_def results_new_def results_len_def)
qed

theorem refused_exchange_reports_index_zero_witness:
  "\<exists>e s. run_bitbang_batch \<lparr>bb_shift = (\<lambda>_ _ _. sret ()), bb_flush = sret (), bb_captured = sret []\<rparr>
       (\<lambda>_. True) \<lparr>commands = demo_ops @ [(4, Exchange [True] True)], cursor = 0\<rparr> (TestLogicReset, ())
     = (Err e, s) \<and> be_fault_operation e = 0"
proof -
  let ?b = "\<lparr>commands = demo_ops @ [(4, Exchange [True] True)], cursor = 0\<rparr>"
  let ?d = "\<lparr>bb_shift = (\<lambda>_ _ _. sret ()), bb_flush = sret (), bb_captured = sret []\<rparr> :: unit bitbang_jtag"
  have "batch_ok ?b" "batch_ops ?b = demo_ops @ (4, Exchange [True] True) # []"
    by (simp_all add: batch_ok_def batch_ops_def)
  moreover have "\<not> is_shift RunTestIdle" by (simp add: is_shift_def)
  moreover have "\<exists>q. bb_shift ?d tms tdi cap p = (Ok (), q)" for tms tdi cap p by simp
  ultimately show ?thesis
    using refused_exchange_reports_index_zero [OF _ _ demo_ops_end, of ?b 4 "[True]" True "[]" ?d]
    by blast
qed

end
