(* ===== verification/Jtag_Driver.thy ===== *)
theory Jtag_Driver
  imports Jtag_Tap
begin

text \<open>
  The contract between the lowering of a JTAG batch and a bit-banging driver
  (\<open>trait BitbangJtag\<close> in probe-rs/src/probe/jtag/mod.rs), and what a batch does on any driver
  that keeps it. The target is a function \<open>tdo\<close> from the clocks so far to the level of TDO at
  the last one.
\<close>

type_synonym clock = "bool \<times> bool"

definition clocks :: "(bool \<times> bool \<times> bool) list \<Rightarrow> clock list" where
  "clocks cs = map (\<lambda>(tms, tdi, _). (tms, tdi)) cs"

lemma clocks_simps [simp]:
  "clocks [] = []" "clocks ((tms, tdi, c) # cs) = (tms, tdi) # clocks cs"
  "clocks (xs @ ys) = clocks xs @ clocks ys" "length (clocks cs) = length cs"
  by (simp_all add: clocks_def)

lemma map_fst_clocks: "map fst (clocks cs) = map fst cs"
  by (induction cs) auto

text \<open>The TDO levels during clocks that follow a history, and those of them that are captured.\<close>

definition tdo_bits :: "(clock list \<Rightarrow> bool) \<Rightarrow> clock list \<Rightarrow> clock list \<Rightarrow> bits" where
  "tdo_bits tdo h cs = map (\<lambda>j. tdo (h @ take (Suc j) cs)) [0..<length cs]"

fun sampled :: "(clock list \<Rightarrow> bool) \<Rightarrow> clock list \<Rightarrow> (bool \<times> bool \<times> bool) list \<Rightarrow> bits" where
  "sampled tdo h [] = []"
| "sampled tdo h ((tms, tdi, c) # cs) =
     (if c then [tdo (h @ [(tms, tdi)])] else []) @ sampled tdo (h @ [(tms, tdi)]) cs"

lemma tdo_bits_simps [simp]:
  "tdo_bits tdo h [] = []" "tdo_bits tdo h (c # cs) = tdo (h @ [c]) # tdo_bits tdo (h @ [c]) cs"
  "length (tdo_bits tdo h cs) = length cs"
  by (simp_all add: tdo_bits_def upt_conv_Cons map_Suc_upt [symmetric] comp_def del: upt_Suc)

lemma sampled_append: "sampled tdo h (xs @ ys) = sampled tdo h xs @ sampled tdo (h @ clocks xs) ys"
  by (induction xs arbitrary: h) auto

lemma tdo_bits_append: "tdo_bits tdo h (xs @ ys) = tdo_bits tdo h xs @ tdo_bits tdo (h @ xs) ys"
  by (induction xs arbitrary: h) auto

lemma sampled_none: "\<forall>(tms, tdi, c) \<in> set cs. \<not> c \<Longrightarrow> sampled tdo h cs = []"
  by (induction cs arbitrary: h) auto

lemma sampled_all: "\<forall>(tms, tdi, c) \<in> set cs. c \<Longrightarrow> sampled tdo h cs = tdo_bits tdo h (clocks cs)"
  by (induction cs arbitrary: h) auto

fun captures :: "jtag_step \<Rightarrow> bool" where
  "captures (StepShift data leave c) = c"
| "captures _ = False"

lemma sampled_step:
  "sampled tdo h (step_clocks s) = (if captures s then tdo_bits tdo h (clocks (step_clocks s)) else [])"
proof (cases s)
  case (StepShift data leave c)
  have "\<forall>(tms, tdi, c') \<in> set (step_clocks s). c' = c" using StepShift by auto
  then show ?thesis
    using StepShift sampled_all [of "step_clocks s"] sampled_none [of "step_clocks s"]
    by (cases c) (fastforce simp del: step_clocks.simps)+
qed (auto intro!: sampled_none)

text \<open>Each operation of a batch becomes one step; an exchange keeps its data.\<close>

fun step_of :: "(handle_id \<Rightarrow> bool) \<Rightarrow> handle_id \<times> jtag_op \<Rightarrow> jtag_step \<Rightarrow> bool" where
  "step_of held (k, Exchange data c) (StepShift data' leave c') \<longleftrightarrow> data' = data \<and> c' = (c \<and> held k)"
| "step_of held (k, EnterState t) (StepTms path tdi) \<longleftrightarrow> True"
| "step_of held (k, ClockTck n) (StepClock n' tms) \<longleftrightarrow> n' = n"
| "step_of held _ _ \<longleftrightarrow> False"

lemma plan_steps:
  "plan held skip st ops = (Ok (), st', steps) \<Longrightarrow> list_all2 (step_of held) ops steps"
proof (induction st ops arbitrary: skip steps rule: ends_in.induct)
  case (1 st)
  then show ?case by simp
next
  case (2 st k t ops)
  then show ?case by (auto simp: plan_Cons split: if_splits prod.splits)
next
  case (3 st k data c ops)
  define skip' where "skip' = (if data \<noteq> [] \<and> exchange_leaves_shift st (next_op ops) then 1 else 0 :: nat)"
  obtain leave steps' where "is_shift st" "plan held skip' st ops = (Ok (), st', steps')"
    "steps = StepShift data leave (c \<and> held k) # steps'"
    using "3.prems" by (auto simp: plan_Cons Let_def skip'_def split: if_splits prod.splits)
  then show ?case using "3.IH" by simp
next
  case (4 st k n ops)
  then show ?case by (auto simp: plan_Cons split: prod.splits)
qed

text \<open>Which handles are held changes what is captured, not what is clocked.\<close>

definition step_levels :: "jtag_step \<Rightarrow> clock list" where
  "step_levels s = clocks (step_clocks s)"

lemma clocks_wire: "clocks (wire steps) = concat (map step_levels steps)"
  by (induction steps) (simp_all add: step_levels_def)

lemma plan_levels:
  "plan held skip st ops = (r, st', steps) \<Longrightarrow>
     \<exists>steps'. plan held' skip st ops = (r, st', steps') \<and> map step_levels steps' = map step_levels steps"
proof (induction st ops arbitrary: skip steps rule: ends_in.induct)
  case (1 st)
  then show ?case by simp
next
  case (2 st k t ops)
  show ?case
  proof (cases "length (path_to st t) < skip")
    case False
    then obtain rest where rest: "plan held 0 t ops = (r, st', rest)"
      "steps = StepTms (drop skip (path_to st t)) (enter_tdi t) # rest"
      using "2.prems" by (auto simp: plan_Cons split: prod.splits)
    from "2.IH" [OF this(1)] obtain rest' where
      "plan held' 0 t ops = (r, st', rest')" "map step_levels rest' = map step_levels rest" by blast
    then show ?thesis using False rest(2) by (simp add: plan_Cons)
  qed (use "2.prems" in \<open>simp add: plan_Cons\<close>)
next
  case (3 st k data c ops)
  define leave where "leave = (data \<noteq> [] \<and> exchange_leaves_shift st (next_op ops))"
  show ?case
  proof (cases "is_shift st")
    case True
    then obtain rest where rest: "plan held (if leave then 1 else 0) st ops = (r, st', rest)"
      "steps = StepShift data leave (c \<and> held k) # rest"
      using "3.prems" by (auto simp: plan_Cons Let_def leave_def split: prod.splits)
    from "3.IH" [OF True this(1)] obtain rest' where
      "plan held' (if leave then 1 else 0) st ops = (r, st', rest')" "map step_levels rest' = map step_levels rest" by blast
    then have "plan held' skip st ((k, Exchange data c) # ops) = (r, st', StepShift data leave (c \<and> held' k) # rest')"
      using True by (simp add: plan_Cons Let_def leave_def [symmetric])
    moreover have "step_levels (StepShift data leave x) = step_levels (StepShift data leave y)" for x y
      by (simp add: step_levels_def clocks_def)
    ultimately show ?thesis using rest(2) \<open>map step_levels rest' = map step_levels rest\<close> by auto
  qed (use "3.prems" in \<open>auto simp: plan_Cons\<close>)
next
  case (4 st k n ops)
  then obtain rest where rest: "plan held skip st ops = (r, st', rest)"
    "steps = StepClock n (st = TestLogicReset) # rest"
    by (auto simp: plan_Cons split: prod.splits)
  from "4.IH" [OF this(1)] obtain rest' where
    "plan held' skip st ops = (r, st', rest')" "map step_levels rest' = map step_levels rest" by blast
  then show ?case using rest(2) by (simp add: plan_Cons)
qed

lemma cap_len_exchange:
  "cap_len held (k, Exchange data c) = (if c \<and> held k then length data else 0)"
  by (cases c) simp_all

lemma step_of_captured:
  assumes "step_of held x s"
  shows "length (sampled tdo h (step_clocks s)) = cap_len held x"
proof -
  have "length (sampled tdo h (step_clocks s)) = (if captures s then length (step_clocks s) else 0)"
    by (simp add: sampled_step)
  moreover have "(if captures s then length (step_clocks s) else 0) = cap_len held x"
    using assms by (cases "(held, x, s)" rule: step_of.cases) (auto simp: cap_len_exchange)
  ultimately show ?thesis by simp
qed

lemma steps_captured:
  "list_all2 (step_of held) ops steps \<Longrightarrow> length (sampled tdo h (wire steps)) = cap_total held ops"
proof (induction ops steps arbitrary: h rule: list_all2_induct)
  case Nil
  then show ?case by simp
next
  case (Cons x ops s steps)
  then show ?case using step_of_captured [OF Cons(1)] by (simp add: sampled_append)
qed

lemma captured_slice:
  assumes "list_all2 (step_of held) ops steps" "i < length ops"
    and "ops ! i = (k, Exchange data True)" "held k"
  shows "take (length data) (drop (cap_total held (take i ops)) (sampled tdo h (wire steps)))
    = tdo_bits tdo (h @ clocks (wire (take i steps))) (clocks (step_clocks (steps ! i)))"
proof -
  have len: "length steps = length ops" using assms(1) by (simp add: list_all2_lengthD)
  have si: "step_of held (ops ! i) (steps ! i)"
    using assms(1,2) by (simp add: list_all2_nthD)
  then obtain leave where s: "steps ! i = StepShift data leave True"
    using assms(3,4) by (cases "steps ! i") auto
  have "steps = take i steps @ steps ! i # drop (Suc i) steps"
    using assms(2) len by (simp add: id_take_nth_drop)
  then have "sampled tdo h (wire steps) = sampled tdo h (wire (take i steps) @ step_clocks (steps ! i)
      @ wire (drop (Suc i) steps))"
    by (metis concat.simps(2) concat_append list.map(2) map_append wire_def)
  also have "\<dots> = sampled tdo h (wire (take i steps))
      @ tdo_bits tdo (h @ clocks (wire (take i steps))) (clocks (step_clocks (steps ! i)))
      @ sampled tdo (h @ clocks (wire (take i steps)) @ clocks (step_clocks (steps ! i)))
          (wire (drop (Suc i) steps))"
    using s by (simp add: sampled_append sampled_step del: step_clocks.simps)
  moreover have "length (sampled tdo h (wire (take i steps))) = cap_total held (take i ops)"
    using steps_captured list_all2_takeI [OF assms(1)] by blast
  moreover have "length (clocks (step_clocks (steps ! i))) = length data"
    using s by simp
  ultimately show ?thesis by (simp del: clocks_simps(4))
qed

subsection \<open>The contract\<close>

text \<open>
  \<open>hist\<close> are the clocks that the driver has taken over, \<open>due\<close> the captured bits it still owes, and a
  driver is \<open>rested\<close> when nothing of what it took over has still to be sent.
\<close>

locale bitbang_driver =
  fixes d :: "'p bitbang_jtag"
    and tdo :: "clock list \<Rightarrow> bool"
    and hist :: "'p \<Rightarrow> clock list"
    and due :: "'p \<Rightarrow> bits"
    and good :: "'p \<Rightarrow> bool"
    and rested :: "'p \<Rightarrow> bool"
  assumes shift_law: "good p \<Longrightarrow> bb_shift d tms tdi cap p = (Ok u, p') \<Longrightarrow>
      good p' \<and> hist p' = hist p @ [(tms, tdi)]
      \<and> due p' = due p @ (if cap then [tdo (hist p @ [(tms, tdi)])] else [])"
    and flush_law: "good p \<Longrightarrow> bb_flush d p = (Ok u, p') \<Longrightarrow>
      good p' \<and> hist p' = hist p \<and> due p' = due p"
    and captured_law: "good p \<Longrightarrow> bb_captured d p = (Ok bs, p') \<Longrightarrow>
      good p' \<and> bs = due p \<and> hist p' = hist p \<and> due p' = [] \<and> rested p'"
begin

lemma shift_all_wire:
  "good p \<Longrightarrow> shift_all d cs p = (Ok u, p') \<Longrightarrow>
     good p' \<and> hist p' = hist p @ clocks cs \<and> due p' = due p @ sampled tdo (hist p) cs"
proof (induction cs arbitrary: p)
  case Nil
  then show ?case by simp
next
  case (Cons c cs)
  obtain tms tdi cap where c: "c = (tms, tdi, cap)" by (cases c) auto
  obtain v q where q: "bb_shift d tms tdi cap p = (Ok v, q)" "shift_all d cs q = (Ok u, p')"
    using Cons.prems c by auto
  from shift_law [OF Cons.prems(1) q(1)] Cons.IH [OF _ q(2)] show ?case
    using c by simp
qed

lemma emits_wire:
  "good p \<Longrightarrow> emits (bitbang_emit d) steps p = (Ok u, p') \<Longrightarrow>
     good p' \<and> hist p' = hist p @ clocks (wire steps) \<and> due p' = due p @ sampled tdo (hist p) (wire steps)"
proof (induction steps arbitrary: p)
  case Nil
  then show ?case by simp
next
  case (Cons s steps)
  then obtain v q where q: "bitbang_emit d s p = (Ok v, q)"
    "emits (bitbang_emit d) steps q = (Ok u, p')"
    by auto
  from shift_all_wire [OF Cons.prems(1) q(1) [unfolded bitbang_emit_def]] Cons.IH [OF _ q(2)] show ?case
    by (simp add: sampled_append)
qed

lemma run_batch_wire:
  assumes "run_bitbang_batch d held b (st, p) = (Ok rs, st', p')" "good p" "due p = []"
    and "batch_ok b"
  defines "ops \<equiv> batch_ops b"
  shows "\<exists>steps. plan held 0 st ops = (Ok (), st', steps)
    \<and> good p' \<and> rested p' \<and> hist p' = hist p @ clocks (wire steps) \<and> due p' = []
    \<and> distribute_captures held ops (sampled tdo (hist p) (wire steps)) results_new = Ok rs"
proof -
  obtain q q1 bs where q: "walk_batch held b (bitbang_emit d) (st, p) = (Ok (), st', q)"
    "bb_flush d q = (Ok (), q1)" "bb_captured d q1 = (Ok bs, p')"
    "distribute_captures held ops bs results_new = Ok rs"
    using assms(1) unfolding ops_def batch_ops_def
    by (auto simp: run_bitbang_batch_def lower_batch_def batch_ok_iter [OF assms(4)] split: prod.splits res.splits)
  have "walk_ops held (bitbang_emit d) 0 ops (st, p) = (Ok (), st', q)"
    using q(1) unfolding walk_batch_def batch_ok_iter [OF assms(4)] ops_def batch_ops_def by simp
  from walk_emits [OF this] obtain steps where steps: "plan held 0 st ops = (Ok (), st', steps)"
    "emits (bitbang_emit d) steps p = (Ok (), q)"
    by (elim exE conjE)
  have w: "good q" "hist q = hist p @ clocks (wire steps)" "due q = sampled tdo (hist p) (wire steps)"
    using emits_wire [OF assms(2) steps(2)] assms(3) by simp_all
  have f: "good q1" "hist q1 = hist q" "due q1 = due q"
    using flush_law [OF w(1) q(2)] by simp_all
  have c: "good p'" "bs = due q" "hist p' = hist q" "due p' = []" "rested p'"
    using captured_law [OF f(1) q(3)] f by simp_all
  show ?thesis using steps(1) w c q(4) by metis
qed

text \<open>Every held exchange gets the TDO levels seen during its own clocks.\<close>

lemma run_batch_results:
  assumes "run_bitbang_batch d held b (st, p) = (Ok rs, st', p')" "good p" "due p = []" "batch_ok b"
  defines "ops \<equiv> batch_ops b"
  assumes "distinct (map fst ops)"
  shows "\<exists>steps. plan held 0 st ops = (Ok (), st', steps)
    \<and> good p' \<and> rested p' \<and> hist p' = hist p @ clocks (wire steps) \<and> due p' = []
    \<and> (\<forall>i k data. i < length ops \<and> ops ! i = (k, Exchange data True) \<and> held k \<longrightarrow>
         map_of rs k = Some (CrVecU8 (captured_bits_to_bytes
           (tdo_bits tdo (hist p @ clocks (wire (take i steps))) (clocks (step_clocks (steps ! i)))))))"
proof -
  obtain steps where s: "plan held 0 st ops = (Ok (), st', steps)"
    "hist p' = hist p @ clocks (wire steps)" "due p' = []"
    "good p'" "rested p'"
    "distribute_captures held ops (sampled tdo (hist p) (wire steps)) results_new = Ok rs"
    using run_batch_wire [OF assms(1-4)] unfolding ops_def by blast
  note sh = plan_steps [OF s(1)]
  obtain rs' where rs': "distribute_from held ops (sampled tdo (hist p) (wire steps)) 0 results_new = Ok rs'"
    "\<forall>i k data. i < length ops \<longrightarrow> ops ! i = (k, Exchange data True) \<longrightarrow> held k \<longrightarrow>
         map_of rs' k = Some (CrVecU8 (captured_bits_to_bytes
           (take (length data) (drop (0 + cap_total held (take i ops)) (sampled tdo (hist p) (wire steps))))))"
    using distribute_ok [OF assms(6), of 0 held "sampled tdo (hist p) (wire steps)" results_new]
      steps_captured [OF sh] by auto
  have "rs' = rs" using rs'(1) s(6) by (simp add: distribute_captures_def)
  then have "map_of rs k = Some (CrVecU8 (captured_bits_to_bytes
           (tdo_bits tdo (hist p @ clocks (wire (take i steps))) (clocks (step_clocks (steps ! i))))))"
    if "i < length ops \<and> ops ! i = (k, Exchange data True) \<and> held k" for i k data
    using rs'(2) captured_slice [OF sh, of i k data tdo "hist p"] that by auto
  then show ?thesis using s by blast
qed

end

text \<open>The converse of \<open>walk_emits\<close>: an \<open>emit\<close> that accepts all steps walks the batch to its end.\<close>

lemma emits_walk:
  assumes "plan held skip st ops = (Ok (), st', steps)" "emits emit steps p = (Ok (), p')"
  shows "walk_ops held emit skip ops (st, p) = (Ok (), st', p')"
  using assms
proof (induction st ops arbitrary: skip steps p rule: ends_in.induct)
  case (1 st)
  then show ?case by simp
next
  case (2 st k t ops)
  obtain steps' where s: "\<not> length (path_to st t) < skip" "plan held 0 t ops = (Ok (), st', steps')"
    "steps = StepTms (drop skip (path_to st t)) (enter_tdi t) # steps'"
    using "2.prems"(1) by (auto simp: plan_Cons split: if_splits prod.splits)
  then show ?case using "2.IH" [OF s(2)] "2.prems"(2) by (auto simp: Let_def)
next
  case (3 st k data c ops)
  define leave where "leave = (data \<noteq> [] \<and> exchange_leaves_shift st (next_op ops))"
  obtain steps' where s: "is_shift st" "plan held (if leave then 1 else 0) st ops = (Ok (), st', steps')"
    "steps = StepShift data leave (c \<and> held k) # steps'"
    using "3.prems"(1) by (auto simp: plan_Cons Let_def leave_def split: if_splits prod.splits)
  then show ?case
    using "3.IH" [OF s(1,2)] "3.prems"(2) by (auto simp: Let_def leave_def [symmetric])
next
  case (4 st k n ops)
  then show ?case by (auto simp: plan_Cons split: prod.splits)
qed

text \<open>A driver whose methods never fail.\<close>

locale reliable_driver = bitbang_driver +
  assumes shift_ok: "good p \<Longrightarrow> \<exists>p'. bb_shift d tms tdi cap p = (Ok (), p')"
    and flush_ok: "good p \<Longrightarrow> \<exists>p'. bb_flush d p = (Ok (), p')"
    and captured_ok: "good p \<Longrightarrow> \<exists>bs p'. bb_captured d p = (Ok bs, p')"
begin

lemma shift_all_ok: "good p \<Longrightarrow> \<exists>p'. shift_all d cs p = (Ok (), p') \<and> good p'"
proof (induction cs arbitrary: p)
  case Nil
  then show ?case by simp
next
  case (Cons c cs)
  obtain tms tdi cap where c: "c = (tms, tdi, cap)" by (cases c) auto
  obtain q where q: "bb_shift d tms tdi cap p = (Ok (), q)" using shift_ok [OF Cons.prems] by blast
  then have "good q" using shift_law [OF Cons.prems] by blast
  then show ?case using Cons.IH [of q] q c by (auto simp: sbind_def)
qed

lemma emits_ok: "good p \<Longrightarrow> \<exists>p'. emits (bitbang_emit d) steps p = (Ok (), p') \<and> good p'"
proof (induction steps arbitrary: p)
  case Nil
  then show ?case by simp
next
  case (Cons s steps)
  obtain q where q: "bitbang_emit d s p = (Ok (), q)" "good q"
    using shift_all_ok [OF Cons.prems, of "step_clocks s"] by (auto simp: bitbang_emit_def)
  then show ?case using Cons.IH [of q] by (auto simp: sbind_def)
qed

lemma run_batch_succeeds:
  assumes "good p" "due p = []" "batch_ok b" "distinct (map fst (batch_ops b))"
    and "ends_in st (batch_ops b) = Some st'"
  shows "\<exists>rs p'. run_bitbang_batch d held b (st, p) = (Ok rs, st', p')"
proof -
  obtain steps where steps: "plan held 0 st (batch_ops b) = (Ok (), st', steps)"
    using plan_ends [OF assms(5), of 0 held] by (auto simp: merged_def)
  obtain q where q: "emits (bitbang_emit d) steps p = (Ok (), q)" "good q"
    using emits_ok [OF assms(1)] by blast
  have walk: "walk_batch held b (bitbang_emit d) (st, p) = (Ok (), st', q)"
    unfolding walk_batch_def batch_ok_iter [OF assms(3)] batch_ops_def [symmetric]
    using emits_walk [OF steps q(1)] by simp
  obtain q1 where q1: "bb_flush d q = (Ok (), q1)" using flush_ok [OF q(2)] by blast
  have f: "good q1" "due q1 = due q" using flush_law [OF q(2) q1] by simp_all
  obtain bs p' where p': "bb_captured d q1 = (Ok bs, p')" using captured_ok [OF f(1)] by blast
  have "bs = due q" using captured_law [OF f(1) p'] f(2) by simp
  also have "\<dots> = sampled tdo (hist p) (wire steps)"
    using emits_wire [OF assms(1) q(1)] assms(2) by simp
  finally have "0 + cap_total held (batch_ops b) \<le> length bs"
    using steps_captured [OF plan_steps [OF steps]] by simp
  then obtain rs where "distribute_from held (batch_ops b) bs 0 results_new = Ok rs"
    using distribute_ok [OF assms(4)] by blast
  then show ?thesis
    using walk q1 p'
    by (simp add: run_bitbang_batch_def lower_batch_def batch_ok_iter [OF assms(3)]
        batch_ops_def [symmetric] distribute_captures_def)
qed

end

end
