(* ===== verification/Scan_Chain.thy ===== *)
theory Scan_Chain
  imports Probe_Batch
begin

text \<open>
  Interrogation of a JTAG scan chain (probe-rs/src/probe/common.rs): IDCODEs, the extraction of
  the TAPs from a DR capture and of the instruction register lengths from an IR capture, and
  the padding parameters of a selected TAP (\<open>ChainParams\<close> in probe-rs/src/probe/jtag/chain.rs).
\<close>

subsection \<open>IDCODEs\<close>

type_synonym idcode = u32

definition id_field :: "nat \<Rightarrow> nat \<Rightarrow> idcode \<Rightarrow> u32" where
  "id_field hi lo c = take_bit (hi - lo + 1) (drop_bit lo c)"

definition id_version :: "idcode \<Rightarrow> u32" where "id_version = id_field 31 28"
definition id_part_number :: "idcode \<Rightarrow> u32" where "id_part_number = id_field 27 12"
definition id_manufacturer :: "idcode \<Rightarrow> u32" where "id_manufacturer = id_field 11 1"
definition id_continuation :: "idcode \<Rightarrow> u32" where "id_continuation = id_field 11 8"
definition id_identity :: "idcode \<Rightarrow> u32" where "id_identity = id_field 7 1"
definition id_lsbit :: "idcode \<Rightarrow> bool" where "id_lsbit c = bit c 0"

definition idcode_valid :: "idcode \<Rightarrow> bool" where
  "idcode_valid c \<longleftrightarrow> id_lsbit c \<and> id_manufacturer c \<noteq> 0 \<and> id_manufacturer c \<noteq> 127"

definition valid_idcode :: "u32 \<Rightarrow> u32 option" where
  "valid_idcode v = (if v AND 1 = 1 \<and> v \<noteq> - 1 then Some v else None)"

datatype scan_chain_error = InvalidIdCode | InvalidIR

text \<open>\<open>load_le\<close> of a bit slice, first bit least significant.\<close>

definition load_le :: "bits \<Rightarrow> u32" where
  "load_le bs = horner_sum of_bool 2 bs"

definition bits_of_word :: "u32 \<Rightarrow> bits" where
  "bits_of_word w = map (bit w) [0..<32]"

subsection \<open>Extraction of the IDCODEs\<close>

function (sequential) extract_from ::
  "bits \<Rightarrow> nat \<Rightarrow> idcode option list \<Rightarrow> (scan_chain_error, idcode option list) res" where
  "extract_from [] acc ids = Ok ids"
| "extract_from (False # dr) acc ids = extract_from dr (acc + 1) ids"
| "extract_from (True # dr) acc ids =
     (if length (True # dr) < 32 then Err InvalidIdCode
      else let code = load_le (take 32 (True # dr)) in
        if code = - 1 then Ok ids
        else if \<not> idcode_valid code then Err InvalidIdCode
        else extract_from (drop 32 (True # dr)) 0 (ids @ replicate acc None @ [Some code]))"
  by pat_completeness auto
termination by (relation "measure (\<lambda>(dr, _, _). length dr)") auto

definition extract_idcodes :: "bits \<Rightarrow> (scan_chain_error, idcode option list) res" where
  "extract_idcodes dr = extract_from dr 0 []"

definition common_sequence :: "bits \<Rightarrow> bits \<Rightarrow> bits" where
  "common_sequence a b = take (length (takeWhile (\<lambda>(x, y). x = y) (zip a b))) a"

subsection \<open>Instruction register lengths\<close>

definition starts_to_lengths :: "nat list \<Rightarrow> nat \<Rightarrow> (scan_chain_error, nat list) res" where
  "starts_to_lengths starts tot =
     rbind (rtraverse (\<lambda>(a, b). sub_r b a) (zip starts (tl starts))) (\<lambda>lens.
     rbind (sub_r tot (sum_list lens)) (\<lambda>l. Ok (lens @ [l])))"

definition ir_starts :: "bits \<Rightarrow> nat list" where
  "ir_starts ir = filter (\<lambda>i. ir ! i \<and> \<not> ir ! Suc i) [0..<length ir - 1]"

text \<open>\<open>scan(0, ..)\<close>: the running sums before each element.\<close>

fun prefix_sums :: "nat \<Rightarrow> nat list \<Rightarrow> nat list" where
  "prefix_sums a [] = []"
| "prefix_sums a (x # xs) = a # prefix_sums (a + x) xs"

text \<open>The merge of length 2 registers with their neighbours.\<close>

fun merge_twos :: "nat list \<Rightarrow> nat list" where
  "merge_twos [] = []"
| "merge_twos [x] = [x]"
| "merge_twos (x # y # xs) = (if x = 2 then (x + y) # merge_twos xs else x # merge_twos (y # xs))"

definition extract_ir_lengths ::
  "bits \<Rightarrow> nat \<Rightarrow> nat list option \<Rightarrow> (scan_chain_error, nat list) res" where
  "extract_ir_lengths ir n_taps expected =
     (let starts = ir_starts ir in
      if n_taps = 0 then Err InvalidIR
      else if n_taps > length starts then Err InvalidIR
      else if starts ! 0 \<noteq> 0 then Err InvalidIR
      else case expected of
        Some lens \<Rightarrow>
          if length lens \<noteq> n_taps then Err InvalidIR
          else if sum_list lens \<noteq> length ir then Err InvalidIR
          else
            let exp_starts = prefix_sums 0 lens;
                unsupported = length (filter (\<lambda>s. s \<notin> set starts) exp_starts)
            in if unsupported > 0 then Err InvalidIR
               else starts_to_lengths exp_starts (length ir)
      | None \<Rightarrow>
          if n_taps = 1 then Ok [length ir]
          else if n_taps = length starts then starts_to_lengths starts (length ir)
          else rbind (starts_to_lengths starts (length ir)) (\<lambda>irlens.
            let merged = merge_twos irlens in
            if length merged = n_taps then Ok merged else Err InvalidIR))"

subsection \<open>Chain parameters\<close>

record scan_chain_element =
  sce_name :: "string option"
  sce_ir_len :: "nat option"

definition sce_len :: "scan_chain_element \<Rightarrow> nat" where
  "sce_len e = (case sce_ir_len e of Some n \<Rightarrow> n | None \<Rightarrow> 4)"

record chain_params =
  cp_index :: nat
  cp_irpre :: nat
  cp_irpost :: nat
  cp_drpre :: nat
  cp_drpost :: nat
  cp_irlen :: nat

definition default_chain_params :: chain_params where
  "default_chain_params =
     \<lparr>cp_index = 0, cp_irpre = 0, cp_irpost = 0, cp_drpre = 0, cp_drpost = 0, cp_irlen = 0\<rparr>"

text \<open>\<open>(1 << irlen) - 1\<close> on u32.\<close>

definition max_ir_address :: "chain_params \<Rightarrow> ('e, nat) res" where
  "max_ir_address p = (if cp_irlen p < 32 then Ok (2 ^ cp_irlen p - 1) else Panic)"

fun params_from ::
  "nat \<Rightarrow> nat \<Rightarrow> scan_chain_element list \<Rightarrow> chain_params \<times> bool \<Rightarrow> chain_params \<times> bool" where
  "params_from selected index [] s = s"
| "params_from selected index (tap # chain) (p, found) =
     params_from selected (index + 1) chain
       (let ir_len = sce_len tap in
        if index = selected then (p\<lparr>cp_irlen := ir_len\<rparr>, True)
        else if found then (p\<lparr>cp_irpost := cp_irpost p + ir_len, cp_drpost := cp_drpost p + 1\<rparr>, found)
        else (p\<lparr>cp_irpre := cp_irpre p + ir_len, cp_drpre := cp_drpre p + 1\<rparr>, found))"

definition from_jtag_chain :: "scan_chain_element list \<Rightarrow> nat \<Rightarrow> chain_params option" where
  "from_jtag_chain chain selected =
     (case params_from selected 0 chain (default_chain_params\<lparr>cp_index := selected\<rparr>, False) of
        (p, found) \<Rightarrow> if found then Some p else None)"

subsection \<open>Reading a chain of TAPs\<close>

lemma load_le_bits: "load_le (bits_of_word w) = w"
proof (rule bit_word_eqI)
  fix n
  assume "n < LENGTH(32)"
  then show "bit (load_le (bits_of_word w)) n = bit w n"
    by (simp add: load_le_def bits_of_word_def bit_horner_sum_bit_word_iff)
qed

text \<open>What the TAPs of a chain shift out of their data registers after a reset.\<close>

fun tap_bits :: "idcode option \<Rightarrow> bits" where
  "tap_bits None = [False]"
| "tap_bits (Some c) = bits_of_word c"

definition tap_ok :: "idcode option \<Rightarrow> bool" where
  "tap_ok t \<longleftrightarrow> (\<forall>c. t = Some c \<longrightarrow> idcode_valid c \<and> c \<noteq> - 1)"

text \<open>The TAPs up to the last one with an IDCODE.\<close>

definition identified :: "idcode option list \<Rightarrow> idcode option list" where
  "identified taps = rev (dropWhile (\<lambda>t. t = None) (rev taps))"

lemma bits_of_word_Cons: "bits_of_word c = bit c 0 # map (bit c) [1..<32]"
  by (simp add: bits_of_word_def upt_conv_Cons)

lemma extract_idcode:
  assumes "idcode_valid c" "c \<noteq> - 1"
  shows "extract_from (bits_of_word c @ dr) acc ids = extract_from dr 0 (ids @ replicate acc None @ [Some c])"
proof -
  have c0: "bit c 0" using assms(1) by (simp add: idcode_valid_def id_lsbit_def)
  have len: "length (bits_of_word c) = 32" by (simp add: bits_of_word_def)
  define rest where "rest = map (bit c) [1..<32] @ dr"
  have bits: "bits_of_word c @ dr = True # rest"
    using c0 by (simp add: bits_of_word_Cons rest_def)
  have "take 32 (True # rest) = bits_of_word c" "drop 32 (True # rest) = dr"
    using bits [symmetric] len by simp_all
  moreover have "\<not> length (True # rest) < 32" by (simp add: rest_def)
  ultimately show ?thesis
    unfolding bits using assms by (simp only: extract_from.simps load_le_bits Let_def if_False) simp
qed

lemma extract_ones:
  assumes "32 \<le> n"
  shows "extract_from (replicate n True) acc ids = Ok ids"
proof -
  obtain m where n: "n = Suc m" using assms by (cases n) auto
  have "bits_of_word (- 1) = replicate 32 True"
    by (rule nth_equalityI) (simp_all add: bits_of_word_def bit_minus_1_iff)
  then have "load_le (take 32 (replicate n True)) = - 1"
    using assms load_le_bits [of "- 1"] by (simp add: min_def)
  then show ?thesis
    using assms unfolding n by (simp add: Let_def)
qed

lemma identified_append_Some [simp]: "identified (xs @ [Some c]) = xs @ [Some c]"
  by (simp add: identified_def)

lemma identified_append_None [simp]: "identified (xs @ [None]) = identified xs"
  by (simp add: identified_def)

lemma extract_taps:
  assumes "\<forall>t \<in> set taps. tap_ok t" "32 \<le> n" "ids = identified (ids @ replicate acc None)"
  shows "extract_from (concat (map tap_bits taps) @ replicate n True) acc ids
    = Ok (identified (ids @ replicate acc None @ taps))"
  using assms(1,3)
proof (induction taps arbitrary: acc ids)
  case Nil
  then show ?case using extract_ones [OF assms(2)] by simp
next
  case (Cons t taps)
  show ?case
  proof (cases t)
    case None
    have "ids = identified (ids @ replicate (acc + 1) None)"
      using Cons.prems(2) identified_append_None [of "ids @ replicate acc None"]
      by (simp add: replicate_append_same [symmetric])
    then show ?thesis
      using Cons.IH [of ids "acc + 1"] Cons.prems None by (simp add: replicate_app_Cons_same)
  next
    case (Some c)
    then have "idcode_valid c" "c \<noteq> - 1" using Cons.prems by (simp_all add: tap_ok_def)
    then show ?thesis
      using extract_idcode [of c _ acc ids] Cons.IH [of "ids @ replicate acc None @ [Some c]" 0]
        Cons.prems Some identified_append_Some [of "ids @ replicate acc None" c] by simp
  qed
qed

subsection \<open>Instruction registers\<close>

text \<open>The lengths that an IR scan of registers with capture pattern 1, 0, 0, ... shows.\<close>

definition ir_capture :: "nat list \<Rightarrow> bits" where
  "ir_capture lens = concat (map (\<lambda>n. True # replicate (n - 1) False) lens)"

lemma length_ir_capture: "\<forall>n \<in> set lens. 0 < n \<Longrightarrow> length (ir_capture lens) = sum_list lens"
  by (induction lens) (auto simp: ir_capture_def)

lemma ir_capture_simps [simp]:
  "ir_capture [] = []" "ir_capture (n # lens) = True # replicate (n - 1) False @ ir_capture lens"
  by (simp_all add: ir_capture_def)

lemma ir_starts_Cons:
  "ir_starts (a # bs) = (if a \<and> bs \<noteq> [] \<and> \<not> hd bs then [0] else []) @ map Suc (ir_starts bs)"
proof (cases bs)
  case Nil
  then show ?thesis by (simp add: ir_starts_def)
next
  case (Cons b cs)
  have "[0..<length (a # bs) - 1] = 0 # map Suc [0..<length bs - 1]"
    using Cons by (simp add: map_Suc_upt upt_conv_Cons del: upt_Suc)
  then show ?thesis
    using Cons by (simp add: ir_starts_def filter_map comp_def)
qed

lemma ir_starts_zeros: "ir_starts (replicate n False @ bs) = map (\<lambda>i. i + n) (ir_starts bs)"
  by (induction n) (simp_all add: ir_starts_Cons)

lemma ir_starts_capture:
  assumes "\<forall>n \<in> set lens. 2 \<le> n"
  shows "ir_starts (ir_capture lens) = prefix_sums 0 lens"
proof -
  have "ir_starts (ir_capture lens) = prefix_sums 0 lens
    \<and> map (\<lambda>i. i + a) (prefix_sums 0 lens) = prefix_sums a lens" for a
    using assms
  proof (induction lens arbitrary: a)
    case Nil
    then show ?case by (simp add: ir_starts_def)
  next
    case (Cons n lens)
    have n: "2 \<le> n" and IH: "ir_starts (ir_capture lens) = prefix_sums 0 lens"
      "\<And>a. map (\<lambda>i. i + a) (prefix_sums 0 lens) = prefix_sums a lens"
      using Cons by auto
    obtain m where m: "n = Suc (Suc m)" using n by (metis One_nat_def Suc_1 Suc_le_D le_SucE not_less_eq_eq)
    have "ir_starts (ir_capture (n # lens)) = 0 # map (\<lambda>i. i + n) (prefix_sums 0 lens)"
      using IH(1) ir_starts_zeros [of "Suc m" "ir_capture lens"]
      by (simp add: ir_starts_Cons m comp_def)
    moreover have "map (\<lambda>i. i + a) (prefix_sums n lens) = prefix_sums (a + n) lens"
      using arg_cong [OF IH(2) [of n], of "map (\<lambda>i. i + a)"] IH(2) [of "a + n"]
      by (simp add: comp_def ac_simps)
    ultimately show ?case using IH(2) [of n] by simp
  qed
  then show ?thesis by blast
qed

lemma starts_to_lengths_prefix:
  assumes "lens \<noteq> []"
  shows "starts_to_lengths (prefix_sums a lens) (sum_list lens) = Ok lens"
proof -
  have "rtraverse (\<lambda>(a, b). sub_r b a) (zip (prefix_sums a lens) (tl (prefix_sums a lens)))
      = (Ok (butlast lens) :: (scan_chain_error, nat list) res)"
    using assms
  proof (induction lens arbitrary: a)
    case Nil
    then show ?case by simp
  next
    case (Cons x xs)
    show ?case
    proof (cases xs)
      case Nil
      then show ?thesis by simp
    next
      case (Cons y ys)
      then show ?thesis using Cons.IH [of "a + x"] by (simp add: res_simps)
    qed
  qed
  moreover have "sum_list (butlast lens) + last lens = sum_list lens"
    using append_butlast_last_id [OF assms] by (metis sum_list_append sum_list_simps(2) sum_list.Nil add_0_right)
  moreover have "sum_list lens - sum_list (butlast lens) = last lens"
    using calculation(2) by linarith
  moreover have "sum_list (butlast lens) \<le> sum_list lens"
    using calculation(2) by linarith
  ultimately show ?thesis
    using append_butlast_last_id [OF assms] by (simp add: starts_to_lengths_def sub_r_eq)
qed

lemma starts_to_lengths_sum:
  assumes "starts_to_lengths starts tot = Ok lens"
  shows "sum_list lens = tot" "starts \<noteq> [] \<Longrightarrow> length lens = length starts"
proof -
  obtain ds where ds: "rtraverse (\<lambda>(a, b). sub_r b a) (zip starts (tl starts)) = (Ok ds :: (scan_chain_error, nat list) res)"
    "sum_list ds \<le> tot" "lens = ds @ [tot - sum_list ds]"
    using assms by (auto simp: starts_to_lengths_def)
  have "length ds = length xs" if "rtraverse f xs = (Ok ds :: (scan_chain_error, nat list) res)" for f and xs :: "(nat \<times> nat) list" and ds
    using that by (induction xs arbitrary: ds) auto
  from this [OF ds(1)] show "starts \<noteq> [] \<Longrightarrow> length lens = length starts"
    using ds(3) by (cases starts) auto
  show "sum_list lens = tot" using ds(2,3) by simp
qed

lemma starts_to_lengths_places:
  assumes "starts_to_lengths starts tot = Ok lens" "starts \<noteq> []"
  shows "prefix_sums (hd starts) lens = starts"
proof -
  obtain ds where ds: "rtraverse (\<lambda>(a, b). sub_r b a) (zip starts (tl starts)) = (Ok ds :: (scan_chain_error, nat list) res)"
    "lens = ds @ [tot - sum_list ds]"
    using assms(1) by (auto simp: starts_to_lengths_def)
  show ?thesis using assms(2) ds unfolding ds(2)
  proof (induction starts arbitrary: ds lens tot)
    case (Cons x xs)
    show ?case
    proof (cases xs)
      case (Cons y ys)
      then obtain es where es: "ds = (y - x) # es" "x \<le> y"
        "rtraverse (\<lambda>(a, b). sub_r b a) (zip xs (tl xs)) = (Ok es :: (scan_chain_error, nat list) res)"
        using Cons.prems(2) by (auto simp: sub_r_eq split: if_splits)
      have "prefix_sums (hd xs) (es @ [(tot - (y - x)) - sum_list es]) = xs" using Cons.IH [of es "tot - (y - x)"] es(3) Cons by simp
      then show ?thesis using es(1,2) Cons by (simp add: diff_diff_add)
    qed (use Cons.prems in simp)
  qed simp
qed

lemma prefix_sums_eq: "prefix_sums a xs = map (\<lambda>j. a + sum_list (take j xs)) [0..<length xs]"
  by (induction xs arbitrary: a) (simp_all add: upt_conv_Cons map_Suc_upt [symmetric] comp_def add.assoc del: upt_Suc)

text \<open>Merging keeps some of the starts; those it drops are two bits behind one that it keeps.\<close>

lemma merge_twos_places:
  "set (prefix_sums a (merge_twos lens)) \<subseteq> set (prefix_sums a lens)"
  "set (prefix_sums a lens) \<subseteq> set (prefix_sums a (merge_twos lens)) \<union> (\<lambda>i. i + 2) ` set (prefix_sums a (merge_twos lens))"
proof (induction lens arbitrary: a rule: merge_twos.induct)
  case (3 x y xs)
  {
    case 1
    show ?case
    proof (cases "x = 2")
      case True
      then show ?thesis using "3.IH"(1) [OF True, of "a + x + y"] by (auto simp: add.assoc)
    next
      case False
      then show ?thesis using "3.IH"(3) [OF False, of "a + x"] by auto
    qed
  next
    case 2
    show ?case
    proof (cases "x = 2")
      case True
      then show ?thesis using "3.IH"(2) [OF True, of "a + x + y"] by (auto simp: add.assoc)
    next
      case False
      then show ?thesis using "3.IH"(4) [OF False, of "a + x"] by auto
    qed
  }
qed simp_all

lemma merge_twos_sum: "sum_list (merge_twos lens) = sum_list lens"
  by (induction lens rule: merge_twos.induct) auto

subsection \<open>The padding of a selected TAP\<close>

lemma params_from_found:
  "params_from sel i chain (p, True) =
     (if i + length chain \<le> sel \<or> sel < i
      then (p\<lparr>cp_irpost := cp_irpost p + sum_list (map sce_len chain), cp_drpost := cp_drpost p + length chain\<rparr>, True)
      else params_from sel i chain (p, True))"
proof (induction chain arbitrary: i p)
  case Nil
  then show ?case by simp
next
  case (Cons t chain)
  show ?case
    using Cons.IH [of "i + 1" "p\<lparr>cp_irpost := cp_irpost p + sce_len t, cp_drpost := cp_drpost p + 1\<rparr>"]
    by (auto simp: Let_def add.assoc)
qed

lemma params_from_before:
  "sel = i + length pre \<Longrightarrow>
   params_from sel i (pre @ chain) (p, False) =
     params_from sel sel chain (p\<lparr>cp_irpre := cp_irpre p + sum_list (map sce_len pre),
       cp_drpre := cp_drpre p + length pre\<rparr>, False)"
  by (induction pre arbitrary: i p) (auto simp: Let_def add.assoc)

lemma params_from_missing: "i + length chain \<le> sel \<Longrightarrow> snd (params_from sel i chain (p, False)) = False"
  by (induction chain arbitrary: i p) (auto simp: Let_def)

lemma from_jtag_chain_eq:
  "from_jtag_chain (pre @ tap # post) (length pre) = Some
     \<lparr>cp_index = length pre, cp_irpre = sum_list (map sce_len pre), cp_irpost = sum_list (map sce_len post),
      cp_drpre = length pre, cp_drpost = length post, cp_irlen = sce_len tap\<rparr>"
  using params_from_before [of "length pre" 0 pre "tap # post"]
    params_from_found [of "length pre" "Suc (length pre)" post]
  by (simp add: from_jtag_chain_def default_chain_params_def Let_def)

lemma from_jtag_chain_None: "length chain \<le> sel \<Longrightarrow> from_jtag_chain chain sel = None"
  using params_from_missing [of 0 chain sel "default_chain_params\<lparr>cp_index := sel\<rparr>"]
  by (auto simp: from_jtag_chain_def split: prod.splits)

subsection \<open>Properties\<close>

text \<open>Scanning the data registers of a chain after a reset finds its TAPs: each valid IDCODE is
  read back exactly, a TAP in bypass before it is reported without one, and TAPs in bypass
  after the last IDCODE are not reported at all.\<close>

theorem extract_idcodes_exact:
  assumes "\<forall>t \<in> set taps. \<forall>c. t = Some c \<longrightarrow> idcode_valid c \<and> c \<noteq> - 1" "32 \<le> n"
  shows "extract_idcodes (concat (map tap_bits taps) @ replicate n True) = Ok (identified taps)"
proof -
  have "\<forall>t \<in> set taps. tap_ok t" using assms(1) by (simp add: tap_ok_def)
  from extract_taps [OF this assms(2), of "[]" 0] show ?thesis
    by (simp add: extract_idcodes_def identified_def)
qed

theorem extract_idcodes_exact_witness:
  "extract_idcodes (concat (map tap_bits [None, Some 0x4BA00477, None]) @ replicate 40 True)
    = Ok [None, Some 0x4BA00477]"
proof -
  have "idcode_valid 0x4BA00477" "(0x4BA00477 :: idcode) \<noteq> - 1"
    by (simp_all add: idcode_valid_def id_lsbit_def id_manufacturer_def id_field_def take_bit_eq_mod
        drop_bit_eq_div)
  then have "\<forall>t \<in> set [None, Some 0x4BA00477, None]. \<forall>c. t = Some c \<longrightarrow> idcode_valid c \<and> c \<noteq> - 1"
    by simp
  from extract_idcodes_exact [OF this, of 40] show ?thesis
    by (simp add: identified_def)
qed

text \<open>The validity test of an IDCODE looks at the eleven-bit manufacturer code, not at its
  seven-bit identity: codes whose identity is one of the two reserved values are accepted.\<close>

theorem idcode_valid_accepts_reserved:
  "idcode_valid 0x1FF \<and> id_identity 0x1FF = 127 \<and> idcode_valid 0x101 \<and> id_identity 0x101 = 0"
  by (simp add: idcode_valid_def id_lsbit_def id_manufacturer_def id_identity_def id_field_def
      take_bit_eq_mod drop_bit_eq_div)

text \<open>C34. From an IR scan in which every register of length at least two captures 1, 0, 0, and so on,
  the lengths are found exactly, with or without expected lengths to compare with.\<close>

theorem extract_ir_lengths_exact:
  assumes "lens \<noteq> []" "\<forall>n \<in> set lens. 2 \<le> n"
  shows "extract_ir_lengths (ir_capture lens) (length lens) None = Ok lens
    \<and> extract_ir_lengths (ir_capture lens) (length lens) (Some lens) = Ok lens"
proof -
  have st: "ir_starts (ir_capture lens) = prefix_sums 0 lens" by (rule ir_starts_capture [OF assms(2)])
  have len: "length (ir_capture lens) = sum_list lens"
    using assms(2) by (intro length_ir_capture) auto
  have n: "length (prefix_sums a xs) = length xs" for a xs by (induction xs arbitrary: a) auto
  have hd: "prefix_sums 0 lens ! 0 = 0" using assms(1) by (cases lens) auto
  have one: "[sum_list lens] = lens" if "length lens = 1"
    using that by (cases lens) auto
  have "extract_ir_lengths (ir_capture lens) (length lens) None = Ok lens"
    using assms(1) starts_to_lengths_prefix [OF assms(1), of 0] hd one
    by (simp add: extract_ir_lengths_def st len n Let_def)
  moreover have "extract_ir_lengths (ir_capture lens) (length lens) (Some lens) = Ok lens"
    using assms(1) starts_to_lengths_prefix [OF assms(1), of 0] hd
    by (simp add: extract_ir_lengths_def st len n Let_def)
  ultimately show ?thesis by simp
qed

theorem extract_ir_lengths_exact_witness:
  "extract_ir_lengths (ir_capture [4, 5]) 2 None = Ok [4, 5]"
  using extract_ir_lengths_exact [of "[4, 5]"] by (simp add: numeral_2_eq_2)

text \<open>C35. Whatever is captured, a list of lengths that is accepted has one length for each TAP and
  accounts for every bit of the scan, and every register begins at a start pattern, a one followed by a
  zero. Expected lengths are accepted or refused as they are; without them, and with more than one TAP,
  a start pattern at which no register begins is the third bit of a register (a merged one).\<close>

theorem extract_ir_lengths_sound:
  assumes "extract_ir_lengths ir n_taps expected = Ok lens"
  defines "begins \<equiv> {sum_list (take j lens) | j. j < n_taps}"
    and "patterns \<equiv> {i. Suc i < length ir \<and> ir ! i \<and> \<not> ir ! Suc i}"
  shows "length lens = n_taps \<and> sum_list lens = length ir \<and> begins \<subseteq> patterns
    \<and> (\<forall>e. expected = Some e \<longrightarrow> lens = e)
    \<and> (expected = None \<and> n_taps \<noteq> 1 \<longrightarrow> patterns \<subseteq> begins \<union> (\<lambda>i. i + 2) ` begins)"
proof -
  let ?s = "ir_starts ir"
  have pat: "set ?s = patterns" by (auto simp: ir_starts_def patterns_def)
  have n: "length (prefix_sums a xs) = length xs" for a xs by (simp add: prefix_sums_eq)
  have beg: "begins = set (prefix_sums 0 lens)" if "length lens = n_taps"
    using that by (auto simp: begins_def prefix_sums_eq)
  have st: "length l = length s \<and> sum_list l = length ir"
    if "starts_to_lengths s (length ir) = Ok l" "s \<noteq> []" for s l
    using starts_to_lengths_sum [OF that(1)] that(2) by simp
  have pos: "0 < n_taps" "n_taps \<le> length ?s" "?s ! 0 = 0"
    using assms(1) by (auto simp: extract_ir_lengths_def Let_def split: if_splits)
  then have ne: "?s \<noteq> []" by auto
  have hd: "hd ?s = 0" using pos(3) hd_conv_nth [OF ne] by simp
  show ?thesis
  proof (cases expected)
    case (Some e)
    then have e: "length e = n_taps" "sum_list e = length ir" "starts_to_lengths (prefix_sums 0 e) (length ir) = Ok lens"
      "set (prefix_sums 0 e) \<subseteq> set ?s"
      using assms(1) by (auto simp: extract_ir_lengths_def Let_def filter_empty_conv split: if_splits)
    then have "e \<noteq> []" using pos(1) by auto
    from starts_to_lengths_prefix [OF this, of 0] e(2,3) have "lens = e" by simp
    then show ?thesis using e beg pat Some by simp
  next
    case None
    then consider "n_taps = 1" "lens = [length ir]"
      | "n_taps = length ?s" "starts_to_lengths ?s (length ir) = Ok lens"
      | l where "starts_to_lengths ?s (length ir) = Ok l" "lens = merge_twos l" "length lens = n_taps"
      using assms(1) by (auto simp: extract_ir_lengths_def Let_def split: if_splits)
    then show ?thesis
    proof cases
      case 1
      have "0 \<in> set ?s" using ne hd hd_in_set [OF ne] by simp
      then show ?thesis using 1 beg pat None by simp
    next
      case 2
      then show ?thesis using st [OF 2(2) ne] beg pat starts_to_lengths_places [OF 2(2) ne] hd None by auto
    next
      case 3
      have "prefix_sums 0 l = ?s" using starts_to_lengths_places [OF 3(1) ne] hd by simp
      then show ?thesis
        using st [OF 3(1) ne] 3(2,3) beg pat merge_twos_places [of 0 l] merge_twos_sum [of l] None by simp
    qed
  qed
qed

theorem extract_ir_lengths_sound_witness:
  "\<exists>lens. extract_ir_lengths [True, False, True, False, True, False, False, False, False] 2 None = Ok lens
     \<and> sum_list lens = 9 \<and> {sum_list (take j lens) | j. j < 2} \<subseteq> {0, 2, 4}"
proof -
  let ?ir = "[True, False, True, False, True, False, False, False, False]"
  have r: "extract_ir_lengths ?ir 2 None = Ok [4, 5]" by code_simp
  have "{i. Suc i < length ?ir \<and> ?ir ! i \<and> \<not> ?ir ! Suc i} \<subseteq> {0, 2, 4}"
    by (auto simp: less_Suc_eq)
  moreover have "{sum_list (take j [4, 5]) | j. j < 2} \<subseteq> {i. Suc i < length ?ir \<and> ?ir ! i \<and> \<not> ?ir ! Suc i}"
    using extract_ir_lengths_sound [OF r] by (elim conjE)
  ultimately have "{sum_list (take j [4, 5]) | j. j < 2} \<subseteq> {0, 2, 4 :: nat}" by (rule subset_trans [rotated])
  then show ?thesis using r by (intro exI [of _ "[4, 5]"]) simp
qed

end
