(* ===== verification/Jtag_Chain.thy ===== *)
theory Jtag_Chain
  imports Jtag_Driver Scan_Chain
begin

text \<open>
  The scan chain driver (probe-rs/src/probe/jtag/chain.rs): composition of batches with the
  padding of the selected TAP, measuring of the chain, and batches of register writes. The
  probe is a function that runs a batch; its state is beside the chain state. Operations of a
  batch get their position as identity, which is unique among the handles of a run.
\<close>

subsection \<open>State\<close>

record jtag_chain_state =
  js_tap_state :: tap_state
  js_expected :: "scan_chain_element list option"
  js_scan_chain :: "scan_chain_element list"
  js_idcodes :: "u32 option list"
  js_chain_params :: chain_params

definition default_chain_state :: jtag_chain_state where
  "default_chain_state = \<lparr>js_tap_state = TestLogicReset, js_expected = None, js_scan_chain = [],
     js_idcodes = [], js_chain_params = default_chain_params\<rparr>"

type_synonym ('p, 'a) jc = "('p \<times> jtag_chain_state, debug_probe_error, 'a) rsm"

type_synonym 'p jtag_runner =
  "(handle_id \<Rightarrow> bool) \<Rightarrow> jtag_batch \<Rightarrow> 'p \<times> jtag_chain_state \<Rightarrow>
     results batch_res \<times> 'p \<times> jtag_chain_state"

definition jc_get :: "(jtag_chain_state \<Rightarrow> 'a) \<Rightarrow> ('p, 'a) jc" where
  "jc_get f = (\<lambda>(p, c). (Ok (f c), (p, c)))"

definition jc_modify :: "(jtag_chain_state \<Rightarrow> jtag_chain_state) \<Rightarrow> ('p, unit) jc" where
  "jc_modify f = (\<lambda>(p, c). (Ok (), (p, f c)))"

subsection \<open>Composing batches\<close>

definition next_id :: "jtag_batch \<Rightarrow> handle_id" where
  "next_id b = length (commands b)"

definition enter :: "tap_state \<Rightarrow> jtag_batch \<Rightarrow> jtag_batch" where
  "enter st b = jtag_enter (next_id b) st b"

definition shift_ir :: "chain_params \<Rightarrow> bits \<Rightarrow> jtag_batch \<Rightarrow> jtag_batch" where
  "shift_ir params ir b =
     (let data = bits_extend (bits_extend (bits_repeat True (cp_irpre params)) ir)
                   (bits_repeat True (cp_irpost params));
          b = enter ShiftIr b
      in exchange_no_capture (next_id b) data b)"

definition exchange_dr ::
  "chain_params \<Rightarrow> bits \<Rightarrow> jtag_batch \<Rightarrow> (debug_probe_error, bits) handle \<times> jtag_batch" where
  "exchange_dr params dr b =
     (let drpre = cp_drpre params;
          data = bits_extend (bits_extend (bits_repeat False drpre) dr)
                   (bits_repeat False (cp_drpost params));
          b = enter ShiftDr b;
          (h, b) = jtag_exchange (next_id b) data b
      in (handle_map h (\<lambda>captured. bits_slice captured drpre (length dr)), b))"

definition run_test_idle :: "nat \<Rightarrow> jtag_batch \<Rightarrow> jtag_batch" where
  "run_test_idle cycles b =
     (let b = enter RunTestIdle b in if cycles > 0 then jtag_clock (next_id b) cycles b else b)"

definition tap_reset :: "jtag_batch \<Rightarrow> jtag_batch" where
  "tap_reset b = enter RunTestIdle (enter TestLogicReset b)"

subsection \<open>Running\<close>

fun run_error :: "batch_error \<Rightarrow> debug_probe_error" where
  "run_error (BeProbe e) = e"
| "run_error (BeSpecific n) = OtherSpecific n"

definition jc_run :: "'p jtag_runner \<Rightarrow> (handle_id \<Rightarrow> bool) \<Rightarrow> jtag_batch \<Rightarrow> ('p, results) jc" where
  "jc_run runner held b s =
     (case runner held b s of
        (Ok rs, t) \<Rightarrow> (Ok rs, t)
      | (Err e, t) \<Rightarrow> (Err (run_error (be_error e)), t)
      | (Panic, t) \<Rightarrow> (Panic, t))"

definition tap_reset_run :: "'p jtag_runner \<Rightarrow> ('p, unit) jc" where
  "tap_reset_run runner =
     sbind (jc_run runner (\<lambda>_. False) (tap_reset batch_new)) (\<lambda>_. sret ())"

definition take_sequence ::
  "results \<Rightarrow> (debug_probe_error, bits) handle \<Rightarrow> (debug_probe_error, bits) res" where
  "take_sequence rs h =
     rbind (fst (results_take rs h)) (\<lambda>r. ok_or r OtherMissingCapture)"

text \<open>A scan: exchange \<open>data\<close> in a shift state, end in Run-Test/Idle and take the capture.\<close>

definition scan_once :: "'p jtag_runner \<Rightarrow> tap_state \<Rightarrow> bits \<Rightarrow> ('p, bits) jc" where
  "scan_once runner st data =
     (let b = enter st batch_new;
          (h, b) = jtag_exchange (next_id b) data b;
          b = enter RunTestIdle b
      in sbind (jc_run runner (\<lambda>k. k = fst h) b) (\<lambda>rs. slift (take_sequence rs h)))"

definition scan_error :: "(scan_chain_error, 'a) res \<Rightarrow> (debug_probe_error, 'a) res" where
  "scan_error r = (case r of
       Ok x \<Rightarrow> Ok x
     | Err InvalidIdCode \<Rightarrow> Err OtherInvalidIdCode
     | Err InvalidIR \<Rightarrow> Err OtherInvalidIR
     | Panic \<Rightarrow> Panic)"

definition max_chain :: nat where "max_chain = 8"

definition measured_chain ::
  "(u32 \<Rightarrow> string) \<Rightarrow> idcode option list \<Rightarrow> nat list \<Rightarrow> scan_chain_element list" where
  "measured_chain show_idcode ids lens =
     map (\<lambda>(i, l). \<lparr>sce_name = map_option show_idcode i, sce_ir_len = Some (l mod 256)\<rparr>) (zip ids lens)"

definition scan_chain :: "'p jtag_runner \<Rightarrow> (u32 \<Rightarrow> string) \<Rightarrow> ('p, scan_chain_element list) jc" where
  "scan_chain runner show_idcode =
     sbind (jc_get js_scan_chain) (\<lambda>chain.
     if chain \<noteq> [] then sret chain
     else
       sbind (tap_reset_run runner) (\<lambda>_.
       sbind (jc_modify (\<lambda>c. c\<lparr>js_chain_params := default_chain_params\<rparr>)) (\<lambda>_.
       sbind (scan_once runner ShiftDr
                (bits_from_bytes (replicate (4 * max_chain) 0xff) (4 * max_chain * 8))) (\<lambda>response.
       sbind (slift (scan_error (extract_idcodes response))) (\<lambda>ids.
       let ones = replicate (length ids) 0xff in
       sbind (scan_once runner ShiftIr (bits_from_bytes ones (length ones * 8))) (\<lambda>response.
       sbind (tap_reset_run runner) (\<lambda>_.
       let zeros_then_ones = replicate (length ids) 0 @ ones in
       sbind (scan_once runner ShiftIr
                (bits_from_bytes zeros_then_ones (length zeros_then_ones * 8))) (\<lambda>response_zeros.
       let response = common_sequence response response_zeros in
       sbind (jc_get js_expected) (\<lambda>expected.
       sbind (slift (scan_error (extract_ir_lengths response (length ids)
                (map_option (List.map_filter sce_ir_len) expected)))) (\<lambda>ir_lens.
       sbind (jc_modify (\<lambda>c. c\<lparr>js_scan_chain := measured_chain show_idcode ids ir_lens,
                             js_idcodes := ids\<rparr>)) (\<lambda>_.
       jc_get js_scan_chain)))))))))))"

definition select :: "'p jtag_runner \<Rightarrow> (u32 \<Rightarrow> string) \<Rightarrow> nat \<Rightarrow> ('p, unit) jc" where
  "select runner show_idcode tap =
     sbind (jc_get js_scan_chain) (\<lambda>chain.
     sbind (if chain = [] then sbind (scan_chain runner show_idcode) (\<lambda>_. sret ()) else sret ()) (\<lambda>_.
     sbind (jc_get js_scan_chain) (\<lambda>chain.
       case from_jtag_chain chain tap of
         None \<Rightarrow> sfail TargetNotFound
       | Some params \<Rightarrow> jc_modify (\<lambda>c. c\<lparr>js_chain_params := params\<rparr>))))"

definition set_expected :: "scan_chain_element list \<Rightarrow> jtag_chain_state \<Rightarrow> jtag_chain_state" where
  "set_expected chain c = c\<lparr>js_expected := Some chain\<rparr>"

definition set_chain :: "scan_chain_element list \<Rightarrow> jtag_chain_state \<Rightarrow> jtag_chain_state" where
  "set_chain chain c = c\<lparr>js_scan_chain := chain, js_idcodes := []\<rparr>"

subsection \<open>Batches of register writes\<close>

record jtag_write_data =
  jw_address :: nat
  jw_data :: bits
  jw_idle_cycles :: nat

record shift_dr_data =
  sd_data :: bits
  sd_idle_cycles :: nat

text \<open>A command with the conversion of its response, which may fail with an error of its own.\<close>

datatype jtag_command =
    WriteRegister jtag_write_data "jtag_write_data \<Rightarrow> bits \<Rightarrow> (nat, command_result) res"
  | ShiftDrCommand shift_dr_data "shift_dr_data \<Rightarrow> bits \<Rightarrow> (nat, command_result) res"

fun convert :: "jtag_command \<Rightarrow> bits \<Rightarrow> (nat, command_result) res" where
  "convert (WriteRegister d f) response = f d response"
| "convert (ShiftDrCommand d f) response = f d response"

definition write_error :: "debug_probe_error \<Rightarrow> results \<Rightarrow> 'a batch_res" where
  "write_error e rs = Err (new_from_debug_probe e rs)"

text \<open>The first loop: the JTAG batch of the commands and the handles of those that are held.\<close>

fun compose_writes ::
  "(handle_id \<Rightarrow> bool) \<Rightarrow> chain_params \<Rightarrow> nat \<Rightarrow> (handle_id \<times> jtag_command) list \<Rightarrow>
     jtag_batch \<times> (debug_probe_error, bits) handle list \<Rightarrow>
     (jtag_batch \<times> (debug_probe_error, bits) handle list) batch_res"
where
  "compose_writes held params max_ir [] s = Ok s"
| "compose_writes held params max_ir ((k, WriteRegister w f) # cmds) (b, hs) =
     (if jw_address w > max_ir then write_error (OtherInstructionRegister (jw_address w)) results_new
      else
        let ir = bits_from_bytes (to_le 4 (of_nat (jw_address w) :: u32)) (cp_irlen params);
            b = shift_ir params ir b;
            (h, b) = exchange_dr params (jw_data w) b;
            b = run_test_idle (jw_idle_cycles w) b
        in compose_writes held params max_ir cmds (b, if held k then hs @ [h] else hs))"
| "compose_writes held params max_ir ((k, ShiftDrCommand w f) # cmds) (b, hs) =
     (let (h, b) = exchange_dr params (sd_data w) b;
          b = run_test_idle (sd_idle_cycles w) b
      in compose_writes held params max_ir cmds (b, if held k then hs @ [h] else hs))"

text \<open>The second loop: the responses of the commands, in order.\<close>

fun collect_responses ::
  "(handle_id \<Rightarrow> bool) \<Rightarrow> results \<Rightarrow> (handle_id \<times> jtag_command) list \<Rightarrow>
     (debug_probe_error, bits) handle list \<Rightarrow> results \<Rightarrow> results batch_res"
where
  "collect_responses held run_results [] hs responses = Ok responses"
| "collect_responses held run_results ((k, cmd) # cmds) hs responses =
     (if held k then
        (case hs of
           [] \<Rightarrow> write_error OtherMissingCapture responses
         | h # hs \<Rightarrow>
             (case results_take run_results h of
                (Ok None, _) \<Rightarrow> write_error OtherMissingCapture responses
              | (Ok (Some response), run_results) \<Rightarrow>
                  (case convert cmd response of
                     Ok r \<Rightarrow> collect_responses held run_results cmds hs (results_push responses k r)
                   | Err e \<Rightarrow> Err \<lparr>be_error = BeSpecific e, be_results = responses,
                                  be_fault_operation = results_len responses\<rparr>
                   | Panic \<Rightarrow> Panic)
              | (_, _) \<Rightarrow> Panic))
      else collect_responses held run_results cmds hs (results_push responses k CrNone))"

definition run_command_batch ::
  "'p jtag_runner \<Rightarrow> (handle_id \<Rightarrow> bool) \<Rightarrow> (handle_id \<times> jtag_command) list \<Rightarrow>
     'p \<times> jtag_chain_state \<Rightarrow> results batch_res \<times> 'p \<times> jtag_chain_state"
where
  "run_command_batch runner held writes s =
     (let params = js_chain_params (snd s) in
      case rbind (max_ir_address params) (\<lambda>max_ir.
             compose_writes held params max_ir writes (batch_new, [])) of
        Err e \<Rightarrow> (Err e, s)
      | Panic \<Rightarrow> (Panic, s)
      | Ok (b, hs) \<Rightarrow>
          (case jc_run runner (\<lambda>k. k \<in> set (map fst hs)) b s of
             (Err e, t) \<Rightarrow> (write_error e results_new, t)
           | (Panic, t) \<Rightarrow> (Panic, t)
           | (Ok rs, t) \<Rightarrow> (collect_responses held rs writes hs results_new, t)))"

subsection \<open>The operations of a composed batch\<close>

definition conv :: "nat \<Rightarrow> nat \<Rightarrow> nat \<Rightarrow> command_result \<Rightarrow> (debug_probe_error, bits) res" where
  "conv total_len pre len r = rbind (exchange_result total_len r) (\<lambda>captured. bits_slice captured pre len)"

lemma enter_commands:
  "commands (enter st b) = commands b @ [(length (commands b), EnterState st)]"
  "cursor (enter st b) = cursor b"
  by (simp_all add: enter_def jtag_enter_def batch_schedule_def next_id_def)

lemma shift_ir_commands:
  "commands (shift_ir p ir b) = commands b
     @ [(length (commands b), EnterState ShiftIr),
        (length (commands b) + 1,
         Exchange (replicate (cp_irpre p) True @ ir @ replicate (cp_irpost p) True) False)]"
  "cursor (shift_ir p ir b) = cursor b"
  by (simp_all add: shift_ir_def Let_def exchange_no_capture_def batch_schedule_def next_id_def
      enter_commands bits_extend_def bits_repeat_def)

lemma exchange_dr_commands:
  assumes "exchange_dr p dr b = (h, b')"
  shows "commands b' = commands b
     @ [(length (commands b), EnterState ShiftDr),
        (length (commands b) + 1,
         Exchange (replicate (cp_drpre p) False @ dr @ replicate (cp_drpost p) False) True)]"
    "cursor b' = cursor b" "fst h = length (commands b) + 1"
    "snd h = conv (cp_drpre p + length dr + cp_drpost p) (cp_drpre p) (length dr)"
  using assms
  by (auto simp: exchange_dr_def Let_def jtag_exchange_def batch_schedule_def next_id_def
      enter_commands bits_extend_def bits_repeat_def handle_map_def handle_from_id_def conv_def
      add.assoc)

text \<open>The operations of one command: an IR write for a register, the DR exchange and idle cycles.\<close>

definition padded_dr :: "chain_params \<Rightarrow> bits \<Rightarrow> bits" where
  "padded_dr p dr = replicate (cp_drpre p) False @ dr @ replicate (cp_drpost p) False"

lemma length_padded_dr [simp]: "length (padded_dr p dr) = cp_drpre p + length dr + cp_drpost p"
  by (simp add: padded_dr_def)

definition idle_ops :: "nat \<Rightarrow> jtag_op list" where
  "idle_ops n = EnterState RunTestIdle # (if n > 0 then [ClockTck n] else [])"

lemma run_test_idle_commands:
  "commands (run_test_idle n b) = commands b @ enumerate (length (commands b)) (idle_ops n)"
  "cursor (run_test_idle n b) = cursor b"
  by (simp_all add: run_test_idle_def Let_def jtag_clock_def batch_schedule_def next_id_def enter_commands idle_ops_def)

fun dr_data :: "jtag_command \<Rightarrow> bits" where
  "dr_data (WriteRegister w f) = jw_data w"
| "dr_data (ShiftDrCommand w f) = sd_data w"

fun command_ops :: "chain_params \<Rightarrow> jtag_command \<Rightarrow> jtag_op list" where
  "command_ops p (WriteRegister w f) =
     [EnterState ShiftIr,
      Exchange (replicate (cp_irpre p) True @ bits_from_bytes (to_le 4 (of_nat (jw_address w) :: u32)) (cp_irlen p)
        @ replicate (cp_irpost p) True) False,
      EnterState ShiftDr, Exchange (padded_dr p (jw_data w)) True] @ idle_ops (jw_idle_cycles w)"
| "command_ops p (ShiftDrCommand w f) =
     [EnterState ShiftDr, Exchange (padded_dr p (sd_data w)) True] @ idle_ops (sd_idle_cycles w)"

text \<open>The place of its DR exchange in them, and in the operations of a list of commands.\<close>

fun dr_offset :: "jtag_command \<Rightarrow> nat" where
  "dr_offset (WriteRegister w f) = 3"
| "dr_offset (ShiftDrCommand w f) = 1"

definition commands_ops :: "chain_params \<Rightarrow> jtag_command list \<Rightarrow> jtag_op list" where
  "commands_ops p cmds = concat (map (command_ops p) cmds)"

definition dr_place :: "chain_params \<Rightarrow> jtag_command list \<Rightarrow> nat \<Rightarrow> nat" where
  "dr_place p cmds j = length (commands_ops p (take j cmds)) + dr_offset (cmds ! j)"

lemma command_exchange:
  "dr_offset c < length (command_ops p c)" "command_ops p c ! dr_offset c = Exchange (padded_dr p (dr_data c)) True"
  by (cases c; simp)+

lemma commands_ops_simps [simp]:
  "commands_ops p [] = []" "commands_ops p (c # cmds) = command_ops p c @ commands_ops p cmds"
  by (simp_all add: commands_ops_def)

lemma dr_place_Cons [simp]:
  "dr_place p (c # cmds) 0 = dr_offset c" "dr_place p (c # cmds) (Suc j) = length (command_ops p c) + dr_place p cmds j"
  by (simp_all add: dr_place_def)

lemma dr_place_exchange:
  "j < length cmds \<Longrightarrow> dr_place p cmds j < length (commands_ops p cmds)
     \<and> commands_ops p cmds ! dr_place p cmds j = Exchange (padded_dr p (dr_data (cmds ! j))) True"
proof (induction cmds arbitrary: j)
  case (Cons c cmds)
  then show ?case using command_exchange(1) [of c p] command_exchange(2) [of p c] by (cases j) (simp_all add: nth_append)
qed simp

lemma exchange_clocks:
  assumes "plan held 0 st (enumerate 0 (commands_ops p cmds)) = (Ok (), st', steps)" "j < length cmds"
  shows "length (step_clocks (steps ! dr_place p cmds j)) = cp_drpre p + length (dr_data (cmds ! j)) + cp_drpost p"
proof -
  note ex = dr_place_exchange [OF assms(2), of p]
  then have "enumerate 0 (commands_ops p cmds) ! dr_place p cmds j
      = (dr_place p cmds j, Exchange (padded_dr p (dr_data (cmds ! j))) True)" by (simp add: enumerate_eq_zip)
  then have "step_of held (dr_place p cmds j, Exchange (padded_dr p (dr_data (cmds ! j))) True) (steps ! dr_place p cmds j)"
    using list_all2_nthD [OF plan_steps [OF assms(1)], of "dr_place p cmds j"] ex by simp
  then show ?thesis by (cases "steps ! dr_place p cmds j") auto
qed

text \<open>The handles of the commands that are held, from the identity \<open>n\<close> on.\<close>

fun handles_of ::
  "(handle_id \<Rightarrow> bool) \<Rightarrow> chain_params \<Rightarrow> nat \<Rightarrow> (handle_id \<times> jtag_command) list \<Rightarrow> (debug_probe_error, bits) handle list"
where
  "handles_of held p n [] = []"
| "handles_of held p n ((k, c) # cmds) =
     (if held k then [(n + dr_offset c, conv (length (padded_dr p (dr_data c))) (cp_drpre p) (length (dr_data c)))] else [])
     @ handles_of held p (n + length (command_ops p c)) cmds"

lemma command_composed:
  assumes "exchange_dr p (jw_data w) (shift_ir p (bits_from_bytes (to_le 4 (of_nat (jw_address w) :: u32)) (cp_irlen p)) b) = (h, b1)"
  shows "commands (run_test_idle (jw_idle_cycles w) b1) = commands b @ enumerate (length (commands b)) (command_ops p (WriteRegister w f))"
    "cursor b1 = cursor b" "fst h = length (commands b) + 3"
    "snd h = conv (length (padded_dr p (jw_data w))) (cp_drpre p) (length (jw_data w))"
  using exchange_dr_commands [OF assms]
  by (simp_all add: run_test_idle_commands shift_ir_commands padded_dr_def numeral_3_eq_3 numeral_2_eq_2 add.assoc)

lemma shift_composed:
  assumes "exchange_dr p (sd_data w) b = (h, b1)"
  shows "commands (run_test_idle (sd_idle_cycles w) b1) = commands b @ enumerate (length (commands b)) (command_ops p (ShiftDrCommand w f))"
    "cursor b1 = cursor b" "fst h = length (commands b) + 1"
    "snd h = conv (length (padded_dr p (sd_data w))) (cp_drpre p) (length (sd_data w))"
  using exchange_dr_commands [OF assms] by (simp_all add: run_test_idle_commands padded_dr_def add.assoc)

text \<open>The first loop composes just the operations of the commands, in order, and keeps the handles of those held.\<close>

lemma compose_writes_ops:
  assumes "compose_writes held p mx cmds (b, hs) = Ok (b', hs')"
  shows "commands b' = commands b @ enumerate (length (commands b)) (commands_ops p (map snd cmds))
    \<and> cursor b' = cursor b \<and> hs' = hs @ handles_of held p (length (commands b)) cmds"
  using assms
proof (induction cmds arbitrary: b hs)
  case (Cons c cmds)
  obtain k cmd where c: "c = (k, cmd)" by fastforce
  obtain h b2 where step: "commands b2 = commands b @ enumerate (length (commands b)) (command_ops p cmd)"
    "cursor b2 = cursor b" "h = (length (commands b) + dr_offset cmd,
       conv (length (padded_dr p (dr_data cmd))) (cp_drpre p) (length (dr_data cmd)))"
    "compose_writes held p mx cmds (b2, if held k then hs @ [h] else hs) = Ok (b', hs')"
  proof (cases cmd)
    case (WriteRegister w f)
    obtain h b1 where ex: "exchange_dr p (jw_data w)
        (shift_ir p (bits_from_bytes (to_le 4 (of_nat (jw_address w) :: u32)) (cp_irlen p)) b) = (h, b1)" by fastforce
    note co = command_composed [OF ex]
    show ?thesis
    proof (rule that)
      show "commands (run_test_idle (jw_idle_cycles w) b1) = commands b @ enumerate (length (commands b)) (command_ops p cmd)"
        using co(1) [of f] WriteRegister by simp
      show "cursor (run_test_idle (jw_idle_cycles w) b1) = cursor b" using co(2) by (simp add: run_test_idle_commands)
      show "h = (length (commands b) + dr_offset cmd, conv (length (padded_dr p (dr_data cmd))) (cp_drpre p) (length (dr_data cmd)))"
        using co(3,4) WriteRegister by (cases h) simp
      show "compose_writes held p mx cmds (run_test_idle (jw_idle_cycles w) b1, if held k then hs @ [h] else hs) = Ok (b', hs')"
        using Cons.prems ex by (simp add: c WriteRegister write_error_def split: if_splits)
    qed
  next
    case (ShiftDrCommand w f)
    obtain h b1 where ex: "exchange_dr p (sd_data w) b = (h, b1)" by fastforce
    note co = shift_composed [OF ex]
    show ?thesis
    proof (rule that)
      show "commands (run_test_idle (sd_idle_cycles w) b1) = commands b @ enumerate (length (commands b)) (command_ops p cmd)"
        using co(1) [of f] ShiftDrCommand by simp
      show "cursor (run_test_idle (sd_idle_cycles w) b1) = cursor b" using co(2) by (simp add: run_test_idle_commands)
      show "h = (length (commands b) + dr_offset cmd, conv (length (padded_dr p (dr_data cmd))) (cp_drpre p) (length (dr_data cmd)))"
        using co(3,4) ShiftDrCommand by (cases h) simp
      show "compose_writes held p mx cmds (run_test_idle (sd_idle_cycles w) b1, if held k then hs @ [h] else hs) = Ok (b', hs')"
        using Cons.prems ex by (simp add: c ShiftDrCommand split: if_splits)
    qed
  qed
  from Cons.IH [OF step(4)] step(1-3) show ?case by (auto simp: c enumerate_append_eq)
qed simp

lemma handles_sorted:
  "sorted_wrt (<) (map fst (handles_of held p n cmds)) \<and> (\<forall>h \<in> set (handles_of held p n cmds). n \<le> fst h)"
proof (induction held p n cmds rule: handles_of.induct)
  case (2 held p n k c cmds)
  then show ?case using command_exchange(1) [of c p] by fastforce
qed simp

lemma handles_related:
  assumes "\<And>j. j < length cmds \<Longrightarrow> held (fst (cmds ! j)) \<Longrightarrow> Q (cmds ! j) (n + dr_place p (map snd cmds) j,
      conv (length (padded_dr p (dr_data (snd (cmds ! j))))) (cp_drpre p) (length (dr_data (snd (cmds ! j)))))"
  shows "list_all2 Q (filter (\<lambda>c. held (fst c)) cmds) (handles_of held p n cmds)"
  using assms
proof (induction held p n cmds rule: handles_of.induct)
  case (2 held p n k c cmds)
  have "list_all2 Q (filter (\<lambda>c. held (fst c)) cmds) (handles_of held p (n + length (command_ops p c)) cmds)"
    by (rule "2.IH") (use "2.prems" [of "Suc j" for j] in \<open>simp add: add.assoc\<close>)
  then show ?case using "2.prems" [of 0] by simp
qed simp

lemma handle_held:
  assumes "j < length cmds" "held (fst (cmds ! j))"
  shows "n + dr_place p (map snd cmds) j \<in> fst ` set (handles_of held p n cmds)"
  using assms
proof (induction held p n cmds arbitrary: j rule: handles_of.induct)
  case (2 held p n k c cmds)
  show ?case
  proof (cases j)
    case 0
    then show ?thesis using "2.prems" by simp
  next
    case (Suc i)
    then show ?thesis using "2.IH" [of i] "2.prems" by (auto simp: add.assoc)
  qed
qed simp

lemma handles_nth:
  assumes "list_all2 (\<lambda>c h. Q c (fst h)) (filter (\<lambda>c. held (fst c)) cmds) (handles_of held p n cmds)"
    and "j < length cmds" "held (fst (cmds ! j))"
  shows "Q (cmds ! j) (n + dr_place p (map snd cmds) j)"
  using assms
proof (induction held p n cmds arbitrary: j rule: handles_of.induct)
  case (2 held p n k c cmds)
  then show ?case by (cases j) (auto simp: add.assoc split: if_splits)
qed simp

subsection \<open>Responses\<close>

lemma conv_captured:
  assumes "length bs = n" "conv n pre len (CrVecU8 (captured_bits_to_bytes bs)) = Ok response"
  shows "response = take len (drop pre bs)" "pre + len \<le> n"
  using assms captured_bits_round_trip [of bs]
  by (auto simp: conv_def exchange_result_def bits_slice_def)

definition captured_ok ::
  "chain_params \<Rightarrow> results \<Rightarrow> (handle_id \<Rightarrow> bits) \<Rightarrow> handle_id \<times> jtag_command \<Rightarrow>
     (debug_probe_error, bits) handle \<Rightarrow> bool" where
  "captured_ok p rr capt c h \<longleftrightarrow>
     length (capt (fst h)) = cp_drpre p + length (dr_data (snd c)) + cp_drpost p
     \<and> snd h = conv (length (capt (fst h))) (cp_drpre p) (length (dr_data (snd c)))
     \<and> map_of rr (fst h) = Some (CrVecU8 (captured_bits_to_bytes (capt (fst h))))"

text \<open>Each command in order gets the slice of its own capture.\<close>

lemma collect_sound:
  assumes "collect_responses held rr cmds hs acc = Ok out"
    and "list_all2 (captured_ok p rr capt) (filter (\<lambda>c. held (fst c)) cmds) hs"
    and "distinct (map fst hs)" "distinct (map fst cmds)"
  shows "(\<forall>k. k \<notin> fst ` set cmds \<longrightarrow> map_of out k = map_of acc k)
    \<and> (\<forall>(k, cmd) \<in> set cmds. \<not> held k \<longrightarrow> map_of out k = Some CrNone)
    \<and> list_all2 (\<lambda>(k, cmd) h. \<exists>r. convert cmd (take (length (dr_data cmd)) (drop (cp_drpre p) (capt (fst h)))) = Ok r
         \<and> map_of out k = Some r) (filter (\<lambda>c. held (fst c)) cmds) hs"
  using assms
proof (induction cmds arbitrary: rr hs acc)
  case Nil
  then show ?case by simp
next
  case (Cons c cmds)
  obtain k cmd where c: "c = (k, cmd)" by fastforce
  show ?case
  proof (cases "held k")
    case False
    then have run: "collect_responses held rr cmds hs (results_push acc k CrNone) = Ok out"
      using Cons.prems(1) c by simp
    have IH: "(\<forall>k'. k' \<notin> fst ` set cmds \<longrightarrow> map_of out k' = map_of (results_push acc k CrNone) k')
      \<and> (\<forall>(k, cmd) \<in> set cmds. \<not> held k \<longrightarrow> map_of out k = Some CrNone)
      \<and> list_all2 (\<lambda>(k, cmd) h. \<exists>r. convert cmd (take (length (dr_data cmd)) (drop (cp_drpre p) (capt (fst h)))) = Ok r
           \<and> map_of out k = Some r) (filter (\<lambda>c. held (fst c)) cmds) hs"
      using Cons.IH [OF run] Cons.prems False c by simp
    have "k \<notin> fst ` set cmds" using Cons.prems(4) c by simp
    then show ?thesis using IH False c by auto
  next
    case True
    then obtain h hs' where hs: "hs = h # hs'" "captured_ok p rr capt c h"
      "list_all2 (captured_ok p rr capt) (filter (\<lambda>c. held (fst c)) cmds) hs'"
      using Cons.prems(2) c by (auto simp: list_all2_Cons1)
    define bs where "bs = capt (fst h)"
    define rr' where "rr' = AList.delete (fst h) rr"
    have found: "map_of rr (fst h) = Some (CrVecU8 (captured_bits_to_bytes bs))"
      "snd h = conv (length bs) (cp_drpre p) (length (dr_data cmd))"
      using hs(2) c by (simp_all add: captured_ok_def bs_def)
    have take: "results_take rr h = (rmap Some (snd h (CrVecU8 (captured_bits_to_bytes bs))), rr')"
      using found(1) by (simp add: results_take_def rr'_def)
    obtain response r where r: "snd h (CrVecU8 (captured_bits_to_bytes bs)) = Ok response"
      "convert cmd response = Ok r"
      "collect_responses held rr' cmds hs' (results_push acc k r) = Ok out"
      using Cons.prems(1) c True hs(1) take
      by (auto simp: write_error_def split: res.splits option.splits)
    have resp: "response = take (length (dr_data cmd)) (drop (cp_drpre p) bs)"
      using conv_captured(1) [OF refl] r(1) found(2) by simp
    have d: "fst h \<notin> fst ` set hs'" "distinct (map fst hs')" using Cons.prems(3) hs(1) by auto
    have "list_all2 (captured_ok p rr' capt) (filter (\<lambda>c. held (fst c)) cmds) hs'"
      using hs(3)
    proof (rule list.rel_mono_strong)
      fix x y
      assume y: "y \<in> set hs'" "captured_ok p rr capt x y"
      then have "fst y \<noteq> fst h" using d(1) by (metis imageI)
      then show "captured_ok p rr' capt x y"
        using y(2) by (simp add: captured_ok_def rr'_def delete_conv')
    qed
    then have IH: "(\<forall>k'. k' \<notin> fst ` set cmds \<longrightarrow> map_of out k' = map_of (results_push acc k r) k')
      \<and> (\<forall>(k, cmd) \<in> set cmds. \<not> held k \<longrightarrow> map_of out k = Some CrNone)
      \<and> list_all2 (\<lambda>(k, cmd) h. \<exists>r. convert cmd (take (length (dr_data cmd)) (drop (cp_drpre p) (capt (fst h)))) = Ok r
           \<and> map_of out k = Some r) (filter (\<lambda>c. held (fst c)) cmds) hs'"
      using Cons.IH [OF r(3) _ d(2)] Cons.prems(4) c by simp
    have "k \<notin> fst ` set cmds" using Cons.prems(4) c by simp
    then show ?thesis
      using IH True c hs(1) r(2) resp by (auto simp: bs_def)
  qed
qed

subsection \<open>The contract of a probe that runs batches\<close>

text \<open>
  What the chain driver relies on: a batch that succeeds has been clocked as its operations are lowered,
  and every exchange whose handle is held has the TDO levels at its own clocks as its result.
\<close>

locale batch_runner =
  fixes runner :: "'p jtag_runner" and tdo :: "clock list \<Rightarrow> bool" and hist :: "'p \<Rightarrow> clock list"
    and rested :: "'p \<Rightarrow> bool" and ready :: "'p \<times> jtag_chain_state \<Rightarrow> bool"
  assumes run_law: "ready s \<Longrightarrow> batch_ok b \<Longrightarrow> distinct (map fst (batch_ops b)) \<Longrightarrow>
    runner held b s = (Ok rs, t) \<Longrightarrow>
    ready t \<and> rested (fst t)
    \<and> (\<exists>steps. plan held 0 (js_tap_state (snd s)) (batch_ops b) = (Ok (), js_tap_state (snd t), steps)
      \<and> hist (fst t) = hist (fst s) @ clocks (wire steps)
      \<and> (\<forall>i k data. i < length (batch_ops b) \<and> batch_ops b ! i = (k, Exchange data True) \<and> held k \<longrightarrow>
           map_of rs k = Some (CrVecU8 (captured_bits_to_bytes
             (tdo_bits tdo (hist (fst s) @ clocks (wire (take i steps))) (clocks (step_clocks (steps ! i))))))))"
begin

lemma command_batch_responses:
  assumes "ready s" "distinct (map fst writes)"
    and "run_command_batch runner held writes s = (Ok out, t)"
  defines "p \<equiv> js_chain_params (snd s)" and "cmds \<equiv> map snd writes"
  shows "ready t \<and> rested (fst t)
    \<and> (\<forall>(k, cmd) \<in> set writes. \<not> held k \<longrightarrow> map_of out k = Some CrNone)
    \<and> (\<exists>steps. plan (\<lambda>_. True) 0 (js_tap_state (snd s)) (enumerate 0 (commands_ops p cmds)) = (Ok (), js_tap_state (snd t), steps)
      \<and> hist (fst t) = hist (fst s) @ clocks (wire steps)
      \<and> (\<forall>j k cmd. j < length writes \<and> writes ! j = (k, cmd) \<and> held k \<longrightarrow>
           (\<exists>r. convert cmd (take (length (dr_data cmd)) (drop (cp_drpre p)
                (tdo_bits tdo (hist (fst s) @ clocks (wire (take (dr_place p cmds j) steps)))
                   (clocks (step_clocks (steps ! dr_place p cmds j)))))) = Ok r
              \<and> map_of out k = Some r)))"
proof -
  obtain mx b hs rs where run: "compose_writes held p mx writes (batch_new, []) = Ok (b, hs)"
    "jc_run runner (\<lambda>k. k \<in> set (map fst hs)) b s = (Ok rs, t)"
    "collect_responses held rs writes hs results_new = Ok out"
    using assms(3)
    by (auto simp: run_command_batch_def Let_def p_def write_error_def
        split: res.splits prod.splits)
  let ?ops = "enumerate 0 (commands_ops p cmds)"
  have b: "batch_ok b" "batch_ops b = ?ops" "distinct (map fst (batch_ops b))" and hs: "hs = handles_of held p 0 writes"
    using compose_writes_ops [OF run(1)] by (simp_all add: batch_new_def batch_ok_def batch_ops_def cmds_def enumerate_eq_zip)
  have "runner (\<lambda>k. k \<in> set (map fst hs)) b s = (Ok rs, t)"
    using run(2) by (auto simp: jc_run_def split: prod.splits res.splits)
  from run_law [OF assms(1) b(1,3) this] obtain steps0 where t: "ready t" "rested (fst t)"
    and steps0: "plan (\<lambda>k. k \<in> set (map fst hs)) 0 (js_tap_state (snd s)) ?ops = (Ok (), js_tap_state (snd t), steps0)"
      "hist (fst t) = hist (fst s) @ clocks (wire steps0)"
    and capt0: "\<And>i k data. i < length ?ops \<Longrightarrow> ?ops ! i = (k, Exchange data True) \<Longrightarrow> k \<in> set (map fst hs) \<Longrightarrow>
      map_of rs k = Some (CrVecU8 (captured_bits_to_bytes
        (tdo_bits tdo (hist (fst s) @ clocks (wire (take i steps0))) (clocks (step_clocks (steps0 ! i))))))"
    unfolding b(2) by blast
  obtain steps where steps: "plan (\<lambda>_. True) 0 (js_tap_state (snd s)) ?ops = (Ok (), js_tap_state (snd t), steps)"
    "map step_levels steps = map step_levels steps0"
    using plan_levels [OF steps0(1)] by blast
  define capt where "capt i = tdo_bits tdo (hist (fst s) @ clocks (wire (take i steps))) (clocks (step_clocks (steps ! i)))" for i
  have len: "length steps = length (commands_ops p cmds)" using list_all2_lengthD [OF plan_steps [OF steps(1)]] by simp
  have levels: "clocks (wire steps0) = clocks (wire steps)" "clocks (wire (take i steps0)) = clocks (wire (take i steps))" for i
    using steps(2) by (simp_all add: clocks_wire take_map [symmetric])
  have levels_nth: "clocks (step_clocks (steps0 ! i)) = clocks (step_clocks (steps ! i))" if "i < length steps" for i
    using that steps(2) map_eq_imp_length_eq [OF steps(2)] nth_map [of i steps step_levels] nth_map [of i steps0 step_levels]
    by (simp add: step_levels_def)
  have "captured_ok p rs capt (writes ! j) (0 + dr_place p (map snd writes) j,
      conv (length (padded_dr p (dr_data (snd (writes ! j))))) (cp_drpre p) (length (dr_data (snd (writes ! j)))))"
    if j: "j < length writes" "held (fst (writes ! j))" for j
  proof -
    let ?i = "dr_place p cmds j"
    have ex: "?i < length (commands_ops p cmds)" "commands_ops p cmds ! ?i = Exchange (padded_dr p (dr_data (snd (writes ! j)))) True"
      using dr_place_exchange [of j cmds p] j(1) by (simp_all add: cmds_def)
    then have op: "?ops ! ?i = (?i, Exchange (padded_dr p (dr_data (snd (writes ! j)))) True)" by (simp add: enumerate_eq_zip)
    have "step_of (\<lambda>_. True) (?ops ! ?i) (steps ! ?i)"
      using list_all2_nthD [OF plan_steps [OF steps(1)]] ex(1) by simp
    then obtain leave where "steps ! ?i = StepShift (padded_dr p (dr_data (snd (writes ! j)))) leave True"
      unfolding op by (cases "steps ! ?i") auto
    then have l: "length (capt ?i) = length (padded_dr p (dr_data (snd (writes ! j))))" by (simp add: capt_def)
    have "?i \<in> set (map fst hs)" unfolding hs cmds_def using handle_held [where j = j and cmds = writes and held = held and n = 0 and p = p] j by simp
    from capt0 [OF _ op this] ex(1) have "map_of rs ?i = Some (CrVecU8 (captured_bits_to_bytes (capt ?i)))"
      using levels levels_nth [of ?i] len by (simp add: capt_def)
    then show ?thesis using l by (simp add: captured_ok_def cmds_def)
  qed
  then have cap: "list_all2 (captured_ok p rs capt) (filter (\<lambda>c. held (fst c)) writes) hs"
    unfolding hs by (rule handles_related)
  have dist: "distinct (map fst hs)" using handles_sorted [of held p 0 writes] unfolding hs by (simp add: strict_sorted_iff)
  note sound = collect_sound [OF run(3) cap dist assms(2)]
  let ?Q = "\<lambda>(k, cmd) i. \<exists>r. convert cmd (take (length (dr_data cmd)) (drop (cp_drpre p) (capt i))) = Ok r \<and> map_of out k = Some r"
  have res: "list_all2 (\<lambda>c h. ?Q c (fst h)) (filter (\<lambda>c. held (fst c)) writes) (handles_of held p 0 writes)"
    using sound unfolding hs by (auto elim!: list_all2_mono)
  have "?Q (writes ! j) (0 + dr_place p (map snd writes) j)" if "j < length writes" "held (fst (writes ! j))" for j
    using handles_nth [OF res that] .
  then have "\<exists>r. convert cmd (take (length (dr_data cmd)) (drop (cp_drpre p) (capt (dr_place p cmds j)))) = Ok r \<and> map_of out k = Some r"
    if "j < length writes \<and> writes ! j = (k, cmd) \<and> held k" for j k cmd
    using that by (fastforce simp: cmds_def)
  then show ?thesis
    using t sound steps(1) steps0(2) levels(1) unfolding capt_def by auto
qed

end

subsection \<open>Properties\<close>

text \<open>The registers of a chain after \<open>data\<close> has been shifted through it: one piece for each TAP.\<close>

fun pieces :: "nat list \<Rightarrow> bits \<Rightarrow> bits list" where
  "pieces [] data = []"
| "pieces (n # ns) data = take n data # pieces ns (drop n data)"

lemma pieces_append: "pieces (ms @ ns) data = pieces ms data @ pieces ns (drop (sum_list ms) data)"
  by (induction ms data rule: pieces.induct) (auto simp: add.commute)

lemma pieces_repeat: "pieces ms (replicate (sum_list ms) b @ rest) = map (\<lambda>n. replicate n b) ms"
proof (induction ms)
  case (Cons m ms)
  have "replicate (m + sum_list ms) b @ rest = replicate m b @ replicate (sum_list ms) b @ rest"
    by (simp add: replicate_add)
  then show ?case using Cons by simp
qed simp

text \<open>C33. The padding of a selected TAP addresses that TAP alone: an IR write puts the instruction
  into its register and all ones (BYPASS) into every other one, a DR exchange puts the data
  into its register and one zero bit into the bypass register of every other one, and no TAP
  is selected just when the index is outside the chain.\<close>

theorem select_addresses_one_tap:
  assumes "chain = pre @ tap # post" "length ir = sce_len tap"
  shows "\<exists>p ir_data dr_data. from_jtag_chain chain (length pre) = Some p
    \<and> commands (shift_ir p ir b) = commands b
        @ [(length (commands b), EnterState ShiftIr), (length (commands b) + 1, Exchange ir_data False)]
    \<and> pieces (map sce_len chain) ir_data
        = map (\<lambda>t. replicate (sce_len t) True) pre @ [ir] @ map (\<lambda>t. replicate (sce_len t) True) post
    \<and> commands (snd (exchange_dr p dr b)) = commands b
        @ [(length (commands b), EnterState ShiftDr), (length (commands b) + 1, Exchange dr_data True)]
    \<and> pieces (map (\<lambda>_. 1) pre @ [length dr] @ map (\<lambda>_. 1) post) dr_data
        = map (\<lambda>_. [False]) pre @ [dr] @ map (\<lambda>_. [False]) post
    \<and> from_jtag_chain chain (length chain) = None"
proof -
  define p where "p = \<lparr>cp_index = length pre, cp_irpre = sum_list (map sce_len pre),
      cp_irpost = sum_list (map sce_len post), cp_drpre = length pre, cp_drpost = length post,
      cp_irlen = sce_len tap\<rparr>"
  have sel: "from_jtag_chain chain (length pre) = Some p" "from_jtag_chain chain (length chain) = None"
    using from_jtag_chain_eq [of pre tap post] from_jtag_chain_None [of chain "length chain"]
    by (simp_all add: p_def assms(1))
  have ir: "pieces (map sce_len chain) (replicate (cp_irpre p) True @ ir @ replicate (cp_irpost p) True)
      = map (\<lambda>t. replicate (sce_len t) True) pre @ [ir] @ map (\<lambda>t. replicate (sce_len t) True) post"
    using pieces_repeat [of "map sce_len pre" True] pieces_repeat [of "map sce_len post" True "[]"]
    by (simp add: assms pieces_append p_def comp_def)
  have "sum_list (map (\<lambda>_. 1) xs) = length xs" for xs :: "scan_chain_element list"
    by (induction xs) auto
  then have dr: "pieces (map (\<lambda>_. 1) pre @ [length dr] @ map (\<lambda>_. 1) post)
      (replicate (cp_drpre p) False @ dr @ replicate (cp_drpost p) False)
      = map (\<lambda>_. [False]) pre @ [dr] @ map (\<lambda>_. [False]) post"
    using pieces_repeat [of "map (\<lambda>_. 1) pre" False] pieces_repeat [of "map (\<lambda>_. 1) post" False "[]"]
    by (simp add: pieces_append p_def comp_def)
  have "commands (snd (exchange_dr p dr b)) = commands b
      @ [(length (commands b), EnterState ShiftDr), (length (commands b) + 1,
          Exchange (replicate (cp_drpre p) False @ dr @ replicate (cp_drpost p) False) True)]"
    by (rule exchange_dr_commands(1) [of p dr b "fst (exchange_dr p dr b)"]) simp
  from sel(1) shift_ir_commands(1) ir this dr sel(2) show ?thesis
    by (intro exI conjI)
qed

theorem select_addresses_one_tap_witness:
  "\<exists>p. from_jtag_chain ([\<lparr>sce_name = None, sce_ir_len = Some 5\<rparr>] @ \<lparr>sce_name = None, sce_ir_len = None\<rparr> # [])
     (length [\<lparr>sce_name = None, sce_ir_len = Some (5::nat)\<rparr>]) = Some p"
proof -
  have "length [True, False, True, False] = sce_len \<lparr>sce_name = None, sce_ir_len = None\<rparr>"
    by (simp add: sce_len_def)
  from select_addresses_one_tap [OF refl this, of "[\<lparr>sce_name = None, sce_ir_len = Some 5\<rparr>]" "[]" batch_new "[]"]
  show ?thesis
    by (elim exE conjE) (rule exI)
qed

end
