(* ===== verification/Jtag_Xvc.thy ===== *)
theory Jtag_Xvc
  imports Jtag_Driver
begin

text \<open>
  The XVC probe (probe-rs/src/probe/xvc/protocol.rs and mod.rs), a bit-banging JTAG driver that
  buffers bits and sends them to a server over TCP. The server is not part of the repository:
  it is a function from the requests so far to the reply, or \<open>None\<close> for an input or output
  error; its documented behaviour is the assumption of \<open>xvc_server\<close>.
\<close>

subsection \<open>The device\<close>

record xvc_device =
  xd_stream :: "u8 list list"
  xd_max_shift_bits :: nat
  xd_speed_khz :: nat
  xd_tms :: bits
  xd_tdi :: bits
  xd_capture :: bits
  xd_response :: bits

type_synonym xvc_peer = "u8 list list \<Rightarrow> u8 list option"

definition min_shift_bits :: nat where "min_shift_bits = 64"

definition max_shift_bits :: nat where "max_shift_bits = 64 * 1024 * 8"

definition saturating_mul64 :: "nat \<Rightarrow> nat \<Rightarrow> nat" where
  "saturating_mul64 a b = min (a * b) (2 ^ 64 - 1)"

text \<open>The buffer size that \<open>handshake\<close> returns for the number of bytes in the reply.\<close>

definition handshake_limit :: "nat \<Rightarrow> nat" where
  "handshake_limit max_bytes =
     max min_shift_bits (min max_shift_bits (saturating_mul64 max_bytes 8))"

definition xvc_device_new :: "nat \<Rightarrow> xvc_device" where
  "xvc_device_new limit = \<lparr>xd_stream = [], xd_max_shift_bits = limit, xd_speed_khz = 1000,
     xd_tms = [], xd_tdi = [], xd_capture = [], xd_response = []\<rparr>"

definition set_speed_khz :: "nat \<Rightarrow> xvc_device \<Rightarrow> nat \<times> xvc_device" where
  "set_speed_khz khz self = (khz, self\<lparr>xd_speed_khz := khz\<rparr>)"

text \<open>The bytes of \<open>shift:\<close> in ASCII.\<close>

definition shift_command :: "u8 list" where
  "shift_command = [0x73, 0x68, 0x69, 0x66, 0x74, 0x3a]"

definition xvc_request :: "bits \<Rightarrow> bits \<Rightarrow> u8 list" where
  "xvc_request tms tdi =
     shift_command @ to_le 4 (of_nat (length tms) :: u32)
     @ captured_bits_to_bytes tms @ captured_bits_to_bytes tdi"

text \<open>The captured ones of the reply bits: the loop over the indices.\<close>

definition captured_response :: "bits \<Rightarrow> bits \<Rightarrow> bits" where
  "captured_response levels capture =
     map (\<lambda>i. levels ! i) (filter (\<lambda>i. capture ! i) [0..<length capture])"

definition xvc_flush :: "xvc_peer \<Rightarrow> (xvc_device, debug_probe_error, unit) rsm" where
  "xvc_flush peer self =
     (let num_bits = length (xd_tms self) in
      if num_bits = 0 then (Ok (), self)
      else
        let request = xvc_request (xd_tms self) (xd_tdi self);
            stream = xd_stream self @ [request]
        in case peer stream of
             None \<Rightarrow> (Err (ProbeSpecific 0), self\<lparr>xd_stream := stream\<rparr>)
           | Some tdo \<Rightarrow>
               (Ok (), self\<lparr>xd_stream := stream, xd_tms := [], xd_tdi := [], xd_capture := [],
                  xd_response := xd_response self
                    @ captured_response (bits_from_bytes tdo num_bits) (xd_capture self)\<rparr>))"

definition shift_bit ::
  "xvc_peer \<Rightarrow> bool \<Rightarrow> bool \<Rightarrow> bool \<Rightarrow> (xvc_device, debug_probe_error, unit) rsm" where
  "shift_bit peer tms tdi capture =
     sbind (\<lambda>self. if xd_max_shift_bits self \<le> length (xd_tms self) then xvc_flush peer self
                   else (Ok (), self))
       (\<lambda>_ self. (Ok (), self\<lparr>xd_tms := xd_tms self @ [tms], xd_tdi := xd_tdi self @ [tdi],
                     xd_capture := xd_capture self @ [capture]\<rparr>))"

definition read_captured_bits :: "xvc_peer \<Rightarrow> (xvc_device, debug_probe_error, bits) rsm" where
  "read_captured_bits peer =
     sbind (xvc_flush peer) (\<lambda>_ self. (Ok (xd_response self), self\<lparr>xd_response := []\<rparr>))"

text \<open>\<open>impl BitbangJtag for XvcProbe\<close>: \<open>flush\<close> does nothing.\<close>

definition xvc_driver :: "xvc_peer \<Rightarrow> xvc_device bitbang_jtag" where
  "xvc_driver peer = \<lparr>bb_shift = shift_bit peer, bb_flush = sret (), bb_captured = read_captured_bits peer\<rparr>"

subsection \<open>The server\<close>

text \<open>What a server reads from a request: the bit count, and as many TMS and TDI bits.\<close>

definition xvc_parse :: "u8 list \<Rightarrow> clock list" where
  "xvc_parse req =
     (let n = unat (from_le (take 4 (drop 6 req)) :: u32);
          m = div_ceil n 8
      in zip (bits_from_bytes (take m (drop 10 req)) n) (bits_from_bytes (take m (drop (10 + m) req)) n))"

lemma length_pack_bits: "n < 8 \<Longrightarrow> length (pack_bits bs byte n) = div_ceil (length bs + n) 8"
proof (induction bs byte n rule: pack_bits.induct)
  case (1 byte n)
  then show ?case by (simp add: div_ceil_def)
next
  case (2 b bs byte n)
  show ?case
  proof (cases "n + 1 = 8")
    case True
    have "div_ceil (length (b # bs) + n) 8 = Suc (div_ceil (length bs) 8)"
      using True by (simp add: div_ceil_def)
    then show ?thesis using 2(1) [OF refl True] True by (simp add: Let_def)
  next
    case False
    then show ?thesis using 2(2) [OF refl False] 2(3) by (simp add: Let_def)
  qed
qed

lemma length_captured_bytes: "length (captured_bits_to_bytes bs) = div_ceil (length bs) 8"
  using length_pack_bits [of 0 bs 0] by (simp add: captured_bits_to_bytes_def)

lemma xvc_parse_request:
  assumes "length tms < 2 ^ 32" "length tdi = length tms"
  shows "xvc_parse (xvc_request tms tdi) = zip tms tdi"
proof -
  define m where "m = div_ceil (length tms) 8"
  define a where "a = captured_bits_to_bytes tms"
  define b where "b = captured_bits_to_bytes tdi"
  define c where "c = to_le 4 (of_nat (length tms) :: u32)"
  have len: "length a = m" "length b = m" "length c = 4" "length shift_command = 6"
    using assms(2) by (simp_all add: a_def b_def c_def m_def length_captured_bytes shift_command_def)
  have req: "xvc_request tms tdi = shift_command @ c @ a @ b"
    by (simp add: xvc_request_def a_def b_def c_def)
  have "take 4 (drop 6 (xvc_request tms tdi)) = c"
    "take m (drop 10 (xvc_request tms tdi)) = a"
    "take m (drop (10 + m) (xvc_request tms tdi)) = b"
    using len unfolding req by simp_all
  moreover have "unat (from_le c :: u32) = length tms"
    using assms(1) unfolding c_def from_le_32 by (simp add: unat_of_nat)
  moreover have "bits_from_bytes a (length tms) = tms" "bits_from_bytes b (length tms) = tdi"
    using captured_bits_round_trip [of tms] captured_bits_round_trip [of tdi] assms(2)
    by (simp_all add: a_def b_def)
  ultimately show ?thesis
    by (simp add: xvc_parse_def Let_def m_def [symmetric])
qed

text \<open>The requests of a stream as one history of clocks, those of the server.\<close>

definition stream_clocks :: "u8 list list \<Rightarrow> clock list" where
  "stream_clocks reqs = concat (map xvc_parse reqs)"

text \<open>
  The documented behaviour of a server: the reply to a shift request has one bit for each
  clock, the TDO level at that clock, and the clocks of earlier requests came before.
\<close>

locale xvc_server =
  fixes peer :: xvc_peer and tdo :: "clock list \<Rightarrow> bool"
  assumes reply: "peer (reqs @ [req]) = Some bytes \<Longrightarrow>
    bits_from_bytes bytes (length (xvc_parse req)) = tdo_bits tdo (stream_clocks reqs) (xvc_parse req)"

text \<open>The clocks that the probe has taken over: those sent and those in the buffer.\<close>

definition xvc_hist :: "xvc_device \<Rightarrow> clock list" where
  "xvc_hist p = stream_clocks (xd_stream p) @ zip (xd_tms p) (xd_tdi p)"

text \<open>Nothing is left in the buffer: the server has all clocks.\<close>

definition xvc_sent :: "xvc_device \<Rightarrow> bool" where
  "xvc_sent p \<longleftrightarrow> xd_tms p = []"

lemma xvc_sent_hist: "xvc_sent p \<Longrightarrow> xvc_hist p = stream_clocks (xd_stream p)"
  by (simp add: xvc_sent_def xvc_hist_def)

definition xvc_due :: "(clock list \<Rightarrow> bool) \<Rightarrow> xvc_device \<Rightarrow> bits" where
  "xvc_due tdo p = xd_response p
     @ captured_response (tdo_bits tdo (stream_clocks (xd_stream p)) (zip (xd_tms p) (xd_tdi p))) (xd_capture p)"

definition xvc_ok :: "xvc_device \<Rightarrow> bool" where
  "xvc_ok p \<longleftrightarrow> length (xd_tdi p) = length (xd_tms p) \<and> length (xd_capture p) = length (xd_tms p)
     \<and> length (xd_tms p) \<le> xd_max_shift_bits p
     \<and> 0 < xd_max_shift_bits p \<and> xd_max_shift_bits p < 2 ^ 32"

lemma captured_response_simps [simp]: "captured_response bs [] = []"
  by (simp add: captured_response_def)

lemma captured_response_snoc:
  assumes "length bs = length cs"
  shows "captured_response (bs @ [b]) (cs @ [c]) = captured_response bs cs @ (if c then [b] else [])"
proof -
  have "filter (\<lambda>i. (cs @ [c]) ! i) [0..<length (cs @ [c])]
      = filter (\<lambda>i. cs ! i) [0..<length cs] @ (if c then [length cs] else [])"
    by (auto simp: nth_append intro!: filter_cong)
  then show ?thesis
    using assms by (auto simp: captured_response_def nth_append intro!: map_cong)
qed

lemma xvc_new_ok: "xvc_ok (xvc_device_new (handshake_limit n))"
  by (auto simp: xvc_ok_def xvc_device_new_def handshake_limit_def min_shift_bits_def
      max_shift_bits_def less_max_iff_disj min_def)

lemma flush_law_xvc:
  assumes "xvc_server peer tdo" "xvc_ok p" "xvc_flush peer p = (Ok u, p')"
  shows "xvc_ok p' \<and> xd_tms p' = [] \<and> xd_tdi p' = [] \<and> xd_capture p' = []
    \<and> xd_max_shift_bits p' = xd_max_shift_bits p
    \<and> xvc_hist p' = xvc_hist p \<and> xvc_due tdo p' = xvc_due tdo p"
proof (cases "xd_tms p = []")
  case True
  then show ?thesis using assms(2,3) by (auto simp: xvc_flush_def xvc_ok_def)
next
  case False
  let ?tms = "xd_tms p" and ?tdi = "xd_tdi p"
  define req where "req = xvc_request ?tms ?tdi"
  obtain bytes where b: "peer (xd_stream p @ [req]) = Some bytes"
    and p': "p' = p\<lparr>xd_stream := xd_stream p @ [req], xd_tms := [], xd_tdi := [], xd_capture := [],
        xd_response := xd_response p
          @ captured_response (bits_from_bytes bytes (length ?tms)) (xd_capture p)\<rparr>"
    using assms(3) False by (auto simp: xvc_flush_def Let_def req_def split: option.splits)
  have parse: "xvc_parse req = zip ?tms ?tdi" and len: "length (zip ?tms ?tdi) = length ?tms"
    using assms(2) xvc_parse_request [of ?tms ?tdi] by (simp_all add: req_def xvc_ok_def)
  have "bits_from_bytes bytes (length ?tms) = tdo_bits tdo (stream_clocks (xd_stream p)) (zip ?tms ?tdi)"
    using xvc_server.reply [OF assms(1) b] len unfolding parse by simp
  then have "xvc_due tdo p' = xvc_due tdo p"
    unfolding p' by (simp add: xvc_due_def)
  moreover have "xvc_hist p' = xvc_hist p"
    unfolding p' by (simp add: xvc_hist_def stream_clocks_def parse)
  moreover have "xvc_ok p'" using assms(2) unfolding p' by (simp add: xvc_ok_def)
  ultimately show ?thesis unfolding p' by simp
qed

lemma shift_law_xvc:
  assumes "xvc_server peer tdo" "xvc_ok p" "shift_bit peer tms tdi cap p = (Ok u, p')"
  shows "xvc_ok p' \<and> xvc_hist p' = xvc_hist p @ [(tms, tdi)]
    \<and> xvc_due tdo p' = xvc_due tdo p @ (if cap then [tdo (xvc_hist p @ [(tms, tdi)])] else [])"
proof -
  obtain q where q: "p' = q\<lparr>xd_tms := xd_tms q @ [tms], xd_tdi := xd_tdi q @ [tdi],
      xd_capture := xd_capture q @ [cap]\<rparr>"
    "xvc_ok q" "length (xd_tms q) < xd_max_shift_bits q" "xvc_hist q = xvc_hist p"
    "xvc_due tdo q = xvc_due tdo p"
  proof (cases "xd_max_shift_bits p \<le> length (xd_tms p)")
    case True
    then obtain v r where r: "xvc_flush peer p = (Ok v, r)"
      "p' = r\<lparr>xd_tms := xd_tms r @ [tms], xd_tdi := xd_tdi r @ [tdi], xd_capture := xd_capture r @ [cap]\<rparr>"
      using assms(3) by (auto simp: shift_bit_def)
    from flush_law_xvc [OF assms(1,2) r(1)] show ?thesis
      by (intro that [OF r(2)]) (auto simp: xvc_ok_def)
  next
    case False
    then show ?thesis using assms(2,3) by (intro that [of p]) (auto simp: shift_bit_def)
  qed
  have len: "length (xd_tdi q) = length (xd_tms q)" "length (xd_capture q) = length (xd_tms q)"
    using q(2) by (simp_all add: xvc_ok_def)
  have zip: "zip (xd_tms p') (xd_tdi p') = zip (xd_tms q) (xd_tdi q) @ [(tms, tdi)]"
    using len unfolding q(1) by simp
  then have hist: "xvc_hist p' = xvc_hist q @ [(tms, tdi)]"
    unfolding xvc_hist_def by (simp add: q(1))
  have "xvc_due tdo p' = xvc_due tdo q @ (if cap then [tdo (xvc_hist q @ [(tms, tdi)])] else [])"
    unfolding xvc_due_def zip using len
    by (simp add: q(1) tdo_bits_append captured_response_snoc xvc_hist_def)
  then show ?thesis using hist q(2-5) by (simp add: q(1) xvc_ok_def)
qed

lemma captured_law_xvc:
  assumes "xvc_server peer tdo" "xvc_ok p" "read_captured_bits peer p = (Ok bs, p')"
  shows "xvc_ok p' \<and> bs = xvc_due tdo p \<and> xvc_hist p' = xvc_hist p \<and> xvc_due tdo p' = [] \<and> xvc_sent p'"
proof -
  obtain v q where q: "xvc_flush peer p = (Ok v, q)" "bs = xd_response q" "p' = q\<lparr>xd_response := []\<rparr>"
    using assms(3) by (auto simp: read_captured_bits_def)
  from flush_law_xvc [OF assms(1,2) q(1)] show ?thesis
    unfolding q(2,3) by (auto simp: xvc_due_def xvc_hist_def xvc_ok_def xvc_sent_def)
qed

text \<open>A server with the documented behaviour makes the probe a driver that keeps the contract.\<close>

sublocale xvc_server \<subseteq> bitbang_driver "xvc_driver peer" tdo xvc_hist "xvc_due tdo" xvc_ok xvc_sent
proof unfold_locales
  note s = xvc_server_axioms
  show "xvc_ok p' \<and> xvc_hist p' = xvc_hist p @ [(tms, tdi)]
      \<and> xvc_due tdo p' = xvc_due tdo p @ (if cap then [tdo (xvc_hist p @ [(tms, tdi)])] else [])"
    if "xvc_ok p" "bb_shift (xvc_driver peer) tms tdi cap p = (Ok u, p')" for p tms tdi cap u p'
    using shift_law_xvc [OF s that(1)] that(2) by (simp add: xvc_driver_def)
  show "xvc_ok p' \<and> xvc_hist p' = xvc_hist p \<and> xvc_due tdo p' = xvc_due tdo p"
    if "xvc_ok p" "bb_flush (xvc_driver peer) p = (Ok u, p')" for p u p'
    using that by (simp add: xvc_driver_def)
  show "xvc_ok p' \<and> bs = xvc_due tdo p \<and> xvc_hist p' = xvc_hist p \<and> xvc_due tdo p' = [] \<and> xvc_sent p'"
    if "xvc_ok p" "bb_captured (xvc_driver peer) p = (Ok bs, p')" for p bs p'
    using captured_law_xvc [OF s that(1)] that(2) by (simp add: xvc_driver_def)
qed

context xvc_server
begin

lemmas batch_results = run_batch_results

end

text \<open>A server with the documented behaviour, which may fail at any request.\<close>

definition doc_server :: "(clock list \<Rightarrow> bool) \<Rightarrow> (nat \<Rightarrow> bool) \<Rightarrow> xvc_peer" where
  "doc_server tdo up reqs =
     (if up (length reqs)
      then Some (captured_bits_to_bytes
             (tdo_bits tdo (stream_clocks (butlast reqs)) (xvc_parse (last reqs))))
      else None)"

interpretation doc: xvc_server "doc_server tdo up" tdo for tdo up
proof unfold_locales
  fix reqs req bytes
  assume "doc_server tdo up (reqs @ [req]) = Some bytes"
  then have "bytes = captured_bits_to_bytes (tdo_bits tdo (stream_clocks reqs) (xvc_parse req))"
    by (simp add: doc_server_def split: if_splits)
  then show "bits_from_bytes bytes (length (xvc_parse req)) = tdo_bits tdo (stream_clocks reqs) (xvc_parse req)"
    using captured_bits_round_trip [of "tdo_bits tdo (stream_clocks reqs) (xvc_parse req)"] by simp
qed

text \<open>A server that answers every request makes the probe a driver that never fails.\<close>

locale answering_server = xvc_server +
  assumes answers: "\<exists>bytes. peer (reqs @ [req]) = Some bytes"
begin

lemma flush_answers: "\<exists>p'. xvc_flush peer p = (Ok (), p')"
  using answers [of "xd_stream p" "xvc_request (xd_tms p) (xd_tdi p)"] by (auto simp: xvc_flush_def Let_def)

end

sublocale answering_server \<subseteq> reliable_driver "xvc_driver peer" tdo xvc_hist "xvc_due tdo" xvc_ok xvc_sent
proof unfold_locales
  fix p :: xvc_device and tms tdi cap
  show "\<exists>p'. bb_shift (xvc_driver peer) tms tdi cap p = (Ok (), p')"
    using flush_answers [of p] by (auto simp: xvc_driver_def shift_bit_def sbind_def)
  show "\<exists>p'. bb_flush (xvc_driver peer) p = (Ok (), p')"
    by (simp add: xvc_driver_def)
  show "\<exists>bs p'. bb_captured (xvc_driver peer) p = (Ok bs, p')"
    using flush_answers [of p] by (auto simp: xvc_driver_def read_captured_bits_def sbind_def)
qed

context answering_server
begin

lemmas batch_succeeds = run_batch_succeeds

end

interpretation live: answering_server "doc_server tdo (\<lambda>_. True)" tdo for tdo
  by unfold_locales (simp add: doc_server_def)

subsection \<open>Properties\<close>

text \<open>C16. A JTAG batch on an XVC probe, over a server that answers as documented: if the batch
  succeeds, nothing is left in the buffer of the probe, the requests that the server has received hold
  the clocks of the lowered steps after those that were taken over before and no others, and every
  exchange whose handle is held has as its result the TDO levels at its own clocks, whatever buffer
  size the bits were split by.\<close>

theorem xvc_batch_reads_tdo:
  assumes "\<And>reqs req bytes. peer (reqs @ [req]) = Some bytes \<Longrightarrow>
      bits_from_bytes bytes (length (xvc_parse req)) = tdo_bits tdo (stream_clocks reqs) (xvc_parse req)"
    and "run_bitbang_batch (xvc_driver peer) held b (st, p) = (Ok rs, st', p')"
    and "xvc_ok p" "xvc_due tdo p = []" "batch_ok b" "distinct (map fst (batch_ops b))"
  defines "before \<equiv> stream_clocks (xd_stream p) @ zip (xd_tms p) (xd_tdi p)"
  shows "\<exists>steps. walk_ops held record_step 0 (batch_ops b) (st, []) = (Ok (), st', steps)
    \<and> xd_tms p' = [] \<and> stream_clocks (xd_stream p') = before @ clocks (wire steps)
    \<and> (\<forall>i k data. i < length (batch_ops b) \<and> batch_ops b ! i = (k, Exchange data True) \<and> held k \<longrightarrow>
         map_of rs k = Some (CrVecU8 (captured_bits_to_bytes
           (tdo_bits tdo (before @ clocks (wire (take i steps))) (clocks (step_clocks (steps ! i)))))))"
proof -
  have "xvc_server peer tdo" using assms(1) by unfold_locales
  note res = xvc_server.batch_results [OF this assms(2-6)]
  have before: "before = xvc_hist p" by (simp add: before_def xvc_hist_def)
  show ?thesis using res xvc_sent_hist [of p'] unfolding plan_def before by (fastforce simp: xvc_sent_def)
qed

definition demo_tdo :: "clock list \<Rightarrow> bool" where
  "demo_tdo h \<longleftrightarrow> length h = 1"

definition demo_device :: xvc_device where
  "demo_device = xvc_device_new (handshake_limit 128)"

definition demo_jtag_batch :: jtag_batch where
  "demo_jtag_batch = \<lparr>commands = [(7, Exchange [True, False] True), (8, EnterState RunTestIdle)], cursor = 0\<rparr>"

lemma demo_xvc:
  "xvc_ok demo_device" "xvc_due demo_tdo demo_device = []" "batch_ok demo_jtag_batch"
  "distinct (map fst (batch_ops demo_jtag_batch))"
  "ends_in ShiftDr (batch_ops demo_jtag_batch) = Some RunTestIdle"
  using xvc_new_ok [of 128]
  by (simp_all add: demo_device_def demo_jtag_batch_def batch_ok_def batch_ops_def xvc_due_def
      xvc_device_new_def is_shift_def)

theorem xvc_batch_reads_tdo_witness:
  "\<exists>rs p'. run_bitbang_batch (xvc_driver (doc_server demo_tdo (\<lambda>_. True))) (\<lambda>_. True)
       demo_jtag_batch (ShiftDr, demo_device) = (Ok rs, RunTestIdle, p')
     \<and> length (stream_clocks (xd_stream p')) = 4"
proof -
  obtain rs p' where run: "run_bitbang_batch (xvc_driver (doc_server demo_tdo (\<lambda>_. True))) (\<lambda>_. True)
       demo_jtag_batch (ShiftDr, demo_device) = (Ok rs, RunTestIdle, p')"
    using live.run_batch_succeeds [OF demo_xvc] by blast
  obtain steps where s: "walk_ops (\<lambda>_. True) record_step 0 (batch_ops demo_jtag_batch) (ShiftDr, []) = (Ok (), RunTestIdle, steps)"
    "stream_clocks (xd_stream p') = clocks (wire steps)"
    using xvc_batch_reads_tdo [OF doc.reply [where up = "\<lambda>_. True"] run demo_xvc(1-4)]
    by (auto simp: demo_device_def xvc_device_new_def stream_clocks_def)
  have "length (clocks (wire steps)) = 4"
    using s(1) by (auto simp: demo_jtag_batch_def batch_ops_def is_shift_def Let_def exchange_leaves_shift_def
        next_op_def shift_dr_to_rti_def wire_def)
  then show ?thesis using run s(2) by auto
qed

text \<open>C40. Over a server that answers every request as documented, a batch whose exchanges are all in a
  shift state succeeds: it rests in the state it says, everything has been sent, and every exchange
  whose handle is held has a result.\<close>

theorem xvc_batch_succeeds:
  assumes "\<And>reqs req bytes. peer (reqs @ [req]) = Some bytes \<Longrightarrow>
      bits_from_bytes bytes (length (xvc_parse req)) = tdo_bits tdo (stream_clocks reqs) (xvc_parse req)"
    and "\<And>reqs req. \<exists>bytes. peer (reqs @ [req]) = Some bytes"
    and "xvc_ok p" "xvc_due tdo p = []" "batch_ok b" "distinct (map fst (batch_ops b))"
    and "ends_in st (batch_ops b) = Some st'"
  shows "\<exists>rs p'. run_bitbang_batch (xvc_driver peer) held b (st, p) = (Ok rs, st', p')
    \<and> xd_tms p' = [] \<and> xvc_ok p' \<and> xvc_due tdo p' = []
    \<and> (\<forall>k data. (k, Exchange data True) \<in> set (batch_ops b) \<and> held k \<longrightarrow> map_of rs k \<noteq> None)"
proof -
  have ap: "answering_server peer tdo" using assms(1,2) by unfold_locales
  then have srv: "xvc_server peer tdo" by (simp add: answering_server_def)
  obtain rs p' where run: "run_bitbang_batch (xvc_driver peer) held b (st, p) = (Ok rs, st', p')"
    using answering_server.batch_succeeds [OF ap assms(3-7)] by blast
  note res = xvc_server.batch_results [OF srv run assms(3-6)]
  then have "map_of rs k \<noteq> None" if "(k, Exchange data True) \<in> set (batch_ops b)" "held k" for k data
    using that unfolding in_set_conv_nth by fastforce
  then show ?thesis using run res by (auto simp: xvc_sent_def)
qed

theorem xvc_batch_succeeds_witness:
  "\<exists>rs p'. run_bitbang_batch (xvc_driver (doc_server demo_tdo (\<lambda>_. True))) (\<lambda>_. False)
       demo_jtag_batch (ShiftDr, demo_device) = (Ok rs, RunTestIdle, p')"
proof -
  have "\<And>reqs req. \<exists>bytes. doc_server demo_tdo (\<lambda>_. True) (reqs @ [req]) = Some bytes" by (simp add: doc_server_def)
  from xvc_batch_succeeds [where peer = "doc_server demo_tdo (\<lambda>_. True)" and tdo = demo_tdo,
      OF doc.reply [where up = "\<lambda>_. True"] this demo_xvc] show ?thesis by blast
qed

end
