(* ===== verification/Jtag_Probe.thy ===== *)
theory Jtag_Probe
  imports Jtag_Chain Jtag_Xvc
begin

text \<open>
  A bit-banging probe as the runner of the scan chain driver: the blanket \<open>impl JtagProbe\<close> of
  probe-rs/src/probe/jtag/mod.rs, whose resting TAP state is the one of the chain state, on the
  XVC driver.
\<close>

definition run_batch :: "'p bitbang_jtag \<Rightarrow> 'p jtag_runner" where
  "run_batch d held b s =
     (case run_bitbang_batch d held b (js_tap_state (snd s), fst s) of
        (r, st, p) \<Rightarrow> (r, p, (snd s)\<lparr>js_tap_state := st\<rparr>))"

definition xvc_ready :: "(clock list \<Rightarrow> bool) \<Rightarrow> xvc_device \<times> jtag_chain_state \<Rightarrow> bool" where
  "xvc_ready tdo s \<longleftrightarrow> xvc_ok (fst s) \<and> xvc_due tdo (fst s) = []"

text \<open>An XVC probe keeps the contract of the chain driver, over any server that answers as documented.\<close>

lemma xvc_runner:
  assumes "xvc_server peer tdo"
  shows "batch_runner (run_batch (xvc_driver peer)) tdo xvc_hist xvc_sent (xvc_ready tdo)"
proof unfold_locales
  fix s b held rs t
  assume a: "xvc_ready tdo s" "batch_ok b" "distinct (map fst (batch_ops b))"
    "run_batch (xvc_driver peer) held b s = (Ok rs, t)"
  obtain st p where r: "run_bitbang_batch (xvc_driver peer) held b (js_tap_state (snd s), fst s) = (Ok rs, st, p)"
    "t = (p, (snd s)\<lparr>js_tap_state := st\<rparr>)"
    using a(4) by (auto simp: run_batch_def split: prod.splits)
  have s: "xvc_ok (fst s)" "xvc_due tdo (fst s) = []" using a(1) by (simp_all add: xvc_ready_def)
  from xvc_server.batch_results [OF assms r(1) s a(2,3)]
  show "xvc_ready tdo t \<and> xvc_sent (fst t)
    \<and> (\<exists>steps. plan held 0 (js_tap_state (snd s)) (batch_ops b) = (Ok (), js_tap_state (snd t), steps)
      \<and> xvc_hist (fst t) = xvc_hist (fst s) @ clocks (wire steps)
      \<and> (\<forall>i k data. i < length (batch_ops b) \<and> batch_ops b ! i = (k, Exchange data True) \<and> held k \<longrightarrow>
           map_of rs k = Some (CrVecU8 (captured_bits_to_bytes
             (tdo_bits tdo (xvc_hist (fst s) @ clocks (wire (take i steps))) (clocks (step_clocks (steps ! i))))))))"
    unfolding r(2) xvc_ready_def by auto
qed

interpretation doc_runner: batch_runner "run_batch (xvc_driver (doc_server tdo up))" tdo xvc_hist xvc_sent "xvc_ready tdo"
  for tdo up
  by (rule xvc_runner [OF doc.xvc_server_axioms])

text \<open>C17. A batch of register writes and DR shifts answers every command from its own exchange. The
  reference is \<open>commands_ops\<close>: for each command in order an IR write with the padding of the chain, if
  it is a register write, the DR exchange with the padding of the chain, and the idle cycles. When the
  batch succeeds on an XVC probe, over a server that answers as documented, the server has received the
  clocks of these operations and no others; a command whose handle is held has the value that its
  conversion gives for the TDO levels at the clocks of its own DR exchange, from clock \<open>drpre\<close> of it
  (one clock for the bypass bit of each TAP that is nearer to TDO) for as many as it has data bits; a
  command whose handle is dropped has no value.\<close>

theorem command_batch_answers:
  assumes "\<And>reqs req bytes. peer (reqs @ [req]) = Some bytes \<Longrightarrow>
      bits_from_bytes bytes (length (xvc_parse req)) = tdo_bits tdo (stream_clocks reqs) (xvc_parse req)"
    and "xvc_ready tdo s" "distinct (map fst writes)"
    and "run_command_batch (run_batch (xvc_driver peer)) held writes s = (Ok out, t)"
  defines "p \<equiv> js_chain_params (snd s)" and "cmds \<equiv> map snd writes"
    and "before \<equiv> stream_clocks (xd_stream (fst s)) @ zip (xd_tms (fst s)) (xd_tdi (fst s))"
  shows "xvc_ready tdo t
    \<and> (\<forall>(k, cmd) \<in> set writes. \<not> held k \<longrightarrow> map_of out k = Some CrNone)
    \<and> (\<exists>steps. walk_ops (\<lambda>_. True) record_step 0 (enumerate 0 (commands_ops p cmds)) (js_tap_state (snd s), [])
          = (Ok (), js_tap_state (snd t), steps)
      \<and> xd_tms (fst t) = [] \<and> stream_clocks (xd_stream (fst t)) = before @ clocks (wire steps)
      \<and> (\<forall>j k cmd. j < length writes \<and> writes ! j = (k, cmd) \<and> held k \<longrightarrow>
           (let i = dr_place p cmds j;
                levels = tdo_bits tdo (before @ clocks (wire (take i steps))) (clocks (step_clocks (steps ! i)))
            in length levels = cp_drpre p + length (dr_data cmd) + cp_drpost p
              \<and> (\<exists>r. convert cmd (take (length (dr_data cmd)) (drop (cp_drpre p) levels)) = Ok r
                   \<and> map_of out k = Some r))))"
proof -
  have srv: "xvc_server peer tdo" using assms(1) by unfold_locales
  obtain steps where out: "xvc_ready tdo t" "xvc_sent (fst t)"
    "\<forall>(k, cmd) \<in> set writes. \<not> held k \<longrightarrow> map_of out k = Some CrNone"
    "plan (\<lambda>_. True) 0 (js_tap_state (snd s)) (enumerate 0 (commands_ops p cmds)) = (Ok (), js_tap_state (snd t), steps)"
    "xvc_hist (fst t) = xvc_hist (fst s) @ clocks (wire steps)"
    "\<forall>j k cmd. j < length writes \<and> writes ! j = (k, cmd) \<and> held k \<longrightarrow>
       (\<exists>r. convert cmd (take (length (dr_data cmd)) (drop (cp_drpre p)
            (tdo_bits tdo (xvc_hist (fst s) @ clocks (wire (take (dr_place p cmds j) steps)))
               (clocks (step_clocks (steps ! dr_place p cmds j)))))) = Ok r \<and> map_of out k = Some r)"
    using batch_runner.command_batch_responses [OF xvc_runner [OF srv] assms(2-4)] unfolding p_def cmds_def by blast
  have before: "before = xvc_hist (fst s)" by (simp add: before_def xvc_hist_def)
  have "length (clocks (step_clocks (steps ! dr_place p cmds j))) = cp_drpre p + length (dr_data cmd) + cp_drpost p"
    if "j < length writes" "writes ! j = (k, cmd)" for j k cmd
    using exchange_clocks [OF out(4), of j] that by (simp add: cmds_def)
  then show ?thesis
    using out xvc_sent_hist [OF out(2)] unfolding before Let_def plan_def xvc_sent_def by auto
qed

subsection \<open>A command batch on a chain of two TAPs\<close>

definition demo_chain_state :: jtag_chain_state where
  "demo_chain_state = default_chain_state
     \<lparr>js_tap_state := RunTestIdle,
      js_chain_params := \<lparr>cp_index = 1, cp_irpre = 4, cp_irpost = 0, cp_drpre = 1, cp_drpost = 0, cp_irlen = 4\<rparr>\<rparr>"

definition demo_writes :: "(handle_id \<times> jtag_command) list" where
  "demo_writes = [(0, ShiftDrCommand \<lparr>sd_data = [True, True], sd_idle_cycles = 3\<rparr>
                        (\<lambda>_ bs. Ok (CrVecU8 (captured_bits_to_bytes bs))))]"

text \<open>A chain that holds TDO high at its fifth clock only.\<close>

definition chain_tdo :: "clock list \<Rightarrow> bool" where
  "chain_tdo h \<longleftrightarrow> length h = 5"

lemma chain_xvc: "xvc_ok demo_device" "xvc_due chain_tdo demo_device = []"
  using demo_xvc(1) by (simp_all add: xvc_due_def demo_device_def xvc_device_new_def)

lemma demo_commands_run:
  "\<exists>out t. run_command_batch (run_batch (xvc_driver (doc_server chain_tdo (\<lambda>_. True)))) (\<lambda>_. True)
     demo_writes (demo_device, demo_chain_state) = (Ok out, t)"
proof -
  let ?p = "js_chain_params demo_chain_state"
  let ?h = "(1::nat, conv 3 1 2)"
  define b :: jtag_batch where "b = \<lparr>commands = [(0, EnterState ShiftDr), (1, Exchange [False, True, True] True),
      (2, EnterState RunTestIdle), (3, ClockTck 3)], cursor = 0\<rparr>"
  have conv: "(\<lambda>r. rbind (exchange_result (Suc (Suc (Suc 0))) r)
      (\<lambda>captured. bits_slice captured (Suc 0) (Suc (Suc 0)))) = conv 3 1 2"
    by (simp add: conv_def fun_eq_iff numeral_eq_Suc)
  have compose: "compose_writes (\<lambda>_. True) ?p 15 demo_writes (batch_new, []) = Ok (b, [?h])"
    by (simp add: demo_writes_def demo_chain_state_def b_def exchange_dr_def enter_def jtag_enter_def
        batch_schedule_def next_id_def batch_new_def jtag_exchange_def bits_extend_def bits_repeat_def
        run_test_idle_def jtag_clock_def handle_map_def handle_from_id_def conv Let_def
        numeral_2_eq_2 numeral_3_eq_3)
  have mx: "max_ir_address ?p = (Ok 15 :: nat batch_res)" by (simp add: demo_chain_state_def max_ir_address_def)
  have b: "batch_ok b" "batch_ops b = commands b" "distinct (map fst (batch_ops b))"
    "ends_in RunTestIdle (batch_ops b) = Some RunTestIdle"
    by (simp_all add: b_def batch_ok_def batch_ops_def is_shift_def)
  obtain rs p' where run: "run_bitbang_batch (xvc_driver (doc_server chain_tdo (\<lambda>_. True))) (\<lambda>k. k \<in> set [1])
       b (RunTestIdle, demo_device) = (Ok rs, RunTestIdle, p')"
    using live.run_batch_succeeds [OF chain_xvc b(1,3,4)] by blast
  define t where "t = (p', demo_chain_state\<lparr>js_tap_state := RunTestIdle\<rparr>)"
  have rb: "run_batch (xvc_driver (doc_server chain_tdo (\<lambda>_. True))) (\<lambda>k. k \<in> set [1]) b
      (demo_device, demo_chain_state) = (Ok rs, t)"
    using run by (simp add: run_batch_def t_def demo_chain_state_def)
  have ready: "xvc_ready chain_tdo (demo_device, demo_chain_state)"
    using chain_xvc by (simp add: xvc_ready_def)
  obtain bs where bs: "map_of rs 1 = Some (CrVecU8 (captured_bits_to_bytes bs))" "length bs = (3::nat)"
  proof -
    obtain steps where st: "plan (\<lambda>k. k \<in> set [1]) 0 RunTestIdle (batch_ops b) = (Ok (), RunTestIdle, steps)"
      "map_of rs 1 = Some (CrVecU8 (captured_bits_to_bytes
        (tdo_bits chain_tdo (xvc_hist demo_device @ clocks (wire (take 1 steps))) (clocks (step_clocks (steps ! 1))))))"
      using doc_runner.run_law [OF ready b(1,3) rb] unfolding b(2)
      by (auto simp: b_def t_def demo_chain_state_def dest!: spec [of _ 1])
    have "step_of (\<lambda>k. k \<in> set [1]) (batch_ops b ! 1) (steps ! 1)"
      using list_all2_nthD [OF plan_steps [OF st(1)], of 1] unfolding b(2) by (simp add: b_def)
    then obtain leave where "steps ! 1 = StepShift [False, True, True] leave True"
      unfolding b(2) by (cases "steps ! 1") (auto simp: b_def)
    then show ?thesis using that st(2) by simp
  qed
  then have "conv 3 1 2 (CrVecU8 (captured_bits_to_bytes bs)) = Ok (take 2 (drop 1 bs))"
    using captured_bits_round_trip [of bs] by (simp add: conv_def exchange_result_def bits_slice_def)
  then have "\<exists>out. collect_responses (\<lambda>_. True) rs demo_writes [?h] results_new = Ok out"
    using bs(1) by (simp add: demo_writes_def results_take_def)
  then show ?thesis
    using mx compose rb by (simp add: run_command_batch_def jc_run_def Let_def)
qed

theorem command_batch_answers_witness:
  "\<exists>out t. run_command_batch (run_batch (xvc_driver (doc_server chain_tdo (\<lambda>_. True)))) (\<lambda>_. True)
     demo_writes (demo_device, demo_chain_state) = (Ok out, t) \<and> map_of out 0 = Some (CrVecU8 [1])"
proof -
  obtain out t where run: "run_command_batch (run_batch (xvc_driver (doc_server chain_tdo (\<lambda>_. True)))) (\<lambda>_. True)
     demo_writes (demo_device, demo_chain_state) = (Ok out, t)"
    using demo_commands_run by blast
  have ready: "xvc_ready chain_tdo (demo_device, demo_chain_state)"
    using chain_xvc by (simp add: xvc_ready_def)
  have "distinct (map fst demo_writes)" by (simp add: demo_writes_def)
  note ans = command_batch_answers [OF doc.reply [where up = "\<lambda>_. True"] ready this run]
  let ?p = "js_chain_params demo_chain_state" and ?cmds = "map snd demo_writes"
  have w: "0 < length demo_writes" "demo_writes ! 0 = (0, snd (demo_writes ! 0))" "length (dr_data (snd (demo_writes ! 0))) = 2"
    "convert (snd (demo_writes ! 0)) bs = Ok (CrVecU8 (captured_bits_to_bytes bs))" for bs
    by (simp_all add: demo_writes_def)
  have p: "cp_drpre ?p = 1" "dr_place ?p ?cmds 0 = 1"
    by (simp_all add: demo_chain_state_def demo_writes_def dr_place_def commands_ops_def)
  have ops: "commands_ops ?p ?cmds = [EnterState ShiftDr, Exchange [False, True, True] True, EnterState RunTestIdle, ClockTck 3]"
    by (simp add: demo_chain_state_def demo_writes_def commands_ops_def padded_dr_def idle_ops_def)
  obtain steps where st: "walk_ops (\<lambda>_. True) record_step 0 (enumerate 0 (commands_ops ?p ?cmds)) (RunTestIdle, [])
      = (Ok (), js_tap_state (snd t), steps)"
    and out: "\<exists>r. convert (snd (demo_writes ! 0)) (take 2 (drop 1 (tdo_bits chain_tdo (clocks (wire (take 1 steps)))
        (clocks (step_clocks (steps ! 1)))))) = Ok r \<and> map_of out 0 = Some r"
  proof -
    have before: "stream_clocks (xd_stream demo_device) @ zip (xd_tms demo_device) (xd_tdi demo_device) = []"
      "js_tap_state demo_chain_state = RunTestIdle"
      by (simp_all add: demo_device_def xvc_device_new_def stream_clocks_def demo_chain_state_def)
    show thesis
      using ans unfolding fst_conv snd_conv before append_Nil Let_def
      by - (drule meta_mp, assumption, elim conjE exE, drule spec, drule spec, drule spec, drule mp,
        (intro conjI; (rule w(1) w(2) | rule TrueI)), unfold w(3) p, erule conjE, rule that)
  qed
  have "length (clocks (wire (take 1 steps))) = 3"
    "length (clocks (step_clocks (steps ! 1))) = 3"
    using st by (auto simp: ops is_shift_def Let_def exchange_leaves_shift_def next_op_def rti_to_shift_dr_def shift_dr_to_rti_def)
  then have "take 2 (drop 1 (tdo_bits chain_tdo (clocks (wire (take 1 steps))) (clocks (step_clocks (steps ! 1))))) = [True, False]"
    by (simp add: tdo_bits_def chain_tdo_def upt_rec)
  moreover have "captured_bits_to_bytes [True, False] = [1]" by code_simp
  ultimately show ?thesis using run out unfolding w(4) by auto
qed

end
