(* ===== verification/Memory_Interface.thy ===== *)
theory Memory_Interface
  imports Prelude
begin

text \<open>
  The trait \<open>MemoryInterface\<close> of probe-rs/src/memory/mod.rs: the accesses that an implementation
  provides, the default methods built on them, and the batches of memory operations. A read
  takes the length of its buffer and returns the data; a buffer whose read failed keeps its old
  contents here, where the code leaves them open. The contract of an implementation is that it
  reads and writes a flat byte memory.
\<close>

type_synonym u16 = "16 word"
type_synonym u64 = "64 word"

subsection \<open>The interface\<close>

record ('s, 'e) memory_prims =
  mi_native_64 :: "'s \<Rightarrow> bool"
  mi_supports_8bit :: "'s \<Rightarrow> ('e, bool) res"
  mi_read_64 :: "nat \<Rightarrow> nat \<Rightarrow> ('s, 'e, u64 list) rsm"
  mi_read_32 :: "nat \<Rightarrow> nat \<Rightarrow> ('s, 'e, u32 list) rsm"
  mi_read_16 :: "nat \<Rightarrow> nat \<Rightarrow> ('s, 'e, u16 list) rsm"
  mi_read_8 :: "nat \<Rightarrow> nat \<Rightarrow> ('s, 'e, u8 list) rsm"
  mi_write_64 :: "nat \<Rightarrow> u64 list \<Rightarrow> ('s, 'e, unit) rsm"
  mi_write_32 :: "nat \<Rightarrow> u32 list \<Rightarrow> ('s, 'e, unit) rsm"
  mi_write_16 :: "nat \<Rightarrow> u16 list \<Rightarrow> ('s, 'e, unit) rsm"
  mi_write_8 :: "nat \<Rightarrow> u8 list \<Rightarrow> ('s, 'e, unit) rsm"
  mi_flush :: "('s, 'e, unit) rsm"
  mi_invalid_length :: "string \<Rightarrow> nat \<Rightarrow> 'e"
  mi_not_aligned :: "nat \<Rightarrow> nat \<Rightarrow> 'e"

text \<open>The methods with a default body that an implementation may replace.\<close>

record ('s, 'e) memory_interface = "('s, 'e) memory_prims" +
  mi_read :: "nat \<Rightarrow> nat \<Rightarrow> ('s, 'e, u8 list) rsm"
  mi_write :: "nat \<Rightarrow> u8 list \<Rightarrow> ('s, 'e, unit) rsm"

subsection \<open>Default methods\<close>

definition read_word_64 :: "('s, 'e, 'z) memory_prims_scheme \<Rightarrow> nat \<Rightarrow> ('s, 'e, u64) rsm" where
  "read_word_64 m address = sbind (mi_read_64 m address 1) (\<lambda>ws. slift (nth_r ws 0))"

definition read_word_32 :: "('s, 'e, 'z) memory_prims_scheme \<Rightarrow> nat \<Rightarrow> ('s, 'e, u32) rsm" where
  "read_word_32 m address = sbind (mi_read_32 m address 1) (\<lambda>ws. slift (nth_r ws 0))"

definition read_word_16 :: "('s, 'e, 'z) memory_prims_scheme \<Rightarrow> nat \<Rightarrow> ('s, 'e, u16) rsm" where
  "read_word_16 m address = sbind (mi_read_16 m address 1) (\<lambda>ws. slift (nth_r ws 0))"

definition read_word_8 :: "('s, 'e, 'z) memory_prims_scheme \<Rightarrow> nat \<Rightarrow> ('s, 'e, u8) rsm" where
  "read_word_8 m address = sbind (mi_read_8 m address 1) (\<lambda>ws. slift (nth_r ws 0))"

definition read_mem_64bit :: "('s, 'e, 'z) memory_prims_scheme \<Rightarrow> nat \<Rightarrow> nat \<Rightarrow> ('s, 'e, u8 list) rsm" where
  "read_mem_64bit m address len =
     (if \<not> 8 dvd len then sfail (mi_invalid_length m ''read_mem_64bit'' 8)
      else sbind (mi_read_64 m address (len div 8)) (\<lambda>buffer. sret (concat (map (to_le 8) buffer))))"

definition read_mem_32bit :: "('s, 'e, 'z) memory_prims_scheme \<Rightarrow> nat \<Rightarrow> nat \<Rightarrow> ('s, 'e, u8 list) rsm" where
  "read_mem_32bit m address len =
     (if \<not> 4 dvd len then sfail (mi_invalid_length m ''read_mem_32bit'' 4)
      else sbind (mi_read_32 m address (len div 4)) (\<lambda>buffer. sret (concat (map (to_le 4) buffer))))"

definition default_read :: "('s, 'e, 'z) memory_prims_scheme \<Rightarrow> nat \<Rightarrow> nat \<Rightarrow> ('s, 'e, u8 list) rsm" where
  "default_read m address len s =
     (if mi_native_64 m s then mi_read_8 m address len s
      else if 4 dvd address \<and> 4 dvd len then read_mem_32bit m address len s
      else
        let start_extra_count = address mod 4 in
        sbind (read_mem_32bit m (address - start_extra_count)
                 (div_ceil (start_extra_count + len) 4 * 4))
          (\<lambda>buffer. slift (slice_r buffer start_extra_count (start_extra_count + len))) s)"

definition write_word_64 :: "('s, 'e, 'z) memory_prims_scheme \<Rightarrow> nat \<Rightarrow> u64 \<Rightarrow> ('s, 'e, unit) rsm" where
  "write_word_64 m address data = mi_write_64 m address [data]"

definition write_word_32 :: "('s, 'e, 'z) memory_prims_scheme \<Rightarrow> nat \<Rightarrow> u32 \<Rightarrow> ('s, 'e, unit) rsm" where
  "write_word_32 m address data = mi_write_32 m address [data]"

definition write_word_16 :: "('s, 'e, 'z) memory_prims_scheme \<Rightarrow> nat \<Rightarrow> u16 \<Rightarrow> ('s, 'e, unit) rsm" where
  "write_word_16 m address data = mi_write_16 m address [data]"

definition write_word_8 :: "('s, 'e, 'z) memory_prims_scheme \<Rightarrow> nat \<Rightarrow> u8 \<Rightarrow> ('s, 'e, unit) rsm" where
  "write_word_8 m address data = mi_write_8 m address [data]"

definition write_mem_64bit :: "('s, 'e, 'z) memory_prims_scheme \<Rightarrow> nat \<Rightarrow> u8 list \<Rightarrow> ('s, 'e, unit) rsm" where
  "write_mem_64bit m address data =
     (if \<not> 8 dvd length data then sfail (mi_invalid_length m ''write_mem_64bit'' 8)
      else mi_write_64 m address (map from_le (chunks_exact 8 data)))"

definition write_mem_32bit :: "('s, 'e, 'z) memory_prims_scheme \<Rightarrow> nat \<Rightarrow> u8 list \<Rightarrow> ('s, 'e, unit) rsm" where
  "write_mem_32bit m address data =
     (if \<not> 4 dvd length data then sfail (mi_invalid_length m ''write_mem_32bit'' 4)
      else mi_write_32 m address (map from_le (chunks_exact 4 data)))"

text \<open>The three parts of a write: bytes up to a word boundary, words, and the remaining bytes.\<close>

definition write_head :: "('s, 'e, 'z) memory_prims_scheme \<Rightarrow> nat \<Rightarrow> u8 list \<Rightarrow> ('s, 'e, unit) rsm" where
  "write_head m address head = (if head \<noteq> [] then mi_write_8 m address head else sret ())"

definition write_words :: "('s, 'e, 'z) memory_prims_scheme \<Rightarrow> nat \<Rightarrow> u8 list \<Rightarrow> ('s, 'e, unit) rsm" where
  "write_words m address bytes =
     (if bytes \<noteq> [] then mi_write_32 m address (map from_le (chunks_exact 4 bytes)) else sret ())"

definition move_on :: "nat \<Rightarrow> nat \<Rightarrow> ('e, nat) res" where
  "move_on address n = (if n = 0 then Ok address else add64 address n)"

lemma move_on_Ok [simp]: "move_on a n = Ok b \<longleftrightarrow> b = a + n \<and> (n = 0 \<or> a + n < 2 ^ 64)"
  by (auto simp: move_on_def)

definition default_write :: "('s, 'e, 'z) memory_prims_scheme \<Rightarrow> nat \<Rightarrow> u8 list \<Rightarrow> ('s, 'e, unit) rsm" where
  "default_write m address data s =
     (let len = length data;
          start_extra_count = min ((4 - address mod 4) mod 4) len;
          end_extra_count = (len - start_extra_count) mod 4;
          inbetween_count = len - start_extra_count - end_extra_count;
          parts = sbind (write_head m address (take start_extra_count data)) (\<lambda>_.
                  sbind (slift (move_on address start_extra_count)) (\<lambda>address.
                  sbind (write_words m address (take inbetween_count (drop start_extra_count data))) (\<lambda>_.
                  sbind (slift (move_on address inbetween_count)) (\<lambda>address.
                  write_head m address (drop (start_extra_count + inbetween_count) data)))))
      in if start_extra_count \<noteq> 0 \<or> end_extra_count \<noteq> 0
         then sbind (slift (mi_supports_8bit m s)) (\<lambda>ok.
                if ok then parts else sfail (mi_not_aligned m address 4)) s
         else parts s)"

subsection \<open>Batches of memory operations\<close>

datatype operation_kind =
    OpRead "u8 list"
  | OpRead8 "u8 list"
  | OpRead16 "u16 list"
  | OpRead32 "u32 list"
  | OpRead64 "u64 list"
  | OpWrite "u8 list"
  | OpWrite8 "u8 list"
  | OpWrite16 "u16 list"
  | OpWrite32 "u32 list"
  | OpWrite64 "u64 list"
  | OpWriteWord8 u8
  | OpWriteWord16 u16
  | OpWriteWord32 u32
  | OpWriteWord64 u64

record 'e operation =
  op_address :: nat
  op_result :: "('e, unit) res option"
  op_kind :: operation_kind

definition operation_new :: "nat \<Rightarrow> operation_kind \<Rightarrow> 'e operation" where
  "operation_new address kind = \<lparr>op_address = address, op_result = None, op_kind = kind\<rparr>"

definition srmap :: "('a \<Rightarrow> 'b) \<Rightarrow> ('s, 'e, 'a) rsm \<Rightarrow> ('s, 'e, 'b) rsm" where
  "srmap f m = sbind m (\<lambda>x. sret (f x))"

text \<open>One operation; the result is the operation with its buffer filled.\<close>

fun execute_kind :: "('s, 'e) memory_interface \<Rightarrow> nat \<Rightarrow> operation_kind \<Rightarrow> ('s, 'e, operation_kind) rsm" where
  "execute_kind m a (OpRead b) = srmap OpRead (mi_read m a (length b))"
| "execute_kind m a (OpRead8 b) = srmap OpRead8 (mi_read_8 m a (length b))"
| "execute_kind m a (OpRead16 b) = srmap OpRead16 (mi_read_16 m a (length b))"
| "execute_kind m a (OpRead32 b) = srmap OpRead32 (mi_read_32 m a (length b))"
| "execute_kind m a (OpRead64 b) = srmap OpRead64 (mi_read_64 m a (length b))"
| "execute_kind m a (OpWrite d) = srmap (\<lambda>_. OpWrite d) (mi_write m a d)"
| "execute_kind m a (OpWrite8 d) = srmap (\<lambda>_. OpWrite8 d) (mi_write_8 m a d)"
| "execute_kind m a (OpWrite16 d) = srmap (\<lambda>_. OpWrite16 d) (mi_write_16 m a d)"
| "execute_kind m a (OpWrite32 d) = srmap (\<lambda>_. OpWrite32 d) (mi_write_32 m a d)"
| "execute_kind m a (OpWrite64 d) = srmap (\<lambda>_. OpWrite64 d) (mi_write_64 m a d)"
| "execute_kind m a (OpWriteWord8 d) = srmap (\<lambda>_. OpWriteWord8 d) (write_word_8 m a d)"
| "execute_kind m a (OpWriteWord16 d) = srmap (\<lambda>_. OpWriteWord16 d) (write_word_16 m a d)"
| "execute_kind m a (OpWriteWord32 d) = srmap (\<lambda>_. OpWriteWord32 d) (write_word_32 m a d)"
| "execute_kind m a (OpWriteWord64 d) = srmap (\<lambda>_. OpWriteWord64 d) (write_word_64 m a d)"

definition execute_single_memory_operation ::
  "('e \<Rightarrow> 'f) \<Rightarrow> ('s, 'e) memory_interface \<Rightarrow> 'f operation \<Rightarrow> 's \<Rightarrow> ('f, operation_kind) res \<times> 's"
where
  "execute_single_memory_operation into m op s =
     (case execute_kind m (op_address op) (op_kind op) s of
        (Ok k, t) \<Rightarrow> (Ok k, t)
      | (Err e, t) \<Rightarrow> (Err (into e), t)
      | (Panic, t) \<Rightarrow> (Panic, t))"

text \<open>All operations in order, up to the first that fails.\<close>

fun execute_memory_operations ::
  "('e \<Rightarrow> 'f) \<Rightarrow> ('s, 'e) memory_interface \<Rightarrow> 'f operation list \<Rightarrow> ('s, 'f, 'f operation list) rsm"
where
  "execute_memory_operations into m [] s = (Ok [], s)"
| "execute_memory_operations into m (op # ops) s =
     (case execute_single_memory_operation into m op s of
        (Ok k, t) \<Rightarrow>
          srmap (\<lambda>ops. op\<lparr>op_result := Some (Ok ()), op_kind := k\<rparr> # ops)
            (execute_memory_operations into m ops) t
      | (Err e, t) \<Rightarrow> (Ok (op\<lparr>op_result := Some (Err e)\<rparr> # ops), t)
      | (Panic, t) \<Rightarrow> (Panic, t))"

text \<open>
  A core that has a memory interface below it passes every access on and converts the errors. The
  word accesses and the batches follow from these.
\<close>

definition map_err :: "('e \<Rightarrow> 'f) \<Rightarrow> ('s, 'e, 'a) rsm \<Rightarrow> ('s, 'f, 'a) rsm" where
  "map_err into m s =
     (case m s of (Ok x, t) \<Rightarrow> (Ok x, t) | (Err e, t) \<Rightarrow> (Err (into e), t) | (Panic, t) \<Rightarrow> (Panic, t))"

definition delegate :: "('e \<Rightarrow> 'f) \<Rightarrow> ('s, 'e) memory_interface \<Rightarrow> ('s, 'f) memory_interface" where
  "delegate into m =
     \<lparr>mi_native_64 = mi_native_64 m,
      mi_supports_8bit = (\<lambda>s. case mi_supports_8bit m s of Ok b \<Rightarrow> Ok b | Err e \<Rightarrow> Err (into e) | Panic \<Rightarrow> Panic),
      mi_read_64 = (\<lambda>a n. map_err into (mi_read_64 m a n)), mi_read_32 = (\<lambda>a n. map_err into (mi_read_32 m a n)),
      mi_read_16 = (\<lambda>a n. map_err into (mi_read_16 m a n)), mi_read_8 = (\<lambda>a n. map_err into (mi_read_8 m a n)),
      mi_write_64 = (\<lambda>a d. map_err into (mi_write_64 m a d)), mi_write_32 = (\<lambda>a d. map_err into (mi_write_32 m a d)),
      mi_write_16 = (\<lambda>a d. map_err into (mi_write_16 m a d)), mi_write_8 = (\<lambda>a d. map_err into (mi_write_8 m a d)),
      mi_flush = map_err into (mi_flush m),
      mi_invalid_length = (\<lambda>f n. into (mi_invalid_length m f n)),
      mi_not_aligned = (\<lambda>a n. into (mi_not_aligned m a n)),
      mi_read = (\<lambda>a n. map_err into (mi_read m a n)), mi_write = (\<lambda>a d. map_err into (mi_write m a d))\<rparr>"

lemma map_err_Ok [simp]: "map_err into m s = (Ok x, t) \<longleftrightarrow> m s = (Ok x, t)"
  by (auto simp: map_err_def split: prod.splits res.splits)

subsection \<open>Flat memory\<close>

type_synonym flat = "nat \<Rightarrow> u8"

definition peek :: "flat \<Rightarrow> nat \<Rightarrow> nat \<Rightarrow> u8 list" where
  "peek f a n = map (\<lambda>i. f (a + i)) [0..<n]"

definition poke :: "flat \<Rightarrow> nat \<Rightarrow> u8 list \<Rightarrow> flat" where
  "poke f a bs = (\<lambda>i. if a \<le> i \<and> i < a + length bs then bs ! (i - a) else f i)"

lemma length_peek [simp]: "length (peek f a n) = n"
  by (simp add: peek_def)

lemma nth_peek [simp]: "i < n \<Longrightarrow> peek f a n ! i = f (a + i)"
  by (simp add: peek_def)

lemma peek_0 [simp]: "peek f a 0 = []"
  by (simp add: peek_def)

lemma poke_Nil [simp]: "poke f a [] = f"
  by (rule ext) (auto simp: poke_def)

lemma peek_append: "peek f a (m + n) = peek f a m @ peek f (a + m) n"
  by (rule nth_equalityI) (auto simp: nth_append)

lemma peek_slice: "i + n \<le> m \<Longrightarrow> take n (drop i (peek f a m)) = peek f (a + i) n"
  by (rule nth_equalityI) (auto simp: add.assoc)

lemma poke_append: "poke (poke f a xs) (a + length xs) ys = poke f a (xs @ ys)"
  by (rule ext) (auto simp: poke_def nth_append)

lemma peek_poke: "peek (poke f a bs) a (length bs) = bs"
  by (rule nth_equalityI) (auto simp: poke_def)

lemma peek_poke_disjoint:
  "b + n \<le> a \<or> a + length bs \<le> b \<Longrightarrow> peek (poke f a bs) b n = peek f b n"
  by (rule nth_equalityI) (auto simp: poke_def)

text \<open>The bytes of a list of words.\<close>

abbreviation le_bytes :: "nat \<Rightarrow> 'w::len word list \<Rightarrow> u8 list" where
  "le_bytes n ws \<equiv> concat (map (to_le n) ws)"

lemma length_le_bytes [simp]: "length (le_bytes n ws) = n * length ws"
  by (induction ws) auto

lemma le_bytes_chunks:
  assumes "LENGTH('w::len) = 8 * n" "0 < n" "n dvd length bs"
  shows "le_bytes n (map from_le (chunks_exact n bs) :: 'w word list) = bs"
proof -
  have "to_le n (from_le c :: 'w word) = c" if "c \<in> set (chunks_exact n bs)" for c
    using to_le_from_le [OF assms(1), of c] chunks_exact_length [OF that] by simp
  then have "map (\<lambda>c. to_le n (from_le c :: 'w word)) (chunks_exact n bs) = chunks_exact n bs"
    by (rule map_idI)
  then have "map (to_le n) (map from_le (chunks_exact n bs) :: 'w word list) = chunks_exact n bs"
    by (simp add: comp_def)
  then show ?thesis by (simp add: concat_chunks_exact assms)
qed

text \<open>What an operation does to a flat memory.\<close>

fun flat_op :: "nat \<Rightarrow> operation_kind \<Rightarrow> flat \<Rightarrow> operation_kind \<times> flat" where
  "flat_op a (OpRead b) f = (OpRead (peek f a (length b)), f)"
| "flat_op a (OpRead8 b) f = (OpRead8 (peek f a (length b)), f)"
| "flat_op a (OpRead16 b) f = (OpRead16 (map from_le (chunks_exact 2 (peek f a (2 * length b)))), f)"
| "flat_op a (OpRead32 b) f = (OpRead32 (map from_le (chunks_exact 4 (peek f a (4 * length b)))), f)"
| "flat_op a (OpRead64 b) f = (OpRead64 (map from_le (chunks_exact 8 (peek f a (8 * length b)))), f)"
| "flat_op a (OpWrite d) f = (OpWrite d, poke f a d)"
| "flat_op a (OpWrite8 d) f = (OpWrite8 d, poke f a d)"
| "flat_op a (OpWrite16 d) f = (OpWrite16 d, poke f a (le_bytes 2 d))"
| "flat_op a (OpWrite32 d) f = (OpWrite32 d, poke f a (le_bytes 4 d))"
| "flat_op a (OpWrite64 d) f = (OpWrite64 d, poke f a (le_bytes 8 d))"
| "flat_op a (OpWriteWord8 d) f = (OpWriteWord8 d, poke f a [d])"
| "flat_op a (OpWriteWord16 d) f = (OpWriteWord16 d, poke f a (to_le 2 d))"
| "flat_op a (OpWriteWord32 d) f = (OpWriteWord32 d, poke f a (to_le 4 d))"
| "flat_op a (OpWriteWord64 d) f = (OpWriteWord64 d, poke f a (to_le 8 d))"

text \<open>The number of bytes an operation moves.\<close>

fun op_bytes :: "operation_kind \<Rightarrow> nat" where
  "op_bytes (OpRead b) = length b"
| "op_bytes (OpRead8 b) = length b"
| "op_bytes (OpRead16 b) = 2 * length b"
| "op_bytes (OpRead32 b) = 4 * length b"
| "op_bytes (OpRead64 b) = 8 * length b"
| "op_bytes (OpWrite d) = length d"
| "op_bytes (OpWrite8 d) = length d"
| "op_bytes (OpWrite16 d) = 2 * length d"
| "op_bytes (OpWrite32 d) = 4 * length d"
| "op_bytes (OpWrite64 d) = 8 * length d"
| "op_bytes (OpWriteWord8 d) = 1"
| "op_bytes (OpWriteWord16 d) = 2"
| "op_bytes (OpWriteWord32 d) = 4"
| "op_bytes (OpWriteWord64 d) = 8"

fun flat_ops :: "'e operation list \<Rightarrow> flat \<Rightarrow> 'e operation list \<times> flat" where
  "flat_ops [] f = ([], f)"
| "flat_ops (op # ops) f =
     (case flat_op (op_address op) (op_kind op) f of
        (k, g) \<Rightarrow> (case flat_ops ops g of
           (ops', h) \<Rightarrow> (op\<lparr>op_result := Some (Ok ()), op_kind := k\<rparr> # ops', h)))"

lemma chunks_le_bytes: "0 < n \<Longrightarrow> chunks_exact n (le_bytes n ws) = map (to_le n) ws"
proof (induction ws)
  case Nil
  then show ?case by (subst chunks_exact.simps) simp
next
  case (Cons w ws)
  then show ?case by (subst chunks_exact.simps) simp
qed

lemma from_le_bytes:
  assumes "LENGTH('w::len) = 8 * n" "0 < n" "le_bytes n (ws :: 'w word list) = bs"
  shows "map from_le (chunks_exact n bs) = ws"
  using assms chunks_le_bytes [of n ws] by (auto simp: from_le_to_le comp_def)

lemma le_bytes_8 [simp]: "le_bytes 1 (bs :: u8 list) = bs"
  by (induction bs) (auto simp: to_le_def)

subsection \<open>The contract of an implementation\<close>

definition reads_as ::
  "('s \<Rightarrow> bool) \<Rightarrow> ('s \<Rightarrow> flat) \<Rightarrow> nat \<Rightarrow> nat \<Rightarrow> (nat \<Rightarrow> nat \<Rightarrow> ('s, 'e, 'w::len word list) rsm) \<Rightarrow> bool" where
  "reads_as ready content limit n rd \<longleftrightarrow>
     (\<forall>s a len ws t. ready s \<and> a + n * len \<le> limit \<and> rd a len s = (Ok ws, t) \<longrightarrow>
        ready t \<and> content t = content s \<and> le_bytes n ws = peek (content s) a (n * len))"

definition writes_as ::
  "('s \<Rightarrow> bool) \<Rightarrow> ('s \<Rightarrow> flat) \<Rightarrow> nat \<Rightarrow> nat \<Rightarrow> (nat \<Rightarrow> 'w::len word list \<Rightarrow> ('s, 'e, unit) rsm) \<Rightarrow> bool" where
  "writes_as ready content limit n wr \<longleftrightarrow>
     (\<forall>s a ws t. ready s \<and> a + n * length ws \<le> limit \<and> wr a ws s = (Ok (), t) \<longrightarrow>
        ready t \<and> content t = poke (content s) a (le_bytes n ws))"

lemma reads_asD:
  assumes "reads_as ready content limit n rd" "ready s" "a + n * len \<le> limit" "rd a len s = (Ok ws, t)"
  shows "ready t" "content t = content s" "le_bytes n ws = peek (content s) a (n * len)"
  using assms unfolding reads_as_def by blast+

lemma writes_asD:
  assumes "writes_as ready content limit n wr" "ready s" "a + n * length ws \<le> limit" "wr a ws s = (Ok (), t)"
  shows "ready t" "content t = poke (content s) a (le_bytes n ws)"
  using assms unfolding writes_as_def by blast+

lemma reads_as_map_err: "reads_as ready content limit n rd \<Longrightarrow> reads_as ready content limit n (\<lambda>a k. map_err into (rd a k))"
  unfolding reads_as_def map_err_Ok .

lemma writes_as_map_err: "writes_as ready content limit n wr \<Longrightarrow> writes_as ready content limit n (\<lambda>a d. map_err into (wr a d))"
  unfolding writes_as_def map_err_Ok .

locale flat_memory =
  fixes m :: "('s, 'e, 'z) memory_prims_scheme"
    and ready :: "'s \<Rightarrow> bool" and content :: "'s \<Rightarrow> flat" and limit :: nat
  assumes limit_words: "4 dvd limit"
    and r8: "reads_as ready content limit 1 (mi_read_8 m)"
    and r16: "reads_as ready content limit 2 (mi_read_16 m)"
    and r32: "reads_as ready content limit 4 (mi_read_32 m)"
    and r64: "reads_as ready content limit 8 (mi_read_64 m)"
    and w8: "writes_as ready content limit 1 (mi_write_8 m)"
    and w16: "writes_as ready content limit 2 (mi_write_16 m)"
    and w32: "writes_as ready content limit 4 (mi_write_32 m)"
    and w64: "writes_as ready content limit 8 (mi_write_64 m)"
begin

lemma read_mem_32: "reads_as ready content limit 1 (read_mem_32bit m)"
  unfolding reads_as_def
proof (intro allI impI, elim conjE)
  fix s a len bs t
  assume a: "ready s" "a + 1 * len \<le> limit" "read_mem_32bit m a len s = (Ok bs, t)"
  then obtain ws where ws: "4 dvd len" "mi_read_32 m a (len div 4) s = (Ok ws, t)" "bs = le_bytes 4 ws"
    by (auto simp: read_mem_32bit_def split: if_splits)
  have "a + 4 * (len div 4) \<le> limit" using a(2) ws(1) by simp
  from reads_asD [OF r32 a(1) this ws(2)] ws(1,3)
  show "ready t \<and> content t = content s \<and> le_bytes 1 bs = peek (content s) a (1 * len)"
    unfolding le_bytes_8 by simp
qed

lemma read_default: "reads_as ready content limit 1 (default_read m)"
  unfolding reads_as_def
proof (intro allI impI, elim conjE)
  fix s a len bs t
  assume a: "ready s" "a + 1 * len \<le> limit" "default_read m a len s = (Ok bs, t)"
  show "ready t \<and> content t = content s \<and> le_bytes 1 bs = peek (content s) a (1 * len)"
  proof (cases "mi_native_64 m s \<or> 4 dvd a \<and> 4 dvd len")
    case True
    then show ?thesis
      using reads_asD [OF r8 a(1,2)] reads_asD [OF read_mem_32 a(1,2)] a(3)
      by (auto simp: default_read_def split: if_splits)
  next
    case False
    define e where "e = a mod 4"
    define n where "n = div_ceil (e + len) 4 * 4"
    obtain buffer where b: "read_mem_32bit m (a - e) n s = (Ok buffer, t)"
      "e + len \<le> length buffer" "bs = take len (drop e buffer)"
      using a(3) False by (auto simp: default_read_def Let_def e_def n_def split: if_splits)
    have e: "e \<le> a" "4 dvd a - e" by (simp_all add: e_def)
    have "n < e + len + 4" "4 dvd n" using div_ceil_bounds [of 4 "e + len"] by (simp_all add: n_def)
    moreover obtain q where "limit = 4 * q" using limit_words by blast
    moreover obtain p where "a - e = 4 * p" using e(2) by blast
    ultimately have "a - e + 1 * n \<le> limit" using a(2) e(1) by presburger
    from reads_asD [OF read_mem_32 a(1) this b(1)]
    have t: "ready t" "content t = content s" "buffer = peek (content s) (a - e) n"
      unfolding le_bytes_8 by simp_all
    have "bs = peek (content s) (a - e + e) len"
      using b(2,3) t(3) by (simp add: peek_slice)
    then show ?thesis using t(1,2) e(1) unfolding le_bytes_8 by simp
  qed
qed

lemma head_flat:
  assumes "ready s" "a + length bs \<le> limit" "write_head m a bs s = (Ok (), t)"
  shows "ready t" "content t = poke (content s) a bs"
proof -
  have "a + 1 * length bs \<le> limit" using assms(2) by simp
  note w = writes_asD [OF w8 assms(1) this, unfolded le_bytes_8]
  show "ready t" "content t = poke (content s) a bs"
    using w assms(1,3) by (auto simp: write_head_def split: if_splits)
qed

lemma words_flat:
  assumes "ready s" "a + length bs \<le> limit" "4 dvd length bs" "write_words m a bs s = (Ok (), t)"
  shows "ready t" "content t = poke (content s) a bs"
proof -
  let ?ws = "map from_le (chunks_exact 4 bs) :: u32 list"
  have "a + 4 * length ?ws \<le> limit" using assms(2,3) by (simp add: length_chunks_exact)
  from writes_asD [OF w32 assms(1) this] le_bytes_chunks [of 4 bs, where 'w = 32]
  show "ready t" "content t = poke (content s) a bs"
    using assms(1,3,4) by (auto simp: write_words_def split: if_splits)
qed

lemma write_default: "writes_as ready content limit 1 (default_write m)"
  unfolding writes_as_def
proof (intro allI impI, elim conjE)
  fix s a data t
  assume a: "ready s" "a + 1 * length data \<le> limit" "default_write m a data s = (Ok (), t)"
  define i where "i = min ((4 - a mod 4) mod 4) (length data)"
  define j where "j = length data - i - (length data - i) mod 4"
  have "i \<le> length data" by (simp add: i_def)
  moreover have "j \<le> length data - i" unfolding j_def by simp
  ultimately have le: "i \<le> length data" "i + j \<le> length data" by linarith+
  have j: "4 dvd j" using dvd_minus_mod [of 4 "length data - i"] by (simp only: j_def)
  define parts where "parts = sbind (write_head m a (take i data)) (\<lambda>_. sbind (slift (move_on a i)) (\<lambda>a.
    sbind (write_words m a (take j (drop i data))) (\<lambda>_. sbind (slift (move_on a j)) (\<lambda>a.
    write_head m a (drop (i + j) data)))))"
  have "parts s = (Ok (), t)"
    using a(3) unfolding default_write_def Let_def i_def [symmetric] j_def [symmetric] parts_def [symmetric]
    by (auto split: if_splits)
  then obtain t1 t2 where p: "write_head m a (take i data) s = (Ok (), t1)"
    "write_words m (a + i) (take j (drop i data)) t1 = (Ok (), t2)"
    "write_head m (a + i + j) (drop (i + j) data) t2 = (Ok (), t)"
    by (auto simp: parts_def)
  have h: "ready t1" "content t1 = poke (content s) a (take i data)"
    using head_flat [OF a(1) _ p(1)] a(2) le by simp_all
  have w: "ready t2" "content t2 = poke (content t1) (a + i) (take j (drop i data))"
    using words_flat [OF h(1) _ _ p(2)] a(2) le j by simp_all
  have l: "ready t" "content t = poke (content t2) (a + i + j) (drop (i + j) data)"
    using head_flat [OF w(1) _ p(3)] a(2) le by simp_all
  have "content t = poke (content s) a (take i data @ take j (drop i data) @ drop (i + j) data)"
    using poke_append [of "content s" a "take i data" "take j (drop i data)"]
      poke_append [of "content s" a "take i data @ take j (drop i data)" "drop (i + j) data"] le
    by (simp add: h(2) w(2) l(2) add.assoc)
  moreover have "take i data @ take j (drop i data) @ drop (i + j) data = data"
    by (metis append_assoc append_take_drop_id take_add)
  ultimately show "ready t \<and> content t = poke (content s) a (le_bytes 1 data)"
    unfolding le_bytes_8 using l(1) by simp
qed

end

text \<open>A whole interface: its read and write move bytes too.\<close>

locale flat_interface = flat_memory m ready content limit
  for m :: "('s, 'e) memory_interface" and ready :: "'s \<Rightarrow> bool" and content :: "'s \<Rightarrow> flat" and limit :: nat +
  assumes rd: "reads_as ready content limit 1 (mi_read m)"
    and wr: "writes_as ready content limit 1 (mi_write m)"
begin

lemma execute_kind_flat:
  assumes "ready s" "a + op_bytes k \<le> limit" "execute_kind m a k s = (Ok k', t)"
  shows "ready t \<and> (k', content t) = flat_op a k (content s)"
proof -
  have word: "chunks_exact n (peek f a (n * len)) = map (to_le n) ws"
    if "0 < n" "le_bytes n ws = peek f a (n * len)" for n len f and ws :: "'w::len word list"
    using chunks_le_bytes [OF that(1), of ws] that(2) by simp
  note rs = reads_asD [OF r8 assms(1)] reads_asD [OF r16 assms(1)] reads_asD [OF r32 assms(1)]
    reads_asD [OF r64 assms(1)] reads_asD [OF rd assms(1)]
  note ws = writes_asD [OF w8 assms(1)] writes_asD [OF w16 assms(1)] writes_asD [OF w32 assms(1)]
    writes_asD [OF w64 assms(1)] writes_asD [OF wr assms(1)]
  show ?thesis
  proof (cases k)
    case (OpRead b)
    then show ?thesis using assms rs(13-15) [of a "length b"] unfolding le_bytes_8 by (auto simp: srmap_def)
  next
    case (OpRead8 b)
    then show ?thesis using assms rs(1-3) [of a "length b"] unfolding le_bytes_8 by (auto simp: srmap_def)
  next
    case (OpRead16 b)
    then obtain ds where d: "k' = OpRead16 ds" "mi_read_16 m a (length b) s = (Ok ds, t)"
      using assms(3) by (auto simp: srmap_def)
    have "a + 2 * length b \<le> limit" using OpRead16 assms(2) by simp
    from rs(4-6) [OF this d(2)] show ?thesis using OpRead16 d(1) from_le_bytes [of 2 ds] by simp
  next
    case (OpRead32 b)
    then obtain ds where d: "k' = OpRead32 ds" "mi_read_32 m a (length b) s = (Ok ds, t)"
      using assms(3) by (auto simp: srmap_def)
    have "a + 4 * length b \<le> limit" using OpRead32 assms(2) by simp
    from rs(7-9) [OF this d(2)] show ?thesis using OpRead32 d(1) from_le_bytes [of 4 ds] by simp
  next
    case (OpRead64 b)
    then obtain ds where d: "k' = OpRead64 ds" "mi_read_64 m a (length b) s = (Ok ds, t)"
      using assms(3) by (auto simp: srmap_def)
    have "a + 8 * length b \<le> limit" using OpRead64 assms(2) by simp
    from rs(10-12) [OF this d(2)] show ?thesis using OpRead64 d(1) from_le_bytes [of 8 ds] by simp
  next
    case (OpWriteWord8 d)
    then show ?thesis using assms ws(1,2) [of a "[d]"] unfolding le_bytes_8 by (auto simp: srmap_def write_word_8_def)
  next
    case (OpWrite8 d)
    then show ?thesis using assms ws(1,2) [of a d] unfolding le_bytes_8 by (auto simp: srmap_def)
  next
    case (OpWrite d)
    then show ?thesis using assms ws(9,10) [of a d] unfolding le_bytes_8 by (auto simp: srmap_def)
  next
    case (OpWriteWord16 d)
    then show ?thesis using assms ws(3,4) [of a "[d]"] by (auto simp: srmap_def write_word_16_def)
  next
    case (OpWriteWord32 d)
    then show ?thesis using assms ws(5,6) [of a "[d]"] by (auto simp: srmap_def write_word_32_def)
  next
    case (OpWriteWord64 d)
    then show ?thesis using assms ws(7,8) [of a "[d]"] by (auto simp: srmap_def write_word_64_def)
  next
    case (OpWrite16 d)
    then show ?thesis using assms ws(3,4) [of a d] by (auto simp: srmap_def)
  next
    case (OpWrite32 d)
    then show ?thesis using assms ws(5,6) [of a d] by (auto simp: srmap_def)
  next
    case (OpWrite64 d)
    then show ?thesis using assms ws(7,8) [of a d] by (auto simp: srmap_def)
  qed
qed

text \<open>The delegating interface keeps the contract.\<close>

lemma delegate_flat: "flat_interface (delegate into m) ready content limit"
proof unfold_locales
  show "4 dvd limit" by (rule limit_words)
  note R = reads_as_map_err [where into = into] and W = writes_as_map_err [where into = into]
  show "reads_as ready content limit 1 (mi_read_8 (delegate into m))" using R [OF r8] by (simp add: delegate_def)
  show "reads_as ready content limit 2 (mi_read_16 (delegate into m))" using R [OF r16] by (simp add: delegate_def)
  show "reads_as ready content limit 4 (mi_read_32 (delegate into m))" using R [OF r32] by (simp add: delegate_def)
  show "reads_as ready content limit 8 (mi_read_64 (delegate into m))" using R [OF r64] by (simp add: delegate_def)
  show "writes_as ready content limit 1 (mi_write_8 (delegate into m))" using W [OF w8] by (simp add: delegate_def)
  show "writes_as ready content limit 2 (mi_write_16 (delegate into m))" using W [OF w16] by (simp add: delegate_def)
  show "writes_as ready content limit 4 (mi_write_32 (delegate into m))" using W [OF w32] by (simp add: delegate_def)
  show "writes_as ready content limit 8 (mi_write_64 (delegate into m))" using W [OF w64] by (simp add: delegate_def)
  show "reads_as ready content limit 1 (mi_read (delegate into m))" using R [OF rd] by (simp add: delegate_def)
  show "writes_as ready content limit 1 (mi_write (delegate into m))" using W [OF wr] by (simp add: delegate_def)
qed

text \<open>A batch behaves like its operations on a flat memory, up to the first that fails.\<close>

lemma execute_operations_flat:
  assumes "ready s" "\<forall>op \<in> set ops. op_address op + op_bytes (op_kind op) \<le> limit"
    and "execute_memory_operations into m ops s = (Ok ops', t)"
  shows "(ready t \<and> (ops', content t) = flat_ops ops (content s))
    \<or> (\<exists>i e. i < length ops
         \<and> ops' = fst (flat_ops (take i ops) (content s)) @ (ops ! i)\<lparr>op_result := Some (Err e)\<rparr> # drop (Suc i) ops)"
  using assms
proof (induction ops arbitrary: s ops')
  case Nil
  then show ?case by simp
next
  case (Cons op ops)
  obtain r u where r: "execute_kind m (op_address op) (op_kind op) s = (r, u)" by fastforce
  show ?case
  proof (cases r)
    case (Ok k)
    obtain rest where rest: "execute_memory_operations into m ops u = (Ok rest, t)"
      "ops' = op\<lparr>op_result := Some (Ok ()), op_kind := k\<rparr> # rest"
      using Cons.prems(3) r Ok by (auto simp: execute_single_memory_operation_def srmap_def)
    have u: "ready u" "flat_op (op_address op) (op_kind op) (content s) = (k, content u)"
      using execute_kind_flat [OF Cons.prems(1) _ r [unfolded Ok]] Cons.prems(2) by auto
    have rng: "\<forall>op \<in> set ops. op_address op + op_bytes (op_kind op) \<le> limit" using Cons.prems(2) by simp
    from Cons.IH [OF u(1) rng rest(1)] show ?thesis
    proof (elim disjE conjE exE)
      assume "ready t" "(rest, content t) = flat_ops ops (content u)"
      then show ?thesis using u rest(2) by (auto split: prod.splits)
    next
      fix i e
      assume i: "i < length ops"
        "rest = fst (flat_ops (take i ops) (content u)) @ (ops ! i)\<lparr>op_result := Some (Err e)\<rparr> # drop (Suc i) ops"
      show ?thesis
        by (rule disjI2, rule exI [of _ "Suc i"], rule exI [of _ e]) (use i u(2) rest(2) in \<open>simp split: prod.splits\<close>)
    qed
  next
    case (Err e)
    then have "ops' = op\<lparr>op_result := Some (Err (into e))\<rparr> # ops"
      using Cons.prems(3) r by (auto simp: execute_single_memory_operation_def)
    then show ?thesis by (intro disjI2 exI [of _ 0] exI [of _ "into e"]) simp
  next
    case Panic
    then show ?thesis using Cons.prems(3) r by (auto simp: execute_single_memory_operation_def)
  qed
qed

end

text \<open>With a batch operation of its own, which may fail at any operation and says so in its result.\<close>

definition no_error :: "'e operation \<Rightarrow> bool" where
  "no_error op \<longleftrightarrow> (\<forall>e. op_result op \<noteq> Some (Err e))"

locale batch_interface = flat_interface m ready content limit
  for m :: "('s, 'e) memory_interface" and ready :: "'s \<Rightarrow> bool" and content :: "'s \<Rightarrow> flat" and limit :: nat +
  fixes exec :: "'e operation list \<Rightarrow> ('s, 'e, 'e operation list) rsm"
  assumes exec_law: "ready s \<Longrightarrow> \<forall>op \<in> set ops. op_address op + op_bytes (op_kind op) \<le> limit \<Longrightarrow>
      exec ops s = (Ok ops', t) \<Longrightarrow> \<forall>op \<in> set ops'. no_error op \<Longrightarrow>
      ready t \<and> (ops', content t) = flat_ops ops (content s)"

text \<open>An interface that also answers, in its range and at the alignment of a word.\<close>

definition plain_op :: "nat \<Rightarrow> 'e operation \<Rightarrow> bool" where
  "plain_op limit op \<longleftrightarrow> op_address op + op_bytes (op_kind op) \<le> limit
     \<and> (case op_kind op of OpRead d \<Rightarrow> True | OpWrite d \<Rightarrow> True | OpWriteWord32 d \<Rightarrow> 4 dvd op_address op | _ \<Rightarrow> False)"

locale answering_interface = batch_interface m ready content limit exec
  for m :: "('s, 'e) memory_interface" and ready :: "'s \<Rightarrow> bool" and content :: "'s \<Rightarrow> flat" and limit :: nat
    and exec :: "'e operation list \<Rightarrow> ('s, 'e, 'e operation list) rsm" +
  assumes read_32_ok: "ready s \<Longrightarrow> 4 dvd a \<Longrightarrow> a + 4 * n \<le> limit \<Longrightarrow> \<exists>ws t. mi_read_32 m a n s = (Ok ws, t)"
    and write_32_ok: "ready s \<Longrightarrow> 4 dvd a \<Longrightarrow> a + 4 * length ws \<le> limit \<Longrightarrow> \<exists>t. mi_write_32 m a ws s = (Ok (), t)"
    and read_ok: "ready s \<Longrightarrow> a + n \<le> limit \<Longrightarrow> \<exists>bs t. mi_read m a n s = (Ok bs, t)"
    and write_ok: "ready s \<Longrightarrow> a + length bs \<le> limit \<Longrightarrow> \<exists>t. mi_write m a bs s = (Ok (), t)"
    and exec_ok: "ready s \<Longrightarrow> \<forall>op \<in> set ops. plain_op limit op \<Longrightarrow>
      \<exists>ops' t. exec ops s = (Ok ops', t) \<and> (\<forall>op \<in> set ops'. no_error op)"

end
