(* ===== verification/Mem_Ap.thy ===== *)
theory Mem_Ap
  imports Memory_Interface
begin

text \<open>
  Memory access ports (probe-rs/src/architecture/arm/ap): the register fields, the seven kinds
  of memory AP with the transfer sizes they can be put into, and the register access \<open>DapAccess\<close>
  they are driven through. A register is its raw word. The address of the one AP that is used
  is left out of the calls.
\<close>

subsection \<open>Registers\<close>

definition reg_get :: "nat \<Rightarrow> nat \<Rightarrow> u32 \<Rightarrow> u32" where
  "reg_get hi lo w = take_bit (hi - lo + 1) (drop_bit lo w)"

definition reg_set :: "nat \<Rightarrow> nat \<Rightarrow> u32 \<Rightarrow> u32 \<Rightarrow> u32" where
  "reg_set hi lo v w =
     (w AND NOT (push_bit lo (mask (hi - lo + 1)))) OR push_bit lo (take_bit (hi - lo + 1) v)"

definition flag_set :: "nat \<Rightarrow> bool \<Rightarrow> u32 \<Rightarrow> u32" where
  "flag_set n b w = (if b then set_bit n w else unset_bit n w)"

text \<open>Every register address is \<open>0xD00 | offset\<close>.\<close>

definition CSW :: nat where "CSW = 0xD00"
definition TAR :: nat where "TAR = 0xD04"
definition TAR2 :: nat where "TAR2 = 0xD08"
definition DRW :: nat where "DRW = 0xD0C"
definition BASE2 :: nat where "BASE2 = 0xDF0"
definition CFG :: nat where "CFG = 0xDF4"
definition BASE :: nat where "BASE = 0xDF8"
definition IDR :: nat where "IDR = 0xDFC"

lemmas register_addresses = CSW_def TAR_def TAR2_def DRW_def BASE2_def CFG_def BASE_def IDR_def

datatype data_size = DsU8 | DsU16 | DsU32 | DsU64 | DsU128 | DsU256 | DsUnknown u32

fun data_size_bits :: "data_size \<Rightarrow> u32" where
  "data_size_bits DsU8 = 0"
| "data_size_bits DsU16 = 1"
| "data_size_bits DsU32 = 2"
| "data_size_bits DsU64 = 3"
| "data_size_bits DsU128 = 4"
| "data_size_bits DsU256 = 5"
| "data_size_bits (DsUnknown b) = b"

definition data_size_of :: "u32 \<Rightarrow> data_size" where
  "data_size_of b =
     (if b = 0 then DsU8 else if b = 1 then DsU16 else if b = 2 then DsU32
      else if b = 3 then DsU64 else if b = 4 then DsU128 else if b = 5 then DsU256
      else DsUnknown b)"

fun to_byte_count :: "data_size \<Rightarrow> ('e, nat) res" where
  "to_byte_count DsU8 = Ok 1"
| "to_byte_count DsU16 = Ok 2"
| "to_byte_count DsU32 = Ok 4"
| "to_byte_count DsU64 = Ok 8"
| "to_byte_count DsU128 = Ok 16"
| "to_byte_count DsU256 = Ok 32"
| "to_byte_count (DsUnknown b) = Panic"

datatype address_increment = IncOff | IncSingle | IncPacked | IncUnknown u32

fun address_increment_bits :: "address_increment \<Rightarrow> u32" where
  "address_increment_bits IncOff = 0"
| "address_increment_bits IncSingle = 1"
| "address_increment_bits IncPacked = 2"
| "address_increment_bits (IncUnknown b) = b"

definition address_increment_of :: "u32 \<Rightarrow> address_increment" where
  "address_increment_of b =
     (if b = 0 then IncOff else if b = 1 then IncSingle else if b = 2 then IncPacked else IncUnknown b)"

text \<open>The size and increment fields have the same place in the CSW of every kind of AP.\<close>

definition csw_size :: "u32 \<Rightarrow> data_size" where
  "csw_size csw = data_size_of (reg_get 2 0 csw)"

definition csw_set_size :: "data_size \<Rightarrow> u32 \<Rightarrow> u32" where
  "csw_set_size sz = reg_set 2 0 (data_size_bits sz)"

definition csw_addr_inc :: "u32 \<Rightarrow> address_increment" where
  "csw_addr_inc csw = address_increment_of (reg_get 5 4 csw)"

definition csw_set_addr_inc :: "address_increment \<Rightarrow> u32 \<Rightarrow> u32" where
  "csw_set_addr_inc inc = reg_set 5 4 (address_increment_bits inc)"

definition cfg_la :: "u32 \<Rightarrow> bool" where "cfg_la cfg = bit cfg 1"
definition cfg_ld :: "u32 \<Rightarrow> bool" where "cfg_ld cfg = bit cfg 2"

definition csw_spiden :: "u32 \<Rightarrow> bool" where "csw_spiden csw = bit csw 23"

subsection \<open>Register access\<close>

datatype wire_protocol = WireSwd | WireJtag

datatype dap_error =
    DapProtocol wire_protocol
  | DapNoAcknowledge
  | DapFaultResponse
  | DapWaitResponse
  | DapIncorrectParity

datatype arm_error =
    UnsupportedTransferWidth nat
  | MemoryNotAligned nat nat
  | OutOfBounds
  | InvalidDataLength string nat
  | ApDoesNotExist
  | WrongApType
  | DebugEntryNotPresent
  | ArmProbe nat
  | ArmDap dap_error
  | ArmTimeout
  | ArmNotImplemented
  | TargetPowerUpFailed
  | ArmOther

datatype ap_kind =
    AmbaAhb3 | AmbaAhb5 | AmbaAhb5Hprot | AmbaApb2Apb3 | AmbaApb4Apb5 | AmbaAxi3Axi4 | AmbaAxi5

record memory_ap =
  ma_kind :: ap_kind
  ma_csw :: u32
  ma_cfg :: u32

type_synonym ap_accesses = "(nat \<times> u32 option) list"

record 'd dap =
  da_read :: "nat \<Rightarrow> ('d, arm_error, u32) rsm"
  da_write :: "nat \<Rightarrow> u32 \<Rightarrow> ('d, arm_error, unit) rsm"
  da_access :: "ap_accesses \<Rightarrow> ('d, arm_error, u32 list) rsm"
  da_flush :: "('d, arm_error, unit) rsm"
  da_epoch :: "'d \<Rightarrow> nat"
  da_take_ap :: "'d \<Rightarrow> memory_ap option \<times> 'd"
  da_store_ap :: "memory_ap \<Rightarrow> 'd \<Rightarrow> 'd"

text \<open>
  \<open>access_raw_ap_registers\<close> as the trait defines it: one access after the other. The words
  that were read are the result; its caller provides a buffer for just as many.
\<close>

fun access_each ::
  "(nat \<Rightarrow> ('d, arm_error, u32) rsm) \<Rightarrow> (nat \<Rightarrow> u32 \<Rightarrow> ('d, arm_error, unit) rsm) \<Rightarrow>
     ap_accesses \<Rightarrow> ('d, arm_error, u32 list) rsm"
where
  "access_each rd wr [] = sret []"
| "access_each rd wr ((addr, Some v) # acs) = sbind (wr addr v) (\<lambda>_. access_each rd wr acs)"
| "access_each rd wr ((addr, None) # acs) =
     sbind (rd addr) (\<lambda>w. sbind (access_each rd wr acs) (\<lambda>ws. sret (w # ws)))"

subsection \<open>The kinds of memory AP\<close>

text \<open>What it takes to put an AP into a transfer size.\<close>

datatype data_size_setup = SetupReady | SetupWrite u32 | SetupSeparately

definition unsupported_width :: "data_size \<Rightarrow> (arm_error, 'a) res" where
  "unsupported_width sz = rbind (to_byte_count sz) (\<lambda>n. Err (UnsupportedTransferWidth (n * 8)))"

text \<open>A write of CSW that is recorded once it has succeeded.\<close>

definition write_csw :: "'d dap \<Rightarrow> data_size \<Rightarrow> u32 \<Rightarrow> ('d, arm_error, u32) rsm" where
  "write_csw dap sz csw =
     (let csw' = csw_set_size sz csw in sbind (da_write dap CSW csw') (\<lambda>_. sret csw'))"

subsubsection \<open>AHB\<close>

definition ahb3_csw :: "u32 \<Rightarrow> u32" where
  "ahb3_csw csw = csw_set_addr_inc IncSingle (flag_set 24 True (flag_set 25 True (flag_set 27 True
     (flag_set 29 True (flag_set 30 (\<not> csw_spiden csw) (flag_set 31 True csw))))))"

definition ahb3_new :: "'d dap \<Rightarrow> ('d, arm_error, memory_ap) rsm" where
  "ahb3_new dap =
     sbind (da_read dap CFG) (\<lambda>cfg. sbind (da_read dap CSW) (\<lambda>csw.
     sbind (da_write dap CSW (ahb3_csw csw)) (\<lambda>_.
     sret \<lparr>ma_kind = AmbaAhb3, ma_csw = ahb3_csw csw, ma_cfg = cfg\<rparr>)))"

fun ahb3_datasize_setup :: "u32 \<Rightarrow> data_size \<Rightarrow> (arm_error, data_size_setup) res" where
  "ahb3_datasize_setup csw (DsUnknown b) = Ok SetupReady"
| "ahb3_datasize_setup csw sz =
     (if sz \<in> {DsU8, DsU16, DsU32}
      then if sz = csw_size csw then Ok SetupReady else Ok (SetupWrite (csw_set_size sz csw))
      else unsupported_width sz)"

definition ahb3_note_datasize :: "data_size \<Rightarrow> u32 \<Rightarrow> u32" where
  "ahb3_note_datasize = csw_set_size"

definition ahb3_try_set_datasize :: "'d dap \<Rightarrow> data_size \<Rightarrow> u32 \<Rightarrow> ('d, arm_error, u32) rsm" where
  "ahb3_try_set_datasize dap sz csw =
     (if sz \<in> {DsU8, DsU16, DsU32} \<and> sz \<noteq> csw_size csw then write_csw dap sz csw
      else if sz \<in> {DsU64, DsU128, DsU256} then slift (unsupported_width sz)
      else sret csw)"

definition ahb5_csw :: "u32 \<Rightarrow> u32" where
  "ahb5_csw csw = csw_set_addr_inc IncSingle (flag_set 24 True (flag_set 25 True
     (flag_set 29 True (flag_set 30 (\<not> csw_spiden csw) (flag_set 31 True csw)))))"

definition ahb5_new :: "'d dap \<Rightarrow> ('d, arm_error, memory_ap) rsm" where
  "ahb5_new dap =
     sbind (da_read dap CFG) (\<lambda>cfg. sbind (da_read dap CSW) (\<lambda>csw.
     sbind (da_write dap CSW (ahb5_csw csw)) (\<lambda>_.
     sret \<lparr>ma_kind = AmbaAhb5, ma_csw = ahb5_csw csw, ma_cfg = cfg\<rparr>)))"

fun ahb5_datasize_setup :: "u32 \<Rightarrow> data_size \<Rightarrow> (arm_error, data_size_setup) res" where
  "ahb5_datasize_setup csw (DsUnknown b) = Ok SetupReady"
| "ahb5_datasize_setup csw sz =
     (if sz \<in> {DsU8, DsU16, DsU32}
      then if sz = csw_size csw then Ok SetupReady else Ok (SetupWrite (csw_set_size sz csw))
      else unsupported_width sz)"

definition ahb5_note_datasize :: "data_size \<Rightarrow> u32 \<Rightarrow> u32" where
  "ahb5_note_datasize = csw_set_size"

definition ahb5_try_set_datasize :: "'d dap \<Rightarrow> data_size \<Rightarrow> u32 \<Rightarrow> ('d, arm_error, u32) rsm" where
  "ahb5_try_set_datasize dap sz csw =
     (if sz \<in> {DsU8, DsU16, DsU32} \<and> sz \<noteq> csw_size csw then write_csw dap sz csw
      else if sz \<in> {DsU64, DsU128, DsU256} then slift (unsupported_width sz)
      else sret csw)"

definition ahb5_hprot_csw :: "u32 \<Rightarrow> u32" where
  "ahb5_hprot_csw csw = csw_set_addr_inc IncSingle (flag_set 24 True (flag_set 25 True (flag_set 27 True
     (flag_set 29 True (flag_set 30 (\<not> csw_spiden csw) (flag_set 31 True csw))))))"

definition ahb5_hprot_new :: "'d dap \<Rightarrow> ('d, arm_error, memory_ap) rsm" where
  "ahb5_hprot_new dap =
     sbind (da_read dap CFG) (\<lambda>cfg. sbind (da_read dap CSW) (\<lambda>csw.
     sbind (da_write dap CSW (ahb5_hprot_csw csw)) (\<lambda>_.
     sret \<lparr>ma_kind = AmbaAhb5Hprot, ma_csw = ahb5_hprot_csw csw, ma_cfg = cfg\<rparr>)))"

fun ahb5_hprot_datasize_setup :: "u32 \<Rightarrow> data_size \<Rightarrow> (arm_error, data_size_setup) res" where
  "ahb5_hprot_datasize_setup csw (DsUnknown b) = Ok SetupReady"
| "ahb5_hprot_datasize_setup csw sz =
     (if sz \<in> {DsU8, DsU16, DsU32}
      then if sz = csw_size csw then Ok SetupReady else Ok (SetupWrite (csw_set_size sz csw))
      else unsupported_width sz)"

definition ahb5_hprot_note_datasize :: "data_size \<Rightarrow> u32 \<Rightarrow> u32" where
  "ahb5_hprot_note_datasize = csw_set_size"

definition ahb5_hprot_try_set_datasize :: "'d dap \<Rightarrow> data_size \<Rightarrow> u32 \<Rightarrow> ('d, arm_error, u32) rsm" where
  "ahb5_hprot_try_set_datasize dap sz csw =
     (if sz \<in> {DsU8, DsU16, DsU32} \<and> sz \<noteq> csw_size csw then write_csw dap sz csw
      else if sz \<in> {DsU64, DsU128, DsU256} then slift (unsupported_width sz)
      else sret csw)"

subsubsection \<open>APB\<close>

definition apb2_csw :: "u32 \<Rightarrow> u32" where
  "apb2_csw csw = csw_set_addr_inc IncSingle (flag_set 31 True csw)"

definition apb2_new :: "'d dap \<Rightarrow> ('d, arm_error, memory_ap) rsm" where
  "apb2_new dap =
     sbind (da_read dap CFG) (\<lambda>cfg. sbind (da_read dap CSW) (\<lambda>csw.
     sbind (da_write dap CSW (apb2_csw csw)) (\<lambda>_.
     sret \<lparr>ma_kind = AmbaApb2Apb3, ma_csw = apb2_csw csw, ma_cfg = cfg\<rparr>)))"

definition apb2_datasize_setup :: "data_size \<Rightarrow> (arm_error, data_size_setup) res" where
  "apb2_datasize_setup sz = (if sz = DsU32 then Ok SetupReady else unsupported_width sz)"

definition apb2_try_set_datasize :: "data_size \<Rightarrow> u32 \<Rightarrow> ('d, arm_error, u32) rsm" where
  "apb2_try_set_datasize sz csw = (if sz = DsU32 then sret csw else slift (unsupported_width sz))"

definition apb4_csw :: "u32 \<Rightarrow> u32" where
  "apb4_csw csw = csw_set_addr_inc IncSingle (flag_set 31 True csw)"

definition apb4_new :: "'d dap \<Rightarrow> ('d, arm_error, memory_ap) rsm" where
  "apb4_new dap =
     sbind (da_read dap CFG) (\<lambda>cfg. sbind (da_read dap CSW) (\<lambda>csw.
     sbind (da_write dap CSW (apb4_csw csw)) (\<lambda>_.
     sret \<lparr>ma_kind = AmbaApb4Apb5, ma_csw = apb4_csw csw, ma_cfg = cfg\<rparr>)))"

definition apb4_datasize_setup :: "data_size \<Rightarrow> (arm_error, data_size_setup) res" where
  "apb4_datasize_setup sz = (if sz = DsU32 then Ok SetupReady else unsupported_width sz)"

definition apb4_try_set_datasize :: "data_size \<Rightarrow> u32 \<Rightarrow> ('d, arm_error, u32) rsm" where
  "apb4_try_set_datasize sz csw = (if sz = DsU32 then sret csw else slift (unsupported_width sz))"

subsubsection \<open>AXI\<close>

definition axi3_csw :: "u32 \<Rightarrow> u32" where
  "axi3_csw csw = csw_set_addr_inc IncSingle (flag_set 28 True (flag_set 31 True csw))"

definition axi3_new :: "'d dap \<Rightarrow> ('d, arm_error, memory_ap) rsm" where
  "axi3_new dap =
     sbind (da_read dap CFG) (\<lambda>cfg. sbind (da_read dap CSW) (\<lambda>csw.
     sbind (da_write dap CSW (axi3_csw csw)) (\<lambda>_.
     sret \<lparr>ma_kind = AmbaAxi3Axi4, ma_csw = axi3_csw csw, ma_cfg = cfg\<rparr>)))"

fun axi3_datasize_setup :: "u32 \<Rightarrow> data_size \<Rightarrow> (arm_error, data_size_setup) res" where
  "axi3_datasize_setup csw sz =
     (if sz = csw_size csw then Ok SetupReady
      else if sz \<in> {DsU8, DsU16, DsU32} then Ok (SetupWrite (csw_set_size sz csw))
      else if sz \<in> {DsU64, DsU128, DsU256} then Ok SetupSeparately
      else Ok SetupReady)"

definition axi3_note_datasize :: "data_size \<Rightarrow> u32 \<Rightarrow> u32" where
  "axi3_note_datasize = csw_set_size"

text \<open>
  A size above 32 bits is read back, since an AP that does not support it reports another. The
  CSW that was read is kept when it differs.
\<close>

definition axi3_try_set_datasize ::
  "'d dap \<Rightarrow> bool \<Rightarrow> data_size \<Rightarrow> u32 \<Rightarrow> 'd \<Rightarrow> (arm_error, unit) res \<times> u32 \<times> 'd" where
  "axi3_try_set_datasize dap large_data sz csw d =
     (if sz \<in> {DsU8, DsU16, DsU32} \<and> sz \<noteq> csw_size csw
      then (case write_csw dap sz csw d of
              (Ok csw', d) \<Rightarrow> (Ok (), csw', d)
            | (Err e, d) \<Rightarrow> (Err e, csw, d)
            | (Panic, d) \<Rightarrow> (Panic, csw, d))
      else if sz \<in> {DsU64, DsU128, DsU256} \<and> sz \<noteq> csw_size csw
      then if \<not> large_data then (unsupported_width sz, csw, d)
        else (case sbind (write_csw dap sz csw) (\<lambda>_. da_read dap CSW) d of
                (Ok read_back, d) \<Rightarrow>
                  (if sz \<noteq> csw_size read_back then unsupported_width sz else Ok (), read_back, d)
              | (Err e, d) \<Rightarrow> (Err e, csw, d)
              | (Panic, d) \<Rightarrow> (Panic, csw, d))
      else (Ok (), csw, d))"

definition axi5_csw :: "u32 \<Rightarrow> u32" where
  "axi5_csw csw = csw_set_addr_inc IncSingle (flag_set 28 True (flag_set 31 True csw))"

definition axi5_new :: "'d dap \<Rightarrow> ('d, arm_error, memory_ap) rsm" where
  "axi5_new dap =
     sbind (da_read dap CFG) (\<lambda>cfg. sbind (da_read dap CSW) (\<lambda>csw.
     sbind (da_write dap CSW (axi5_csw csw)) (\<lambda>_.
     sret \<lparr>ma_kind = AmbaAxi5, ma_csw = axi5_csw csw, ma_cfg = cfg\<rparr>)))"

fun axi5_datasize_setup :: "u32 \<Rightarrow> data_size \<Rightarrow> (arm_error, data_size_setup) res" where
  "axi5_datasize_setup csw (DsUnknown b) = Ok SetupReady"
| "axi5_datasize_setup csw sz =
     (if sz \<in> {DsU8, DsU16, DsU32}
      then if sz = csw_size csw then Ok SetupReady else Ok (SetupWrite (csw_set_size sz csw))
      else unsupported_width sz)"

definition axi5_note_datasize :: "data_size \<Rightarrow> u32 \<Rightarrow> u32" where
  "axi5_note_datasize = csw_set_size"

definition axi5_try_set_datasize :: "'d dap \<Rightarrow> data_size \<Rightarrow> u32 \<Rightarrow> ('d, arm_error, u32) rsm" where
  "axi5_try_set_datasize dap sz csw =
     (if sz \<in> {DsU8, DsU16, DsU32} \<and> sz \<noteq> csw_size csw then write_csw dap sz csw
      else if sz \<in> {DsU64, DsU128, DsU256} then slift (unsupported_width sz)
      else sret csw)"

subsection \<open>Any memory AP\<close>

definition large_address :: "memory_ap \<Rightarrow> bool" where
  "large_address ap = cfg_la (ma_cfg ap)"

definition large_data :: "memory_ap \<Rightarrow> bool" where
  "large_data ap = cfg_ld (ma_cfg ap)"

definition only_32bit :: "memory_ap \<Rightarrow> bool" where
  "only_32bit ap = (ma_kind ap \<in> {AmbaApb2Apb3, AmbaApb4Apb5})"

definition datasize_setup :: "memory_ap \<Rightarrow> data_size \<Rightarrow> (arm_error, data_size_setup) res" where
  "datasize_setup ap sz =
     (case ma_kind ap of
        AmbaApb2Apb3 \<Rightarrow> apb2_datasize_setup sz
      | AmbaApb4Apb5 \<Rightarrow> apb4_datasize_setup sz
      | AmbaAhb3 \<Rightarrow> ahb3_datasize_setup (ma_csw ap) sz
      | AmbaAhb5 \<Rightarrow> ahb5_datasize_setup (ma_csw ap) sz
      | AmbaAhb5Hprot \<Rightarrow> ahb5_hprot_datasize_setup (ma_csw ap) sz
      | AmbaAxi3Axi4 \<Rightarrow> axi3_datasize_setup (ma_csw ap) sz
      | AmbaAxi5 \<Rightarrow> axi5_datasize_setup (ma_csw ap) sz)"

definition note_datasize :: "data_size \<Rightarrow> memory_ap \<Rightarrow> memory_ap" where
  "note_datasize sz ap =
     (case ma_kind ap of
        AmbaApb2Apb3 \<Rightarrow> ap
      | AmbaApb4Apb5 \<Rightarrow> ap
      | AmbaAhb3 \<Rightarrow> ap\<lparr>ma_csw := ahb3_note_datasize sz (ma_csw ap)\<rparr>
      | AmbaAhb5 \<Rightarrow> ap\<lparr>ma_csw := ahb5_note_datasize sz (ma_csw ap)\<rparr>
      | AmbaAhb5Hprot \<Rightarrow> ap\<lparr>ma_csw := ahb5_hprot_note_datasize sz (ma_csw ap)\<rparr>
      | AmbaAxi3Axi4 \<Rightarrow> ap\<lparr>ma_csw := axi3_note_datasize sz (ma_csw ap)\<rparr>
      | AmbaAxi5 \<Rightarrow> ap\<lparr>ma_csw := axi5_note_datasize sz (ma_csw ap)\<rparr>)"

definition keep_csw ::
  "('d, arm_error, u32) rsm \<Rightarrow> memory_ap \<times> 'd \<Rightarrow> (arm_error, unit) res \<times> memory_ap \<times> 'd" where
  "keep_csw m s =
     (case m (snd s) of
        (Ok csw, d) \<Rightarrow> (Ok (), (fst s)\<lparr>ma_csw := csw\<rparr>, d)
      | (Err e, d) \<Rightarrow> (Err e, fst s, d)
      | (Panic, d) \<Rightarrow> (Panic, fst s, d))"

definition try_set_datasize :: "'d dap \<Rightarrow> data_size \<Rightarrow> (memory_ap \<times> 'd, arm_error, unit) rsm" where
  "try_set_datasize dap sz s =
     (let ap = fst s; csw = ma_csw ap in
      case ma_kind ap of
        AmbaApb2Apb3 \<Rightarrow> keep_csw (apb2_try_set_datasize sz csw) s
      | AmbaApb4Apb5 \<Rightarrow> keep_csw (apb4_try_set_datasize sz csw) s
      | AmbaAhb3 \<Rightarrow> keep_csw (ahb3_try_set_datasize dap sz csw) s
      | AmbaAhb5 \<Rightarrow> keep_csw (ahb5_try_set_datasize dap sz csw) s
      | AmbaAhb5Hprot \<Rightarrow> keep_csw (ahb5_hprot_try_set_datasize dap sz csw) s
      | AmbaAxi3Axi4 \<Rightarrow>
          (case axi3_try_set_datasize dap (large_data ap) sz csw (snd s) of
             (r, csw', d) \<Rightarrow> (r, ap\<lparr>ma_csw := csw'\<rparr>, d))
      | AmbaAxi5 \<Rightarrow> keep_csw (axi5_try_set_datasize dap sz csw) s)"

text \<open>\<open>status\<close>: read CSW again and keep it.\<close>

definition status :: "'d dap \<Rightarrow> (memory_ap \<times> 'd, arm_error, unit) rsm" where
  "status dap = keep_csw (da_read dap CSW)"

definition base_address :: "'d dap \<Rightarrow> ('d, arm_error, nat) rsm" where
  "base_address dap =
     sbind (da_read dap BASE) (\<lambda>base.
       if \<not> bit base 0 then sfail DebugEntryNotPresent
       else sbind (if reg_get 1 1 base = 1
                   then sbind (da_read dap BASE2) (\<lambda>base2. sret (push_bit 32 (unat base2)))
                   else sret 0)
              (\<lambda>upper. sret (upper OR unat (push_bit 12 (reg_get 31 12 base)))))"

text \<open>The kind of AP from the type field of IDR.\<close>

definition ap_kind_of :: "u32 \<Rightarrow> ap_kind option" where
  "ap_kind_of t =
     (if t = 1 then Some AmbaAhb3 else if t = 2 then Some AmbaApb2Apb3
      else if t = 4 then Some AmbaAxi3Axi4 else if t = 5 then Some AmbaAhb5
      else if t = 6 then Some AmbaApb4Apb5 else if t = 7 then Some AmbaAxi5
      else if t = 8 then Some AmbaAhb5Hprot else None)"

fun new_of_kind :: "ap_kind \<Rightarrow> 'd dap \<Rightarrow> ('d, arm_error, memory_ap) rsm" where
  "new_of_kind AmbaAhb3 = ahb3_new"
| "new_of_kind AmbaAhb5 = ahb5_new"
| "new_of_kind AmbaAhb5Hprot = ahb5_hprot_new"
| "new_of_kind AmbaApb2Apb3 = apb2_new"
| "new_of_kind AmbaApb4Apb5 = apb4_new"
| "new_of_kind AmbaAxi3Axi4 = axi3_new"
| "new_of_kind AmbaAxi5 = axi5_new"

definition memory_ap_new :: "'d dap \<Rightarrow> ('d, arm_error, memory_ap) rsm" where
  "memory_ap_new dap =
     sbind (da_read dap IDR) (\<lambda>idr.
       if idr = 0 then sfail ApDoesNotExist
       else (case ap_kind_of (reg_get 3 0 idr) of
               None \<Rightarrow> sfail WrongApType
             | Some kind \<Rightarrow> new_of_kind kind dap))"

end
