(* ===== verification/Adi_Memory.thy ===== *)
theory Adi_Memory
  imports Mem_Ap
begin

text \<open>
  Memory access through a memory AP (probe-rs/src/architecture/arm/memory/adi_memory_interface.rs):
  the lowering of accesses to lists of AP register accesses, the gathering of operations into
  batches, and the memory interface on top. The state keeps the AP with its noted CSW, the
  register access below it, and whether the note is trusted.
\<close>

record 'd adi =
  adi_ap :: memory_ap
  adi_dap :: 'd
  adi_trusted :: bool
  adi_since :: nat

definition adi_new :: "'d dap \<Rightarrow> 'd \<Rightarrow> (arm_error, 'd adi) res \<times> 'd" where
  "adi_new dap d =
     (let (kept, d) = da_take_ap dap d in
      sbind (case kept of Some ap \<Rightarrow> sret ap | None \<Rightarrow> memory_ap_new dap)
        (\<lambda>ap d. (Ok \<lparr>adi_ap = ap, adi_dap = d, adi_trusted = True, adi_since = da_epoch dap d\<rparr>, d)) d)"

definition adi_drop :: "'d dap \<Rightarrow> 'd adi \<Rightarrow> 'd" where
  "adi_drop dap s =
     (if adi_trusted s \<and> da_epoch dap (adi_dap s) = adi_since s
      then da_store_ap dap (adi_ap s) (adi_dap s) else adi_dap s)"

subsection \<open>Shapes\<close>

definition autoincr_limit :: nat where "autoincr_limit = 0x400"

definition autoincr_max_bytes :: "nat \<Rightarrow> ('e, nat) res" where
  "autoincr_max_bytes address =
     rbind (add64 address 1) (\<lambda>a.
     rbind (next_multiple_of64 a autoincr_limit) (\<lambda>n. sub_r n address))"

datatype width = WU8 | WU16 | WU32 | WU64

fun width_bytes :: "width \<Rightarrow> nat" where
  "width_bytes WU8 = 1"
| "width_bytes WU16 = 2"
| "width_bytes WU32 = 4"
| "width_bytes WU64 = 8"

fun drw_words :: "width \<Rightarrow> nat" where
  "drw_words WU64 = 2"
| "drw_words w = 1"

fun data_size_for :: "width \<Rightarrow> bool \<Rightarrow> data_size" where
  "data_size_for WU8 large = DsU8"
| "data_size_for WU16 large = DsU16"
| "data_size_for WU32 large = DsU32"
| "data_size_for WU64 large = (if large then DsU64 else DsU32)"

fun lane_shift :: "width \<Rightarrow> nat \<Rightarrow> nat" where
  "lane_shift WU8 address = address mod 4 * 8"
| "lane_shift WU16 address = address mod 4 * 8"
| "lane_shift WU32 address = 0"
| "lane_shift WU64 address = 0"

fun lane_mask :: "width \<Rightarrow> u32" where
  "lane_mask WU8 = 0xFF"
| "lane_mask WU16 = 0xFFFF"
| "lane_mask WU32 = - 1"
| "lane_mask WU64 = - 1"

record shape =
  sh_address :: nat
  sh_width :: width
  sh_elements :: nat

definition shape_new :: "nat \<Rightarrow> width \<Rightarrow> nat \<Rightarrow> shape" where
  "shape_new address w elements = \<lparr>sh_address = address, sh_width = w, sh_elements = elements\<rparr>"

definition element_address :: "shape \<Rightarrow> nat \<Rightarrow> nat" where
  "element_address sh i = sh_address sh + i * width_bytes (sh_width sh)"

definition shape_words :: "shape \<Rightarrow> nat" where
  "shape_words sh = sh_elements sh * drw_words (sh_width sh)"

definition take_lane :: "shape \<Rightarrow> u32 \<Rightarrow> nat \<Rightarrow> u32" where
  "take_lane sh w i = drop_bit (lane_shift (sh_width sh) (element_address sh i)) w AND lane_mask (sh_width sh)"

definition put_lane :: "shape \<Rightarrow> u32 \<Rightarrow> nat \<Rightarrow> u32" where
  "put_lane sh v i = push_bit (lane_shift (sh_width sh) (element_address sh i)) v"

subsection \<open>Lowering\<close>

definition push_target_address :: "memory_ap \<Rightarrow> nat \<Rightarrow> ap_accesses \<Rightarrow> (arm_error, ap_accesses) res" where
  "push_target_address ap address acs =
     (if large_address ap
      then Ok (acs @ [(TAR2, Some (of_nat (address div 2 ^ 32))), (TAR, Some (of_nat address))])
      else if address > 0xFFFFFFFF then Err OutOfBounds
      else Ok (acs @ [(TAR, Some (of_nat address))]))"

text \<open>The DRW accesses of the elements from \<open>done\<close> on.\<close>

definition chunk_accesses :: "shape \<Rightarrow> (nat \<Rightarrow> nat \<Rightarrow> u32 option) \<Rightarrow> nat \<Rightarrow> nat \<Rightarrow> ap_accesses" where
  "chunk_accesses sh word i n =
     concat (map (\<lambda>e. map (\<lambda>j. (DRW, word e j)) [0..<drw_words (sh_width sh)]) [i..<i + n])"

function lower_from ::
  "memory_ap \<Rightarrow> shape \<Rightarrow> (nat \<Rightarrow> nat \<Rightarrow> u32 option) \<Rightarrow> nat \<Rightarrow> ap_accesses \<Rightarrow> (arm_error, ap_accesses) res"
where
  "lower_from ap sh word i acs =
     (if i < sh_elements sh then
        (case autoincr_max_bytes (element_address sh i) of
           Ok bytes \<Rightarrow>
             (let per_window = bytes div width_bytes (sh_width sh) in
              if per_window = 0 then Panic
              else
                let chunk = min (sh_elements sh - i) per_window in
                (case push_target_address ap (element_address sh i) acs of
                   Ok acs \<Rightarrow> lower_from ap sh word (i + chunk) (acs @ chunk_accesses sh word i chunk)
                 | Err e \<Rightarrow> Err e
                 | Panic \<Rightarrow> Panic))
         | Err e \<Rightarrow> Err e
         | Panic \<Rightarrow> Panic)
      else Ok acs)"
  by pat_completeness auto
termination
  by (relation "measure (\<lambda>(ap, sh, word, i, acs). sh_elements sh - i)") auto

declare lower_from.simps [simp del]

definition lower :: "memory_ap \<Rightarrow> shape \<Rightarrow> (nat \<Rightarrow> nat \<Rightarrow> u32 option) \<Rightarrow> (arm_error, ap_accesses) res" where
  "lower ap sh word =
     (case checked_add64 (sh_address sh) (sh_elements sh * width_bytes (sh_width sh)) of
        None \<Rightarrow> Err OutOfBounds
      | Some _ \<Rightarrow> lower_from ap sh word 0 [])"

fun kind_shape :: "operation_kind \<Rightarrow> (width \<times> nat) option" where
  "kind_shape (OpRead8 d) = Some (WU8, length d)"
| "kind_shape (OpRead16 d) = Some (WU16, length d)"
| "kind_shape (OpRead32 d) = Some (WU32, length d)"
| "kind_shape (OpRead64 d) = Some (WU64, length d)"
| "kind_shape (OpWrite8 d) = Some (WU8, length d)"
| "kind_shape (OpWrite16 d) = Some (WU16, length d)"
| "kind_shape (OpWrite32 d) = Some (WU32, length d)"
| "kind_shape (OpWrite64 d) = Some (WU64, length d)"
| "kind_shape (OpWriteWord8 d) = Some (WU8, 1)"
| "kind_shape (OpWriteWord16 d) = Some (WU16, 1)"
| "kind_shape (OpWriteWord32 d) = Some (WU32, 1)"
| "kind_shape (OpWriteWord64 d) = Some (WU64, 1)"
| "kind_shape (OpRead d) = None"
| "kind_shape (OpWrite d) = None"

definition shape_of :: "memory_ap \<Rightarrow> 'e operation \<Rightarrow> (arm_error, shape option) res" where
  "shape_of ap op =
     (case kind_shape (op_kind op) of
        None \<Rightarrow> Ok None
      | Some (w, n) \<Rightarrow>
          if w \<in> {WU8, WU16} \<and> only_32bit ap then Err (UnsupportedTransferWidth (width_bytes w * 8))
          else if \<not> width_bytes w dvd op_address op then Err (MemoryNotAligned (op_address op) (width_bytes w))
          else Ok (Some (shape_new (op_address op) w n)))"

text \<open>The DRW word that a written element puts in place \<open>j\<close>; none for a read.\<close>

abbreviation read_words :: "nat \<Rightarrow> nat \<Rightarrow> u32 option" where
  "read_words \<equiv> \<lambda>_ _. None"

definition lane_words :: "shape \<Rightarrow> 'w::len word list \<Rightarrow> nat \<Rightarrow> nat \<Rightarrow> u32 option" where
  "lane_words sh data = (\<lambda>e j. Some (put_lane sh (ucast (data ! e)) e))"

definition plain_words :: "u32 list \<Rightarrow> nat \<Rightarrow> nat \<Rightarrow> u32 option" where
  "plain_words data = (\<lambda>e j. Some (data ! e))"

definition split_words :: "u64 list \<Rightarrow> nat \<Rightarrow> nat \<Rightarrow> u32 option" where
  "split_words data = (\<lambda>e j. Some (if j = 0 then ucast (data ! e) else ucast (drop_bit 32 (data ! e))))"

fun lower_operation :: "memory_ap \<Rightarrow> operation_kind \<Rightarrow> shape \<Rightarrow> (arm_error, ap_accesses) res" where
  "lower_operation ap (OpRead8 d) sh = lower ap sh read_words"
| "lower_operation ap (OpRead16 d) sh = lower ap sh read_words"
| "lower_operation ap (OpRead32 d) sh = lower ap sh read_words"
| "lower_operation ap (OpRead64 d) sh = lower ap sh read_words"
| "lower_operation ap (OpWrite8 d) sh = lower ap sh (lane_words sh d)"
| "lower_operation ap (OpWrite16 d) sh = lower ap sh (lane_words sh d)"
| "lower_operation ap (OpWrite32 d) sh = lower ap sh (plain_words d)"
| "lower_operation ap (OpWrite64 d) sh = lower ap sh (split_words d)"
| "lower_operation ap (OpWriteWord8 d) sh = lower ap sh (lane_words sh [d])"
| "lower_operation ap (OpWriteWord16 d) sh = lower ap sh (lane_words sh [d])"
| "lower_operation ap (OpWriteWord32 d) sh = lower ap sh (plain_words [d])"
| "lower_operation ap (OpWriteWord64 d) sh = lower ap sh (split_words [d])"
| "lower_operation ap (OpRead d) sh = Panic"
| "lower_operation ap (OpWrite d) sh = Panic"

text \<open>The elements that a list of DRW words holds.\<close>

definition take_lanes :: "nat \<Rightarrow> width \<Rightarrow> nat \<Rightarrow> u32 list \<Rightarrow> (arm_error, 'w::len word list) res" where
  "take_lanes address w n ws =
     rtraverse (\<lambda>i. rmap (\<lambda>v. ucast (take_lane (shape_new address w n) v i)) (nth_r ws i)) [0..<n]"

definition join_words :: "nat \<Rightarrow> u32 list \<Rightarrow> (arm_error, u64 list) res" where
  "join_words n ws =
     rtraverse (\<lambda>i. rbind (nth_r ws (i * 2)) (\<lambda>lo. rbind (nth_r ws (i * 2 + 1)) (\<lambda>hi.
       Ok (ucast lo OR push_bit 32 (ucast hi)))) ) [0..<n]"

fun scatter :: "nat \<Rightarrow> operation_kind \<Rightarrow> u32 list \<Rightarrow> (arm_error, operation_kind) res" where
  "scatter address (OpRead8 d) ws = rmap OpRead8 (take_lanes address WU8 (length d) ws)"
| "scatter address (OpRead16 d) ws = rmap OpRead16 (take_lanes address WU16 (length d) ws)"
| "scatter address (OpRead32 d) ws = (if length ws = length d then Ok (OpRead32 ws) else Panic)"
| "scatter address (OpRead64 d) ws = rmap OpRead64 (join_words (length d) ws)"
| "scatter address k ws = Ok k"

subsection \<open>Transfer sizes in a batch\<close>

text \<open>The noted AP and the accesses gathered so far.\<close>

type_synonym 'a pushing = "(memory_ap \<times> ap_accesses, arm_error, 'a) rsm"

definition push_datasize :: "data_size \<Rightarrow> bool pushing" where
  "push_datasize sz s =
     (let (ap, acs) = s in
      case datasize_setup ap sz of
        Ok SetupReady \<Rightarrow> (Ok True, s)
      | Ok (SetupWrite v) \<Rightarrow> (Ok True, note_datasize sz ap, acs @ [(CSW, Some v)])
      | Ok SetupSeparately \<Rightarrow> (Ok False, s)
      | Err e \<Rightarrow> (Err e, s)
      | Panic \<Rightarrow> (Panic, s))"

definition push_fixed_datasize :: "data_size \<Rightarrow> unit pushing" where
  "push_fixed_datasize sz =
     sbind (push_datasize sz) (\<lambda>ok. if ok then sret () else slift (unsupported_width sz))"

definition push_lowered :: "shape \<Rightarrow> (nat \<Rightarrow> nat \<Rightarrow> u32 option) \<Rightarrow> unit pushing" where
  "push_lowered sh word s =
     (case lower (fst s) sh word of
        Ok lowered \<Rightarrow> (Ok (), fst s, snd s @ lowered)
      | Err e \<Rightarrow> (Err e, s)
      | Panic \<Rightarrow> (Panic, s))"

text \<open>One part of a byte-granular write: the size, then the elements.\<close>

definition push_piece ::
  "nat \<Rightarrow> width \<Rightarrow> nat \<Rightarrow> (shape \<Rightarrow> nat \<Rightarrow> nat \<Rightarrow> u32 option) \<Rightarrow> unit pushing" where
  "push_piece address w n word =
     (if n = 0 then sret ()
      else sbind (push_fixed_datasize (data_size_for w False)) (\<lambda>_.
        let sh = shape_new address w n in push_lowered sh (word sh)))"

definition push_byte_write :: "nat \<Rightarrow> u8 list \<Rightarrow> unit pushing" where
  "push_byte_write address data s =
     (let (ap, acs) = s in
      case next_multiple_of64 address 4 of
        Ok aligned \<Rightarrow>
          (let boundary = aligned - address;
               head = take (min boundary (length data)) data;
               rest = drop (min boundary (length data)) data;
               words = chunks_exact 4 rest;
               tail = drop (4 * length words) rest
           in if \<not> (head = [] \<and> tail = []) \<and> only_32bit ap then (Err (MemoryNotAligned address 4), s)
              else
                case checked_add64 address (length data) of
                  None \<Rightarrow> (Err OutOfBounds, s)
                | Some upto_a \<Rightarrow>
                    if upto_a > 0xFFFFFFFF \<and> \<not> large_address ap then (Err OutOfBounds, s)
                    else
                      (case sbind (push_piece address WU8 (length head) (\<lambda>sh. lane_words sh head)) (\<lambda>_.
                            sbind (push_piece (address + length head) WU32 (length words)
                                     (\<lambda>_. plain_words (map from_le words))) (\<lambda>_.
                            push_piece (address + (length head + length words * 4)) WU8 (length tail)
                              (\<lambda>sh. lane_words sh tail)))
                            (ap, []) of
                         (Ok _, ap, pieces) \<Rightarrow> (Ok (), ap, acs @ pieces)
                       | (Err e, ap, pieces) \<Rightarrow> (Err e, ap, acs)
                       | (Panic, ap, pieces) \<Rightarrow> (Panic, ap, acs)))
      | Err e \<Rightarrow> (Err e, s)
      | Panic \<Rightarrow> (Panic, s))"

subsection \<open>Gathering\<close>

record lowered =
  lo_accesses :: ap_accesses
  lo_spans :: "(nat \<times> nat) list"
  lo_words :: nat

definition lowered_default :: lowered where
  "lowered_default = \<lparr>lo_accesses = [], lo_spans = [], lo_words = 0\<rparr>"

definition stop :: "lowered \<Rightarrow> arm_error \<Rightarrow> (arm_error, lowered) res" where
  "stop lo e = (if lo_spans lo = [] then Err e else Ok lo)"

fun is_read :: "operation_kind \<Rightarrow> bool" where
  "is_read (OpRead8 d) = True"
| "is_read (OpRead16 d) = True"
| "is_read (OpRead32 d) = True"
| "is_read (OpRead64 d) = True"
| "is_read k = False"

type_synonym ('d, 'a) am = "('d adi, arm_error, 'a) rsm"

text \<open>An operation whose accesses are settled joins the batch.\<close>

definition join :: "operation_kind \<Rightarrow> shape \<Rightarrow> ap_accesses \<Rightarrow> lowered \<Rightarrow> lowered" where
  "join k sh acs lo =
     (let reads = if is_read k then shape_words sh else 0 in
      lo\<lparr>lo_accesses := lo_accesses lo @ acs, lo_spans := lo_spans lo @ [(lo_words lo, reads)],
         lo_words := lo_words lo + reads\<rparr>)"

definition adi_try_set_datasize :: "'d dap \<Rightarrow> data_size \<Rightarrow> ('d, unit) am" where
  "adi_try_set_datasize dap sz s =
     (case try_set_datasize dap sz (adi_ap s, adi_dap s) of
        (r, ap, d) \<Rightarrow> (r, s\<lparr>adi_ap := ap, adi_dap := d\<rparr>))"

fun gather_from :: "'d dap \<Rightarrow> 'e operation list \<Rightarrow> lowered \<Rightarrow> ('d, lowered) am" where
  "gather_from dap [] lo s = (Ok lo, s)"
| "gather_from dap (op # ops) lo s =
     (case op_kind op of
        OpWrite data \<Rightarrow>
          (case push_byte_write (op_address op) data (adi_ap s, lo_accesses lo) of
             (Ok _, ap, acs) \<Rightarrow>
               gather_from dap ops
                 (lo\<lparr>lo_accesses := acs, lo_spans := lo_spans lo @ [(lo_words lo, 0)]\<rparr>) (s\<lparr>adi_ap := ap\<rparr>)
           | (Err e, ap, acs) \<Rightarrow> (stop (lo\<lparr>lo_accesses := acs\<rparr>) e, s\<lparr>adi_ap := ap\<rparr>)
           | (Panic, ap, acs) \<Rightarrow> (Panic, s\<lparr>adi_ap := ap\<rparr>))
      | k \<Rightarrow>
          (case shape_of (adi_ap s) op of
             Ok None \<Rightarrow> (Ok lo, s)
           | Err e \<Rightarrow> (stop lo e, s)
           | Panic \<Rightarrow> (Panic, s)
           | Ok (Some sh) \<Rightarrow>
               (case lower_operation (adi_ap s) k sh of
                  Err e \<Rightarrow> (stop lo e, s)
                | Panic \<Rightarrow> (Panic, s)
                | Ok lowered \<Rightarrow>
                    (let sz = data_size_for (sh_width sh) (large_data (adi_ap s)) in
                     case push_datasize sz (adi_ap s, lo_accesses lo) of
                       (Ok True, ap, acs) \<Rightarrow>
                         gather_from dap ops (join k sh lowered (lo\<lparr>lo_accesses := acs\<rparr>)) (s\<lparr>adi_ap := ap\<rparr>)
                     | (Ok False, ap, acs) \<Rightarrow>
                         (if lo_spans lo \<noteq> [] then (Ok (lo\<lparr>lo_accesses := acs\<rparr>), s\<lparr>adi_ap := ap\<rparr>)
                          else sbind (adi_try_set_datasize dap sz)
                                 (\<lambda>_. gather_from dap ops (join k sh lowered (lo\<lparr>lo_accesses := acs\<rparr>)))
                                 (s\<lparr>adi_ap := ap\<rparr>))
                     | (Err e, ap, acs) \<Rightarrow> (stop (lo\<lparr>lo_accesses := acs\<rparr>) e, s\<lparr>adi_ap := ap\<rparr>)
                     | (Panic, ap, acs) \<Rightarrow> (Panic, s\<lparr>adi_ap := ap\<rparr>)))))"

definition gather :: "'d dap \<Rightarrow> 'e operation list \<Rightarrow> ('d, lowered) am" where
  "gather dap ops = gather_from dap ops lowered_default"

subsection \<open>Running\<close>

definition raw_access :: "'d dap \<Rightarrow> ap_accesses \<Rightarrow> ('d, u32 list) am" where
  "raw_access dap acs s =
     (case da_access dap acs (adi_dap s) of (r, d) \<Rightarrow> (r, s\<lparr>adi_dap := d\<rparr>))"

text \<open>After an error: read CSW again, and trust the AP no more when that fails too.\<close>

definition resync :: "'d dap \<Rightarrow> 'd adi \<Rightarrow> 'd adi" where
  "resync dap s =
     (case status dap (adi_ap s, adi_dap s) of
        (r, ap, d) \<Rightarrow> s\<lparr>adi_ap := ap, adi_dap := d, adi_trusted := (adi_trusted s \<and> is_ok r)\<rparr>)"

definition on_error :: "'d dap \<Rightarrow> ('d, 'a) am \<Rightarrow> ('d, 'a) am" where
  "on_error dap m s = (case m s of (Err e, t) \<Rightarrow> (Err e, resync dap t) | r \<Rightarrow> r)"

definition run_shape ::
  "'d dap \<Rightarrow> shape \<Rightarrow> (nat \<Rightarrow> nat \<Rightarrow> u32 option) \<Rightarrow> ('d, u32 list) am" where
  "run_shape dap sh word s =
     (case lower (adi_ap s) sh word of
        Err e \<Rightarrow> (Err e, s)
      | Panic \<Rightarrow> (Panic, s)
      | Ok transfers \<Rightarrow>
          (let sz = data_size_for (sh_width sh) (large_data (adi_ap s)) in
           case push_datasize sz (adi_ap s, []) of
             (Err e, ap, acs) \<Rightarrow> (Err e, s\<lparr>adi_ap := ap\<rparr>)
           | (Panic, ap, acs) \<Rightarrow> (Panic, s\<lparr>adi_ap := ap\<rparr>)
           | (Ok ready, ap, acs) \<Rightarrow>
               sbind (if ready then sret () else on_error dap (adi_try_set_datasize dap sz))
                 (\<lambda>_. on_error dap (raw_access dap (acs @ transfers))) (s\<lparr>adi_ap := ap\<rparr>)))"

definition run_read :: "'d dap \<Rightarrow> shape \<Rightarrow> ('d, u32 list) am" where
  "run_read dap sh = run_shape dap sh read_words"

definition run_write :: "'d dap \<Rightarrow> shape \<Rightarrow> (nat \<Rightarrow> nat \<Rightarrow> u32 option) \<Rightarrow> ('d, unit) am" where
  "run_write dap sh word = sbind (run_shape dap sh word) (\<lambda>_. sret ())"

subsection \<open>The memory interface\<close>

definition adi_read_64 :: "'d dap \<Rightarrow> nat \<Rightarrow> nat \<Rightarrow> ('d, u64 list) am" where
  "adi_read_64 dap address n =
     (if n = 0 then sret []
      else if \<not> 8 dvd address then sfail (MemoryNotAligned address 8)
      else sbind (run_read dap (shape_new address WU64 n)) (\<lambda>ws. slift (join_words n ws)))"

definition adi_read_32 :: "'d dap \<Rightarrow> nat \<Rightarrow> nat \<Rightarrow> ('d, u32 list) am" where
  "adi_read_32 dap address n =
     (if n = 0 then sret []
      else if \<not> 4 dvd address then sfail (MemoryNotAligned address 4)
      else run_read dap (shape_new address WU32 n))"

definition adi_read_16 :: "'d dap \<Rightarrow> nat \<Rightarrow> nat \<Rightarrow> ('d, u16 list) am" where
  "adi_read_16 dap address n s =
     (if only_32bit (adi_ap s) then (Err (UnsupportedTransferWidth 16), s)
      else if \<not> 2 dvd address then (Err (MemoryNotAligned address 2), s)
      else if n = 0 then (Ok [], s)
      else sbind (run_read dap (shape_new address WU16 n)) (\<lambda>ws. slift (take_lanes address WU16 n ws)) s)"

definition adi_read_8 :: "'d dap \<Rightarrow> nat \<Rightarrow> nat \<Rightarrow> ('d, u8 list) am" where
  "adi_read_8 dap address n s =
     (if only_32bit (adi_ap s) then (Err (UnsupportedTransferWidth 8), s)
      else if n = 0 then (Ok [], s)
      else sbind (run_read dap (shape_new address WU8 n)) (\<lambda>ws. slift (take_lanes address WU8 n ws)) s)"

definition adi_write_64 :: "'d dap \<Rightarrow> nat \<Rightarrow> u64 list \<Rightarrow> ('d, unit) am" where
  "adi_write_64 dap address data =
     (if \<not> 8 dvd address then sfail (MemoryNotAligned address 8)
      else if data = [] then sret ()
      else run_write dap (shape_new address WU64 (length data)) (split_words data))"

definition adi_write_32 :: "'d dap \<Rightarrow> nat \<Rightarrow> u32 list \<Rightarrow> ('d, unit) am" where
  "adi_write_32 dap address data =
     (if \<not> 4 dvd address then sfail (MemoryNotAligned address 4)
      else if data = [] then sret ()
      else run_write dap (shape_new address WU32 (length data)) (plain_words data))"

definition adi_write_16 :: "'d dap \<Rightarrow> nat \<Rightarrow> u16 list \<Rightarrow> ('d, unit) am" where
  "adi_write_16 dap address data s =
     (if only_32bit (adi_ap s) then (Err (UnsupportedTransferWidth 16), s)
      else if \<not> 2 dvd address then (Err (MemoryNotAligned address 2), s)
      else if data = [] then (Ok (), s)
      else let sh = shape_new address WU16 (length data) in run_write dap sh (lane_words sh data) s)"

definition adi_write_8 :: "'d dap \<Rightarrow> nat \<Rightarrow> u8 list \<Rightarrow> ('d, unit) am" where
  "adi_write_8 dap address data s =
     (if only_32bit (adi_ap s) then (Err (UnsupportedTransferWidth 8), s)
      else if data = [] then (Ok (), s)
      else let sh = shape_new address WU8 (length data) in run_write dap sh (lane_words sh data) s)"

definition adi_flush :: "'d dap \<Rightarrow> ('d, unit) am" where
  "adi_flush dap s = (case da_flush dap (adi_dap s) of (r, d) \<Rightarrow> (r, s\<lparr>adi_dap := d\<rparr>))"

definition adi_prims :: "'d dap \<Rightarrow> ('d adi, arm_error) memory_prims" where
  "adi_prims dap =
     \<lparr>mi_native_64 = (\<lambda>s. large_data (adi_ap s)),
      mi_supports_8bit = (\<lambda>s. Ok (\<not> only_32bit (adi_ap s))),
      mi_read_64 = adi_read_64 dap, mi_read_32 = adi_read_32 dap,
      mi_read_16 = adi_read_16 dap, mi_read_8 = adi_read_8 dap,
      mi_write_64 = adi_write_64 dap, mi_write_32 = adi_write_32 dap,
      mi_write_16 = adi_write_16 dap, mi_write_8 = adi_write_8 dap,
      mi_flush = adi_flush dap,
      mi_invalid_length = InvalidDataLength, mi_not_aligned = MemoryNotAligned\<rparr>"

definition adi_read :: "'d dap \<Rightarrow> nat \<Rightarrow> nat \<Rightarrow> ('d, u8 list) am" where
  "adi_read dap = default_read (adi_prims dap)"

text \<open>The results of a batch go back into its operations.\<close>

fun scatter_all ::
  "u32 list \<Rightarrow> 'e operation list \<Rightarrow> (nat \<times> nat) list \<Rightarrow> (arm_error, 'e operation list) res" where
  "scatter_all values (op # ops) ((first, reads) # spans) =
     rbind (slice_r values first (first + reads)) (\<lambda>ws.
     rbind (scatter (op_address op) (op_kind op) ws) (\<lambda>k.
     rbind (scatter_all values ops spans) (\<lambda>ops.
     Ok (op\<lparr>op_kind := k, op_result := Some (Ok ())\<rparr> # ops))))"
| "scatter_all values ops spans = Ok []"

text \<open>
  The operations from index \<open>start\<close> on: the outcome, the operations as they are left behind and
  the state.
\<close>

function run_from ::
  "'d dap \<Rightarrow> nat \<Rightarrow> 'e operation list \<Rightarrow> 'd adi \<Rightarrow> (nat \<times> arm_error, unit) res \<times> 'e operation list \<times> 'd adi"
where
  "run_from dap start [] s = (Ok (), [], s)"
| "run_from dap start (op # ops) s =
     (case op_kind op of
        OpRead d \<Rightarrow>
          (case adi_read dap (op_address op) (length d) s of
             (Ok bytes, s) \<Rightarrow>
               (case run_from dap (start + 1) ops s of
                  (r, ops, s) \<Rightarrow> (r, op\<lparr>op_kind := OpRead bytes, op_result := Some (Ok ())\<rparr> # ops, s))
           | (Err e, s) \<Rightarrow> (Err (start, e), op # ops, s)
           | (Panic, s) \<Rightarrow> (Panic, op # ops, s))
      | _ \<Rightarrow>
          (case on_error dap (gather dap (op # ops)) s of
             (Err e, s) \<Rightarrow> (Err (start, e), op # ops, s)
           | (Panic, s) \<Rightarrow> (Panic, op # ops, s)
           | (Ok lo, s) \<Rightarrow>
               (let n = length (lo_spans lo) in
                if n = 0 then (Panic, op # ops, s)
                else
                  (case on_error dap (raw_access dap (lo_accesses lo)) s of
                     (Err e, s) \<Rightarrow> (Err (start, e), op # ops, s)
                   | (Panic, s) \<Rightarrow> (Panic, op # ops, s)
                   | (Ok values, s) \<Rightarrow>
                       (case scatter_all values (take n (op # ops)) (lo_spans lo) of
                          Ok batch \<Rightarrow>
                            (case run_from dap (start + n) (drop n (op # ops)) s of
                               (r, ops, s) \<Rightarrow> (r, batch @ ops, s))
                        | _ \<Rightarrow> (Panic, op # ops, s))))))"
  by pat_completeness auto
termination
  by (relation "measure (\<lambda>(dap, start, ops, s). length ops)") auto

definition run_operations ::
  "'d dap \<Rightarrow> 'e operation list \<Rightarrow> 'd adi \<Rightarrow> (nat \<times> arm_error, unit) res \<times> 'e operation list \<times> 'd adi" where
  "run_operations dap ops s = run_from dap 0 ops s"

definition adi_write :: "'d dap \<Rightarrow> nat \<Rightarrow> u8 list \<Rightarrow> ('d, unit) am" where
  "adi_write dap address data s =
     (case run_operations dap [operation_new address (OpWrite data) :: arm_error operation] s of
        (Ok _, _, s) \<Rightarrow> (Ok (), s)
      | (Err (_, e), _, s) \<Rightarrow> (Err e, s)
      | (Panic, _, s) \<Rightarrow> (Panic, s))"

definition adi_execute_memory_operations ::
  "'d dap \<Rightarrow> arm_error operation list \<Rightarrow> ('d, arm_error operation list) am" where
  "adi_execute_memory_operations dap ops s =
     (case run_operations dap ops s of
        (Ok _, ops, s) \<Rightarrow> (Ok ops, s)
      | (Err (i, e), ops, s) \<Rightarrow> (Ok (ops[i := (ops ! i)\<lparr>op_result := Some (Err e)\<rparr>]), s)
      | (Panic, ops, s) \<Rightarrow> (Panic, s))"

definition adi_interface :: "'d dap \<Rightarrow> ('d adi, arm_error) memory_interface" where
  "adi_interface dap =
     memory_prims.extend (adi_prims dap) \<lparr>mi_read = adi_read dap, mi_write = adi_write dap\<rparr>"

end
