(* ===== verification/Adi_Flat.thy ===== *)
theory Adi_Flat
  imports Adi_Memory
begin

text \<open>
  The memory interface on an AP with the documented behaviour is a flat byte memory. The AP is a
  small machine over its registers: CSW sets the transfer size, TAR the address, an access of
  DRW moves the bytes at TAR through their byte lane and advances TAR, which is unknown once it
  has reached a 1 KiB boundary. The contract of a register access is that it runs this machine.
\<close>

subsection \<open>The documented AP\<close>

record ap_view =
  av_size :: data_size
  av_inc :: address_increment
  av_hi :: nat
  av_lo :: "nat option"
  av_mem :: flat

definition lane_bytes :: "nat \<Rightarrow> nat \<Rightarrow> u32 \<Rightarrow> u8 list" where
  "lane_bytes n a w = to_le n (drop_bit (8 * (a mod 4)) w)"

fun size_bytes :: "data_size \<Rightarrow> nat option" where
  "size_bytes DsU8 = Some 1"
| "size_bytes DsU16 = Some 2"
| "size_bytes DsU32 = Some 4"
| "size_bytes _ = None"

text \<open>What a DRW access does to the memory, and what it has to read.\<close>

type_synonym expected = "nat \<times> nat \<times> u8 list"

fun drw_effect :: "nat \<Rightarrow> nat \<Rightarrow> u32 option \<Rightarrow> flat \<Rightarrow> flat" where
  "drw_effect n a None f = f"
| "drw_effect n a (Some w) f = poke f a (lane_bytes n a w)"

fun drw_expect :: "nat \<Rightarrow> nat \<Rightarrow> u32 option \<Rightarrow> flat \<Rightarrow> expected list" where
  "drw_expect n a None f = [(n, a, peek f a n)]"
| "drw_expect n a (Some w) f = []"

definition ap_drw :: "nat \<Rightarrow> u32 option \<Rightarrow> ap_view \<Rightarrow> (ap_view \<times> expected list) option" where
  "ap_drw limit x v =
     (case (size_bytes (av_size v), av_lo v) of
        (Some n, Some lo) \<Rightarrow>
          (let a = av_hi v * 2 ^ 32 + lo in
           if av_inc v = IncSingle \<and> n dvd a \<and> a + n \<le> limit
           then Some (v\<lparr>av_lo := (if 0x400 dvd a + n then None else Some (lo + n)),
                        av_mem := drw_effect n a x (av_mem v)\<rparr>,
                      drw_expect n a x (av_mem v))
           else None)
      | _ \<Rightarrow> None)"

definition ap_step :: "nat \<Rightarrow> bool \<Rightarrow> nat \<times> u32 option \<Rightarrow> ap_view \<Rightarrow> (ap_view \<times> expected list) option" where
  "ap_step limit la ac v =
     (case ac of (addr, x) \<Rightarrow>
        if addr = DRW then ap_drw limit x v
        else (case x of
           None \<Rightarrow> None
         | Some w \<Rightarrow>
             if addr = CSW then Some (v\<lparr>av_size := csw_size w, av_inc := csw_addr_inc w\<rparr>, [])
             else if addr = TAR then Some (v\<lparr>av_lo := Some (unat w)\<rparr>, [])
             else if addr = TAR2 \<and> la then Some (v\<lparr>av_hi := unat w\<rparr>, [])
             else None))"

fun ap_run :: "nat \<Rightarrow> bool \<Rightarrow> ap_accesses \<Rightarrow> ap_view \<Rightarrow> (ap_view \<times> expected list) option" where
  "ap_run limit la [] v = Some (v, [])"
| "ap_run limit la (ac # acs) v =
     (case ap_step limit la ac v of
        None \<Rightarrow> None
      | Some (u, es) \<Rightarrow> map_option (\<lambda>(w, fs). (w, es @ fs)) (ap_run limit la acs u))"

definition word_ok :: "expected \<Rightarrow> u32 \<Rightarrow> bool" where
  "word_ok e w = (case e of (n, a, bs) \<Rightarrow> lane_bytes n a w = bs)"

lemma ap_run_append:
  "ap_run limit la acs v = Some (u, es) \<Longrightarrow> ap_run limit la acs' u = Some (w, fs) \<Longrightarrow>
     ap_run limit la (acs @ acs') v = Some (w, es @ fs)"
  by (induction acs arbitrary: v es) (fastforce split: option.splits)+

lemma ap_step_simps:
  "ap_step limit la (CSW, Some w) v = Some (v\<lparr>av_size := csw_size w, av_inc := csw_addr_inc w\<rparr>, [])"
  "ap_step limit la (TAR, Some w) v = Some (v\<lparr>av_lo := Some (unat w)\<rparr>, [])"
  "ap_step limit True (TAR2, Some w) v = Some (v\<lparr>av_hi := unat w\<rparr>, [])"
  "ap_step limit la (DRW, x) v = ap_drw limit x v"
  by (simp_all add: ap_step_def register_addresses)

subsection \<open>A run of DRW accesses\<close>

fun drw_seq :: "nat \<Rightarrow> nat \<Rightarrow> u32 option list \<Rightarrow> flat \<Rightarrow> flat \<times> expected list" where
  "drw_seq n a [] f = (f, [])"
| "drw_seq n a (x # xs) f =
     (case drw_seq n (a + n) xs (drw_effect n a x f) of (g, es) \<Rightarrow> (g, drw_expect n a x f @ es))"

lemma drw_seq_append:
  "drw_seq n a xs f = (g, es) \<Longrightarrow> drw_seq n (a + length xs * n) ys g = (h, fs) \<Longrightarrow>
     drw_seq n a (xs @ ys) f = (h, es @ fs)"
proof (induction xs arbitrary: a f es)
  case Nil
  then show ?case by simp
next
  case (Cons x xs)
  obtain es' where e: "drw_seq n (a + n) xs (drw_effect n a x f) = (g, es')" "es = drw_expect n a x f @ es'"
    using Cons.prems(1) by (auto split: prod.splits)
  have "a + n + length xs * n = a + length (x # xs) * n" by simp
  then have "drw_seq n (a + n + length xs * n) ys g = (h, fs)" using Cons.prems(2) by (simp only:)
  from Cons.IH [OF e(1) this] show ?case using e(2) by simp
qed

lemma drw_seq_reads:
  "drw_seq n a (replicate k None) f = (f, map (\<lambda>j. (n, a + j * n, peek f (a + j * n) n)) [0..<k])"
proof (induction k arbitrary: a)
  case 0
  then show ?case by simp
next
  case (Suc k)
  have "map (\<lambda>j. (n, a + n + j * n, peek f (a + n + j * n) n)) [0..<k]
      = map (\<lambda>j. (n, a + Suc j * n, peek f (a + Suc j * n) n)) [0..<k]"
    by (simp add: add.assoc)
  then show ?case
    using Suc by (simp add: upt_conv_Cons map_Suc_upt [symmetric] comp_def del: upt_Suc)
qed

lemma drw_seq_writes:
  "drw_seq n a (map Some ws) f
     = (poke f a (concat (map (\<lambda>j. lane_bytes n (a + j * n) (ws ! j)) [0..<length ws])), [])"
proof (induction ws arbitrary: a f)
  case Nil
  then show ?case by simp
next
  case (Cons w ws)
  let ?rest = "concat (map (\<lambda>j. lane_bytes n (a + n + j * n) (ws ! j)) [0..<length ws])"
  have len: "length (lane_bytes n a w) = n" by (simp add: lane_bytes_def)
  have "poke (poke f a (lane_bytes n a w)) (a + n) ?rest = poke f a (lane_bytes n a w @ ?rest)"
    using poke_append [of f a "lane_bytes n a w" ?rest] by (simp add: len)
  moreover have "concat (map (\<lambda>j. lane_bytes n (a + j * n) ((w # ws) ! j)) [0..<length (w # ws)])
      = lane_bytes n a w @ ?rest"
    by (simp add: upt_conv_Cons map_Suc_upt [symmetric] comp_def add.assoc del: upt_Suc)
  ultimately show ?case using Cons by simp
qed

text \<open>Inside one window the machine does just that.\<close>

lemma ap_run_drw:
  assumes "size_bytes (av_size v) = Some n" "av_inc v = IncSingle" "n dvd a"
    and "xs \<noteq> [] \<longrightarrow> (\<exists>lo. av_lo v = Some lo \<and> av_hi v * 2 ^ 32 + lo = a)"
    and "a mod 0x400 + length xs * n \<le> 0x400" "a + length xs * n \<le> limit"
  shows "\<exists>v'. ap_run limit la (map (Pair DRW) xs) v = Some (v', snd (drw_seq n a xs (av_mem v)))
    \<and> av_mem v' = fst (drw_seq n a xs (av_mem v)) \<and> av_size v' = av_size v \<and> av_inc v' = av_inc v
    \<and> av_hi v' = av_hi v"
  using assms
proof (induction xs arbitrary: v a)
  case Nil
  then show ?case by simp
next
  case (Cons x xs)
  have n: "0 < n" using Cons.prems(1) by (cases "av_size v") auto
  obtain lo where lo: "av_lo v = Some lo" "av_hi v * 2 ^ 32 + lo = a" using Cons.prems(4) by auto
  let ?u = "v\<lparr>av_lo := (if 0x400 dvd a + n then None else Some (lo + n)), av_mem := drw_effect n a x (av_mem v)\<rparr>"
  have step: "ap_drw limit x v = Some (?u, drw_expect n a x (av_mem v))"
    using Cons.prems(1,2,3,6) lo by (simp add: ap_drw_def)
  have fits: "a mod 0x400 + n + length xs * n \<le> 0x400" using Cons.prems(5) by simp
  have inside: "(a + n) mod 0x400 = a mod 0x400 + n \<and> \<not> 0x400 dvd a + n" if "xs \<noteq> []"
  proof -
    have "0 < length xs * n" using that n by simp
    then have "a mod 0x400 + n < 0x400" using fits by linarith
    then have "(a + n) mod 0x400 = a mod 0x400 + n"
      by (metis mod_add_left_eq mod_less)
    then show ?thesis using n by (auto simp: dvd_eq_mod_eq_0)
  qed
  have "xs \<noteq> [] \<longrightarrow> (\<exists>lo. av_lo ?u = Some lo \<and> av_hi ?u * 2 ^ 32 + lo = a + n)"
    using inside lo(2) by auto
  moreover have "(a + n) mod 0x400 + length xs * n \<le> 0x400"
    using inside fits by (cases "xs = []") auto
  ultimately obtain v' where v': "ap_run limit la (map (Pair DRW) xs) ?u
      = Some (v', snd (drw_seq n (a + n) xs (av_mem ?u)))"
    "av_mem v' = fst (drw_seq n (a + n) xs (av_mem ?u))" "av_size v' = av_size v" "av_inc v' = av_inc v"
    "av_hi v' = av_hi v"
    using Cons.IH [of ?u "a + n"] Cons.prems(1,2,3,6) by (auto simp: add.assoc)
  then show ?case
    using step by (auto simp: ap_step_simps split: prod.splits)
qed

subsection \<open>Lowered accesses\<close>

definition part_bytes :: "width \<Rightarrow> nat" where
  "part_bytes w = (case w of WU8 \<Rightarrow> 1 | WU16 \<Rightarrow> 2 | _ \<Rightarrow> 4)"

lemma width_parts:
  "width_bytes w = drw_words w * part_bytes w" "size_bytes (data_size_for w False) = Some (part_bytes w)"
  "0 < width_bytes w" "0 < drw_words w" "part_bytes w dvd width_bytes w" "part_bytes w dvd 4"
  "data_size_for w False \<in> {DsU8, DsU16, DsU32}"
  by (cases w; simp add: part_bytes_def)+

definition part_list :: "width \<Rightarrow> (nat \<Rightarrow> nat \<Rightarrow> u32 option) \<Rightarrow> nat \<Rightarrow> nat \<Rightarrow> u32 option list" where
  "part_list w word i j = concat (map (\<lambda>e. map (word e) [0..<drw_words w]) [i..<j])"

lemma length_part_list: "length (part_list w word i j) = (j - i) * drw_words w"
  by (simp add: part_list_def length_concat comp_def sum_list_triv)

lemma part_list_append: "i \<le> j \<Longrightarrow> j \<le> k \<Longrightarrow> part_list w word i j @ part_list w word j k = part_list w word i k"
proof -
  assume "i \<le> j" "j \<le> k"
  then have "[i..<k] = [i..<j] @ [j..<k]" using upt_add_eq_append [of i j "k - j"] by simp
  then show ?thesis by (simp add: part_list_def)
qed

lemma chunk_accesses_parts:
  "chunk_accesses sh word i n = map (Pair DRW) (part_list (sh_width sh) word i (i + n))"
  by (simp add: chunk_accesses_def part_list_def map_concat comp_def)

lemma autoincr_max_bytes_Ok:
  assumes "autoincr_max_bytes a = Ok m"
  shows "a mod 0x400 + m = 0x400"
proof -
  obtain c where c: "next_multiple_of64 (a + 1) autoincr_limit = (Ok c :: (unit, nat) res)" "m = c - a"
    using assms by (auto simp: autoincr_max_bytes_def next_multiple_of64_def add_w_def sub_r_def split: if_splits)
  from next_multiple_of64_Ok [OF c(1)] have b: "a + 1 \<le> c" "0x400 dvd c" "c < a + 1 + 0x400"
    by (simp_all add: autoincr_limit_def)
  have "a + m = c" using b(1) c(2) by simp
  then have "0x400 dvd a mod 0x400 + m"
    using b(2) by (metis dvd_eq_mod_eq_0 mod_add_left_eq)
  then obtain k where k: "a mod 0x400 + m = 0x400 * k" by blast
  moreover have "0 < a mod 0x400 + m" "a mod 0x400 + m < 0x400 * 2"
  proof -
    have "0 < m" "m \<le> 0x400" using b(1,3) c(2) by simp_all
    moreover have "a mod 0x400 < 0x400" by simp
    ultimately show "0 < a mod 0x400 + m" "a mod 0x400 + m < 0x400 * 2" by linarith+
  qed
  ultimately have "k = 1" by simp
  then show ?thesis using k by simp
qed

text \<open>The noted AP tells what the AP does.\<close>

definition agrees :: "bool \<Rightarrow> memory_ap \<Rightarrow> ap_view \<Rightarrow> bool" where
  "agrees la ap v \<longleftrightarrow>
     av_inc v = IncSingle \<and> large_address ap = la \<and> \<not> large_data ap \<and> (la \<or> av_hi v = 0)
     \<and> (if only_32bit ap then av_size v = DsU32
        else av_size v = csw_size (ma_csw ap) \<and> csw_addr_inc (ma_csw ap) = IncSingle)"

lemma push_target_run:
  assumes "push_target_address ap a acs = Ok out" "agrees la ap v" "a < 2 ^ 64"
  shows "\<exists>more lo hi. out = acs @ more \<and> ap_run limit la more v = Some (v\<lparr>av_hi := hi, av_lo := Some lo\<rparr>, [])
    \<and> hi * 2 ^ 32 + lo = a \<and> (la \<or> hi = 0)"
proof (cases la)
  case True
  let ?hi = "unat (of_nat (a div 2 ^ 32) :: u32)" and ?lo = "unat (of_nat a :: u32)"
  have "?hi = a div 2 ^ 32" using assms(3) by (simp add: unat_of_nat)
  moreover have "?lo = a mod 2 ^ 32" by (simp add: unat_of_nat)
  ultimately have "?hi * 2 ^ 32 + ?lo = a" by simp
  then show ?thesis
    using assms(1,2) True
    by (intro exI [of _ "[(TAR2, Some (of_nat (a div 2 ^ 32))), (TAR, Some (of_nat a))]"] exI [of _ ?lo] exI [of _ ?hi])
      (simp add: push_target_address_def agrees_def ap_step_simps)
next
  case False
  then have a: "a \<le> 0xFFFFFFFF" "out = acs @ [(TAR, Some (of_nat a))]" "av_hi v = 0"
    using assms(1,2) by (auto simp: push_target_address_def agrees_def split: if_splits)
  have "unat (of_nat a :: u32) = a" using a(1) by (simp add: unat_of_nat)
  moreover have "v\<lparr>av_hi := 0, av_lo := Some a\<rparr> = v\<lparr>av_lo := Some a\<rparr>" using a(3) by simp
  ultimately show ?thesis
    using a(2) by (intro exI [of _ "[(TAR, Some (of_nat a))]"] exI [of _ a] exI [of _ 0]) (simp add: ap_step_simps)
qed

lemma lower_from_run:
  assumes "lower_from ap sh word i acs = Ok out" "agrees la ap v" "i \<le> sh_elements sh"
    and "size_bytes (av_size v) = Some (part_bytes (sh_width sh))"
    and "width_bytes (sh_width sh) dvd sh_address sh"
    and "sh_address sh + sh_elements sh * width_bytes (sh_width sh) \<le> limit" "limit \<le> 2 ^ 64"
  shows "\<exists>more v'. out = acs @ more \<and> agrees la ap v'
    \<and> ap_run limit la more v = Some (v', snd (drw_seq (part_bytes (sh_width sh)) (element_address sh i)
         (part_list (sh_width sh) word i (sh_elements sh)) (av_mem v)))
    \<and> av_mem v' = fst (drw_seq (part_bytes (sh_width sh)) (element_address sh i)
         (part_list (sh_width sh) word i (sh_elements sh)) (av_mem v))
    \<and> av_size v' = av_size v"
  using assms
proof (induction ap sh word i acs arbitrary: v rule: lower_from.induct)
  case (1 ap sh word i acs)
  let ?w = "sh_width sh" let ?n = "part_bytes ?w" let ?a = "element_address sh i"
  show ?case
  proof (cases "i < sh_elements sh")
    case False
    then have "i = sh_elements sh" "out = acs" using "1.prems"(1,3) by (auto simp: lower_from.simps)
    then show ?thesis using "1.prems"(2) by (intro exI [of _ "[]"] exI [of _ v]) (simp add: part_list_def)
  next
    case True
    obtain m where m: "autoincr_max_bytes ?a = (Ok m :: (arm_error, nat) res)" "m div width_bytes ?w \<noteq> 0"
      using "1.prems"(1) True by (subst (asm) lower_from.simps) (auto simp: Let_def split: res.splits if_splits)
    define c where "c = min (sh_elements sh - i) (m div width_bytes ?w)"
    obtain acs1 where p: "push_target_address ap ?a acs = Ok acs1"
      "lower_from ap sh word (i + c) (acs1 @ chunk_accesses sh word i c) = Ok out"
      using "1.prems"(1) True m by (subst (asm) lower_from.simps) (auto simp: Let_def c_def split: res.splits)
    have c: "0 < c" "i + c \<le> sh_elements sh" "c * width_bytes ?w \<le> m"
      using True m(2) by (auto simp: c_def intro: order.trans [OF mult_le_mono1 [OF min.cobounded2] div_times_less_eq_dividend])
    have end_le: "?a + c * width_bytes ?w \<le> limit"
    proof -
      have "?a + c * width_bytes ?w = sh_address sh + (i + c) * width_bytes ?w"
        by (simp add: element_address_def algebra_simps)
      also have "\<dots> \<le> sh_address sh + sh_elements sh * width_bytes ?w"
        using c(2) by (intro add_left_mono mult_le_mono1)
      finally show ?thesis using "1.prems"(6) by simp
    qed
    have "0 < c * width_bytes ?w" using c(1) width_parts(3) by simp
    then have "?a < 2 ^ 64" using end_le "1.prems"(7) by linarith
    then obtain more1 lo hi where t: "acs1 = acs @ more1"
      "ap_run limit la more1 v = Some (v\<lparr>av_hi := hi, av_lo := Some lo\<rparr>, [])" "hi * 2 ^ 32 + lo = ?a" "la \<or> hi = 0"
      using push_target_run [OF p(1) "1.prems"(2)] by blast
    let ?v = "v\<lparr>av_hi := hi, av_lo := Some lo\<rparr>" let ?xs = "part_list ?w word i (i + c)"
    have len: "length ?xs * ?n = c * width_bytes ?w" by (simp add: length_part_list width_parts(1) [of ?w])
    have al: "?n dvd ?a"
      using "1.prems"(5) width_parts(5) [of ?w] unfolding element_address_def
      by (meson dvd_add dvd_mult dvd_trans)
    have "?a mod 0x400 + length ?xs * ?n \<le> 0x400"
      using autoincr_max_bytes_Ok [OF m(1)] c(3) len by linarith
    moreover have "av_inc ?v = IncSingle" using "1.prems"(2) by (simp add: agrees_def)
    ultimately obtain v1 where v1: "ap_run limit la (map (Pair DRW) ?xs) ?v = Some (v1, snd (drw_seq ?n ?a ?xs (av_mem v)))"
      "av_mem v1 = fst (drw_seq ?n ?a ?xs (av_mem v))" "av_size v1 = av_size v" "av_inc v1 = av_inc v" "av_hi v1 = hi"
      using ap_run_drw [of ?v ?n ?a ?xs limit la] "1.prems"(4) al t(3) end_le len by auto
    have ag: "agrees la ap v1" using "1.prems"(2) v1(3-5) t(4) by (auto simp: agrees_def)
    have next_a: "element_address sh (i + c) = ?a + length ?xs * ?n"
      using len by (simp add: element_address_def algebra_simps)
    let ?ys = "part_list ?w word (i + c) (sh_elements sh)"
    obtain more2 v' where r: "out = (acs1 @ chunk_accesses sh word i c) @ more2" "agrees la ap v'"
      "ap_run limit la more2 v1 = Some (v', snd (drw_seq ?n (?a + length ?xs * ?n) ?ys (av_mem v1)))"
      "av_mem v' = fst (drw_seq ?n (?a + length ?xs * ?n) ?ys (av_mem v1))" "av_size v' = av_size v1"
      using "1.IH" [OF True m(1) refl m(2) refl p(1)[folded c_def] p(2)[unfolded c_def] ag] 
        c(2) "1.prems"(4-7) v1(3) unfolding c_def [symmetric] next_a by auto
    have seq: "drw_seq ?n ?a (part_list ?w word i (sh_elements sh)) (av_mem v)
        = (av_mem v', snd (drw_seq ?n ?a ?xs (av_mem v)) @ snd (drw_seq ?n (?a + length ?xs * ?n) ?ys (av_mem v1)))"
      using drw_seq_append [of ?n ?a ?xs "av_mem v" "av_mem v1"] part_list_append [of i "i + c" "sh_elements sh" ?w word]
        c(2) v1(2) r(4) by (metis le_add1 prod.collapse)
    have "ap_run limit la (more1 @ map (Pair DRW) ?xs @ more2) v
        = Some (v', snd (drw_seq ?n ?a (part_list ?w word i (sh_elements sh)) (av_mem v)))"
      using ap_run_append [OF t(2) ap_run_append [OF v1(1) r(3)]] seq by simp
    then show ?thesis
      using r(1,2,5) v1(3) t(1) seq
      by (intro exI [of _ "more1 @ map (Pair DRW) ?xs @ more2"] exI [of _ v']) (simp add: chunk_accesses_parts)
  qed
qed

lemma lower_run:
  assumes "lower ap sh word = Ok out" "agrees la ap v"
    and "size_bytes (av_size v) = Some (part_bytes (sh_width sh))"
    and "width_bytes (sh_width sh) dvd sh_address sh"
    and "sh_address sh + sh_elements sh * width_bytes (sh_width sh) \<le> limit" "limit \<le> 2 ^ 64"
  shows "\<exists>v'. agrees la ap v'
    \<and> ap_run limit la out v = Some (v', snd (drw_seq (part_bytes (sh_width sh)) (sh_address sh)
         (part_list (sh_width sh) word 0 (sh_elements sh)) (av_mem v)))
    \<and> av_mem v' = fst (drw_seq (part_bytes (sh_width sh)) (sh_address sh)
         (part_list (sh_width sh) word 0 (sh_elements sh)) (av_mem v))
    \<and> av_size v' = av_size v"
proof -
  have "lower_from ap sh word 0 [] = Ok out" using assms(1) by (simp add: lower_def split: option.splits)
  from lower_from_run [OF this assms(2) _ assms(3-6)] show ?thesis by (simp add: element_address_def)
qed

subsection \<open>Transfer sizes\<close>

lemma csw_fields:
  "sz \<in> {DsU8, DsU16, DsU32} \<Longrightarrow> csw_size (csw_set_size sz c) = sz"
  "csw_addr_inc (csw_set_size sz c) = csw_addr_inc c"
  "csw_addr_inc (csw_set_addr_inc IncSingle c) = IncSingle"
proof -
  have keep: "reg_get 2 0 (reg_set 2 0 x c) = take_bit 3 x" for x
    by (rule bit_word_eqI) (auto simp: reg_get_def reg_set_def bit_simps)
  then show "sz \<in> {DsU8, DsU16, DsU32} \<Longrightarrow> csw_size (csw_set_size sz c) = sz"
    by (auto simp: csw_size_def csw_set_size_def data_size_of_def take_bit_word_eq_self)
  have "reg_get 5 4 (reg_set 2 0 x c) = reg_get 5 4 c" for x
    by (rule bit_word_eqI) (auto simp: reg_get_def reg_set_def bit_simps)
  then show "csw_addr_inc (csw_set_size sz c) = csw_addr_inc c"
    by (simp add: csw_addr_inc_def csw_set_size_def)
  have "reg_get 5 4 (reg_set 5 4 x c) = take_bit 2 x" for x
    by (rule bit_word_eqI) (auto simp: reg_get_def reg_set_def bit_simps)
  then show "csw_addr_inc (csw_set_addr_inc IncSingle c) = IncSingle"
    by (simp add: csw_addr_inc_def csw_set_addr_inc_def address_increment_of_def)
qed

text \<open>All APs with a size field set it up alike.\<close>

lemma sized_setup:
  assumes "sz \<in> {DsU8, DsU16, DsU32}"
  shows "datasize_setup ap sz =
     (if only_32bit ap then (if sz = DsU32 then Ok SetupReady else unsupported_width sz)
      else if sz = csw_size (ma_csw ap) then Ok SetupReady else Ok (SetupWrite (csw_set_size sz (ma_csw ap))))"
    "note_datasize sz ap = (if only_32bit ap then ap else ap\<lparr>ma_csw := csw_set_size sz (ma_csw ap)\<rparr>)"
  using assms
  by (cases "ma_kind ap"; auto simp: datasize_setup_def only_32bit_def note_datasize_def apb2_datasize_setup_def
      apb4_datasize_setup_def ahb3_note_datasize_def ahb5_note_datasize_def ahb5_hprot_note_datasize_def
      axi3_note_datasize_def axi5_note_datasize_def)+

lemma note_keeps [simp]:
  "only_32bit (note_datasize sz ap) = only_32bit ap" "large_address (note_datasize sz ap) = large_address ap"
  "large_data (note_datasize sz ap) = large_data ap"
  by (cases "ma_kind ap"; simp add: note_datasize_def only_32bit_def large_address_def large_data_def)+

lemma push_datasize_Err:
  assumes "push_datasize sz (ap, acs) = (Err e, s)"
  shows "s = (ap, acs)"
  using assms by (auto simp: push_datasize_def split: res.splits data_size_setup.splits)

lemma push_datasize_run:
  assumes "push_datasize sz (ap, acs) = (Ok b, ap', acs')" "agrees la ap v" "sz \<in> {DsU8, DsU16, DsU32}"
  shows "\<exists>more v'. b \<and> acs' = acs @ more \<and> ap_run limit la more v = Some (v', []) \<and> agrees la ap' v'
    \<and> av_size v' = sz \<and> av_mem v' = av_mem v \<and> only_32bit ap' = only_32bit ap"
proof (cases "only_32bit ap \<or> sz = csw_size (ma_csw ap)")
  case True
  then have "b \<and> ap' = ap \<and> acs' = acs \<and> av_size v = sz"
    using assms by (auto simp: push_datasize_def sized_setup agrees_def unsupported_width_def split: if_splits res.splits)
  then show ?thesis using assms(2) by (intro exI [of _ "[]"] exI [of _ v]) simp
next
  case False
  let ?c = "csw_set_size sz (ma_csw ap)"
  have r: "b" "ap' = ap\<lparr>ma_csw := ?c\<rparr>" "acs' = acs @ [(CSW, Some ?c)]"
    using assms(1,3) False by (auto simp: push_datasize_def sized_setup)
  have f: "csw_size ?c = sz" "csw_addr_inc ?c = IncSingle"
    using csw_fields(1,2) assms(2,3) False by (auto simp: agrees_def)
  have "only_32bit ap' = only_32bit ap" "large_address ap' = large_address ap" "large_data ap' = large_data ap"
    by (simp_all add: r(2) only_32bit_def large_address_def large_data_def)
  then show ?thesis
    using r f assms(2) False
    by (intro exI [of _ "[(CSW, Some ?c)]"] exI [of _ "v\<lparr>av_size := sz, av_inc := IncSingle\<rparr>"])
      (simp add: ap_step_simps agrees_def)
qed

subsection \<open>Elements and byte lanes\<close>

lemma lanes_taken:
  assumes "lane_bytes n a w = bs" "LENGTH('w::len) = 8 * n" "n \<in> {1, 2}"
  shows "to_le n (ucast (drop_bit (a mod 4 * 8) w AND (if n = 1 then 0xFF else 0xFFFF)) :: 'w word) = bs"
proof -
  have m: "(if n = 1 then 0xFF else 0xFFFF) = (mask (8 * n) :: u32)"
    using assms(3) by (auto simp: mask_eq_exp_minus_1)
  have "to_le n (ucast (drop_bit s w AND mask (8 * n)) :: 'w word) = to_le n (drop_bit s w)" for s
    by (rule nth_equalityI)
      (auto simp: to_le_def bit_eq_iff bit_simps assms(2) add_ac dest: bit_imp_le_length)
  from this [of "a mod 4 * 8"] show ?thesis using assms(1) unfolding m lane_bytes_def by (simp only: mult.commute)
qed

lemma lanes_put:
  assumes "n dvd a" "n dvd 4" "LENGTH('w::len) = 8 * n"
  shows "lane_bytes n a (push_bit (a mod 4 * 8) (ucast (x :: 'w word))) = to_le n x"
proof (rule nth_equalityI)
  fix i
  assume "i < length (lane_bytes n a (push_bit (a mod 4 * 8) (ucast x)))"
  then have i: "i < n" by (simp add: lane_bytes_def)
  have "n dvd a mod 4" using assms(1,2) by (simp add: dvd_mod)
  then obtain k where k: "a mod 4 = n * k" by blast
  obtain q where q: "4 = n * q" using assms(2) by blast
  have "k < q" using k q by (metis mod_less_divisor mult_less_cancel1 zero_less_numeral)
  then have "n * Suc k \<le> n * q" by (intro mult_le_mono2) simp
  then have room: "a mod 4 + n \<le> 4" using k q by simp
  show "lane_bytes n a (push_bit (a mod 4 * 8) (ucast x)) ! i = to_le n x ! i"
  proof (rule bit_word_eqI)
    fix j
    assume "j < LENGTH(8)"
    then have "8 * i + j < 8 * n" using i by simp
    moreover from this have "8 * (a mod 4) + (8 * i + j) < 32" using room by simp
    ultimately show "bit (lane_bytes n a (push_bit (a mod 4 * 8) (ucast x)) ! i) j = bit (to_le n x ! i) j"
      using i \<open>j < LENGTH(8)\<close> assms(3) by (auto simp: lane_bytes_def to_le_def bit_simps mult.commute)
  qed
qed (simp add: lane_bytes_def)

end
