(* ===== verification/Adi_Refines.thy ===== *)
theory Adi_Refines
  imports Adi_Flat
begin

text \<open>
  Memory operations through an AP refine operations on a flat memory: first the elements of one
  shaped operation, then the contract of a register access and the memory interface on it, then
  the batches.
\<close>

subsection \<open>The elements of a shaped operation\<close>

lemma peek_concat: "concat (map (\<lambda>j. peek f (a + j * n) n) [0..<k]) = peek f a (n * k)"
proof (induction k)
  case (Suc k)
  have "peek f a (n * Suc k) = peek f a (n * k + n)" by (simp add: add.commute)
  also have "\<dots> = peek f a (n * k) @ peek f (a + n * k) n" by (rule peek_append)
  finally show ?case using Suc by (simp add: mult.commute)
qed simp

lemma le_bytes_64:
  "to_le 8 (d :: u64) = to_le 4 (ucast d :: u32) @ to_le 4 (ucast (drop_bit 32 d) :: u32)"
proof (rule nth_equalityI)
  fix i
  assume "i < length (to_le 8 d)"
  then have i: "i < 8" by simp
  show "to_le 8 d ! i = (to_le 4 (ucast d :: u32) @ to_le 4 (ucast (drop_bit 32 d) :: u32)) ! i"
  proof (rule bit_word_eqI)
    fix j
    assume j: "j < LENGTH(8)"
    show "bit (to_le 8 d ! i) j = bit ((to_le 4 (ucast d :: u32) @ to_le 4 (ucast (drop_bit 32 d) :: u32)) ! i) j"
    proof (cases "i < 4")
      case True
      then show ?thesis using i j by (simp add: nth_append to_le_def bit_simps)
    next
      case False
      then have "32 + (8 * (i - 4) + j) = 8 * i + j" "i - 4 < 4" "8 * (i - 4) + j < 32" using i j by auto
      then have "bit d (8 * i + j) = bit d (32 + (8 * (i - 4) + j))" by (simp only:)
      then show ?thesis using i j False \<open>8 * (i - 4) + j < 32\<close>
        by (simp add: nth_append to_le_def bit_simps del: add_diff_inverse_nat)
    qed
  qed
qed simp

lemma join_64:
  fixes lo hi :: u32
  shows "ucast (ucast lo OR push_bit 32 (ucast hi) :: u64) = lo"
    and "ucast (drop_bit 32 (ucast lo OR push_bit 32 (ucast hi) :: u64)) = hi"
  by (rule bit_word_eqI, auto simp: bit_simps dest: bit_imp_le_length)+

lemma pairs_concat:
  "2 * k \<le> length ws \<Longrightarrow>
     concat (map (\<lambda>i. g (ws ! (i * 2)) @ g (ws ! (i * 2 + 1))) [0..<k]) = concat (map g (take (2 * k) ws))"
proof (induction k)
  case (Suc k)
  have "take (2 * Suc k) ws = take (2 * k) ws @ [ws ! (2 * k), ws ! Suc (2 * k)]"
    using Suc.prems by (simp add: take_Suc_conv_app_nth)
  then show ?case using Suc by (simp add: mult.commute)
qed simp

text \<open>The DRW words of an operation.\<close>

fun kind_words :: "operation_kind \<Rightarrow> shape \<Rightarrow> nat \<Rightarrow> nat \<Rightarrow> u32 option" where
  "kind_words (OpWrite8 d) sh = lane_words sh d"
| "kind_words (OpWrite16 d) sh = lane_words sh d"
| "kind_words (OpWrite32 d) sh = plain_words d"
| "kind_words (OpWrite64 d) sh = split_words d"
| "kind_words (OpWriteWord8 d) sh = lane_words sh [d]"
| "kind_words (OpWriteWord16 d) sh = lane_words sh [d]"
| "kind_words (OpWriteWord32 d) sh = plain_words [d]"
| "kind_words (OpWriteWord64 d) sh = split_words [d]"
| "kind_words k sh = read_words"

lemma lower_operation_words:
  "kind_shape k = Some (w, n) \<Longrightarrow> lower_operation ap k sh = lower ap sh (kind_words k sh)"
  by (cases k) auto

lemma part_list_reads: "part_list w read_words 0 n = replicate (n * drw_words w) None"
proof -
  have "map (\<lambda>j. None) [0..<drw_words w] = replicate (drw_words w) (None :: u32 option)"
    by (simp add: map_replicate_const)
  moreover have "concat (replicate n (replicate m x)) = replicate (n * m) x" for m and x :: "u32 option"
    by (induction n) (auto simp: replicate_add [symmetric] add.commute)
  ultimately show ?thesis by (simp add: part_list_def map_replicate_const)
qed

lemma part_list_single:
  "drw_words w = 1 \<Longrightarrow> part_list w (\<lambda>e j. Some (g e)) 0 n = map Some (map g [0..<n])"
  by (simp add: part_list_def comp_def)

lemma part_list_split:
  "part_list WU64 (split_words data) 0 (length data)
     = map Some (concat (map (\<lambda>d. [ucast d, ucast (drop_bit 32 d)]) data))"
proof -
  have "map (split_words data e) [0..<2] = map Some [ucast (data ! e), ucast (drop_bit 32 (data ! e))]" for e
    by (simp add: split_words_def upt_conv_Cons)
  then have "part_list WU64 (split_words data) 0 (length data)
      = map Some (concat (map (\<lambda>e. [ucast (data ! e), ucast (drop_bit 32 (data ! e))]) [0..<length data]))"
    by (simp add: part_list_def map_concat comp_def)
  also have "map (\<lambda>e. [ucast (data ! e), ucast (drop_bit 32 (data ! e))]) [0..<length data]
      = map (\<lambda>d. [ucast d :: u32, ucast (drop_bit 32 d)]) data"
    by (rule nth_equalityI) auto
  finally show ?thesis .
qed

text \<open>What a shaped write leaves in memory.\<close>

lemma seq_lanes:
  assumes "part_bytes w = n" "drw_words w = 1" "n dvd a" "n \<in> {1, 2}" "LENGTH('w::len) = 8 * n" "w \<in> {WU8, WU16}"
    and "length (data :: 'w word list) = k"
  shows "drw_seq n a (part_list w (lane_words (shape_new a w k) data) 0 k) f = (poke f a (le_bytes n data), [])"
proof -
  let ?put = "\<lambda>e. put_lane (shape_new a w k) (ucast (data ! e)) e"
  have wb: "width_bytes w = n" using width_parts(1) [of w] assms(1,2) by simp
  have put: "lane_bytes n (a + j * n) (?put j) = to_le n (data ! j)" for j
    using lanes_put [of n "a + j * n", where x = "data ! j"] assms(3-6)
    by (auto simp: put_lane_def shape_new_def element_address_def wb)
  have "drw_seq n a (map Some (map ?put [0..<k])) f
      = (poke f a (concat (map (\<lambda>j. lane_bytes n (a + j * n) (map ?put [0..<k] ! j)) [0..<k])), [])"
    using drw_seq_writes [of n a "map ?put [0..<k]" f] by simp
  also have "map (\<lambda>j. lane_bytes n (a + j * n) (map ?put [0..<k] ! j)) [0..<k] = map (to_le n) data"
    using assms(7) put by (intro nth_equalityI) auto
  finally show ?thesis
    using part_list_single [OF assms(2)] by (simp add: lane_words_def)
qed

lemma seq_words:
  assumes "4 dvd a"
  shows "drw_seq 4 a (map Some ws) f = (poke f a (le_bytes 4 ws), [])"
proof -
  have "lane_bytes 4 (a + j * 4) x = to_le 4 x" for j x
    using assms by (simp add: lane_bytes_def mod_eq_0_iff_dvd)
  moreover have "map (\<lambda>j. to_le 4 (ws ! j)) [0..<length ws] = map (to_le 4) ws"
    by (rule nth_equalityI) auto
  ultimately show ?thesis by (simp add: drw_seq_writes)
qed

lemma seq_plain:
  assumes "4 dvd a" "length data = k"
  shows "drw_seq 4 a (part_list WU32 (plain_words data) 0 k) f = (poke f a (le_bytes 4 data), [])"
proof -
  have "map (\<lambda>e. data ! e) [0..<k] = data" using assms(2) by (intro nth_equalityI) auto
  then show ?thesis using seq_words [OF assms(1), of data f] by (simp add: plain_words_def part_list_single)
qed

lemma seq_split:
  assumes "4 dvd a" "length data = k"
  shows "drw_seq 4 a (part_list WU64 (split_words data) 0 k) f = (poke f a (le_bytes 8 data), [])"
proof -
  have "le_bytes 4 (concat (map (\<lambda>d. [ucast d :: u32, ucast (drop_bit 32 d)]) data)) = le_bytes 8 data"
    by (induction data) (auto simp: le_bytes_64)
  then show ?thesis
    using seq_words [OF assms(1), of "concat (map (\<lambda>d. [ucast d, ucast (drop_bit 32 d)]) data)" f]
    by (simp add: assms(2) [symmetric] part_list_split)
qed

text \<open>What the words of a shaped read hold.\<close>

definition reads_at :: "nat \<Rightarrow> nat \<Rightarrow> nat \<Rightarrow> flat \<Rightarrow> expected list" where
  "reads_at n a k f = map (\<lambda>j. (n, a + j * n, peek f (a + j * n) n)) [0..<k]"

lemma seq_reads:
  "drw_seq n a (part_list w read_words 0 k) f = (f, reads_at n a (k * drw_words w) f)"
  by (simp add: part_list_reads drw_seq_reads reads_at_def)

lemma reads_at_ok:
  assumes "list_all2 word_ok (reads_at n a k f) ws"
  shows "length ws = k" "\<And>j. j < k \<Longrightarrow> lane_bytes n (a + j * n) (ws ! j) = peek f (a + j * n) n"
proof -
  show "length ws = k" using list_all2_lengthD [OF assms] by (simp add: reads_at_def)
  fix j
  assume "j < k"
  then have "word_ok (reads_at n a k f ! j) (ws ! j)"
    using list_all2_nthD [OF assms, of j] by (simp add: reads_at_def)
  then show "lane_bytes n (a + j * n) (ws ! j) = peek f (a + j * n) n"
    using \<open>j < k\<close> by (simp add: reads_at_def word_ok_def)
qed

lemma lanes_read:
  assumes "list_all2 word_ok (reads_at n a k f) ws" "part_bytes w = n" "drw_words w = 1" "n \<in> {1, 2}"
    and "w \<in> {WU8, WU16}" "LENGTH('w::len) = 8 * n" "n = 1 \<longleftrightarrow> w = WU8"
  shows "\<exists>ds :: 'w word list. take_lanes a w k ws = Ok ds \<and> le_bytes n ds = peek f a (n * k)"
proof -
  let ?d = "\<lambda>i. ucast (take_lane (shape_new a w k) (ws ! i) i) :: 'w word"
  have wb: "width_bytes w = n" using width_parts(1) [of w] assms(2,3) by simp
  have d: "to_le n (?d i) = peek f (a + i * n) n" if "i < k" for i
    using lanes_taken [OF reads_at_ok(2) [OF assms(1) that] assms(6,4)] assms(5,7)
    by (auto simp: take_lane_def shape_new_def element_address_def wb)
  have "take_lanes a w k ws = Ok (map ?d [0..<k])"
    unfolding take_lanes_def using reads_at_ok(1) [OF assms(1)] by (intro rtraverse_Ok_eq) (simp add: nth_r_eq)
  moreover have "map (to_le n) (map ?d [0..<k]) = map (\<lambda>i. peek f (a + i * n) n) [0..<k]"
    using d by (intro nth_equalityI) auto
  ultimately show ?thesis
    using peek_concat [of f a n k] by (intro exI [of _ "map ?d [0..<k]"] conjI) (simp_all only:)
qed

lemma words_read:
  assumes "list_all2 word_ok (reads_at 4 a k f) ws" "4 dvd a"
  shows "le_bytes 4 ws = peek f a (4 * k)"
proof -
  have "to_le 4 (ws ! j) = peek f (a + j * 4) 4" if "j < k" for j
    using reads_at_ok(2) [OF assms(1) that] assms(2) by (simp add: lane_bytes_def mod_eq_0_iff_dvd)
  then have "map (to_le 4) ws = map (\<lambda>j. peek f (a + j * 4) 4) [0..<k]"
    using reads_at_ok(1) [OF assms(1)] by (intro nth_equalityI) auto
  then show ?thesis using peek_concat [of f a 4 k] by simp
qed

lemma split_read:
  assumes "list_all2 word_ok (reads_at 4 a (k * 2) f) ws" "4 dvd a"
  shows "\<exists>ds. join_words k ws = Ok ds \<and> le_bytes 8 ds = peek f a (8 * k)"
proof -
  let ?d = "\<lambda>i. ucast (ws ! (i * 2)) OR push_bit 32 (ucast (ws ! (i * 2 + 1))) :: u64"
  have len: "length ws = k * 2" using reads_at_ok(1) [OF assms(1)] .
  have "join_words k ws = Ok (map ?d [0..<k])"
    unfolding join_words_def using len by (intro rtraverse_Ok_eq) (simp add: nth_r_eq)
  moreover have "le_bytes 8 (map ?d [0..<k])
      = concat (map (\<lambda>i. to_le 4 (ws ! (i * 2)) @ to_le 4 (ws ! (i * 2 + 1))) [0..<k])"
    unfolding map_map comp_def le_bytes_64 join_64 by (rule refl)
  moreover have "\<dots> = le_bytes 4 ws" using pairs_concat [of k ws "to_le 4"] len by (simp add: mult.commute)
  ultimately show ?thesis using words_read [OF assms] by (simp add: mult.commute)
qed

lemma words_of_bytes:
  "le_bytes 2 (ws2 :: u16 list) = bs \<Longrightarrow> map from_le (chunks_exact 2 bs) = ws2"
  "le_bytes 4 (ws4 :: u32 list) = bs \<Longrightarrow> map from_le (chunks_exact 4 bs) = ws4"
  "le_bytes 8 (ws8 :: u64 list) = bs \<Longrightarrow> map from_le (chunks_exact 8 bs) = ws8"
  by (rule from_le_bytes; simp)+

lemma kind_seq:
  fixes ws :: "u32 list" and f :: flat
  assumes "kind_shape k = Some (w, n)" "width_bytes w dvd a"
  defines "S \<equiv> drw_seq (part_bytes w) a (part_list w (kind_words k (shape_new a w n)) 0 n) f"
  shows "fst S = snd (flat_op a k f)"
    and "length (snd S) = (if is_read k then n * drw_words w else 0)"
    and "list_all2 word_ok (snd S) ws \<Longrightarrow> scatter a k ws = Ok (fst (flat_op a k f))"
proof -
  have parts: "part_bytes WU8 = 1" "part_bytes WU16 = 2" "part_bytes WU32 = 4" "part_bytes WU64 = 4"
    by (simp_all add: part_bytes_def)
  have w64: "4 dvd x" if "8 dvd x" for x :: nat using dvd_trans [OF _ that, of 4] by simp
  have W8: "drw_seq 1 a (part_list WU8 (lane_words (shape_new a WU8 m) data) 0 m) f = (poke f a data, [])"
    if "length data = m" for data m
    using seq_lanes [OF parts(1) _ one_dvd _ _ _ that] unfolding le_bytes_8 by simp
  have "fst S = snd (flat_op a k f) \<and> length (snd S) = (if is_read k then n * drw_words w else 0)
      \<and> (list_all2 word_ok (snd S) ws \<longrightarrow> scatter a k ws = Ok (fst (flat_op a k f)))"
  proof (cases k)
    case (OpRead8 d)
    then have S: "S = (f, reads_at 1 a n f)" "w = WU8" "n = length d"
      using assms(1) by (auto simp: S_def seq_reads parts)
    then show ?thesis
      using OpRead8 lanes_read [of 1 a n f ws WU8, where 'w = 8] parts(1) unfolding le_bytes_8
      by (auto simp: reads_at_def)
  next
    case (OpRead16 d)
    then have S: "S = (f, reads_at 2 a n f)" "w = WU16" "n = length d"
      using assms(1) by (auto simp: S_def seq_reads parts)
    then show ?thesis
      using OpRead16 lanes_read [of 2 a n f ws WU16, where 'w = 16] parts(2) by (auto simp: reads_at_def words_of_bytes)
  next
    case (OpRead32 d)
    then have S: "S = (f, reads_at 4 a n f)" "w = WU32" "n = length d"
      using assms(1) by (auto simp: S_def seq_reads parts)
    then show ?thesis
      using OpRead32 words_read [of a n f ws] reads_at_ok(1) [of 4 a n f ws] assms(2)
      by (auto simp: reads_at_def words_of_bytes)
  next
    case (OpRead64 d)
    then have S: "S = (f, reads_at 4 a (n * 2) f)" "w = WU64" "n = length d"
      using assms(1) by (auto simp: S_def seq_reads parts)
    then show ?thesis
      using OpRead64 split_read [of a n f ws] assms(2) w64 [of a] by (auto simp: reads_at_def words_of_bytes)
  next
    case (OpWrite8 d)
    then show ?thesis
      using assms(1) W8 [of d n] by (auto simp: S_def parts)
  next
    case (OpWriteWord8 d)
    then show ?thesis
      using assms(1) W8 [of "[d]" 1] by (auto simp: S_def parts)
  next
    case (OpWrite16 d)
    then show ?thesis using assms(1,2) seq_lanes [of WU16 2 a d n f] parts by (auto simp: S_def)
  next
    case (OpWriteWord16 d)
    then show ?thesis using assms(1,2) seq_lanes [of WU16 2 a "[d]" n f] parts by (auto simp: S_def)
  next
    case (OpWrite32 d)
    then show ?thesis using assms(1,2) seq_plain [of a d n f] parts by (auto simp: S_def)
  next
    case (OpWriteWord32 d)
    then show ?thesis using assms(1,2) seq_plain [of a "[d]" n f] parts by (auto simp: S_def)
  next
    case (OpWrite64 d)
    then show ?thesis using assms(1,2) seq_split [of a d n f] w64 [of a] parts by (auto simp: S_def)
  next
    case (OpWriteWord64 d)
    then show ?thesis using assms(1,2) seq_split [of a "[d]" n f] w64 [of a] parts by (auto simp: S_def)
  qed (use assms(1) in auto)
  then show "fst S = snd (flat_op a k f)" "length (snd S) = (if is_read k then n * drw_words w else 0)"
    "list_all2 word_ok (snd S) ws \<Longrightarrow> scatter a k ws = Ok (fst (flat_op a k f))"
    by blast+
qed

lemma kind_bytes: "kind_shape k = Some (w, n) \<Longrightarrow> op_bytes k = n * width_bytes w"
  by (cases k) auto

lemma lower_from_note:
  "large_address ap = large_address ap' \<Longrightarrow> lower_from ap sh word i acs = lower_from ap' sh word i acs"
proof (induction ap sh word i acs rule: lower_from.induct)
  case (1 ap sh word i acs)
  have p: "push_target_address ap x acs = push_target_address ap' x acs" for x acs
    using "1.prems" by (simp add: push_target_address_def)
  show ?case
    using "1.IH" "1.prems"
    by (subst lower_from.simps, subst (2) lower_from.simps) (auto simp: Let_def p split: res.splits)
qed

lemma lower_note:
  assumes "large_address ap = large_address ap'"
  shows "lower ap sh word = lower ap' sh word"
  unfolding lower_def lower_from_note [OF assms] ..

definition adi_ready :: "bool \<Rightarrow> (ap_view \<Rightarrow> 'd \<Rightarrow> bool) \<Rightarrow> 'd adi \<Rightarrow> bool" where
  "adi_ready la as_view s \<longleftrightarrow> (\<exists>v. as_view v (adi_dap s) \<and> agrees la (adi_ap s) v)"

definition adi_content :: "('d \<Rightarrow> flat) \<Rightarrow> 'd adi \<Rightarrow> flat" where
  "adi_content mem s = mem (adi_dap s)"

subsection \<open>A byte-granular write\<close>

lemma push_fixed_run:
  assumes "push_fixed_datasize sz (ap, acs) = (Ok u, ap', acs')" "agrees la ap v" "sz \<in> {DsU8, DsU16, DsU32}"
  shows "\<exists>more v'. acs' = acs @ more \<and> ap_run limit la more v = Some (v', []) \<and> agrees la ap' v'
    \<and> av_size v' = sz \<and> av_mem v' = av_mem v"
proof -
  obtain b t where b: "push_datasize sz (ap, acs) = (Ok b, t)"
    "(if b then sret () else slift (unsupported_width sz)) t = (Ok u, ap', acs')"
    using assms(1) by (auto simp: push_fixed_datasize_def)
  obtain p q where t: "t = (p, q)" by (cases t)
  obtain more v' where m: "b" "q = acs @ more" "ap_run limit la more v = Some (v', [])" "agrees la p v'"
    "av_size v' = sz" "av_mem v' = av_mem v"
    using push_datasize_run [OF b(1) [unfolded t] assms(2,3)] by blast
  then have "p = ap'" "q = acs'" using b(2) t by simp_all
  then show ?thesis using m by blast
qed

lemma push_piece_run:
  assumes "push_piece a w n word (ap, acs) = (Ok u, ap', acs')" "agrees la ap v"
    and "n \<noteq> 0 \<longrightarrow> width_bytes w dvd a" "a + n * width_bytes w \<le> limit" "limit \<le> 2 ^ 64"
  shows "\<exists>more v'. acs' = acs @ more \<and> agrees la ap' v'
    \<and> ap_run limit la more v = Some (v', snd (drw_seq (part_bytes w) a (part_list w (word (shape_new a w n)) 0 n) (av_mem v)))
    \<and> av_mem v' = fst (drw_seq (part_bytes w) a (part_list w (word (shape_new a w n)) 0 n) (av_mem v))"
proof (cases "n = 0")
  case True
  then show ?thesis
    using assms(1,2) by (intro exI [of _ "[]"] exI [of _ v]) (simp add: push_piece_def part_list_def)
next
  case False
  let ?sh = "shape_new a w n"
  obtain ap1 acs1 where f: "push_fixed_datasize (data_size_for w False) (ap, acs) = (Ok (), ap1, acs1)"
    "push_lowered ?sh (word ?sh) (ap1, acs1) = (Ok u, ap', acs')"
    using assms(1) False by (auto simp: push_piece_def Let_def)
  obtain more v1 where v1: "acs1 = acs @ more" "ap_run limit la more v = Some (v1, [])" "agrees la ap1 v1"
    "av_size v1 = data_size_for w False" "av_mem v1 = av_mem v"
    using push_fixed_run [OF f(1) assms(2) width_parts(7)] by blast
  obtain out where out: "lower ap1 ?sh (word ?sh) = Ok out" "ap' = ap1" "acs' = acs1 @ out"
    using f(2) by (auto simp: push_lowered_def split: res.splits)
  from lower_run [OF out(1) v1(3) _ _ _ assms(5)] False assms(3,4) v1(4,5) width_parts(2) [of w]
  obtain v' where v': "agrees la ap1 v'"
    "ap_run limit la out v1 = Some (v', snd (drw_seq (part_bytes w) a (part_list w (word ?sh) 0 n) (av_mem v)))"
    "av_mem v' = fst (drw_seq (part_bytes w) a (part_list w (word ?sh) 0 n) (av_mem v))"
    by (auto simp: shape_new_def)
  from ap_run_append [OF v1(2) v'(2)] show ?thesis
    using v1(1) out(2,3) v'(1,3) by (intro exI [of _ "more @ out"] exI [of _ v']) simp
qed

lemma lower_from_no_Err:
  assumes "lower_from ap sh word i acs = Err e"
    and "large_address ap \<or> sh_address sh + sh_elements sh * width_bytes (sh_width sh) \<le> 2 ^ 32"
  shows False
  using assms
proof (induction ap sh word i acs rule: lower_from.induct)
  case (1 ap sh word i acs)
  have i: "i < sh_elements sh" using "1.prems"(1) by (subst (asm) lower_from.simps) (auto split: if_splits)
  have no: "autoincr_max_bytes x \<noteq> (Err y :: (arm_error, nat) res)" for x y
    by (simp add: autoincr_max_bytes_def next_multiple_of64_def rbind_Err_iff)
  have ok: "push_target_address ap (element_address sh i) acs \<noteq> Err y" for y
  proof (cases "large_address ap")
    case False
    have "i * width_bytes (sh_width sh) < sh_elements sh * width_bytes (sh_width sh)"
      using i width_parts(3) by simp
    moreover have "sh_address sh + sh_elements sh * width_bytes (sh_width sh) \<le> 2 ^ 32"
      using False "1.prems"(2) by simp
    ultimately have "element_address sh i < 2 ^ 32" unfolding element_address_def by linarith
    then show ?thesis by (simp add: push_target_address_def)
  qed (simp add: push_target_address_def)
  obtain m acs1 where m: "autoincr_max_bytes (element_address sh i) = (Ok m :: (arm_error, nat) res)"
    "m div width_bytes (sh_width sh) \<noteq> 0" "push_target_address ap (element_address sh i) acs = Ok acs1"
    "lower_from ap sh word (i + min (sh_elements sh - i) (m div width_bytes (sh_width sh)))
      (acs1 @ chunk_accesses sh word i (min (sh_elements sh - i) (m div width_bytes (sh_width sh)))) = Err e"
    using "1.prems"(1) i no ok by (subst (asm) lower_from.simps) (auto simp: Let_def split: res.splits if_splits)
  show ?case
    using "1.IH" [OF i m(1) refl m(2) refl m(3,4) "1.prems"(2)] .
qed

lemma push_datasize_keeps:
  assumes "push_datasize sz (ap, acs) = (r, t)"
  shows "only_32bit (fst t) = only_32bit ap" "large_address (fst t) = large_address ap"
    "large_data (fst t) = large_data ap"
  using assms by (auto simp: push_datasize_def split: res.splits data_size_setup.splits)

lemma push_piece_keeps:
  assumes "push_piece a w n word (ap, acs) = (Ok u, ap', acs')"
  shows "only_32bit ap' = only_32bit ap" "large_address ap' = large_address ap"
proof -
  have "only_32bit ap' = only_32bit ap \<and> large_address ap' = large_address ap"
    using assms push_datasize_keeps(1,2) [of _ ap acs]
    by (fastforce simp: push_piece_def push_fixed_datasize_def push_lowered_def Let_def split: if_splits res.splits)
  then show "only_32bit ap' = only_32bit ap" "large_address ap' = large_address ap" by simp_all
qed

lemmas push_piece_only32 = push_piece_keeps(1)

lemma push_datasize_sized:
  assumes "sz \<in> {DsU8, DsU16, DsU32}" "only_32bit ap \<longrightarrow> sz = DsU32"
  obtains ap' acs' where "push_datasize sz (ap, acs) = (Ok True, ap', acs')"
  using assms sized_setup(1) [OF assms(1), of ap]
  by (cases "only_32bit ap \<or> sz = csw_size (ma_csw ap)") (auto simp: push_datasize_def)

lemma push_piece_no_Err:
  assumes "push_piece a w n word (ap, acs) = (Err e, s)"
    and "only_32bit ap \<longrightarrow> w = WU32 \<or> n = 0" "a + n * width_bytes w < 2 ^ 64"
    and "large_address ap \<or> a + n * width_bytes w \<le> 2 ^ 32"
  shows False
proof -
  have n: "n \<noteq> 0" using assms(1) by (cases "n = 0") (simp_all add: push_piece_def)
  let ?sz = "data_size_for w False" and ?sh = "shape_new a w n"
  have "only_32bit ap \<longrightarrow> ?sz = DsU32" using assms(2) n by auto
  then obtain ap1 acs1 where f: "push_datasize ?sz (ap, acs) = (Ok True, ap1, acs1)"
    using push_datasize_sized [OF width_parts(7)] by blast
  then have "push_lowered ?sh (word ?sh) (ap1, acs1) = (Err e, s)"
    using assms(1) n by (simp add: push_piece_def push_fixed_datasize_def sbind_def Let_def)
  then have "lower ap1 ?sh (word ?sh) = Err e" by (auto simp: push_lowered_def split: res.splits)
  then have "lower_from ap1 ?sh (word ?sh) 0 [] = Err e"
    using assms(3) by (simp add: lower_def checked_add64_def shape_new_def)
  then show False
    using lower_from_no_Err [of ap1 ?sh] assms(4) push_datasize_keeps(2) [OF f] by (auto simp: shape_new_def)
qed

text \<open>The pieces of a byte-granular write.\<close>

lemma byte_pieces:
  fixes a :: nat and data :: "u8 list"
  assumes "next_multiple_of64 a 4 = (Ok aligned :: (arm_error, nat) res)"
  defines "b \<equiv> min (aligned - a) (length data)"
  defines "words \<equiv> chunks_exact 4 (drop b data)"
  shows "b + 4 * length words \<le> length data"
    and "words \<noteq> [] \<Longrightarrow> 4 dvd a + b"
    and "take b data @ concat words @ drop (4 * length words) (drop b data) = data"
proof -
  have al: "a \<le> aligned" "4 dvd aligned" using next_multiple_of64_Ok [OF assms(1)] by simp_all
  have b: "b \<le> length data" by (simp add: b_def)
  have len: "length words = (length data - b) div 4" by (simp add: words_def length_chunks_exact)
  then show le: "b + 4 * length words \<le> length data" using b by simp
  show "4 dvd a + b" if "words \<noteq> []"
  proof -
    have "b < length data" using that by (cases "b < length data") (simp_all add: words_def, subst (asm) chunks_exact.simps, simp)
    then have "a + b = aligned" using al(1) by (simp add: b_def)
    then show ?thesis using al(2) by simp
  qed
  have "concat words = take (4 * length words) (drop b data)"
  proof -
    have part: "chunks_exact 4 xs = chunks_exact 4 (take (4 * (length xs div 4)) xs)" for xs :: "u8 list"
    proof (induction "4 :: nat" xs rule: chunks_exact.induct)
      case (1 xs)
      show ?case
      proof (cases "length xs < 4")
        case True
        then show ?thesis by (simp add: chunks_exact.simps [of 4 xs] chunks_exact.simps [of 4 "[]"])
      next
        case False
        then have q: "length xs div 4 = Suc ((length xs - 4) div 4)" by (simp add: le_div_geq)
        have t: "drop 4 (take (4 * (length xs div 4)) xs) = take (4 * ((length xs - 4) div 4)) (drop 4 xs)"
          using q by (simp add: drop_take)
        have "take 4 (take (4 * (length xs div 4)) xs) = take 4 xs" using q by (simp add: min_def)
        moreover have "\<not> length (take (4 * (length xs div 4)) xs) < 4" using False q by simp
        ultimately show ?thesis
          using 1 False t by (subst chunks_exact.simps, subst (2) chunks_exact.simps) simp
      qed
    qed
    have "concat words = concat (chunks_exact 4 (take (4 * length words) (drop b data)))"
      unfolding words_def using part [of "drop b data"] by (simp add: length_chunks_exact)
    also have "\<dots> = take (4 * length words) (drop b data)"
      using le by (intro concat_chunks_exact) simp_all
    finally show ?thesis .
  qed
  then have "concat words @ drop (4 * length words) (drop b data) = drop b data"
    by (simp only: append_take_drop_id)
  then show "take b data @ concat words @ drop (4 * length words) (drop b data) = data" by simp
qed

lemma push_byte_write_run:
  assumes "push_byte_write a data (ap, acs) = (Ok u, ap', acs')" "agrees la ap v"
    and "a + length data \<le> limit" "limit \<le> 2 ^ 64"
  shows "\<exists>more v'. acs' = acs @ more \<and> ap_run limit la more v = Some (v', []) \<and> agrees la ap' v'
    \<and> av_mem v' = poke (av_mem v) a data"
proof -
  obtain aligned where al: "next_multiple_of64 a 4 = (Ok aligned :: (arm_error, nat) res)"
    using assms(1) by (auto simp: push_byte_write_def split: res.splits)
  define b where "b = min (aligned - a) (length data)"
  define hd where "hd = take b data"
  define words where "words = chunks_exact 4 (drop b data)"
  define tl where "tl = drop (4 * length words) (drop b data)"
  note pieces = byte_pieces [OF al, of data, folded b_def, folded words_def]
  have lens: "length hd = b" "length tl = length data - b - 4 * length words"
    by (simp_all add: hd_def tl_def b_def)
  obtain ap1 p1 ap2 p2 p3 where p:
    "push_piece a WU8 (length hd) (\<lambda>sh. lane_words sh hd) (ap, []) = (Ok (), ap1, p1)"
    "push_piece (a + length hd) WU32 (length words) (\<lambda>_. plain_words (map from_le words)) (ap1, p1) = (Ok (), ap2, p2)"
    "push_piece (a + (length hd + length words * 4)) WU8 (length tl) (\<lambda>sh. lane_words sh tl) (ap2, p2) = (Ok (), ap', p3)"
    "acs' = acs @ p3"
    using assms(1) unfolding push_byte_write_def al Let_def prod.case res.case
      b_def [symmetric] hd_def [symmetric] words_def [symmetric] tl_def [symmetric]
    by (auto split: if_splits option.splits res.splits prod.splits)
  have seq8: "drw_seq (part_bytes WU8) x (part_list WU8 (lane_words (shape_new x WU8 (length d)) d) 0 (length d)) f
      = (poke f x d, [])" for x d f
    using seq_lanes [of WU8 1 x d "length d" f] unfolding le_bytes_8 by (simp add: part_bytes_def)
  have le: "a + length hd + length words * 4 + length tl \<le> limit" using pieces(1) lens assms(3) by simp
  obtain v1 where v1: "agrees la ap1 v1" "ap_run limit la p1 v = Some (v1, [])" "av_mem v1 = poke (av_mem v) a hd"
    using push_piece_run [OF p(1) assms(2) _ _ assms(4)] le by (auto simp: seq8)
  have seq32: "drw_seq (part_bytes WU32) (a + b) (part_list WU32 (plain_words (map from_le words)) 0 (length words)) f
      = (poke f (a + b) (concat words), [])" for f
  proof (cases "words = []")
    case False
    have "to_le 4 (from_le c :: u32) = c" if "c \<in> set words" for c
      using to_le_from_le [where 'w = 32, of 4 c] chunks_exact_length [OF that [unfolded words_def]] by simp
    then have "map (to_le 4 \<circ> (from_le :: u8 list \<Rightarrow> u32)) words = words" by (intro map_idI) simp
    then show ?thesis
      using seq_plain [OF pieces(2) [OF False], of "map from_le words" "length words" f] by (simp add: part_bytes_def)
  qed (simp add: part_list_def)
  obtain more2 v2 where v2: "p2 = p1 @ more2" "agrees la ap2 v2" "ap_run limit la more2 v1 = Some (v2, [])"
    "av_mem v2 = poke (av_mem v1) (a + b) (concat words)"
    using push_piece_run [OF p(2) v1(1) _ _ assms(4)] le pieces(2) by (auto simp: seq32 lens(1))
  obtain more3 v3 where v3: "p3 = p2 @ more3" "agrees la ap' v3" "ap_run limit la more3 v2 = Some (v3, [])"
    "av_mem v3 = poke (av_mem v2) (a + (length hd + length words * 4)) tl"
    using push_piece_run [OF p(3) v2(2) _ _ assms(4)] le by (auto simp: seq8)
  have run: "ap_run limit la (p1 @ more2 @ more3) v = Some (v3, [])"
    using ap_run_append [OF v1(2) ap_run_append [OF v2(3) v3(3)]] by simp
  have len: "length (concat words) = 4 * length words"
    unfolding words_def by (simp add: length_concat chunks_exact_length sum_list_triv cong: map_cong)
  have "av_mem v3 = poke (av_mem v) a (hd @ concat words @ tl)"
    using poke_append [of "av_mem v" a hd "concat words"]
      poke_append [of "av_mem v" a "hd @ concat words" tl] lens(1)
    by (simp add: v1(3) v2(4) v3(4) len add.assoc mult.commute)
  moreover have "hd @ concat words @ tl = data" using pieces(3) by (simp add: hd_def tl_def)
  ultimately have "av_mem v3 = poke (av_mem v) a data" by simp
  moreover have "acs' = acs @ p1 @ more2 @ more3" using p(4) v2(1) v3(1) by simp
  ultimately show ?thesis using run v3(2) by blast
qed

text \<open>A byte-granular write that is refused leaves no trace in the noted transfer size.\<close>

lemma push_byte_write_Err:
  assumes "push_byte_write a data (ap, acs) = (Err e, s)"
  shows "s = (ap, acs)"
proof (cases "next_multiple_of64 a 4 :: (arm_error, nat) res")
  case (Ok aligned)
  define b where "b = min (aligned - a) (length data)"
  define hd where "hd = take b data"
  define words where "words = chunks_exact 4 (drop b data)"
  define tl where "tl = drop (4 * length words) (drop b data)"
  note pieces = byte_pieces [OF Ok, of data, folded b_def, folded words_def]
  have lens: "length hd = b" "length tl = length data - b - 4 * length words"
    by (simp_all add: hd_def tl_def b_def)
  let ?parts = "sbind (push_piece a WU8 (length hd) (\<lambda>sh. lane_words sh hd)) (\<lambda>_.
      sbind (push_piece (a + length hd) WU32 (length words) (\<lambda>_. plain_words (map from_le words))) (\<lambda>_.
      push_piece (a + (length hd + length words * 4)) WU8 (length tl) (\<lambda>sh. lane_words sh tl)))"
  have "?parts (ap, []) \<noteq> (Err e', s')"
    if c: "\<not> (\<not> (hd = [] \<and> tl = []) \<and> only_32bit ap)" "a + length data < 2 ^ 64"
      "\<not> (a + length data > 0xFFFFFFFF \<and> \<not> large_address ap)" for e' s'
  proof
    assume err: "?parts (ap, []) = (Err e', s')"
    have lim: "a + length hd + 4 * length words + length tl \<le> a + length data" using pieces(1) lens by simp
    consider "push_piece a WU8 (length hd) (\<lambda>sh. lane_words sh hd) (ap, []) = (Err e', s')"
      | ap1 p1 where "push_piece a WU8 (length hd) (\<lambda>sh. lane_words sh hd) (ap, []) = (Ok (), ap1, p1)"
        "push_piece (a + length hd) WU32 (length words) (\<lambda>_. plain_words (map from_le words)) (ap1, p1) = (Err e', s')"
      | ap1 p1 ap2 p2 where "push_piece a WU8 (length hd) (\<lambda>sh. lane_words sh hd) (ap, []) = (Ok (), ap1, p1)"
        "push_piece (a + length hd) WU32 (length words) (\<lambda>_. plain_words (map from_le words)) (ap1, p1) = (Ok (), ap2, p2)"
        "push_piece (a + (length hd + length words * 4)) WU8 (length tl) (\<lambda>sh. lane_words sh tl) (ap2, p2) = (Err e', s')"
      using err by (fastforce simp: sbind_def split: res.splits prod.splits)
    then show False
    proof cases
      case 1
      show ?thesis by (rule push_piece_no_Err [OF 1]) (use c lim in auto)
    next
      case 2
      show ?thesis
        by (rule push_piece_no_Err [OF 2(2)]) (use c lim push_piece_keeps [OF 2(1)] in auto)
    next
      case 3
      have "tl \<noteq> []" using 3(3) by (cases "tl = []") (simp_all add: push_piece_def)
      then show ?thesis
        by (intro push_piece_no_Err [OF 3(3)])
          (use c lim push_piece_keeps [OF 3(1)] push_piece_keeps [OF 3(2)] in auto)
    qed
  qed
  then show ?thesis
    using assms(1) unfolding push_byte_write_def Ok Let_def prod.case res.case
      b_def [symmetric] hd_def [symmetric] words_def [symmetric] tl_def [symmetric]
    by (auto simp: checked_add64_def split: if_splits option.splits res.splits prod.splits)
qed (use assms(1) in \<open>auto simp: push_byte_write_def\<close>)

subsection \<open>A gathered batch\<close>

lemma gather_shaped:
  assumes "kind_shape k = Some wn" "op_kind op = k"
  shows "gather_from dap (op # ops) lo s =
    (case shape_of (adi_ap s) op of
       Ok None \<Rightarrow> (Ok lo, s)
     | Err e \<Rightarrow> (stop lo e, s)
     | Panic \<Rightarrow> (Panic, s)
     | Ok (Some sh) \<Rightarrow>
         (case lower_operation (adi_ap s) k sh of
            Err e \<Rightarrow> (stop lo e, s)
          | Panic \<Rightarrow> (Panic, s)
          | Ok lowered \<Rightarrow>
              (let sz = data_size_for (sh_width sh) (large_data (adi_ap s)) in
               case push_datasize sz (adi_ap s, lo_accesses lo) of
                 (Ok True, ap, acs) \<Rightarrow>
                   gather_from dap ops (join k sh lowered (lo\<lparr>lo_accesses := acs\<rparr>)) (s\<lparr>adi_ap := ap\<rparr>)
               | (Ok False, ap, acs) \<Rightarrow>
                   (if lo_spans lo \<noteq> [] then (Ok (lo\<lparr>lo_accesses := acs\<rparr>), s\<lparr>adi_ap := ap\<rparr>)
                    else sbind (adi_try_set_datasize dap sz)
                           (\<lambda>_. gather_from dap ops (join k sh lowered (lo\<lparr>lo_accesses := acs\<rparr>)))
                           (s\<lparr>adi_ap := ap\<rparr>))
               | (Err e, ap, acs) \<Rightarrow> (stop (lo\<lparr>lo_accesses := acs\<rparr>) e, s\<lparr>adi_ap := ap\<rparr>)
               | (Panic, ap, acs) \<Rightarrow> (Panic, s\<lparr>adi_ap := ap\<rparr>))))"
  using assms(1) unfolding gather_from.simps assms(2) by (induct k) simp_all

text \<open>
  What the gathered accesses are for: the first \<open>n\<close> operations on a flat memory \<open>f\<close>, with their
  words in the reply after \<open>base\<close> others.
\<close>

definition batch_for ::
  "nat \<Rightarrow> bool \<Rightarrow> ap_view \<Rightarrow> 'e operation list \<Rightarrow> nat \<Rightarrow> ap_accesses \<Rightarrow> (nat \<times> nat) list \<Rightarrow> ap_view \<Rightarrow> bool" where
  "batch_for limit la v ops base acs spans v' \<longleftrightarrow> (\<exists>es.
     ap_run limit la acs v = Some (v', es) \<and> av_mem v' = snd (flat_ops (take (length spans) ops) (av_mem v))
     \<and> length spans \<le> length ops
     \<and> (\<forall>pre vs. length pre = base \<and> list_all2 word_ok es vs \<longrightarrow>
          scatter_all (pre @ vs) (take (length spans) ops) spans
            = Ok (fst (flat_ops (take (length spans) ops) (av_mem v)))))"

lemma batch_for_Nil: "batch_for limit la v ops base [] [] v"
  unfolding batch_for_def by (intro exI [of _ "[]"]) simp

lemma batch_for_Cons:
  assumes "ap_run limit la acs v = Some (v1, es)" "batch_for limit la v1 ops (base + length es) acs' spans v'"
    and "(k, av_mem v1) = flat_op (op_address op) (op_kind op) (av_mem v)"
    and "\<And>vs. list_all2 word_ok es vs \<Longrightarrow> scatter (op_address op) (op_kind op) vs = Ok k"
  shows "batch_for limit la v (op # ops) base (acs @ acs') ((base, length es) # spans) v'"
proof -
  obtain fs where f: "ap_run limit la acs' v1 = Some (v', fs)"
    "av_mem v' = snd (flat_ops (take (length spans) ops) (av_mem v1))" "length spans \<le> length ops"
    "\<And>pre vs. length pre = base + length es \<Longrightarrow> list_all2 word_ok fs vs \<Longrightarrow>
       scatter_all (pre @ vs) (take (length spans) ops) spans
         = Ok (fst (flat_ops (take (length spans) ops) (av_mem v1)))"
    using assms(2) unfolding batch_for_def by blast
  have sc: "scatter_all (pre @ vs) (op # take (length spans) ops) ((base, length es) # spans)
      = Ok (fst (flat_ops (op # take (length spans) ops) (av_mem v)))"
    if "length pre = base" "list_all2 word_ok (es @ fs) vs" for pre vs
  proof -
    obtain vs1 vs2 where vs: "vs = vs1 @ vs2" "list_all2 word_ok es vs1" "list_all2 word_ok fs vs2"
      using \<open>list_all2 word_ok (es @ fs) vs\<close> by (metis list_all2_append1)
    then have len: "length vs1 = length es" by (simp add: list_all2_lengthD)
    have "slice_r (pre @ vs) base (base + length es) = (Ok vs1 :: (arm_error, u32 list) res)"
      using that(1) len vs(1) by (simp add: slice_r_eq)
    moreover have "scatter_all ((pre @ vs1) @ vs2) (take (length spans) ops) spans
        = Ok (fst (flat_ops (take (length spans) ops) (av_mem v1)))"
      using f(4) [of "pre @ vs1" vs2] that(1) len vs(3) by simp
    ultimately show ?thesis
      using assms(4) [OF vs(2)] assms(3) [symmetric] vs(1) by (simp split: prod.splits)
  qed
  show ?thesis
    unfolding batch_for_def
  proof (intro exI [of _ "es @ fs"] conjI allI impI)
    show "ap_run limit la (acs @ acs') v = Some (v', es @ fs)" by (rule ap_run_append [OF assms(1) f(1)])
    show "av_mem v' = snd (flat_ops (take (length ((base, length es) # spans)) (op # ops)) (av_mem v))"
      using f(2) assms(3) [symmetric] by (simp split: prod.splits)
    show "length ((base, length es) # spans) \<le> length (op # ops)" using f(3) by simp
    fix pre vs :: "u32 list"
    assume "length pre = base \<and> list_all2 word_ok (es @ fs) vs"
    then show "scatter_all (pre @ vs) (take (length ((base, length es) # spans)) (op # ops)) ((base, length es) # spans)
        = Ok (fst (flat_ops (take (length ((base, length es) # spans)) (op # ops)) (av_mem v)))"
      using sc [of pre vs] by (simp only: length_Cons take_Suc_Cons)
  qed
qed

lemma gather_run:
  assumes "gather_from dap ops lo s = (Ok lo', t)" "agrees la (adi_ap s) v" "limit \<le> 2 ^ 64"
    and "\<forall>op \<in> set ops. op_address op + op_bytes (op_kind op) \<le> limit"
  shows "\<exists>more spans v'. adi_dap t = adi_dap s \<and> lo_accesses lo' = lo_accesses lo @ more
    \<and> lo_spans lo' = lo_spans lo @ spans \<and> agrees la (adi_ap t) v'
    \<and> batch_for limit la v ops (lo_words lo) more spans v'"
  using assms
proof (induction ops arbitrary: lo s v)
  case Nil
  then show ?case using batch_for_Nil by (intro exI [of _ "[]"] exI [of _ v]) simp
next
  case (Cons op ops)
  let ?a = "op_address op" and ?k = "op_kind op"
  have stopped: ?case if "lo' = lo" "t = s\<lparr>adi_ap := adi_ap s\<rparr>"
    using that Cons.prems(2) batch_for_Nil by (intro exI [of _ "[]"] exI [of _ v]) simp
  have rest: "\<forall>op \<in> set ops. op_address op + op_bytes (op_kind op) \<le> limit" using Cons.prems(4) by simp
  have inr: "?a + op_bytes ?k \<le> limit" using Cons.prems(4) by simp
  consider (wr) data where "?k = OpWrite data" | (rd) data where "?k = OpRead data"
    | (shaped) w n where "kind_shape ?k = Some (w, n)"
    by (cases ?k) auto
  then show ?case
  proof cases
    case rd
    then have "lo' = lo" "t = s" using Cons.prems(1) by (simp_all add: shape_of_def)
    then show ?thesis using stopped by simp
  next
    case (wr data)
    obtain r ap acs where p: "push_byte_write ?a data (adi_ap s, lo_accesses lo) = (r, ap, acs)" by (metis prod_cases3)
    show ?thesis
    proof (cases r)
      case (Err e)
      have "ap = adi_ap s" "acs = lo_accesses lo"
        using push_byte_write_Err [OF p [unfolded Err]] by simp_all
      then show ?thesis
        using stopped Cons.prems(1) wr p Err by (auto simp: stop_def split: if_splits)
    next
      case Panic
      then show ?thesis using Cons.prems(1) wr p by simp
    next
      case (Ok u)
      obtain more v1 where m: "acs = lo_accesses lo @ more" "ap_run limit la more v = Some (v1, [])" "agrees la ap v1"
        "av_mem v1 = poke (av_mem v) ?a data"
        using push_byte_write_run [OF p [unfolded Ok] Cons.prems(2) _ Cons.prems(3)] inr wr by auto
      let ?lo = "lo\<lparr>lo_accesses := acs, lo_spans := lo_spans lo @ [(lo_words lo, 0)]\<rparr>"
      have g: "gather_from dap ops ?lo (s\<lparr>adi_ap := ap\<rparr>) = (Ok lo', t)"
        using Cons.prems(1) wr p Ok by simp
      obtain more' spans v' where h: "adi_dap t = adi_dap s" "lo_accesses lo' = acs @ more'"
        "lo_spans lo' = (lo_spans lo @ [(lo_words lo, 0)]) @ spans" "agrees la (adi_ap t) v'"
        "batch_for limit la v1 ops (lo_words lo + length ([] :: expected list)) more' spans v'"
        using Cons.IH [OF g _ Cons.prems(3) rest, of v1] m(3) by auto
      have "batch_for limit la v (op # ops) (lo_words lo) (more @ more') ((lo_words lo, length ([] :: expected list)) # spans) v'"
        by (rule batch_for_Cons [OF m(2) h(5), of ?k]) (use wr m(4) in simp_all)
      then show ?thesis
        using h(1-4) m(1) by (intro exI [of _ "more @ more'"] exI [of _ "(lo_words lo, 0) # spans"] exI [of _ v']) simp
    qed
  next
    case (shaped w n)
    have ld: "\<not> large_data (adi_ap s)" using Cons.prems(2) by (simp add: agrees_def)
    let ?sh = "shape_new ?a w n" and ?sz = "data_size_for w False"
    have wsh: "sh_width ?sh = w" "sh_elements ?sh = n" "sh_address ?sh = ?a" by (simp_all add: shape_new_def)
    note gs = Cons.prems(1) [unfolded gather_shaped [OF shaped refl]]
    show ?thesis
    proof (cases "shape_of (adi_ap s) op")
      case (Err e)
      then show ?thesis using stopped gs by (auto simp: stop_def split: if_splits)
    next
      case Panic
      then show ?thesis using gs by simp
    next
      case (Ok sh)
      then have sh: "sh = Some ?sh" "width_bytes w dvd ?a"
        using shaped by (auto simp: shape_of_def split: if_splits)
      show ?thesis
      proof (cases "lower_operation (adi_ap s) ?k ?sh")
        case (Err e)
        then show ?thesis using stopped gs Ok sh by (auto simp: stop_def split: if_splits)
      next
        case Panic
        then show ?thesis using gs Ok sh by simp
      next
        case low: (Ok lowered)
        obtain r ap acs where p: "push_datasize ?sz (adi_ap s, lo_accesses lo) = (r, ap, acs)" by (metis prod_cases3)
        show ?thesis
        proof (cases r)
          case (Err e)
          have "ap = adi_ap s" "acs = lo_accesses lo" using push_datasize_Err [OF p [unfolded Err]] by simp_all
          then show ?thesis
            using stopped gs Ok sh low p Err ld wsh by (auto simp: stop_def split: if_splits)
        next
          case Panic
          then show ?thesis using gs Ok sh low p ld wsh by simp
        next
          case okd: (Ok b)
          obtain m1 v1 where m1: "b" "acs = lo_accesses lo @ m1" "ap_run limit la m1 v = Some (v1, [])" "agrees la ap v1"
            "av_size v1 = ?sz" "av_mem v1 = av_mem v"
            using push_datasize_run [OF p [unfolded okd] Cons.prems(2) width_parts(7)] by blast
          have g: "gather_from dap ops (join ?k ?sh lowered (lo\<lparr>lo_accesses := acs\<rparr>)) (s\<lparr>adi_ap := ap\<rparr>) = (Ok lo', t)"
            using gs Ok sh low p okd m1(1) ld wsh by simp
          have "lower (adi_ap s) ?sh (kind_words ?k ?sh) = Ok lowered"
            using low lower_operation_words [OF shaped] by simp
          then have lw: "lower ap ?sh (kind_words ?k ?sh) = Ok lowered"
            using lower_note [of "adi_ap s" ap] Cons.prems(2) m1(4) by (simp add: agrees_def)
          let ?S = "drw_seq (part_bytes w) ?a (part_list w (kind_words ?k ?sh) 0 n) (av_mem v)"
          note seq = kind_seq [OF shaped sh(2), of "av_mem v"]
          have "\<exists>v'. agrees la ap v' \<and> ap_run limit la lowered v1 = Some (v', snd ?S) \<and> av_mem v' = fst ?S \<and> av_size v' = av_size v1"
            using lower_run [OF lw m1(4), unfolded wsh m1(6), OF _ sh(2) _ Cons.prems(3)]
              m1(5) width_parts(2) [of w] inr kind_bytes [OF shaped] by simp
          then obtain v2 where v2: "agrees la ap v2" "ap_run limit la lowered v1 = Some (v2, snd ?S)" "av_mem v2 = fst ?S"
            by blast
          have reads: "lo_words (join ?k ?sh lowered (lo\<lparr>lo_accesses := acs\<rparr>)) = lo_words lo + length (snd ?S)"
            "lo_spans (join ?k ?sh lowered (lo\<lparr>lo_accesses := acs\<rparr>)) = lo_spans lo @ [(lo_words lo, length (snd ?S))]"
            "lo_accesses (join ?k ?sh lowered (lo\<lparr>lo_accesses := acs\<rparr>)) = acs @ lowered"
            using seq(2) wsh by (simp_all add: join_def shape_words_def Let_def)
          obtain more' spans v' where h: "adi_dap t = adi_dap s" "lo_accesses lo' = (acs @ lowered) @ more'"
            "lo_spans lo' = (lo_spans lo @ [(lo_words lo, length (snd ?S))]) @ spans" "agrees la (adi_ap t) v'"
            "batch_for limit la v2 ops (lo_words lo + length (snd ?S)) more' spans v'"
            using Cons.IH [OF g _ Cons.prems(3) rest, of v2, unfolded reads] v2(1) by auto
          have run: "ap_run limit la (m1 @ lowered) v = Some (v2, snd ?S)"
            using ap_run_append [OF m1(3) v2(2)] by simp
          have "batch_for limit la v (op # ops) (lo_words lo) ((m1 @ lowered) @ more') ((lo_words lo, length (snd ?S)) # spans) v'"
            by (rule batch_for_Cons [OF run h(5), of "fst (flat_op ?a ?k (av_mem v))"])
              (use seq(1,3) v2(3) in simp_all)
          then show ?thesis
            using h(1-4) m1(2)
            by (intro exI [of _ "(m1 @ lowered) @ more'"] exI [of _ "(lo_words lo, length (snd ?S)) # spans"] exI [of _ v']) simp
        qed
      qed
    qed
  qed
qed

lemma flat_ops_append:
  "flat_ops (xs @ ys) f = (case flat_ops xs f of (xs', g) \<Rightarrow> (case flat_ops ys g of (ys', h) \<Rightarrow> (xs' @ ys', h)))"
  by (induction xs arbitrary: f) (auto split: prod.splits)

lemma length_flat_ops [simp]: "length (fst (flat_ops ops f)) = length ops"
  by (induction ops arbitrary: f) (simp_all add: case_prod_unfold)

text \<open>The outcome of the operations from index \<open>start\<close> on: all done, or the first of a batch failed.\<close>

fun ops_outcome :: "nat \<Rightarrow> 'e operation list \<Rightarrow> flat \<Rightarrow> (nat \<times> arm_error, unit) res \<Rightarrow> 'e operation list \<Rightarrow> flat \<Rightarrow> bool" where
  "ops_outcome start ops f (Ok u) ops' g = ((ops', g) = flat_ops ops f)"
| "ops_outcome start ops f (Err (i, e)) ops' g \<longleftrightarrow>
     start \<le> i \<and> i - start < length ops
     \<and> ops' = fst (flat_ops (take (i - start) ops) f) @ drop (i - start) ops"
| "ops_outcome start ops f Panic ops' g = True"

lemma ops_outcome_append:
  assumes "(batch, g) = flat_ops (take n ops) f" "n \<le> length ops"
    and "ops_outcome (start + n) (drop n ops) g r rest h"
  shows "ops_outcome start ops f r (batch @ rest) h"
proof (cases r)
  case (Ok u)
  have "flat_ops ops f = flat_ops (take n ops @ drop n ops) f" by simp
  then show ?thesis
    using assms(1) assms(3) Ok unfolding flat_ops_append by (auto split: prod.splits)
next
  case (Err ie)
  obtain i e where ie: "ie = (i, e)" by (cases ie)
  then have o: "start + n \<le> i" "i - (start + n) < length ops - n"
    "rest = fst (flat_ops (take (i - (start + n)) (drop n ops)) g) @ drop (i - (start + n)) (drop n ops)"
    using assms(3) Err by auto
  define m where "m = i - (start + n)"
  have m: "i - start = n + m" using o(1) by (simp add: m_def)
  have "take (n + m) ops = take n ops @ take m (drop n ops)" by (simp add: take_add)
  then have "fst (flat_ops (take (n + m) ops) f) = batch @ fst (flat_ops (take m (drop n ops)) g)"
    using assms(1) [symmetric] by (simp add: flat_ops_append split: prod.splits)
  moreover have "m < length ops - n" "start \<le> i"
    "rest = fst (flat_ops (take m (drop n ops)) g) @ drop (n + m) ops"
    using o(1) o(2,3) [folded m_def] by (simp_all add: add.commute)
  ultimately show ?thesis using m Err ie by simp
qed simp

subsection \<open>The contract of a register access\<close>

locale mem_ap =
  fixes dap :: "'d dap" and limit :: nat and la :: bool
    and as_view :: "ap_view \<Rightarrow> 'd \<Rightarrow> bool" and mem :: "'d \<Rightarrow> flat"
  assumes limit_aligned: "4 dvd limit" and limit_64: "limit \<le> 2 ^ 64"
    and mem_law: "as_view v d \<Longrightarrow> mem d = av_mem v"
    and access_law: "as_view v d \<Longrightarrow> da_access dap acs d = (Ok ws, d') \<Longrightarrow>
      ap_run limit la acs v = Some (v', es) \<Longrightarrow> as_view v' d' \<and> list_all2 word_ok es ws"
begin

lemma raw_access_run:
  assumes "raw_access dap acs s = (Ok ws, t)" "as_view v (adi_dap s)" "ap_run limit la acs v = Some (v', es)"
    and "agrees la (adi_ap s) v'"
  shows "adi_ready la as_view t" "adi_content mem t = av_mem v'" "list_all2 word_ok es ws"
proof -
  obtain d where d: "da_access dap acs (adi_dap s) = (Ok ws, d)" "t = s\<lparr>adi_dap := d\<rparr>"
    using assms(1) by (auto simp: raw_access_def split: prod.splits)
  from access_law [OF assms(2) d(1) assms(3)] d(2) assms(4)
  show "adi_ready la as_view t" "adi_content mem t = av_mem v'" "list_all2 word_ok es ws"
    by (auto simp: adi_ready_def adi_content_def mem_law)
qed

lemma run_shape_flat:
  assumes "adi_ready la as_view s" "run_shape dap sh word s = (Ok ws, t)"
    and "width_bytes (sh_width sh) dvd sh_address sh"
    and "sh_address sh + sh_elements sh * width_bytes (sh_width sh) \<le> limit"
  defines "S \<equiv> drw_seq (part_bytes (sh_width sh)) (sh_address sh)
    (part_list (sh_width sh) word 0 (sh_elements sh)) (adi_content mem s)"
  shows "adi_ready la as_view t" "adi_content mem t = fst S" "list_all2 word_ok (snd S) ws"
proof -
  let ?sz = "data_size_for (sh_width sh) False"
  obtain v where v: "as_view v (adi_dap s)" "agrees la (adi_ap s) v"
    using assms(1) by (auto simp: adi_ready_def)
  then have ld: "\<not> large_data (adi_ap s)" by (simp add: agrees_def)
  obtain transfers b ap acs where r: "lower (adi_ap s) sh word = Ok transfers"
    "push_datasize ?sz (adi_ap s, []) = (Ok b, ap, acs)"
    "sbind (if b then sret () else on_error dap (adi_try_set_datasize dap ?sz))
       (\<lambda>_. on_error dap (raw_access dap (acs @ transfers))) (s\<lparr>adi_ap := ap\<rparr>) = (Ok ws, t)"
    using assms(2) ld by (auto simp: run_shape_def Let_def split: res.splits prod.splits)
  obtain v1 where v1: "b" "ap_run limit la acs v = Some (v1, [])" "agrees la ap v1" "av_size v1 = ?sz" "av_mem v1 = av_mem v"
    using push_datasize_run [OF r(2) v(2) width_parts(7)] by auto
  have "large_address ap = large_address (adi_ap s)" using v(2) v1(3) by (simp add: agrees_def)
  then have low: "lower ap sh word = Ok transfers" using lower_note r(1) by metis
  have mem: "adi_content mem s = av_mem v" using mem_law [OF v(1)] by (simp add: adi_content_def)
  obtain v2 where v2: "agrees la ap v2" "ap_run limit la transfers v1 = Some (v2, snd S)" "av_mem v2 = fst S"
    using lower_run [OF low v1(3) _ assms(3,4) limit_64] v1(4,5) width_parts(2) mem unfolding S_def by auto
  have "raw_access dap (acs @ transfers) (s\<lparr>adi_ap := ap\<rparr>) = (Ok ws, t)"
    using r(3) v1(1) by (auto simp: on_error_def split: prod.splits res.splits)
  from raw_access_run [OF this _ ap_run_append [OF v1(2) v2(2)]] v(1) v2(1,3)
  show "adi_ready la as_view t" "adi_content mem t = fst S" "list_all2 word_ok (snd S) ws" by simp_all
qed

lemma run_kind_flat:
  assumes "adi_ready la as_view s" "run_shape dap (shape_new a w n) (kind_words k (shape_new a w n)) s = (Ok ws, t)"
    and "kind_shape k = Some (w, n)" "width_bytes w dvd a" "a + op_bytes k \<le> limit"
  shows "adi_ready la as_view t" "adi_content mem t = snd (flat_op a k (adi_content mem s))"
    "scatter a k ws = Ok (fst (flat_op a k (adi_content mem s)))"
proof -
  have "sh_address (shape_new a w n) + sh_elements (shape_new a w n) * width_bytes (sh_width (shape_new a w n)) \<le> limit"
    "width_bytes (sh_width (shape_new a w n)) dvd sh_address (shape_new a w n)"
    using assms(4,5) kind_bytes [OF assms(3)] by (simp_all add: shape_new_def)
  from run_shape_flat [OF assms(1,2) this(2,1)] kind_seq [OF assms(3,4), of "adi_content mem s"]
  show "adi_ready la as_view t" "adi_content mem t = snd (flat_op a k (adi_content mem s))"
    "scatter a k ws = Ok (fst (flat_op a k (adi_content mem s)))"
    by (simp_all add: shape_new_def)
qed

lemma read_law:
  assumes "kind_shape (mk n) = Some (w, n)" "kind_words (mk n) (shape_new a w n) = read_words"
    and "adi_ready la as_view s" "run_read dap (shape_new a w n) s = (Ok ws, t)"
    and "width_bytes w dvd a" "a + op_bytes (mk n) \<le> limit"
  shows "adi_ready la as_view t" "adi_content mem t = snd (flat_op a (mk n) (adi_content mem s))"
    "scatter a (mk n) ws = Ok (fst (flat_op a (mk n) (adi_content mem s)))"
  using run_kind_flat [OF assms(3) _ assms(1,5,6)] assms(2,4) by (simp_all add: run_read_def)

lemma r8_law: "reads_as (adi_ready la as_view) (adi_content mem) limit 1 (adi_read_8 dap)"
  unfolding reads_as_def
proof (intro allI impI, elim conjE)
  fix s a n t and ds :: "u8 list"
  assume a: "adi_ready la as_view s" "a + 1 * n \<le> limit" "adi_read_8 dap a n s = (Ok ds, t)"
  show "adi_ready la as_view t \<and> adi_content mem t = adi_content mem s
      \<and> le_bytes 1 ds = peek (adi_content mem s) a (1 * n)"
  proof (cases "n = 0")
    case False
    then obtain ws where ws: "run_read dap (shape_new a WU8 n) s = (Ok ws, t)" "take_lanes a WU8 n ws = Ok ds"
      using a(3) by (auto simp: adi_read_8_def split: if_splits)
    from read_law [of "\<lambda>n. OpRead8 (replicate n 0)", OF _ _ a(1) ws(1)] a(2) ws(2)
    show ?thesis unfolding le_bytes_8 by simp
  qed (use a in \<open>auto simp: adi_read_8_def split: if_splits\<close>)
qed

lemma r16_law: "reads_as (adi_ready la as_view) (adi_content mem) limit 2 (adi_read_16 dap)"
  unfolding reads_as_def
proof (intro allI impI, elim conjE)
  fix s a n t and ds :: "u16 list"
  assume a: "adi_ready la as_view s" "a + 2 * n \<le> limit" "adi_read_16 dap a n s = (Ok ds, t)"
  show "adi_ready la as_view t \<and> adi_content mem t = adi_content mem s
      \<and> le_bytes 2 ds = peek (adi_content mem s) a (2 * n)"
  proof (cases "n = 0")
    case False
    then obtain ws where ws: "2 dvd a" "run_read dap (shape_new a WU16 n) s = (Ok ws, t)" "take_lanes a WU16 n ws = Ok ds"
      using a(3) by (auto simp: adi_read_16_def split: if_splits)
    from read_law [of "\<lambda>n. OpRead16 (replicate n 0)", OF _ _ a(1) ws(2)] a(2) ws(1,3)
      le_bytes_chunks [of 2 "peek (adi_content mem s) a (2 * n)", where 'w = 16]
    show ?thesis by simp
  qed (use a in \<open>auto simp: adi_read_16_def split: if_splits\<close>)
qed

lemma r32_law: "reads_as (adi_ready la as_view) (adi_content mem) limit 4 (adi_read_32 dap)"
  unfolding reads_as_def
proof (intro allI impI, elim conjE)
  fix s a n t and ds :: "u32 list"
  assume a: "adi_ready la as_view s" "a + 4 * n \<le> limit" "adi_read_32 dap a n s = (Ok ds, t)"
  show "adi_ready la as_view t \<and> adi_content mem t = adi_content mem s
      \<and> le_bytes 4 ds = peek (adi_content mem s) a (4 * n)"
  proof (cases "n = 0")
    case False
    then have ws: "4 dvd a" "run_read dap (shape_new a WU32 n) s = (Ok ds, t)"
      using a(3) by (auto simp: adi_read_32_def split: if_splits)
    from read_law [of "\<lambda>n. OpRead32 (replicate n 0)", OF _ _ a(1) ws(2)] a(2) ws(1)
      le_bytes_chunks [of 4 "peek (adi_content mem s) a (4 * n)", where 'w = 32]
    show ?thesis by (simp split: if_splits)
  qed (use a in \<open>auto simp: adi_read_32_def split: if_splits\<close>)
qed

lemma r64_law: "reads_as (adi_ready la as_view) (adi_content mem) limit 8 (adi_read_64 dap)"
  unfolding reads_as_def
proof (intro allI impI, elim conjE)
  fix s a n t and ds :: "u64 list"
  assume a: "adi_ready la as_view s" "a + 8 * n \<le> limit" "adi_read_64 dap a n s = (Ok ds, t)"
  show "adi_ready la as_view t \<and> adi_content mem t = adi_content mem s
      \<and> le_bytes 8 ds = peek (adi_content mem s) a (8 * n)"
  proof (cases "n = 0")
    case False
    then obtain ws where ws: "8 dvd a" "run_read dap (shape_new a WU64 n) s = (Ok ws, t)" "join_words n ws = Ok ds"
      using a(3) by (auto simp: adi_read_64_def split: if_splits)
    from read_law [of "\<lambda>n. OpRead64 (replicate n 0)", OF _ _ a(1) ws(2)] a(2) ws(1,3)
      le_bytes_chunks [of 8 "peek (adi_content mem s) a (8 * n)", where 'w = 64]
    show ?thesis by simp
  qed (use a in \<open>auto simp: adi_read_64_def split: if_splits\<close>)
qed

lemma write_law:
  assumes "kind_shape k = Some (w, n)" "adi_ready la as_view s"
    and "run_write dap (shape_new a w n) (kind_words k (shape_new a w n)) s = (Ok u, t)"
    and "width_bytes w dvd a" "a + op_bytes k \<le> limit"
  shows "adi_ready la as_view t" "adi_content mem t = snd (flat_op a k (adi_content mem s))"
  using run_kind_flat [OF assms(2) _ assms(1,4,5)] assms(3) by (auto simp: run_write_def)

lemma w_laws:
  "writes_as (adi_ready la as_view) (adi_content mem) limit 1 (adi_write_8 dap)"
  "writes_as (adi_ready la as_view) (adi_content mem) limit 2 (adi_write_16 dap)"
  "writes_as (adi_ready la as_view) (adi_content mem) limit 4 (adi_write_32 dap)"
  "writes_as (adi_ready la as_view) (adi_content mem) limit 8 (adi_write_64 dap)"
  unfolding writes_as_def le_bytes_8
proof (safe)
  fix s a t
  assume r: "adi_ready la as_view s"
  {
    fix d :: "u8 list"
    assume "a + 1 * length d \<le> limit" "adi_write_8 dap a d s = (Ok (), t)"
    then show "adi_ready la as_view t" "adi_content mem t = poke (adi_content mem s) a d"
      using write_law [of "OpWrite8 d" WU8 "length d" s a "()" t] r
      by (auto simp: adi_write_8_def Let_def split: if_splits)
  }
  {
    fix d :: "u16 list"
    assume "a + 2 * length d \<le> limit" "adi_write_16 dap a d s = (Ok (), t)"
    then show "adi_ready la as_view t" "adi_content mem t = poke (adi_content mem s) a (le_bytes 2 d)"
      using write_law [of "OpWrite16 d" WU16 "length d" s a "()" t] r
      by (auto simp: adi_write_16_def Let_def split: if_splits)
  }
  {
    fix d :: "u32 list"
    assume "a + 4 * length d \<le> limit" "adi_write_32 dap a d s = (Ok (), t)"
    then show "adi_ready la as_view t" "adi_content mem t = poke (adi_content mem s) a (le_bytes 4 d)"
      using write_law [of "OpWrite32 d" WU32 "length d" s a "()" t] r
      by (auto simp: adi_write_32_def split: if_splits)
  }
  {
    fix d :: "u64 list"
    assume "a + 8 * length d \<le> limit" "adi_write_64 dap a d s = (Ok (), t)"
    then show "adi_ready la as_view t" "adi_content mem t = poke (adi_content mem s) a (le_bytes 8 d)"
      using write_law [of "OpWrite64 d" WU64 "length d" s a "()" t] r
      by (auto simp: adi_write_64_def split: if_splits)
  }
qed

end

lemma run_from_other:
  assumes "\<not> (\<exists>d. k = OpRead d)" "op_kind op = k"
  shows "run_from dap start (op # ops) s =
    (case on_error dap (gather dap (op # ops)) s of
       (Err e, s) \<Rightarrow> (Err (start, e), op # ops, s)
     | (Panic, s) \<Rightarrow> (Panic, op # ops, s)
     | (Ok lo, s) \<Rightarrow>
         (let n = length (lo_spans lo) in
          if n = 0 then (Panic, op # ops, s)
          else
            (case on_error dap (raw_access dap (lo_accesses lo)) s of
               (Err e, s) \<Rightarrow> (Err (start, e), op # ops, s)
             | (Panic, s) \<Rightarrow> (Panic, op # ops, s)
             | (Ok values, s) \<Rightarrow>
                 (case scatter_all values (take n (op # ops)) (lo_spans lo) of
                    Ok batch \<Rightarrow>
                      (case run_from dap (start + n) (drop n (op # ops)) s of
                         (r, ops, s) \<Rightarrow> (r, batch @ ops, s))
                  | _ \<Rightarrow> (Panic, op # ops, s)))))"
  using assms(1) unfolding run_from.simps assms(2) by (induct k) simp_all

sublocale mem_ap \<subseteq> prims: flat_memory "adi_prims dap" "adi_ready la as_view" "adi_content mem" limit
  by unfold_locales (simp_all add: adi_prims_def limit_aligned r8_law [simplified] r16_law r32_law r64_law w_laws [simplified])

context mem_ap
begin

lemmas adi_read_law = prims.read_default [folded adi_read_def]

lemma run_from_flat:
  assumes "run_from dap start ops s = (r, ops', t)" "adi_ready la as_view s"
    and "\<forall>op \<in> set ops. op_address op + op_bytes (op_kind op) \<le> limit"
  shows "ops_outcome start ops (adi_content mem s) r ops' (adi_content mem t)
    \<and> (is_ok r \<longrightarrow> adi_ready la as_view t)"
  using assms
proof (induction "length ops" arbitrary: start ops s r ops' t rule: less_induct)
  case less
  show ?case
  proof (cases ops)
    case Nil
    then show ?thesis using less.prems by auto
  next
    case (Cons op rest)
    have rng: "op_address op + op_bytes (op_kind op) \<le> limit"
      "\<forall>op \<in> set rest. op_address op + op_bytes (op_kind op) \<le> limit"
      using less.prems(3) Cons by simp_all
    show ?thesis
    proof (cases "\<exists>d. op_kind op = OpRead d")
      case True
      then obtain d where d: "op_kind op = OpRead d" by blast
      obtain q s1 where q: "adi_read dap (op_address op) (length d) s = (q, s1)" by fastforce
      show ?thesis
      proof (cases q)
        case (Ok bytes)
        have s1: "adi_ready la as_view s1" "adi_content mem s1 = adi_content mem s"
          "bytes = peek (adi_content mem s) (op_address op) (length d)"
          using reads_asD [OF adi_read_law less.prems(2) _ q [unfolded Ok]] rng(1) d unfolding le_bytes_8 by simp_all
        obtain more where m: "run_from dap (start + 1) rest s1 = (r, more, t)"
          "ops' = op\<lparr>op_kind := OpRead bytes, op_result := Some (Ok ())\<rparr> # more"
          using less.prems(1) Cons d q Ok by (auto split: prod.splits)
        have IH: "ops_outcome (start + 1) rest (adi_content mem s1) r more (adi_content mem t)
            \<and> (is_ok r \<longrightarrow> adi_ready la as_view t)"
          using less.hyps [OF _ m(1) s1(1) rng(2)] Cons by simp
        have "ops_outcome start ops (adi_content mem s) r
            ([op\<lparr>op_kind := OpRead bytes, op_result := Some (Ok ())\<rparr>] @ more) (adi_content mem t)"
          by (rule ops_outcome_append [where n = 1 and g = "adi_content mem s1"]) (use IH Cons d s1 in simp_all)
        then show ?thesis using IH m(2) by simp
      next
        case (Err e)
        then show ?thesis using less.prems(1) Cons d q by auto
      next
        case Panic
        then show ?thesis using less.prems(1) Cons d q by auto
      qed
    next
      case False
      note rf = less.prems(1) [unfolded Cons run_from_other [OF False refl]]
      obtain g s1 where g: "on_error dap (gather dap (op # rest)) s = (g, s1)" by fastforce
      show ?thesis
      proof (cases g)
        case (Ok lo)
        have g0: "gather_from dap (op # rest) lowered_default s = (Ok lo, s1)"
          using g Ok by (auto simp: on_error_def gather_def split: prod.splits res.splits)
        obtain v where v: "as_view v (adi_dap s)" "agrees la (adi_ap s) v"
          using less.prems(2) by (auto simp: adi_ready_def)
        have cont: "av_mem v = adi_content mem s" using mem_law [OF v(1)] by (simp add: adi_content_def)
        obtain v' where b: "adi_dap s1 = adi_dap s" "agrees la (adi_ap s1) v'"
          "batch_for limit la v (op # rest) 0 (lo_accesses lo) (lo_spans lo) v'"
          using gather_run [OF g0 v(2) limit_64] less.prems(3) Cons by (auto simp: lowered_default_def)
        let ?n = "length (lo_spans lo)"
        obtain es where es: "ap_run limit la (lo_accesses lo) v = Some (v', es)"
          "av_mem v' = snd (flat_ops (take ?n ops) (adi_content mem s))" "?n \<le> length ops"
          "\<And>vs. list_all2 word_ok es vs \<Longrightarrow> scatter_all vs (take ?n ops) (lo_spans lo)
             = Ok (fst (flat_ops (take ?n ops) (adi_content mem s)))"
          using b(3) cont Cons unfolding batch_for_def by fastforce
        show ?thesis
        proof (cases "?n = 0")
          case True
          then show ?thesis using rf g Ok by auto
        next
          case n: False
          obtain a s2 where a: "on_error dap (raw_access dap (lo_accesses lo)) s1 = (a, s2)" by fastforce
          show ?thesis
          proof (cases a)
            case okv: (Ok vals)
            have "raw_access dap (lo_accesses lo) s1 = (Ok vals, s2)"
              using a okv by (auto simp: on_error_def split: prod.splits res.splits)
            from raw_access_run [OF this _ es(1) b(2)] b(1) v(1)
            have s2: "adi_ready la as_view s2" "adi_content mem s2 = av_mem v'" "list_all2 word_ok es vals"
              by simp_all
            let ?batch = "fst (flat_ops (take ?n ops) (adi_content mem s))"
            obtain more where m: "run_from dap (start + ?n) (drop ?n ops) s2 = (r, more, t)" "ops' = ?batch @ more"
              using rf g Ok n a okv es(4) [OF s2(3)] Cons by (auto simp: Let_def split: prod.splits)
            have shorter: "length (drop ?n ops) < length ops" using n Cons by simp
            have inside: "\<forall>op \<in> set (drop ?n ops). op_address op + op_bytes (op_kind op) \<le> limit"
              using less.prems(3) by (meson in_set_dropD)
            have IH: "ops_outcome (start + ?n) (drop ?n ops) (adi_content mem s2) r more (adi_content mem t)
                \<and> (is_ok r \<longrightarrow> adi_ready la as_view t)"
              by (rule less.hyps [OF shorter m(1) s2(1) inside])
            have "ops_outcome start ops (adi_content mem s) r (?batch @ more) (adi_content mem t)"
              by (rule ops_outcome_append [where n = ?n and g = "adi_content mem s2"])
                (use IH es(2,3) s2(2) in simp_all)
            then show ?thesis using IH m(2) by simp
          next
            case (Err e)
            then show ?thesis using rf g Ok n a Cons by auto
          next
            case Panic
            then show ?thesis using rf g Ok n a by auto
          qed
        qed
      next
        case (Err e)
        then show ?thesis using rf g Cons by auto
      next
        case Panic
        then show ?thesis using rf g by auto
      qed
    qed
  qed
qed

lemma adi_write_law: "writes_as (adi_ready la as_view) (adi_content mem) limit 1 (adi_write dap)"
  unfolding writes_as_def le_bytes_8
proof (intro allI impI, elim conjE)
  fix s a data t
  assume a: "adi_ready la as_view s" "a + 1 * length data \<le> limit" "adi_write dap a data s = (Ok (), t)"
  let ?ops = "[operation_new a (OpWrite data) :: arm_error operation]"
  obtain ops' where "run_from dap 0 ?ops s = (Ok (), ops', t)"
    using a(3) by (auto simp: adi_write_def run_operations_def split: prod.splits res.splits)
  from run_from_flat [OF this a(1)] a(2)
  show "adi_ready la as_view t \<and> adi_content mem t = poke (adi_content mem s) a data"
    by (simp add: operation_new_def)
qed

end

sublocale mem_ap \<subseteq> flat_interface "adi_interface dap" "adi_ready la as_view" "adi_content mem" limit
proof unfold_locales
  note laws = r8_law r16_law r32_law r64_law w_laws adi_read_law adi_write_law
  show "4 dvd limit" by (rule limit_aligned)
qed (simp_all add: adi_interface_def adi_prims_def memory_prims.defs r8_law [simplified] r16_law r32_law r64_law
    w_laws [simplified] adi_read_law [simplified] adi_write_law [simplified])

end
