(* ===== verification/Mock_Ap.thy ===== *)
theory Mock_Ap
  imports Adi_Refines
begin

text \<open>
  The AP of the crate's own tests, \<open>MockMemoryAp\<close> of
  probe-rs/src/architecture/arm/ap/memory_ap/mock.rs: a byte memory behind the registers CSW, TAR
  and DRW. It keeps the contract of an AP, so the memory interface on it is a flat memory.
\<close>

record mock_ap =
  mo_memory :: "u8 list"
  mo_store :: "nat \<Rightarrow> u32 option"
  mo_batches :: "ap_accesses list"

text \<open>The bytes \<open>1..=255\<close> over and over.\<close>

definition mock_pattern :: "nat \<Rightarrow> u8 list" where
  "mock_pattern n = map (\<lambda>i. of_nat (i mod 255 + 1)) [0..<n]"

definition mock_idr :: u32 where
  "mock_idr = reg_set 3 0 1 (reg_set 7 4 0 (reg_set 16 13 8 (reg_set 27 17 (push_bit 7 4 OR 0x3B) (reg_set 31 28 0 0))))"

definition with_pattern_and_size :: "nat \<Rightarrow> mock_ap" where
  "with_pattern_and_size n =
     \<lparr>mo_memory = mock_pattern n,
      mo_store = [IDR \<mapsto> mock_idr, CFG \<mapsto> 0, CSW \<mapsto> 0, TAR \<mapsto> 0, DRW \<mapsto> 0],
      mo_batches = []\<rparr>"

definition mock_get :: "u8 list \<Rightarrow> nat \<Rightarrow> nat \<Rightarrow> u8 list" where
  "mock_get m a n = (if a + n \<le> length m then take n (drop a m) else replicate n 0)"

text \<open>The move of TAR after an access of DRW.\<close>

definition mock_advance :: "u32 \<Rightarrow> u32 \<Rightarrow> nat \<Rightarrow> mock_ap \<Rightarrow> (arm_error, unit) res \<times> mock_ap" where
  "mock_advance csw address n d =
     (case csw_addr_inc csw of
        IncSingle \<Rightarrow>
          if unat address + n < 2 ^ 32 then (Ok (), d\<lparr>mo_store := (mo_store d)(TAR \<mapsto> address + of_nat n)\<rparr>)
          else (Panic, d)
      | IncOff \<Rightarrow> (Ok (), d)
      | _ \<Rightarrow> (Panic, d))"

definition mock_read :: "nat \<Rightarrow> (mock_ap, arm_error, u32) rsm" where
  "mock_read addr d =
     (case (mo_store d CSW, mo_store d TAR) of
        (Some csw, Some address) \<Rightarrow>
          if addr = DRW then
            (case mo_store d DRW of
               None \<Rightarrow> (Panic, d)
             | Some drw \<Rightarrow>
                 (let bit_offset = unat address mod 4 * 8; offset = unat address;
                      result = (\<lambda>new n. sbind (mock_advance csw address n) (\<lambda>_. sret new)
                                   (d\<lparr>mo_store := (mo_store d)(DRW \<mapsto> new)\<rparr>))
                  in case csw_size csw of
                       DsU32 \<Rightarrow> result (from_le (mock_get (mo_memory d) offset 4)) 4
                     | DsU16 \<Rightarrow> result ((drw AND NOT (push_bit bit_offset 0xFFFF))
                           OR push_bit bit_offset (ucast (from_le (mock_get (mo_memory d) offset 2) :: u16))) 2
                     | DsU8 \<Rightarrow> result ((drw AND NOT (push_bit bit_offset 0xFF))
                           OR push_bit bit_offset (ucast (from_le (mock_get (mo_memory d) offset 1) :: u8))) 1
                     | _ \<Rightarrow> (Panic, d)))
          else (expect (mo_store d addr), d)
      | _ \<Rightarrow> (Panic, d))"

definition write_slice :: "u8 list \<Rightarrow> nat \<Rightarrow> u8 list \<Rightarrow> u8 list" where
  "write_slice m a bs = take a m @ bs @ drop (a + length bs) m"

definition mock_write :: "nat \<Rightarrow> u32 \<Rightarrow> (mock_ap, arm_error, unit) rsm" where
  "mock_write addr val d0 =
     (let d = d0\<lparr>mo_store := (mo_store d0)(addr \<mapsto> val)\<rparr> in
      case (mo_store d CSW, mo_store d TAR) of
        (Some csw, Some address) \<Rightarrow>
          if addr = DRW then
            (case to_byte_count (csw_size csw) of
               Ok n \<Rightarrow>
                 if unat address + n \<ge> 2 ^ 32 then (Panic, d)
                 else if unat address + n > length (mo_memory d) then (Ok (), d)
                 else
                   (let bit_offset = unat address mod 4 * 8;
                        put = (\<lambda>bs. mock_advance csw address n
                                 (d\<lparr>mo_memory := write_slice (mo_memory d) (unat address) bs\<rparr>))
                    in case csw_size csw of
                         DsU32 \<Rightarrow> put (to_le 4 val)
                       | DsU16 \<Rightarrow> put (to_le 2 (drop_bit bit_offset val))
                       | DsU8 \<Rightarrow> put (to_le 1 (drop_bit bit_offset val))
                       | _ \<Rightarrow> (Panic, d))
             | Err e \<Rightarrow> (Err e, d)
             | Panic \<Rightarrow> (Panic, d))
          else if addr = CSW \<or> addr = TAR then (Ok (), d)
          else (Panic, d)
      | _ \<Rightarrow> (Panic, d))"

definition mock_access :: "ap_accesses \<Rightarrow> (mock_ap, arm_error, u32 list) rsm" where
  "mock_access acs d = access_each mock_read mock_write acs (d\<lparr>mo_batches := mo_batches d @ [acs]\<rparr>)"

definition mock_dap :: "mock_ap dap" where
  "mock_dap = \<lparr>da_read = mock_read, da_write = mock_write, da_access = mock_access,
     da_flush = sret (), da_epoch = (\<lambda>_. 0), da_take_ap = (\<lambda>d. (None, d)), da_store_ap = (\<lambda>_ d. d)\<rparr>"

subsection \<open>The contract\<close>

definition mock_mem :: "mock_ap \<Rightarrow> flat" where
  "mock_mem d = (\<lambda>i. if i < length (mo_memory d) then mo_memory d ! i else 0)"

definition mock_view :: "nat \<Rightarrow> ap_view \<Rightarrow> mock_ap \<Rightarrow> bool" where
  "mock_view limit v d \<longleftrightarrow>
     (\<exists>csw tar drw. mo_store d CSW = Some csw \<and> mo_store d TAR = Some tar \<and> mo_store d DRW = Some drw
       \<and> csw_size csw = av_size v \<and> csw_addr_inc csw = av_inc v
       \<and> (av_lo v = None \<or> av_lo v = Some (unat tar)))
     \<and> av_hi v = 0 \<and> av_mem v = mock_mem d \<and> length (mo_memory d) = limit"

lemma mock_get_peek: "a + n \<le> length (mo_memory d) \<Longrightarrow> mock_get (mo_memory d) a n = peek (mock_mem d) a n"
  by (rule nth_equalityI) (auto simp: mock_get_def mock_mem_def)

lemma write_slice_poke:
  "a + length bs \<le> length (mo_memory d) \<Longrightarrow>
     mock_mem (d\<lparr>mo_memory := write_slice (mo_memory d) a bs\<rparr>) = poke (mock_mem d) a bs
     \<and> length (write_slice (mo_memory d) a bs) = length (mo_memory d)"
  by (auto simp: fun_eq_iff mock_mem_def poke_def write_slice_def nth_append min_def)

lemma mock_mem_cong: "mo_memory d = mo_memory d' \<Longrightarrow> mock_mem d = mock_mem d'"
  by (rule ext) (simp add: mock_mem_def)

lemma lane_inserted:
  assumes "a mod 4 + n \<le> 4" "LENGTH('w::len) = 8 * n" "length bs = n"
  shows "lane_bytes n a ((drw AND NOT (push_bit (a mod 4 * 8) (mask (8 * n))))
      OR push_bit (a mod 4 * 8) (ucast (from_le bs :: 'w word))) = bs"
proof -
  have "lane_bytes n a ((drw AND NOT (push_bit (a mod 4 * 8) (mask (8 * n))))
      OR push_bit (a mod 4 * 8) (ucast (from_le bs :: 'w word))) = to_le n (from_le bs :: 'w word)"
  proof (rule nth_equalityI)
    fix i
    assume "i < length (lane_bytes n a ((drw AND NOT (push_bit (a mod 4 * 8) (mask (8 * n))))
      OR push_bit (a mod 4 * 8) (ucast (from_le bs :: 'w word))))"
    then have i: "i < n" by (simp add: lane_bytes_def)
    show "lane_bytes n a ((drw AND NOT (push_bit (a mod 4 * 8) (mask (8 * n))))
      OR push_bit (a mod 4 * 8) (ucast (from_le bs :: 'w word))) ! i = to_le n (from_le bs :: 'w word) ! i"
    proof (rule bit_word_eqI)
      fix j
      assume "j < LENGTH(8)"
      then have "8 * i + j < 8 * n" using i by simp
      moreover from this have "8 * (a mod 4) + (8 * i + j) < 32" using assms(1) by simp
      ultimately show "bit (lane_bytes n a ((drw AND NOT (push_bit (a mod 4 * 8) (mask (8 * n))))
        OR push_bit (a mod 4 * 8) (ucast (from_le bs :: 'w word))) ! i) j = bit (to_le n (from_le bs :: 'w word) ! i) j"
        using i \<open>j < LENGTH(8)\<close> assms(2) by (auto simp: lane_bytes_def to_le_def bit_simps mult.commute)
    qed
  qed (simp add: lane_bytes_def)
  then show ?thesis using to_le_from_le [OF assms(2,3)] by simp
qed

lemma mock_advance_Ok:
  assumes "mock_advance csw tar n d = (Ok (), d')" "csw_addr_inc csw = IncSingle"
  shows "unat tar + n < 2 ^ 32" "d' = d\<lparr>mo_store := (mo_store d)(TAR \<mapsto> tar + of_nat n)\<rparr>"
  using assms by (auto simp: mock_advance_def split: if_splits)

text \<open>The view after an access of DRW: the memory is that of the step and TAR has moved.\<close>

lemma mock_view_advanced:
  assumes "mo_store d CSW = Some csw" "csw_size csw = av_size v" "csw_addr_inc csw = av_inc v"
    and "av_hi v = 0" "mo_store d DRW \<noteq> None" "length (mo_memory d) = limit"
    and "unat tar + n < 2 ^ 32" "mock_mem d = f"
    and "d' = d\<lparr>mo_store := (mo_store d)(TAR \<mapsto> tar + of_nat n)\<rparr>"
    and "lo = None \<or> lo = Some (unat tar + n)"
  shows "mock_view limit (v\<lparr>av_lo := lo, av_mem := f\<rparr>) d'"
proof -
  have "unat (tar + of_nat n) = unat tar + n"
    using assms(7) by (simp add: unat_word_ariths unsigned_of_nat take_bit_nat_def)
  moreover have "mock_mem d' = mock_mem d" using assms(9) by (intro mock_mem_cong) simp
  ultimately show ?thesis
    using assms unfolding mock_view_def by (auto simp: register_addresses)
qed

lemma ap_drw_cases:
  assumes "ap_drw limit x v = Some (v', es)" "mock_view limit v d"
  obtains n csw tar drw where "size_bytes (av_size v) = Some n" "mo_store d CSW = Some csw"
    "mo_store d TAR = Some tar" "mo_store d DRW = Some drw" "csw_size csw = av_size v"
    "csw_addr_inc csw = IncSingle" "n dvd unat tar" "unat tar + n \<le> limit"
    "v' = v\<lparr>av_lo := (if 0x400 dvd unat tar + n then None else Some (unat tar + n)),
       av_mem := drw_effect n (unat tar) x (mock_mem d)\<rparr>"
    "es = drw_expect n (unat tar) x (mock_mem d)"
  using assms by (auto simp: ap_drw_def mock_view_def Let_def split: option.splits if_splits)

lemma lane_fits: "n dvd a \<Longrightarrow> n \<in> {1, 2, 4} \<Longrightarrow> a mod 4 + n \<le> (4::nat)"
  by auto presburger+

lemma word_ok_result:
  assumes "size_bytes sz = Some n" "n dvd unat tar" "unat tar + n \<le> length (mo_memory d)"
  shows "sz = DsU32 \<Longrightarrow> word_ok (n, unat tar, peek (mock_mem d) (unat tar) n) (from_le (mock_get (mo_memory d) (unat tar) 4))"
    and "sz = DsU16 \<Longrightarrow> word_ok (n, unat tar, peek (mock_mem d) (unat tar) n)
      ((drw AND NOT (push_bit (unat tar mod 4 * 8) 0xFFFF))
         OR push_bit (unat tar mod 4 * 8) (ucast (from_le (mock_get (mo_memory d) (unat tar) 2) :: u16)))"
    and "sz = DsU8 \<Longrightarrow> word_ok (n, unat tar, peek (mock_mem d) (unat tar) n)
      ((drw AND NOT (push_bit (unat tar mod 4 * 8) 0xFF))
         OR push_bit (unat tar mod 4 * 8) (ucast (from_le (mock_get (mo_memory d) (unat tar) 1) :: u8)))"
proof -
  have "n \<in> {1, 2, 4}" using assms(1) by (cases sz) auto
  note fits = lane_fits [OF assms(2) this]
  have get: "mock_get (mo_memory d) (unat tar) n = peek (mock_mem d) (unat tar) n"
    using mock_get_peek assms(3) .
  note ins = lane_inserted [where n = n and a = "unat tar" and bs = "peek (mock_mem d) (unat tar) n" and drw = drw]
  have m: "mask 16 = (0xFFFF :: u32)" "mask 8 = (0xFF :: u32)" by (simp_all add: mask_eq_exp_minus_1)
  {
    assume "sz = DsU32"
    then have "n = 4" "unat tar mod 4 = 0" using assms(1) fits by simp_all
    then show "word_ok (n, unat tar, peek (mock_mem d) (unat tar) n) (from_le (mock_get (mo_memory d) (unat tar) 4))"
      using get by (simp add: word_ok_def lane_bytes_def to_le_from_le)
  next
    assume "sz = DsU16"
    then have "n = 2" using assms(1) by simp
    then show "word_ok (n, unat tar, peek (mock_mem d) (unat tar) n)
      ((drw AND NOT (push_bit (unat tar mod 4 * 8) 0xFFFF))
         OR push_bit (unat tar mod 4 * 8) (ucast (from_le (mock_get (mo_memory d) (unat tar) 2) :: u16)))"
      using ins [where 'w = 16] fits get m(1) by (simp add: word_ok_def)
  next
    assume "sz = DsU8"
    then have "n = 1" using assms(1) by simp
    then show "word_ok (n, unat tar, peek (mock_mem d) (unat tar) n)
      ((drw AND NOT (push_bit (unat tar mod 4 * 8) 0xFF))
         OR push_bit (unat tar mod 4 * 8) (ucast (from_le (mock_get (mo_memory d) (unat tar) 1) :: u8)))"
      using ins [where 'w = 8] fits get m(2) by (simp add: word_ok_def)
  }
qed

lemma mock_read_step:
  assumes "mock_view limit v d" "mock_read addr d = (Ok w, d')" "ap_step limit la (addr, None) v = Some (v', es)"
  shows "mock_view limit v' d' \<and> list_all2 word_ok es [w]"
proof -
  have addr: "addr = DRW" "ap_drw limit None v = Some (v', es)"
    using assms(3) by (auto simp: ap_step_def split: if_splits)
  from addr(2) assms(1) obtain n csw tar drw where c: "size_bytes (av_size v) = Some n" "mo_store d CSW = Some csw"
    "mo_store d TAR = Some tar" "mo_store d DRW = Some drw" "csw_size csw = av_size v"
    "csw_addr_inc csw = IncSingle" "n dvd unat tar" "unat tar + n \<le> limit"
    "v' = v\<lparr>av_lo := (if 0x400 dvd unat tar + n then None else Some (unat tar + n)),
       av_mem := mock_mem d\<rparr>" "es = [(n, unat tar, peek (mock_mem d) (unat tar) n)]"
    by (rule ap_drw_cases) auto
  have v: "av_hi v = 0" "length (mo_memory d) = limit" "av_inc v = IncSingle"
    using assms(1) c(2,6) by (auto simp: mock_view_def)
  note words = word_ok_result(1) [OF c(1,7) c(8) [folded v(2)]]
    word_ok_result(2,3) [OF c(1,7) c(8) [folded v(2)], where drw = drw]
  have store: "CSW \<noteq> DRW" "TAR \<noteq> DRW" by (simp_all add: register_addresses)
  obtain new where new: "mock_advance csw tar n (d\<lparr>mo_store := (mo_store d)(DRW \<mapsto> new)\<rparr>) = (Ok (), d')" "w = new"
    "word_ok (n, unat tar, peek (mock_mem d) (unat tar) n) new"
    using assms(2) c(1-5) addr(1) words
    by (cases "av_size v") (auto simp: mock_read_def Let_def)
  from mock_advance_Ok [OF new(1) c(6)]
  have "unat tar + n < 2 ^ 32"
    "d' = (d\<lparr>mo_store := (mo_store d)(DRW \<mapsto> new)\<rparr>)\<lparr>mo_store := ((mo_store d)(DRW \<mapsto> new))(TAR \<mapsto> tar + of_nat n)\<rparr>"
    by simp_all
  then have "mock_view limit v' d'"
    unfolding c(9) using c(2,5,6) v store
    by (intro mock_view_advanced [where d = "d\<lparr>mo_store := (mo_store d)(DRW \<mapsto> new)\<rparr>" and csw = csw and tar = tar])
       (auto intro: mock_mem_cong)
  then show ?thesis using new(2,3) c(10) by simp
qed

lemma mock_write_step:
  assumes "mock_view limit v d" "mock_write addr w d = (Ok (), d')" "ap_step limit False (addr, Some w) v = Some (v', es)"
  shows "mock_view limit v' d' \<and> es = []"
proof (cases "addr = DRW")
  case False
  then have "addr = CSW \<and> v' = v\<lparr>av_size := csw_size w, av_inc := csw_addr_inc w\<rparr> \<and> es = []
      \<or> addr = TAR \<and> v' = v\<lparr>av_lo := Some (unat w)\<rparr> \<and> es = []"
    using assms(3) by (auto simp: ap_step_def split: if_splits)
  moreover have "d' = d\<lparr>mo_store := (mo_store d)(addr \<mapsto> w)\<rparr>"
    using False assms(2) by (auto simp: mock_write_def Let_def split: option.splits if_splits)
  moreover have "mock_mem (d\<lparr>mo_store := (mo_store d)(addr \<mapsto> w)\<rparr>) = mock_mem d" by (rule mock_mem_cong) simp
  ultimately show ?thesis using assms(1) by (auto simp: mock_view_def register_addresses)
next
  case True
  then have "ap_drw limit (Some w) v = Some (v', es)" using assms(3) by (simp add: ap_step_def)
  from this assms(1) obtain n csw tar drw where c: "size_bytes (av_size v) = Some n" "mo_store d CSW = Some csw"
    "mo_store d TAR = Some tar" "mo_store d DRW = Some drw" "csw_size csw = av_size v"
    "csw_addr_inc csw = IncSingle" "n dvd unat tar" "unat tar + n \<le> limit"
    "v' = v\<lparr>av_lo := (if 0x400 dvd unat tar + n then None else Some (unat tar + n)),
       av_mem := poke (mock_mem d) (unat tar) (lane_bytes n (unat tar) w)\<rparr>" "es = []"
    by (rule ap_drw_cases) auto
  have v: "av_hi v = 0" "length (mo_memory d) = limit" "av_inc v = IncSingle"
    using assms(1) c(2,6) by (auto simp: mock_view_def)
  have "n \<in> {1, 2, 4}" using c(1) by (cases "av_size v") auto
  then have fits: "unat tar mod 4 + n \<le> 4" using lane_fits [OF c(7)] by simp
  let ?bs = "lane_bytes n (unat tar) w"
  let ?d1 = "d\<lparr>mo_store := (mo_store d)(DRW \<mapsto> w)\<rparr>"
  let ?d2 = "?d1\<lparr>mo_memory := write_slice (mo_memory d) (unat tar) ?bs\<rparr>"
  have bs: "length ?bs = n" by (simp add: lane_bytes_def)
  have store: "CSW \<noteq> DRW" "TAR \<noteq> DRW" by (simp_all add: register_addresses)
  have adv: "mock_advance csw tar n ?d2 = (Ok (), d')"
    using assms(2) c(1-5) c(8) v(2) True store fits
    by (cases "av_size v") (auto simp: mock_write_def Let_def lane_bytes_def mult.commute split: if_splits)
  from mock_advance_Ok [OF this c(6)]
  have d': "unat tar + n < 2 ^ 32" "d' = ?d2\<lparr>mo_store := (mo_store ?d2)(TAR \<mapsto> tar + of_nat n)\<rparr>" by simp_all
  have mem: "mock_mem ?d2 = poke (mock_mem d) (unat tar) ?bs \<and> length (write_slice (mo_memory d) (unat tar) ?bs) = limit"
    using write_slice_poke [of "unat tar" ?bs ?d1] c(8) v(2) bs mock_mem_cong [of ?d1 d] by simp
  have "mock_view limit v' d'"
    unfolding c(9) using c(2,5,6) v store mem d'
    by (intro mock_view_advanced [where d = ?d2 and csw = csw and tar = tar]) auto
  then show ?thesis using c(10) by simp
qed

lemma mock_each_law:
  assumes "mock_view limit v d" "access_each mock_read mock_write acs d = (Ok ws, d')"
    and "ap_run limit False acs v = Some (v', es)"
  shows "mock_view limit v' d' \<and> list_all2 word_ok es ws"
  using assms
proof (induction acs arbitrary: v d ws es)
  case Nil
  then show ?case by simp
next
  case (Cons ac acs)
  obtain addr x where ac: "ac = (addr, x)" by fastforce
  obtain u es1 es2 where u: "ap_step limit False (addr, x) v = Some (u, es1)"
    "ap_run limit False acs u = Some (v', es2)" "es = es1 @ es2"
    using Cons.prems(3) ac by (auto split: option.splits)
  show ?case
  proof (cases x)
    case None
    then obtain w d1 ws2 where r: "mock_read addr d = (Ok w, d1)"
      "access_each mock_read mock_write acs d1 = (Ok ws2, d')" "ws = w # ws2"
      using Cons.prems(2) ac by auto
    from mock_read_step [OF Cons.prems(1) r(1)] u(1) None
    have "mock_view limit u d1" "list_all2 word_ok es1 [w]" by simp_all
    with Cons.IH [OF this(1) r(2) u(2)] r(3) u(3) list_all2_appendI [of word_ok es1 "[w]" es2 ws2]
    show ?thesis by simp
  next
    case (Some w)
    then obtain d1 where r: "mock_write addr w d = (Ok (), d1)"
      "access_each mock_read mock_write acs d1 = (Ok ws, d')"
      using Cons.prems(2) ac by auto
    from mock_write_step [OF Cons.prems(1) r(1)] u(1) Some
    have "mock_view limit u d1" "es1 = []" by simp_all
    with Cons.IH [OF this(1) r(2) u(2)] u(3) show ?thesis by simp
  qed
qed

text \<open>A mock with a memory of \<open>4 * k\<close> bytes, of the size that an address can reach.\<close>

definition mock_limit :: "16 word \<Rightarrow> nat" where
  "mock_limit k = 4 * unat k"

interpretation mock: mem_ap mock_dap "mock_limit k" False "mock_view (mock_limit k)" mock_mem for k
proof unfold_locales
  show "4 dvd mock_limit k" by (simp add: mock_limit_def)
  have "unat k < 2 ^ 16" using unsigned_less [of k] by simp
  then show "mock_limit k \<le> 2 ^ 64" by (simp add: mock_limit_def)
next
  fix v d assume "mock_view (mock_limit k) v d"
  then show "mock_mem d = av_mem v" by (simp add: mock_view_def)
next
  fix v d acs ws d' v' es
  assume a: "mock_view (mock_limit k) v d" "da_access mock_dap acs d = (Ok ws, d')"
    "ap_run (mock_limit k) False acs v = Some (v', es)"
  let ?d = "d\<lparr>mo_batches := mo_batches d @ [acs]\<rparr>"
  have "mock_mem ?d = mock_mem d" by (rule mock_mem_cong) simp
  then have "mock_view (mock_limit k) v ?d" using a(1) by (simp add: mock_view_def)
  from mock_each_law [OF this _ a(3)] a(2)
  show "mock_view (mock_limit k) v' d' \<and> list_all2 word_ok es ws" by (simp add: mock_dap_def mock_access_def)
qed

end
