(* ===== verification/Adi_Complete.thy ===== *)
theory Adi_Complete
  imports Mock_Ap
begin

text \<open>
  When the memory interface succeeds: on an AP whose accesses return, aligned operations in range
  are lowered, gathered and run to the end. The mock AP is such an AP.
\<close>

subsection \<open>Lowering succeeds\<close>

text \<open>The rest of the 1 KiB window; the computation overflows in the last window of the address space.\<close>

lemma autoincr_max_bytes_eq:
  "autoincr_max_bytes a = (if a + 0x400 < 2 ^ 64 then Ok (0x400 - a mod 0x400) else Panic)"
proof -
  define q r where "q = a div 0x400" and "r = a mod 0x400"
  have a: "a = 0x400 * q + r" "r < 0x400" by (simp_all add: q_def r_def)
  have m: "(a + 1) mod 0x400 = (if r = 0x3FF then 0 else r + 1)"
  proof (cases "r = 0x3FF")
    case True
    then have "a + 1 = 0x400 * (q + 1)" using a(1) by simp
    then show ?thesis using True by simp
  next
    case False
    then have "(0x400 * q + (r + 1)) mod 0x400 = r + 1" using a(2) by simp
    then show ?thesis using False a(1) by (simp add: add.assoc)
  qed
  have "a + 0x400 < 2 ^ 64 \<longleftrightarrow> 0x400 * (q + 1) < 2 ^ 64" (is "?l \<longleftrightarrow> ?r")
  proof
    assume ?l
    then have "0x400 * (q + 1) \<le> a + 0x400" using a by simp
    then show ?r using \<open>?l\<close> by linarith
  next
    assume ?r
    then have "q + 1 < 2 ^ 54" by simp
    then have "q + 2 \<le> 2 ^ 54" by simp
    then have "0x400 * (q + 2) \<le> 2 ^ 64" by simp
    then show ?l using a by simp
  qed
  then show ?thesis
    using a m unfolding autoincr_max_bytes_def next_multiple_of64_def autoincr_limit_def r_def [symmetric]
    by (auto simp: add_w_def sub_r_def)
qed

lemma window_room: "width_bytes w dvd a \<Longrightarrow> (0x400 - a mod 0x400) div width_bytes w \<noteq> 0"
proof -
  assume "width_bytes w dvd a"
  moreover have "width_bytes w dvd 0x400" by (cases w) simp_all
  ultimately have "width_bytes w dvd 0x400 - a mod 0x400" by (simp add: dvd_mod)
  moreover have "0 < 0x400 - a mod 0x400" by simp
  ultimately show ?thesis using dvd_imp_le width_parts(3) [of w] by (auto simp: div_eq_0_iff)
qed

lemma lower_from_total:
  assumes "width_bytes (sh_width sh) dvd sh_address sh"
    and "sh_address sh + sh_elements sh * width_bytes (sh_width sh) + 0x400 \<le> 2 ^ 64"
    and "large_address ap \<or> sh_address sh + sh_elements sh * width_bytes (sh_width sh) \<le> 2 ^ 32"
  shows "\<exists>out. lower_from ap sh word i acs = Ok out"
  using assms
proof (induction ap sh word i acs rule: lower_from.induct)
  case (1 ap sh word i acs)
  show ?case
  proof (cases "i < sh_elements sh")
    case False
    then show ?thesis by (simp add: lower_from.simps)
  next
    case True
    let ?a = "element_address sh i" let ?w = "sh_width sh"
    have "i * width_bytes ?w < sh_elements sh * width_bytes ?w" using True width_parts(3) by simp
    then have lt: "?a < sh_address sh + sh_elements sh * width_bytes ?w" by (simp add: element_address_def)
    have al: "width_bytes ?w dvd ?a" using "1.prems"(1) by (simp add: element_address_def)
    have m: "autoincr_max_bytes ?a = (Ok (0x400 - ?a mod 0x400) :: (arm_error, nat) res)"
      using lt "1.prems"(2) by (simp add: autoincr_max_bytes_eq)
    have "\<exists>out. push_target_address ap ?a acs = Ok out" using lt "1.prems"(3) by (auto simp: push_target_address_def)
    then obtain acs1 where p: "push_target_address ap ?a acs = Ok acs1" by blast
    obtain out where "lower_from ap sh word
        (i + min (sh_elements sh - i) ((0x400 - ?a mod 0x400) div width_bytes ?w))
        (acs1 @ chunk_accesses sh word i (min (sh_elements sh - i) ((0x400 - ?a mod 0x400) div width_bytes ?w))) = Ok out"
      using "1.IH" [OF True m refl window_room [OF al] refl p "1.prems"] by blast
    then show ?thesis
      using True window_room [OF al] by (subst lower_from.simps) (simp add: m p Let_def)
  qed
qed

lemma lower_total:
  assumes "width_bytes (sh_width sh) dvd sh_address sh"
    and "sh_address sh + sh_elements sh * width_bytes (sh_width sh) + 0x400 \<le> 2 ^ 64"
    and "large_address ap \<or> sh_address sh + sh_elements sh * width_bytes (sh_width sh) \<le> 2 ^ 32"
  obtains out where "lower ap sh word = Ok out"
  using lower_from_total [OF assms, of word 0 "[]"] assms(2) that
  by (auto simp: lower_def checked_add64_def)

lemma push_piece_total:
  assumes "agrees la ap v" "only_32bit ap \<longrightarrow> w = WU32 \<or> n = 0" "n \<noteq> 0 \<longrightarrow> width_bytes w dvd a"
    and "a + n * width_bytes w + 0x400 \<le> 2 ^ 64" "la \<or> a + n * width_bytes w \<le> 2 ^ 32"
  obtains s where "push_piece a w n word (ap, acs) = (Ok (), s)"
proof (cases "n = 0")
  case True
  then show ?thesis using that by (simp add: push_piece_def)
next
  case False
  have "only_32bit ap \<longrightarrow> data_size_for w False = DsU32" using assms(2) False by auto
  then obtain ap1 acs1 where p: "push_datasize (data_size_for w False) (ap, acs) = (Ok True, ap1, acs1)"
    using push_datasize_sized [OF width_parts(7)] by blast
  obtain v' where "agrees la ap1 v'"
    using push_datasize_run [where limit = 0, OF p assms(1) width_parts(7)] by blast
  then have "large_address ap1 = la" by (simp add: agrees_def)
  then obtain out where "lower ap1 (shape_new a w n) (word (shape_new a w n)) = Ok out"
    using lower_total [of "shape_new a w n" ap1] assms(3-5) False by (auto simp: shape_new_def)
  then show ?thesis
    using that False p by (simp add: push_piece_def push_fixed_datasize_def push_lowered_def sbind_def Let_def)
qed

lemma push_byte_write_total:
  assumes "agrees la ap v" "only_32bit ap \<longrightarrow> 4 dvd a \<and> 4 dvd length data"
    and "a + length data + 0x400 \<le> 2 ^ 64" "la \<or> a + length data < 2 ^ 32"
  obtains ap' acs' where "push_byte_write a data (ap, acs) = (Ok (), ap', acs')"
proof -
  have "\<exists>aligned. next_multiple_of64 a 4 = (Ok aligned :: (arm_error, nat) res)"
    using assms(3) by (auto simp: next_multiple_of64_def add_w_def)
  then obtain aligned where al: "next_multiple_of64 a 4 = (Ok aligned :: (arm_error, nat) res)" by blast
  define b where "b = min (aligned - a) (length data)"
  define hd where "hd = take b data"
  define words where "words = chunks_exact 4 (drop b data)"
  define tl where "tl = drop (4 * length words) (drop b data)"
  note pieces = byte_pieces [OF al, of data, folded b_def, folded words_def]
  have lens: "length hd = b" "length tl = length data - b - 4 * length words"
    by (simp_all add: hd_def tl_def b_def)
  have whole: "hd = [] \<and> tl = []" if "only_32bit ap"
  proof -
    from that assms(2) have d: "4 dvd a" "4 dvd length data" by simp_all
    then have "aligned = a" using al by (simp add: next_multiple_of64_def)
    then have "b = 0" by (simp add: b_def)
    then show ?thesis using d(2) lens by (simp add: words_def length_chunks_exact)
  qed
  have lim: "a + length hd + 4 * length words + length tl \<le> a + length data" using pieces(1) lens by simp
  have only: "only_32bit ap1 = only_32bit ap"
    if "push_piece x w n f (ap, q) = (Ok (), ap1, q1)" for x w n f q ap1 q1
    using push_piece_only32 [OF that] .
  obtain ap1 p1 where p1: "push_piece a WU8 (length hd) (\<lambda>sh. lane_words sh hd) (ap, []) = (Ok (), ap1, p1)"
  proof (rule push_piece_total [OF assms(1), of WU8 "length hd" a "\<lambda>sh. lane_words sh hd" "[]"])
    show "only_32bit ap \<longrightarrow> WU8 = WU32 \<or> length hd = 0" using whole by simp
    show "la \<or> a + length hd * width_bytes WU8 \<le> 2 ^ 32" using assms(4) lim by auto
  qed (use assms(3) lim in auto)
  obtain v1 where v1: "agrees la ap1 v1"
    using push_piece_run [OF p1 assms(1), of "2 ^ 64"] assms(3) lim by auto
  obtain ap2 p2 where p2: "push_piece (a + length hd) WU32 (length words) (\<lambda>_. plain_words (map from_le words)) (ap1, p1)
      = (Ok (), ap2, p2)"
  proof (rule push_piece_total [OF v1, of WU32 "length words" "a + length hd" "\<lambda>_. plain_words (map from_le words)" p1])
    show "la \<or> a + length hd + length words * width_bytes WU32 \<le> 2 ^ 32" using assms(4) lim by auto
    show "length words \<noteq> 0 \<longrightarrow> width_bytes WU32 dvd a + length hd" using pieces(2) lens(1) by simp
  qed (use assms(3) lim in auto)
  obtain v2 where v2: "agrees la ap2 v2"
    using push_piece_run [OF p2 v1, of "2 ^ 64"] assms(3) lim pieces(2) lens(1) by auto
  obtain ap3 p3 where p3: "push_piece (a + (length hd + length words * 4)) WU8 (length tl) (\<lambda>sh. lane_words sh tl) (ap2, p2)
      = (Ok (), ap3, p3)"
  proof (rule push_piece_total [OF v2, of WU8 "length tl" "a + (length hd + length words * 4)" "\<lambda>sh. lane_words sh tl" p2])
    show "only_32bit ap2 \<longrightarrow> WU8 = WU32 \<or> length tl = 0"
      using whole only [OF p1] push_piece_only32 [OF p2] by simp
    show "la \<or> a + (length hd + length words * 4) + length tl * width_bytes WU8 \<le> 2 ^ 32"
      using assms(4) lim by auto
  qed (use assms(3) lim in auto)
  have la: "large_address ap = la" using assms(1) by (simp add: agrees_def)
  have "\<not> (\<not> (hd = [] \<and> tl = []) \<and> only_32bit ap)" using whole by blast
  moreover have "checked_add64 a (length data) = Some (a + length data)" using assms(3) by (simp add: checked_add64_def)
  moreover have "\<not> (a + length data > 0xFFFFFFFF \<and> \<not> large_address ap)" using assms(4) la by auto
  ultimately have "push_byte_write a data (ap, acs) = (Ok (), ap3, acs @ p3)"
    unfolding push_byte_write_def al Let_def prod.case res.case
      b_def [symmetric] hd_def [symmetric] words_def [symmetric] tl_def [symmetric]
    by (simp add: sbind_def p1 p2 p3)
  then show ?thesis using that by blast
qed

lemma push_byte_write_only32:
  assumes "push_byte_write a data (ap, acs) = (Ok u, ap', acs')"
  shows "only_32bit ap' = only_32bit ap"
  using assms
  by (auto simp: push_byte_write_def Let_def split: if_splits option.splits res.splits prod.splits
      dest!: push_piece_only32)

subsection \<open>Gathering succeeds\<close>

text \<open>What an AP can do: elements at their alignment, and nothing below 32 bits if it has 32 bits only.\<close>

definition op_feasible :: "bool \<Rightarrow> nat \<Rightarrow> 'e operation \<Rightarrow> bool" where
  "op_feasible only32 limit op \<longleftrightarrow>
     op_address op + op_bytes (op_kind op) \<le> limit
     \<and> (case op_kind op of
          OpRead d \<Rightarrow> True
        | OpWrite d \<Rightarrow> only32 \<longrightarrow> 4 dvd op_address op \<and> 4 dvd length d
        | k \<Rightarrow> (case kind_shape k of
                 Some (w, n) \<Rightarrow> width_bytes w dvd op_address op \<and> (only32 \<longrightarrow> w \<in> {WU32, WU64})
               | None \<Rightarrow> True))"

lemma op_feasible_shaped:
  "op_feasible only32 limit op \<Longrightarrow> kind_shape (op_kind op) = Some (w, n) \<Longrightarrow>
     width_bytes w dvd op_address op \<and> (only32 \<longrightarrow> w \<in> {WU32, WU64})
     \<and> op_address op + n * width_bytes w \<le> limit"
  using kind_bytes [of "op_kind op" w n] by (cases "op_kind op") (auto simp: op_feasible_def)

lemma gather_total:
  assumes "agrees la (adi_ap s) v" "\<forall>op \<in> set ops. op_feasible (only_32bit (adi_ap s)) limit op"
    and "limit + 0x400 \<le> 2 ^ 64" "la \<or> limit < 2 ^ 32"
  shows "\<exists>lo' t. gather_from dap ops lo s = (Ok lo', t) \<and> only_32bit (adi_ap t) = only_32bit (adi_ap s)
    \<and> length (lo_spans lo) \<le> length (lo_spans lo')
    \<and> (ops \<noteq> [] \<and> \<not> (\<exists>d. op_kind (hd ops) = OpRead d) \<longrightarrow> length (lo_spans lo) < length (lo_spans lo'))"
  using assms
proof (induction ops arbitrary: lo s v)
  case Nil
  then show ?case by simp
next
  case (Cons op ops)
  let ?a = "op_address op" and ?k = "op_kind op" and ?only = "only_32bit (adi_ap s)"
  have f: "op_feasible ?only limit op" using Cons.prems(2) by simp
  consider (wr) data where "?k = OpWrite data" | (rd) data where "?k = OpRead data"
    | (shaped) w n where "kind_shape ?k = Some (w, n)"
    by (cases ?k) auto
  then show ?case
  proof cases
    case rd
    then show ?thesis by (simp add: shape_of_def)
  next
    case (wr data)
    then have in_limit: "?a + length data \<le> limit" using f by (simp add: op_feasible_def)
    obtain ap acs where p: "push_byte_write ?a data (adi_ap s, lo_accesses lo) = (Ok (), ap, acs)"
    proof (rule push_byte_write_total [OF Cons.prems(1), of ?a data "lo_accesses lo"])
      show "?only \<longrightarrow> 4 dvd ?a \<and> 4 dvd length data" using f wr by (simp add: op_feasible_def)
      show "la \<or> ?a + length data < 2 ^ 32" using Cons.prems(4) in_limit by linarith
    qed (use Cons.prems(3) in_limit in simp_all)
    have le: "limit \<le> 2 ^ 64" using Cons.prems(3) by simp
    obtain more v1 where m: "agrees la ap v1" "only_32bit ap = ?only"
      using push_byte_write_run [OF p Cons.prems(1) in_limit le] push_byte_write_only32 [OF p] by blast
    let ?lo = "lo\<lparr>lo_accesses := acs, lo_spans := lo_spans lo @ [(lo_words lo, 0)]\<rparr>"
    have "\<forall>op \<in> set ops. op_feasible (only_32bit (adi_ap (s\<lparr>adi_ap := ap\<rparr>))) limit op"
      using Cons.prems(2) m(2) by simp
    from Cons.IH [OF _ this Cons.prems(3,4), of v1 ?lo] m
    obtain lo' t where "gather_from dap ops ?lo (s\<lparr>adi_ap := ap\<rparr>) = (Ok lo', t)"
      "only_32bit (adi_ap t) = ?only" "length (lo_spans ?lo) \<le> length (lo_spans lo')" by auto
    then show ?thesis using wr p by simp
  next
    case (shaped w n)
    note fs = op_feasible_shaped [OF f shaped]
    let ?sh = "shape_new ?a w n"
    have sh: "shape_of (adi_ap s) op = Ok (Some ?sh)"
      using fs shaped by (cases w) (auto simp: shape_of_def)
    have agree: "\<not> large_data (adi_ap s)" "large_address (adi_ap s) = la" using Cons.prems(1) by (simp_all add: agrees_def)
    have bound: "?a + n * width_bytes w \<le> limit" using fs by blast
    have "la \<or> ?a + n * width_bytes w \<le> 2 ^ 32" using Cons.prems(4) bound by linarith
    then obtain lowered where low: "lower (adi_ap s) ?sh (kind_words ?k ?sh) = Ok lowered"
      using lower_total [of ?sh "adi_ap s"] fs agree(2) bound Cons.prems(3) by (auto simp: shape_new_def)
    have "?only \<longrightarrow> data_size_for w False = DsU32" using fs by auto
    then obtain ap acs where p: "push_datasize (data_size_for w False) (adi_ap s, lo_accesses lo) = (Ok True, ap, acs)"
      using push_datasize_sized [OF width_parts(7)] by blast
    obtain v1 where v1: "agrees la ap v1" "only_32bit ap = ?only"
      using push_datasize_run [where limit = 0, OF p Cons.prems(1) width_parts(7)] by blast
    let ?lo = "join ?k ?sh lowered (lo\<lparr>lo_accesses := acs\<rparr>)"
    have "\<forall>op \<in> set ops. op_feasible (only_32bit (adi_ap (s\<lparr>adi_ap := ap\<rparr>))) limit op"
      using Cons.prems(2) v1(2) by simp
    from Cons.IH [OF _ this Cons.prems(3,4), of v1 ?lo] v1
    obtain lo' t where g: "gather_from dap ops ?lo (s\<lparr>adi_ap := ap\<rparr>) = (Ok lo', t)"
      "only_32bit (adi_ap t) = ?only" "length (lo_spans ?lo) \<le> length (lo_spans lo')" by auto
    have "gather_from dap (op # ops) lo s = (Ok lo', t)"
      using gather_shaped [OF shaped refl, of dap ops lo s] lower_operation_words [OF shaped] sh low p g(1) agree(1)
      by (simp add: shape_new_def)
    moreover have "length (lo_spans ?lo) = Suc (length (lo_spans lo))" by (simp add: join_def Let_def)
    ultimately show ?thesis using g(2,3) by simp
  qed
qed

subsection \<open>Running succeeds\<close>

locale reliable_ap = mem_ap dap limit la as_view mem
  for dap :: "'d dap" and limit la as_view mem +
  assumes access_returns: "as_view v d \<Longrightarrow> ap_run limit la acs v = Some (v', es) \<Longrightarrow>
      \<exists>ws d'. da_access dap acs d = (Ok ws, d')"
    and limit_window: "limit + 0x400 \<le> 2 ^ 64" and limit_narrow: "la \<or> limit < 2 ^ 32"
begin

lemma raw_access_total:
  assumes "as_view v (adi_dap s)" "ap_run limit la acs v = Some (v', es)"
  obtains ws d where "on_error dap (raw_access dap acs) s = (Ok ws, s\<lparr>adi_dap := d\<rparr>)"
  using access_returns [OF assms] that by (auto simp: raw_access_def on_error_def)

lemma run_shape_total:
  assumes "adi_ready la as_view s" "width_bytes (sh_width sh) dvd sh_address sh"
    and "sh_address sh + sh_elements sh * width_bytes (sh_width sh) \<le> limit"
    and "only_32bit (adi_ap s) \<longrightarrow> sh_width sh \<in> {WU32, WU64}"
  shows "\<exists>ws t. run_shape dap sh word s = (Ok ws, t) \<and> only_32bit (adi_ap t) = only_32bit (adi_ap s)"
proof -
  obtain v where v: "as_view v (adi_dap s)" "agrees la (adi_ap s) v"
    using assms(1) by (auto simp: adi_ready_def)
  then have agree: "\<not> large_data (adi_ap s)" "large_address (adi_ap s) = la" by (simp_all add: agrees_def)
  have "la \<or> sh_address sh + sh_elements sh * width_bytes (sh_width sh) \<le> 2 ^ 32"
    using assms(3) limit_narrow by linarith
  then obtain transfers where low: "lower (adi_ap s) sh word = Ok transfers"
    using lower_total [OF assms(2), of "adi_ap s"] assms(3) limit_window agree(2) by auto
  have "only_32bit (adi_ap s) \<longrightarrow> data_size_for (sh_width sh) False = DsU32" using assms(4) by auto
  then obtain ap acs where p: "push_datasize (data_size_for (sh_width sh) False) (adi_ap s, []) = (Ok True, ap, acs)"
    using push_datasize_sized [OF width_parts(7)] by blast
  obtain v1 where v1: "ap_run limit la acs v = Some (v1, [])" "agrees la ap v1"
    "av_size v1 = data_size_for (sh_width sh) False" "only_32bit ap = only_32bit (adi_ap s)"
    using push_datasize_run [OF p v(2) width_parts(7)] by auto
  have "lower ap sh word = Ok transfers" using low lower_note [of "adi_ap s" ap] agree(2) v1(2) by (simp add: agrees_def)
  from lower_run [OF this v1(2) _ assms(2,3) limit_64] v1(3) width_parts(2) [of "sh_width sh"]
  obtain v2 es where v2: "ap_run limit la transfers v1 = Some (v2, es)" by auto
  obtain ws d where r: "on_error dap (raw_access dap (acs @ transfers)) (s\<lparr>adi_ap := ap\<rparr>)
      = (Ok ws, s\<lparr>adi_ap := ap\<rparr>\<lparr>adi_dap := d\<rparr>)"
    using raw_access_total [of v "s\<lparr>adi_ap := ap\<rparr>", OF _ ap_run_append [OF v1(1) v2]] v(1) by auto
  then show ?thesis using low p v1(4) agree(1) by (simp add: run_shape_def)
qed

lemma read_32_total:
  assumes "adi_ready la as_view s" "4 dvd a" "a + 4 * n \<le> limit"
  shows "\<exists>ws t. adi_read_32 dap a n s = (Ok ws, t) \<and> only_32bit (adi_ap t) = only_32bit (adi_ap s)"
  using run_shape_total [of s "shape_new a WU32 n"] assms
  by (auto simp: adi_read_32_def run_read_def shape_new_def mult.commute)

lemma read_mem_32_total:
  assumes "adi_ready la as_view s" "4 dvd a" "4 dvd n" "a + n \<le> limit"
  shows "\<exists>bs t. read_mem_32bit (adi_prims dap) a n s = (Ok bs, t) \<and> only_32bit (adi_ap t) = only_32bit (adi_ap s)
    \<and> length bs = n"
proof -
  have "a + 4 * (n div 4) \<le> limit" using assms(3,4) by simp
  from read_32_total [OF assms(1,2) this] obtain ws t where r: "adi_read_32 dap a (n div 4) s = (Ok ws, t)"
    "only_32bit (adi_ap t) = only_32bit (adi_ap s)" by blast
  have "read_mem_32bit (adi_prims dap) a n s = (Ok (concat (map (to_le 4) ws)), t)"
    using r(1) assms(3) by (simp add: read_mem_32bit_def sbind_def adi_prims_def)
  moreover from reads_asD [OF prims.read_mem_32 assms(1) _ this] assms(4)
  have "length (concat (map (to_le 4) ws)) = n" unfolding le_bytes_8 by simp
  ultimately show ?thesis using r(2) by blast
qed

lemma read_total:
  assumes "adi_ready la as_view s" "a + n \<le> limit"
  shows "\<exists>bs t. adi_read dap a n s = (Ok bs, t) \<and> only_32bit (adi_ap t) = only_32bit (adi_ap s)"
proof -
  have ld: "\<not> mi_native_64 (adi_prims dap) s"
    using assms(1) by (auto simp: adi_ready_def agrees_def adi_prims_def)
  show ?thesis
  proof (cases "4 dvd a \<and> 4 dvd n")
    case True
    then show ?thesis
      using read_mem_32_total [OF assms(1) _ _ assms(2)] ld by (auto simp: adi_read_def default_read_def)
  next
    case False
    define e where "e = a mod 4"
    define c where "c = div_ceil (e + n) 4 * 4"
    have e: "e \<le> a" "4 dvd a - e" by (simp_all add: e_def)
    have c: "c < e + n + 4" "e + n \<le> c" "4 dvd c" using div_ceil_bounds [of 4 "e + n"] by (simp_all add: c_def)
    obtain q where "limit = 4 * q" using limit_aligned by blast
    moreover obtain p where "a - e = 4 * p" using e(2) by blast
    moreover obtain k where "c = 4 * k" using c(3) by blast
    ultimately have "a - e + c \<le> limit" using assms(2) e(1) c(1) by presburger
    from read_mem_32_total [OF assms(1) e(2) c(3) this]
    obtain bs t where r: "read_mem_32bit (adi_prims dap) (a - e) c s = (Ok bs, t)"
      "only_32bit (adi_ap t) = only_32bit (adi_ap s)" "length bs = c" by blast
    have "slice_r bs e (e + n) = (Ok (take n (drop e bs)) :: (arm_error, u8 list) res)"
      using r(3) c(2) by (simp add: slice_r_eq)
    then have "adi_read dap a n s = (Ok (take n (drop e bs)), t)"
      using False ld r(1) unfolding adi_read_def default_read_def e_def [symmetric] c_def Let_def
      by (auto simp: sbind_def simp flip: e_def)
    then show ?thesis using r(2) by blast
  qed
qed

lemma run_from_total:
  assumes "adi_ready la as_view s" "\<forall>op \<in> set ops. op_feasible (only_32bit (adi_ap s)) limit op"
  shows "\<exists>ops' t. run_from dap start ops s = (Ok (), ops', t) \<and> only_32bit (adi_ap t) = only_32bit (adi_ap s)"
  using assms
proof (induction "length ops" arbitrary: start ops s rule: less_induct)
  case less
  show ?case
  proof (cases ops)
    case Nil
    then show ?thesis by simp
  next
    case (Cons op rest)
    let ?only = "only_32bit (adi_ap s)"
    have bounds: "\<forall>op \<in> set ops. op_address op + op_bytes (op_kind op) \<le> limit"
      using less.prems(2) by (auto simp: op_feasible_def)
    show ?thesis
    proof (cases "\<exists>d. op_kind op = OpRead d")
      case True
      then obtain d where d: "op_kind op = OpRead d" by blast
      then have "op_address op + length d \<le> limit" using bounds Cons by auto
      from read_total [OF less.prems(1) this] obtain bs s1 where r: "adi_read dap (op_address op) (length d) s = (Ok bs, s1)"
        "only_32bit (adi_ap s1) = ?only" by blast
      have "adi_ready la as_view s1"
        using reads_asD(1) [OF adi_read_law less.prems(1) _ r(1)] bounds Cons d by simp
      then have "\<exists>ops' t. run_from dap (start + 1) rest s1 = (Ok (), ops', t) \<and> only_32bit (adi_ap t) = ?only"
        using less.hyps [of rest s1 "start + 1"] less.prems(2) Cons r(2) by simp
      then show ?thesis using Cons d r(1) by auto
    next
      case False
      obtain v where v: "as_view v (adi_dap s)" "agrees la (adi_ap s) v"
        using less.prems(1) by (auto simp: adi_ready_def)
      obtain lo s1 where g: "gather_from dap (op # rest) lowered_default s = (Ok lo, s1)"
        "only_32bit (adi_ap s1) = ?only" "lo_spans lo \<noteq> []"
        using gather_total [OF v(2) less.prems(2) limit_window limit_narrow, of dap lowered_default] Cons False
        by (auto simp: lowered_default_def)
      obtain v' where b: "adi_dap s1 = adi_dap s" "agrees la (adi_ap s1) v'"
        "batch_for limit la v (op # rest) 0 (lo_accesses lo) (lo_spans lo) v'"
        using gather_run [OF g(1) v(2) limit_64] bounds Cons by (auto simp: lowered_default_def)
      let ?n = "length (lo_spans lo)"
      obtain es where es: "ap_run limit la (lo_accesses lo) v = Some (v', es)" "?n \<le> length ops"
        "\<And>vs. list_all2 word_ok es vs \<Longrightarrow> \<exists>batch. scatter_all vs (take ?n ops) (lo_spans lo) = Ok batch"
        using b(3) Cons unfolding batch_for_def by fastforce
      obtain ws d where a: "on_error dap (raw_access dap (lo_accesses lo)) s1 = (Ok ws, s1\<lparr>adi_dap := d\<rparr>)"
        using raw_access_total [of v s1, OF _ es(1)] v(1) b(1) by auto
      have a0: "raw_access dap (lo_accesses lo) s1 = (Ok ws, s1\<lparr>adi_dap := d\<rparr>)"
        using a by (auto simp: on_error_def split: prod.splits res.splits)
      from raw_access_run [OF this _ es(1) b(2)] b(1) v(1)
      have s2: "adi_ready la as_view (s1\<lparr>adi_dap := d\<rparr>)" "list_all2 word_ok es ws" by simp_all
      obtain batch where sc: "scatter_all ws (take ?n ops) (lo_spans lo) = Ok batch" using es(3) [OF s2(2)] by blast
      have "length (drop ?n ops) < length ops" using g(3) Cons by simp
      moreover have "\<forall>op \<in> set (drop ?n ops). op_feasible (only_32bit (adi_ap (s1\<lparr>adi_dap := d\<rparr>))) limit op"
        using less.prems(2) g(2) by (auto dest: in_set_dropD)
      ultimately have "\<exists>ops' t. run_from dap (start + ?n) (drop ?n ops) (s1\<lparr>adi_dap := d\<rparr>) = (Ok (), ops', t)
          \<and> only_32bit (adi_ap t) = only_32bit (adi_ap (s1\<lparr>adi_dap := d\<rparr>))"
        using less.hyps s2(1) by blast
      then show ?thesis
        using Cons g a sc run_from_other [OF False refl, of dap start rest s]
        by (auto simp: gather_def on_error_def Let_def)
    qed
  qed
qed

end

subsection \<open>The mock AP always answers\<close>

lemma mock_advance_total:
  "csw_addr_inc csw = IncSingle \<Longrightarrow> unat a + n < 2 ^ 32 \<Longrightarrow> \<exists>d'. mock_advance csw a n d = (Ok (), d')"
  by (simp add: mock_advance_def)

lemma mock_read_total:
  assumes "mock_view limit v d" "ap_step limit la (addr, None) v = Some (v', es)" "limit < 2 ^ 32"
  shows "\<exists>w d'. mock_read addr d = (Ok w, d')"
proof -
  have addr: "addr = DRW" "ap_drw limit None v = Some (v', es)"
    using assms(2) by (auto simp: ap_step_def split: if_splits)
  from addr(2) assms(1) obtain n csw tar drw where c: "size_bytes (av_size v) = Some n" "mo_store d CSW = Some csw"
    "mo_store d TAR = Some tar" "mo_store d DRW = Some drw" "csw_size csw = av_size v"
    "csw_addr_inc csw = IncSingle" "unat tar + n \<le> limit"
    by (rule ap_drw_cases) auto
  have "unat tar + n < 2 ^ 32" using c(7) assms(3) by linarith
  from mock_advance_total [OF c(6) this]
  have "\<exists>w d'. sbind (mock_advance csw tar n) (\<lambda>_. sret new) (d\<lparr>mo_store := (mo_store d)(DRW \<mapsto> new)\<rparr>) = (Ok w, d')" for new
    by fastforce
  then show ?thesis
    using c(1-5) addr(1) by (cases "av_size v") (auto simp: mock_read_def Let_def)
qed

lemma mock_write_total:
  assumes "mock_view limit v d" "ap_step limit False (addr, Some w) v = Some (v', es)" "limit < 2 ^ 32"
  shows "\<exists>d'. mock_write addr w d = (Ok (), d')"
proof (cases "addr = DRW")
  case False
  then have "addr = CSW \<or> addr = TAR" using assms(2) by (auto simp: ap_step_def split: if_splits)
  then show ?thesis using assms(1) False by (auto simp: mock_write_def mock_view_def register_addresses)
next
  case True
  then have "ap_drw limit (Some w) v = Some (v', es)" using assms(2) by (simp add: ap_step_def)
  from this assms(1) obtain n csw tar drw where c: "size_bytes (av_size v) = Some n" "mo_store d CSW = Some csw"
    "mo_store d TAR = Some tar" "mo_store d DRW = Some drw" "csw_size csw = av_size v"
    "csw_addr_inc csw = IncSingle" "unat tar + n \<le> limit"
    by (rule ap_drw_cases) auto
  have fits: "unat tar + n < 2 ^ 32" using c(7) assms(3) by linarith
  have "\<exists>d'. mock_advance csw tar n (d\<lparr>mo_store := st, mo_memory := m\<rparr>) = (Ok (), d')" for st m
    by (rule mock_advance_total [OF c(6) fits])
  moreover have "CSW \<noteq> DRW" "TAR \<noteq> DRW" by (simp_all add: register_addresses)
  ultimately show ?thesis
    using c(1-5) True fits by (cases "av_size v") (auto simp: mock_write_def Let_def)
qed

lemma mock_each_total:
  assumes "mock_view limit v d" "ap_run limit False acs v = Some (v', es)" "limit < 2 ^ 32"
  shows "\<exists>ws d'. access_each mock_read mock_write acs d = (Ok ws, d')"
  using assms(1,2)
proof (induction acs arbitrary: v d es)
  case Nil
  then show ?case by simp
next
  case (Cons ac acs)
  obtain addr x where ac: "ac = (addr, x)" by fastforce
  obtain u es1 es2 where u: "ap_step limit False (addr, x) v = Some (u, es1)"
    "ap_run limit False acs u = Some (v', es2)"
    using Cons.prems(2) ac by (auto split: option.splits)
  show ?case
  proof (cases x)
    case None
    then obtain w d1 where r: "mock_read addr d = (Ok w, d1)"
      using mock_read_total [OF Cons.prems(1) _ assms(3)] u(1) by blast
    then have "mock_view limit u d1" using mock_read_step [OF Cons.prems(1) r] u(1) None by blast
    from Cons.IH [OF this u(2)] show ?thesis using ac None r by (auto simp: sbind_def)
  next
    case (Some w)
    then obtain d1 where r: "mock_write addr w d = (Ok (), d1)"
      using mock_write_total [OF Cons.prems(1) _ assms(3)] u(1) by blast
    then have "mock_view limit u d1" using mock_write_step [OF Cons.prems(1) r] u(1) Some by blast
    from Cons.IH [OF this u(2)] show ?thesis using ac Some r by (auto simp: sbind_def)
  qed
qed

interpretation mock: reliable_ap mock_dap "mock_limit k" False "mock_view (mock_limit k)" mock_mem for k
proof unfold_locales
  have k: "unat k < 2 ^ 16" using unsigned_less [of k] by simp
  then have small: "mock_limit k < 2 ^ 32" by (simp add: mock_limit_def)
  show "mock_limit k + 0x400 \<le> 2 ^ 64" using k by (simp add: mock_limit_def)
  show "False \<or> mock_limit k < 2 ^ 32" using small by simp
  fix v d acs v' es
  assume a: "mock_view (mock_limit k) v d" "ap_run (mock_limit k) False acs v = Some (v', es)"
  let ?d = "d\<lparr>mo_batches := mo_batches d @ [acs]\<rparr>"
  have "mock_mem ?d = mock_mem d" by (rule mock_mem_cong) simp
  then have "mock_view (mock_limit k) v ?d" using a(1) by (simp add: mock_view_def)
  from mock_each_total [OF this a(2) small]
  show "\<exists>ws d'. da_access mock_dap acs d = (Ok ws, d')" by (simp add: mock_dap_def mock_access_def)
qed

end
