(* ===== verification/Adi_Sync.thy ===== *)
theory Adi_Sync
  imports Adi_Complete
begin

text \<open>
  The noted transfer size. A batch records its CSW writes before it is sent, and an error anywhere
  may leave the AP in another size than the noted one. The interface then reads CSW again and, when
  that fails too, trusts its note no more: while it is trusted, the note is what the AP has.
\<close>

subsection \<open>CSW writes in a list of accesses\<close>

fun size_after :: "ap_accesses \<Rightarrow> data_size \<Rightarrow> data_size" where
  "size_after [] c = c"
| "size_after ((addr, Some w) # acs) c = size_after acs (if addr = CSW then csw_size w else c)"
| "size_after ((addr, None) # acs) c = size_after acs c"

definition csw_sized :: "ap_accesses \<Rightarrow> bool" where
  "csw_sized acs \<longleftrightarrow> (\<forall>w. (CSW, Some w) \<in> set acs \<longrightarrow> csw_size w \<in> {DsU8, DsU16, DsU32})"

definition noted :: "memory_ap \<Rightarrow> ap_accesses \<Rightarrow> data_size \<Rightarrow> bool" where
  "noted ap acs c \<longleftrightarrow> csw_size (ma_csw ap) = size_after acs c \<and> csw_sized acs"

lemma size_after_append [simp]: "size_after (xs @ ys) c = size_after ys (size_after xs c)"
  by (induction xs c rule: size_after.induct) simp_all

lemma csw_sized_append [simp]: "csw_sized (xs @ ys) \<longleftrightarrow> csw_sized xs \<and> csw_sized ys"
  by (auto simp: csw_sized_def)

lemma csw_sized_Nil [simp]: "csw_sized []"
  by (simp add: csw_sized_def)

lemma quiet:
  assumes "\<forall>ac \<in> set acs. fst ac \<noteq> CSW"
  shows "size_after acs c = c" "csw_sized acs"
  using assms by (induction acs c rule: size_after.induct) (auto simp: csw_sized_def)

lemma lower_from_quiet:
  assumes "lower_from ap sh word i acs = Ok out"
  shows "\<exists>rest. out = acs @ rest \<and> (\<forall>ac \<in> set rest. fst ac \<noteq> CSW)"
  using assms
proof (induction ap sh word i acs rule: lower_from.induct)
  case (1 ap sh word i acs)
  show ?case
  proof (cases "i < sh_elements sh")
    case False
    then show ?thesis using "1.prems" by (simp add: lower_from.simps)
  next
    case True
    obtain m where m: "autoincr_max_bytes (element_address sh i) = (Ok m :: (arm_error, nat) res)"
      "m div width_bytes (sh_width sh) \<noteq> 0"
      using "1.prems" True by (subst (asm) lower_from.simps) (auto simp: Let_def split: res.splits if_splits)
    let ?c = "min (sh_elements sh - i) (m div width_bytes (sh_width sh))"
    obtain acs1 where p: "push_target_address ap (element_address sh i) acs = Ok acs1"
      "lower_from ap sh word (i + ?c) (acs1 @ chunk_accesses sh word i ?c) = Ok out"
      using "1.prems" True m by (subst (asm) lower_from.simps) (auto simp: Let_def split: res.splits)
    obtain rest where r: "out = (acs1 @ chunk_accesses sh word i ?c) @ rest" "\<forall>ac \<in> set rest. fst ac \<noteq> CSW"
      using "1.IH" [OF True m(1) refl m(2) refl p(1,2)] by blast
    obtain tgt where t: "acs1 = acs @ tgt" "\<forall>ac \<in> set tgt. fst ac \<noteq> CSW"
      using p(1) by (auto simp: push_target_address_def register_addresses split: if_splits)
    have "\<forall>ac \<in> set (chunk_accesses sh word i ?c). fst ac \<noteq> CSW"
      by (auto simp: chunk_accesses_def register_addresses)
    then show ?thesis using r t by auto
  qed
qed

lemma lower_quiet:
  assumes "lower ap sh word = Ok out"
  shows "size_after out c = c" "csw_sized out"
  using assms lower_from_quiet [of ap sh word 0 "[]" out] quiet(1) [of out c] quiet(2) [of out]
  by (auto simp: lower_def split: option.splits)

lemma datasize_setup_write:
  assumes "datasize_setup ap sz = Ok (SetupWrite v)" "sz \<in> {DsU8, DsU16, DsU32, DsU64}"
  shows "sz \<in> {DsU8, DsU16, DsU32} \<and> v = csw_set_size sz (ma_csw ap) \<and> note_datasize sz ap = ap\<lparr>ma_csw := v\<rparr>"
  using assms
  by (cases "ma_kind ap")
    (auto simp: datasize_setup_def note_datasize_def apb2_datasize_setup_def apb4_datasize_setup_def unsupported_width_def
      ahb3_note_datasize_def ahb5_note_datasize_def ahb5_hprot_note_datasize_def axi3_note_datasize_def
      axi5_note_datasize_def split: if_splits)

lemma push_datasize_noted:
  assumes "push_datasize sz (ap, acs) = (r, ap', acs')" "noted ap acs c" "sz \<in> {DsU8, DsU16, DsU32, DsU64}"
  shows "noted ap' acs' c"
proof (cases "\<exists>v. datasize_setup ap sz = Ok (SetupWrite v)")
  case True
  then obtain v where v: "datasize_setup ap sz = Ok (SetupWrite v)" by blast
  from datasize_setup_write [OF v assms(3)] assms(1) v
  have "ap' = ap\<lparr>ma_csw := v\<rparr>" "acs' = acs @ [(CSW, Some v)]" "csw_size v \<in> {DsU8, DsU16, DsU32}"
    using csw_fields(1) [of sz "ma_csw ap"] by (auto simp: push_datasize_def)
  then show ?thesis using assms(2) by (auto simp: noted_def csw_sized_def)
next
  case False
  then have "ap' = ap \<and> acs' = acs"
    using assms(1) by (auto simp: push_datasize_def split: res.splits data_size_setup.splits)
  then show ?thesis using assms(2) by simp
qed

lemma width_sizes: "data_size_for w large \<in> {DsU8, DsU16, DsU32, DsU64}"
  by (cases w) simp_all

lemma push_piece_noted:
  assumes "push_piece a w n word (ap, acs) = (Ok u, ap', acs')" "noted ap acs c"
  shows "noted ap' acs' c"
proof (cases "n = 0")
  case True
  then show ?thesis using assms by (simp add: push_piece_def)
next
  case False
  let ?sh = "shape_new a w n"
  obtain ap1 acs1 where f: "push_fixed_datasize (data_size_for w False) (ap, acs) = (Ok (), ap1, acs1)"
    "push_lowered ?sh (word ?sh) (ap1, acs1) = (Ok u, ap', acs')"
    using assms(1) False by (auto simp: push_piece_def Let_def)
  obtain b where "push_datasize (data_size_for w False) (ap, acs) = (Ok b, ap1, acs1)"
    using f(1) by (auto simp: push_fixed_datasize_def split: if_splits)
  moreover obtain out where "ap' = ap1" "acs' = acs1 @ out" "lower ap1 ?sh (word ?sh) = Ok out"
    using f(2) by (auto simp: push_lowered_def split: res.splits)
  ultimately obtain b out where p: "push_datasize (data_size_for w False) (ap, acs) = (Ok b, ap1, acs1)"
    "ap' = ap1" "acs' = acs1 @ out" "lower ap1 ?sh (word ?sh) = Ok out" by blast
  from push_datasize_noted [OF p(1) assms(2) width_sizes] lower_quiet [OF p(4)]
  show ?thesis using p(2,3) by (simp add: noted_def)
qed

lemma push_byte_write_noted:
  assumes "push_byte_write a data (ap, acs) = (Ok u, ap', acs')" "noted ap acs c"
  shows "noted ap' acs' c"
proof -
  obtain aligned where al: "next_multiple_of64 a 4 = (Ok aligned :: (arm_error, nat) res)"
    using assms(1) by (auto simp: push_byte_write_def split: res.splits)
  define hd where "hd = take (min (aligned - a) (length data)) data"
  define words where "words = chunks_exact 4 (drop (min (aligned - a) (length data)) data)"
  define tl where "tl = drop (4 * length words) (drop (min (aligned - a) (length data)) data)"
  obtain ap1 p1 ap2 p2 p3 where q: "acs' = acs @ p3"
    "push_piece a WU8 (length hd) (\<lambda>sh. lane_words sh hd) (ap, []) = (Ok (), ap1, p1)"
    "push_piece (a + length hd) WU32 (length words) (\<lambda>_. plain_words (map from_le words)) (ap1, p1) = (Ok (), ap2, p2)"
    "push_piece (a + (length hd + length words * 4)) WU8 (length tl) (\<lambda>sh. lane_words sh tl) (ap2, p2) = (Ok (), ap', p3)"
    using assms(1) unfolding push_byte_write_def al Let_def prod.case res.case
      hd_def [symmetric] words_def [symmetric] tl_def [symmetric]
    by (auto split: if_splits option.splits res.splits prod.splits)
  have "noted ap [] (size_after acs c)" using assms(2) by (simp add: noted_def)
  from push_piece_noted [OF q(4) push_piece_noted [OF q(3) push_piece_noted [OF q(2) this]]]
  show ?thesis using assms(2) q(1) by (simp add: noted_def)
qed

subsection \<open>An AP with a size of its own\<close>

locale sized_ap =
  fixes dap :: "'d dap" and hw :: "'d \<Rightarrow> data_size"
  assumes read_law: "da_read dap CSW d = (Ok w, d') \<Longrightarrow> csw_size w = hw d'"
    and write_law: "da_write dap CSW w d = (Ok (), d') \<Longrightarrow> csw_size w \<in> {DsU8, DsU16, DsU32} \<Longrightarrow> hw d' = csw_size w"
    and batch_law: "da_access dap acs d = (Ok ws, d') \<Longrightarrow> csw_sized acs \<Longrightarrow> hw d' = size_after acs (hw d)"
begin

definition synced :: "'d adi \<Rightarrow> bool" where
  "synced s \<longleftrightarrow> (adi_trusted s \<longrightarrow> csw_size (ma_csw (adi_ap s)) = hw (adi_dap s))"

definition keeps :: "('d, 'a) am \<Rightarrow> bool" where
  "keeps m \<longleftrightarrow> (\<forall>s r t. m s = (r, t) \<and> r \<noteq> Panic \<and> synced s \<longrightarrow> synced t)"

lemma keepsI: "(\<And>s r t. m s = (r, t) \<Longrightarrow> r \<noteq> Panic \<Longrightarrow> synced s \<Longrightarrow> synced t) \<Longrightarrow> keeps m"
  by (auto simp: keeps_def)

lemma keepsD: "keeps m \<Longrightarrow> m s = (r, t) \<Longrightarrow> r \<noteq> Panic \<Longrightarrow> synced s \<Longrightarrow> synced t"
  by (auto simp: keeps_def)

lemma keeps_simps [intro]: "keeps (sret x)" "keeps (sfail e)" "keeps (slift q)"
  by (auto simp: keeps_def sret_def sfail_def slift_def)

lemma keeps_bind [intro]: "keeps m \<Longrightarrow> (\<And>x. keeps (f x)) \<Longrightarrow> keeps (sbind m f)"
  by (rule keepsI) (auto simp: sbind_def split: res.splits prod.splits dest: keepsD)

lemma resync_synced: "synced (resync dap s)"
proof -
  obtain r ap d where r: "status dap (adi_ap s, adi_dap s) = (r, ap, d)" by (metis prod_cases3)
  have "csw_size (ma_csw ap) = hw d" if "is_ok r"
    using r that read_law by (cases r) (auto simp: status_def keep_csw_def split: res.splits prod.splits)
  then show ?thesis using r by (auto simp: resync_def synced_def)
qed

lemma on_error_synced:
  assumes "on_error dap m s = (r, t)" "r \<noteq> Panic" "\<And>x. m s = (Ok x, t) \<Longrightarrow> synced t"
  shows "synced t"
  using assms resync_synced by (auto simp: on_error_def split: res.splits prod.splits)

lemma try_set_synced:
  assumes "adi_try_set_datasize dap sz s = (Ok u, t)" "synced s" "sz \<in> {DsU8, DsU16, DsU32, DsU64}"
  shows "synced t"
proof -
  obtain ap d where r: "try_set_datasize dap sz (adi_ap s, adi_dap s) = (Ok u, ap, d)" "t = s\<lparr>adi_ap := ap, adi_dap := d\<rparr>"
    using assms(1) by (auto simp: adi_try_set_datasize_def split: prod.splits)
  have wr: "csw_size csw' = hw d'" if "write_csw dap sz csw x = (Ok csw', d')" "sz \<in> {DsU8, DsU16, DsU32}" for csw x csw' d'
    using that write_law csw_fields(1) [of sz csw] by (auto simp: write_csw_def Let_def)
  have "csw_size (ma_csw ap) = hw d" if "csw_size (ma_csw (adi_ap s)) = hw (adi_dap s)"
    using r(1) assms(3) that wr read_law
    by (cases "ma_kind (adi_ap s)")
      (auto simp: try_set_datasize_def Let_def keep_csw_def ahb3_try_set_datasize_def ahb5_try_set_datasize_def
        ahb5_hprot_try_set_datasize_def axi5_try_set_datasize_def axi3_try_set_datasize_def apb2_try_set_datasize_def
        apb4_try_set_datasize_def unsupported_width_def sbind_def split: res.splits prod.splits if_splits)
  then show ?thesis using r(2) assms(2) by (simp add: synced_def)
qed

text \<open>The state before a list of accesses that has been recorded already.\<close>

definition pending :: "ap_accesses \<Rightarrow> 'd adi \<Rightarrow> bool" where
  "pending acs s \<longleftrightarrow> (adi_trusted s \<longrightarrow> noted (adi_ap s) acs (hw (adi_dap s)))"

lemma pending_sent:
  assumes "raw_access dap acs s = (Ok ws, t)" "pending acs s"
  shows "synced t"
  using assms batch_law by (fastforce simp: raw_access_def pending_def noted_def synced_def split: prod.splits)

lemma pending_Nil: "pending [] s = synced s"
  by (simp add: pending_def synced_def noted_def)

lemma run_shape_keeps: "keeps (run_shape dap sh word)"
proof (rule keepsI)
  fix s r t
  assume a: "run_shape dap sh word s = (r, t)" "r \<noteq> Panic" "synced s"
  let ?sz = "data_size_for (sh_width sh) (large_data (adi_ap s))"
  obtain q ap acs where p: "push_datasize ?sz (adi_ap s, []) = (q, ap, acs)" by (metis prod_cases3)
  show "synced t"
  proof (cases "lower (adi_ap s) sh word")
    case (Ok transfers)
    have pend: "pending acs (s\<lparr>adi_ap := ap\<rparr>)"
      using push_datasize_noted [OF p _ width_sizes, of "hw (adi_dap s)"] a(3)
      by (auto simp: pending_def synced_def noted_def)
    show ?thesis
    proof (cases q)
      case (Ok ready)
      have send: "synced t" if "on_error dap (raw_access dap (acs @ transfers)) u = (r, t)" "pending acs u" for u
      proof (rule on_error_synced [OF that(1) a(2)])
        fix x assume "raw_access dap (acs @ transfers) u = (Ok x, t)"
        moreover have "pending (acs @ transfers) u"
          using that(2) lower_quiet [OF \<open>lower (adi_ap s) sh word = Ok transfers\<close>] by (simp add: pending_def noted_def)
        ultimately show "synced t" by (rule pending_sent)
      qed
      show ?thesis
      proof (cases ready)
        case True
        then show ?thesis using a(1) Ok p pend send \<open>lower (adi_ap s) sh word = Ok transfers\<close> by (simp add: run_shape_def)
      next
        case False
        then have same: "ap = adi_ap s" "acs = []"
          using p Ok by (auto simp: push_datasize_def split: res.splits data_size_setup.splits)
        obtain q2 u where u: "on_error dap (adi_try_set_datasize dap ?sz) s = (q2, u)" by fastforce
        have ok: "synced u" if "q2 \<noteq> Panic"
          using on_error_synced [OF u that] try_set_synced [OF _ a(3) width_sizes] by blast
        have "(case q2 of Ok _ \<Rightarrow> on_error dap (raw_access dap (acs @ transfers)) u | Err e \<Rightarrow> (Err e, u) | Panic \<Rightarrow> (Panic, u)) = (r, t)"
          using a(1) Ok p False same u \<open>lower (adi_ap s) sh word = Ok transfers\<close>
          by (simp add: run_shape_def sbind_def split: res.splits)
        then show ?thesis using ok send [of u] a(2) same by (auto simp: pending_Nil split: res.splits)
      qed
    next
      case (Err e)
      then have "ap = adi_ap s" using push_datasize_Err p by blast
      then show ?thesis using a p Err \<open>lower (adi_ap s) sh word = Ok transfers\<close> by (auto simp: run_shape_def)
    next
      case Panic
      then show ?thesis using a p \<open>lower (adi_ap s) sh word = Ok transfers\<close> by (auto simp: run_shape_def)
    qed
  qed (use a in \<open>auto simp: run_shape_def\<close>)
qed

lemma read_32_keeps: "keeps (adi_read_32 dap a n)"
  unfolding adi_read_32_def run_read_def using run_shape_keeps by auto

lemma read_8_keeps: "keeps (adi_read_8 dap a n)"
proof (rule keepsI)
  fix s r t
  assume a: "adi_read_8 dap a n s = (r, t)" "r \<noteq> Panic" "synced s"
  have "keeps (sbind (run_read dap (shape_new a WU8 n)) (\<lambda>ws. slift (take_lanes a WU8 n ws :: (arm_error, u8 list) res)))"
    unfolding run_read_def using run_shape_keeps by auto
  from keepsD [OF this] a show "synced t" by (auto simp: adi_read_8_def split: if_splits)
qed

lemma read_keeps: "keeps (adi_read dap a n)"
proof (rule keepsI)
  fix s r t
  assume a: "adi_read dap a n s = (r, t)" "r \<noteq> Panic" "synced s"
  have k: "keeps (read_mem_32bit (adi_prims dap) x m)" for x m
    unfolding read_mem_32bit_def using read_32_keeps by (auto simp: adi_prims_def)
  have "keeps (sbind (read_mem_32bit (adi_prims dap) x m) (\<lambda>buffer. slift (slice_r buffer i j)))" for x m i j
    using k by auto
  from keepsD [OF this] keepsD [OF k] keepsD [OF read_8_keeps] a show "synced t"
    unfolding adi_read_def default_read_def Let_def by (auto simp: adi_prims_def split: if_splits)
qed

lemma gather_pending:
  assumes "gather_from dap ops lo s = (Ok lo', t)" "pending (lo_accesses lo) s" "lo_spans lo = [] \<longrightarrow> lo_accesses lo = []"
  shows "pending (lo_accesses lo') t"
  using assms
proof (induction ops arbitrary: lo s)
  case Nil
  then show ?case by simp
next
  case (Cons op ops)
  let ?k = "op_kind op"
  have stopped: "lo_accesses lo' = acs" if "stop (lo\<lparr>lo_accesses := acs\<rparr>) e = Ok lo'" for acs e
    using that by (auto simp: stop_def split: if_splits)
  consider (wr) data where "?k = OpWrite data" | (rd) data where "?k = OpRead data"
    | (shaped) w n where "kind_shape ?k = Some (w, n)"
    by (cases ?k) auto
  then show ?case
  proof cases
    case rd
    then show ?thesis using Cons.prems by (simp add: shape_of_def)
  next
    case (wr data)
    obtain r ap acs where p: "push_byte_write (op_address op) data (adi_ap s, lo_accesses lo) = (r, ap, acs)" by (metis prod_cases3)
    show ?thesis
    proof (cases r)
      case (Ok u)
      let ?lo = "lo\<lparr>lo_accesses := acs, lo_spans := lo_spans lo @ [(lo_words lo, 0)]\<rparr>"
      have "gather_from dap ops ?lo (s\<lparr>adi_ap := ap\<rparr>) = (Ok lo', t)" using Cons.prems(1) wr p Ok by simp
      moreover have "pending (lo_accesses ?lo) (s\<lparr>adi_ap := ap\<rparr>)"
        using Cons.prems(2) push_byte_write_noted [OF p [unfolded Ok]] by (simp add: pending_def)
      ultimately show ?thesis by (rule Cons.IH) simp
    next
      case (Err e)
      have "ap = adi_ap s" "acs = lo_accesses lo" using push_byte_write_Err [OF p [unfolded Err]] by simp_all
      then show ?thesis using Cons.prems(1,2) wr p Err stopped [of "lo_accesses lo" e] by simp
    next
      case Panic
      then show ?thesis using Cons.prems(1) wr p by simp
    qed
  next
    case (shaped w n)
    note gs = Cons.prems(1) [unfolded gather_shaped [OF shaped refl]]
    let ?a = "op_address op"
    have stop_here: ?thesis if "stop lo e = Ok lo'" "t = s" for e
      using that Cons.prems(2) stopped [of "lo_accesses lo" e] by simp
    show ?thesis
    proof (cases "shape_of (adi_ap s) op")
      case (Ok q)
      then have q: "q = Some (shape_new ?a w n)" using shaped by (auto simp: shape_of_def split: if_splits)
      let ?sh = "shape_new ?a w n"
      show ?thesis
      proof (cases "lower_operation (adi_ap s) ?k ?sh")
        case low: (Ok lowered)
        define sz where "sz = data_size_for (sh_width ?sh) (large_data (adi_ap s))"
        have sz: "sz \<in> {DsU8, DsU16, DsU32, DsU64}" unfolding sz_def by (rule width_sizes)
        have lower: "size_after lowered c = c" "csw_sized lowered" for c
          using lower_quiet low lower_operation_words [OF shaped] by auto
        obtain r ap acs where p: "push_datasize sz (adi_ap s, lo_accesses lo) = (r, ap, acs)" by (metis prod_cases3)
        have pend: "pending acs (s\<lparr>adi_ap := ap\<rparr>)"
          using Cons.prems(2) push_datasize_noted [OF p _ sz] by (simp add: pending_def)
        let ?lo = "join ?k ?sh lowered (lo\<lparr>lo_accesses := acs\<rparr>)"
        have lo: "lo_accesses ?lo = acs @ lowered" "lo_spans ?lo \<noteq> []" by (simp_all add: join_def Let_def)
        have joined: ?thesis if "gather_from dap ops ?lo u = (Ok lo', t)" "pending acs u" for u
        proof (rule Cons.IH [OF that(1)])
          show "pending (lo_accesses ?lo) u" using that(2) lower unfolding lo(1) by (simp add: pending_def noted_def)
        qed (use lo(2) in simp)
        show ?thesis
        proof (cases r)
          case okr: (Ok b)
          consider "b" | "\<not> b" "lo_spans lo \<noteq> []" | "\<not> b" "lo_spans lo = []" by blast
          then show ?thesis
          proof cases
            case 1
            then have "gather_from dap ops ?lo (s\<lparr>adi_ap := ap\<rparr>) = (Ok lo', t)"
              using gs Ok q low p okr unfolding sz_def by simp
            then show ?thesis using joined pend by blast
          next
            case 2
            then have "lo' = lo\<lparr>lo_accesses := acs\<rparr>" "t = s\<lparr>adi_ap := ap\<rparr>"
              using gs Ok q low p okr unfolding sz_def by simp_all
            then show ?thesis using pend by simp
          next
            case 3
            then obtain u where u: "adi_try_set_datasize dap sz (s\<lparr>adi_ap := ap\<rparr>) = (Ok (), u)"
              "gather_from dap ops ?lo u = (Ok lo', t)"
              using gs Ok q low p okr unfolding sz_def by auto
            have "acs = []"
              using p okr 3 Cons.prems(3) by (auto simp: push_datasize_def split: res.splits data_size_setup.splits)
            then show ?thesis using joined [OF u(2)] try_set_synced [OF u(1) _ sz] pend by (simp add: pending_Nil)
          qed
        next
          case (Err e)
          have "ap = adi_ap s" "acs = lo_accesses lo" using push_datasize_Err [OF p [unfolded Err]] by simp_all
          then show ?thesis using gs Ok q low p Err stop_here unfolding sz_def by auto
        next
          case Panic
          then show ?thesis using gs Ok q low p unfolding sz_def by simp
        qed
      next
        case (Err e)
        then show ?thesis using gs Ok q stop_here by auto
      next
        case Panic
        then show ?thesis using gs Ok q by simp
      qed
    qed (use gs stop_here in auto)
  qed
qed

lemma run_from_synced:
  assumes "run_from dap start ops s = (r, ops', t)" "r \<noteq> Panic" "synced s"
  shows "synced t"
  using assms
proof (induction "length ops" arbitrary: start ops s ops' rule: less_induct)
  case less
  show ?case
  proof (cases ops)
    case Nil
    then show ?thesis using less.prems by auto
  next
    case (Cons op rest)
    show ?thesis
    proof (cases "\<exists>d. op_kind op = OpRead d")
      case True
      then obtain d where d: "op_kind op = OpRead d" by blast
      obtain q s1 where q: "adi_read dap (op_address op) (length d) s = (q, s1)" by fastforce
      have s1: "synced s1" if "q \<noteq> Panic" using keepsD [OF read_keeps q that less.prems(3)] .
      show ?thesis
      proof (cases q)
        case (Ok bytes)
        then obtain more where "run_from dap (start + 1) rest s1 = (r, more, t)"
          using less.prems(1) Cons d q by (auto split: prod.splits)
        from less.hyps [OF _ this less.prems(2)] s1 Cons Ok show ?thesis by simp
      qed (use less.prems(1,2) Cons d q s1 in auto)
    next
      case False
      note rf = less.prems(1) [unfolded Cons run_from_other [OF False refl]]
      obtain g s1 where g: "on_error dap (gather dap (op # rest)) s = (g, s1)" by fastforce
      have g0: "pending (lo_accesses lo) s1" if "g = Ok lo" for lo
      proof -
        have "gather_from dap (op # rest) lowered_default s = (Ok lo, s1)"
          using g that by (auto simp: on_error_def gather_def split: prod.splits res.splits)
        from gather_pending [OF this] less.prems(3) show ?thesis by (simp add: lowered_default_def pending_Nil)
      qed
      show ?thesis
      proof (cases g)
        case (Ok lo)
        let ?n = "length (lo_spans lo)"
        show ?thesis
        proof (cases "?n = 0")
          case True
          then show ?thesis using rf g Ok less.prems(2) by auto
        next
          case n: False
          obtain a s2 where a: "on_error dap (raw_access dap (lo_accesses lo)) s1 = (a, s2)" by fastforce
          have s2: "synced s2" if "a \<noteq> Panic"
            using on_error_synced [OF a that] pending_sent g0 [OF Ok] by blast
          show ?thesis
          proof (cases a)
            case okv: (Ok vals)
            show ?thesis
            proof (cases "scatter_all vals (take ?n (op # rest)) (lo_spans lo)")
              case okb: (Ok batch)
              then obtain more where m: "run_from dap (start + ?n) (drop ?n ops) s2 = (r, more, t)"
                using rf g Ok n a okv Cons by (auto simp: Let_def split: prod.splits)
              have shorter: "length (drop ?n ops) < length ops" using n Cons by simp
              show ?thesis using less.hyps [OF shorter m less.prems(2)] s2 okv by simp
            qed (use rf g Ok n a okv less.prems(2) in auto)
          next
            case (Err e)
            then show ?thesis using rf g Ok n a s2 by auto
          next
            case Panic
            then show ?thesis using rf g Ok n a less.prems(2) by auto
          qed
        qed
      next
        case (Err e)
        have "gather dap (op # rest) s \<noteq> (Ok x, s1)" for x
          using g Err by (auto simp: on_error_def)
        then have "synced s1" using on_error_synced [OF g] Err by blast
        then show ?thesis using rf g Err by auto
      next
        case Panic
        then show ?thesis using rf g less.prems(2) by auto
      qed
    qed
  qed
qed

end

subsection \<open>The mock AP\<close>

definition mock_size :: "mock_ap \<Rightarrow> data_size" where
  "mock_size d = csw_size (case mo_store d CSW of Some w \<Rightarrow> w | None \<Rightarrow> 0)"

lemma mock_advance_size: "mock_advance csw a n d = (Ok (), d') \<Longrightarrow> mock_size d' = mock_size d"
  by (auto simp: mock_advance_def mock_size_def register_addresses split: address_increment.splits if_splits)

lemma mock_read_size: "mock_read addr d = (Ok w, d') \<Longrightarrow> mock_size d' = mock_size d"
  by (auto simp: mock_read_def Let_def mock_size_def register_addresses
      split: option.splits if_splits data_size.splits dest!: mock_advance_size)

lemma mock_write_size:
  "mock_write addr w d = (Ok (), d') \<Longrightarrow> mock_size d' = (if addr = CSW then csw_size w else mock_size d)"
  by (auto simp: mock_write_def Let_def mock_size_def register_addresses
      split: option.splits if_splits data_size.splits res.splits dest!: mock_advance_size)

lemma mock_each_size:
  "access_each mock_read mock_write acs d = (Ok ws, d') \<Longrightarrow> mock_size d' = size_after acs (mock_size d)"
proof (induction acs arbitrary: d ws)
  case (Cons ac acs)
  obtain addr x where ac: "ac = (addr, x)" by fastforce
  show ?case
  proof (cases x)
    case None
    then obtain w d1 ws1 where "mock_read addr d = (Ok w, d1)" "access_each mock_read mock_write acs d1 = (Ok ws1, d')"
      using Cons.prems ac by auto
    then show ?thesis using Cons.IH mock_read_size ac None by simp
  next
    case (Some v)
    then obtain d1 where "mock_write addr v d = (Ok (), d1)" "access_each mock_read mock_write acs d1 = (Ok ws, d')"
      using Cons.prems ac by auto
    then show ?thesis using Cons.IH mock_write_size ac Some by simp
  qed
qed simp

interpretation mock_sized: sized_ap mock_dap mock_size
proof unfold_locales
  fix d w d'
  show "da_read mock_dap CSW d = (Ok w, d') \<Longrightarrow> csw_size w = mock_size d'"
    by (auto simp: mock_dap_def mock_read_def mock_size_def register_addresses expect_def split: option.splits if_splits)
  show "da_write mock_dap CSW w d = (Ok (), d') \<Longrightarrow> mock_size d' = csw_size w"
    using mock_write_size by (simp add: mock_dap_def)
next
  fix acs d ws d'
  assume "da_access mock_dap acs d = (Ok ws, d')"
  from mock_each_size [OF this [unfolded mock_dap_def mock_access_def, simplified]]
  show "mock_size d' = size_after acs (mock_size d)" by (simp add: mock_size_def)
qed

end
