(* ===== verification/Adi_Equal.thy ===== *)
theory Adi_Equal
  imports Adi_Sync
begin

text \<open>
  One operation after the other: on an AP whose accesses return, the generic execution of a batch, which
  runs each operation by itself, succeeds as the gathered one does, and both do what the operations say.
\<close>

lemma flat_ops_done: "op \<in> set (fst (flat_ops ops f)) \<Longrightarrow> op_result op = Some (Ok ())"
proof (induction ops arbitrary: f)
  case (Cons a ops)
  then show ?case by (auto simp: case_prod_unfold)
qed simp

context reliable_ap begin

lemma byte_write_total:
  assumes "adi_ready la as_view s" "op_feasible (only_32bit (adi_ap s)) limit op" "op_kind op = OpWrite data"
  shows "\<exists>t. adi_write dap (op_address op) data s = (Ok (), t) \<and> only_32bit (adi_ap t) = only_32bit (adi_ap s)"
proof -
  have "\<forall>op' \<in> set [operation_new (op_address op) (OpWrite data) :: arm_error operation]. op_feasible (only_32bit (adi_ap s)) limit op'"
    using assms(2,3) by (simp add: op_feasible_def operation_new_def)
  from run_from_total [OF assms(1) this, of 0] show ?thesis
    by (auto simp: adi_write_def run_operations_def)
qed

lemma shape_total:
  assumes "adi_ready la as_view s" "op_feasible (only_32bit (adi_ap s)) limit op" "kind_shape (op_kind op) = Some (w, n)"
  defines "a \<equiv> op_address op" and "k \<equiv> op_kind op"
  obtains ws t where "run_shape dap (shape_new a w n) (kind_words k (shape_new a w n)) s = (Ok ws, t)"
    "only_32bit (adi_ap t) = only_32bit (adi_ap s)" "scatter a k ws = Ok (fst (flat_op a k (adi_content mem s)))"
proof -
  note f = op_feasible_shaped [OF assms(2,3)]
  have b: "a + op_bytes k \<le> limit" using assms(2) by (simp add: op_feasible_def a_def k_def)
  let ?sh = "shape_new a w n"
  have sh: "width_bytes (sh_width ?sh) dvd sh_address ?sh" "sh_address ?sh + sh_elements ?sh * width_bytes (sh_width ?sh) \<le> limit"
    "only_32bit (adi_ap s) \<longrightarrow> sh_width ?sh \<in> {WU32, WU64}"
    using f by (simp_all add: shape_new_def a_def)
  obtain ws t where r: "run_shape dap ?sh (kind_words k ?sh) s = (Ok ws, t)"
    "only_32bit (adi_ap t) = only_32bit (adi_ap s)"
    using run_shape_total [OF assms(1) sh] by blast
  have "width_bytes w dvd a" using f by (simp add: a_def)
  from run_kind_flat(3) [OF assms(1) r(1) assms(3) [folded k_def] this b] show ?thesis using that r by blast
qed

lemma execute_kind_total:
  assumes "adi_ready la as_view s" "op_feasible (only_32bit (adi_ap s)) limit op"
  shows "\<exists>k t. execute_kind (adi_interface dap) (op_address op) (op_kind op) s = (Ok k, t)
    \<and> only_32bit (adi_ap t) = only_32bit (adi_ap s)"
proof (cases "kind_shape (op_kind op)")
  case None
  then consider (rd) d where "op_kind op = OpRead d" | (wr) d where "op_kind op = OpWrite d" by (cases "op_kind op") auto
  then show ?thesis
  proof cases
    case rd
    then have "op_address op + length d \<le> limit" using assms(2) by (simp add: op_feasible_def)
    from read_total [OF assms(1) this] show ?thesis using rd
      by (auto simp: adi_interface_def adi_prims_def memory_prims.defs srmap_def sbind_def)
  next
    case wr
    from byte_write_total [OF assms wr] show ?thesis using wr
      by (auto simp: adi_interface_def adi_prims_def memory_prims.defs srmap_def sbind_def)
  qed
next
  case (Some wn)
  then obtain w n where wn: "kind_shape (op_kind op) = Some (w, n)" by (cases wn) auto
  note f = op_feasible_shaped [OF assms(2) wn]
  obtain ws t where r: "run_shape dap (shape_new (op_address op) w n) (kind_words (op_kind op) (shape_new (op_address op) w n)) s = (Ok ws, t)"
    "only_32bit (adi_ap t) = only_32bit (adi_ap s)"
    "scatter (op_address op) (op_kind op) ws = Ok (fst (flat_op (op_address op) (op_kind op) (adi_content mem s)))"
    by (rule shape_total [OF assms wn])
  note defs = adi_interface_def adi_prims_def memory_prims.defs srmap_def sbind_def run_read_def run_write_def
    adi_read_8_def adi_read_16_def adi_read_32_def adi_read_64_def adi_write_8_def adi_write_16_def adi_write_32_def
    adi_write_64_def write_word_8_def write_word_16_def write_word_32_def write_word_64_def
  show ?thesis using wn f r by (cases "op_kind op") (auto simp: defs Let_def split: if_splits)
qed

lemma execute_operations_total:
  assumes "adi_ready la as_view s" "\<forall>op \<in> set ops. op_feasible (only_32bit (adi_ap s)) limit op"
  shows "\<exists>ops' t. execute_memory_operations into (adi_interface dap) ops s = (Ok ops', t) \<and> adi_ready la as_view t
    \<and> (ops', adi_content mem t) = flat_ops ops (adi_content mem s)"
  using assms
proof (induction ops arbitrary: s)
  case (Cons op ops)
  obtain k u where k: "execute_kind (adi_interface dap) (op_address op) (op_kind op) s = (Ok k, u)"
    "only_32bit (adi_ap u) = only_32bit (adi_ap s)"
    using execute_kind_total [OF Cons.prems(1), of op] Cons.prems(2) by auto
  have "op_address op + op_bytes (op_kind op) \<le> limit" using Cons.prems(2) by (simp add: op_feasible_def)
  from execute_kind_flat [OF Cons.prems(1) this k(1)]
  have u: "adi_ready la as_view u" "(k, adi_content mem u) = flat_op (op_address op) (op_kind op) (adi_content mem s)" by simp_all
  obtain ops' t where r: "execute_memory_operations into (adi_interface dap) ops u = (Ok ops', t)" "adi_ready la as_view t"
    "(ops', adi_content mem t) = flat_ops ops (adi_content mem u)"
    using Cons.IH [OF u(1)] Cons.prems(2) k(2) by auto
  then show ?case
    using k(1) u(2) [symmetric] by (auto simp: execute_single_memory_operation_def srmap_def sbind_def split: prod.splits)
qed simp

end

end
