(* ===== verification/Adi_Properties.thy ===== *)
theory Adi_Properties
  imports Adi_Equal
begin

text \<open>
  What the memory interface of an AP promises. The AP is any that keeps the documented contract,
  written out as hypotheses; the mock AP of the crate's tests is one.
\<close>

subsection \<open>An interface on the mock AP\<close>

definition mock_started :: "nat \<Rightarrow> mock_ap adi" where
  "mock_started n =
     \<lparr>adi_ap = \<lparr>ma_kind = AmbaAhb3, ma_csw = ahb3_csw 0, ma_cfg = 0\<rparr>,
      adi_dap = (with_pattern_and_size n)\<lparr>mo_store := (mo_store (with_pattern_and_size n))(CSW \<mapsto> ahb3_csw 0)\<rparr>,
      adi_trusted = True, adi_since = 0\<rparr>"

lemma mock_idr_kind: "mock_idr \<noteq> 0" "reg_get 3 0 mock_idr = 1"
  by code_simp+

lemma mock_starts: "fst (adi_new mock_dap (with_pattern_and_size n)) = Ok (mock_started n)"
proof -
  have ne: "CFG \<noteq> CSW" "IDR \<noteq> DRW" "CFG \<noteq> DRW" "CSW \<noteq> DRW" "TAR \<noteq> CSW" "TAR \<noteq> DRW"
    "IDR \<noteq> CSW" "IDR \<noteq> TAR" "IDR \<noteq> CFG" "CFG \<noteq> TAR" "CSW \<noteq> TAR"
    by (simp_all add: register_addresses)
  show ?thesis
    using mock_idr_kind ne
    by (simp add: adi_new_def memory_ap_new_def mock_dap_def mock_read_def mock_write_def with_pattern_and_size_def
        mock_started_def sbind_def ap_kind_of_def ahb3_new_def expect_def Let_def)
qed

lemma mock_started_ready: "adi_ready False (mock_view (mock_limit k)) (mock_started (mock_limit k))"
proof -
  let ?n = "mock_limit k"
  have csw: "csw_size (ahb3_csw 0) = DsU8" "csw_addr_inc (ahb3_csw 0) = IncSingle" by code_simp+
  have cfg: "\<not> cfg_la 0" "\<not> cfg_ld 0" by (simp_all add: cfg_la_def cfg_ld_def)
  have len: "length (mock_pattern ?n) = ?n" by (simp add: mock_pattern_def)
  let ?v = "\<lparr>av_size = DsU8, av_inc = IncSingle, av_hi = 0, av_lo = None, av_mem = mock_mem (adi_dap (mock_started ?n))\<rparr>"
  have "mock_view ?n ?v (adi_dap (mock_started ?n))"
    unfolding mock_view_def using csw len
    by (auto simp: mock_started_def with_pattern_and_size_def register_addresses)
  moreover have "agrees False (adi_ap (mock_started ?n)) ?v"
    using csw cfg by (simp add: agrees_def mock_started_def large_address_def large_data_def only_32bit_def)
  ultimately show ?thesis unfolding adi_ready_def by blast
qed

abbreviation mock_ready :: "16 word \<Rightarrow> mock_ap adi \<Rightarrow> bool" where
  "mock_ready k \<equiv> adi_ready False (mock_view (mock_limit k))"

abbreviation mock_content :: "mock_ap adi \<Rightarrow> flat" where
  "mock_content \<equiv> adi_content mock_mem"

text \<open>A core on the mock passes its accesses on and has the same contract.\<close>

interpretation core_mock: flat_interface "delegate into (adi_interface mock_dap)" "mock_ready k" mock_content "mock_limit k"
  for into and k
  by (rule mock.delegate_flat)

text \<open>Operations of several widths on a mock with a memory of 64 bytes.\<close>

definition sample_operations :: "arm_error operation list" where
  "sample_operations =
     [operation_new 4 (OpWrite [1, 2, 3, 4, 5, 6]), operation_new 8 (OpRead32 [0]),
      operation_new 3 (OpRead [0, 0, 0]), operation_new 16 (OpWriteWord64 7), operation_new 16 (OpRead8 [0])]"

lemma mock_limit_16: "mock_limit 16 = 64"
  by (simp add: mock_limit_def)

lemma sample_feasible: "\<forall>op \<in> set sample_operations. op_feasible False 64 op"
  by (simp add: sample_operations_def op_feasible_def operation_new_def)

lemma mock_started_wide: "\<not> only_32bit (adi_ap (mock_started n))"
  by (simp add: mock_started_def only_32bit_def)

subsection \<open>Batches\<close>

text \<open>C2. The operations that \<open>run_operations\<close> reports as done are just what they would be on a
  flat byte memory, reads and writes of all widths, in their order, and an error names an operation
  before which all were done. The AP is any that runs the documented register machine.\<close>

theorem run_operations_refines_flat:
  assumes "4 dvd limit" "limit \<le> 2 ^ 64"
    and "\<And>v d. as_view v d \<Longrightarrow> mem d = av_mem v"
    and "\<And>v d acs ws d' v' es. as_view v d \<Longrightarrow> da_access dap acs d = (Ok ws, d') \<Longrightarrow>
      ap_run limit la acs v = Some (v', es) \<Longrightarrow> as_view v' d' \<and> list_all2 word_ok es ws"
    and "adi_ready la as_view s" "\<forall>op \<in> set ops. op_address op + op_bytes (op_kind op) \<le> limit"
    and "run_operations dap ops s = (r, ops', t)"
  shows "ops_outcome 0 ops (adi_content mem s) r ops' (adi_content mem t)"
proof -
  have "mem_ap dap limit la as_view mem" using assms(1-4) by unfold_locales
  from mem_ap.run_from_flat [OF this assms(7) [unfolded run_operations_def] assms(5,6)] show ?thesis by simp
qed

theorem run_operations_refines_flat_witness:
  "case run_operations mock_dap sample_operations (mock_started 64) of
     (r, ops', t) \<Rightarrow> ops_outcome 0 sample_operations (mock_content (mock_started 64)) r ops' (mock_content t)"
proof -
  obtain r ops' t where r: "run_operations mock_dap sample_operations (mock_started 64) = (r, ops', t)"
    by (metis prod_cases3)
  have "ops_outcome 0 sample_operations (mock_content (mock_started 64)) r ops' (mock_content t)"
  proof (rule run_operations_refines_flat [OF mock.limit_aligned mock.limit_64 mock.mem_law mock.access_law _ _ r])
    show "\<forall>op \<in> set sample_operations. op_address op + op_bytes (op_kind op) \<le> mock_limit 16"
      using sample_feasible unfolding mock_limit_16 by (simp add: op_feasible_def)
    show "mock_ready 16 (mock_started 64)" using mock_started_ready [of 16] by (simp add: mock_limit_16)
  qed
  then show ?thesis using r by simp
qed

text \<open>C8. Operations in range, at their alignment and of a width that the AP has are all done: on an
  AP whose accesses return, \<open>run_operations\<close> succeeds, and the reads and the memory are those of a
  flat byte memory.\<close>

theorem feasible_operations_succeed:
  assumes "4 dvd limit" "limit + 0x400 \<le> 2 ^ 64" "la \<or> limit < 2 ^ 32"
    and "\<And>v d. as_view v d \<Longrightarrow> mem d = av_mem v"
    and "\<And>v d acs ws d' v' es. as_view v d \<Longrightarrow> da_access dap acs d = (Ok ws, d') \<Longrightarrow>
      ap_run limit la acs v = Some (v', es) \<Longrightarrow> as_view v' d' \<and> list_all2 word_ok es ws"
    and "\<And>v d acs v' es. as_view v d \<Longrightarrow> ap_run limit la acs v = Some (v', es) \<Longrightarrow>
      \<exists>ws d'. da_access dap acs d = (Ok ws, d')"
    and "adi_ready la as_view s" "\<forall>op \<in> set ops. op_feasible (only_32bit (adi_ap s)) limit op"
  shows "\<exists>ops' t. run_operations dap ops s = (Ok (), ops', t) \<and> adi_ready la as_view t
    \<and> (ops', adi_content mem t) = flat_ops ops (adi_content mem s)"
proof -
  have le: "limit \<le> 2 ^ 64" using assms(2) by simp
  have ap: "reliable_ap dap limit la as_view mem" using le assms(1-6) by unfold_locales
  obtain ops' t where r: "run_from dap 0 ops s = (Ok (), ops', t)"
    using reliable_ap.run_from_total [OF ap assms(7,8)] by blast
  have "mem_ap dap limit la as_view mem" using le assms(1,4,5) by unfold_locales
  from mem_ap.run_from_flat [OF this r assms(7)] assms(8)
  have "(ops', adi_content mem t) = flat_ops ops (adi_content mem s)" "adi_ready la as_view t"
    by (simp_all add: op_feasible_def)
  then show ?thesis using r unfolding run_operations_def by blast
qed

theorem feasible_operations_succeed_witness:
  "\<exists>ops' t. run_operations mock_dap sample_operations (mock_started 64) = (Ok (), ops', t) \<and> mock_ready 16 t
    \<and> (ops', mock_content t) = flat_ops sample_operations (mock_content (mock_started 64))"
proof (rule feasible_operations_succeed [OF mock.limit_aligned mock.limit_window mock.limit_narrow mock.mem_law
      mock.access_law mock.access_returns])
  show "\<forall>op \<in> set sample_operations. op_feasible (only_32bit (adi_ap (mock_started 64))) (mock_limit 16) op"
    using sample_feasible mock_started_wide [of 64] unfolding mock_limit_16 by simp
  show "mock_ready 16 (mock_started 64)" using mock_started_ready [of 16] by (simp add: mock_limit_16)
qed

text \<open>C21. What is written through the byte interface is read back: on the mock AP any data at any
  address of its memory, aligned or not.\<close>

theorem mock_write_read_back:
  assumes "mock_ready k s" "\<not> only_32bit (adi_ap s)" "a + length data \<le> mock_limit k"
  shows "\<exists>t u. adi_write mock_dap a data s = (Ok (), t) \<and> adi_read mock_dap a (length data) t = (Ok data, u)"
proof -
  let ?op = "operation_new a (OpWrite data) :: arm_error operation"
  have "\<forall>op \<in> set [?op]. op_feasible (only_32bit (adi_ap s)) (mock_limit k) op"
    using assms(2,3) by (simp add: op_feasible_def operation_new_def)
  then obtain ops' t where "run_from mock_dap 0 [?op] s = (Ok (), ops', t)"
    using mock.run_from_total [OF assms(1)] by blast
  then have w: "adi_write mock_dap a data s = (Ok (), t)" by (simp add: adi_write_def run_operations_def)
  have t: "mock_ready k t" "mock_content t = poke (mock_content s) a data"
    using writes_asD [OF mock.adi_write_law assms(1) _ w] assms(3) unfolding le_bytes_8 by simp_all
  obtain bs u where r: "adi_read mock_dap a (length data) t = (Ok bs, u)"
    using mock.read_total [OF t(1) assms(3)] by blast
  have "bs = peek (mock_content t) a (length data)"
    using reads_asD [OF mock.adi_read_law t(1) _ r] assms(3) unfolding le_bytes_8 by simp
  then show ?thesis using w r t(2) by (auto simp: peek_poke)
qed

theorem mock_write_read_back_witness:
  "\<exists>t u. adi_write mock_dap 5 [1, 2, 3, 4, 5, 6, 7, 8, 9] (mock_started 64) = (Ok (), t)
    \<and> adi_read mock_dap 5 9 t = (Ok [1, 2, 3, 4, 5, 6, 7, 8, 9], u)"
  using mock_write_read_back [of 16 "mock_started 64" 5 "[1, 2, 3, 4, 5, 6, 7, 8, 9]"]
    mock_started_ready [of 16] mock_started_wide [of 64]
  by (simp add: mock_limit_16 eval_nat_numeral)

text \<open>C22. A batch gives what the operations give one at a time. On any AP that runs the documented
  register machine and whose accesses return, and for operations in range, at their alignment and of a
  width that the AP has: the generic \<open>execute_memory_operations\<close> of the memory interface, which runs
  each operation by itself, and the batched \<open>run_operations\<close> both succeed with every operation, give the
  same data and results, and leave the same memory.\<close>

theorem batched_equals_sequential:
  assumes "4 dvd limit" "limit + 0x400 \<le> 2 ^ 64" "la \<or> limit < 2 ^ 32"
    and "\<And>v d. as_view v d \<Longrightarrow> mem d = av_mem v"
    and "\<And>v d acs ws d' v' es. as_view v d \<Longrightarrow> da_access dap acs d = (Ok ws, d') \<Longrightarrow>
      ap_run limit la acs v = Some (v', es) \<Longrightarrow> as_view v' d' \<and> list_all2 word_ok es ws"
    and "\<And>v d acs v' es. as_view v d \<Longrightarrow> ap_run limit la acs v = Some (v', es) \<Longrightarrow>
      \<exists>ws d'. da_access dap acs d = (Ok ws, d')"
    and "adi_ready la as_view s" "\<forall>op \<in> set ops. op_feasible (only_32bit (adi_ap s)) limit op"
  shows "\<exists>ops' t1 t2. execute_memory_operations into (adi_interface dap) ops s = (Ok ops', t1)
    \<and> run_operations dap ops s = (Ok (), ops', t2) \<and> (\<forall>op \<in> set ops'. op_result op = Some (Ok ()))
    \<and> adi_ready la as_view t1 \<and> adi_ready la as_view t2 \<and> adi_content mem t1 = adi_content mem t2"
proof -
  have le: "limit \<le> 2 ^ 64" using assms(2) by simp
  have ap: "reliable_ap dap limit la as_view mem" using le assms(1-6) by unfold_locales
  have m: "mem_ap dap limit la as_view mem" using le assms(1,4,5) by unfold_locales
  obtain ops1 t1 where seq: "execute_memory_operations into (adi_interface dap) ops s = (Ok ops1, t1)" "adi_ready la as_view t1"
    "(ops1, adi_content mem t1) = flat_ops ops (adi_content mem s)"
    using reliable_ap.execute_operations_total [OF ap assms(7,8)] by blast
  obtain ops2 t2 where r: "run_from dap 0 ops s = (Ok (), ops2, t2)"
    using reliable_ap.run_from_total [OF ap assms(7,8)] by blast
  from mem_ap.run_from_flat [OF m this assms(7)] assms(8)
  have bat: "adi_ready la as_view t2" "(ops2, adi_content mem t2) = flat_ops ops (adi_content mem s)"
    by (simp_all add: op_feasible_def)
  have "ops1 = fst (flat_ops ops (adi_content mem s))" using seq(3) by (metis fst_conv)
  then have "\<forall>op \<in> set ops1. op_result op = Some (Ok ())" using flat_ops_done by blast
  then show ?thesis using seq r bat unfolding run_operations_def by (metis prod.inject)
qed

theorem batched_equals_sequential_witness:
  "\<exists>ops' t1 t2. execute_memory_operations id (adi_interface mock_dap) sample_operations (mock_started 64) = (Ok ops', t1)
     \<and> run_operations mock_dap sample_operations (mock_started 64) = (Ok (), ops', t2)
     \<and> (\<forall>op \<in> set ops'. op_result op = Some (Ok ()))
     \<and> mock_ready 16 t1 \<and> mock_ready 16 t2 \<and> mock_content t1 = mock_content t2"
proof (rule batched_equals_sequential [OF mock.limit_aligned mock.limit_window mock.limit_narrow mock.mem_law
      mock.access_law mock.access_returns])
  show "\<forall>op \<in> set sample_operations. op_feasible (only_32bit (adi_ap (mock_started 64))) (mock_limit 16) op"
    using sample_feasible mock_started_wide [of 64] unfolding mock_limit_16 by simp
  show "mock_ready 16 (mock_started 64)" using mock_started_ready [of 16] by (simp add: mock_limit_16)
qed

subsection \<open>The noted state of the AP\<close>

text \<open>C11. A trusted interface knows the transfer size of its AP: whatever batch is run on it and
  however it ends, done or with an error on the way, the size noted in the interface is the size the
  AP has, or the interface is not trusted any more and its AP is not kept.\<close>

theorem noted_size_is_the_size:
  assumes "\<And>d w d'. da_read dap CSW d = (Ok w, d') \<Longrightarrow> csw_size w = hw d'"
    and "\<And>w d d'. da_write dap CSW w d = (Ok (), d') \<Longrightarrow> csw_size w \<in> {DsU8, DsU16, DsU32} \<Longrightarrow> hw d' = csw_size w"
    and "\<And>acs d ws d'. da_access dap acs d = (Ok ws, d') \<Longrightarrow> csw_sized acs \<Longrightarrow> hw d' = size_after acs (hw d)"
    and "adi_trusted s \<longrightarrow> csw_size (ma_csw (adi_ap s)) = hw (adi_dap s)"
    and "run_operations dap ops s = (r, ops', t)" "r \<noteq> Panic"
  shows "if adi_trusted t then csw_size (ma_csw (adi_ap t)) = hw (adi_dap t) else adi_drop dap t = adi_dap t"
proof -
  have ap: "sized_ap dap hw" using assms(1-3) by unfold_locales
  have "sized_ap.synced hw s" using assms(4) unfolding sized_ap.synced_def [OF ap] .
  from sized_ap.run_from_synced [OF ap assms(5) [unfolded run_operations_def] assms(6) this]
  show ?thesis unfolding sized_ap.synced_def [OF ap] by (simp add: adi_drop_def)
qed

theorem noted_size_is_the_size_witness:
  "\<exists>r ops' t. run_operations mock_dap sample_operations (mock_started 64) = (r, ops', t) \<and> r \<noteq> Panic
    \<and> (if adi_trusted t then csw_size (ma_csw (adi_ap t)) = mock_size (adi_dap t) else adi_drop mock_dap t = adi_dap t)"
proof -
  have "\<forall>op \<in> set sample_operations. op_feasible (only_32bit (adi_ap (mock_started 64))) (mock_limit 16) op"
    using sample_feasible mock_started_wide [of 64] unfolding mock_limit_16 by simp
  moreover have "mock_ready 16 (mock_started 64)" using mock_started_ready [of 16] by (simp add: mock_limit_16)
  ultimately obtain ops' t where r: "run_operations mock_dap sample_operations (mock_started 64) = (Ok (), ops', t)"
    using mock.run_from_total unfolding run_operations_def by blast
  have "csw_size (ma_csw (adi_ap (mock_started 64))) = mock_size (adi_dap (mock_started 64))"
    by (simp add: mock_started_def mock_size_def)
  then have "if adi_trusted t then csw_size (ma_csw (adi_ap t)) = mock_size (adi_dap t) else adi_drop mock_dap t = adi_dap t"
    by (intro noted_size_is_the_size [where hw = mock_size, OF _ _ _ _ r])
      (blast intro: mock_sized.read_law mock_sized.write_law mock_sized.batch_law | simp)+
  then show ?thesis using r by blast
qed

text \<open>A memory AP is set up when it is created: of whatever kind, it has the CSW that was written
  to the hardware last, with an address increment of one element.\<close>

theorem memory_ap_new_notes_csw:
  assumes "memory_ap_new dap d = (Ok ap, d')"
  shows "csw_addr_inc (ma_csw ap) = IncSingle \<and> (\<exists>d1. da_write dap CSW (ma_csw ap) d1 = (Ok (), d'))"
  using assms csw_fields(3)
  by (auto simp: memory_ap_new_def ap_kind_of_def ahb3_new_def ahb5_new_def ahb5_hprot_new_def apb2_new_def apb4_new_def
      axi3_new_def axi5_new_def ahb3_csw_def ahb5_csw_def ahb5_hprot_csw_def apb2_csw_def apb4_csw_def axi3_csw_def
      axi5_csw_def split: if_splits)

theorem memory_ap_new_notes_csw_witness:
  "\<exists>ap d'. memory_ap_new mock_dap (with_pattern_and_size 64) = (Ok ap, d') \<and> csw_addr_inc (ma_csw ap) = IncSingle"
proof -
  obtain ap d' where n: "memory_ap_new mock_dap (with_pattern_and_size 64) = (Ok ap, d')"
    using mock_starts [of 64] by (auto simp: adi_new_def mock_dap_def sbind_def split: res.splits prod.splits)
  from memory_ap_new_notes_csw [OF n] n show ?thesis by blast
qed

subsection \<open>Limits\<close>

text \<open>The bytes from an address to the end of its 1 KiB window: what TAR can be incremented over.
  The computation overflows in the last window of the 64-bit address space.\<close>

theorem autoincr_window:
  "autoincr_max_bytes a = (if a + 0x400 < 2 ^ 64 then Ok (0x400 - a mod 0x400) else Panic)"
  by (rule autoincr_max_bytes_eq)

text \<open>A byte-granular write that ends with the last byte of a 32-bit address space is refused
  on an AP without large addresses, though the same words can be lowered as a write of words.\<close>

theorem write_to_the_top_refused:
  assumes "\<not> large_address (adi_ap s)" "4 dvd a" "data \<noteq> []" "a + length data = 2 ^ 32"
  shows "adi_write dap a data s = (Err OutOfBounds, resync dap s)
    \<and> (\<exists>out. lower (adi_ap s) (shape_new a WU32 (length data div 4)) word = Ok out)"
proof -
  have "4 dvd a + length data" using assms(4) by simp
  then have len: "4 dvd length data" using assms(2) by (simp add: dvd_add_right_iff)
  have "next_multiple_of64 a 4 = (Ok a :: (arm_error, nat) res)" using assms(2) by (simp add: next_multiple_of64_def)
  moreover have "drop (4 * length (chunks_exact 4 data)) data = []"
    using len by (simp add: length_chunks_exact)
  ultimately have "push_byte_write a data (adi_ap s, []) = (Err OutOfBounds, (adi_ap s, []))"
    using assms(1,4) by (simp add: push_byte_write_def Let_def checked_add64_def)
  then have "gather dap [operation_new a (OpWrite data) :: arm_error operation] s = (Err OutOfBounds, s)"
    by (simp add: gather_def lowered_default_def operation_new_def stop_def)
  then have "adi_write dap a data s = (Err OutOfBounds, resync dap s)"
    by (simp add: adi_write_def run_operations_def operation_new_def on_error_def)
  moreover have "\<exists>out. lower (adi_ap s) (shape_new a WU32 (length data div 4)) word = Ok out"
    using lower_total [of "shape_new a WU32 (length data div 4)" "adi_ap s" word] assms(2,4) len
    by (auto simp: shape_new_def)
  ultimately show ?thesis by blast
qed

theorem write_to_the_top_refused_witness:
  "adi_write mock_dap 0xFFFFFFFC [1, 2, 3, 4] (mock_started 64) = (Err OutOfBounds, resync mock_dap (mock_started 64))"
  by (rule conjunct1 [OF write_to_the_top_refused]) (simp_all add: mock_started_def large_address_def cfg_la_def)

text \<open>An AHB or AXI5 AP that reports the large data extension cannot read 64-bit elements at all:
  the size for them is 64 bits then, and these APs refuse it. Without the extension the elements are
  read as two words each.\<close>

theorem read_64_large_data_refused:
  assumes "large_data (adi_ap s)" "ma_kind (adi_ap s) \<in> {AmbaAhb3, AmbaAhb5, AmbaAhb5Hprot, AmbaAxi5}"
    and "8 dvd a" "n \<noteq> 0" "a + 8 * n \<le> 2 ^ 32"
  shows "adi_read_64 dap a n s = (Err (UnsupportedTransferWidth 64), s)"
proof -
  obtain out where "lower (adi_ap s) (shape_new a WU64 n) read_words = Ok out"
    using lower_total [of "shape_new a WU64 n" "adi_ap s" read_words] assms(3,5) by (auto simp: shape_new_def)
  moreover have "push_datasize DsU64 (adi_ap s, []) = (Err (UnsupportedTransferWidth 64), adi_ap s, [])"
    using assms(2) by (auto simp: push_datasize_def datasize_setup_def unsupported_width_def)
  ultimately show ?thesis
    using assms(1,3,4) by (simp add: adi_read_64_def run_read_def run_shape_def shape_new_def sbind_def)
qed

theorem read_64_large_data_refused_witness:
  "adi_read_64 mock_dap 8 1 ((mock_started 64)\<lparr>adi_ap := \<lparr>ma_kind = AmbaAxi5, ma_csw = 0, ma_cfg = 4\<rparr>\<rparr>)
     = (Err (UnsupportedTransferWidth 64), (mock_started 64)\<lparr>adi_ap := \<lparr>ma_kind = AmbaAxi5, ma_csw = 0, ma_cfg = 4\<rparr>\<rparr>)"
  by (rule read_64_large_data_refused) (simp_all add: large_data_def cfg_ld_def bit_simps)

end
