(* ===== verification/Adi_Core.thy ===== *)
theory Adi_Core
  imports Adi_Equal
begin

text \<open>
  The interface a core sees. No operation changes the kind of the AP, so an interface that can
  transfer bytes stays one, and it meets the contract that the users of a memory interface state.
\<close>

subsection \<open>The kind of the AP\<close>

definition same_kind :: "('d, 'a) am \<Rightarrow> bool" where
  "same_kind m \<longleftrightarrow> (\<forall>s. ma_kind (adi_ap (snd (m s))) = ma_kind (adi_ap s))"

lemma same_kindD: "same_kind m \<Longrightarrow> m s = (r, t) \<Longrightarrow> ma_kind (adi_ap t) = ma_kind (adi_ap s)"
  by (metis same_kind_def snd_conv)

lemma same_kind_basic: "same_kind (sret x)" "same_kind (sfail e)" "same_kind (slift q)"
  by (simp_all add: same_kind_def)

lemma same_kind_bind: "same_kind m \<Longrightarrow> (\<And>x. same_kind (f x)) \<Longrightarrow> same_kind (sbind m f)"
  unfolding same_kind_def sbind_def by (auto split: prod.splits res.splits) (metis snd_conv)+

lemma keep_csw_kind: "keep_csw m (ap, d) = (r, ap', d') \<Longrightarrow> ma_kind ap' = ma_kind ap"
  by (auto simp: keep_csw_def split: prod.splits res.splits)

lemma resync_kind: "ma_kind (adi_ap (resync dap s)) = ma_kind (adi_ap s)"
  by (auto simp: resync_def status_def split: prod.splits dest: keep_csw_kind)

lemma on_error_kind: "same_kind m \<Longrightarrow> same_kind (on_error dap m)"
  unfolding same_kind_def on_error_def
  by (auto split: prod.splits res.splits simp: resync_kind) (metis snd_conv)+

lemma try_set_kind: "same_kind (adi_try_set_datasize dap sz)"
proof -
  have "ma_kind ap' = ma_kind ap" if "try_set_datasize dap sz (ap, d) = (r, ap', d')" for ap d r ap' d'
    using that by (cases "ma_kind ap") (auto simp: try_set_datasize_def Let_def split: prod.splits dest: keep_csw_kind)
  then show ?thesis by (auto simp: same_kind_def adi_try_set_datasize_def split: prod.splits)
qed

lemma raw_access_kind: "same_kind (raw_access dap acs)"
  by (auto simp: same_kind_def raw_access_def split: prod.splits)

lemma note_kind: "ma_kind (note_datasize sz ap) = ma_kind ap"
  by (cases "ma_kind ap") (simp_all add: note_datasize_def)

lemma push_datasize_kind: "push_datasize sz (ap, acs) = (r, ap', acs') \<Longrightarrow> ma_kind ap' = ma_kind ap"
  by (auto simp: push_datasize_def note_kind split: res.splits data_size_setup.splits)

lemma push_fixed_kind: "push_fixed_datasize sz (ap, acs) = (r, ap', acs') \<Longrightarrow> ma_kind ap' = ma_kind ap"
  by (cases "push_datasize sz (ap, acs)")
    (auto simp: push_fixed_datasize_def sbind_def dest: push_datasize_kind split: res.splits prod.splits if_splits)

lemma push_piece_kind: "push_piece a w n word (ap, acs) = (r, ap', acs') \<Longrightarrow> ma_kind ap' = ma_kind ap"
  by (cases "push_fixed_datasize (data_size_for w False) (ap, acs)")
    (auto simp: push_piece_def sbind_def push_lowered_def Let_def dest: push_fixed_kind split: res.splits prod.splits if_splits)

lemma push_pieces_kind:
  "sbind (push_piece a1 w1 n1 f1) (\<lambda>_. sbind (push_piece a2 w2 n2 f2) (\<lambda>_. push_piece a3 w3 n3 f3)) (ap, acs) = (r, ap', acs')
     \<Longrightarrow> ma_kind ap' = ma_kind ap"
  unfolding sbind_def by (auto split: res.splits prod.splits dest!: push_piece_kind)

lemma push_byte_write_kind: "push_byte_write a data (ap, acs) = (r, ap', acs') \<Longrightarrow> ma_kind ap' = ma_kind ap"
  unfolding push_byte_write_def Let_def
  by (auto split: res.splits prod.splits if_splits option.splits dest!: push_pieces_kind push_piece_kind)

lemma run_shape_kind: "same_kind (run_shape dap sh word)"
  unfolding same_kind_def
proof
  fix s :: "'a adi"
  obtain r ap acs where p: "push_datasize (data_size_for (sh_width sh) (large_data (adi_ap s))) (adi_ap s, []) = (r, ap, acs)"
    by (metis prod_cases3)
  have k: "same_kind (sbind (if b then sret () else on_error dap (adi_try_set_datasize dap sz))
      (\<lambda>_. on_error dap (raw_access dap xs)))" for b sz xs
    by (intro same_kind_bind on_error_kind raw_access_kind) (simp add: same_kind_basic on_error_kind try_set_kind)
  show "ma_kind (adi_ap (snd (run_shape dap sh word s))) = ma_kind (adi_ap s)"
    using push_datasize_kind [OF p] k [unfolded same_kind_def]
    by (auto simp: run_shape_def p Let_def split: res.splits)
qed

lemma gather_kind: "gather_from dap ops lo s = (r, t) \<Longrightarrow> ma_kind (adi_ap t) = ma_kind (adi_ap s)"
proof (induction ops arbitrary: lo s r t)
  case (Cons op ops)
  show ?case
  proof (cases "kind_shape (op_kind op)")
    case None
    then consider (wr) data where "op_kind op = OpWrite data" | (rd) data where "op_kind op = OpRead data"
      by (cases "op_kind op") auto
    then show ?thesis
    proof cases
      case (wr data)
      obtain q ap acs where p: "push_byte_write (op_address op) data (adi_ap s, lo_accesses lo) = (q, ap, acs)"
        by (metis prod_cases3)
      let ?lo = "lo\<lparr>lo_accesses := acs, lo_spans := lo_spans lo @ [(lo_words lo, 0)]\<rparr>"
      show ?thesis
        using Cons.prems wr p push_byte_write_kind [OF p] Cons.IH [of ?lo "s\<lparr>adi_ap := ap\<rparr>"]
        by (auto split: res.splits)
    next
      case rd
      then show ?thesis using Cons.prems by (simp add: shape_of_def)
    qed
  next
    case (Some wn)
    obtain sh lowered where c: "shape_of (adi_ap s) op = Ok (Some sh) \<and> lower_operation (adi_ap s) (op_kind op) sh = Ok lowered
        \<or> t = s"
      using Cons.prems [unfolded gather_shaped [OF Some refl]] by (auto split: res.splits option.splits)
    show ?thesis
    proof (cases "t = s")
      case False
      let ?sz = "data_size_for (sh_width sh) (large_data (adi_ap s))"
      obtain q ap acs where p: "push_datasize ?sz (adi_ap s, lo_accesses lo) = (q, ap, acs)" by (metis prod_cases3)
      note gs = Cons.prems [unfolded gather_shaped [OF Some refl]]
      consider "q = Ok True" | "q = Ok False" | "q \<noteq> Ok True" "q \<noteq> Ok False" by blast
      then show ?thesis
      proof cases
        case 1
        then have "gather_from dap ops (join (op_kind op) sh lowered (lo\<lparr>lo_accesses := acs\<rparr>)) (s\<lparr>adi_ap := ap\<rparr>) = (r, t)"
          using gs c False p by simp
        from Cons.IH [OF this] push_datasize_kind [OF p] show ?thesis by simp
      next
        case 2
        have "same_kind (gather_from dap ops lo')" for lo'
          unfolding same_kind_def by (metis Cons.IH prod.collapse)
        then have k: "same_kind (sbind (adi_try_set_datasize dap ?sz)
            (\<lambda>_. gather_from dap ops (join (op_kind op) sh lowered (lo\<lparr>lo_accesses := acs\<rparr>))))"
          by (intro same_kind_bind try_set_kind)
        show ?thesis
          using gs c False p 2 push_datasize_kind [OF p] same_kindD [OF k, of "s\<lparr>adi_ap := ap\<rparr>" r t]
          by (auto split: if_splits)
      next
        case 3
        then show ?thesis
          using gs c False p push_datasize_kind [OF p] by (auto split: res.splits bool.splits)
      qed
    qed simp
  qed
qed simp

lemma reads_kind: "same_kind (adi_read_32 dap a n)" "same_kind (adi_read_8 dap a n)" "same_kind (adi_read_16 dap a n)"
  "same_kind (adi_read_64 dap a n)"
proof -
  have b: "same_kind (sbind (run_shape dap sh word) (\<lambda>ws. slift (f ws)))" for sh word f
    by (intro same_kind_bind run_shape_kind same_kind_basic)
  show "same_kind (adi_read_32 dap a n)" "same_kind (adi_read_64 dap a n)"
    unfolding adi_read_32_def adi_read_64_def run_read_def using b by (auto simp: run_shape_kind same_kind_basic)
  show "same_kind (adi_read_8 dap a n)" "same_kind (adi_read_16 dap a n)"
    using b unfolding same_kind_def adi_read_8_def adi_read_16_def run_read_def by auto
qed

lemma writes_kind: "same_kind (adi_write_32 dap a xs)" "same_kind (adi_write_8 dap a ys)" "same_kind (adi_write_16 dap a zs)"
  "same_kind (adi_write_64 dap a us)"
proof -
  have b: "same_kind (run_write dap sh word)" for sh word
    unfolding run_write_def by (intro same_kind_bind run_shape_kind same_kind_basic)
  show "same_kind (adi_write_32 dap a xs)" "same_kind (adi_write_64 dap a us)"
    unfolding adi_write_32_def adi_write_64_def using b by (auto simp: same_kind_basic)
  show "same_kind (adi_write_8 dap a ys)" "same_kind (adi_write_16 dap a zs)"
    using b unfolding same_kind_def adi_write_8_def adi_write_16_def by (auto simp: Let_def)
qed

lemma read_kind: "same_kind (adi_read dap a n)"
proof -
  have r: "same_kind (read_mem_32bit (adi_prims dap) x k)" for x k
    unfolding read_mem_32bit_def by (auto simp: adi_prims_def intro!: same_kind_bind same_kind_basic reads_kind)
  have "same_kind (sbind (read_mem_32bit (adi_prims dap) x k) (\<lambda>b. slift (f b)))"
    for x k and f :: "u8 list \<Rightarrow> (arm_error, u8 list) res"
    by (intro same_kind_bind r same_kind_basic)
  moreover have "mi_read_8 (adi_prims dap) = adi_read_8 dap" by (simp add: adi_prims_def)
  ultimately show ?thesis
    using r reads_kind(2) [of dap a n] unfolding same_kind_def adi_read_def default_read_def by (simp add: Let_def)
qed

lemma run_from_kind: "run_from dap start ops s = (r, ops', t) \<Longrightarrow> ma_kind (adi_ap t) = ma_kind (adi_ap s)"
proof (induction "length ops" arbitrary: start ops s r ops' rule: less_induct)
  case less
  show ?case
  proof (cases ops)
    case Nil
    then show ?thesis using less.prems by simp
  next
    case (Cons op rest)
    show ?thesis
    proof (cases "\<exists>d. op_kind op = OpRead d")
      case True
      then obtain d where d: "op_kind op = OpRead d" by blast
      obtain q s1 where q: "adi_read dap (op_address op) (length d) s = (q, s1)" by fastforce
      have s1: "ma_kind (adi_ap s1) = ma_kind (adi_ap s)" by (rule same_kindD [OF read_kind q])
      show ?thesis
      proof (cases "\<exists>bytes. q = Ok bytes")
        case True
        then obtain r' more where "run_from dap (start + 1) rest s1 = (r', more, t)"
          using less.prems Cons d q by (auto split: prod.splits)
        from less.hyps [OF _ this] s1 Cons show ?thesis by simp
      next
        case False
        then show ?thesis using less.prems Cons d q s1 by (auto split: res.splits)
      qed
    next
      case False
      note rf = less.prems [unfolded Cons run_from_other [OF False refl]]
      obtain g s1 where g: "on_error dap (gather dap (op # rest)) s = (g, s1)" by fastforce
      have "same_kind (gather dap (op # rest))"
        using gather_kind unfolding same_kind_def gather_def by (metis prod.collapse)
      then have s1: "ma_kind (adi_ap s1) = ma_kind (adi_ap s)" using same_kindD [OF on_error_kind g] by blast
      show ?thesis
      proof (cases "\<exists>lo. g = Ok lo \<and> lo_spans lo \<noteq> []")
        case True
        then obtain lo where lo: "g = Ok lo" "lo_spans lo \<noteq> []" by blast
        let ?n = "length (lo_spans lo)"
        obtain a s2 where a: "on_error dap (raw_access dap (lo_accesses lo)) s1 = (a, s2)" by fastforce
        have s2: "ma_kind (adi_ap s2) = ma_kind (adi_ap s1)"
          by (rule same_kindD [OF on_error_kind [OF raw_access_kind] a])
        show ?thesis
        proof (cases "\<exists>vals batch. a = Ok vals \<and> scatter_all vals (take ?n (op # rest)) (lo_spans lo) = Ok batch")
          case True
          then obtain r' more where m: "run_from dap (start + ?n) (drop ?n ops) s2 = (r', more, t)"
            using rf g lo a Cons by (auto simp: Let_def split: prod.splits)
          have shorter: "length (drop ?n ops) < length ops" using lo(2) Cons by simp
          show ?thesis using less.hyps [OF shorter m] s1 s2 by simp
        next
          case False
          then show ?thesis using rf g lo a s1 s2 by (auto simp: Let_def split: res.splits)
        qed
      next
        case False
        then show ?thesis using rf g s1 by (auto simp: Let_def split: res.splits)
      qed
    qed
  qed
qed

subsection \<open>The contract of the memory interface\<close>

lemma same_only: "ma_kind ap = ma_kind ap' \<Longrightarrow> only_32bit ap = only_32bit ap'"
  by (simp add: only_32bit_def)

lemma reads_as_wide:
  assumes "reads_as ready content limit n rd" "\<And>a k. same_kind (rd a k)"
  shows "reads_as (\<lambda>s. ready s \<and> \<not> only_32bit (adi_ap s)) content limit n rd"
  using assms(1) same_only same_kindD [OF assms(2)] unfolding reads_as_def by blast

lemma writes_as_wide:
  assumes "writes_as ready content limit n wr" "\<And>a k. same_kind (wr a k)"
  shows "writes_as (\<lambda>s. ready s \<and> \<not> only_32bit (adi_ap s)) content limit n wr"
  using assms(1) same_only same_kindD [OF assms(2)] unfolding writes_as_def by blast

definition mock_wide :: "16 word \<Rightarrow> mock_ap adi \<Rightarrow> bool" where
  "mock_wide k s \<longleftrightarrow> adi_ready False (mock_view (mock_limit k)) s \<and> \<not> only_32bit (adi_ap s)"

lemma write_kind: "same_kind (adi_write dap a data)"
  unfolding same_kind_def
proof
  fix s :: "'a adi"
  obtain r ops t where "run_from dap 0 [operation_new a (OpWrite data) :: arm_error operation] s = (r, ops, t)"
    by (metis prod_cases3)
  from run_from_kind [OF this] this show "ma_kind (adi_ap (snd (adi_write dap a data s))) = ma_kind (adi_ap s)"
    by (auto simp: adi_write_def run_operations_def split: res.splits)
qed

interpretation mock_core: flat_interface "adi_interface mock_dap" "mock_wide k" "adi_content mock_mem" "mock_limit k" for k
proof -
  have fields: "mi_read_8 (adi_interface mock_dap) = adi_read_8 mock_dap" "mi_read_16 (adi_interface mock_dap) = adi_read_16 mock_dap"
    "mi_read_32 (adi_interface mock_dap) = adi_read_32 mock_dap" "mi_read_64 (adi_interface mock_dap) = adi_read_64 mock_dap"
    "mi_write_8 (adi_interface mock_dap) = adi_write_8 mock_dap" "mi_write_16 (adi_interface mock_dap) = adi_write_16 mock_dap"
    "mi_write_32 (adi_interface mock_dap) = adi_write_32 mock_dap" "mi_write_64 (adi_interface mock_dap) = adi_write_64 mock_dap"
    "mi_read (adi_interface mock_dap) = adi_read mock_dap" "mi_write (adi_interface mock_dap) = adi_write mock_dap"
    by (simp_all add: adi_interface_def adi_prims_def memory_prims.defs)
  have wide: "mock_wide k = (\<lambda>s. adi_ready False (mock_view (mock_limit k)) s \<and> \<not> only_32bit (adi_ap s))"
    by (simp add: fun_eq_iff mock_wide_def)
  show "flat_interface (adi_interface mock_dap) (mock_wide k) (adi_content mock_mem) (mock_limit k)"
    unfolding wide
  proof (unfold_locales, unfold fields)
    show "4 dvd mock_limit k" by (rule mock.limit_aligned)
  qed (rule reads_as_wide [OF mock.r8_law reads_kind(2)] reads_as_wide [OF mock.r16_law reads_kind(3)]
      reads_as_wide [OF mock.r32_law reads_kind(1)] reads_as_wide [OF mock.r64_law reads_kind(4)]
      writes_as_wide [OF mock.w_laws(1) writes_kind(2)] writes_as_wide [OF mock.w_laws(2) writes_kind(3)]
      writes_as_wide [OF mock.w_laws(3) writes_kind(1)] writes_as_wide [OF mock.w_laws(4) writes_kind(4)]
      reads_as_wide [OF mock.adi_read_law read_kind] writes_as_wide [OF mock.adi_write_law write_kind])+
qed

lemma exec_mock_law:
  assumes "mock_wide k s" "\<forall>op \<in> set ops. op_address op + op_bytes (op_kind op) \<le> mock_limit k"
    and "adi_execute_memory_operations mock_dap ops s = (Ok ops', t)" "\<forall>op \<in> set ops'. no_error op"
  shows "mock_wide k t \<and> (ops', adi_content mock_mem t) = flat_ops ops (adi_content mock_mem s)"
proof -
  obtain r us u where r: "run_from mock_dap 0 ops s = (r, us, u)" by (metis prod_cases3)
  have s: "adi_ready False (mock_view (mock_limit k)) s" "\<not> only_32bit (adi_ap s)" using assms(1) by (simp_all add: mock_wide_def)
  from mock.run_from_flat [OF r s(1) assms(2)]
  have out: "ops_outcome 0 ops (adi_content mock_mem s) r us (adi_content mock_mem u)"
    "is_ok r \<longrightarrow> adi_ready False (mock_view (mock_limit k)) u" by simp_all
  show ?thesis
  proof (cases r)
    case (Ok x)
    then have "ops' = us" "t = u" using assms(3) r by (simp_all add: adi_execute_memory_operations_def run_operations_def)
    then show ?thesis
      using out Ok s(2) same_only [OF run_from_kind [OF r]] by (simp add: mock_wide_def)
  next
    case (Err ie)
    obtain i e where ie: "ie = (i, e)" by (cases ie)
    have i: "i < length ops" "us = fst (flat_ops (take i ops) (adi_content mock_mem s)) @ drop i ops"
      using out(1) Err ie by simp_all
    have "ops' = us[i := (us ! i)\<lparr>op_result := Some (Err e)\<rparr>]"
      using assms(3) r Err ie by (simp add: adi_execute_memory_operations_def run_operations_def)
    moreover have "i < length us" using i by simp
    ultimately have "(us ! i)\<lparr>op_result := Some (Err e)\<rparr> \<in> set ops'" by (simp add: set_update_memI)
    then show ?thesis using assms(4) by (fastforce simp: no_error_def)
  next
    case Panic
    then show ?thesis using assms(3) r by (simp add: adi_execute_memory_operations_def run_operations_def)
  qed
qed

lemma exec_mock_ok:
  assumes "mock_wide k s" "\<forall>op \<in> set ops. plain_op (mock_limit k) op"
  shows "\<exists>ops' t. adi_execute_memory_operations mock_dap ops s = (Ok ops', t) \<and> (\<forall>op \<in> set ops'. no_error op)"
proof -
  have s: "adi_ready False (mock_view (mock_limit k)) s" "\<not> only_32bit (adi_ap s)" using assms(1) by (simp_all add: mock_wide_def)
  have "op_feasible False (mock_limit k) op" if "plain_op (mock_limit k) op" for op :: "arm_error operation"
    using that by (cases "op_kind op") (simp_all add: plain_op_def op_feasible_def)
  then have "\<forall>op \<in> set ops. op_feasible (only_32bit (adi_ap s)) (mock_limit k) op" using s(2) assms(2) by simp
  then obtain ops' t where r: "run_from mock_dap 0 ops s = (Ok (), ops', t)" using mock.run_from_total [OF s(1)] by blast
  have "\<forall>op \<in> set ops. op_address op + op_bytes (op_kind op) \<le> mock_limit k" using assms(2) by (simp add: plain_op_def)
  from mock.run_from_flat [OF r s(1) this] have "ops' = fst (flat_ops ops (adi_content mock_mem s))" by simp (metis fst_conv)
  then have "\<forall>op \<in> set ops'. no_error op"
    using flat_ops_done [of _ ops "adi_content mock_mem s"] by (simp add: no_error_def)
  then show ?thesis using r by (simp add: adi_execute_memory_operations_def run_operations_def)
qed

interpretation mock_core: answering_interface "adi_interface mock_dap" "mock_wide k" "adi_content mock_mem" "mock_limit k"
  "adi_execute_memory_operations mock_dap" for k
proof unfold_locales
  show "mock_wide k t \<and> (ops', adi_content mock_mem t) = flat_ops ops (adi_content mock_mem s)"
    if "mock_wide k s" "\<forall>op \<in> set ops. op_address op + op_bytes (op_kind op) \<le> mock_limit k"
      "adi_execute_memory_operations mock_dap ops s = (Ok ops', t)" "\<forall>op \<in> set ops'. no_error op" for s ops ops' t
    by (rule exec_mock_law [OF that])
next
  fix s :: "mock_ap adi" assume s: "mock_wide k s"
  then have r: "adi_ready False (mock_view (mock_limit k)) s" "\<not> only_32bit (adi_ap s)" by (simp_all add: mock_wide_def)
  show "\<exists>ws t. mi_read_32 (adi_interface mock_dap) a n s = (Ok ws, t)" if "4 dvd a" "a + 4 * n \<le> mock_limit k" for a n
    using mock.read_32_total [OF r(1) that] by (auto simp: adi_interface_def adi_prims_def memory_prims.defs)
  show "\<exists>t. mi_write_32 (adi_interface mock_dap) a ws s = (Ok (), t)" if "4 dvd a" "a + 4 * length ws \<le> mock_limit k" for a ws
    using mock.run_shape_total [OF r(1), of "shape_new a WU32 (length ws)" "plain_words ws"] that
    by (auto simp: adi_interface_def adi_prims_def memory_prims.defs adi_write_32_def run_write_def shape_new_def
        sbind_def mult.commute)
  show "\<exists>bs t. mi_read (adi_interface mock_dap) a n s = (Ok bs, t)" if "a + n \<le> mock_limit k" for a n
    using mock.read_total [OF r(1) that] by (auto simp: adi_interface_def adi_prims_def memory_prims.defs)
  show "\<exists>t. mi_write (adi_interface mock_dap) a bs s = (Ok (), t)" if "a + length bs \<le> mock_limit k" for a bs
  proof -
    let ?op = "operation_new a (OpWrite bs) :: arm_error operation"
    have "\<forall>op \<in> set [?op]. op_feasible (only_32bit (adi_ap s)) (mock_limit k) op"
      using that r(2) by (simp add: op_feasible_def operation_new_def)
    then obtain ops' t where "run_from mock_dap 0 [?op] s = (Ok (), ops', t)" using mock.run_from_total [OF r(1)] by blast
    then show ?thesis by (simp add: adi_interface_def adi_prims_def memory_prims.defs adi_write_def run_operations_def)
  qed
  show "\<exists>ops' t. adi_execute_memory_operations mock_dap ops s = (Ok ops', t) \<and> (\<forall>op \<in> set ops'. no_error op)"
    if "\<forall>op \<in> set ops. plain_op (mock_limit k) op" for ops
    by (rule exec_mock_ok [OF s that])
qed

end
