(* ===== verification/Rtt_Channel.thy ===== *)
theory Rtt_Channel
  imports Target_Memory Adi_Core
begin

text \<open>
  The channels of the RTT protocol (probe-rs/src/rtt/channel.rs): ring buffers in the memory of the
  target, which the target and the debugger access through their write and read offsets. The
  memory is any interface with a batch operation; what is proved holds when it behaves as a flat
  memory. A channel name is kept as its bytes, which the code decodes with replacement of what is
  not UTF-8.
\<close>

datatype corruption =
    BufferPastEnd nat nat
  | PointerTooLarge string nat nat
  | NameNotInRegion nat
  | ModeFlags nat
  | ArraySizes nat nat nat

datatype 'e rtt_error =
    NoControlBlockLocation
  | ControlBlockNotFound
  | MultipleControlBlocksFound "nat list"
  | ControlBlockCorrupted corruption
  | BufferNotReachable nat nat nat
  | IncorrectCoreSpecified nat nat
  | Probe 'e
  | MemoryRead string
  | Other string
  | ReadPointerChanged
  | MissingChannel nat

subsection \<open>The descriptor of a channel\<close>

record rtt_inner =
  ri_name_pointer :: nat
  ri_buffer_start :: nat
  ri_size :: nat
  ri_write :: nat
  ri_read :: nat
  ri_flags :: nat

datatype rtt_buffer = Buffer32 rtt_inner | Buffer64 rtt_inner

text \<open>The offsets of the fields behind the two pointers.\<close>

fun write_ptr_offset :: "rtt_buffer \<Rightarrow> nat" where
  "write_ptr_offset (Buffer32 x) = 12"
| "write_ptr_offset (Buffer64 x) = 20"

fun read_ptr_offset :: "rtt_buffer \<Rightarrow> nat" where
  "read_ptr_offset (Buffer32 x) = 16"
| "read_ptr_offset (Buffer64 x) = 24"

fun flags_offset :: "rtt_buffer \<Rightarrow> nat" where
  "flags_offset (Buffer32 x) = 20"
| "flags_offset (Buffer64 x) = 28"

fun rtt_buffer_size :: "rtt_buffer \<Rightarrow> nat" where
  "rtt_buffer_size (Buffer32 x) = 24"
| "rtt_buffer_size (Buffer64 x) = 32"

fun buffer_inner :: "rtt_buffer \<Rightarrow> rtt_inner" where
  "buffer_inner (Buffer32 x) = x"
| "buffer_inner (Buffer64 x) = x"

definition buffer_start_pointer :: "rtt_buffer \<Rightarrow> nat" where
  "buffer_start_pointer b = ri_buffer_start (buffer_inner b)"

definition standard_name_pointer :: "rtt_buffer \<Rightarrow> nat option" where
  "standard_name_pointer b =
     (if ri_name_pointer (buffer_inner b) = 0 then None else Some (ri_name_pointer (buffer_inner b)))"

definition size_of_buffer :: "rtt_buffer \<Rightarrow> nat" where
  "size_of_buffer b = ri_size (buffer_inner b)"

text \<open>The write and the read offset as they are in memory.\<close>

definition read_buffer_offsets ::
  "('s, 'e) memory_interface \<Rightarrow> rtt_buffer \<Rightarrow> nat \<Rightarrow> ('s, 'e rtt_error, nat \<times> nat) rsm" where
  "read_buffer_offsets m b ptr =
     sbind (slift (add64 ptr (write_ptr_offset b))) (\<lambda>a.
     sbind (map_err Probe (mi_read_32 m a 2)) (\<lambda>block.
       slift (rbind (nth_r block 0) (\<lambda>w. rbind (nth_r block 1) (\<lambda>r. Ok (unat w, unat r))))))"

definition to_u32 :: "nat \<Rightarrow> ('e, u32) res" where
  "to_u32 n = (if n < 2 ^ 32 then Ok (of_nat n) else Panic)"

definition write_write_buffer_ptr ::
  "('s, 'e) memory_interface \<Rightarrow> rtt_buffer \<Rightarrow> nat \<Rightarrow> nat \<Rightarrow> ('s, 'e rtt_error, unit) rsm" where
  "write_write_buffer_ptr m b ptr buffer_ptr =
     sbind (slift (add64 ptr (write_ptr_offset b))) (\<lambda>a.
       case b of
         Buffer32 _ \<Rightarrow> sbind (slift (to_u32 buffer_ptr)) (\<lambda>v. map_err Probe (write_word_32 m a v))
       | Buffer64 _ \<Rightarrow> map_err Probe (write_word_64 m a (of_nat buffer_ptr)))"

definition write_read_buffer_ptr_operation ::
  "rtt_buffer \<Rightarrow> nat \<Rightarrow> nat \<Rightarrow> ('e rtt_error, 'e operation) res" where
  "write_read_buffer_ptr_operation b ptr buffer_ptr =
     rbind (add64 ptr (read_ptr_offset b)) (\<lambda>a.
       case b of
         Buffer32 _ \<Rightarrow> rmap (\<lambda>v. operation_new a (OpWriteWord32 v)) (to_u32 buffer_ptr)
       | Buffer64 _ \<Rightarrow> Ok (operation_new a (OpWriteWord64 (of_nat buffer_ptr))))"

definition read_flags :: "('s, 'e) memory_interface \<Rightarrow> rtt_buffer \<Rightarrow> nat \<Rightarrow> ('s, 'e rtt_error, u64) rsm" where
  "read_flags m b ptr =
     sbind (slift (add64 ptr (flags_offset b))) (\<lambda>a.
     sbind (map_err Probe (read_word_32 m a)) (\<lambda>w. sret (ucast w)))"

definition write_flags ::
  "('s, 'e) memory_interface \<Rightarrow> rtt_buffer \<Rightarrow> nat \<Rightarrow> u64 \<Rightarrow> ('s, 'e rtt_error, unit) rsm" where
  "write_flags m b ptr flags =
     sbind (slift (add64 ptr (flags_offset b))) (\<lambda>a.
     sbind (slift (to_u32 (unat flags))) (\<lambda>v. map_err Probe (write_word_32 m a v)))"

subsection \<open>Modes\<close>

datatype channel_mode = NoBlockSkip | NoBlockTrim | BlockIfFull

fun mode_bits :: "channel_mode \<Rightarrow> u64" where
  "mode_bits NoBlockSkip = 0"
| "mode_bits NoBlockTrim = 1"
| "mode_bits BlockIfFull = 2"

definition mode_set :: "channel_mode \<Rightarrow> u64 \<Rightarrow> u64" where
  "mode_set mode flags = (flags AND NOT 3) OR mode_bits mode"

definition mode_of :: "u64 \<Rightarrow> ('e rtt_error, channel_mode) res" where
  "mode_of v =
     (if v = 0 then Ok NoBlockSkip else if v = 1 then Ok NoBlockTrim else if v = 2 then Ok BlockIfFull
      else Err (ControlBlockCorrupted (ModeFlags (unat v))))"

subsection \<open>Channels\<close>

record channel =
  ch_number :: nat
  ch_name :: "u8 list option"
  ch_metadata :: nat
  ch_info :: rtt_buffer
  ch_last_read :: "nat option"

definition ch_mode :: "('s, 'e) memory_interface \<Rightarrow> channel \<Rightarrow> ('s, 'e rtt_error, channel_mode) rsm" where
  "ch_mode m ch = sbind (read_flags m (ch_info ch) (ch_metadata ch)) (\<lambda>flags. slift (mode_of (flags AND 3)))"

definition ch_set_mode ::
  "('s, 'e) memory_interface \<Rightarrow> channel \<Rightarrow> channel_mode \<Rightarrow> ('s, 'e rtt_error, unit) rsm" where
  "ch_set_mode m ch mode =
     sbind (read_flags m (ch_info ch) (ch_metadata ch)) (\<lambda>flags.
       write_flags m (ch_info ch) (ch_metadata ch) (mode_set mode flags))"

definition validate_pointer :: "channel \<Rightarrow> string \<Rightarrow> nat \<Rightarrow> ('e rtt_error, unit) res" where
  "validate_pointer ch which v =
     (if v \<ge> size_of_buffer (ch_info ch)
      then Err (ControlBlockCorrupted (PointerTooLarge which v (size_of_buffer (ch_info ch)))) else Ok ())"

definition read_pointers :: "('s, 'e) memory_interface \<Rightarrow> channel \<Rightarrow> ('s, 'e rtt_error, nat \<times> nat) rsm" where
  "read_pointers m ch =
     sbind (read_buffer_offsets m (ch_info ch) (ch_metadata ch)) (\<lambda>(w, r).
     sbind (slift (validate_pointer ch ''write'' w)) (\<lambda>_.
     sbind (slift (validate_pointer ch ''read'' r)) (\<lambda>_. sret (w, r))))"

text \<open>The bytes before the first NUL, if there is one.\<close>

definition until_nul :: "u8 list \<Rightarrow> u8 list option" where
  "until_nul bs = (if 0 \<in> set bs then Some (takeWhile (\<lambda>b. b \<noteq> 0) bs) else None)"

fun read_bytes_to_nul :: "('s, 'e) memory_interface \<Rightarrow> nat \<Rightarrow> nat \<Rightarrow> ('s, 'e rtt_error, u8 list) rsm" where
  "read_bytes_to_nul m a 0 = sret []"
| "read_bytes_to_nul m a (Suc n) =
     sbind (slift (if a < 2 ^ 64 then Ok a else Panic)) (\<lambda>a.
     sbind (map_err Probe (read_word_8 m a)) (\<lambda>b.
       if b = 0 then sret [b] else sbind (read_bytes_to_nul m (a + 1) n) (\<lambda>bs. sret (b # bs))))"

definition read_c_string ::
  "('s, 'e) memory_interface \<Rightarrow> memory_region list \<Rightarrow> nat \<Rightarrow> ('s, 'e rtt_error, u8 list option) rsm" where
  "read_c_string m regions ptr =
     (if regions = [] then sbind (read_bytes_to_nul m ptr 128) (\<lambda>bytes. sret (until_nul bytes))
      else
        (case find (\<lambda>r. region_contains r ptr) (filter (\<lambda>r. is_ram r \<or> is_nvm r) regions) of
           None \<Rightarrow> sfail (ControlBlockCorrupted (NameNotInRegion ptr))
         | Some r \<Rightarrow>
             sbind (map_err Probe (mi_read m ptr (min 128 (rend (address_range r) - ptr)))) (\<lambda>bytes.
               sret (until_nul bytes))))"

definition buffer_in_ram :: "memory_region list \<Rightarrow> nat \<Rightarrow> nat \<Rightarrow> bool" where
  "buffer_in_ram regions start past_end =
     list_ex (\<lambda>rr. in_range (rr_range rr) start \<and> past_end \<le> rend (rr_range rr)) (merge_consecutive (ram_regions regions))"

definition check_reachable :: "memory_region list \<Rightarrow> nat \<Rightarrow> nat \<Rightarrow> nat \<Rightarrow> ('e rtt_error, unit) res" where
  "check_reachable regions number start sz =
     (if regions = [] then Ok ()
      else
        (case checked_add64 start sz of
           None \<Rightarrow> Err (ControlBlockCorrupted (BufferPastEnd start sz))
         | Some past_end \<Rightarrow>
             if buffer_in_ram regions start past_end then Ok () else Err (BufferNotReachable number start sz)))"

definition channel_from ::
  "('s, 'e) memory_interface \<Rightarrow> memory_region list \<Rightarrow> nat \<Rightarrow> nat \<Rightarrow> rtt_buffer
     \<Rightarrow> ('s, 'e rtt_error, channel option) rsm" where
  "channel_from m regions number metadata info =
     (if buffer_start_pointer info = 0 then sret None
      else
        sbind (slift (check_reachable regions number (buffer_start_pointer info) (size_of_buffer info))) (\<lambda>_.
        let this = \<lparr>ch_number = number, ch_name = None, ch_metadata = metadata, ch_info = info, ch_last_read = None\<rparr> in
        sbind (read_pointers m this) (\<lambda>_.
        sbind (case standard_name_pointer info of
                 Some ptr \<Rightarrow> read_c_string m regions ptr
               | None \<Rightarrow> sret None) (\<lambda>name.
        sbind (ch_mode m (this\<lparr>ch_name := name\<rparr>)) (\<lambda>_. sret (Some (this\<lparr>ch_name := name\<rparr>)))))))"

subsection \<open>Reading from an up channel\<close>

definition readable_contiguous :: "channel \<Rightarrow> nat \<Rightarrow> nat \<Rightarrow> ('e, nat) res" where
  "readable_contiguous ch write read = sub_r (if read > write then size_of_buffer (ch_info ch) else write) read"

text \<open>The reads that fill a buffer, and the read offset after them.\<close>

function up_reads ::
  "channel \<Rightarrow> nat \<Rightarrow> nat \<Rightarrow> u8 list \<Rightarrow> ('e rtt_error, 'e operation list \<times> nat) res" where
  "up_reads ch write read buf =
     (if buf = [] then Ok ([], read)
      else
        (case readable_contiguous ch write read of
           Ok readable \<Rightarrow>
             (let count = min readable (length buf) in
              if count = 0 then Ok ([], read)
              else
                rbind (add64 (buffer_start_pointer (ch_info ch)) read) (\<lambda>a.
                rmap (\<lambda>(ops, r). (operation_new a (OpRead (take count buf)) # ops, r))
                  (up_reads ch write (if read + count \<ge> size_of_buffer (ch_info ch) then 0 else read + count)
                     (drop count buf))))
         | Err e \<Rightarrow> Err e
         | Panic \<Rightarrow> Panic))"
  by pat_completeness auto
termination
  by (relation "measure (\<lambda>(ch, write, read, buf). length buf)") auto

declare up_reads.simps [simp del]

fun read_part :: "'e operation \<Rightarrow> u8 list" where
  "read_part op = (case op_kind op of OpRead d \<Rightarrow> d | _ \<Rightarrow> [])"

definition read_parts :: "'e operation list \<Rightarrow> u8 list" where
  "read_parts ops = concat (map read_part ops)"

text \<open>The first failure among the results of a batch.\<close>

fun first_failure :: "'e operation list \<Rightarrow> ('e rtt_error, unit) res" where
  "first_failure [] = Ok ()"
| "first_failure (op # ops) =
     (case op_result op of
        Some (Err e) \<Rightarrow> Err (Probe e)
      | Some Panic \<Rightarrow> Panic
      | _ \<Rightarrow> first_failure ops)"

definition read_core ::
  "('s, 'e) memory_interface \<Rightarrow> ('e operation list \<Rightarrow> ('s, 'e, 'e operation list) rsm) \<Rightarrow> bool \<Rightarrow> channel \<Rightarrow> u8 list
     \<Rightarrow> ('s, 'e rtt_error, nat \<times> u8 list \<times> channel) rsm" where
  "read_core m exec consume ch buf =
     sbind (read_pointers m ch) (\<lambda>(write, read).
       if ch_last_read ch \<noteq> None \<and> ch_last_read ch \<noteq> Some read then sfail ReadPointerChanged
       else
         sbind (slift (up_reads ch write read buf)) (\<lambda>(ops, read).
         let amount = length (read_parts ops) in
         sbind (slift (if consume \<and> amount > 0
                       then rmap (\<lambda>op. ops @ [op]) (write_read_buffer_ptr_operation (ch_info ch) (ch_metadata ch) read)
                       else Ok ops)) (\<lambda>ops.
         sbind (map_err Probe (exec ops)) (\<lambda>ops.
         sbind (slift (first_failure ops)) (\<lambda>_.
           sret (amount, read_parts ops @ drop amount buf,
                 if consume then ch\<lparr>ch_last_read := Some read\<rparr> else ch))))))"

definition up_read ::
  "('s, 'e) memory_interface \<Rightarrow> ('e operation list \<Rightarrow> ('s, 'e, 'e operation list) rsm) \<Rightarrow> channel \<Rightarrow> u8 list
     \<Rightarrow> ('s, 'e rtt_error, nat \<times> u8 list \<times> channel) rsm" where
  "up_read m exec = read_core m exec True"

definition up_peek ::
  "('s, 'e) memory_interface \<Rightarrow> ('e operation list \<Rightarrow> ('s, 'e, 'e operation list) rsm) \<Rightarrow> channel \<Rightarrow> u8 list
     \<Rightarrow> ('s, 'e rtt_error, nat \<times> u8 list \<times> channel) rsm" where
  "up_peek m exec = read_core m exec False"

subsection \<open>Writing to a down channel\<close>

definition writable_contiguous :: "channel \<Rightarrow> nat \<Rightarrow> nat \<Rightarrow> ('e, nat) res" where
  "writable_contiguous ch write read =
     (if read > write then rbind (sub_r read write) (\<lambda>d. sub_r d 1)
      else if read = 0 then rbind (sub_r (size_of_buffer (ch_info ch)) write) (\<lambda>d. sub_r d 1)
      else sub_r (size_of_buffer (ch_info ch)) write)"

function down_writes ::
  "('s, 'e) memory_interface \<Rightarrow> channel \<Rightarrow> nat \<Rightarrow> nat \<Rightarrow> u8 list \<Rightarrow> nat \<Rightarrow> ('s, 'e rtt_error, nat \<times> nat) rsm" where
  "down_writes m ch read write buf amount s =
     (if buf = [] then (Ok (amount, write), s)
      else
        (case writable_contiguous ch write read of
           Ok writable \<Rightarrow>
             (let count = min writable (length buf) in
              if count = 0 then (Ok (amount, write), s)
              else
                (case sbind (slift (add64 (buffer_start_pointer (ch_info ch)) write))
                        (\<lambda>a. map_err Probe (mi_write m a (take count buf))) s of
                   (Ok _, s) \<Rightarrow>
                     down_writes m ch read (if write + count \<ge> size_of_buffer (ch_info ch) then 0 else write + count)
                       (drop count buf) (amount + count) s
                 | (Err e, s) \<Rightarrow> (Err e, s)
                 | (Panic, s) \<Rightarrow> (Panic, s)))
         | Err e \<Rightarrow> (Err e, s)
         | Panic \<Rightarrow> (Panic, s)))"
  by pat_completeness auto
termination
  by (relation "measure (\<lambda>(m, ch, read, write, buf, amount, s). length buf)") auto

declare down_writes.simps [simp del]

definition down_write ::
  "('s, 'e) memory_interface \<Rightarrow> channel \<Rightarrow> u8 list \<Rightarrow> ('s, 'e rtt_error, nat) rsm" where
  "down_write m ch buf =
     sbind (read_pointers m ch) (\<lambda>(write, read).
     sbind (down_writes m ch read write buf 0) (\<lambda>(amount, write).
     sbind (write_write_buffer_ptr m (ch_info ch) (ch_metadata ch) write) (\<lambda>_. sret amount)))"

end
