(* ===== verification/Rtt_Block.thy ===== *)
theory Rtt_Block
  imports Rtt_Channel
begin

text \<open>
  The RTT control block (probe-rs/src/rtt.rs): its header and channel descriptors, attaching to a
  control block at an address, scanning memory for one and clearing a stale one. The words of a
  buffer are laid out as bytes the way a little-endian host does. Whether the allocator places the
  buffer of the descriptors at a multiple of eight is a parameter: the zero-copy cast to 64-bit
  descriptors asks for it.
\<close>

subsection \<open>The header\<close>

record rtt_header_inner =
  rh_id :: "u8 list"
  rh_max_up :: nat
  rh_max_down :: nat

datatype rtt_header = Header32 rtt_header_inner | Header64 rtt_header_inner

definition minimal_header_size :: nat where
  "minimal_header_size = 24"

fun header_inner :: "rtt_header \<Rightarrow> rtt_header_inner" where
  "header_inner (Header32 x) = x"
| "header_inner (Header64 x) = x"

definition read_header_inner :: "u8 list \<Rightarrow> rtt_header_inner option" where
  "read_header_inner mem =
     (if length mem < minimal_header_size then None
      else Some \<lparr>rh_id = take 16 mem, rh_max_up = unat (from_le (take 4 (drop 16 mem)) :: u32),
                 rh_max_down = unat (from_le (take 4 (drop 20 mem)) :: u32)\<rparr>)"

definition try_from_header :: "bool \<Rightarrow> u8 list \<Rightarrow> rtt_header option" where
  "try_from_header is_64_bit mem =
     (if is_64_bit then map_option Header64 (read_header_inner mem)
      else map_option Header32 (read_header_inner mem))"

definition header_size :: "rtt_header \<Rightarrow> nat" where
  "header_size h = 24"

definition header_id :: "rtt_header \<Rightarrow> u8 list" where
  "header_id h = rh_id (header_inner h)"

definition max_up_channels :: "rtt_header \<Rightarrow> nat" where
  "max_up_channels h = rh_max_up (header_inner h)"

definition max_down_channels :: "rtt_header \<Rightarrow> nat" where
  "max_down_channels h = rh_max_down (header_inner h)"

fun channel_buffer_size :: "rtt_header \<Rightarrow> nat" where
  "channel_buffer_size (Header32 x) = 24"
| "channel_buffer_size (Header64 x) = 32"

definition total_rtt_buffer_size :: "rtt_header \<Rightarrow> nat" where
  "total_rtt_buffer_size h = header_size h + channel_buffer_size h * (max_up_channels h + max_down_channels h)"

subsection \<open>The descriptors\<close>

definition u32_at :: "u8 list \<Rightarrow> nat \<Rightarrow> nat" where
  "u32_at mem i = unat (from_le (take 4 (drop i mem)) :: u32)"

definition u64_at :: "u8 list \<Rightarrow> nat \<Rightarrow> nat" where
  "u64_at mem i = unat (from_le (take 8 (drop i mem)) :: u64)"

definition inner_32 :: "u8 list \<Rightarrow> rtt_inner" where
  "inner_32 mem = \<lparr>ri_name_pointer = u32_at mem 0, ri_buffer_start = u32_at mem 4, ri_size = u32_at mem 8,
     ri_write = u32_at mem 12, ri_read = u32_at mem 16, ri_flags = u32_at mem 20\<rparr>"

definition inner_64 :: "u8 list \<Rightarrow> rtt_inner" where
  "inner_64 mem = \<lparr>ri_name_pointer = u64_at mem 0, ri_buffer_start = u64_at mem 8, ri_size = u32_at mem 16,
     ri_write = u32_at mem 20, ri_read = u32_at mem 24, ri_flags = u32_at mem 28\<rparr>"

fun parse_channel_buffers :: "rtt_header \<Rightarrow> bool \<Rightarrow> u8 list \<Rightarrow> ('e rtt_error, rtt_buffer list) res" where
  "parse_channel_buffers (Header32 x) aligned mem =
     (if 24 dvd length mem then Ok (map (\<lambda>c. Buffer32 (inner_32 c)) (chunks_exact 24 mem)) else Err ControlBlockNotFound)"
| "parse_channel_buffers (Header64 x) aligned mem =
     (if 32 dvd length mem \<and> aligned then Ok (map (\<lambda>c. Buffer64 (inner_64 c)) (chunks_exact 32 mem)) else Err ControlBlockNotFound)"

subsection \<open>Attaching\<close>

record rtt_target =
  rt_is_64_bit :: bool
  rt_memory_regions :: "memory_region list"

definition for_memory_port :: "string list \<Rightarrow> memory_region list \<Rightarrow> nat \<Rightarrow> bool \<Rightarrow> rtt_target option" where
  "for_memory_port ports memory_map port is_64_bit =
     (if port < length ports
      then Some \<lparr>rt_is_64_bit = is_64_bit,
                 rt_memory_regions = filter (\<lambda>r. ports ! port \<in> set (region_memory_ports r)) memory_map\<rparr>
      else None)"

record rtt =
  rtt_ptr :: nat
  rtt_size :: nat
  rtt_up_channels :: "channel list"
  rtt_down_channels :: "channel list"

definition RTT_ID :: "u8 list" where
  "RTT_ID = map of_char ''SEGGER RTT'' @ replicate 6 0"

text \<open>One of the two loops over the descriptors: the channels in use, with the addresses of their descriptors.\<close>

fun attach_channels ::
  "('s, 'e) memory_interface \<Rightarrow> memory_region list \<Rightarrow> nat \<Rightarrow> nat \<Rightarrow> rtt_buffer list
     \<Rightarrow> ('s, 'e rtt_error, channel list) rsm" where
  "attach_channels m regions index offset [] = sret []"
| "attach_channels m regions index offset (b # bs) =
     sbind (channel_from m regions index offset b) (\<lambda>c.
     sbind (slift (add64 offset (rtt_buffer_size b))) (\<lambda>offset.
     sbind (attach_channels m regions (index + 1) offset bs) (\<lambda>cs.
       sret (case c of Some ch \<Rightarrow> ch # cs | None \<Rightarrow> cs))))"

definition attach_at ::
  "('s, 'e) memory_interface \<Rightarrow> bool \<Rightarrow> rtt_target \<Rightarrow> nat \<Rightarrow> ('s, 'e rtt_error, rtt) rsm" where
  "attach_at m aligned target ptr =
     sbind (map_err Probe (mi_read m ptr 16)) (\<lambda>magic.
     sbind (slift (add64 ptr 16)) (\<lambda>a.
     sbind (map_err Probe (mi_read_32 m a 2)) (\<lambda>counts.
     sbind (slift (ok_or (try_from_header (rt_is_64_bit target) (magic @ le_bytes 4 counts)) ControlBlockNotFound)) (\<lambda>header.
       if header_id header \<noteq> RTT_ID then sfail ControlBlockNotFound
       else if max_up_channels header > 255 \<or> max_down_channels header > 255
       then sfail (ControlBlockCorrupted (ArraySizes ptr (max_up_channels header) (max_down_channels header)))
       else
         sbind (slift (add64 ptr (header_size header))) (\<lambda>first.
         sbind (map_err Probe (mi_read_32 m first ((total_rtt_buffer_size header - header_size header) div 4))) (\<lambda>words.
         let mem = le_bytes 4 words; up_len = max_up_channels header * channel_buffer_size header;
             down_len = max_down_channels header * channel_buffer_size header in
         sbind (slift (parse_channel_buffers header aligned (take up_len mem))) (\<lambda>ups.
         sbind (slift (parse_channel_buffers header aligned (take down_len (drop up_len mem)))) (\<lambda>downs.
         sbind (attach_channels m (rt_memory_regions target) 0 first ups) (\<lambda>up_channels.
         sbind (slift (add64 first up_len)) (\<lambda>second.
         sbind (attach_channels m (rt_memory_regions target) 0 second downs) (\<lambda>down_channels.
           sret \<lparr>rtt_ptr = ptr, rtt_size = total_rtt_buffer_size header,
                 rtt_up_channels = up_channels, rtt_down_channels = down_channels\<rparr>)))))))))))"

definition up_channel :: "rtt \<Rightarrow> nat \<Rightarrow> channel option" where
  "up_channel r n = (if n < length (rtt_up_channels r) then Some (rtt_up_channels r ! n) else None)"

definition down_channel :: "rtt \<Rightarrow> nat \<Rightarrow> channel option" where
  "down_channel r n = (if n < length (rtt_down_channels r) then Some (rtt_down_channels r ! n) else None)"

subsection \<open>Scanning\<close>

datatype scan_region = ScanRam | ScanRanges "urange list" | ScanExact nat

text \<open>\<open>windows(n).position(|w| w == pattern)\<close>.\<close>

definition position_of :: "'a list \<Rightarrow> 'a list \<Rightarrow> nat option" where
  "position_of pat mem = find (\<lambda>i. i + length pat \<le> length mem \<and> take (length pat) (drop i mem) = pat) [0..<length mem]"

fun scan_ranges :: "('s, 'e) memory_interface \<Rightarrow> urange list \<Rightarrow> ('s, 'e rtt_error, nat list) rsm" where
  "scan_ranges m [] s = (Ok [], s)"
| "scan_ranges m (r # rs) s =
     (if rend r < rstart r then scan_ranges m rs s
      else
        (case mi_read m (rstart r) (rend r - rstart r) s of
           (Ok mem, s) \<Rightarrow>
             (case position_of RTT_ID mem of
                None \<Rightarrow> scan_ranges m rs s
              | Some i \<Rightarrow>
                  sbind (slift (add64 (rstart r) i)) (\<lambda>p.
                  sbind (scan_ranges m rs) (\<lambda>ps. sret (p # ps))) s)
         | (Err e, s) \<Rightarrow> scan_ranges m rs s
         | (Panic, s) \<Rightarrow> (Panic, s)))"

definition one_instance :: "nat list \<Rightarrow> ('e rtt_error, nat) res" where
  "one_instance ps = (case ps of [] \<Rightarrow> Err ControlBlockNotFound | [p] \<Rightarrow> Ok p | _ \<Rightarrow> Err (MultipleControlBlocksFound ps))"

definition scan_ram :: "rtt_target \<Rightarrow> urange list" where
  "scan_ram target = map rr_range (filter (\<lambda>r. \<not> rr_is_alias r) (ram_regions (rt_memory_regions target)))"

definition find_control_block ::
  "('s, 'e) memory_interface \<Rightarrow> rtt_target \<Rightarrow> scan_region \<Rightarrow> ('s, 'e rtt_error, nat) rsm" where
  "find_control_block m target region =
     (case region of
        ScanExact a \<Rightarrow> sret a
      | ScanRam \<Rightarrow> sbind (scan_ranges m (scan_ram target)) (\<lambda>ps. slift (one_instance ps))
      | ScanRanges [] \<Rightarrow> sfail NoControlBlockLocation
      | ScanRanges rs \<Rightarrow> sbind (scan_ranges m rs) (\<lambda>ps. slift (one_instance ps)))"

definition attach_region ::
  "('s, 'e) memory_interface \<Rightarrow> bool \<Rightarrow> rtt_target \<Rightarrow> scan_region \<Rightarrow> ('s, 'e rtt_error, rtt) rsm" where
  "attach_region m aligned target region =
     sbind (find_control_block m target region) (\<lambda>ptr. attach_at m aligned target ptr)"

definition rtt_attach ::
  "('s, 'e) memory_interface \<Rightarrow> bool \<Rightarrow> rtt_target \<Rightarrow> ('s, 'e rtt_error, rtt) rsm" where
  "rtt_attach m aligned target = attach_region m aligned target ScanRam"

definition clear_size :: "rtt_target \<Rightarrow> scan_region \<Rightarrow> nat" where
  "clear_size target region =
     (case region of ScanExact _ \<Rightarrow> if rt_is_64_bit target then 16 + 2 * 8 else 16 + 2 * 4 | _ \<Rightarrow> length RTT_ID)"

definition clear_control_block ::
  "('s, 'e) memory_interface \<Rightarrow> rtt_target \<Rightarrow> scan_region \<Rightarrow> ('s, 'e rtt_error, unit) rsm" where
  "clear_control_block m target region s =
     (case find_control_block m target region s of
        (Ok a, s) \<Rightarrow> map_err Probe (mi_write_8 m a (replicate (clear_size target region) 0)) s
      | (Err ControlBlockNotFound, s) \<Rightarrow> (Ok (), s)
      | (Err NoControlBlockLocation, s) \<Rightarrow> (Ok (), s)
      | (Err e, s) \<Rightarrow> (Err e, s)
      | (Panic, s) \<Rightarrow> (Panic, s))"

subsection \<open>Retrying\<close>

text \<open>
  Attaching again until it succeeds or the time is up. The clock gives the time that has passed
  when attempt \<open>i\<close> has failed.
\<close>

partial_function (option) try_attach_inner ::
  "('s \<Rightarrow> ('e rtt_error, rtt) res \<times> 's) \<Rightarrow> nat \<Rightarrow> (nat \<Rightarrow> nat) \<Rightarrow> nat \<Rightarrow> 's \<Rightarrow> (('e rtt_error, rtt) res \<times> 's) option" where
  "try_attach_inner once timeout clock i s =
     (case once s of
        (Err e, t) \<Rightarrow>
          if e = NoControlBlockLocation then Some (Err e, t)
          else if clock i < timeout then try_attach_inner once timeout clock (i + 1) t
          else Some (Err e, t)
      | (r, t) \<Rightarrow> Some (r, t))"

definition try_attach_to_rtt ::
  "('s, 'e) memory_interface \<Rightarrow> bool \<Rightarrow> rtt_target \<Rightarrow> nat \<Rightarrow> (nat \<Rightarrow> nat) \<Rightarrow> scan_region \<Rightarrow> 's
     \<Rightarrow> (('e rtt_error, rtt) res \<times> 's) option" where
  "try_attach_to_rtt m aligned target timeout clock region s =
     try_attach_inner (attach_region m aligned target region) timeout clock 1 s"

end
