(* ===== verification/Rtt_Ring.thy ===== *)
theory Rtt_Ring
  imports Rtt_Channel
begin

text \<open>
  What the ring buffers of RTT promise: an up channel is a queue whose oldest bytes are read, a
  down channel one to whose end bytes are written. The contents of the queue are what lies between
  the read and the write offset in the target memory.
\<close>

subsection \<open>The queue in memory\<close>

definition ring :: "flat \<Rightarrow> nat \<Rightarrow> nat \<Rightarrow> nat \<Rightarrow> nat \<Rightarrow> u8 list" where
  "ring f base sz r w =
     (if r \<le> w then peek f (base + r) (w - r) else peek f (base + r) (sz - r) @ peek f base w)"

lemma ring_empty: "ring f base sz r r = []"
  by (simp add: ring_def)

lemma length_ring: "length (ring f base sz r w) = (if r \<le> w then w - r else sz - r + w)"
  by (simp add: ring_def)

lemma drop_peek: "drop k (peek f a n) = peek f (a + k) (n - k)"
  by (simp add: peek_def drop_map drop_upt) (rule nth_equalityI, simp_all add: add.assoc)

lemma take_peek: "take k (peek f a n) = peek f a (min k n)"
  by (simp add: peek_def take_map min_def)

text \<open>Reading \<open>c\<close> bytes at the read offset moves it.\<close>

lemma ring_take:
  assumes "r < sz" "w < sz" "c \<le> (if r > w then sz else w) - r"
  shows "take c (ring f base sz r w) = peek f (base + r) c"
    and "ring f base sz (if r + c \<ge> sz then 0 else r + c) w = drop c (ring f base sz r w)"
proof -
  show "take c (ring f base sz r w) = peek f (base + r) c"
    using assms by (auto simp: ring_def take_peek min_def)
  show "ring f base sz (if r + c \<ge> sz then 0 else r + c) w = drop c (ring f base sz r w)"
  proof (cases "r + c = sz")
    case True
    then have "c = sz - r" "r + c \<ge> sz" using assms(1) by simp_all
    then show ?thesis using assms by (auto simp: ring_def drop_peek split: if_splits)
  next
    case False
    then show ?thesis using assms by (auto simp: ring_def drop_peek add.assoc)
  qed
qed

text \<open>Writing \<open>bs\<close> at the write offset moves it.\<close>

lemma ring_put:
  assumes "r < sz" "w < sz"
    and "length bs \<le> (if r > w then r - w - 1 else if r = 0 then sz - w - 1 else sz - w)"
  shows "ring (poke f (base + w) bs) base sz r (if w + length bs \<ge> sz then 0 else w + length bs)
    = ring f base sz r w @ bs"
proof (cases "r \<le> w")
  case True
  let ?g = "poke f (base + w) bs"
  have fit: "w + length bs \<le> sz" using assms True by (auto split: if_splits)
  have split: "peek ?g (base + r) (w - r + length bs) = peek f (base + r) (w - r) @ bs"
    using peek_append [of ?g "base + r" "w - r" "length bs"] peek_poke [of f "base + w" bs]
      peek_poke_disjoint [of "base + r" "w - r" "base + w" bs f] True by simp
  show ?thesis
  proof (cases "w + length bs = sz")
    case wrap: True
    then have "0 < r" using assms True by (auto split: if_splits)
    moreover have "sz - r = w - r + length bs" using wrap True by simp
    ultimately show ?thesis using split wrap True by (simp add: ring_def)
  next
    case False
    moreover have "w + length bs - r = w - r + length bs" using True by simp
    ultimately show ?thesis using split fit True by (simp add: ring_def)
  qed
next
  case False
  let ?g = "poke f (base + w) bs"
  have fit: "w + length bs < r" using assms(3) False by (auto split: if_splits)
  have "peek ?g base (w + length bs) = peek f base w @ bs"
    using peek_append [of ?g base w "length bs"] peek_poke [of f "base + w" bs]
      peek_poke_disjoint [of base w "base + w" bs f] by simp
  moreover have "peek ?g (base + r) (sz - r) = peek f (base + r) (sz - r)"
    using peek_poke_disjoint [of "base + r" "sz - r" "base + w" bs f] fit by simp
  ultimately show ?thesis using fit False assms(1) by (simp add: ring_def)
qed

lemma ring_cong: "\<forall>i. base \<le> i \<and> i < base + sz \<longrightarrow> f i = g i \<Longrightarrow> r \<le> sz \<Longrightarrow> w \<le> sz \<Longrightarrow> ring f base sz r w = ring g base sz r w"
  unfolding ring_def peek_def by auto

subsection \<open>The reads of an up channel\<close>

lemma read_parts_simps:
  "read_parts [] = []" "read_parts (op # ops) = read_part op @ read_parts ops"
  "read_parts (xs @ ys) = read_parts xs @ read_parts ys"
  by (simp_all add: read_parts_def)

lemma up_reads_ring:
  assumes "rd < sz" "wr < sz" "size_of_buffer (ch_info ch) = sz" "buffer_start_pointer (ch_info ch) = base"
    and "base + sz \<le> 2 ^ 64"
  shows "\<exists>ops rd'. up_reads ch wr rd buf = Ok (ops, rd') \<and> rd' < sz
    \<and> (\<forall>op \<in> set ops. plain_op (base + sz) op)
    \<and> (\<exists>ops'. flat_ops ops f = (ops', f) \<and> read_parts ops' = take (length buf) (ring f base sz rd wr))
    \<and> length (read_parts ops) = min (length buf) (length (ring f base sz rd wr))
    \<and> ring f base sz rd' wr = drop (length buf) (ring f base sz rd wr)"
  using assms
proof (induction ch wr rd buf rule: up_reads.induct [where ?'a = 'a])
  case (1 ch wr rd buf)
  let ?q = "ring f base sz rd wr"
  define readable where "readable = (if rd > wr then sz else wr) - rd"
  have rc: "readable_contiguous ch wr rd = (Ok readable :: ('a rtt_error, nat) res)"
    using "1.prems" by (auto simp: readable_contiguous_def readable_def sub_r_def)
  define c where "c = min readable (length buf)"
  show ?case
  proof (cases "buf = [] \<or> c = 0")
    case True
    then have run: "up_reads ch wr rd buf = (Ok ([], rd) :: ('a rtt_error, 'a operation list \<times> nat) res)"
      using rc by (subst up_reads.simps) (auto simp: c_def [symmetric] Let_def)
    have q: "?q = []" if "buf \<noteq> []"
    proof -
      have "readable = 0" using that True by (auto simp: c_def min_def split: if_splits)
      then show ?thesis using "1.prems"(1) by (auto simp: readable_def ring_def split: if_splits)
    qed
    have "take (length buf) ?q = []" "drop (length buf) ?q = ?q" "min (length buf) (length ?q) = 0"
      using q by (cases "buf = []"; simp)+
    then show ?thesis using run "1.prems"(1) by (simp add: read_parts_simps)
  next
    case False
    then have ne: "buf \<noteq> []" "c \<noteq> 0" by simp_all
    define rd1 where "rd1 = (if rd + c \<ge> sz then 0 else rd + c)"
    have c: "c \<le> readable" "c \<le> length buf" by (simp_all add: c_def)
    have r1: "rd1 < sz" using "1.prems"(1) by (simp add: rd1_def)
    note ring = ring_take [OF "1.prems"(1,2) c(1) [unfolded readable_def], of f base, folded rd1_def]
    have fit: "rd + c \<le> sz" using c(1) "1.prems"(1,2) by (auto simp: readable_def split: if_splits)
    have a: "add64 base rd = (Ok (base + rd) :: ('a rtt_error, nat) res)"
      using "1.prems"(1,5) by (simp add: add_w_def)
    obtain ops rd' ops' where IH: "up_reads ch wr rd1 (drop c buf) = (Ok (ops, rd') :: ('a rtt_error, 'a operation list \<times> nat) res)"
      "rd' < sz" "\<forall>op \<in> set ops. plain_op (base + sz) op" "flat_ops ops f = (ops', f)"
      "read_parts ops' = take (length buf - c) (ring f base sz rd1 wr)"
      "length (read_parts ops) = min (length buf - c) (length (ring f base sz rd1 wr))"
      "ring f base sz rd' wr = drop (length buf - c) (ring f base sz rd1 wr)"
      using "1.IH" [OF ne(1) rc c_def ne(2), unfolded "1.prems"(3), folded rd1_def] r1 "1.prems"(2-5) by auto
    let ?op = "operation_new (base + rd) (OpRead (take c buf)) :: 'a operation"
    have run: "up_reads ch wr rd buf = (Ok (?op # ops, rd') :: ('a rtt_error, 'a operation list \<times> nat) res)"
      using ne rc a IH(1) "1.prems"(3,4)
      by (subst up_reads.simps) (simp add: Let_def c_def [symmetric] rd1_def [symmetric])
    have lenq: "c \<le> length ?q" using c(1) by (auto simp: length_ring readable_def split: if_splits)
    have fl: "flat_ops (?op # ops) f
        = (?op\<lparr>op_result := Some (Ok ()), op_kind := OpRead (peek f (base + rd) c)\<rparr> # ops', f)"
      using IH(4) c(2) by (simp add: operation_new_def min_def)
    have "take (length buf) ?q = take c ?q @ take (length buf - c) (drop c ?q)"
      using c(2) by (metis le_add_diff_inverse take_add)
    then have parts: "peek f (base + rd) c @ read_parts ops' = take (length buf) ?q"
      using IH(5) ring by simp
    have "min (length buf) (length ?q) = c + min (length buf - c) (length (drop c ?q))"
      using c(2) lenq unfolding length_drop by linarith
    then have len: "length (read_parts (?op # ops)) = min (length buf) (length ?q)"
      using IH(6) ring(2) c(2) by (simp add: read_parts_simps operation_new_def)
    have "drop (length buf) ?q = drop (length buf - c) (drop c ?q)" using c(2) by simp
    then have rest: "ring f base sz rd' wr = drop (length buf) ?q" using IH(7) ring(2) by simp
    have "plain_op (base + sz) ?op" using fit c(2) by (simp add: plain_op_def operation_new_def)
    then show ?thesis
      using run IH(2,3) fl parts len rest by (auto simp: read_parts_simps)
  qed
qed

subsection \<open>The writes to a down channel\<close>

definition ring_space :: "nat \<Rightarrow> u8 list \<Rightarrow> nat" where
  "ring_space sz q = sz - 1 - length q"

context flat_interface
begin

lemma down_writes_ring:
  assumes "down_writes m ch rd wr buf amount s = (Ok (n, wr'), t)" "ready s"
    and "rd < sz" "wr < sz" "size_of_buffer (ch_info ch) = sz" "buffer_start_pointer (ch_info ch) = base"
    and "base + sz \<le> limit"
  shows "ready t \<and> wr' < sz
    \<and> n = amount + min (length buf) (ring_space sz (ring (content s) base sz rd wr))
    \<and> ring (content t) base sz rd wr' = ring (content s) base sz rd wr @ take (n - amount) buf
    \<and> (\<forall>i. i < base \<or> base + sz \<le> i \<longrightarrow> content t i = content s i)"
  using assms
proof (induction "length buf" arbitrary: wr buf amount s rule: less_induct)
  case less
  let ?q = "ring (content s) base sz rd wr"
  define room where "room = (if rd > wr then rd - wr - 1 else if rd = 0 then sz - wr - 1 else sz - wr)"
  have wc: "writable_contiguous ch wr rd = (Ok room :: ('e rtt_error, nat) res)"
    using less.prems(3-5) by (auto simp: writable_contiguous_def room_def sub_r_def)
  define c where "c = min room (length buf)"
  have free: "room \<le> ring_space sz ?q" "room = 0 \<longrightarrow> ring_space sz ?q = 0"
    using less.prems(3,4) by (auto simp: room_def ring_space_def length_ring)
  show ?case
  proof (cases "buf = [] \<or> c = 0")
    case True
    then have "down_writes m ch rd wr buf amount s = (Ok (amount, wr), s)"
      using wc by (subst down_writes.simps) (auto simp: c_def [symmetric] Let_def)
    then have r: "n = amount" "wr' = wr" "t = s" using less.prems(1) by simp_all
    have "min (length buf) (ring_space sz ?q) = 0"
      using True free(2) by (auto simp: c_def min_def split: if_splits)
    then show ?thesis using r less.prems(2,4) by simp
  next
    case False
    then have ne: "buf \<noteq> []" "c \<noteq> 0" by simp_all
    have c: "c \<le> room" "c \<le> length buf" by (simp_all add: c_def)
    have fit: "wr + c \<le> sz" using c(1) less.prems(3,4) by (auto simp: room_def split: if_splits)
    define wr1 where "wr1 = (if wr + c \<ge> sz then 0 else wr + c)"
    obtain u where u: "mi_write m (base + wr) (take c buf) s = (Ok (), u)"
      "down_writes m ch rd wr1 (drop c buf) (amount + c) u = (Ok (n, wr'), t)"
      using less.prems(1,5,6) ne wc
      by (subst (asm) down_writes.simps) (auto simp: Let_def c_def [symmetric] wr1_def split: res.splits prod.splits)
    have "base + wr + 1 * length (take c buf) \<le> limit" using fit less.prems(7) c(2) by (simp add: min_def)
    from writes_asD [OF wr less.prems(2) this u(1)]
    have u1: "ready u" "content u = poke (content s) (base + wr) (take c buf)" unfolding le_bytes_8 by simp_all
    have len: "length (take c buf) = c" using c(2) by simp
    have ring: "ring (content u) base sz rd wr1 = ?q @ take c buf"
      using ring_put [OF less.prems(3,4), of "take c buf" "content s" base] c(1)
      unfolding u1(2) len room_def wr1_def by simp
    have "wr1 < sz" using less.prems(4) fit by (auto simp: wr1_def)
    moreover have "length (drop c buf) < length buf" using ne by (cases buf) auto
    ultimately have IH: "ready t" "wr' < sz"
      "n = amount + c + min (length buf - c) (ring_space sz (?q @ take c buf))"
      "ring (content t) base sz rd wr' = (?q @ take c buf) @ take (n - (amount + c)) (drop c buf)"
      "\<forall>i. i < base \<or> base + sz \<le> i \<longrightarrow> content t i = content u i"
      using less.hyps [OF _ u(2) u1(1) less.prems(3) _ less.prems(5-7)] ring by auto
    have space: "ring_space sz (?q @ take c buf) = ring_space sz ?q - c" using c(2) by (simp add: ring_space_def)
    have n: "n = amount + min (length buf) (ring_space sz ?q)"
      using IH(3) c free(1) unfolding space by linarith
    have "take c buf @ take (n - (amount + c)) (drop c buf) = take (n - amount) buf"
    proof -
      have "n - amount = c + (n - (amount + c))" using IH(3) by simp
      then show ?thesis by (simp add: take_add)
    qed
    moreover have "content u i = content s i" if "i < base \<or> base + sz \<le> i" for i
      using that fit c(2) unfolding u1(2) by (auto simp: poke_def)
    ultimately show ?thesis using IH(1,2,4,5) n by simp
  qed
qed

text \<open>The two offsets of a channel.\<close>

lemma words_at:
  assumes "le_bytes 4 (ws :: u32 list) = peek f a 8"
  shows "ws = [from_le (peek f a 4), from_le (peek f (a + 4) 4)]"
proof -
  have "length (le_bytes 4 ws) = 8" unfolding assms by simp
  then have "length ws = 2" by simp
  then obtain x y where ws: "ws = [x, y]" by (auto simp: numeral_2_eq_2 length_Suc_conv)
  have "peek f a 8 = peek f a 4 @ peek f (a + 4) 4" using peek_append [of f a 4 4] by simp
  then have "to_le 4 x = peek f a 4" "to_le 4 y = peek f (a + 4) 4" using assms ws by auto
  moreover have "from_le (to_le 4 v) = v" for v :: u32 by (rule from_le_to_le) simp
  ultimately show ?thesis using ws by metis
qed

lemma read_pointers_flat:
  assumes "read_pointers m ch s = (Ok (w, r), t)" "ready s" "ch_metadata ch + rtt_buffer_size (ch_info ch) \<le> limit"
  defines "p \<equiv> ch_metadata ch + write_ptr_offset (ch_info ch)"
  shows "ready t" "content t = content s" "w = unat (from_le (peek (content s) p 4) :: u32)"
    "r = unat (from_le (peek (content s) (p + 4) 4) :: u32)"
    "w < size_of_buffer (ch_info ch)" "r < size_of_buffer (ch_info ch)"
proof -
  obtain block where b: "mi_read_32 m p 2 s = (Ok block, t)" "1 < length block" "w = unat (block ! 0)" "r = unat (block ! 1)"
    "w < size_of_buffer (ch_info ch)" "r < size_of_buffer (ch_info ch)"
    using assms(1) unfolding p_def
    by (auto simp: read_pointers_def read_buffer_offsets_def validate_pointer_def split: if_splits)
  have "p + 4 * 2 \<le> limit" using assms(3) unfolding p_def by (cases "ch_info ch") simp_all
  from reads_asD [OF r32 assms(2) this b(1)]
  have t: "ready t" "content t = content s" "le_bytes 4 block = peek (content s) p 8" by simp_all
  from words_at [OF t(3)] t(1,2) b(3-6)
  show "ready t" "content t = content s" "w = unat (from_le (peek (content s) p 4) :: u32)"
    "r = unat (from_le (peek (content s) (p + 4) 4) :: u32)"
    "w < size_of_buffer (ch_info ch)" "r < size_of_buffer (ch_info ch)" by simp_all
qed

end

subsection \<open>Channels on a flat memory\<close>

text \<open>What is queued in a channel, and a descriptor and a buffer that do not overlap.\<close>

definition ch_word :: "flat \<Rightarrow> nat \<Rightarrow> nat" where
  "ch_word f a = unat (from_le (peek f a 4) :: u32)"

definition ch_queue :: "flat \<Rightarrow> channel \<Rightarrow> u8 list" where
  "ch_queue f ch = ring f (buffer_start_pointer (ch_info ch)) (size_of_buffer (ch_info ch))
     (ch_word f (ch_metadata ch + read_ptr_offset (ch_info ch))) (ch_word f (ch_metadata ch + write_ptr_offset (ch_info ch)))"

definition ch_placed :: "nat \<Rightarrow> channel \<Rightarrow> bool" where
  "ch_placed limit ch \<longleftrightarrow>
     (\<exists>x. ch_info ch = Buffer32 x) \<and> 4 dvd ch_metadata ch \<and> limit \<le> 2 ^ 64
     \<and> ch_metadata ch + 24 \<le> limit
     \<and> buffer_start_pointer (ch_info ch) + size_of_buffer (ch_info ch) \<le> limit
     \<and> size_of_buffer (ch_info ch) < 2 ^ 32
     \<and> (buffer_start_pointer (ch_info ch) + size_of_buffer (ch_info ch) \<le> ch_metadata ch
        \<or> ch_metadata ch + 24 \<le> buffer_start_pointer (ch_info ch))"

lemma ch_placedD:
  assumes "ch_placed limit ch"
  shows "write_ptr_offset (ch_info ch) = 12" "read_ptr_offset (ch_info ch) = 16" "rtt_buffer_size (ch_info ch) = 24"
    "4 dvd ch_metadata ch" "limit \<le> 2 ^ 64" "ch_metadata ch + 24 \<le> limit" "size_of_buffer (ch_info ch) < 2 ^ 32"
    "buffer_start_pointer (ch_info ch) + size_of_buffer (ch_info ch) \<le> limit"
  using assms by (auto simp: ch_placed_def)

text \<open>A new offset in the descriptor, and new bytes in the buffer.\<close>

lemma ch_word_poke:
  "ch_word (poke f a (to_le 4 (v :: u32))) a = unat v"
  "b + 4 \<le> a \<or> a + 4 \<le> b \<Longrightarrow> ch_word (poke f a (to_le 4 (v :: u32))) b = ch_word f b"
proof -
  have "from_le (to_le 4 v) = v" by (rule from_le_to_le) simp
  then show "ch_word (poke f a (to_le 4 (v :: u32))) a = unat v"
    using peek_poke [of f a "to_le 4 v"] by (simp add: ch_word_def)
  show "b + 4 \<le> a \<or> a + 4 \<le> b \<Longrightarrow> ch_word (poke f a (to_le 4 (v :: u32))) b = ch_word f b"
    using peek_poke_disjoint [of b 4 a "to_le 4 v" f] by (simp add: ch_word_def)
qed

lemma ch_word_cong: "\<forall>i. a \<le> i \<and> i < a + 4 \<longrightarrow> f i = g i \<Longrightarrow> ch_word f a = ch_word g a"
proof -
  assume same: "\<forall>i. a \<le> i \<and> i < a + 4 \<longrightarrow> f i = g i"
  have "peek f a 4 = peek g a 4" by (rule nth_equalityI) (use same in \<open>auto simp: peek_def\<close>)
  then show ?thesis by (simp add: ch_word_def)
qed

lemma ring_poke_away:
  "b + length bs \<le> base \<or> base + sz \<le> b \<Longrightarrow> r \<le> sz \<Longrightarrow> w \<le> sz \<Longrightarrow> ring (poke f b bs) base sz r w = ring f base sz r w"
  by (rule ring_cong) (auto simp: poke_def)

lemma first_failure_Ok: "first_failure ops = Ok () \<Longrightarrow> \<forall>op \<in> set ops. no_error op"
  by (induction ops) (auto simp: no_error_def split: option.splits res.splits)

lemma no_error_results: "\<forall>op \<in> set ops. op_result op = Some (Ok ()) \<Longrightarrow> first_failure ops = Ok ()"
  by (induction ops) auto

text \<open>A read of nothing does not move.\<close>

lemma up_reads_nothing:
  assumes "up_reads ch wr rd buf = Ok (ops, rd')" "read_parts ops = []"
  shows "rd' = rd"
proof (rule ccontr)
  assume moved: "rd' \<noteq> rd"
  then have ne: "buf \<noteq> []" using assms(1) by (subst (asm) up_reads.simps) auto
  obtain k where k: "readable_contiguous ch wr rd = (Ok k :: ('a rtt_error, nat) res)" "min k (length buf) \<noteq> 0"
    using assms(1) moved ne by (subst (asm) up_reads.simps) (auto simp: Let_def split: res.splits if_splits)
  let ?c = "min k (length buf)"
  obtain ops2 a where "ops = operation_new a (OpRead (take ?c buf)) # ops2"
    using assms(1) ne k by (subst (asm) up_reads.simps) (auto simp: Let_def split: res.splits if_splits)
  then have "take ?c buf = []" using assms(2) by (simp add: read_parts_simps operation_new_def)
  then show False using ne k(2) by simp
qed

text \<open>The batch of a read: its reads, then the new read offset.\<close>

definition read_batch :: "channel \<Rightarrow> bool \<Rightarrow> nat \<Rightarrow> nat \<Rightarrow> 'e operation list \<Rightarrow> 'e operation list" where
  "read_batch ch consume n rd ops =
     (if consume \<and> n > 0 then ops @ [operation_new (ch_metadata ch + 16) (OpWriteWord32 (of_nat rd))] else ops)"

lemma read_batch_flat:
  assumes "ch_placed limit ch" "rd < size_of_buffer (ch_info ch)" "wr < size_of_buffer (ch_info ch)"
    and "rd = ch_word f (ch_metadata ch + 16)" "wr = ch_word f (ch_metadata ch + 12)"
  obtains ops rd' where "up_reads ch wr rd buf = (Ok (ops, rd') :: ('e rtt_error, 'e operation list \<times> nat) res)"
    "rd' < size_of_buffer (ch_info ch)"
    "length (read_parts ops) = min (length buf) (length (ch_queue f ch))"
    "\<forall>op \<in> set (read_batch ch consume (length (read_parts ops)) rd' ops). plain_op limit op"
    "\<exists>ops' g. flat_ops (read_batch ch consume (length (read_parts ops)) rd' ops) f = (ops', g)
      \<and> read_parts ops' = take (length buf) (ch_queue f ch)
      \<and> ch_queue g ch = (if consume then drop (length buf) (ch_queue f ch) else ch_queue f ch)
      \<and> ch_word g (ch_metadata ch + 16) = (if consume then rd' else rd) \<and> ch_word g (ch_metadata ch + 12) = wr \<and> (\<not> consume \<longrightarrow> g = f)
      \<and> (\<forall>i. i < ch_metadata ch + 16 \<or> ch_metadata ch + 20 \<le> i \<longrightarrow> g i = f i)"
proof -
  let ?sz = "size_of_buffer (ch_info ch)" and ?base = "buffer_start_pointer (ch_info ch)" and ?p = "ch_metadata ch"
  let ?q = "ch_queue f ch"
  note P = ch_placedD [OF assms(1)]
  have q: "?q = ring f ?base ?sz rd wr" using assms(4,5) P(1,2) by (simp add: ch_queue_def)
  obtain ops rd' ops' where u: "up_reads ch wr rd buf = (Ok (ops, rd') :: ('e rtt_error, 'e operation list \<times> nat) res)"
    "rd' < ?sz" "\<forall>op \<in> set ops. plain_op (?base + ?sz) op" "flat_ops ops f = (ops', f)"
    "read_parts ops' = take (length buf) ?q" "length (read_parts ops) = min (length buf) (length ?q)"
    "ring f ?base ?sz rd' wr = drop (length buf) ?q"
    using up_reads_ring [OF assms(2,3) refl refl order.trans [OF P(8) P(5)], where buf = buf and f = f and ?'a = 'e]
    unfolding q by blast
  let ?n = "length (read_parts ops)"
  have plain: "\<forall>op \<in> set ops. plain_op limit op" using u(3) P(8) by (auto simp: plain_op_def)
  show ?thesis
  proof (rule that [OF u(1,2,6)])
    show "\<forall>op \<in> set (read_batch ch consume ?n rd' ops). plain_op limit op"
      using plain P(4,6) by (auto simp: read_batch_def plain_op_def operation_new_def)
    show "\<exists>ops' g. flat_ops (read_batch ch consume ?n rd' ops) f = (ops', g) \<and> read_parts ops' = take (length buf) ?q
      \<and> ch_queue g ch = (if consume then drop (length buf) ?q else ?q)
      \<and> ch_word g (?p + 16) = (if consume then rd' else rd) \<and> ch_word g (?p + 12) = wr \<and> (\<not> consume \<longrightarrow> g = f)
      \<and> (\<forall>i. i < ?p + 16 \<or> ?p + 20 \<le> i \<longrightarrow> g i = f i)"
    proof (cases "consume \<and> ?n > 0")
      case False
      then have "?q = [] \<or> buf = []" if consume using that u(6) by auto
      then have "ch_queue f ch = (if consume then drop (length buf) ?q else ?q)" by auto
      moreover have "flat_ops (read_batch ch consume ?n rd' ops) f = (ops', f)"
        using False u(4) by (auto simp: read_batch_def)
      moreover have "rd = (if consume then rd' else rd)" using False up_reads_nothing [OF u(1)] by auto
      ultimately show ?thesis using u(5) assms(4,5) by (intro exI [of _ ops'] exI [of _ f]) simp
    next
      case True
      let ?v = "of_nat rd' :: u32" let ?g = "poke f (?p + 16) (to_le 4 ?v)"
      have v: "unat ?v = rd'" using u(2) P(7) by (simp add: unat_of_nat)
      have apart: "?base + ?sz \<le> ?p \<or> ?p + 24 \<le> ?base" using assms(1) by (simp add: ch_placed_def)
      have words: "ch_word ?g (?p + 16) = rd'" "ch_word ?g (?p + 12) = wr"
        using ch_word_poke(1) [of f "?p + 16" ?v] ch_word_poke(2) [of "?p + 12" "?p + 16" f ?v] v assms(5) by simp_all
      then have "ch_queue ?g ch = ring ?g ?base ?sz rd' wr" using P(1,2) by (simp add: ch_queue_def)
      also have "\<dots> = ring f ?base ?sz rd' wr" using apart u(2) assms(3) by (intro ring_poke_away) auto
      finally have queue: "ch_queue ?g ch = drop (length buf) ?q" using u(7) by simp
      let ?wop = "operation_new (?p + 16) (OpWriteWord32 ?v) :: 'e operation"
      have "flat_ops (ops @ [?wop]) f = (ops' @ [?wop\<lparr>op_result := Some (Ok ())\<rparr>], ?g)"
        using u(4) by (simp add: flat_ops_append operation_new_def)
      then show ?thesis
        using True u(5) queue words
        by (intro exI [of _ "ops' @ [?wop\<lparr>op_result := Some (Ok ())\<rparr>]"] exI [of _ ?g])
          (simp add: read_batch_def read_parts_simps operation_new_def, auto simp: poke_def)
    qed
  qed
qed

lemma read_offset_op:
  assumes "ch_placed limit ch" "rd < size_of_buffer (ch_info ch)"
  shows "(if consume \<and> n > 0
          then rmap (\<lambda>op. ops @ [op]) (write_read_buffer_ptr_operation (ch_info ch) (ch_metadata ch) rd)
          else Ok ops) = (Ok (read_batch ch consume n rd ops) :: ('e rtt_error, 'e operation list) res)"
proof -
  obtain x where "ch_info ch = Buffer32 x" using assms(1) by (auto simp: ch_placed_def)
  moreover have "ch_metadata ch + 16 < 2 ^ 64" "rd < 2 ^ 32" using ch_placedD [OF assms(1)] assms(2) by linarith+
  ultimately show ?thesis
    by (simp add: write_read_buffer_ptr_operation_def read_batch_def to_u32_def add_w_def)
qed

end
