(* ===== verification/Rtt_Properties.thy ===== *)
theory Rtt_Properties
  imports Rtt_Ring Adi_Properties
begin

text \<open>
  The properties of the RTT channels (probe-rs/src/rtt/channel.rs), on any memory interface with a
  batch operation that behaves as a flat memory and answers in its range.
\<close>

subsection \<open>Offsets in their range\<close>

definition ch_ready :: "nat \<Rightarrow> flat \<Rightarrow> channel \<Rightarrow> bool" where
  "ch_ready limit f ch \<longleftrightarrow> ch_placed limit ch
     \<and> ch_word f (ch_metadata ch + write_ptr_offset (ch_info ch)) < size_of_buffer (ch_info ch)
     \<and> ch_word f (ch_metadata ch + read_ptr_offset (ch_info ch)) < size_of_buffer (ch_info ch)"

lemma ch_readyD:
  assumes "ch_ready limit f ch"
  shows "ch_placed limit ch" "ch_word f (ch_metadata ch + 12) < size_of_buffer (ch_info ch)"
    "ch_word f (ch_metadata ch + 16) < size_of_buffer (ch_info ch)"
  using assms ch_placedD(1,2) [of limit ch] by (simp_all add: ch_ready_def)

context answering_interface
begin

lemma read_offsets_total:
  assumes "ready s" "ch_placed limit ch"
  obtains t where "read_buffer_offsets m (ch_info ch) (ch_metadata ch) s
      = (Ok (ch_word (content s) (ch_metadata ch + 12), ch_word (content s) (ch_metadata ch + 16)), t)"
    "ready t" "content t = content s"
proof -
  note P = ch_placedD [OF assms(2)]
  let ?p = "ch_metadata ch + 12"
  have a: "4 dvd ?p" "?p + 4 * 2 \<le> limit" using P(4,6) by auto
  obtain ws t where ws: "mi_read_32 m ?p 2 s = (Ok ws, t)" using read_32_ok [OF assms(1) a] by blast
  from reads_asD [OF r32 assms(1) a(2) ws]
  have t: "ready t" "content t = content s" "le_bytes 4 ws = peek (content s) ?p 8" by simp_all
  note two = words_at [OF t(3)]
  have "?p + 4 = ch_metadata ch + 16" by simp
  note ws2 = two [unfolded this]
  have lim: "?p < 2 ^ 64" using P(5,6) by linarith
  have "read_buffer_offsets m (ch_info ch) (ch_metadata ch) s
      = (Ok (ch_word (content s) ?p, ch_word (content s) (ch_metadata ch + 16)), t)"
    using ws lim P(1)
    by (simp add: read_buffer_offsets_def sbind_def add_w_def ws2 nth_r_def ch_word_def map_err_def)
  from that [OF this t(1,2)] show thesis .
qed

lemma read_pointers_total:
  assumes "ready s" "ch_ready limit (content s) ch"
  obtains t where "read_pointers m ch s
      = (Ok (ch_word (content s) (ch_metadata ch + 12), ch_word (content s) (ch_metadata ch + 16)), t)"
    "ready t" "content t = content s"
proof -
  note P = ch_readyD [OF assms(2)]
  obtain t where t: "read_buffer_offsets m (ch_info ch) (ch_metadata ch) s
      = (Ok (ch_word (content s) (ch_metadata ch + 12), ch_word (content s) (ch_metadata ch + 16)), t)"
    "ready t" "content t = content s" using read_offsets_total [OF assms(1) P(1)] by blast
  have "read_pointers m ch s = (Ok (ch_word (content s) (ch_metadata ch + 12), ch_word (content s) (ch_metadata ch + 16)), t)"
    using t(1) P(2,3) by (simp add: read_pointers_def sbind_def validate_pointer_def)
  from that [OF this t(2,3)] show thesis .
qed

lemma read_pointers_refused:
  assumes "ready s" "ch_placed limit ch" "\<not> ch_ready limit (content s) ch"
  shows "\<exists>which v t. read_pointers m ch s = (Err (ControlBlockCorrupted (PointerTooLarge which v (size_of_buffer (ch_info ch)))), t)
    \<and> size_of_buffer (ch_info ch) \<le> v \<and> ready t \<and> content t = content s"
proof -
  obtain t where t: "read_buffer_offsets m (ch_info ch) (ch_metadata ch) s
      = (Ok (ch_word (content s) (ch_metadata ch + 12), ch_word (content s) (ch_metadata ch + 16)), t)"
    "ready t" "content t = content s" using read_offsets_total [OF assms(1,2)] by blast
  have "\<not> ch_word (content s) (ch_metadata ch + 12) < size_of_buffer (ch_info ch)
      \<or> \<not> ch_word (content s) (ch_metadata ch + 16) < size_of_buffer (ch_info ch)"
    using assms(2,3) ch_placedD(1,2) [OF assms(2)] by (simp add: ch_ready_def)
  then show ?thesis using t by (auto simp: read_pointers_def sbind_def validate_pointer_def)
qed

lemma read_core_total:
  assumes "ready s" "ch_ready limit (content s) ch"
    and "ch_last_read ch \<in> {None, Some (ch_word (content s) (ch_metadata ch + 16))}"
  defines "q \<equiv> ch_queue (content s) ch"
  shows "\<exists>n buf' ch' t. read_core m exec consume ch buf s = (Ok (n, buf', ch'), t)
    \<and> ready t \<and> n = min (length buf) (length q) \<and> buf' = take n q @ drop n buf
    \<and> ch_queue (content t) ch = (if consume then drop n q else q)
    \<and> ch' = (if consume then ch\<lparr>ch_last_read := Some (ch_word (content t) (ch_metadata ch + 16))\<rparr> else ch)
    \<and> ch_ready limit (content t) ch \<and> (\<not> consume \<longrightarrow> content t = content s)
    \<and> (\<forall>i. i < ch_metadata ch + 16 \<or> ch_metadata ch + 20 \<le> i \<longrightarrow> content t i = content s i)"
proof -
  let ?f = "content s" and ?p = "ch_metadata ch" and ?sz = "size_of_buffer (ch_info ch)"
  note P = ch_readyD [OF assms(2)]
  obtain u where u: "read_pointers m ch s = (Ok (ch_word ?f (?p + 12), ch_word ?f (?p + 16)), u)"
    "ready u" "content u = ?f"
    using read_pointers_total [OF assms(1,2)] by blast
  obtain ops rd' where b: "up_reads ch (ch_word ?f (?p + 12)) (ch_word ?f (?p + 16)) buf
        = (Ok (ops, rd') :: ('e rtt_error, 'e operation list \<times> nat) res)" "rd' < ?sz"
      "length (read_parts ops) = min (length buf) (length q)"
      "\<forall>op \<in> set (read_batch ch consume (length (read_parts ops)) rd' ops). plain_op limit op"
    and flat: "\<exists>ops' g. flat_ops (read_batch ch consume (length (read_parts ops)) rd' ops) ?f = (ops', g)
      \<and> read_parts ops' = take (length buf) q \<and> ch_queue g ch = (if consume then drop (length buf) q else q)
      \<and> ch_word g (?p + 16) = (if consume then rd' else ch_word ?f (?p + 16)) \<and> ch_word g (?p + 12) = ch_word ?f (?p + 12)
      \<and> (\<not> consume \<longrightarrow> g = ?f)
      \<and> (\<forall>i. i < ?p + 16 \<or> ?p + 20 \<le> i \<longrightarrow> g i = ?f i)"
    using read_batch_flat [OF P(1,3,2) refl refl, where buf = buf and consume = consume] unfolding q_def by blast
  define n where "n = length (read_parts ops)"
  define batch where "batch = read_batch ch consume n rd' ops"
  obtain ops' t where ex: "exec batch u = (Ok ops', t)" "\<forall>op \<in> set ops'. no_error op"
    using exec_ok [OF u(2)] b(4) unfolding batch_def n_def by blast
  have "\<forall>op \<in> set batch. op_address op + op_bytes (op_kind op) \<le> limit"
    using b(4) unfolding batch_def n_def by (auto simp: plain_op_def)
  from exec_law [OF u(2) this ex(1,2)] u(3) have t: "ready t" "(ops', content t) = flat_ops batch ?f" by simp_all
  have fin: "read_parts ops' = take (length buf) q" "ch_queue (content t) ch = (if consume then drop (length buf) q else q)"
    "ch_word (content t) (?p + 16) = (if consume then rd' else ch_word ?f (?p + 16))"
    "ch_word (content t) (?p + 12) = ch_word ?f (?p + 12)" "\<not> consume \<longrightarrow> content t = ?f"
    "\<forall>i. i < ?p + 16 \<or> ?p + 20 \<le> i \<longrightarrow> content t i = ?f i"
    using flat t(2) unfolding batch_def n_def by auto
  have "\<forall>op \<in> set ops'. op_result op = Some (Ok ())" using t(2) flat_ops_done [of _ batch ?f] by (metis fst_conv)
  from no_error_results [OF this] have ff: "first_failure ops' = Ok ()" .
  have n: "n = min (length buf) (length q)" using b(3) by (simp add: n_def)
  have op: "(if consume \<and> n > 0
          then rmap (\<lambda>op. ops @ [op]) (write_read_buffer_ptr_operation (ch_info ch) ?p rd')
          else Ok ops) = (Ok batch :: ('e rtt_error, 'e operation list) res)"
    unfolding batch_def by (rule read_offset_op [OF P(1) b(2)])
  have run: "read_core m exec consume ch buf s
      = (Ok (n, read_parts ops' @ drop n buf, if consume then ch\<lparr>ch_last_read := Some rd'\<rparr> else ch), t)"
    using u(1) assms(3) b(1) op ff ex(1) unfolding read_core_def n_def by (auto simp: sbind_def Let_def map_err_def)
  have "take (length buf) q = take n q" "drop (length buf) q = drop n q" unfolding n by (simp_all add: min_def)
  moreover have "ch_ready limit (content t) ch"
    using P b(2) fin(3,4) ch_placedD(1,2) [OF P(1)] by (simp add: ch_ready_def)
  ultimately show ?thesis using run t(1) n fin by auto
qed

text \<open>The writes answer in the buffer, and leave what is outside of it.\<close>

lemma down_writes_total:
  assumes "ready s" "rd < sz" "wr < sz" "size_of_buffer (ch_info ch) = sz" "buffer_start_pointer (ch_info ch) = base"
    and "base + sz \<le> limit" "limit \<le> 2 ^ 64"
  shows "\<exists>n wr' t. down_writes m ch rd wr buf amount s = (Ok (n, wr'), t)"
  using assms
proof (induction "length buf" arbitrary: wr buf amount s rule: less_induct)
  case less
  define room where "room = (if rd > wr then rd - wr - 1 else if rd = 0 then sz - wr - 1 else sz - wr)"
  have wc: "writable_contiguous ch wr rd = (Ok room :: ('e rtt_error, nat) res)"
    using less.prems(2-4) by (auto simp: writable_contiguous_def room_def sub_r_def)
  define c where "c = min room (length buf)"
  show ?case
  proof (cases "buf = [] \<or> c = 0")
    case True
    then have "down_writes m ch rd wr buf amount s = (Ok (amount, wr), s)"
      using wc by (subst down_writes.simps) (auto simp: c_def [symmetric] Let_def)
    then show ?thesis by blast
  next
    case False
    then have ne: "buf \<noteq> []" "c \<noteq> 0" by simp_all
    have c: "c \<le> room" "c \<le> length buf" by (simp_all add: c_def)
    have fit: "wr + c \<le> sz" using c(1) less.prems(2,3) by (auto simp: room_def split: if_splits)
    define wr1 where "wr1 = (if wr + c \<ge> sz then 0 else wr + c)"
    have range: "base + wr + length (take c buf) \<le> limit" using fit less.prems(6) c(2) by simp
    obtain u where u: "mi_write m (base + wr) (take c buf) s = (Ok (), u)" using write_ok [OF less.prems(1) range] by blast
    have "base + wr < 2 ^ 64" using less.prems(3,6,7) by linarith
    then have run: "down_writes m ch rd wr buf amount s = down_writes m ch rd wr1 (drop c buf) (amount + c) u"
      using less.prems(4,5) ne wc u
      by (subst down_writes.simps) (simp add: Let_def c_def [symmetric] wr1_def sbind_def map_err_def add_w_def)
    have "base + wr + 1 * length (take c buf) \<le> limit" using range by simp
    from writes_asD [OF wr less.prems(1) this u] have "ready u" unfolding le_bytes_8 by simp
    moreover have "wr1 < sz" using less.prems(3) by (auto simp: wr1_def)
    moreover have "length (drop c buf) < length buf" using ne by (cases buf) auto
    ultimately show ?thesis unfolding run using less.hyps less.prems(2,4-7) by blast
  qed
qed

lemma down_write_total:
  assumes "ready s" "ch_ready limit (content s) ch"
  defines "q \<equiv> ch_queue (content s) ch"
  shows "\<exists>n t. down_write m ch buf s = (Ok n, t) \<and> ready t
    \<and> n = min (length buf) (ring_space (size_of_buffer (ch_info ch)) q)
    \<and> ch_queue (content t) ch = q @ take n buf \<and> ch_ready limit (content t) ch
    \<and> (\<forall>i. (i < ch_metadata ch + 12 \<or> ch_metadata ch + 16 \<le> i)
         \<and> (i < buffer_start_pointer (ch_info ch) \<or> buffer_start_pointer (ch_info ch) + size_of_buffer (ch_info ch) \<le> i)
         \<longrightarrow> content t i = content s i)"
proof -
  let ?f = "content s" and ?p = "ch_metadata ch" and ?sz = "size_of_buffer (ch_info ch)"
  let ?base = "buffer_start_pointer (ch_info ch)" and ?w = "ch_word (content s) (ch_metadata ch + 12)"
    and ?r = "ch_word (content s) (ch_metadata ch + 16)"
  note P = ch_readyD [OF assms(2)] and B = ch_placedD [OF ch_readyD(1) [OF assms(2)]]
  have apart: "?base + ?sz \<le> ?p \<or> ?p + 24 \<le> ?base" using P(1) by (simp add: ch_placed_def)
  have q: "q = ring ?f ?base ?sz ?r ?w" using B(1,2) by (simp add: q_def ch_queue_def)
  obtain u where u: "read_pointers m ch s = (Ok (?w, ?r), u)" "ready u" "content u = ?f"
    using read_pointers_total [OF assms(1,2)] by blast
  obtain n wr' v where v: "down_writes m ch ?r ?w buf 0 u = (Ok (n, wr'), v)"
    using down_writes_total [OF u(2) P(3,2) refl refl B(8,5)] by blast
  from down_writes_ring [OF v u(2) P(3,2) refl refl B(8)] u(3)
  have V: "ready v" "wr' < ?sz" "n = min (length buf) (ring_space ?sz q)"
    "ring (content v) ?base ?sz ?r wr' = q @ take n buf"
    "\<forall>i. i < ?base \<or> ?base + ?sz \<le> i \<longrightarrow> content v i = ?f i" by (simp_all add: q)
  let ?a = "?p + 12" and ?v = "of_nat wr' :: u32"
  have a: "4 dvd ?a" "?a + 4 * length [?v] \<le> limit" using B(4,6) by auto
  obtain t where t: "mi_write_32 m ?a [?v] v = (Ok (), t)" using write_32_ok [OF V(1) a] by blast
  from writes_asD [OF w32 V(1) a(2) t] have T: "ready t" "content t = poke (content v) ?a (to_le 4 ?v)" by simp_all
  obtain x where x: "ch_info ch = Buffer32 x" using P(1) by (auto simp: ch_placed_def)
  have lim: "?a < 2 ^ 64" "wr' < 2 ^ 32" using B(5,6,7) V(2) by linarith+
  then have "write_write_buffer_ptr m (ch_info ch) ?p wr' v = (Ok (), t)"
    using x t by (simp add: write_write_buffer_ptr_def sbind_def add_w_def to_u32_def map_err_def write_word_32_def)
  then have run: "down_write m ch buf s = (Ok n, t)" using u(1) v by (simp add: down_write_def sbind_def sret_def)
  have uv: "unat ?v = wr'" using lim(2) by (simp add: unat_of_nat)
  have "ch_word (content v) (?p + 16) = ?r" using V(5) apart by (intro ch_word_cong) auto
  then have words: "ch_word (content t) (?p + 12) = wr'" "ch_word (content t) (?p + 16) = ?r"
    using ch_word_poke(1) [of "content v" ?a ?v] ch_word_poke(2) [of "?p + 16" ?a "content v" ?v] uv
    unfolding T(2) by simp_all
  have "ch_queue (content t) ch = ring (content t) ?base ?sz ?r wr'" using B(1,2) words by (simp add: ch_queue_def)
  also have "\<dots> = ring (content v) ?base ?sz ?r wr'"
    unfolding T(2) using apart V(2) P(3) by (intro ring_poke_away) auto
  finally have "ch_queue (content t) ch = q @ take n buf" using V(4) by simp
  moreover have "ch_ready limit (content t) ch" using P words V(2) B(1,2) by (simp add: ch_ready_def)
  moreover have "content t i = ?f i" if "i < ?p + 12 \<or> ?p + 16 \<le> i" "i < ?base \<or> ?base + ?sz \<le> i" for i
    using that V(5) unfolding T(2) by (auto simp: poke_def)
  ultimately show ?thesis using run T(1) V(3) by blast
qed

text \<open>A word and its update.\<close>

lemma word_read:
  assumes "ready s" "4 dvd a" "a + 4 \<le> limit"
  obtains t where "read_word_32 m a s = (Ok (from_le (peek (content s) a 4)), t)" "ready t" "content t = content s"
proof -
  have a: "a + 4 * 1 \<le> limit" using assms(3) by simp
  obtain ws t where ws: "mi_read_32 m a 1 s = (Ok ws, t)" using read_32_ok [OF assms(1,2) a] by blast
  from reads_asD [OF r32 assms(1) a ws] have t: "ready t" "content t = content s" "le_bytes 4 ws = peek (content s) a 4" by simp_all
  have "length (le_bytes 4 ws) = 4" unfolding t(3) by simp
  then obtain w where w: "ws = [w]" by (auto simp: length_Suc_conv)
  then have "to_le 4 w = peek (content s) a 4" using t(3) by simp
  then have "w = from_le (peek (content s) a 4)" using from_le_32 [of w] by simp
  then have "read_word_32 m a s = (Ok (from_le (peek (content s) a 4)), t)"
    using ws w by (simp add: read_word_32_def sbind_def nth_r_def)
  from that [OF this t(1,2)] show thesis .
qed

lemma word_write:
  assumes "ready s" "4 dvd a" "a + 4 \<le> limit"
  obtains t where "write_word_32 m a v s = (Ok (), t)" "ready t" "content t = poke (content s) a (to_le 4 v)"
proof -
  have a: "a + 4 * length [v] \<le> limit" using assms(3) by simp
  obtain t where t: "mi_write_32 m a [v] s = (Ok (), t)" using write_32_ok [OF assms(1,2) a] by blast
  from writes_asD [OF w32 assms(1) a t] that t show thesis by (simp add: write_word_32_def)
qed

lemma flags_total:
  assumes "ready s" "ch_placed limit ch"
  obtains t where "read_flags m (ch_info ch) (ch_metadata ch) s = (Ok (ucast (from_le (peek (content s) (ch_metadata ch + 20) 4) :: u32)), t)"
    "ready t" "content t = content s"
proof -
  note P = ch_placedD [OF assms(2)]
  obtain x where x: "ch_info ch = Buffer32 x" using assms(2) by (auto simp: ch_placed_def)
  have a: "4 dvd ch_metadata ch + 20" "ch_metadata ch + 20 + 4 \<le> limit" "ch_metadata ch + 20 < 2 ^ 64" using P(4,5,6) by auto
  obtain t where t: "read_word_32 m (ch_metadata ch + 20) s = (Ok (from_le (peek (content s) (ch_metadata ch + 20) 4)), t)"
    "ready t" "content t = content s" using word_read [OF assms(1) a(1,2)] by blast
  then have "read_flags m (ch_info ch) (ch_metadata ch) s = (Ok (ucast (from_le (peek (content s) (ch_metadata ch + 20) 4) :: u32)), t)"
    using x a(3) by (simp add: read_flags_def sbind_def add_w_def map_err_def)
  from that [OF this t(2,3)] show thesis .
qed

end

text \<open>The mode is in the two low bits of the flags.\<close>

lemma mode_bits_high: "2 \<le> i \<Longrightarrow> \<not> bit (mode_bits mode) i"
  by (cases mode) (auto simp: bit_1_iff, metis bit_2_iff numeral_le_one_iff nat_le_linear semiring_norm(69) le_antisym One_nat_def)

lemma mode_set_bits: "mode_set mode flags AND 3 = mode_bits mode" "drop_bit 2 (mode_set mode flags) = drop_bit 2 flags"
proof -
  have m: "(3 :: u64) = mask 2" by (simp add: mask_eq_exp_minus_1)
  have low: "bit (mode_bits mode) i \<Longrightarrow> i < 2" for i using mode_bits_high [of i mode] by (cases "i < 2") auto
  show "mode_set mode flags AND 3 = mode_bits mode"
    unfolding mode_set_def m by (rule bit_word_eqI) (use low in \<open>auto simp: bit_simps\<close>)
  show "drop_bit 2 (mode_set mode flags) = drop_bit 2 flags"
    unfolding mode_set_def m by (rule bit_word_eqI) (auto simp: bit_simps mode_bits_high dest: bit_imp_le_length)
qed

lemma mode_of_bits: "mode_of (mode_bits mode) = Ok mode"
  by (cases mode) (simp_all add: mode_of_def)

lemma mode_set_32: "ucast (ucast (mode_set mode (ucast (w :: u32))) :: u32) = mode_set mode (ucast w)"
proof -
  have "\<not> bit (mode_set mode (ucast w)) i" if "32 \<le> i" for i
    using that mode_bits_high [of i mode] unfolding mode_set_def by (auto simp: bit_simps dest: bit_imp_le_length)
  then show ?thesis
    by (intro bit_word_eqI) (auto simp: bit_simps not_le [symmetric])
qed

subsection \<open>Sessions\<close>

text \<open>
  An up channel in use: the host reads, and the target adds to the queue and leaves the read offset
  alone. The state has what was sent and what was delivered.
\<close>

inductive rtt_session ::
  "('s, 'e) memory_interface \<Rightarrow> ('e operation list \<Rightarrow> ('s, 'e, 'e operation list) rsm) \<Rightarrow> ('s \<Rightarrow> bool) \<Rightarrow> ('s \<Rightarrow> flat) \<Rightarrow> nat
     \<Rightarrow> 's \<times> channel \<times> u8 list \<times> u8 list \<Rightarrow> 's \<times> channel \<times> u8 list \<times> u8 list \<Rightarrow> bool"
  for m exec ready content limit where
  session_start: "rtt_session m exec ready content limit c c"
| session_read: "rtt_session m exec ready content limit c (s, ch, sent, got) \<Longrightarrow>
    up_read m exec ch buf s = (Ok (n, buf', ch'), t) \<Longrightarrow>
    rtt_session m exec ready content limit c (t, ch', sent, got @ take n buf')"
| session_peek: "rtt_session m exec ready content limit c (s, ch, sent, got) \<Longrightarrow>
    up_peek m exec ch buf s = (Ok (n, buf', ch'), t) \<Longrightarrow>
    rtt_session m exec ready content limit c (t, ch', sent, got)"
| session_target: "rtt_session m exec ready content limit c (s, ch, sent, got) \<Longrightarrow>
    ready t \<Longrightarrow> ch_ready limit (content t) ch \<Longrightarrow>
    ch_queue (content t) ch = ch_queue (content s) ch @ bs \<Longrightarrow>
    ch_word (content t) (ch_metadata ch + read_ptr_offset (ch_info ch))
      = ch_word (content s) (ch_metadata ch + read_ptr_offset (ch_info ch)) \<Longrightarrow>
    rtt_session m exec ready content limit c (t, ch, sent @ bs, got)"

definition attached :: "('s \<Rightarrow> bool) \<Rightarrow> ('s \<Rightarrow> flat) \<Rightarrow> nat \<Rightarrow> 's \<Rightarrow> channel \<Rightarrow> bool" where
  "attached ready content limit s ch \<longleftrightarrow> ready s \<and> ch_ready limit (content s) ch
     \<and> ch_last_read ch \<in> {None, Some (ch_word (content s) (ch_metadata ch + 16))}"

context answering_interface
begin

lemma read_core_attached:
  assumes "attached ready content limit s ch" "read_core m exec consume ch buf s = (Ok (n, buf', ch'), t)"
  shows "attached ready content limit t ch'" "ch_queue (content s) ch = (if consume then take n buf' else []) @ ch_queue (content t) ch'"
    "n = min (length buf) (length (ch_queue (content s) ch))" "buf' = take n (ch_queue (content s) ch) @ drop n buf"
proof -
  let ?q = "ch_queue (content s) ch"
  obtain n2 b2 c2 t2 where r: "read_core m exec consume ch buf s = (Ok (n2, b2, c2), t2)" "ready t2"
    "n2 = min (length buf) (length ?q)" "b2 = take n2 ?q @ drop n2 buf"
    "ch_queue (content t2) ch = (if consume then drop n2 ?q else ?q)"
    "c2 = (if consume then ch\<lparr>ch_last_read := Some (ch_word (content t2) (ch_metadata ch + 16))\<rparr> else ch)"
    "ch_ready limit (content t2) ch" "\<not> consume \<longrightarrow> content t2 = content s" "\<forall>i. i < ch_metadata ch + 16 \<or> ch_metadata ch + 20 \<le> i \<longrightarrow> content t2 i = content s i"
    using read_core_total [of s ch consume buf] assms(1) unfolding attached_def by blast
  have eq: "n2 = n" "b2 = buf'" "c2 = ch'" "t2 = t" using assms(2) r(1) by simp_all
  show "n = min (length buf) (length ?q)" "buf' = take n ?q @ drop n buf" using r(3,4) eq by simp_all
  have same: "ch_queue f (ch\<lparr>ch_last_read := x\<rparr>) = ch_queue f ch" "ch_ready limit f (ch\<lparr>ch_last_read := x\<rparr>) = ch_ready limit f ch"
    for f x by (simp_all add: ch_queue_def ch_ready_def ch_placed_def)
  have tk: "take n buf' = take n ?q" using r(3,4) eq by simp
  show "?q = (if consume then take n buf' else []) @ ch_queue (content t) ch'"
    unfolding tk using r(5,6) eq same by auto
  show "attached ready content limit t ch'"
    using r(2,6,7,8) eq same assms(1) by (auto simp: attached_def)
qed

end

lemma session_invariant:
  assumes "answering_interface m ready content limit exec"
    and "rtt_session m exec ready content limit (s0, ch0, [], []) (s, ch, sent, got)" "attached ready content limit s0 ch0"
  shows "attached ready content limit s ch \<and> ch_queue (content s0) ch0 @ sent = got @ ch_queue (content s) ch"
  using assms(2,3)
proof (induction "(s0, ch0, [] :: u8 list, [] :: u8 list)" "(s, ch, sent, got)" arbitrary: s ch sent got rule: rtt_session.induct)
  case session_start
  then show ?case by simp
next
  case (session_read s ch sent got buf n buf' ch' t)
  note A = answering_interface.read_core_attached [OF assms(1) _ session_read(3) [unfolded up_read_def]]
  show ?case using session_read(2,4) A by simp
next
  case (session_peek s ch sent got buf n buf' ch' t)
  note A = answering_interface.read_core_attached [OF assms(1) _ session_peek(3) [unfolded up_peek_def]]
  show ?case using session_peek(2,4) A by simp
next
  case (session_target s ch sent got t bs)
  have "ch_placed limit ch" using session_target(4) by (simp add: ch_ready_def)
  from session_target ch_placedD(2) [OF this] show ?case by (auto simp: attached_def)
qed

subsection \<open>A channel in a small memory\<close>

definition mock_holding :: "u8 list \<Rightarrow> mock_ap adi" where
  "mock_holding bytes = (let s = mock_started 0 in s\<lparr>adi_dap := (adi_dap s)\<lparr>mo_memory := bytes\<rparr>\<rparr>)"

lemma mock_holding_wide: "length bytes = mock_limit k \<Longrightarrow> mock_wide k (mock_holding bytes)"
proof -
  assume len: "length bytes = mock_limit k"
  have csw: "csw_size (ahb3_csw 0) = DsU8" "csw_addr_inc (ahb3_csw 0) = IncSingle" by code_simp+
  have cfg: "\<not> cfg_la 0" "\<not> cfg_ld 0" by (simp_all add: cfg_la_def cfg_ld_def)
  let ?s = "mock_holding bytes"
  let ?v = "\<lparr>av_size = DsU8, av_inc = IncSingle, av_hi = 0, av_lo = None, av_mem = mock_mem (adi_dap ?s)\<rparr>"
  have "mock_view (mock_limit k) ?v (adi_dap ?s)"
    unfolding mock_view_def using csw len
    by (auto simp: mock_holding_def mock_started_def with_pattern_and_size_def register_addresses Let_def)
  moreover have "agrees False (adi_ap ?s) ?v"
    using csw cfg by (simp add: agrees_def mock_holding_def mock_started_def large_address_def large_data_def only_32bit_def Let_def)
  ultimately have "adi_ready False (mock_view (mock_limit k)) ?s" unfolding adi_ready_def by blast
  then show ?thesis by (simp add: mock_wide_def mock_holding_def mock_started_def only_32bit_def Let_def)
qed

definition rtt_bytes :: "u8 list" where
  "rtt_bytes = concat (map (to_le 4) [0, 32, 8, 2, 6, 2, 0, 0 :: u32]) @ [1, 2, 3, 4, 5, 6, 7, 8] @ replicate 24 0"

definition rtt_state :: "mock_ap adi" where
  "rtt_state = mock_holding rtt_bytes"

definition rtt_example :: channel where
  "rtt_example = \<lparr>ch_number = 0, ch_name = None, ch_metadata = 0,
     ch_info = Buffer32 \<lparr>ri_name_pointer = 0, ri_buffer_start = 32, ri_size = 8, ri_write = 2, ri_read = 6, ri_flags = 2\<rparr>,
     ch_last_read = None\<rparr>"

lemma rtt_state_content: "mock_content rtt_state = (\<lambda>i. if i < 64 then rtt_bytes ! i else 0)"
proof -
  have "length rtt_bytes = 64" by (simp add: rtt_bytes_def)
  then show ?thesis by (simp add: rtt_state_def mock_holding_def adi_content_def mock_mem_def Let_def fun_eq_iff)
qed

lemma rtt_state_wide: "mock_wide 16 rtt_state"
  unfolding rtt_state_def by (rule mock_holding_wide) (simp add: rtt_bytes_def mock_limit_16)

lemma rtt_words: "ch_word (mock_content rtt_state) 12 = 2" "ch_word (mock_content rtt_state) 16 = 6"
  "ch_word (mock_content rtt_state) 20 = 2"
  unfolding rtt_state_content by code_simp+

lemma rtt_example_simps: "ch_metadata rtt_example = 0" "write_ptr_offset (ch_info rtt_example) = 12"
  "read_ptr_offset (ch_info rtt_example) = 16" "size_of_buffer (ch_info rtt_example) = 8"
  "buffer_start_pointer (ch_info rtt_example) = 32" "ch_last_read rtt_example = None"
  by (simp_all add: rtt_example_def size_of_buffer_def buffer_start_pointer_def)

lemma rtt_example_ready: "ch_ready (mock_limit 16) (mock_content rtt_state) rtt_example"
proof -
  have "ch_placed (mock_limit 16) rtt_example"
    unfolding ch_placed_def rtt_example_simps by (simp add: mock_limit_16) (simp add: rtt_example_def)
  then show ?thesis by (simp add: ch_ready_def rtt_example_simps rtt_words)
qed

lemma rtt_example_queue: "ch_queue (mock_content rtt_state) rtt_example = [7, 8, 1, 2]"
proof -
  have "ring (mock_content rtt_state) 32 8 6 2 = [7, 8, 1, 2]" unfolding rtt_state_content by code_simp
  then show ?thesis by (simp add: ch_queue_def rtt_example_simps rtt_words)
qed

lemma rtt_example_attached: "attached (mock_wide 16) mock_content (mock_limit 16) rtt_state rtt_example"
  using rtt_state_wide rtt_example_ready by (simp add: attached_def rtt_example_simps)

subsection \<open>Claims\<close>

text \<open>C18. Reading an up channel takes the oldest queued bytes: on a memory interface that behaves as a
  flat memory, \<open>read\<close> fills the buffer as far as the queue goes, removes just those bytes from the queue
  and changes nothing of the memory but the read offset.\<close>

theorem up_read_takes_the_oldest:
  assumes "answering_interface m ready content limit exec" "attached ready content limit s ch"
  shows "\<exists>n ch' t. up_read m exec ch buf s
        = (Ok (n, take n (ch_queue (content s) ch) @ drop n buf, ch'), t)
    \<and> n = min (length buf) (length (ch_queue (content s) ch))
    \<and> ch_queue (content t) ch' = drop n (ch_queue (content s) ch)
    \<and> attached ready content limit t ch'
    \<and> (\<forall>i. i < ch_metadata ch + 16 \<or> ch_metadata ch + 20 \<le> i \<longrightarrow> content t i = content s i)"
proof -
  have s: "ready s" "ch_ready limit (content s) ch"
    "ch_last_read ch \<in> {None, Some (ch_word (content s) (ch_metadata ch + 16))}"
    using assms(2) by (simp_all add: attached_def)
  obtain n buf' ch' t where r: "read_core m exec True ch buf s = (Ok (n, buf', ch'), t)"
    "n = min (length buf) (length (ch_queue (content s) ch))" "buf' = take n (ch_queue (content s) ch) @ drop n buf"
    "\<forall>i. i < ch_metadata ch + 16 \<or> ch_metadata ch + 20 \<le> i \<longrightarrow> content t i = content s i"
    using answering_interface.read_core_total [OF assms(1) s, of True buf] by blast
  note A = answering_interface.read_core_attached [OF assms(1,2) r(1)]
  have "ch_queue (content t) ch' = drop n (ch_queue (content s) ch)"
    using A(2) r(2,3) by (metis append_eq_conv_conj append_take_drop_id if_True same_append_eq take_take min.idem take_append
        length_take min.cobounded2 min.absorb2 diff_self_eq_0 take0 append_Nil2 take_all_iff nle_le)
  then show ?thesis using r A(1) by (auto simp: up_read_def)
qed

theorem up_read_takes_the_oldest_witness:
  "\<exists>ch' t. up_read (adi_interface mock_dap) (adi_execute_memory_operations mock_dap) rtt_example [0, 0, 0] rtt_state
      = (Ok (3, [7, 8, 1], ch'), t) \<and> ch_queue (mock_content t) ch' = [2]"
  using up_read_takes_the_oldest [OF mock_core.answering_interface_axioms rtt_example_attached, of "[0, 0, 0]"]
  by (simp add: rtt_example_queue numeral_3_eq_3) blast

text \<open>C19. Writing to a down channel appends: as many bytes of the buffer as there is room for (one byte
  of the ring stays free) come after what is queued, and of the memory only the ring and the write
  offset change.\<close>

theorem down_write_appends:
  assumes "answering_interface m ready content limit exec" "ready s" "ch_ready limit (content s) ch"
  shows "\<exists>n t. down_write m ch buf s = (Ok n, t)
    \<and> n = min (length buf) (size_of_buffer (ch_info ch) - 1 - length (ch_queue (content s) ch))
    \<and> ch_queue (content t) ch = ch_queue (content s) ch @ take n buf
    \<and> ready t \<and> ch_ready limit (content t) ch
    \<and> (\<forall>i. (i < ch_metadata ch + 12 \<or> ch_metadata ch + 16 \<le> i)
         \<and> (i < buffer_start_pointer (ch_info ch) \<or> buffer_start_pointer (ch_info ch) + size_of_buffer (ch_info ch) \<le> i)
         \<longrightarrow> content t i = content s i)"
  using answering_interface.down_write_total [OF assms, of buf] unfolding ring_space_def by blast

theorem down_write_appends_witness:
  "\<exists>t. down_write (adi_interface mock_dap) rtt_example [10, 11, 12, 13, 14] rtt_state = (Ok 3, t)
    \<and> ch_queue (mock_content t) rtt_example = [7, 8, 1, 2, 10, 11, 12]"
  using down_write_appends [OF mock_core.answering_interface_axioms rtt_state_wide rtt_example_ready, of "[10, 11, 12, 13, 14]"]
  by (simp add: rtt_example_queue rtt_example_simps numeral_3_eq_3) blast

text \<open>C5. Nothing is lost, repeated or reordered: however reads and peeks of the host interleave with
  writes of the target to its end of an up channel, what was delivered is what was queued and sent
  at first, up to what is still queued, and the channel stays in a state in which reads succeed.\<close>

theorem rtt_session_delivers_in_order:
  assumes "answering_interface m ready content limit exec" "attached ready content limit s0 ch0"
    and "rtt_session m exec ready content limit (s0, ch0, [], []) (s, ch, sent, got)"
  shows "ch_queue (content s0) ch0 @ sent = got @ ch_queue (content s) ch \<and> attached ready content limit s ch"
  using session_invariant [OF assms(1,3,2)] by blast

theorem rtt_session_delivers_in_order_witness:
  "\<exists>s ch. rtt_session (adi_interface mock_dap) (adi_execute_memory_operations mock_dap) (mock_wide 16) mock_content (mock_limit 16)
      (rtt_state, rtt_example, [], []) (s, ch, [], [7, 8, 1])
    \<and> [7, 8, 1, 2] = [7, 8, 1] @ ch_queue (mock_content s) ch"
proof -
  let ?m = "adi_interface mock_dap" and ?exec = "adi_execute_memory_operations mock_dap"
  obtain ch t where "read_core ?m ?exec True rtt_example [0, 0, 0] rtt_state = (Ok (3, [7, 8, 1], ch), t)"
    using mock_core.read_core_total [of 16 rtt_state rtt_example True "[0, 0, 0]"] rtt_example_attached
    by (auto simp: attached_def rtt_example_queue)
  from session_read [OF session_start this [folded up_read_def], of "mock_wide 16" mock_content "mock_limit 16" "[]" "[]"]
  have run: "rtt_session ?m ?exec (mock_wide 16) mock_content (mock_limit 16) (rtt_state, rtt_example, [], []) (t, ch, [], [7, 8, 1])"
    by simp
  from rtt_session_delivers_in_order [OF mock_core.answering_interface_axioms rtt_example_attached run]
  show ?thesis using run rtt_example_queue by auto
qed

text \<open>The number of passes of the read loop.\<close>

lemma up_reads_step:
  assumes "up_reads ch wr rd buf = Ok (ops, rd')" "rd < size_of_buffer (ch_info ch)" "wr < size_of_buffer (ch_info ch)"
  defines "end \<equiv> (if rd > wr then size_of_buffer (ch_info ch) else wr)"
  shows "(ops = [] \<and> rd' = rd) \<or> (\<exists>op more. ops = op # more \<and> buf \<noteq> [] \<and> rd < end
    \<and> up_reads ch wr (if rd + min (end - rd) (length buf) \<ge> size_of_buffer (ch_info ch) then 0 else rd + min (end - rd) (length buf))
        (drop (min (end - rd) (length buf)) buf) = Ok (more, rd'))"
proof -
  have rc: "readable_contiguous ch wr rd = (Ok (end - rd) :: ('a rtt_error, nat) res)"
    using assms(2,3) by (auto simp: readable_contiguous_def end_def sub_r_def)
  show ?thesis using assms(1) unfolding up_reads.simps [of ch wr rd buf] rc
    by (auto simp: Let_def split: if_splits)
qed

lemma up_reads_one:
  assumes "up_reads ch wr rd buf = Ok (ops, rd')" "rd \<le> wr" "wr < size_of_buffer (ch_info ch)"
  shows "length ops \<le> 1"
proof -
  have r: "rd < size_of_buffer (ch_info ch)" "\<not> rd > wr" using assms(2,3) by simp_all
  from up_reads_step [OF assms(1) r(1) assms(3)] show ?thesis
  proof (elim disjE exE conjE)
    fix op more
    let ?c = "min (wr - rd) (length buf)"
    assume o: "ops = op # more" "buf \<noteq> []"
      and m: "up_reads ch wr (if rd + min ((if rd > wr then size_of_buffer (ch_info ch) else wr) - rd) (length buf)
          \<ge> size_of_buffer (ch_info ch) then 0 else rd + min ((if rd > wr then size_of_buffer (ch_info ch) else wr) - rd) (length buf))
        (drop (min ((if rd > wr then size_of_buffer (ch_info ch) else wr) - rd) (length buf)) buf) = Ok (more, rd')"
    have "rd + ?c < size_of_buffer (ch_info ch)" using assms(2,3) by linarith
    then have nxt: "up_reads ch wr (rd + ?c) (drop ?c buf) = Ok (more, rd')" using m r(2) by simp
    have "more = []"
    proof (cases "drop ?c buf = []")
      case True
      then show ?thesis using nxt by (simp add: up_reads.simps)
    next
      case False
      then have "rd + ?c = wr" using assms(2) by auto
      then have "readable_contiguous ch wr (rd + ?c) = (Ok 0 :: ('a rtt_error, nat) res)"
        by (simp add: readable_contiguous_def sub_r_def)
      then show ?thesis using nxt by (subst (asm) up_reads.simps) (auto simp: Let_def split: if_splits)
    qed
    then show ?thesis using o by simp
  qed simp
qed

text \<open>The read loop ends after at most two passes, as its comment says, and the batch has room for
  them and the update of the offset.\<close>

theorem up_reads_two_passes:
  assumes "up_reads ch wr rd buf = Ok (ops, rd')" "rd < size_of_buffer (ch_info ch)" "wr < size_of_buffer (ch_info ch)"
  shows "length ops \<le> 2"
proof (cases "rd \<le> wr")
  case True
  from up_reads_one [OF assms(1) True assms(3)] show ?thesis by simp
next
  case False
  from up_reads_step [OF assms] show ?thesis
  proof (elim disjE exE conjE)
    fix op more
    let ?sz = "size_of_buffer (ch_info ch)"
    let ?c = "min ((if rd > wr then ?sz else wr) - rd) (length buf)"
    assume o: "ops = op # more"
      and m: "up_reads ch wr (if rd + ?c \<ge> ?sz then 0 else rd + ?c) (drop ?c buf) = Ok (more, rd')"
    have "length more \<le> 1"
    proof (cases "rd + ?c \<ge> ?sz")
      case True
      then show ?thesis using up_reads_one [of ch wr 0 "drop ?c buf" more rd'] m assms(3) by simp
    next
      case notwrap: False
      then have "drop ?c buf = []" using False by auto
      then show ?thesis using m by (simp add: up_reads.simps)
    qed
    then show ?thesis using o by simp
  qed simp
qed

theorem up_reads_two_passes_witness:
  "case (up_reads rtt_example 2 6 [0, 0, 0] :: (nat rtt_error, nat operation list \<times> nat) res) of
     Ok (ops, rd') \<Rightarrow> length ops = 2 \<and> length ops \<le> 2 \<and> rd' = 1 | _ \<Rightarrow> False"
proof -
  have r: "(up_reads rtt_example 2 6 [0, 0, 0] :: (nat rtt_error, nat operation list \<times> nat) res)
      = Ok ([operation_new 38 (OpRead [0, 0]), operation_new 32 (OpRead [0])], 1)"
  proof -
    note ex = rtt_example_simps readable_contiguous_def sub_r_def add_w_def Let_def
    have "up_reads rtt_example 2 1 [] = (Ok ([], 1) :: (nat rtt_error, nat operation list \<times> nat) res)"
      by (simp add: up_reads.simps)
    then have "up_reads rtt_example 2 0 [0] = (Ok ([operation_new 32 (OpRead [0])], 1) :: (nat rtt_error, nat operation list \<times> nat) res)"
      by (subst up_reads.simps) (simp add: ex)
    then show ?thesis by (subst up_reads.simps) (simp add: ex)
  qed
  have "length [operation_new 38 (OpRead [0, 0]), operation_new 32 (OpRead [0]) :: nat operation] \<le> 2"
    by (rule up_reads_two_passes [OF r]) (simp_all add: rtt_example_simps)
  then show ?thesis unfolding r by simp
qed

lemma unat_less: "unat (w :: 'w::len word) < 2 ^ LENGTH('w)"
  by (rule unsigned_less)

lemma unat_drop_2: "unat (drop_bit 2 w) = unat w div 4"
  unfolding unat_drop_bit_eq by (simp add: drop_bit_eq_div)

lemma unat_up: "unat (ucast (w :: u32) :: u64) = unat w"
proof -
  have "unat w < 2 ^ 64" using unat_less [of w] by simp
  then show ?thesis by (simp add: unsigned_ucast_eq take_bit_nat_eq_self_iff)
qed

text \<open>C36. Setting the mode of a channel and reading it back gives the mode; the other bits of the flags,
  which the target owns, and all other memory keep their values.\<close>

theorem mode_round_trip:
  assumes "answering_interface m ready content limit exec" "ready s" "ch_placed limit ch"
  shows "\<exists>t u. ch_set_mode m ch mode s = (Ok (), t) \<and> ch_mode m ch t = (Ok mode, u)
    \<and> ch_word (content t) (ch_metadata ch + 20) div 4 = ch_word (content s) (ch_metadata ch + 20) div 4
    \<and> (\<forall>i. i < ch_metadata ch + 20 \<or> ch_metadata ch + 24 \<le> i \<longrightarrow> content t i = content s i)"
proof -
  let ?p = "ch_metadata ch + 20" and ?f = "content s"
  let ?w = "from_le (peek ?f ?p 4) :: u32"
  let ?new = "mode_set mode (ucast ?w)"
  obtain x where x: "ch_info ch = Buffer32 x" using assms(3) by (auto simp: ch_placed_def)
  note P = ch_placedD [OF assms(3)]
  have a: "4 dvd ?p" "?p + 4 \<le> limit" "?p < 2 ^ 64" using P(4,5,6) by auto
  obtain s1 where s1: "read_flags m (ch_info ch) (ch_metadata ch) s = (Ok (ucast ?w), s1)" "ready s1" "content s1 = ?f"
    using answering_interface.flags_total [OF assms] by blast
  obtain t where t: "write_word_32 m ?p (ucast ?new) s1 = (Ok (), t)" "ready t" "content t = poke ?f ?p (to_le 4 (ucast ?new :: u32))"
    using answering_interface.word_write [OF assms(1) s1(2) a(1,2)] s1(3) by metis
  have small: "unat ?new < 2 ^ 32" and val: "(of_nat (unat ?new) :: u32) = ucast ?new"
  proof -
    have "unat (ucast ?new :: u32) = unat ?new" using arg_cong [OF mode_set_32 [of mode ?w], of unat] by (simp add: unat_up)
    then show "unat ?new < 2 ^ 32" using unat_less [of "ucast ?new :: u32"] by simp
    show "(of_nat (unat ?new) :: u32) = ucast ?new" by simp
  qed
  have setm: "ch_set_mode m ch mode s = (Ok (), t)"
    using s1(1) t(1) small val x a(3)
    by (simp add: ch_set_mode_def sbind_def write_flags_def add_w_def to_u32_def map_err_def)
  have rb: "(from_le (peek (content t) ?p 4) :: u32) = ucast ?new"
    using peek_poke [of ?f ?p "to_le 4 (ucast ?new :: u32)"] unfolding t(3) by (simp add: from_le_32)
  obtain u where u: "read_flags m (ch_info ch) (ch_metadata ch) t = (Ok ?new, u)"
    using answering_interface.flags_total [OF assms(1) t(2) assms(3)] rb mode_set_32 [of mode ?w] by metis
  have get: "ch_mode m ch t = (Ok mode, u)"
    using u mode_set_bits(1) [of mode "ucast ?w"] by (simp add: ch_mode_def sbind_def mode_of_bits)
  have "ch_word (content t) ?p = unat ?new"
    using arg_cong [OF mode_set_32 [of mode ?w], of unat] rb by (simp add: ch_word_def unat_up)
  then have "ch_word (content t) ?p div 4 = unat (drop_bit 2 ?new)" by (simp add: unat_drop_2)
  also have "\<dots> = ch_word ?f ?p div 4"
    unfolding mode_set_bits(2) by (simp add: unat_drop_2 ch_word_def unat_up)
  finally have "ch_word (content t) ?p div 4 = ch_word ?f ?p div 4" .
  moreover have "content t i = ?f i" if "i < ?p \<or> ?p + 4 \<le> i" for i using that unfolding t(3) by (auto simp: poke_def)
  ultimately show ?thesis using setm get by auto
qed

theorem mode_round_trip_witness:
  "\<exists>t u. ch_set_mode (adi_interface mock_dap) rtt_example NoBlockTrim rtt_state = (Ok (), t)
    \<and> ch_mode (adi_interface mock_dap) rtt_example t = (Ok NoBlockTrim, u)"
  using mode_round_trip [OF mock_core.answering_interface_axioms rtt_state_wide ch_readyD(1) [OF rtt_example_ready]] by blast

text \<open>C37. When an offset in the target memory is not inside the ring, no transfer of the channel touches
  the memory: a read, a peek and a write all report a corrupted control block and leave the memory as it
  is. (The mode of the channel can still be read and set; neither looks at the offsets.)\<close>

theorem corrupt_offsets_refused:
  assumes "answering_interface m ready content limit exec" "ready s" "ch_placed limit ch" "\<not> ch_ready limit (content s) ch"
  shows "\<exists>c t. up_read m exec ch buf s = (Err (ControlBlockCorrupted c), t)
    \<and> up_peek m exec ch buf s = (Err (ControlBlockCorrupted c), t)
    \<and> down_write m ch buf s = (Err (ControlBlockCorrupted c), t)
    \<and> ready t \<and> content t = content s"
proof -
  obtain which v t where r: "read_pointers m ch s = (Err (ControlBlockCorrupted (PointerTooLarge which v (size_of_buffer (ch_info ch)))), t)"
    "ready t" "content t = content s"
    using answering_interface.read_pointers_refused [OF assms] by blast
  then show ?thesis
    by (auto simp: up_read_def up_peek_def read_core_def down_write_def sbind_def)
qed

definition rtt_broken :: channel where
  "rtt_broken = rtt_example\<lparr>ch_info := Buffer32 ((buffer_inner (ch_info rtt_example))\<lparr>ri_size := 5\<rparr>)\<rparr>"

theorem corrupt_offsets_refused_witness:
  "\<exists>c t. up_read (adi_interface mock_dap) (adi_execute_memory_operations mock_dap) rtt_broken [0, 0] rtt_state
      = (Err (ControlBlockCorrupted c), t) \<and> mock_content t = mock_content rtt_state"
proof -
  have b: "ch_metadata rtt_broken = 0" "write_ptr_offset (ch_info rtt_broken) = 12" "read_ptr_offset (ch_info rtt_broken) = 16"
    "size_of_buffer (ch_info rtt_broken) = 5" "buffer_start_pointer (ch_info rtt_broken) = 32"
    by (simp_all add: rtt_broken_def rtt_example_def size_of_buffer_def buffer_start_pointer_def)
  have p: "ch_placed (mock_limit 16) rtt_broken"
    unfolding ch_placed_def b by (simp add: mock_limit_16) (simp add: rtt_broken_def)
  moreover have "\<not> ch_ready (mock_limit 16) (mock_content rtt_state) rtt_broken"
    by (simp add: ch_ready_def b rtt_words)
  ultimately show ?thesis
    using corrupt_offsets_refused [OF mock_core.answering_interface_axioms rtt_state_wide, of rtt_broken "[0, 0]"] by blast
qed

text \<open>C25. On a 64-bit target no write to a down channel through an ARM memory AP succeeds: the descriptor
  is aligned to its pointers, the write offset is then at four modulo eight, and the code updates
  this 32-bit field by a 64-bit write, which the AP interface refuses.\<close>

theorem down_write_64_never_succeeds:
  assumes "ch_info ch = Buffer64 x" "8 dvd ch_metadata ch"
  shows "fst (down_write (adi_interface dap) ch buf s) \<noteq> Ok n"
proof
  assume "fst (down_write (adi_interface dap) ch buf s) = Ok n"
  then obtain t where "down_write (adi_interface dap) ch buf s = (Ok n, t)" by (metis prod.collapse)
  then obtain a v u where "a = ch_metadata ch + 20" "mi_write_64 (adi_interface dap) a [v] u = (Ok (), t)"
    using assms(1) by (auto simp: down_write_def write_write_buffer_ptr_def write_word_64_def split: prod.splits)
  moreover have "\<not> 8 dvd ch_metadata ch + 20"
    using assms(2) by (auto simp: dvd_def) presburger
  ultimately show False
    by (auto simp: adi_interface_def adi_prims_def memory_prims.defs adi_write_64_def split: if_splits)
qed

theorem down_write_64_never_succeeds_witness:
  "fst (down_write (adi_interface mock_dap)
      (rtt_example\<lparr>ch_info := Buffer64 (buffer_inner (ch_info rtt_example))\<rparr>) [1] rtt_state) \<noteq> Ok 1"
  by (rule down_write_64_never_succeeds) (simp_all add: rtt_example_def)

lemma to_le_8_ucast: "to_le 8 (ucast (w :: u32) :: u64) = to_le 4 w @ to_le 4 (0 :: u32)"
proof (rule nth_equalityI)
  fix i assume "i < length (to_le 8 (ucast w :: u64))"
  then have i: "i < 8" by simp
  have "ucast (drop_bit (8 * i) (ucast w :: u64)) = (ucast (drop_bit (8 * i) w) :: u8)"
    by (rule bit_word_eqI) (use i in \<open>auto simp: bit_simps dest: bit_imp_le_length\<close>)
  moreover have "drop_bit (8 * i) w = 0" if "4 \<le> i"
    by (rule bit_word_eqI) (use that in \<open>auto simp: bit_simps dest: bit_imp_le_length\<close>)
  ultimately show "to_le 8 (ucast w :: u64) ! i = (to_le 4 w @ to_le 4 (0 :: u32)) ! i"
    using i by (auto simp: to_le_def nth_append)
qed simp

text \<open>On a 64-bit target the update of the read offset after a read of an up channel also writes the
  flags behind it: as 64 bits go to a field of 32, the mode of the channel becomes skipping.\<close>

theorem read_offset_64_clears_flags:
  assumes "write_read_buffer_ptr_operation (Buffer64 x) ptr v = Ok op" "v < 2 ^ 32"
    and "flat_op (op_address op) (op_kind op) f = (k, g)"
  shows "ch_word g (ptr + read_ptr_offset (Buffer64 x)) = v \<and> ch_word g (ptr + flags_offset (Buffer64 x)) = 0"
proof -
  have g: "g = poke f (ptr + 24) (to_le 8 (of_nat v :: u64))"
    using assms(1,3) by (auto simp: write_read_buffer_ptr_operation_def operation_new_def)
  have "peek g (ptr + 24) 8 = to_le 8 (of_nat v :: u64)" using peek_poke [of f "ptr + 24" "to_le 8 (of_nat v :: u64)"] g by simp
  moreover have "peek g (ptr + 24) 8 = peek g (ptr + 24) 4 @ peek g (ptr + 28) 4" using peek_append [of g "ptr + 24" 4 4] by (simp add: add.commute)
  moreover have "to_le 8 (of_nat v :: u64) = to_le 4 (of_nat v :: u32) @ to_le 4 (0 :: u32)"
  proof -
    have "of_nat v = (ucast (of_nat v :: u32) :: u64)"
      unfolding word_unat_eq_iff using assms(2) by (simp add: unat_up unat_of_nat)
    then show ?thesis using to_le_8_ucast by metis
  qed
  ultimately have "peek g (ptr + 24) 4 = to_le 4 (of_nat v :: u32)" "peek g (ptr + 28) 4 = to_le 4 (0 :: u32)" by simp_all
  moreover have "unat (of_nat v :: u32) = v" using assms(2) by (simp add: unat_of_nat)
  ultimately show ?thesis by (simp add: ch_word_def from_le_32)
qed

theorem read_offset_64_clears_flags_witness:
  "case (write_read_buffer_ptr_operation (Buffer64 (buffer_inner (ch_info rtt_example))) 0 5 :: (nat rtt_error, nat operation) res) of
     Ok op \<Rightarrow> ch_word (snd (flat_op (op_address op) (op_kind op) (\<lambda>_. 1))) 24 = 5
       \<and> ch_word (snd (flat_op (op_address op) (op_kind op) (\<lambda>_. 1))) 28 = 0
   | _ \<Rightarrow> False"
proof -
  let ?x = "buffer_inner (ch_info rtt_example)"
  have op: "write_read_buffer_ptr_operation (Buffer64 ?x) 0 5 = Ok (operation_new 24 (OpWriteWord64 5) :: nat operation)"
    by (simp add: write_read_buffer_ptr_operation_def add_w_def)
  obtain k g where kg: "flat_op 24 (OpWriteWord64 5) (\<lambda>_. 1) = (k, g)" by fastforce
  have "ch_word g 24 = 5 \<and> ch_word g 28 = 0"
    using read_offset_64_clears_flags [OF op, of "\<lambda>_. 1" k g] kg by (simp add: operation_new_def)
  then show ?thesis unfolding op using kg by (auto simp: operation_new_def)
qed

end
