(* ===== verification/Rtt_Attach.thy ===== *)
theory Rtt_Attach
  imports Rtt_Block Rtt_Properties
begin

text \<open>
  The properties of attaching to an RTT control block (probe-rs/src/rtt.rs): what is known of the
  channels after it, where a scan finds a control block, and that a cleared one is gone.
\<close>

subsection \<open>Channels that are well-formed\<close>

definition regions_ok :: "nat \<Rightarrow> memory_region list \<Rightarrow> bool" where
  "regions_ok limit regions \<longleftrightarrow>
     (\<forall>r \<in> set regions. rstart (address_range r) \<le> rend (address_range r) \<and> rend (address_range r) \<le> limit)"

definition channel_ok :: "flat \<Rightarrow> memory_region list \<Rightarrow> channel \<Rightarrow> bool" where
  "channel_ok f regions ch \<longleftrightarrow>
     buffer_start_pointer (ch_info ch) \<noteq> 0 \<and> ch_last_read ch = None
     \<and> ch_word f (ch_metadata ch + write_ptr_offset (ch_info ch)) < size_of_buffer (ch_info ch)
     \<and> ch_word f (ch_metadata ch + read_ptr_offset (ch_info ch)) < size_of_buffer (ch_info ch)
     \<and> ch_word f (ch_metadata ch + flags_offset (ch_info ch)) mod 4 \<noteq> 3
     \<and> (\<forall>a. buffer_start_pointer (ch_info ch) \<le> a \<and> a < buffer_start_pointer (ch_info ch) + size_of_buffer (ch_info ch)
          \<longrightarrow> (\<exists>r. Ram r \<in> set regions \<and> in_range (rr_range r) a))"

lemma buffer_in_ram_addrs:
  assumes "buffer_in_ram regions start past_end" "regions_ok limit regions" "start \<le> a" "a < past_end"
  shows "\<exists>r. Ram r \<in> set regions \<and> in_range (rr_range r) a"
proof -
  let ?rams = "ram_regions regions"
  obtain q where q: "q \<in> set (merge_consecutive ?rams)" "in_range (rr_range q) start" "past_end \<le> rend (rr_range q)"
    using assms(1) by (auto simp: buffer_in_ram_def list_ex_iff)
  have "\<forall>r \<in> set ?rams. range_ok r"
    using assms(2) by (fastforce simp: regions_ok_def range_ok_def set_ram_regions)
  then have "covers ?rams q" using merge_consecutive_sound [of ?rams ?rams] q(1) by blast
  moreover have "a \<in> ram_addrs q" using q(2,3) assms(3,4) by (auto simp: ram_addrs_def addrs_def in_range_def)
  ultimately obtain r where "r \<in> set ?rams" "a \<in> ram_addrs r" unfolding covers_def by blast
  then show ?thesis by (auto simp: set_ram_regions ram_addrs_def in_range_addrs)
qed

lemma mode_of_valid: "mode_of (v AND 3) = (Ok mode :: ('e rtt_error, channel_mode) res) \<Longrightarrow> unat v mod 4 \<noteq> 3"
proof -
  assume a: "mode_of (v AND 3) = (Ok mode :: ('e rtt_error, channel_mode) res)"
  have "v AND 3 = take_bit 2 v" by (simp add: take_bit_eq_mask mask_eq_exp_minus_1)
  then have "unat (v AND 3) = unat v mod 4" unfolding \<open>v AND 3 = take_bit 2 v\<close> unsigned_take_bit_eq by (simp add: take_bit_eq_mod)
  moreover have "unat (v AND 3) \<noteq> 3"
  proof
    assume "unat (v AND 3) = 3"
    then have "v AND 3 = 3" unfolding word_unat_eq_iff by simp
    then show False using a by (simp add: mode_of_def)
  qed
  ultimately show ?thesis by simp
qed

context flat_interface
begin

lemma read_c_string_flat:
  assumes "read_c_string m regions p s = (Ok name, t)" "ready s" "regions \<noteq> []" "regions_ok limit regions"
  shows "ready t \<and> content t = content s"
proof -
  obtain r where r: "find (\<lambda>r. region_contains r p) (filter (\<lambda>r. is_ram r \<or> is_nvm r) regions) = Some r"
    using assms(1,3) by (auto simp: read_c_string_def split: option.splits)
  let ?n = "min 128 (rend (address_range r) - p)"
  obtain bytes where b: "mi_read m p ?n s = (Ok bytes, t)"
    using assms(1,3) r by (auto simp: read_c_string_def)
  have "r \<in> set (filter (\<lambda>r. is_ram r \<or> is_nvm r) regions)" "region_contains r p"
    using r unfolding find_Some_iff by (metis nth_mem)+
  then have "p + 1 * ?n \<le> limit" using assms(4) by (auto simp: regions_ok_def region_contains_def in_range_def)
  from reads_asD [OF rd assms(2) this b] show ?thesis by simp
qed

lemma read_word_32_flat:
  assumes "read_word_32 m a s = (Ok w, t)" "ready s" "a + 4 \<le> limit"
  shows "ready t" "content t = content s" "unat w = ch_word (content s) a"
proof -
  obtain ws where ws: "mi_read_32 m a 1 s = (Ok ws, t)" "0 < length ws" "w = ws ! 0"
    using assms(1) by (auto simp: read_word_32_def)
  have a: "a + 4 * 1 \<le> limit" using assms(3) by simp
  from reads_asD [OF r32 assms(2) a ws(1)]
  have t: "ready t" "content t = content s" "le_bytes 4 ws = peek (content s) a 4" by simp_all
  have "length (le_bytes 4 ws) = 4" unfolding t(3) by simp
  then have "ws = [w]" using ws(2,3) by (cases ws) auto
  then have "to_le 4 w = peek (content s) a 4" using t(3) by simp
  then have "unat w = ch_word (content s) a" using from_le_32 [of w] by (simp add: ch_word_def)
  then show "ready t" "content t = content s" "unat w = ch_word (content s) a" using t by simp_all
qed

lemma channel_from_flat:
  assumes "channel_from m regions number metadata info s = (Ok c, t)" "ready s" "regions \<noteq> []" "regions_ok limit regions"
    and "metadata + rtt_buffer_size info \<le> limit"
  shows "ready t \<and> content t = content s \<and> (c = None \<longleftrightarrow> buffer_start_pointer info = 0)
    \<and> (\<forall>ch. c = Some ch \<longrightarrow> channel_ok (content s) regions ch \<and> ch_number ch = number \<and> ch_metadata ch = metadata \<and> ch_info ch = info)"
proof (cases "buffer_start_pointer info = 0")
  case True
  then show ?thesis using assms(1,2) by (auto simp: channel_from_def)
next
  case False
  let ?c0 = "\<lparr>ch_number = number, ch_name = None, ch_metadata = metadata, ch_info = info, ch_last_read = None\<rparr>"
  obtain w r s1 name s2 mode where c: "check_reachable regions number (buffer_start_pointer info) (size_of_buffer info) = (Ok () :: ('e rtt_error, unit) res)"
    "read_pointers m ?c0 s = (Ok (w, r), s1)"
    "(case standard_name_pointer info of Some ptr \<Rightarrow> read_c_string m regions ptr | None \<Rightarrow> sret None) s1 = (Ok name, s2)"
    "ch_mode m (?c0\<lparr>ch_name := name\<rparr>) s2 = (Ok mode, t)" "c = Some (?c0\<lparr>ch_name := name\<rparr>)"
    using assms(1) False by (auto simp: channel_from_def Let_def)
  have lim: "ch_metadata ?c0 + rtt_buffer_size (ch_info ?c0) \<le> limit" using assms(5) by simp
  note P = read_pointers_flat [OF c(2) assms(2) lim]
  have s2: "ready s2 \<and> content s2 = content s1"
    using c(3) P(1,2) read_c_string_flat [OF _ P(1) assms(3,4)] by (auto split: option.splits)
  obtain v where v: "read_flags m info metadata s2 = (Ok v, t)" "mode_of (v AND 3) = (Ok mode :: ('e rtt_error, channel_mode) res)"
    using c(4) by (auto simp: ch_mode_def)
  obtain x where x: "read_word_32 m (metadata + flags_offset info) s2 = (Ok x, t)" "v = ucast x"
    using v(1) by (auto simp: read_flags_def)
  have "metadata + flags_offset info + 4 \<le> limit" using assms(5) by (cases info) simp_all
  from read_word_32_flat [OF x(1) _ this] s2
  have T: "ready t" "content t = content s2" "unat x = ch_word (content s2) (metadata + flags_offset info)" by simp_all
  have mode: "ch_word (content s) (metadata + flags_offset info) mod 4 \<noteq> 3"
    using mode_of_valid [OF v(2)] T(3) s2 P(2) x(2) by (simp add: unat_up)
  have "buffer_in_ram regions (buffer_start_pointer info) (buffer_start_pointer info + size_of_buffer info)"
    using c(1) assms(3) by (auto simp: check_reachable_def checked_add64_def split: option.splits if_splits)
  from buffer_in_ram_addrs [OF this assms(4)] have ram: "\<forall>a. buffer_start_pointer info \<le> a \<and> a < buffer_start_pointer info + size_of_buffer info
      \<longrightarrow> (\<exists>r. Ram r \<in> set regions \<and> in_range (rr_range r) a)" by blast
  have off: "metadata + read_ptr_offset info = metadata + write_ptr_offset info + 4" by (cases info) simp_all
  have "channel_ok (content s) regions (?c0\<lparr>ch_name := name\<rparr>)"
    unfolding channel_ok_def using False mode ram P(3-6) off by (simp add: ch_word_def add.assoc)
  then show ?thesis using False c(5) T(1,2) s2 P(2) by simp
qed

lemma attach_channels_flat:
  assumes "attach_channels m regions index offset bs s = (Ok cs, t)" "ready s" "regions \<noteq> []" "regions_ok limit regions"
    and "\<forall>b \<in> set bs. rtt_buffer_size b = k" "offset + k * length bs \<le> limit"
  shows "ready t \<and> content t = content s
    \<and> (\<forall>ch \<in> set cs. channel_ok (content s) regions ch
        \<and> (\<exists>i < length bs. ch_number ch = index + i \<and> ch_metadata ch = offset + k * i \<and> ch_info ch = bs ! i))
    \<and> map ch_number cs = map ((+) index) (filter (\<lambda>i. buffer_start_pointer (bs ! i) \<noteq> 0) [0..<length bs])"
  using assms
proof (induction bs arbitrary: index offset s cs)
  case Nil
  then show ?case by simp
next
  case (Cons b bs)
  obtain c s1 more where c: "channel_from m regions index offset b s = (Ok c, s1)"
    "attach_channels m regions (index + 1) (offset + k) bs s1 = (Ok more, t)"
    "cs = (case c of Some ch \<Rightarrow> ch # more | None \<Rightarrow> more)"
    using Cons.prems(1,5) by auto
  have "offset + rtt_buffer_size b \<le> limit" using Cons.prems(5,6) by simp
  note one = channel_from_flat [OF c(1) Cons.prems(2-4) this]
  have "offset + k + k * length bs \<le> limit" using Cons.prems(6) by simp
  then have IH: "ready t" "content t = content s"
    "map ch_number more = map ((+) (index + 1)) (filter (\<lambda>i. buffer_start_pointer (bs ! i) \<noteq> 0) [0..<length bs])"
    "\<forall>ch \<in> set more. channel_ok (content s) regions ch
        \<and> (\<exists>i < length bs. ch_number ch = index + 1 + i \<and> ch_metadata ch = offset + k + k * i \<and> ch_info ch = bs ! i)"
    using Cons.IH [OF c(2) _ Cons.prems(3,4)] one Cons.prems(5) by simp_all
  have "[0..<length (b # bs)] = 0 # map Suc [0..<length bs]" by (simp add: map_Suc_upt upt_conv_Cons del: upt_Suc)
  then have nums: "map ((+) index) (filter (\<lambda>i. buffer_start_pointer ((b # bs) ! i) \<noteq> 0) [0..<length (b # bs)])
      = (if buffer_start_pointer b \<noteq> 0 then [index] else []) @ map ch_number more"
    unfolding IH(3) by (simp add: filter_map o_def)
  have later: "channel_ok (content s) regions ch
      \<and> (\<exists>i < length (b # bs). ch_number ch = index + i \<and> ch_metadata ch = offset + k * i \<and> ch_info ch = (b # bs) ! i)" if more: "ch \<in> set more" for ch
  proof -
    obtain i where "i < length bs" "ch_number ch = index + 1 + i" "ch_metadata ch = offset + k + k * i" "ch_info ch = bs ! i"
      "channel_ok (content s) regions ch" using IH(4) more by blast
    then show ?thesis by (intro conjI exI [of _ "Suc i"]) simp_all
  qed
  show ?case
  proof (cases c)
    case None
    then show ?thesis using IH(1,2) later c(3) one nums by auto
  next
    case (Some ch)
    then have "channel_ok (content s) regions ch
      \<and> (\<exists>i < length (b # bs). ch_number ch = index + i \<and> ch_metadata ch = offset + k * i \<and> ch_info ch = (b # bs) ! i)"
      "ch_number ch = index"
      using one by auto
    then show ?thesis using IH(1,2) later c(3) Some one nums by auto
  qed
qed

end

text \<open>The descriptors as they are in memory.\<close>

definition descriptor_at :: "bool \<Rightarrow> flat \<Rightarrow> nat \<Rightarrow> rtt_buffer" where
  "descriptor_at is_64_bit f a =
     (if is_64_bit then Buffer64 (inner_64 (peek f a 32)) else Buffer32 (inner_32 (peek f a 24)))"

definition descriptor_size :: "bool \<Rightarrow> nat" where
  "descriptor_size is_64_bit = (if is_64_bit then 32 else 24)"

lemma chunks_peek: "0 < n \<Longrightarrow> chunks_exact n (peek f a (n * len)) = map (\<lambda>i. peek f (a + n * i) n) [0..<len]"
proof (induction len arbitrary: a)
  case 0
  then show ?case by (simp add: chunks_exact.simps)
next
  case (Suc len)
  have "peek f a (n * Suc len) = peek f a n @ peek f (a + n) (n * len)" using peek_append [of f a n "n * len"] by simp
  moreover have "chunks_exact n (peek f a n @ xs) = peek f a n # chunks_exact n xs" for xs
    using Suc.prems by (subst chunks_exact.simps) simp
  moreover have "map (\<lambda>i. peek f (a + n * i) n) [0..<Suc len]
      = peek f a n # map (\<lambda>i. peek f (a + n + n * i) n) [0..<len]"
    by (simp add: map_upt_Suc add.assoc del: upt_Suc)
  ultimately show ?case using Suc.IH [of "a + n"] Suc.prems by simp
qed

lemma parse_descriptors:
  assumes "parse_channel_buffers h aligned (peek f a (channel_buffer_size h * n)) = Ok bs" "h = Header64 x \<or> h = Header32 x"
  shows "bs = map (\<lambda>i. descriptor_at (h = Header64 x) f (a + channel_buffer_size h * i)) [0..<n]"
  using assms by (auto simp: chunks_peek descriptor_at_def split: if_splits)

lemma header_of_memory:
  assumes "try_from_header is_64_bit (peek f a 24) = Some h"
  shows "header_id h = peek f a 16" "max_up_channels h = ch_word f (a + 16)" "max_down_channels h = ch_word f (a + 20)"
    "channel_buffer_size h = descriptor_size is_64_bit" "header_size h = 24"
    "is_64_bit \<longrightarrow> (\<exists>x. h = Header64 x)" "\<not> is_64_bit \<longrightarrow> (\<exists>x. h = Header32 x)"
proof -
  have parts: "take 16 (peek f a 24) = peek f a 16" "take 4 (drop 16 (peek f a 24)) = peek f (a + 16) 4"
    "take 4 (drop 20 (peek f a 24)) = peek f (a + 20) 4"
    by (simp_all add: take_peek drop_peek)
  show "header_id h = peek f a 16" "max_up_channels h = ch_word f (a + 16)" "max_down_channels h = ch_word f (a + 20)"
    "channel_buffer_size h = descriptor_size is_64_bit" "header_size h = 24"
    "is_64_bit \<longrightarrow> (\<exists>x. h = Header64 x)" "\<not> is_64_bit \<longrightarrow> (\<exists>x. h = Header32 x)"
    using assms parts
    by (auto simp: try_from_header_def read_header_inner_def header_id_def max_up_channels_def max_down_channels_def
        descriptor_size_def header_size_def ch_word_def split: if_splits)
qed

definition channels_at ::
  "bool \<Rightarrow> flat \<Rightarrow> memory_region list \<Rightarrow> nat \<Rightarrow> nat \<Rightarrow> channel list \<Rightarrow> bool" where
  "channels_at is_64_bit f regions base n chs \<longleftrightarrow>
     map ch_number chs
       = filter (\<lambda>i. buffer_start_pointer (descriptor_at is_64_bit f (base + descriptor_size is_64_bit * i)) \<noteq> 0) [0..<n]
     \<and> (\<forall>ch \<in> set chs. channel_ok f regions ch \<and> ch_number ch < n
          \<and> ch_metadata ch = base + descriptor_size is_64_bit * ch_number ch
          \<and> ch_info ch = descriptor_at is_64_bit f (ch_metadata ch))"

context flat_interface
begin

lemma attach_descriptors:
  assumes "attach_channels m regions 0 base bs s = (Ok cs, t)" "ready s" "regions \<noteq> []" "regions_ok limit regions"
    and "parse_channel_buffers h aligned (peek (content s) base (channel_buffer_size h * n)) = (Ok bs :: ('e rtt_error, rtt_buffer list) res)"
    and "try_from_header is_64_bit (peek f a 24) = Some h" "base + channel_buffer_size h * n \<le> limit"
  shows "ready t \<and> content t = content s \<and> channels_at is_64_bit (content s) regions base n cs"
proof -
  note H = header_of_memory [OF assms(6)]
  obtain x where x: "h = Header64 x \<or> h = Header32 x" "(h = Header64 x) = is_64_bit" using H(6,7) by (cases is_64_bit) auto
  have bs: "bs = map (\<lambda>i. descriptor_at is_64_bit (content s) (base + channel_buffer_size h * i)) [0..<n]"
    using parse_descriptors [OF assms(5) x(1)] x(2) by simp
  have size: "\<forall>b \<in> set bs. rtt_buffer_size b = channel_buffer_size h"
    unfolding bs H(4) by (auto simp: descriptor_at_def descriptor_size_def)
  have "base + channel_buffer_size h * length bs \<le> limit" using assms(7) bs by simp
  note A = attach_channels_flat [OF assms(1-4) size this]
  have "filter (\<lambda>i. buffer_start_pointer (bs ! i) \<noteq> 0) [0..<length bs]
      = filter (\<lambda>i. buffer_start_pointer (descriptor_at is_64_bit (content s) (base + descriptor_size is_64_bit * i)) \<noteq> 0) [0..<n]"
    unfolding bs H(4) by (auto intro: filter_cong)
  then have "map ch_number cs
      = filter (\<lambda>i. buffer_start_pointer (descriptor_at is_64_bit (content s) (base + descriptor_size is_64_bit * i)) \<noteq> 0) [0..<n]"
    using A by (simp add: map_idI)
  then show ?thesis using A unfolding channels_at_def bs H(4) by auto
qed

lemma attach_at_flat:
  assumes "attach_at m aligned target ptr s = (Ok r, t)" "ready s"
    and "rt_memory_regions target \<noteq> []" "regions_ok limit (rt_memory_regions target)" "ptr + rtt_size r \<le> limit"
  defines "f \<equiv> content s" and "is_64 \<equiv> rt_is_64_bit target"
  shows "ready t \<and> content t = f \<and> rtt_ptr r = ptr \<and> peek f ptr 16 = RTT_ID
    \<and> rtt_size r = 24 + descriptor_size is_64 * (ch_word f (ptr + 16) + ch_word f (ptr + 20))
    \<and> channels_at is_64 f (rt_memory_regions target) (ptr + 24) (ch_word f (ptr + 16)) (rtt_up_channels r)
    \<and> channels_at is_64 f (rt_memory_regions target) (ptr + 24 + descriptor_size is_64 * ch_word f (ptr + 16))
        (ch_word f (ptr + 20)) (rtt_down_channels r)"
proof -
  let ?rs = "rt_memory_regions target"
  obtain magic s1 counts s2 h words s3 ups downs s4 where run:
    "mi_read m ptr 16 s = (Ok magic, s1)" "mi_read_32 m (ptr + 16) 2 s1 = (Ok counts, s2)"
    "try_from_header is_64 (magic @ le_bytes 4 counts) = Some h" "header_id h = RTT_ID"
    "mi_read_32 m (ptr + header_size h) ((total_rtt_buffer_size h - header_size h) div 4) s2 = (Ok words, s3)"
    "parse_channel_buffers h aligned (take (max_up_channels h * channel_buffer_size h) (le_bytes 4 words)) = (Ok ups :: ('e rtt_error, rtt_buffer list) res)"
    "parse_channel_buffers h aligned (take (max_down_channels h * channel_buffer_size h)
        (drop (max_up_channels h * channel_buffer_size h) (le_bytes 4 words))) = (Ok downs :: ('e rtt_error, rtt_buffer list) res)"
    "attach_channels m ?rs 0 (ptr + header_size h) ups s3 = (Ok (rtt_up_channels r), s4)"
    "attach_channels m ?rs 0 (ptr + header_size h + max_up_channels h * channel_buffer_size h) downs s4 = (Ok (rtt_down_channels r), t)"
    "rtt_ptr r = ptr" "rtt_size r = total_rtt_buffer_size h"
    using assms(1) unfolding is_64_def by (auto simp: attach_at_def Let_def split: if_splits)
  have k: "channel_buffer_size h mod 4 = 0" "header_size h = 24" by (cases h; simp)(simp add: header_size_def)
  have total: "total_rtt_buffer_size h = 24 + channel_buffer_size h * (max_up_channels h + max_down_channels h)"
    by (simp add: total_rtt_buffer_size_def k(2))
  have lim: "ptr + 1 * 16 \<le> limit" "ptr + 16 + 4 * 2 \<le> limit"
    "ptr + 24 + channel_buffer_size h * (max_up_channels h + max_down_channels h) \<le> limit"
    using assms(5) run(11) total by simp_all
  from reads_asD [OF rd assms(2) lim(1) run(1)]
  have m: "ready s1" "content s1 = f" "magic = peek f ptr 16" unfolding le_bytes_8 f_def by simp_all
  from reads_asD [OF r32 m(1) lim(2) run(2)] m(2)
  have c: "ready s2" "content s2 = f" "le_bytes 4 counts = peek f (ptr + 16) 8" by simp_all
  have "magic @ le_bytes 4 counts = peek f ptr 24" unfolding m(3) c(3) using peek_append [of f ptr 16 8] by simp
  note h = run(3) [unfolded this] note H = header_of_memory [OF h]
  let ?k = "channel_buffer_size h" and ?u = "max_up_channels h" and ?d = "max_down_channels h"
  have div4: "4 * ((total_rtt_buffer_size h - header_size h) div 4) = ?k * (?u + ?d)"
    using k(1) unfolding total H(5) by (simp add: mod_mult_left_eq [symmetric] minus_mod_eq_mult_div [symmetric])
  have w: "ready s3" "content s3 = f" "le_bytes 4 words = peek f (ptr + 24) (?k * (?u + ?d))"
    using reads_asD [OF r32 c(1) _ run(5), unfolded H(5) div4 [unfolded H(5)], OF lim(3)] c(2) by simp_all
  have up: "take (?u * ?k) (le_bytes 4 words) = peek f (ptr + 24) (?k * ?u)"
    and down: "take (?d * ?k) (drop (?u * ?k) (le_bytes 4 words)) = peek f (ptr + 24 + ?k * ?u) (?k * ?d)"
    unfolding w(3) by (simp_all add: take_peek drop_peek min_def mult.commute distrib_left)
  have ll: "ptr + 24 + ?k * ?u \<le> limit" "ptr + 24 + ?k * ?u + ?k * ?d \<le> limit" using lim(3) by (simp_all add: distrib_left)
  have U: "ready s4" "content s4 = f" "channels_at is_64 f ?rs (ptr + 24) ?u (rtt_up_channels r)"
    using attach_descriptors [OF run(8) w(1) assms(3,4) _ _ ll(1) [folded H(5)], where aligned = aligned and is_64_bit = is_64 and a = ptr]
      run(6) h up w(2) H(5) by auto
  have D: "ready t" "content t = f" "channels_at is_64 f ?rs (ptr + 24 + ?k * ?u) ?d (rtt_down_channels r)"
    using attach_descriptors [OF run(9) U(1) assms(3,4), where aligned = aligned and is_64_bit = is_64 and a = ptr and n = ?d and h = h]
      run(7) h down U(2) H(5) ll(2) by (auto simp: mult.commute)
  show ?thesis using U(3) D run(4,10,11) H total by simp
qed

end

subsection \<open>Control blocks that can be attached to\<close>

definition descriptor_ok :: "flat \<Rightarrow> memory_region list \<Rightarrow> nat \<Rightarrow> rtt_buffer \<Rightarrow> bool" where
  "descriptor_ok f regions metadata info \<longleftrightarrow>
     buffer_start_pointer info = 0
     \<or> (buffer_start_pointer info + size_of_buffer info < 2 ^ 64
        \<and> buffer_in_ram regions (buffer_start_pointer info) (buffer_start_pointer info + size_of_buffer info)
        \<and> ch_word f (metadata + write_ptr_offset info) < size_of_buffer info
        \<and> ch_word f (metadata + read_ptr_offset info) < size_of_buffer info
        \<and> ch_word f (metadata + flags_offset info) mod 4 \<noteq> 3
        \<and> (case standard_name_pointer info of None \<Rightarrow> True
            | Some p \<Rightarrow> \<exists>r \<in> set regions. (is_ram r \<or> is_nvm r) \<and> region_contains r p))"

definition block_ok :: "nat \<Rightarrow> flat \<Rightarrow> rtt_target \<Rightarrow> nat \<Rightarrow> bool" where
  "block_ok limit f target ptr \<longleftrightarrow>
     (let k = descriptor_size (rt_is_64_bit target); n = ch_word f (ptr + 16) + ch_word f (ptr + 20) in
      4 dvd ptr \<and> peek f ptr 16 = RTT_ID \<and> ch_word f (ptr + 16) \<le> 255 \<and> ch_word f (ptr + 20) \<le> 255
      \<and> ptr + 24 + k * n \<le> limit
      \<and> (\<forall>i < n. descriptor_ok f (rt_memory_regions target) (ptr + 24 + k * i)
            (descriptor_at (rt_is_64_bit target) f (ptr + 24 + k * i))))"

lemma mode_of_total: "unat v mod 4 \<noteq> 3 \<Longrightarrow> \<exists>mode. mode_of (v AND 3) = (Ok mode :: ('e rtt_error, channel_mode) res)"
proof -
  assume a: "unat v mod 4 \<noteq> 3"
  have "v AND 3 = take_bit 2 v" by (simp add: take_bit_eq_mask mask_eq_exp_minus_1)
  then have u: "unat (v AND 3) = unat v mod 4"
    unfolding \<open>v AND 3 = take_bit 2 v\<close> unsigned_take_bit_eq by (simp add: take_bit_eq_mod)
  have "unat v mod 4 < 4" by simp
  then have "unat v mod 4 \<in> {0, 1, 2}" using a by force
  then have "v AND 3 = 0 \<or> v AND 3 = 1 \<or> v AND 3 = 2" unfolding word_unat_eq_iff u by auto
  then show ?thesis by (auto simp: mode_of_def)
qed

context answering_interface
begin

lemma word_read_at:
  assumes "ready s" "4 dvd a" "a + 4 \<le> limit"
  obtains w t where "read_word_32 m a s = (Ok w, t)" "unat w = ch_word (content s) a" "ready t" "content t = content s"
  using word_read [OF assms] unfolding ch_word_def by metis

lemma read_pointers_at:
  assumes "ready s" "4 dvd ch_metadata ch" "ch_metadata ch + rtt_buffer_size (ch_info ch) \<le> limit" "limit < 2 ^ 64"
    and "ch_word (content s) (ch_metadata ch + write_ptr_offset (ch_info ch)) < size_of_buffer (ch_info ch)"
    and "ch_word (content s) (ch_metadata ch + read_ptr_offset (ch_info ch)) < size_of_buffer (ch_info ch)"
  obtains p t where "read_pointers m ch s = (Ok p, t)" "ready t" "content t = content s"
proof -
  let ?p = "ch_metadata ch + write_ptr_offset (ch_info ch)"
  have a: "4 dvd ?p" "?p + 4 * 2 \<le> limit" "?p < 2 ^ 64" using assms(2-4) by (cases "ch_info ch"; simp)+
  have off: "ch_metadata ch + read_ptr_offset (ch_info ch) = ?p + 4" by (cases "ch_info ch") simp_all
  obtain ws t where ws: "mi_read_32 m ?p 2 s = (Ok ws, t)" using read_32_ok [OF assms(1) a(1,2)] by blast
  from reads_asD [OF r32 assms(1) a(2) ws]
  have t: "ready t" "content t = content s" "le_bytes 4 ws = peek (content s) ?p 8" by simp_all
  have "\<exists>p. read_pointers m ch s = (Ok p, t)"
    using ws a(3) assms(5,6) unfolding off words_at [OF t(3)]
    by (simp add: read_pointers_def read_buffer_offsets_def sbind_def add_w_def nth_r_def ch_word_def map_err_def validate_pointer_def)
  with that t(1,2) show thesis by blast
qed

lemma channel_from_total:
  assumes "ready s" "regions \<noteq> []" "regions_ok limit regions" "4 dvd metadata"
    and "metadata + rtt_buffer_size info \<le> limit" "limit < 2 ^ 64" "descriptor_ok (content s) regions metadata info"
  shows "\<exists>c t. channel_from m regions number metadata info s = (Ok c, t)"
proof (cases "buffer_start_pointer info = 0")
  case True
  then show ?thesis by (auto simp: channel_from_def)
next
  case False
  let ?c0 = "\<lparr>ch_number = number, ch_name = None, ch_metadata = metadata, ch_info = info, ch_last_read = None\<rparr>"
  note D = assms(7) [unfolded descriptor_ok_def]
  have reach: "check_reachable regions number (buffer_start_pointer info) (size_of_buffer info) = (Ok () :: ('e rtt_error, unit) res)"
    using D False assms(2) by (simp add: check_reachable_def checked_add64_def)
  obtain p s1 where p: "read_pointers m ?c0 s = (Ok p, s1)" "ready s1" "content s1 = content s"
    using read_pointers_at [OF assms(1), of ?c0] assms(4-6) D False by auto
  obtain name s2 where name: "(case standard_name_pointer info of Some ptr \<Rightarrow> read_c_string m regions ptr | None \<Rightarrow> sret None) s1 = (Ok name, s2)"
    "ready s2" "content s2 = content s"
  proof (cases "standard_name_pointer info")
    case None
    then show ?thesis using that [of None s1] p by simp
  next
    case (Some q)
    then have "\<exists>r \<in> set regions. (is_ram r \<or> is_nvm r) \<and> region_contains r q" using D False by simp
    then obtain r where r: "find (\<lambda>r. region_contains r q) (filter (\<lambda>r. is_ram r \<or> is_nvm r) regions) = Some r"
      by (cases "find (\<lambda>r. region_contains r q) (filter (\<lambda>r. is_ram r \<or> is_nvm r) regions)") (auto simp: find_None_iff)
    then have "r \<in> set (filter (\<lambda>r. is_ram r \<or> is_nvm r) regions)" "region_contains r q"
      unfolding find_Some_iff by (metis nth_mem)+
    then have "q + min 128 (rend (address_range r) - q) \<le> limit"
      using assms(3) by (auto simp: regions_ok_def region_contains_def in_range_def)
    from read_ok [OF p(2) this] obtain bs u where u: "mi_read m q (min 128 (rend (address_range r) - q)) s1 = (Ok bs, u)" by blast
    have run: "read_c_string m regions q s1 = (Ok (until_nul bs), u)"
      using u r assms(2) by (simp add: read_c_string_def sbind_def map_err_def)
    from read_c_string_flat [OF run p(2) assms(2,3)] p(3) that [of "until_nul bs" u] run Some show ?thesis by simp
  qed
  have a: "4 dvd metadata + flags_offset info" "metadata + flags_offset info + 4 \<le> limit" "metadata + flags_offset info < 2 ^ 64"
    using assms(4-6) by (cases info; simp)+
  obtain w t where w: "read_word_32 m (metadata + flags_offset info) s2 = (Ok w, t)"
    "unat w = ch_word (content s2) (metadata + flags_offset info)"
    using word_read_at [OF name(2) a(1,2)] by metis
  have "unat (ucast w :: u64) mod 4 \<noteq> 3" using w(2) name(3) D False by (simp add: unat_up)
  from mode_of_total [OF this] obtain mode where "mode_of ((ucast w :: u64) AND 3) = (Ok mode :: ('e rtt_error, channel_mode) res)" by blast
  then have "ch_mode m (?c0\<lparr>ch_name := name\<rparr>) s2 = (Ok mode, t)"
    using w(1) a(3) by (simp add: ch_mode_def read_flags_def sbind_def add_w_def map_err_def)
  then have "channel_from m regions number metadata info s = (Ok (Some (?c0\<lparr>ch_name := name\<rparr>)), t)"
    using False reach p(1) name(1) by (simp add: channel_from_def Let_def sbind_def)
  then show ?thesis by blast
qed

lemma attach_channels_total:
  assumes "ready s" "regions \<noteq> []" "regions_ok limit regions" "4 dvd offset" "4 dvd k"
    and "\<forall>b \<in> set bs. rtt_buffer_size b = k" "offset + k * length bs \<le> limit" "limit < 2 ^ 64"
    and "\<forall>i < length bs. descriptor_ok (content s) regions (offset + k * i) (bs ! i)"
  shows "\<exists>cs t. attach_channels m regions index offset bs s = (Ok cs, t)"
  using assms
proof (induction bs arbitrary: index offset s)
  case Nil
  then show ?case by simp
next
  case (Cons b bs)
  have b: "rtt_buffer_size b = k" "offset + rtt_buffer_size b \<le> limit" "descriptor_ok (content s) regions offset b"
    using Cons.prems(6,7,9) by fastforce+
  obtain c s1 where c: "channel_from m regions index offset b s = (Ok c, s1)"
    using channel_from_total [OF Cons.prems(1-4) b(2) Cons.prems(8) b(3)] by blast
  from channel_from_flat [OF c Cons.prems(1-3) b(2)] have s1: "ready s1" "content s1 = content s" by simp_all
  have ok: "\<forall>i < length bs. descriptor_ok (content s1) regions (offset + k + k * i) (bs ! i)"
  proof (intro allI impI)
    fix i assume "i < length bs"
    then have "descriptor_ok (content s) regions (offset + k * Suc i) ((b # bs) ! Suc i)" using Cons.prems(9) by fastforce
    then show "descriptor_ok (content s1) regions (offset + k + k * i) (bs ! i)" unfolding s1(2) by (simp add: add.assoc)
  qed
  have "4 dvd offset + k" "offset + k + k * length bs \<le> limit" "\<forall>b \<in> set bs. rtt_buffer_size b = k"
    using Cons.prems(4-7) by simp_all
  from Cons.IH [OF s1(1) Cons.prems(2,3) this(1) Cons.prems(5) this(3,2) Cons.prems(8) ok]
  obtain cs t where "attach_channels m regions (index + 1) (offset + k) bs s1 = (Ok cs, t)" by blast
  moreover have "offset + k < 2 ^ 64" using Cons.prems(8) b(1,2) by linarith
  ultimately show ?case using c b(1) by (simp add: sbind_def add_w_def)
qed

lemma parse_total:
  assumes "try_from_header is_64_bit (peek f a 24) = Some h" "is_64_bit \<longrightarrow> aligned"
  shows "parse_channel_buffers h aligned (peek f b (channel_buffer_size h * n))
    = (Ok (map (\<lambda>i. descriptor_at is_64_bit f (b + channel_buffer_size h * i)) [0..<n]) :: ('e rtt_error, rtt_buffer list) res)"
  using header_of_memory(6,7) [OF assms(1)] assms(2)
  by (cases is_64_bit) (auto simp: chunks_peek descriptor_at_def)

lemma attach_at_total:
  assumes "ready s" "block_ok limit (content s) target ptr" "rt_memory_regions target \<noteq> []"
    and "regions_ok limit (rt_memory_regions target)" "limit < 2 ^ 64" "rt_is_64_bit target \<longrightarrow> aligned"
  shows "\<exists>r t. attach_at m aligned target ptr s = (Ok r, t) \<and> ptr + rtt_size r \<le> limit"
proof -
  let ?rs = "rt_memory_regions target" and ?f = "content s" and ?is64 = "rt_is_64_bit target"
  let ?k = "descriptor_size ?is64" and ?u = "ch_word (content s) (ptr + 16)" and ?d = "ch_word (content s) (ptr + 20)"
  have B: "4 dvd ptr" "peek ?f ptr 16 = RTT_ID" "?u \<le> 255" "?d \<le> 255" "ptr + 24 + ?k * (?u + ?d) \<le> limit"
    and D: "\<forall>i < ?u + ?d. descriptor_ok ?f ?rs (ptr + 24 + ?k * i) (descriptor_at ?is64 ?f (ptr + 24 + ?k * i))"
    using assms(2) by (simp_all add: block_ok_def Let_def)
  have k: "4 dvd ?k" by (simp add: descriptor_size_def)
  have l: "ptr + 16 \<le> limit" "ptr + 1 * 16 \<le> limit" "ptr + 16 + 4 * 2 \<le> limit" "4 dvd ptr + 16" "4 dvd ptr + 24"
    "ptr + 16 < 2 ^ 64" "ptr + 24 < 2 ^ 64" "ptr + 24 + ?k * ?u < 2 ^ 64"
    using B(1,5) assms(5) by (simp_all add: distrib_left)
  obtain magic s1 where m: "mi_read m ptr 16 s = (Ok magic, s1)" using read_ok [OF assms(1) l(1)] by blast
  from reads_asD [OF rd assms(1) l(2) m]
  have m1: "ready s1" "content s1 = ?f" "magic = peek ?f ptr 16" unfolding le_bytes_8 by simp_all
  obtain counts s2 where c: "mi_read_32 m (ptr + 16) 2 s1 = (Ok counts, s2)" using read_32_ok [OF m1(1) l(4,3)] by blast
  from reads_asD [OF r32 m1(1) l(3) c] m1(2)
  have c1: "ready s2" "content s2 = ?f" "le_bytes 4 counts = peek ?f (ptr + 16) 8" by simp_all
  have "magic @ le_bytes 4 counts = peek ?f ptr 24" unfolding m1(3) c1(3) using peek_append [of ?f ptr 16 8] by simp
  then obtain h where h: "try_from_header ?is64 (magic @ le_bytes 4 counts) = Some h" "try_from_header ?is64 (peek ?f ptr 24) = Some h"
    by (cases ?is64) (simp_all add: try_from_header_def read_header_inner_def minimal_header_size_def)
  note H = header_of_memory [OF h(2)]
  have total: "total_rtt_buffer_size h - 24 = ?k * (?u + ?d)" by (simp add: total_rtt_buffer_size_def H)
  have div4: "4 * (?k * (?u + ?d) div 4) = ?k * (?u + ?d)" using k by (simp add: dvd_mult2)
  have lw: "ptr + 24 + 4 * (?k * (?u + ?d) div 4) \<le> limit" unfolding div4 by (rule B(5))
  obtain words s3 where w: "mi_read_32 m (ptr + 24) (?k * (?u + ?d) div 4) s2 = (Ok words, s3)"
    using read_32_ok [OF c1(1) l(5) lw] by blast
  from reads_asD [OF r32 c1(1) lw w] c1(2)
  have w1: "ready s3" "content s3 = ?f" "le_bytes 4 words = peek ?f (ptr + 24) (?k * (?u + ?d))" unfolding div4 by simp_all
  have cut: "take (?u * ?k) (le_bytes 4 words) = peek ?f (ptr + 24) (?k * ?u)"
    "take (?d * ?k) (drop (?u * ?k) (le_bytes 4 words)) = peek ?f (ptr + 24 + ?k * ?u) (?k * ?d)"
    unfolding w1(3) by (simp_all add: take_peek drop_peek min_def mult.commute distrib_left)
  let ?ups = "map (\<lambda>i. descriptor_at ?is64 ?f (ptr + 24 + ?k * i)) [0..<?u]"
  let ?downs = "map (\<lambda>i. descriptor_at ?is64 ?f (ptr + 24 + ?k * ?u + ?k * i)) [0..<?d]"
  note parse = parse_total [OF h(2) assms(6), unfolded H(4)]
  have size: "\<forall>b \<in> set ?ups. rtt_buffer_size b = ?k" "\<forall>b \<in> set ?downs. rtt_buffer_size b = ?k"
    by (auto simp: descriptor_at_def descriptor_size_def)
  have ul: "ptr + 24 + ?k * length ?ups \<le> limit" and dl: "ptr + 24 + ?k * ?u + ?k * length ?downs \<le> limit"
    using B(5) by (simp_all add: distrib_left)
  have "\<forall>i < length ?ups. descriptor_ok (content s3) ?rs (ptr + 24 + ?k * i) (?ups ! i)" using D w1(2) by simp
  then obtain ups s4 where up: "attach_channels m ?rs 0 (ptr + 24) ?ups s3 = (Ok ups, s4)"
    using attach_channels_total [OF w1(1) assms(3,4) l(5) k size(1) ul assms(5)] by blast
  from attach_channels_flat [OF up w1(1) assms(3,4) size(1) ul] w1(2) have s4: "ready s4" "content s4 = ?f" by simp_all
  have "descriptor_ok (content s4) ?rs (ptr + 24 + ?k * ?u + ?k * i) (?downs ! i)" if "i < length ?downs" for i
    using D [rule_format, of "?u + i"] that s4(2) by (simp add: distrib_left add.assoc)
  moreover have "4 dvd ptr + 24 + ?k * ?u" using l(5) k by simp
  ultimately obtain downs t where down: "attach_channels m ?rs 0 (ptr + 24 + ?k * ?u) ?downs s4 = (Ok downs, t)"
    using attach_channels_total [OF s4(1) assms(3,4) _ k size(2) dl assms(5)] by blast
  have P: "parse_channel_buffers h aligned (take (?u * ?k) (le_bytes 4 words)) = (Ok ?ups :: ('e rtt_error, rtt_buffer list) res)"
    "parse_channel_buffers h aligned (take (?d * ?k) (drop (?u * ?k) (le_bytes 4 words))) = (Ok ?downs :: ('e rtt_error, rtt_buffer list) res)"
    unfolding cut by (rule parse)+
  have second: "add64 (ptr + 24) (?u * ?k) = (Ok (ptr + 24 + ?k * ?u) :: ('e rtt_error, nat) res)"
    using l(8) by (simp add: add_w_def mult.commute)
  have starts: "add64 ptr 16 = (Ok (ptr + 16) :: ('e rtt_error, nat) res)" "add64 ptr 24 = (Ok (ptr + 24) :: ('e rtt_error, nat) res)"
    using l(6,7) by (simp_all add: add_w_def)
  have "attach_at m aligned target ptr s = (Ok \<lparr>rtt_ptr = ptr, rtt_size = total_rtt_buffer_size h, rtt_up_channels = ups, rtt_down_channels = downs\<rparr>, t)"
    using m c h(1) w up down B(2,3,4) total
    by (simp add: attach_at_def sbind_def map_err_def H Let_def P second starts)
  moreover have "ptr + total_rtt_buffer_size h \<le> limit" using B(5) by (simp add: total_rtt_buffer_size_def H)
  ultimately show ?thesis by auto
qed

end

subsection \<open>Scanning\<close>

text \<open>The first control block that lies in a range.\<close>

definition first_block :: "flat \<Rightarrow> urange \<Rightarrow> nat list" where
  "first_block f r = take 1 (filter (\<lambda>p. peek f p 16 = RTT_ID) [rstart r..<rend r - 15])"

lemma find_filter: "(case find P xs of None \<Rightarrow> [] | Some x \<Rightarrow> [x]) = take 1 (filter P xs)"
  by (induction xs) auto

lemma position_of_peek:
  assumes "length pat = 16"
  shows "(case position_of pat (peek f a n) of None \<Rightarrow> [] | Some i \<Rightarrow> [a + i])
    = take 1 (filter (\<lambda>p. peek f p 16 = pat) [a..<a + n - 15])"
proof -
  let ?Q = "\<lambda>i. peek f (a + i) 16 = pat"
  have "filter (\<lambda>i. i + 16 \<le> n \<and> take 16 (drop i (peek f a n)) = pat) [0..<n] = filter (\<lambda>i. i + 16 \<le> n \<and> ?Q i) [0..<n]"
    by (rule filter_cong) (auto simp: drop_peek take_peek min_def)
  also have "\<dots> = filter ?Q (filter (\<lambda>i. i + 16 \<le> n) [0..<n])" by (simp add: conj_commute)
  also have "filter (\<lambda>i. i + 16 \<le> n) [0..<n] = [0..<n - 15]"
  proof -
    have "[0..<n] = [0..<n - 15] @ [n - 15..<n]" using upt_add_eq_append [of 0 "n - 15" "n - (n - 15)"] by simp
    moreover have "filter (\<lambda>i. i + 16 \<le> n) [n - 15..<n] = []" by (auto simp: filter_empty_conv)
    moreover have "filter (\<lambda>i. i + 16 \<le> n) [0..<n - 15] = [0..<n - 15]" by (auto simp: filter_id_conv)
    ultimately show ?thesis by (metis append_Nil2 filter_append)
  qed
  finally have f: "filter (\<lambda>i. i + 16 \<le> n \<and> take 16 (drop i (peek f a n)) = pat) [0..<n] = filter ?Q [0..<n - 15]" .
  have "[a..<a + n - 15] = map ((+) a) [0..<n - 15]"
    by (rule nth_equalityI) auto
  then have "take 1 (filter (\<lambda>p. peek f p 16 = pat) [a..<a + n - 15]) = map ((+) a) (take 1 (filter ?Q [0..<n - 15]))"
    by (simp add: filter_map o_def take_map)
  also have "take 1 (filter ?Q [0..<n - 15]) = (case position_of pat (peek f a n) of None \<Rightarrow> [] | Some i \<Rightarrow> [i])"
    using find_filter [of "\<lambda>i. i + 16 \<le> n \<and> take 16 (drop i (peek f a n)) = pat" "[0..<n]"] f
    by (simp add: position_of_def assms)
  finally show ?thesis by (auto split: option.splits)
qed

lemma length_RTT_ID: "length RTT_ID = 16"
  by (simp add: RTT_ID_def)

context answering_interface
begin

lemma scan_ranges_total:
  assumes "ready s" "\<forall>r \<in> set rs. rend r \<le> limit" "limit < 2 ^ 64"
  shows "\<exists>t. scan_ranges m rs s = (Ok (concat (map (first_block (content s)) rs)), t) \<and> ready t \<and> content t = content s"
  using assms(1,2)
proof (induction rs arbitrary: s)
  case Nil
  then show ?case by simp
next
  case (Cons r rs)
  show ?case
  proof (cases "rend r < rstart r")
    case True
    then have "first_block (content s) r = []" by (simp add: first_block_def)
    then show ?thesis using True Cons by simp
  next
    case False
    then have l: "rstart r + (rend r - rstart r) \<le> limit" "rstart r + 1 * (rend r - rstart r) \<le> limit"
      using Cons.prems(2) by simp_all
    obtain mem u where u: "mi_read m (rstart r) (rend r - rstart r) s = (Ok mem, u)" using read_ok [OF Cons.prems(1) l(1)] by blast
    from reads_asD [OF rd Cons.prems(1) l(2) u]
    have m: "ready u" "content u = content s" "mem = peek (content s) (rstart r) (rend r - rstart r)"
      unfolding le_bytes_8 by simp_all
    obtain t where t: "scan_ranges m rs u = (Ok (concat (map (first_block (content u)) rs)), t)" "ready t" "content t = content u"
      using Cons.IH [OF m(1)] Cons.prems(2) by auto
    have first: "(case position_of RTT_ID mem of None \<Rightarrow> [] | Some i \<Rightarrow> [rstart r + i]) = first_block (content s) r"
      using position_of_peek [OF length_RTT_ID, where f = "content s" and a = "rstart r" and n = "rend r - rstart r"] False unfolding m(3)
      by (simp add: first_block_def)
    have "rstart r + i < 2 ^ 64" if "position_of RTT_ID mem = Some i" for i
    proof -
      have "i < length mem" using that unfolding position_of_def find_Some_iff by auto
      then show ?thesis using l(1) assms(3) unfolding m(3) by simp
    qed
    then have "scan_ranges m (r # rs) s = (Ok (first_block (content s) r @ concat (map (first_block (content s)) rs)), t)"
      using False u t(1) m(2) unfolding first [symmetric] by (auto simp: sbind_def add_w_def split: option.splits)
    then show ?thesis using t(2,3) m(2) by simp
  qed
qed

end

subsection \<open>Claims\<close>

text \<open>C29. A scan finds what is there: over ranges that can be read, the result is the first control
  block of each range, and it is that block when there is one, an error that says so when there is
  none or more than one; only memory reads are made.\<close>

theorem find_control_block_finds:
  assumes "answering_interface m ready content limit exec" "ready s" "limit < 2 ^ 64"
    and "rs \<noteq> []" "\<forall>r \<in> set rs. rend r \<le> limit"
  shows "\<exists>t. find_control_block m target (ScanRanges rs) s
      = (one_instance (concat (map (first_block (content s)) rs)), t) \<and> ready t \<and> content t = content s"
proof -
  obtain t where t: "scan_ranges m rs s = (Ok (concat (map (first_block (content s)) rs)), t)" "ready t" "content t = content s"
    using answering_interface.scan_ranges_total [OF assms(1,2,5,3)] by blast
  obtain x xs where "rs = x # xs" using assms(4) by (cases rs) auto
  then have "find_control_block m target (ScanRanges rs) s = (one_instance (concat (map (first_block (content s)) rs)), t)"
    using t(1) by (simp add: find_control_block_def sbind_def)
  then show ?thesis using t(2,3) by blast
qed

text \<open>A control block of one up channel, in a RAM of 64 bytes.\<close>

definition block_bytes :: "u8 list" where
  "block_bytes = RTT_ID @ concat (map (to_le 4) [1, 0, 0, 48, 8, 2, 6, 2 :: u32]) @ [1, 2, 3, 4, 5, 6, 7, 8] @ replicate 8 0"

definition block_state :: "mock_ap adi" where
  "block_state = mock_holding block_bytes"

definition block_target :: rtt_target where
  "block_target = \<lparr>rt_is_64_bit = False,
     rt_memory_regions = [Ram \<lparr>rr_name = None, rr_range = mk_range 0 64, rr_cores = [], rr_memory_ports = [],
       rr_is_alias = False, rr_access_opt = None\<rparr>]\<rparr>"

lemma block_state_content: "mock_content block_state = (\<lambda>i. if i < 64 then block_bytes ! i else 0)"
proof -
  have "length block_bytes = 64" by (simp add: block_bytes_def length_RTT_ID)
  then show ?thesis by (simp add: block_state_def mock_holding_def adi_content_def mock_mem_def Let_def fun_eq_iff)
qed

lemma block_state_wide: "mock_wide 16 block_state"
  unfolding block_state_def by (rule mock_holding_wide) (simp add: block_bytes_def mock_limit_16 length_RTT_ID)

lemma block_bytes_eq: "block_bytes = [83, 69, 71, 71, 69, 82, 32, 82, 84, 84, 0, 0, 0, 0, 0, 0,
    1, 0, 0, 0, 0, 0, 0, 0, 0, 0, 0, 0, 48, 0, 0, 0, 8, 0, 0, 0, 2, 0, 0, 0, 6, 0, 0, 0, 2, 0, 0, 0,
    1, 2, 3, 4, 5, 6, 7, 8, 0, 0, 0, 0, 0, 0, 0, 0]"
  by code_simp

lemma block_peek: "a + n \<le> 64 \<Longrightarrow> peek (mock_content block_state) a n = take n (drop a block_bytes)"
  unfolding block_state_content by (rule nth_equalityI) (auto simp: peek_def block_bytes_eq)

lemma block_found: "first_block (mock_content block_state) (mk_range 0 64) = [0]"
proof -
  have "filter (\<lambda>p. peek (mock_content block_state) p 16 = RTT_ID) [0..<49]
      = filter (\<lambda>p. take 16 (drop p block_bytes) = RTT_ID) [0..<49]"
    by (rule filter_cong) (auto simp: block_peek)
  also have "\<dots> = [0]" unfolding block_bytes_eq by code_simp
  finally show ?thesis by (simp add: first_block_def)
qed

lemma block_words: "peek (mock_content block_state) 0 16 = RTT_ID" "ch_word (mock_content block_state) 16 = 1"
  "ch_word (mock_content block_state) 20 = 0" "ch_word (mock_content block_state) 36 = 2"
  "ch_word (mock_content block_state) 40 = 6" "ch_word (mock_content block_state) 44 = 2"
  unfolding ch_word_def by (simp_all only: block_peek [of 0 16, simplified] block_peek [of 16 4, simplified]
      block_peek [of 20 4, simplified] block_peek [of 36 4, simplified] block_peek [of 40 4, simplified]
      block_peek [of 44 4, simplified] block_bytes_eq) code_simp+

lemma block_descriptor: "descriptor_at False (mock_content block_state) 24
  = Buffer32 \<lparr>ri_name_pointer = 0, ri_buffer_start = 48, ri_size = 8, ri_write = 2, ri_read = 6, ri_flags = 2\<rparr>"
  unfolding descriptor_at_def block_peek [of 24 24, simplified] block_bytes_eq by code_simp

lemma block_ram: "buffer_in_ram (rt_memory_regions block_target) 48 56" "regions_ok 64 (rt_memory_regions block_target)"
  "rt_memory_regions block_target \<noteq> []" "rt_is_64_bit block_target = False" "scan_ram block_target = [mk_range 0 64]"
  by (code_simp, simp_all add: regions_ok_def block_target_def scan_ram_def ram_regions_def List.map_filter_simps)

lemma block_is_ok: "block_ok 64 (mock_content block_state) block_target 0"
proof -
  have "descriptor_ok (mock_content block_state) (rt_memory_regions block_target) 24 (descriptor_at False (mock_content block_state) 24)"
    unfolding block_descriptor
    by (simp add: descriptor_ok_def buffer_start_pointer_def size_of_buffer_def standard_name_pointer_def block_words block_ram)
  then show ?thesis by (simp add: block_ok_def Let_def block_words block_ram(4) descriptor_size_def)
qed

theorem find_control_block_finds_witness:
  "\<exists>t. find_control_block (adi_interface mock_dap) block_target (ScanRanges [mk_range 0 64]) block_state = (Ok 0, t)"
  using find_control_block_finds [OF mock_core.answering_interface_axioms block_state_wide, of "[mk_range 0 64]" block_target]
  by (auto simp: mock_limit_16 block_found one_instance_def)

text \<open>C15. Attaching by a scan of the RAM: when the RAM holds one control block, and its offsets, modes,
  buffers and names are sound, attaching succeeds, reads only, and gives just the channels in
  use, each with its number, its descriptor as it is in memory, offsets inside the ring and a
  buffer all of whose bytes are in RAM regions of the target.\<close>

theorem attach_gives_the_channels:
  assumes "answering_interface m ready content limit exec" "ready s" "limit < 2 ^ 64"
    and "rt_memory_regions target \<noteq> []" "regions_ok limit (rt_memory_regions target)" "rt_is_64_bit target \<longrightarrow> aligned"
    and "concat (map (first_block (content s)) (scan_ram target)) = [ptr]" "block_ok limit (content s) target ptr"
  shows "\<exists>r t. rtt_attach m aligned target s = (Ok r, t) \<and> content t = content s \<and> rtt_ptr r = ptr
    \<and> channels_at (rt_is_64_bit target) (content s) (rt_memory_regions target) (ptr + 24)
        (ch_word (content s) (ptr + 16)) (rtt_up_channels r)
    \<and> channels_at (rt_is_64_bit target) (content s) (rt_memory_regions target)
        (ptr + 24 + descriptor_size (rt_is_64_bit target) * ch_word (content s) (ptr + 16))
        (ch_word (content s) (ptr + 20)) (rtt_down_channels r)"
proof -
  have "\<forall>r \<in> set (scan_ram target). rend r \<le> limit"
    using assms(5) by (fastforce simp: scan_ram_def set_ram_regions regions_ok_def)
  then obtain u where u: "scan_ranges m (scan_ram target) s = (Ok [ptr], u)" "ready u" "content u = content s"
    using answering_interface.scan_ranges_total [OF assms(1,2) _ assms(3), of "scan_ram target"] assms(7) by metis
  have ok: "block_ok limit (content u) target ptr" using assms(8) u(3) by simp
  obtain r t where r: "attach_at m aligned target ptr u = (Ok r, t)" "ptr + rtt_size r \<le> limit"
    using answering_interface.attach_at_total [OF assms(1) u(2) ok assms(4,5,3,6)] by blast
  have run: "rtt_attach m aligned target s = (Ok r, t)"
    using u(1) r(1) by (simp add: rtt_attach_def attach_region_def find_control_block_def one_instance_def sbind_def)
  have flat: "flat_interface m ready content limit"
    using assms(1) by (simp add: answering_interface_def batch_interface_def)
  from flat_interface.attach_at_flat [OF flat r(1) u(2) assms(4,5) r(2)] u(3) run show ?thesis by auto
qed

theorem attach_gives_the_channels_witness:
  "\<exists>r t. rtt_attach (adi_interface mock_dap) True block_target block_state = (Ok r, t)
    \<and> map ch_number (rtt_up_channels r) = [0] \<and> rtt_down_channels r = []"
proof -
  have lim: "mock_limit 16 < 2 ^ 64" "regions_ok (mock_limit 16) (rt_memory_regions block_target)"
    "block_ok (mock_limit 16) (mock_content block_state) block_target 0"
    using block_ram(2) block_is_ok by (simp_all add: mock_limit_16)
  have one: "concat (map (first_block (mock_content block_state)) (scan_ram block_target)) = [0]"
    by (simp add: block_ram(5) block_found)
  from attach_gives_the_channels [OF mock_core.answering_interface_axioms block_state_wide lim(1) block_ram(3) lim(2) _ one lim(3), of True]
  show ?thesis
    by (auto simp: channels_at_def block_ram(4) block_words block_descriptor buffer_start_pointer_def descriptor_size_def)
qed

text \<open>The loop of the retries, from attempt \<open>i\<close> on.\<close>

lemma try_attach_inner_ends:
  assumes "timeout \<le> clock (i + n)"
  shows "\<exists>r t. try_attach_inner once timeout clock i s = Some (r, t)
    \<and> (\<forall>e. r = Err e \<longrightarrow> e = NoControlBlockLocation \<or> (\<exists>j \<ge> i. j \<le> i + n \<and> timeout \<le> clock j))"
  using assms
proof (induction n arbitrary: i s)
  case 0
  show ?case
    by (subst try_attach_inner.simps) (use 0 in \<open>auto split: res.splits prod.splits\<close>)
next
  case (Suc n)
  obtain q u where q: "once s = (q, u)" by fastforce
  from Suc.IH [of "Suc i" u] Suc.prems obtain r t where r: "try_attach_inner once timeout clock (Suc i) u = Some (r, t)"
    "\<forall>e. r = Err e \<longrightarrow> e = NoControlBlockLocation \<or> (\<exists>j \<ge> Suc i. j \<le> Suc i + n \<and> timeout \<le> clock j)" by auto
  show ?case
    by (subst try_attach_inner.simps)
      (use q r in \<open>auto split: res.splits intro: Suc_leD\<close>)
qed

text \<open>C27. Retrying ends: when the clock reaches the time limit, or an attempt succeeds or finds that there
  is no location to look at, attaching with a time limit returns after a finite number of
  attempts, and an error other than that one is only returned when the time is up.\<close>

theorem try_attach_returns:
  assumes "1 \<le> n" "timeout \<le> clock n"
  shows "\<exists>r t. try_attach_to_rtt m aligned target timeout clock region s = Some (r, t)
    \<and> (\<forall>e. r = Err e \<longrightarrow> e = NoControlBlockLocation \<or> (\<exists>j \<ge> 1. j \<le> n \<and> timeout \<le> clock j))"
  using try_attach_inner_ends [of timeout clock 1 "n - 1" "attach_region m aligned target region" s] assms
  by (simp add: try_attach_to_rtt_def)

theorem try_attach_returns_witness:
  "\<exists>r t. try_attach_to_rtt (adi_interface mock_dap) True block_target 3 (\<lambda>i. 2 * i) (ScanExact 4) block_state = Some (r, t)"
  using try_attach_returns [of 2 3 "\<lambda>i. 2 * i" "adi_interface mock_dap" True block_target "ScanExact 4" block_state] by auto

lemma no_id: "replicate 16 0 \<noteq> RTT_ID"
  by code_simp

text \<open>C30. Clearing zeroes the control block from its address on, and nothing else: the 16 bytes of the
  identifier after a scan, the 24 bytes of the header for an exact address on a 32-bit target. For an
  exact address on a 64-bit target it zeroes 32 bytes, eight more than the header: the name pointer of
  the first channel goes as well. Attaching there again finds no control block.\<close>

theorem cleared_block_is_gone:
  assumes "answering_interface m ready content limit exec" "limit < 2 ^ 64"
    and "find_control_block m target region s = (Ok a, u)" "ready u"
    and "clear_control_block m target region s = (Ok (), t)" "4 dvd a" "a + 32 \<le> limit"
  defines "n \<equiv> (case region of ScanExact _ \<Rightarrow> (if rt_is_64_bit target then 32 else 24) | _ \<Rightarrow> 16)"
  shows "(\<forall>x. content t x = (if a \<le> x \<and> x < a + n then 0 else content u x))
    \<and> (\<exists>v. attach_at m aligned target a t = (Err ControlBlockNotFound, v))"
proof -
  let ?z = "replicate (clear_size target region) (0 :: u8)"
  have flat: "flat_interface m ready content limit" using assms(1) by (simp add: answering_interface_def batch_interface_def)
  have mem: "flat_memory m ready content limit" using flat by (simp add: flat_interface_def)
  have sz: "16 \<le> clear_size target region" "clear_size target region \<le> 32"
    by (auto simp: clear_size_def length_RTT_ID split: scan_region.splits)
  have w: "mi_write_8 m a ?z u = (Ok (), t)" using assms(3,5) by (simp add: clear_control_block_def)
  have l: "a + 1 * length ?z \<le> limit" "a + 16 \<le> limit" "a + 1 * 16 \<le> limit" "a + 16 + 4 * 2 \<le> limit" "4 dvd a + 16" "a + 16 < 2 ^ 64"
    using assms(2,6,7) sz by simp_all
  from writes_asD [OF flat_memory.w8 [OF mem] assms(4) l(1) w]
  have t: "ready t" "content t = poke (content u) a ?z" unfolding le_bytes_8 by simp_all
  obtain magic t1 where m: "mi_read m a 16 t = (Ok magic, t1)" using answering_interface.read_ok [OF assms(1) t(1) l(2)] by blast
  from reads_asD [OF flat_interface.rd [OF flat] t(1) l(3) m]
  have m1: "ready t1" "magic = peek (content t) a 16" unfolding le_bytes_8 by simp_all
  have "?z = replicate 16 0 @ replicate (clear_size target region - 16) 0" using sz(1) by (simp add: replicate_add [symmetric])
  then have "magic = replicate 16 0"
    using peek_poke [of "content u" a ?z] take_peek [of 16 "content t" a "clear_size target region"] sz(1)
    unfolding m1(2) t(2) by (simp add: min_def)
  then have id: "take 16 (magic @ xs) \<noteq> RTT_ID" "length magic = 16" for xs by (simp_all add: no_id)
  obtain counts t2 where c: "mi_read_32 m (a + 16) 2 t1 = (Ok counts, t2)"
    using answering_interface.read_32_ok [OF assms(1) m1(1) l(5,4)] by blast
  from reads_asD [OF flat_memory.r32 [OF mem] m1(1) l(4) c] have "length (le_bytes 4 counts) = 8" by simp
  then obtain h where h: "try_from_header (rt_is_64_bit target) (magic @ le_bytes 4 counts) = Some h" "header_id h \<noteq> RTT_ID"
    using id by (cases "rt_is_64_bit target")
      (simp_all add: try_from_header_def read_header_inner_def minimal_header_size_def header_id_def)
  have "attach_at m aligned target a t = (Err ControlBlockNotFound, t2)"
    using m c h l(6) by (simp add: attach_at_def sbind_def map_err_def add_w_def)
  moreover have "clear_size target region = n" by (simp add: clear_size_def n_def length_RTT_ID split: scan_region.split)
  ultimately show ?thesis using t(2) by (auto simp: poke_def)
qed

lemma mock_write_8_total:
  assumes "mock_wide k s" "a + length bs \<le> mock_limit k"
  shows "\<exists>t. mi_write_8 (adi_interface mock_dap) a bs s = (Ok (), t)"
proof -
  have s: "adi_ready False (mock_view (mock_limit k)) s" "\<not> only_32bit (adi_ap s)" using assms(1) by (simp_all add: mock_wide_def)
  let ?sh = "shape_new a WU8 (length bs)"
  have "\<exists>ws t. run_shape mock_dap ?sh (lane_words ?sh bs) s = (Ok ws, t)"
    using mock.run_shape_total [OF s(1), of ?sh] assms(2) s(2) by (fastforce simp: shape_new_def)
  then show ?thesis
    using s(2) by (auto simp: adi_interface_def adi_prims_def memory_prims.defs adi_write_8_def run_write_def Let_def sbind_def)
qed

theorem cleared_block_is_gone_witness:
  "\<exists>t v. clear_control_block (adi_interface mock_dap) block_target (ScanExact 0) block_state = (Ok (), t)
    \<and> mock_content t 23 = 0 \<and> mock_content t 24 = mock_content block_state 24
    \<and> attach_at (adi_interface mock_dap) True block_target 0 t = (Err ControlBlockNotFound, v)"
proof -
  let ?m = "adi_interface mock_dap"
  have f: "find_control_block ?m block_target (ScanExact 0) block_state = (Ok 0, block_state)" by (simp add: find_control_block_def)
  obtain t where "mi_write_8 ?m 0 (replicate 24 0) block_state = (Ok (), t)"
    using mock_write_8_total [OF block_state_wide, of 0 "replicate 24 0"] by (auto simp: mock_limit_16)
  then have c: "clear_control_block ?m block_target (ScanExact 0) block_state = (Ok (), t)"
    using f by (simp add: clear_control_block_def clear_size_def block_ram(4) map_err_def)
  have "mock_limit 16 < 2 ^ 64" "4 dvd (0::nat)" "0 + 32 \<le> mock_limit 16" by (simp_all add: mock_limit_16)
  from cleared_block_is_gone [OF mock_core.answering_interface_axioms this(1) f block_state_wide c this(2,3), of True] c
  show ?thesis by (fastforce simp: block_ram(4))
qed

end
