(* ===== verification/Swd_Wire.thy ===== *)
theory Swd_Wire
  imports Probe_Batch
begin

text \<open>
  The SWD wire (probe-rs/src/probe/swd/mod.rs): the bits of a register transfer, the parsing of the
  bits that come back, and the execution of a batch of SWD operations on a probe that drives the
  wire bit by bit. What the probe hardware does with the bits is a parameter.
\<close>

subsection \<open>Operations\<close>

datatype io_item = Output bool | Input

datatype port = Dp | Ap

datatype direction = Read | Write

type_synonym pins = u8

datatype swd_op =
    Transfer port u8 direction u32
  | Sequence bits
  | Idle nat
  | Pins pins pins nat

datatype swd_transfer_error = NoAcknowledge | FaultResponse | WaitResponse | IncorrectParity | ProtocolError

datatype swd_probe_error =
    SwdTransfer swd_transfer_error
  | SwdProbe debug_probe_error
  | SwdShortCapture nat nat

record swd_settings =
  num_idle_cycles_between_writes :: nat
  num_retries_after_wait :: nat
  max_retry_idle_cycles_after_wait :: nat
  idle_cycles_before_write_verify :: nat
  idle_cycles_after_transfer :: nat

definition default_swd_settings :: swd_settings where
  "default_swd_settings =
     \<lparr>num_idle_cycles_between_writes = 2, num_retries_after_wait = 1000, max_retry_idle_cycles_after_wait = 128,
      idle_cycles_before_write_verify = 8, idle_cycles_after_transfer = 8\<rparr>"

type_synonym swd_batch = "swd_op batch"

definition swd_read :: "handle_id \<Rightarrow> port \<Rightarrow> u8 \<Rightarrow> swd_batch \<Rightarrow> ('e, u32) handle \<times> swd_batch" where
  "swd_read fresh port addr batch =
     (case batch_schedule fresh (Transfer port addr Read 0) batch of
        (k, batch) \<Rightarrow> (handle_map (handle_from_id k) into_u32, batch))"

definition swd_write :: "handle_id \<Rightarrow> port \<Rightarrow> u8 \<Rightarrow> u32 \<Rightarrow> swd_batch \<Rightarrow> swd_batch" where
  "swd_write fresh port addr data batch = snd (batch_schedule fresh (Transfer port addr Write data) batch)"

definition swd_sequence :: "handle_id \<Rightarrow> bits \<Rightarrow> swd_batch \<Rightarrow> swd_batch" where
  "swd_sequence fresh bs batch = snd (batch_schedule fresh (Sequence bs) batch)"

definition swd_idle :: "handle_id \<Rightarrow> nat \<Rightarrow> swd_batch \<Rightarrow> swd_batch" where
  "swd_idle fresh cycles batch = snd (batch_schedule fresh (Idle cycles) batch)"

definition swd_pins :: "handle_id \<Rightarrow> pins \<Rightarrow> pins \<Rightarrow> nat \<Rightarrow> swd_batch \<Rightarrow> ('e, pins) handle \<times> swd_batch" where
  "swd_pins fresh out select wait batch =
     (case batch_schedule fresh (Pins out select wait) batch of
        (k, batch) \<Rightarrow> (handle_map (handle_from_id k) into_u8, batch))"

subsection \<open>The bits of a transfer\<close>

definition A2_MASK :: u8 where "A2_MASK = 4"
definition A3_MASK :: u8 where "A3_MASK = 8"
definition REQUEST_BITS :: nat where "REQUEST_BITS = 8"

definition a2 :: "u8 \<Rightarrow> bool" where
  "a2 addr \<longleftrightarrow> addr AND A2_MASK = A2_MASK"

definition a3 :: "u8 \<Rightarrow> bool" where
  "a3 addr \<longleftrightarrow> addr AND A3_MASK = A3_MASK"

definition count_ones :: "u32 \<Rightarrow> nat" where
  "count_ones w = length (filter (bit w) [0..<32])"

definition transfer_io_sequence :: "port \<Rightarrow> u8 \<Rightarrow> direction \<Rightarrow> u32 \<Rightarrow> io_item list" where
  "transfer_io_sequence port addr direction data =
     (let ap_n_dp = (port = Ap); direction_bit = (direction = Read); a2_bit = a2 addr; a3_bit = a3 addr in
      [Output True, Output ap_n_dp, Output direction_bit, Output a2_bit, Output a3_bit,
       Output ((ap_n_dp \<noteq> direction_bit) \<noteq> (a2_bit \<noteq> a3_bit)), Output False, Output True, Input]
      @ replicate 3 Input
      @ (if direction = Write
         then [Input] @ map (\<lambda>i. Output (bit data i)) [0..<32] @ [Output (count_ones data mod 2 = 1)]
         else replicate 32 Input @ [Input, Input]))"

definition parse_transfer_response :: "bits \<Rightarrow> direction \<Rightarrow> (swd_transfer_error, u32) res" where
  "parse_transfer_response resp direction =
     (if length resp < 3 then Panic
      else
        (case (resp ! 0, resp ! 1, resp ! 2) of
           (True, True, True) \<Rightarrow> Err NoAcknowledge
         | (False, True, False) \<Rightarrow> Err WaitResponse
         | (False, False, True) \<Rightarrow> Err FaultResponse
         | (True, False, False) \<Rightarrow>
             (if direction = Read
              then
                (let value = bits_to_byte (drop 3 resp) in
                 rbind (nth_r (drop 3 resp) 32) (\<lambda>parity.
                   if count_ones value mod 2 = (if parity then 1 else 0) then Ok value else Err IncorrectParity))
              else Ok 0)
         | _ \<Rightarrow> Err ProtocolError))"

text \<open>A wire that can only be driven cannot run a transfer.\<close>

definition output_levels :: "io_item list \<Rightarrow> (unit, bits) res" where
  "output_levels items = rtraverse (\<lambda>item. case item of Output level \<Rightarrow> Ok level | Input \<Rightarrow> Err ()) items"

subsection \<open>Batches on a wire driven bit by bit\<close>

record swd_failure =
  sf_error :: swd_probe_error
  sf_results :: results
  sf_fault :: nat

type_synonym ('p, 'a) swd_run = "('p, swd_failure, 'a) rsm"

record 'p bitbang_swd =
  bs_io :: "io_item list \<Rightarrow> ('p, debug_probe_error, bits) rsm"
  bs_pins :: "pins \<Rightarrow> pins \<Rightarrow> nat \<Rightarrow> ('p, debug_probe_error, unit) rsm"

record pending_transfer =
  pt_id :: handle_id
  pt_direction :: direction
  pt_offset :: nat
  pt_operation :: nat

record bitbang_run =
  br_items :: "io_item list"
  br_transfers :: "pending_transfer list"
  br_first :: nat

definition run_new :: bitbang_run where
  "run_new = \<lparr>br_items = [], br_transfers = [], br_first = 0\<rparr>"

definition run_extend :: "nat \<Rightarrow> io_item list \<Rightarrow> bitbang_run \<Rightarrow> bitbang_run" where
  "run_extend operation items self =
     self\<lparr>br_first := (if br_items self = [] then operation else br_first self), br_items := br_items self @ items\<rparr>"

fun collect_transfers ::
  "(handle_id \<Rightarrow> bool) \<Rightarrow> bits \<Rightarrow> pending_transfer list \<Rightarrow> results \<Rightarrow> (swd_failure, results) res" where
  "collect_transfers held response [] results = Ok results"
| "collect_transfers held response (tr # trs) results =
     (if length response < pt_offset tr + REQUEST_BITS then Panic
      else
        (case parse_transfer_response (drop (pt_offset tr + REQUEST_BITS) response) (pt_direction tr) of
           Ok value \<Rightarrow>
             collect_transfers held response trs
               (if pt_direction tr = Read \<and> held (pt_id tr) then results_push results (pt_id tr) (CrU32 value) else results)
         | Err e \<Rightarrow> Err \<lparr>sf_error = SwdTransfer e, sf_results = results, sf_fault = pt_operation tr\<rparr>
         | Panic \<Rightarrow> Panic))"

definition run_flush ::
  "'p bitbang_swd \<Rightarrow> (handle_id \<Rightarrow> bool) \<Rightarrow> bitbang_run \<Rightarrow> results \<Rightarrow> ('p, bitbang_run \<times> results) swd_run" where
  "run_flush probe held self results s =
     (if br_items self = [] then (Ok (self\<lparr>br_transfers := []\<rparr>, results), s)
      else
        (case bs_io probe (br_items self) s of
           (Err e, s) \<Rightarrow> (Err \<lparr>sf_error = SwdProbe e, sf_results = results, sf_fault = br_first self\<rparr>, s)
         | (Panic, s) \<Rightarrow> (Panic, s)
         | (Ok response, s) \<Rightarrow>
             if length response < length (br_items self)
             then (Err \<lparr>sf_error = SwdShortCapture (length response) (length (br_items self)),
                        sf_results = results, sf_fault = br_first self\<rparr>, s)
             else (rmap (\<lambda>rs. (self\<lparr>br_items := [], br_transfers := []\<rparr>, rs))
                     (collect_transfers held response (br_transfers self) results), s)))"

fun bitbang_ops ::
  "'p bitbang_swd \<Rightarrow> (handle_id \<Rightarrow> bool) \<Rightarrow> nat \<Rightarrow> (handle_id \<times> swd_op) list \<Rightarrow> bitbang_run \<Rightarrow> results \<Rightarrow> ('p, results) swd_run" where
  "bitbang_ops probe held operation [] run results = sbind (run_flush probe held run results) (\<lambda>(_, rs). sret rs)"
| "bitbang_ops probe held operation ((k, op) # ops) run results =
     (case op of
        Transfer port addr direction data \<Rightarrow>
          (let tr = \<lparr>pt_id = k, pt_direction = direction, pt_offset = length (br_items run), pt_operation = operation\<rparr>;
               run = run_extend operation (transfer_io_sequence port addr direction data) run in
           bitbang_ops probe held (operation + 1) ops (run\<lparr>br_transfers := br_transfers run @ [tr]\<rparr>) results)
      | Sequence bs \<Rightarrow> bitbang_ops probe held (operation + 1) ops (run_extend operation (map Output bs) run) results
      | Idle cycles \<Rightarrow>
          bitbang_ops probe held (operation + 1) ops (run_extend operation (replicate cycles (Output False)) run) results
      | Pins out select wait \<Rightarrow>
          sbind (run_flush probe held run results) (\<lambda>(run, results) s.
            case bs_pins probe out select wait s of
              (Ok _, s) \<Rightarrow> bitbang_ops probe held (operation + 1) ops run results s
            | (Err e, s) \<Rightarrow> (Err \<lparr>sf_error = SwdProbe e, sf_results = results, sf_fault = operation\<rparr>, s)
            | (Panic, s) \<Rightarrow> (Panic, s)))"

definition run_bitbang_batch ::
  "'p bitbang_swd \<Rightarrow> (handle_id \<Rightarrow> bool) \<Rightarrow> swd_batch \<Rightarrow> ('p, results) swd_run" where
  "run_bitbang_batch probe held batch =
     sbind (slift (batch_iter batch)) (\<lambda>ops. bitbang_ops probe held 0 ops run_new results_new)"

end
