(* ===== verification/Swd_Port.thy ===== *)
theory Swd_Port
  imports Swd_Wire
begin

text \<open>
  The rules of ADIv5 transactions over SWD (probe-rs/src/probe/swd/port.rs): a batch is expanded so
  that each posted AP read is followed by what returns its value, it is run again from where it
  stopped after a WAIT, and the results of the expanded batch are handed back under the handles of
  the caller. A new handle is a number that was not used before.
\<close>

definition DP_ABORT_ADDR :: u8 where "DP_ABORT_ADDR = 0"
definition DP_CTRL_ADDR :: u8 where "DP_CTRL_ADDR = 4"
definition DP_RDBUFF_ADDR :: u8 where "DP_RDBUFF_ADDR = 12"
definition ABORT_CLEAR_STICKY :: u32 where "ABORT_CLEAR_STICKY = push_bit 4 1 OR push_bit 2 1"
definition ABORT_DAP_ABORT :: u32 where "ABORT_DAP_ABORT = 1"

datatype swd_port_error = PortTransfer swd_transfer_error | PortProbe swd_probe_error

subsection \<open>Kinds of operations\<close>

fun is_ap_read :: "swd_op \<Rightarrow> bool" where
  "is_ap_read (Transfer Ap _ Read _) = True"
| "is_ap_read _ = False"

fun is_ap_write :: "swd_op \<Rightarrow> bool" where
  "is_ap_write (Transfer Ap _ Write _) = True"
| "is_ap_write _ = False"

fun is_write :: "swd_op \<Rightarrow> bool" where
  "is_write (Transfer _ _ Write _) = True"
| "is_write _ = False"

fun is_abort :: "swd_op \<Rightarrow> bool" where
  "is_abort (Transfer Dp a Write _) = (a = DP_ABORT_ADDR)"
| "is_abort _ = False"

fun is_rdbuff_read :: "swd_op \<Rightarrow> bool" where
  "is_rdbuff_read (Transfer Dp a Read _) = (a = DP_RDBUFF_ADDR)"
| "is_rdbuff_read _ = False"

fun must_not_stall :: "swd_op \<Rightarrow> bool" where
  "must_not_stall (Transfer Dp a d v) =
     (is_abort (Transfer Dp a d v) \<or> (d = Read \<and> a = DP_ABORT_ADDR) \<or> (d = Read \<and> a = DP_CTRL_ADDR))"
| "must_not_stall _ = False"

fun is_transfer :: "swd_op \<Rightarrow> bool" where
  "is_transfer (Transfer _ _ _ _) = True"
| "is_transfer _ = False"

text \<open>\<open>usize as u32\<close>.\<close>

definition as_u32 :: "nat \<Rightarrow> nat" where
  "as_u32 n = n mod 2 ^ 32"

subsection \<open>Expansion\<close>

datatype logical_mapping = Passthrough handle_id nat | FromNext handle_id nat

record expansion_plan =
  ep_expanded :: swd_batch
  ep_read_handles :: "handle_id option list"
  ep_logical :: "logical_mapping list"
  ep_pins :: "handle_id list"

definition extra_rdbuff_needed :: "bool \<Rightarrow> bool \<Rightarrow> bool \<Rightarrow> swd_op option \<Rightarrow> bool" where
  "extra_rdbuff_needed need_ap_read buffered_write write_response_pending next_op =
     (case next_op of
        Some n \<Rightarrow>
          if is_rdbuff_read n then False
          else if need_ap_read \<and> \<not> is_ap_read n then True
          else if buffered_write \<and> must_not_stall n then True
          else False
      | None \<Rightarrow> need_ap_read \<or> write_response_pending)"

definition schedule_transfer ::
  "(handle_id \<Rightarrow> bool) \<Rightarrow> nat \<Rightarrow> handle_id \<Rightarrow> port \<Rightarrow> u8 \<Rightarrow> direction \<Rightarrow> u32 \<Rightarrow> swd_batch \<Rightarrow> swd_batch" where
  "schedule_transfer held fresh k port addr direction data batch =
     snd (if direction = Read \<and> held k
          then schedule_preserved k (Transfer port addr direction data) batch
          else batch_schedule fresh (Transfer port addr direction data) batch)"

text \<open>Plan and the next fresh handle; \<open>transfers\<close> are all transfers of the batch, \<open>i\<close> the number of those seen.\<close>

definition expand_transfer ::
  "(handle_id \<Rightarrow> bool) \<Rightarrow> swd_settings \<Rightarrow> bool \<Rightarrow> swd_op list \<Rightarrow> nat \<Rightarrow> handle_id \<Rightarrow> port \<Rightarrow> u8 \<Rightarrow> direction \<Rightarrow> u32
     \<Rightarrow> expansion_plan \<times> nat \<Rightarrow> expansion_plan \<times> nat" where
  "expand_transfer held settings pipeline transfers i k port addr direction data pf =
     (let (plan, fresh) = pf;
          op = Transfer port addr direction data;
          need_ap_read = is_ap_read op;
          buffered_write = is_ap_write op;
          write_response_pending = (is_write op \<and> \<not> is_abort op);
          response_in_next = (need_ap_read \<or> write_response_pending);
          expanded_read = length (ep_read_handles plan);
          b = schedule_transfer held fresh k port addr direction data (ep_expanded plan);
          b = (if direction = Write \<and> \<not> pipeline
               then swd_idle (fresh + 1) (as_u32 (num_idle_cycles_between_writes settings)) b else b);
          reads = ep_read_handles plan @ (if direction = Read then [if held k then Some k else None] else []);
          next_transfer = (if i + 1 < length transfers then Some (transfers ! (i + 1)) else None);
          b = (if \<not> pipeline \<and> buffered_write \<and> (case next_transfer of Some n \<Rightarrow> is_ap_read n | None \<Rightarrow> False)
               then swd_idle (fresh + 2) (as_u32 (idle_cycles_before_write_verify settings)) b else b);
          need_extra = (\<not> pipeline \<and> extra_rdbuff_needed need_ap_read buffered_write write_response_pending next_transfer);
          b = (if need_extra \<and> write_response_pending
               then swd_idle (fresh + 3) (as_u32 (idle_cycles_before_write_verify settings)) b else b);
          b = (if need_extra then snd (batch_schedule (fresh + 4) (Transfer Dp DP_RDBUFF_ADDR Read 0) b) else b);
          reads = reads @ (if need_extra then [Some (fresh + 4)] else []);
          logical = ep_logical plan @
            (if direction = Read \<and> held k
             then [if response_in_next \<and> \<not> pipeline then FromNext k expanded_read else Passthrough k expanded_read]
             else [])
      in (plan\<lparr>ep_expanded := b, ep_read_handles := reads, ep_logical := logical\<rparr>, fresh + 5))"

fun expand_ops ::
  "(handle_id \<Rightarrow> bool) \<Rightarrow> swd_settings \<Rightarrow> bool \<Rightarrow> swd_op list \<Rightarrow> nat \<Rightarrow> (handle_id \<times> swd_op) list
     \<Rightarrow> expansion_plan \<times> nat \<Rightarrow> expansion_plan \<times> nat" where
  "expand_ops held settings pipeline transfers i [] pf = pf"
| "expand_ops held settings pipeline transfers i ((k, op) # ops) pf =
     (case op of
        Transfer port addr direction data \<Rightarrow>
          expand_ops held settings pipeline transfers (i + 1) ops
            (expand_transfer held settings pipeline transfers i k port addr direction data pf)
      | Sequence bs \<Rightarrow>
          (let (plan, fresh) = pf in
           expand_ops held settings pipeline transfers i ops
             (plan\<lparr>ep_expanded := swd_sequence fresh bs (ep_expanded plan)\<rparr>, fresh + 1))
      | Idle cycles \<Rightarrow>
          (let (plan, fresh) = pf in
           expand_ops held settings pipeline transfers i ops
             (plan\<lparr>ep_expanded := swd_idle fresh cycles (ep_expanded plan)\<rparr>, fresh + 1))
      | Pins out select wait \<Rightarrow>
          (let (plan, fresh) = pf in
           expand_ops held settings pipeline transfers i ops
             (if held k
              then (plan\<lparr>ep_expanded := snd (schedule_preserved k op (ep_expanded plan)), ep_pins := ep_pins plan @ [k]\<rparr>, fresh)
              else (plan\<lparr>ep_expanded := snd (batch_schedule fresh op (ep_expanded plan))\<rparr>, fresh + 1))))"

definition expand_batch ::
  "(handle_id \<Rightarrow> bool) \<Rightarrow> nat \<Rightarrow> (handle_id \<times> swd_op) list \<Rightarrow> swd_settings \<Rightarrow> bool \<Rightarrow> expansion_plan \<times> nat" where
  "expand_batch held fresh ops settings pipeline =
     (let transfers = filter is_transfer (map snd ops);
          (plan, fresh) = expand_ops held settings pipeline transfers 0 ops
            (\<lparr>ep_expanded = batch_new, ep_read_handles = [], ep_logical = [], ep_pins = []\<rparr>, fresh)
      in if commands (ep_expanded plan) \<noteq> [] \<and> \<not> pipeline
         then (plan\<lparr>ep_expanded := swd_idle fresh (as_u32 (idle_cycles_after_transfer settings)) (ep_expanded plan)\<rparr>, fresh + 1)
         else (plan, fresh))"

subsection \<open>Results\<close>

definition block_value_indices :: "handle_id option list \<Rightarrow> nat \<Rightarrow> nat list" where
  "block_value_indices read_handles count =
     (if length read_handles < count then [] else [length read_handles - count..<length read_handles])"

definition encode_block_read :: "u32 list \<Rightarrow> command_result" where
  "encode_block_read values = CrVecU8 (concat (map (to_le 4) values))"

fun decode_block_read :: "command_result \<Rightarrow> ('e, u32 list) res" where
  "decode_block_read (CrVecU8 bytes) = (if 4 dvd length bytes then Ok (map from_le (chunks_exact 4 bytes)) else Panic)"
| "decode_block_read _ = Panic"

definition read_value :: "results \<Rightarrow> handle_id option \<Rightarrow> ('e, u32 option) res" where
  "read_value rs h =
     (case h of
        None \<Rightarrow> Ok None
      | Some k \<Rightarrow> (case map_of rs k of None \<Rightarrow> Ok None | Some r \<Rightarrow> rmap Some (into_u32 r)))"

definition push_value :: "results \<Rightarrow> handle_id \<Rightarrow> u32 option \<Rightarrow> results" where
  "push_value rs k v = (case v of Some x \<Rightarrow> results_push rs k (CrU32 x) | None \<Rightarrow> rs)"

definition nth_value :: "u32 option list \<Rightarrow> nat \<Rightarrow> u32 option" where
  "nth_value vs i = (if i < length vs then vs ! i else None)"

fun remap_logical ::
  "handle_id list \<Rightarrow> u32 option list \<Rightarrow> logical_mapping list \<Rightarrow> results \<Rightarrow> ('e, results) res" where
  "remap_logical aggregates vs [] rs = Ok rs"
| "remap_logical aggregates vs (Passthrough k i # ms) rs =
     (if k \<in> set aggregates then remap_logical aggregates vs ms rs
      else rbind (nth_r vs i) (\<lambda>v. remap_logical aggregates vs ms (push_value rs k v)))"
| "remap_logical aggregates vs (FromNext k i # ms) rs =
     remap_logical aggregates vs ms (push_value rs k (nth_value vs (i + 1)))"

definition block_aggregate :: "handle_id option list \<Rightarrow> nat \<Rightarrow> handle_id option" where
  "block_aggregate read_handles count =
     (let idx = block_value_indices read_handles count in if idx = [] then None else read_handles ! last idx)"

definition push_block :: "handle_id option list \<Rightarrow> u32 option list \<Rightarrow> nat \<Rightarrow> results \<Rightarrow> results" where
  "push_block read_handles vs count rs =
     (case block_aggregate read_handles count of
        None \<Rightarrow> rs
      | Some k \<Rightarrow>
          (let values = List.map_filter (\<lambda>i. vs ! i) (block_value_indices read_handles count) in
           if values = [] then rs else results_push rs k (encode_block_read values)))"

definition pins_results :: "handle_id list \<Rightarrow> results \<Rightarrow> results" where
  "pins_results pins rs = fold (\<lambda>k acc. case map_of rs k of Some r \<Rightarrow> results_push acc k r | None \<Rightarrow> acc) pins results_new"

definition remap_results ::
  "handle_id option list \<Rightarrow> logical_mapping list \<Rightarrow> handle_id list \<Rightarrow> results \<Rightarrow> nat list \<Rightarrow> ('e, results) res" where
  "remap_results read_handles logical pins rs counts =
     rbind (rtraverse (read_value rs) read_handles) (\<lambda>vs.
     rmap (\<lambda>out. fold (push_block read_handles vs) counts out)
       (remap_logical (List.map_filter (block_aggregate read_handles) counts) vs logical (pins_results pins rs)))"

subsection \<open>Running a batch\<close>

record 'p swd_probe =
  sp_run_batch :: "(handle_id \<Rightarrow> bool) \<Rightarrow> swd_batch \<Rightarrow> ('p, results) swd_run"
  sp_handles_wait :: bool
  sp_handles_ap_pipeline :: bool

record swd_port =
  po_settings :: swd_settings
  po_block_counts :: "nat list"
  po_block_handles :: "handle_id list list"

definition swd_port_new :: "swd_settings \<Rightarrow> swd_port" where
  "swd_port_new settings = \<lparr>po_settings = settings, po_block_counts = [], po_block_handles = []\<rparr>"

text \<open>The reads of a block before its last one; their handles are kept by the port.\<close>

fun schedule_reads :: "nat \<Rightarrow> nat \<Rightarrow> u8 \<Rightarrow> swd_batch \<Rightarrow> handle_id list \<times> swd_batch" where
  "schedule_reads fresh 0 addr batch = ([], batch)"
| "schedule_reads fresh (Suc n) addr batch =
     (case batch_schedule fresh (Transfer Ap addr Read 0) batch of (k, batch) \<Rightarrow>
        (case schedule_reads (fresh + 1) n addr batch of (ks, batch) \<Rightarrow> (k # ks, batch)))"

definition read_ap_block ::
  "bool \<Rightarrow> nat \<Rightarrow> u8 \<Rightarrow> nat \<Rightarrow> swd_port \<times> swd_batch \<Rightarrow> ('e, u32 list) handle \<times> swd_port \<times> swd_batch" where
  "read_ap_block pipeline fresh addr count pb =
     (let (self, batch) = pb in
      if pipeline
      then
        (let (ks, batch) = schedule_reads fresh (count - 1) addr batch;
             (last_k, batch) = batch_schedule (fresh + count) (Transfer Ap addr Read 0) batch
         in ((last_k, decode_block_read),
             self\<lparr>po_block_counts := po_block_counts self @ [count], po_block_handles := po_block_handles self @ [ks]\<rparr>, batch))
      else
        (let batch = snd (batch_schedule fresh (Transfer Ap addr Read 0) batch) in
         if count \<le> 1
         then
           (let (h, batch) = swd_read (fresh + 1) Dp DP_RDBUFF_ADDR batch
            in (handle_map h (\<lambda>v. Ok [v]), self, batch))
         else
           (let (ks, batch) = schedule_reads (fresh + 1) (count - 1) addr batch;
                (trailing, batch) = batch_schedule (fresh + count) (Transfer Dp DP_RDBUFF_ADDR Read 0) batch
            in ((trailing, decode_block_read),
                self\<lparr>po_block_counts := po_block_counts self @ [count], po_block_handles := po_block_handles self @ [ks]\<rparr>, batch))))"

fun write_each :: "nat \<Rightarrow> u8 \<Rightarrow> u32 list \<Rightarrow> swd_batch \<Rightarrow> swd_batch" where
  "write_each fresh addr [] batch = batch"
| "write_each fresh addr (v # vs) batch = write_each (fresh + 1) addr vs (swd_write fresh Ap addr v batch)"

definition write_ap_block :: "bool \<Rightarrow> nat \<Rightarrow> u8 \<Rightarrow> u32 list \<Rightarrow> swd_batch \<Rightarrow> swd_batch" where
  "write_ap_block pipeline fresh addr values batch =
     (let batch = write_each fresh addr values batch in
      if pipeline then batch else snd (batch_schedule (fresh + length values) (Transfer Dp DP_RDBUFF_ADDR Read 0) batch))"

fun bump_ops :: "nat \<Rightarrow> (handle_id \<times> swd_op) list \<Rightarrow> ('e, (handle_id \<times> swd_op) list) res" where
  "bump_ops extra [] = Ok []"
| "bump_ops extra ((k, Transfer p a Write v) # (j, Idle cycles) # ops) =
     rbind (add_w 32 cycles extra) (\<lambda>c.
     rmap (\<lambda>rest. (k, Transfer p a Write v) # (j, Idle c) # rest) (bump_ops extra ops))"
| "bump_ops extra (x # ops) = rmap (\<lambda>rest. x # rest) (bump_ops extra ops)"

definition bump_write_idle :: "nat \<Rightarrow> swd_batch \<Rightarrow> ('e, swd_batch) res" where
  "bump_write_idle extra batch =
     rbind (remaining_with_ids batch) (\<lambda>ops. rmap (replace_remaining batch) (bump_ops extra ops))"

definition probe_batch ::
  "'p swd_probe \<Rightarrow> swd_batch \<Rightarrow> ('p, swd_port_error, results) rsm" where
  "probe_batch probe batch s =
     (case sp_run_batch probe (\<lambda>_. False) batch s of
        (Ok rs, s) \<Rightarrow> (Ok rs, s)
      | (Err f, s) \<Rightarrow> (Err (PortProbe (sf_error f)), s)
      | (Panic, s) \<Rightarrow> (Panic, s))"

definition clear_batch :: "'p swd_probe \<Rightarrow> swd_settings \<Rightarrow> swd_batch" where
  "clear_batch probe settings =
     (let b = snd (swd_read 0 Dp DP_CTRL_ADDR batch_new :: (unit, u32) handle \<times> swd_batch);
          b = swd_write 1 Dp DP_ABORT_ADDR ABORT_CLEAR_STICKY b
      in if sp_handles_ap_pipeline probe then b
         else swd_idle 3 (as_u32 (idle_cycles_after_transfer settings))
           (swd_idle 2 (as_u32 (idle_cycles_before_write_verify settings + num_idle_cycles_between_writes settings)) b))"

definition clear_overrun_and_sticky_err ::
  "'p swd_probe \<Rightarrow> swd_settings \<Rightarrow> ('p, swd_port_error, unit) rsm" where
  "clear_overrun_and_sticky_err probe settings =
     sbind (probe_batch probe (clear_batch probe settings)) (\<lambda>_. sret ())"

definition abort_batch :: "swd_settings \<Rightarrow> swd_batch" where
  "abort_batch settings =
     swd_idle 2 (as_u32 (idle_cycles_after_transfer settings))
       (swd_idle 1 (as_u32 (num_idle_cycles_between_writes settings)) (swd_write 0 Dp DP_ABORT_ADDR ABORT_DAP_ABORT batch_new))"

definition write_abort_dap :: "'p swd_probe \<Rightarrow> swd_settings \<Rightarrow> ('p, swd_port_error, unit) rsm" where
  "write_abort_dap probe settings = sbind (probe_batch probe (abort_batch settings)) (\<lambda>_. sret ())"

definition next_idle :: "swd_settings \<Rightarrow> nat \<Rightarrow> nat" where
  "next_idle settings idle = min (min (2 ^ 64 - 1) (idle * 2)) (max_retry_idle_cycles_after_wait settings)"

text \<open>The retries; an error of the clearing after a WAIT is dropped.\<close>

primrec retry_batch ::
  "'p swd_probe \<Rightarrow> swd_settings \<Rightarrow> (handle_id \<Rightarrow> bool) \<Rightarrow> nat \<Rightarrow> swd_batch \<Rightarrow> results \<Rightarrow> nat
     \<Rightarrow> ('p, swd_port_error, results) rsm" where
  "retry_batch probe settings held 0 expanded collected idle s =
     (case write_abort_dap probe settings s of
        (Panic, s) \<Rightarrow> (Panic, s)
      | (_, s) \<Rightarrow> (Err (PortTransfer WaitResponse), s))"
| "retry_batch probe settings held (Suc n) expanded collected idle s =
     (case sp_run_batch probe held expanded s of
        (Ok rs, s) \<Rightarrow> (Ok (results_merge_from (\<lambda>_. True) collected rs), s)
      | (Panic, s) \<Rightarrow> (Panic, s)
      | (Err f, s) \<Rightarrow>
          let collected = results_merge_from (\<lambda>_. True) collected (sf_results f) in
          (case sf_error f of
             SwdTransfer WaitResponse \<Rightarrow>
               if sp_handles_wait probe then (Err (PortTransfer WaitResponse), s)
               else
                 (case clear_overrun_and_sticky_err probe settings s of
                    (Panic, s) \<Rightarrow> (Panic, s)
                  | (_, s) \<Rightarrow>
                      sbind (slift (rbind (consume expanded (sf_fault f)) (bump_write_idle (as_u32 idle)))) (\<lambda>expanded.
                        retry_batch probe settings held n expanded collected (next_idle settings idle)) s)
           | SwdTransfer FaultResponse \<Rightarrow>
               sbind (clear_overrun_and_sticky_err probe settings) (\<lambda>_. sfail (PortTransfer FaultResponse)) s
           | SwdTransfer e \<Rightarrow> (Err (PortTransfer e), s)
           | e \<Rightarrow> (Err (PortProbe e), s)))"

definition plan_held :: "expansion_plan \<Rightarrow> handle_id \<Rightarrow> bool" where
  "plan_held plan k \<longleftrightarrow> Some k \<in> set (ep_read_handles plan) \<or> k \<in> set (ep_pins plan)"

text \<open>\<open>SwdPort::run\<close>: the results and the port after it, whose blocks are forgotten when it succeeds.\<close>

definition swd_port_run ::
  "'p swd_probe \<Rightarrow> (handle_id \<Rightarrow> bool) \<Rightarrow> nat \<Rightarrow> swd_port \<Rightarrow> swd_batch \<Rightarrow> ('p, swd_port_error, results \<times> swd_port) rsm" where
  "swd_port_run probe held fresh self batch =
     sbind (slift (batch_iter batch)) (\<lambda>ops.
     let plan = fst (expand_batch held fresh ops (po_settings self) (sp_handles_ap_pipeline probe)) in
     sbind (retry_batch probe (po_settings self) (plan_held plan) (num_retries_after_wait (po_settings self))
              (ep_expanded plan) results_new (max 1 (num_idle_cycles_between_writes (po_settings self)))) (\<lambda>rs.
     sbind (slift (remap_results (ep_read_handles plan) (ep_logical plan) (ep_pins plan) rs (po_block_counts self))) (\<lambda>out.
       sret (out, self\<lparr>po_block_counts := [], po_block_handles := []\<rparr>))))"

end
