(* ===== verification/Swd_Device.thy ===== *)
theory Swd_Device
  imports Swd_Wire
begin

text \<open>
  A target on the SWD wire, as ADIv5 describes it: it takes part in a transfer when it samples a
  valid request, answers with an acknowledgement and, for a read, with data and parity. What it does
  with a transfer is a parameter. The probe samples each bit that the target drives one clock
  early, so the answer to a request starts at its turnaround.
\<close>

datatype swd_answer = AckOk u32 | AckWait | AckFault | AckNone

record 't swd_target =
  tg_step :: "port \<Rightarrow> bool \<Rightarrow> bool \<Rightarrow> direction \<Rightarrow> u32 \<Rightarrow> 't \<Rightarrow> swd_answer \<times> 't"

fun ack_bits :: "swd_answer \<Rightarrow> bits" where
  "ack_bits (AckOk v) = [True, False, False]"
| "ack_bits AckWait = [False, True, False]"
| "ack_bits AckFault = [False, False, True]"
| "ack_bits AckNone = [True, True, True]"

definition data_bits :: "u32 \<Rightarrow> bits" where
  "data_bits v = map (bit v) [0..<32] @ [count_ones v mod 2 = 1]"

fun answer_value :: "swd_answer \<Rightarrow> u32" where
  "answer_value (AckOk v) = v"
| "answer_value _ = 0"

definition answer_bits :: "direction \<Rightarrow> swd_answer \<Rightarrow> bits" where
  "answer_bits d a = replicate 8 False @ ack_bits a
     @ (if d = Read then data_bits (answer_value a) @ [False, False] else replicate 35 False)"

fun level :: "io_item \<Rightarrow> bool" where
  "level (Output b) = b"
| "level Input = True"

text \<open>What a target makes of the first 46 clocks: the request, when its parity and framing are right.\<close>

definition decode_request :: "io_item list \<Rightarrow> (port \<times> bool \<times> bool \<times> direction \<times> u32) option" where
  "decode_request items =
     (let b = (\<lambda>i. level (items ! i)); d = (if b 2 then Read else Write);
          data = bits_to_byte (map level (take 32 (drop 13 items))) in
      if length items = 46 \<and> b 0 \<and> b 5 = ((b 1 \<noteq> b 2) \<noteq> (b 3 \<noteq> b 4)) \<and> \<not> b 6 \<and> b 7
         \<and> items ! 8 = Input \<and> (d = Write \<longrightarrow> b 45 = (count_ones data mod 2 = 1))
      then Some (if b 1 then Ap else Dp, b 3, b 4, d, if d = Write then data else 0) else None)"

function wire_respond :: "'t swd_target \<Rightarrow> io_item list \<Rightarrow> 't \<Rightarrow> bits \<times> 't" where
  "wire_respond tgt items t =
     (case items of
        [] \<Rightarrow> ([], t)
      | item # rest \<Rightarrow>
          if item = Output True \<and> decode_request (take 46 items) \<noteq> None
          then
            (case the (decode_request (take 46 items)) of (p, x2, x3, d, v) \<Rightarrow>
             case tg_step tgt p x2 x3 d v t of (a, t) \<Rightarrow>
             case wire_respond tgt (drop 46 items) t of (bs, t) \<Rightarrow> (answer_bits d a @ bs, t))
          else (case wire_respond tgt rest t of (bs, t) \<Rightarrow> (level item # bs, t)))"
  by pat_completeness auto
termination
  by (relation "measure (\<lambda>(tgt, items, t). length items)") auto

declare wire_respond.simps [simp del]

subsection \<open>Words as bits\<close>

lemma bits_to_byte_word: "bits_to_byte (map (bit v) [0..<32] @ bs) = v"
proof -
  have "bits_to_byte (map (bit v) [0..<32] @ bs)
      = fold (\<lambda>(i, b) x. if b then x OR push_bit i 1 else x) (enumerate 0 (map (bit v) [0..<32])) 0"
    by (simp add: bits_to_byte_def)
  also have "\<dots> = v"
  proof -
    have "fold (\<lambda>(i, b) x. if b then x OR push_bit i 1 else x) (enumerate 0 (map (bit v) [0..<n])) 0 = take_bit n v" for n
    proof (induction n)
      case (Suc n)
      have "take_bit n v OR (if bit v n then push_bit n 1 else 0) = take_bit (Suc n) v"
        by (rule bit_word_eqI) (auto simp: bit_simps less_Suc_eq)
      then show ?case using Suc by (auto simp: enumerate_append_eq split: if_splits)
    qed simp
    from this [of 32] show ?thesis by (simp add: take_bit_word_eq_self)
  qed
  finally show ?thesis .
qed

lemma data_bits_length [simp]: "length (data_bits v) = 33"
  by (simp add: data_bits_def)

lemma ack_bits_length [simp]: "length (ack_bits a) = 3"
  by (cases a) simp_all

lemma answer_bits_length [simp]: "length (answer_bits d a) = 46"
  by (simp add: answer_bits_def)

subsection \<open>The request\<close>

lemma length_transfer [simp]: "length (transfer_io_sequence p a d v) = 46"
  by (simp add: transfer_io_sequence_def Let_def)

lemma decode_transfer:
  "decode_request (transfer_io_sequence p a d v) = Some (p, a2 a, a3 a, d, if d = Write then v else 0)"
proof -
  let ?s = "transfer_io_sequence p a d v"
  have l: "level (?s ! 0)" "level (?s ! 1) = (p = Ap)" "level (?s ! 2) = (d = Read)" "level (?s ! 3) = a2 a"
    "level (?s ! 4) = a3 a" "level (?s ! 5) = (((p = Ap) \<noteq> (d = Read)) \<noteq> (a2 a \<noteq> a3 a))" "\<not> level (?s ! 6)"
    "level (?s ! 7)" "?s ! 8 = Input"
    by (simp_all add: transfer_io_sequence_def Let_def)
  have data: "map level (take 32 (drop 13 ?s)) = map (bit v) [0..<32]" "level (?s ! 45) = (count_ones v mod 2 = 1)" if "d = Write"
    using that by (simp_all add: transfer_io_sequence_def Let_def o_def nth_append)
  have word: "bits_to_byte (map (bit v) [0..<32]) = v" using bits_to_byte_word [of v "[]"] by simp
  show ?thesis
  proof (cases d)
    case Read
    then show ?thesis using l unfolding decode_request_def Let_def by (cases p) auto
  next
    case Write
    then show ?thesis using l data unfolding decode_request_def Let_def by (cases p) (auto simp: word)
  qed
qed

text \<open>The target answers a transfer, whatever follows it on the wire.\<close>

lemma respond_transfer:
  assumes "tg_step tgt p (a2 a) (a3 a) d (if d = Write then v else 0) t = (w, t1)"
  shows "wire_respond tgt (transfer_io_sequence p a d v @ rest) t
       = (answer_bits d w @ fst (wire_respond tgt rest t1), snd (wire_respond tgt rest t1))"
proof -
  obtain tl where tl: "transfer_io_sequence p a d v = Output True # tl"
    by (simp add: transfer_io_sequence_def Let_def)
  have tk: "take 46 (Output True # tl @ rest) = transfer_io_sequence p a d v"
    "drop 46 (Output True # tl @ rest) = rest"
    using length_transfer [of p a d v] by (simp_all add: tl)
  define u where "u = (if d = Write then v else 0)"
  have dec: "decode_request (transfer_io_sequence p a d v) = Some (p, a2 a, a3 a, d, u)"
    "tg_step tgt p (a2 a) (a3 a) d u t = (w, t1)"
    using assms by (simp_all add: decode_transfer u_def)
  show ?thesis
    unfolding tl append_Cons
    by (subst wire_respond.simps)
      (simp only: list.case tk dec option.case option.sel option.distinct simp_thms if_True prod.case, simp split: prod.split)
qed

lemma respond_idle:
  "wire_respond tgt (replicate n (Output False) @ rest) t
     = (replicate n False @ fst (wire_respond tgt rest t), snd (wire_respond tgt rest t))"
proof (induction n)
  case (Suc n)
  then show ?case by (simp only: replicate_Suc append_Cons) (subst wire_respond.simps, simp split: prod.split)
qed simp

lemma respond_nil [simp]: "wire_respond tgt [] t = ([], t)"
  by (simp add: wire_respond.simps)

subsection \<open>The answer, as the probe parses it\<close>

text \<open>What a transfer returns for an answer of the target.\<close>

fun answer_res :: "direction \<Rightarrow> swd_answer \<Rightarrow> (swd_transfer_error, u32) res" where
  "answer_res d (AckOk v) = Ok (if d = Read then v else 0)"
| "answer_res d AckWait = Err WaitResponse"
| "answer_res d AckFault = Err FaultResponse"
| "answer_res d AckNone = Err NoAcknowledge"

lemma bits_to_byte_prefix: "bits_to_byte (data_bits v @ bs) = v"
  by (simp add: data_bits_def bits_to_byte_word)

lemma parse_answer: "parse_transfer_response (drop 8 (answer_bits d a @ bs)) d = answer_res d a"
proof -
  have p: "(data_bits v @ bs) ! 32 = (count_ones v mod 2 = 1)" for v bs
    by (simp add: data_bits_def nth_append)
  show ?thesis
    by (cases a; cases d)
      (auto simp: parse_transfer_response_def answer_bits_def Let_def bits_to_byte_prefix nth_r_def p)
qed

subsection \<open>The register operations of a batch, one after the other\<close>

fun wire_op :: "swd_op \<Rightarrow> bool" where
  "wire_op (Transfer _ _ _ _) = True"
| "wire_op (Idle _) = True"
| "wire_op _ = False"

definition tg_transfer :: "'t swd_target \<Rightarrow> port \<Rightarrow> u8 \<Rightarrow> direction \<Rightarrow> u32 \<Rightarrow> 't \<Rightarrow> swd_answer \<times> 't" where
  "tg_transfer tgt p a d v t = tg_step tgt p (a2 a) (a3 a) d (if d = Write then v else 0) t"

fun exec_ops :: "'t swd_target \<Rightarrow> (handle_id \<times> swd_op) list \<Rightarrow> 't \<Rightarrow> 't" where
  "exec_ops tgt ((_, Transfer p a d v) # ops) t = exec_ops tgt ops (snd (tg_transfer tgt p a d v t))"
| "exec_ops tgt (_ # ops) t = exec_ops tgt ops t"
| "exec_ops tgt [] t = t"

text \<open>
  What a batch of them returns: the values of the captured reads, or the first answer that is not
  an OK, with the values before it. The bits are on the wire before any answer is read, so the
  operations after a failed one are executed too.
\<close>

fun ref_ops :: "'t swd_target \<Rightarrow> (handle_id \<Rightarrow> bool) \<Rightarrow> nat \<Rightarrow> (handle_id \<times> swd_op) list \<Rightarrow> results \<Rightarrow> 't
    \<Rightarrow> (swd_failure, results) res" where
  "ref_ops tgt held i ((k, Transfer p a d v) # ops) rs t =
     (case tg_transfer tgt p a d v t of (w, t) \<Rightarrow>
      case answer_res d w of
        Ok x \<Rightarrow> ref_ops tgt held (i + 1) ops (if d = Read \<and> held k then results_push rs k (CrU32 x) else rs) t
      | Err e \<Rightarrow> Err \<lparr>sf_error = SwdTransfer e, sf_results = rs, sf_fault = i\<rparr>
      | Panic \<Rightarrow> Panic)"
| "ref_ops tgt held i (_ # ops) rs t = ref_ops tgt held (i + 1) ops rs t"
| "ref_ops tgt held i [] rs t = Ok rs"

definition wire_probe :: "'t swd_target \<Rightarrow> 't bitbang_swd" where
  "wire_probe tgt =
     \<lparr>bs_io = \<lambda>items t. (case wire_respond tgt items t of (bs, t) \<Rightarrow> (Ok bs, t)),
      bs_pins = \<lambda>out select wait t. (Ok (), t)\<rparr>"

fun op_items :: "swd_op \<Rightarrow> io_item list" where
  "op_items (Transfer p a d v) = transfer_io_sequence p a d v"
| "op_items (Idle n) = replicate n (Output False)"
| "op_items _ = []"

fun batch_items :: "(handle_id \<times> swd_op) list \<Rightarrow> io_item list" where
  "batch_items [] = []"
| "batch_items (x # ops) = op_items (snd x) @ batch_items ops"

fun op_transfers :: "nat \<Rightarrow> nat \<Rightarrow> (handle_id \<times> swd_op) list \<Rightarrow> pending_transfer list" where
  "op_transfers off i [] = []"
| "op_transfers off i ((k, Transfer p a d v) # ops) =
     \<lparr>pt_id = k, pt_direction = d, pt_offset = off, pt_operation = i\<rparr> # op_transfers (off + 46) (i + 1) ops"
| "op_transfers off i ((_, op) # ops) = op_transfers (off + length (op_items op)) (i + 1) ops"

lemma collect_ref:
  assumes "\<forall>x \<in> set ops. wire_op (snd x)" "wire_respond tgt (batch_items ops) t = (bs, t')"
  shows "length bs = length (batch_items ops) \<and> t' = exec_ops tgt ops t
    \<and> collect_transfers held (pre @ bs) (op_transfers (length pre) i ops) rs = ref_ops tgt held i ops rs t"
  using assms
proof (induction ops arbitrary: t bs t' pre i rs)
  case (Cons x ops)
  obtain k op where x: "x = (k, op)" by fastforce
  consider p a d v where "op = Transfer p a d v" | n where "op = Idle n"
    using Cons.prems(1) x by (cases op) auto
  then show ?case
  proof cases
    case 1
    let ?items = "batch_items ops"
    obtain w t1 where w: "tg_transfer tgt p a d v t = (w, t1)" by fastforce
    obtain bs1 t2 where r: "wire_respond tgt ?items t1 = (bs1, t2)" by fastforce
    have "(bs, t') = (answer_bits d w @ bs1, t2)"
      using Cons.prems(2) respond_transfer [of tgt p a d v t w t1 ?items] w r by (simp add: x 1 tg_transfer_def)
    then have bs: "bs = answer_bits d w @ bs1" "t' = t2" by simp_all
    have IH: "length bs1 = length ?items" "t2 = exec_ops tgt ops t1"
      "collect_transfers held ((pre @ answer_bits d w) @ bs1) (op_transfers (length (pre @ answer_bits d w)) (i + 1) ops) rs'
         = ref_ops tgt held (i + 1) ops rs' t1" for rs'
      using Cons.IH [of t1 bs1 t2 "pre @ answer_bits d w" "i + 1"] Cons.prems(1) r by auto
    have parse: "parse_transfer_response (drop (length pre + REQUEST_BITS) (pre @ bs)) d = answer_res d w"
      using parse_answer [of d w bs1] by (simp add: bs REQUEST_BITS_def)
    have len: "\<not> length (pre @ bs) < length pre + REQUEST_BITS" by (simp add: bs REQUEST_BITS_def)
    show ?thesis
    proof (intro conjI)
      show "length bs = length (batch_items (x # ops))" by (simp add: bs IH x 1)
      show "t' = exec_ops tgt (x # ops) t" by (simp add: bs IH x 1 w)
      show "collect_transfers held (pre @ bs) (op_transfers (length pre) i (x # ops)) rs = ref_ops tgt held i (x # ops) rs t"
        using IH(3) unfolding x 1 op_transfers.simps collect_transfers.simps pending_transfer.simps parse if_not_P [OF len]
        by (cases "answer_res d w") (simp_all add: w bs)
    qed
  next
    case 2
    obtain bs1 where bs: "bs = replicate n False @ bs1" "wire_respond tgt (batch_items ops) t = (bs1, t')"
      using Cons.prems(2) respond_idle [of tgt n "batch_items ops" t]
      by (cases "wire_respond tgt (batch_items ops) t") (simp add: x 2)
    show ?thesis
      using Cons.IH [of t bs1 t' "pre @ replicate n False" "i + 1" rs] Cons.prems(1) bs by (simp add: x 2)
  qed
qed simp

lemma bitbang_wire:
  assumes "\<forall>x \<in> set ops. wire_op (snd x)"
  shows "\<exists>first. bitbang_ops probe held i ops run rs s =
    sbind (run_flush probe held \<lparr>br_items = br_items run @ batch_items ops,
      br_transfers = br_transfers run @ op_transfers (length (br_items run)) i ops, br_first = first\<rparr> rs) (\<lambda>(_, rs). sret rs) s"
  using assms
proof (induction ops arbitrary: i run)
  case Nil
  have "run = \<lparr>br_items = br_items run @ [], br_transfers = br_transfers run @ [], br_first = br_first run\<rparr>" by simp
  then show ?case unfolding bitbang_ops.simps batch_items.simps op_transfers.simps by metis
next
  case (Cons x ops)
  obtain k op where x: "x = (k, op)" by fastforce
  consider p a d v where "op = Transfer p a d v" | n where "op = Idle n"
    using Cons.prems x by (cases op) auto
  then show ?case
  proof cases
    case 1
    let ?run = "run_extend i (transfer_io_sequence p a d v) run"
    let ?tr = "\<lparr>pt_id = k, pt_direction = d, pt_offset = length (br_items run), pt_operation = i\<rparr>"
    show ?thesis
      using Cons.IH [of "i + 1" "?run\<lparr>br_transfers := br_transfers ?run @ [?tr]\<rparr>"] Cons.prems
      by (simp add: x 1 Let_def run_extend_def add.commute)
  next
    case 2
    show ?thesis
      using Cons.IH [of "i + 1" "run_extend i (replicate n (Output False)) run"] Cons.prems
      by (simp add: x 2 run_extend_def add.commute)
  qed
qed

text \<open>The batch that is driven bit by bit is the batch executed operation by operation.\<close>

lemma bitbang_batch_ref:
  assumes "batch_ok b" "\<forall>x \<in> set (batch_ops b). wire_op (snd x)"
  shows "run_bitbang_batch (wire_probe tgt) held b t
       = (ref_ops tgt held 0 (batch_ops b) [] t, exec_ops tgt (batch_ops b) t)"
proof -
  let ?ops = "batch_ops b"
  obtain bs t' where r: "wire_respond tgt (batch_items ?ops) t = (bs, t')" by fastforce
  have c: "length bs = length (batch_items ?ops)" "t' = exec_ops tgt ?ops t"
    "collect_transfers held bs (op_transfers 0 0 ?ops) [] = ref_ops tgt held 0 ?ops [] t"
    using collect_ref [OF assms(2) r, of held "[]" 0 "[]"] by auto
  obtain first where f: "bitbang_ops (wire_probe tgt) held 0 ?ops run_new [] t =
    sbind (run_flush (wire_probe tgt) held \<lparr>br_items = batch_items ?ops,
      br_transfers = op_transfers 0 0 ?ops, br_first = first\<rparr> []) (\<lambda>(_, rs). sret rs) t"
    using bitbang_wire [OF assms(2), of "wire_probe tgt" held 0 run_new "[]" t] by (auto simp: run_new_def)
  have "bitbang_ops (wire_probe tgt) held 0 ?ops run_new [] t = (ref_ops tgt held 0 ?ops [] t, exec_ops tgt ?ops t)"
  proof (cases "batch_items ?ops = []")
    case True
    then have "bs = []" using c(1) by simp
    moreover have "op_transfers 0 0 ?ops = []"
    proof -
      have "batch_items xs = [] \<Longrightarrow> op_transfers off i xs = []" for xs off i
      proof (induction xs arbitrary: off i)
        case (Cons x xs)
        then show ?case by (cases x; cases "snd x") (auto simp: transfer_io_sequence_def Let_def)
      qed simp
      then show ?thesis using True .
    qed
    ultimately show ?thesis using True c r f by (simp add: run_flush_def sbind_def)
  next
    case False
    then show ?thesis
      using c r unfolding f
      by (cases "ref_ops tgt held 0 ?ops [] t") (simp_all add: run_flush_def sbind_def wire_probe_def)
  qed
  then show ?thesis
    using assms(1) by (simp add: run_bitbang_batch_def batch_ok_iter sbind_def batch_ops_def results_new_def)
qed

end
