(* ===== verification/Swd_Retry.thy ===== *)
theory Swd_Retry
  imports Swd_Port Swd_Device
begin

text \<open>
  The registers behind an SWD port and the retries of \<open>SwdPort::run\<close>: what a probe promises for
  one execution of a batch, and that the retries then execute each operation exactly once.
\<close>

subsection \<open>The registers\<close>

text \<open>
  DP and AP registers as ADIv5 has them; their contents and side effects are a parameter. An AP
  write returns what it leaves in the read buffer.
\<close>

record 'r adi_regs =
  ar_dp_read :: "u8 \<Rightarrow> 'r \<Rightarrow> u32"
  ar_dp_write :: "u8 \<Rightarrow> u32 \<Rightarrow> 'r \<Rightarrow> 'r"
  ar_ap_read :: "u8 \<Rightarrow> 'r \<Rightarrow> u32 \<times> 'r"
  ar_ap_write :: "u8 \<Rightarrow> u32 \<Rightarrow> 'r \<Rightarrow> u32 \<times> 'r"

text \<open>
  One transfer that is answered with OK, on the registers and the read buffer: an AP read is posted,
  so it returns the buffer and leaves its value there.
\<close>

fun accept :: "'r adi_regs \<Rightarrow> port \<Rightarrow> u8 \<Rightarrow> direction \<Rightarrow> u32 \<Rightarrow> 'r \<times> u32 \<Rightarrow> u32 \<times> 'r \<times> u32" where
  "accept regs Ap a Read v (r, buf) = (case ar_ap_read regs a r of (x, r) \<Rightarrow> (buf, r, x))"
| "accept regs Ap a Write v (r, buf) = (case ar_ap_write regs a v r of (x, r) \<Rightarrow> (0, r, x))"
| "accept regs Dp a Read v (r, buf) = ((if a = DP_RDBUFF_ADDR then buf else ar_dp_read regs a r), r, buf)"
| "accept regs Dp a Write v (r, buf) = (0, (if a = DP_ABORT_ADDR then r else ar_dp_write regs a v r), buf)"

fun final_regs :: "'r adi_regs \<Rightarrow> (handle_id \<times> swd_op) list \<Rightarrow> 'r \<times> u32 \<Rightarrow> 'r \<times> u32" where
  "final_regs regs ((_, Transfer p a d v) # ops) m = final_regs regs ops (snd (accept regs p a d v m))"
| "final_regs regs (_ # ops) m = final_regs regs ops m"
| "final_regs regs [] m = m"

text \<open>The values on the wire, under the handles that are held.\<close>

fun wire_values ::
  "'r adi_regs \<Rightarrow> (handle_id \<Rightarrow> bool) \<Rightarrow> (handle_id \<times> swd_op) list \<Rightarrow> 'r \<times> u32
     \<Rightarrow> (handle_id \<rightharpoonup> command_result) \<Rightarrow> (handle_id \<rightharpoonup> command_result)" where
  "wire_values regs held ((k, Transfer p a d v) # ops) m f =
     wire_values regs held ops (snd (accept regs p a d v m))
       (if d = Read \<and> held k then f(k \<mapsto> CrU32 (fst (accept regs p a d v m))) else f)"
| "wire_values regs held (_ # ops) m f = wire_values regs held ops m f"
| "wire_values regs held [] m f = f"

lemma final_regs_append: "final_regs regs (xs @ ys) m = final_regs regs ys (final_regs regs xs m)"
  by (induction regs xs m rule: final_regs.induct) simp_all

lemma wire_values_append:
  "wire_values regs held (xs @ ys) m f = wire_values regs held ys (final_regs regs xs m) (wire_values regs held xs m f)"
  by (induction regs held xs m f rule: wire_values.induct) simp_all

lemma wire_values_base: "wire_values regs held ops m f = f ++ wire_values regs held ops m Map.empty"
proof (induction ops arbitrary: m f)
  case (Cons x ops)
  obtain k op where x: "x = (k, op)" by fastforce
  show ?case
  proof (cases op)
    case (Transfer p a d v)
    let ?m = "snd (accept regs p a d v m)" and ?c = "CrU32 (fst (accept regs p a d v m))"
    let ?w = "wire_values regs held ops ?m"
    have "?w (f(k \<mapsto> ?c)) = f(k \<mapsto> ?c) ++ ?w Map.empty" "?w [k \<mapsto> ?c] = [k \<mapsto> ?c] ++ ?w Map.empty" "?w f = f ++ ?w Map.empty"
      by (rule Cons.IH)+
    moreover have "f(k \<mapsto> ?c) ++ ?w Map.empty = f ++ ([k \<mapsto> ?c] ++ ?w Map.empty)"
      by (rule ext) (simp add: map_add_def split: option.split)
    ultimately have "?w (f(k \<mapsto> ?c)) = f ++ ?w [k \<mapsto> ?c]" "?w f = f ++ ?w Map.empty" by metis+
    then show ?thesis unfolding x Transfer wire_values.simps by presburger
  qed (simp_all only: x wire_values.simps, (rule Cons.IH)+)
qed simp

text \<open>The lengths of idle phases do not matter.\<close>

lemma only_transfers_count:
  "final_regs regs ops m = final_regs regs (filter (\<lambda>x. is_transfer (snd x)) ops) m"
  "wire_values regs held ops m f = wire_values regs held (filter (\<lambda>x. is_transfer (snd x)) ops) m f"
proof (induction ops arbitrary: m f)
  case (Cons x ops)
  {
    case 1 then show ?case using Cons(1) by (cases x; cases "snd x") auto
  next
    case 2 then show ?case using Cons(2) by (cases x; cases "snd x") auto
  }
qed simp_all

definition only_transfers :: "(handle_id \<times> swd_op) list \<Rightarrow> (handle_id \<times> swd_op) list" where
  "only_transfers ops = filter (\<lambda>x. is_transfer (snd x)) ops"

subsection \<open>The retries\<close>

text \<open>
  The register operations the port is verified for: transfers of the four registers that the address
  bits select, other than writes of ABORT, and idle cycles.
\<close>

definition reg_op :: "swd_op \<Rightarrow> bool" where
  "reg_op op \<longleftrightarrow> (case op of Transfer p a d v \<Rightarrow> a \<in> {0, 4, 8, 12} \<and> \<not> is_abort op | Idle n \<Rightarrow> True | _ \<Rightarrow> False)"

definition reg_batch :: "swd_batch \<Rightarrow> bool" where
  "reg_batch b \<longleftrightarrow> batch_ok b \<and> (\<forall>x \<in> set (batch_ops b). reg_op (snd x))"

text \<open>The most a retry can add to an idle phase.\<close>

definition idle_step :: "swd_settings \<Rightarrow> nat" where
  "idle_step st = max (max 1 (num_idle_cycles_between_writes st)) (max_retry_idle_cycles_after_wait st)"

fun idle_fits :: "nat \<Rightarrow> swd_op \<Rightarrow> bool" where
  "idle_fits extra (Idle n) = (n + extra < 2 ^ 32)"
| "idle_fits extra _ = True"

definition idle_room :: "nat \<Rightarrow> (handle_id \<times> swd_op) list \<Rightarrow> bool" where
  "idle_room extra ops \<longleftrightarrow> (\<forall>x \<in> set ops. idle_fits extra (snd x))"

text \<open>
  What a probe promises for a batch of register operations, when it is ready: it either executes all
  of them, or reports a WAIT at an operation, before which each operation was executed and from which
  on none was; the clearing of the sticky flags makes it ready again and touches nothing else. It
  answers with a WAIT a bounded number of times.
\<close>

locale wait_probe =
  fixes probe :: "'p swd_probe"
    and regs :: "'r adi_regs"
    and view :: "'p \<Rightarrow> 'r \<times> u32"
    and ready :: "'p \<Rightarrow> bool"
    and waits :: "'p \<Rightarrow> nat"
  assumes batch_runs: "reg_batch b \<Longrightarrow> ready s \<Longrightarrow>
    (\<exists>rs s'. sp_run_batch probe held b s = (Ok rs, s') \<and> ready s' \<and> waits s' \<le> waits s
       \<and> distinct (map fst rs) \<and> map_of rs = wire_values regs held (batch_ops b) (view s) Map.empty
       \<and> view s' = final_regs regs (batch_ops b) (view s))
    \<or> (\<exists>f s'. sp_run_batch probe held b s = (Err f, s') \<and> waits s' < waits s
       \<and> sf_error f = SwdTransfer WaitResponse \<and> sf_fault f < length (batch_ops b)
       \<and> distinct (map fst (sf_results f))
       \<and> map_of (sf_results f) = wire_values regs held (take (sf_fault f) (batch_ops b)) (view s) Map.empty
       \<and> view s' = final_regs regs (take (sf_fault f) (batch_ops b)) (view s))"
    and clear_runs: "\<exists>rs s'. sp_run_batch probe (\<lambda>_. False) (clear_batch probe st) s = (Ok rs, s') \<and> ready s'
       \<and> waits s' \<le> waits s \<and> view s' = view s"
    and abort_runs: "\<exists>rs s'. sp_run_batch probe (\<lambda>_. False) (abort_batch st) s = (Ok rs, s') \<and> view s' = view s"
    and leaves_wait: "\<not> sp_handles_wait probe"
    and leaves_pipeline: "\<not> sp_handles_ap_pipeline probe"

lemma map_of_rev_distinct: "distinct (map fst xs) \<Longrightarrow> map_of (rev xs) = map_of xs"
  by (rule map_of_eqI) (auto simp: rev_map [symmetric])

lemma merge_all:
  assumes "distinct (map fst ys)"
  shows "map_of (results_merge_from (\<lambda>_. True) xs ys) = map_of xs ++ map_of ys"
proof -
  have "map_of (fold (\<lambda>(k, r) acc. results_push acc k r) ys xs) = map_of xs ++ map_of (rev ys)"
  proof (induction ys arbitrary: xs)
    case (Cons y ys)
    then show ?case
      by (cases y) (simp add: results_push_def update_conv' fun_upd_def [symmetric])
  qed simp
  then show ?thesis using assms by (simp add: results_merge_from_def case_prod_unfold map_of_rev_distinct)
qed

lemma idle_fits_mono: "idle_fits extra op \<Longrightarrow> extra' \<le> extra \<Longrightarrow> idle_fits extra' op"
  by (cases op) simp_all

lemma idle_fits_less: "idle_fits (extra + r) op \<Longrightarrow> idle_fits r op"
  by (cases op) simp_all

lemma bump_ops_ok:
  assumes "idle_room (extra + r) ops" "\<forall>x \<in> set ops. reg_op (snd x)"
  shows "\<exists>ops'. (bump_ops extra ops :: ('e, (handle_id \<times> swd_op) list) res) = Ok ops' \<and> idle_room r ops' \<and> (\<forall>x \<in> set ops'. reg_op (snd x))
    \<and> filter (\<lambda>x. is_transfer (snd x)) ops' = filter (\<lambda>x. is_transfer (snd x)) ops"
  using assms
proof (induction extra ops rule: bump_ops.induct)
  case (2 extra k p a v j cycles ops)
  then have c: "cycles + (extra + r) < 2 ^ 32" "reg_op (Transfer p a Write v)" by (simp_all add: idle_room_def)
  from 2 obtain ops' where "(bump_ops extra ops :: ('e, (handle_id \<times> swd_op) list) res) = Ok ops'" "idle_room r ops'" "\<forall>x \<in> set ops'. reg_op (snd x)"
    "filter (\<lambda>x. is_transfer (snd x)) ops' = filter (\<lambda>x. is_transfer (snd x)) ops"
    by (auto simp: idle_room_def)
  then show ?case using c by (auto simp: idle_room_def reg_op_def res_simps)
qed (auto simp: idle_room_def dest: idle_fits_less)

lemma consume_ok:
  assumes "batch_ok b" "n \<le> length (batch_ops b)"
  shows "consume b n = Ok (b\<lparr>cursor := cursor b + n\<rparr>)" "batch_ok (b\<lparr>cursor := cursor b + n\<rparr>)"
    "batch_ops (b\<lparr>cursor := cursor b + n\<rparr>) = drop n (batch_ops b)"
  using assms
  by (auto simp: consume_def batch_len_def remaining_with_ids_def batch_ok_def batch_ops_def res_simps add.commute)

lemma bump_write_idle_ok:
  assumes "reg_batch b" "idle_room (extra + r) (batch_ops b)"
  shows "\<exists>b'. (bump_write_idle extra b :: ('e, swd_batch) res) = Ok b' \<and> reg_batch b' \<and> idle_room r (batch_ops b')
    \<and> filter (\<lambda>x. is_transfer (snd x)) (batch_ops b') = filter (\<lambda>x. is_transfer (snd x)) (batch_ops b)"
proof -
  have b: "batch_ok b" "\<forall>x \<in> set (batch_ops b). reg_op (snd x)" using assms(1) by (auto simp: reg_batch_def)
  obtain ops' where ops': "(bump_ops extra (batch_ops b) :: ('e, (handle_id \<times> swd_op) list) res) = Ok ops'" "idle_room r ops'" "\<forall>x \<in> set ops'. reg_op (snd x)"
    "filter (\<lambda>x. is_transfer (snd x)) ops' = filter (\<lambda>x. is_transfer (snd x)) (batch_ops b)"
    using bump_ops_ok [OF assms(2) b(2)] by blast
  have "(bump_write_idle extra b :: ('e, swd_batch) res) = Ok (replace_remaining b ops')"
    using batch_ok_iter [OF b(1), where ?'b = 'e] ops'(1) by (simp add: bump_write_idle_def batch_iter_def batch_ops_def)
  moreover have "batch_ops (replace_remaining b ops') = ops'" "batch_ok (replace_remaining b ops')"
    using b(1) by (simp_all add: replace_remaining_def batch_ops_def batch_ok_def)
  ultimately show ?thesis using ops' by (auto simp: reg_batch_def)
qed

lemma idle_room_drop: "idle_room extra ops \<Longrightarrow> idle_room extra (drop n ops)"
  by (auto simp: idle_room_def dest: in_set_dropD)

lemma idle_room_mono: "idle_room extra ops \<Longrightarrow> extra' \<le> extra \<Longrightarrow> idle_room extra' ops"
  by (auto simp: idle_room_def elim: idle_fits_mono)

lemma next_idle_step: "next_idle st idle \<le> idle_step st"
  by (simp add: next_idle_def idle_step_def)

lemma transfers_prefix:
  assumes "only_transfers ops = only_transfers (drop n xs)" "m = final_regs regs (take n xs) m0"
  shows "\<exists>j. final_regs regs (take i (only_transfers ops)) m = final_regs regs (take j (only_transfers xs)) m0"
proof -
  let ?a = "only_transfers (take n xs)"
  have "only_transfers (take n xs @ drop n xs) = ?a @ only_transfers (drop n xs)"
    by (simp add: only_transfers_def del: append_take_drop_id)
  then have "only_transfers xs = ?a @ only_transfers ops" using assms(1) by simp
  then have "take (length ?a + i) (only_transfers xs) = ?a @ take i (only_transfers ops)" by simp
  moreover have "m = final_regs regs ?a m0"
    using only_transfers_count(1) [of regs "take n xs" m0] assms(2) by (simp add: only_transfers_def)
  ultimately show ?thesis by (metis final_regs_append)
qed

context wait_probe begin

text \<open>One attempt: it finishes the batch, or it goes on with the operations from the one that waited.\<close>

lemma retry_step:
  assumes "reg_batch b" "ready s" "idle \<le> idle_step st" "idle_room (Suc n * idle_step st) (batch_ops b)"
  shows "(\<exists>rs s'. retry_batch probe st held (Suc n) b collected idle s = (Ok rs, s') \<and> ready s' \<and> waits s' \<le> waits s
      \<and> map_of rs = wire_values regs held (batch_ops b) (view s) (map_of collected)
      \<and> view s' = final_regs regs (batch_ops b) (view s))
    \<or> (\<exists>j b2 col s2. retry_batch probe st held (Suc n) b collected idle s
          = retry_batch probe st held n b2 col (next_idle st idle) s2
      \<and> reg_batch b2 \<and> ready s2 \<and> waits s2 < waits s \<and> idle_room (n * idle_step st) (batch_ops b2)
      \<and> only_transfers (batch_ops b2) = only_transfers (drop j (batch_ops b))
      \<and> map_of col = wire_values regs held (take j (batch_ops b)) (view s) (map_of collected)
      \<and> view s2 = final_regs regs (take j (batch_ops b)) (view s))"
proof -
  let ?ops = "batch_ops b" and ?m = "view s"
  from batch_runs [OF assms(1,2), of held] show ?thesis
  proof (elim disjE exE conjE)
    fix rs s'
    assume "sp_run_batch probe held b s = (Ok rs, s')" "ready s'" "waits s' \<le> waits s" "distinct (map fst rs)"
      "map_of rs = wire_values regs held ?ops ?m Map.empty" "view s' = final_regs regs ?ops ?m"
    then show ?thesis using wire_values_base [of regs held ?ops ?m "map_of collected"] by (simp add: merge_all)
  next
    fix f s'
    assume f: "sp_run_batch probe held b s = (Err f, s')" "waits s' < waits s" "sf_error f = SwdTransfer WaitResponse"
      "sf_fault f < length ?ops" "distinct (map fst (sf_results f))"
      "map_of (sf_results f) = wire_values regs held (take (sf_fault f) ?ops) ?m Map.empty"
      "view s' = final_regs regs (take (sf_fault f) ?ops) ?m"
    obtain rs2 s2 where c: "sp_run_batch probe (\<lambda>_. False) (clear_batch probe st) s' = (Ok rs2, s2)" "ready s2"
      "waits s2 \<le> waits s'" "view s2 = view s'"
      using clear_runs by blast
    have clear: "clear_overrun_and_sticky_err probe st s' = (Ok (), s2)"
      by (simp add: clear_overrun_and_sticky_err_def probe_batch_def sbind_def c(1))
    define b1 where "b1 = b\<lparr>cursor := cursor b + sf_fault f\<rparr>"
    have b1: "(consume b (sf_fault f) :: (swd_port_error, swd_batch) res) = Ok b1" "reg_batch b1"
      "batch_ops b1 = drop (sf_fault f) ?ops"
      using consume_ok [of b "sf_fault f"] assms(1) f(4) unfolding b1_def
      by (auto simp: reg_batch_def dest: in_set_dropD)
    have as: "as_u32 idle \<le> idle" by (simp add: as_u32_def)
    have "idle_room (as_u32 idle + n * idle_step st) (batch_ops b1)"
      using idle_room_drop [OF assms(4), of "sf_fault f"] as assms(3) by (auto simp: b1 elim!: idle_room_mono)
    from bump_write_idle_ok [OF b1(2) this] obtain b2
      where b2: "(bump_write_idle (as_u32 idle) b1 :: (swd_port_error, swd_batch) res) = Ok b2" "reg_batch b2"
        "idle_room (n * idle_step st) (batch_ops b2)"
        "filter (\<lambda>x. is_transfer (snd x)) (batch_ops b2) = filter (\<lambda>x. is_transfer (snd x)) (batch_ops b1)"
      by blast
    define col where "col = results_merge_from (\<lambda>_. True) collected (sf_results f)"
    have "retry_batch probe st held (Suc n) b collected idle s = retry_batch probe st held n b2 col (next_idle st idle) s2"
      by (simp add: f(1,3) leaves_wait clear b1(1) b2(1) col_def sbind_def)
    moreover have "map_of col = wire_values regs held (take (sf_fault f) ?ops) ?m (map_of collected)"
      using f(5,6) wire_values_base [of regs held "take (sf_fault f) ?ops" ?m "map_of collected"] by (simp add: col_def merge_all)
    moreover have "waits s2 < waits s" "view s2 = final_regs regs (take (sf_fault f) ?ops) ?m" using f(2,7) c by simp_all
    ultimately show ?thesis using b2 c(2) b1(3) by (auto simp: only_transfers_def)
  qed
qed

text \<open>Enough retries: each operation is executed once, and each value is the one it had then.\<close>

lemma retry_executes_once:
  assumes "waits s < n" "reg_batch b" "ready s" "idle \<le> idle_step st" "idle_room (n * idle_step st) (batch_ops b)"
  shows "\<exists>rs s'. retry_batch probe st held n b collected idle s = (Ok rs, s') \<and> ready s' \<and> waits s' \<le> waits s
    \<and> map_of rs = wire_values regs held (batch_ops b) (view s) (map_of collected)
    \<and> view s' = final_regs regs (batch_ops b) (view s)"
  using assms
proof (induction n arbitrary: b collected idle s)
  case (Suc n)
  let ?ops = "batch_ops b"
  from retry_step [OF Suc.prems(2-5), of held collected] show ?case
  proof (elim disjE exE conjE)
    fix j b2 col s2
    assume r: "retry_batch probe st held (Suc n) b collected idle s = retry_batch probe st held n b2 col (next_idle st idle) s2"
      "reg_batch b2" "ready s2" "waits s2 < waits s" "idle_room (n * idle_step st) (batch_ops b2)"
      "only_transfers (batch_ops b2) = only_transfers (drop j ?ops)"
      "map_of col = wire_values regs held (take j ?ops) (view s) (map_of collected)"
      "view s2 = final_regs regs (take j ?ops) (view s)"
    have ops: "wire_values regs held (batch_ops b2) x g = wire_values regs held (drop j ?ops) x g"
      "final_regs regs (batch_ops b2) x = final_regs regs (drop j ?ops) x" for x g
      using r(6) only_transfers_count [of regs] unfolding only_transfers_def by metis+
    have "waits s2 < n" using r(4) Suc.prems(1) by simp
    then obtain rs s' where "retry_batch probe st held n b2 col (next_idle st idle) s2 = (Ok rs, s')" "ready s'" "waits s' \<le> waits s2"
      "map_of rs = wire_values regs held (batch_ops b2) (view s2) (map_of col)" "view s' = final_regs regs (batch_ops b2) (view s2)"
      using Suc.IH [OF _ r(2,3) next_idle_step r(5), of col] by blast
    then show ?thesis
      using r(1,4,7,8) wire_values_append [of regs held "take j ?ops" "drop j ?ops"]
        final_regs_append [of regs "take j ?ops" "drop j ?ops"]
      by (simp add: ops)
  qed blast
qed simp

text \<open>Any number of WAITs: the batch is executed, or the port gives up after a prefix of it.\<close>

lemma retry_prefix:
  assumes "reg_batch b" "ready s" "idle \<le> idle_step st" "idle_room (n * idle_step st) (batch_ops b)"
  shows "(\<exists>rs s'. retry_batch probe st held n b collected idle s = (Ok rs, s') \<and> ready s'
      \<and> map_of rs = wire_values regs held (batch_ops b) (view s) (map_of collected)
      \<and> view s' = final_regs regs (batch_ops b) (view s))
    \<or> (\<exists>j s'. retry_batch probe st held n b collected idle s = (Err (PortTransfer WaitResponse), s')
      \<and> view s' = final_regs regs (take j (only_transfers (batch_ops b))) (view s))"
  using assms
proof (induction n arbitrary: b collected idle s)
  case 0
  obtain rs s' where "sp_run_batch probe (\<lambda>_. False) (abort_batch st) s = (Ok rs, s')" "view s' = view s"
    using abort_runs by blast
  then show ?case by (auto simp: write_abort_dap_def probe_batch_def sbind_def intro!: exI [of _ 0])
next
  case (Suc n)
  let ?ops = "batch_ops b"
  from retry_step [OF Suc.prems, of held collected] show ?case
  proof (elim disjE exE conjE)
    fix j b2 col s2
    assume r: "retry_batch probe st held (Suc n) b collected idle s = retry_batch probe st held n b2 col (next_idle st idle) s2"
      "reg_batch b2" "ready s2" "idle_room (n * idle_step st) (batch_ops b2)"
      "only_transfers (batch_ops b2) = only_transfers (drop j ?ops)"
      "map_of col = wire_values regs held (take j ?ops) (view s) (map_of collected)"
      "view s2 = final_regs regs (take j ?ops) (view s)"
    have "final_regs regs (batch_ops b2) (view s2) = final_regs regs ?ops (view s)"
      "wire_values regs held (batch_ops b2) (view s2) (map_of col) = wire_values regs held ?ops (view s) (map_of collected)"
      using r(5-7) only_transfers_count [of regs] final_regs_append [of regs "take j ?ops" "drop j ?ops"]
        wire_values_append [of regs held "take j ?ops" "drop j ?ops"]
      unfolding only_transfers_def by (metis append_take_drop_id)+
    then show ?thesis
      using Suc.IH [OF r(2,3) next_idle_step r(4), of col] r(1) transfers_prefix [OF r(5,7)] by metis
  qed blast
qed

end

end
