(* ===== verification/Swd_Expand.thy ===== *)
theory Swd_Expand
  imports Swd_Retry
begin

text \<open>
  The expansion of a batch of register operations (\<open>expand_batch\<close> and \<open>remap_results\<close> of
  probe-rs/src/probe/swd/port.rs): the operations it adds change no register, and the value that it
  hands back for a captured read is the value that the register had when the read was executed.
\<close>

subsection \<open>What one operation expands to\<close>

fun next_transfer :: "(handle_id \<times> swd_op) list \<Rightarrow> (handle_id \<times> swd_op) option" where
  "next_transfer [] = None"
| "next_transfer ((k, op) # ops) = (if is_transfer op then Some (k, op) else next_transfer ops)"

definition needs_rdbuff :: "swd_op \<Rightarrow> swd_op option \<Rightarrow> bool" where
  "needs_rdbuff op nxt = extra_rdbuff_needed (is_ap_read op) (is_ap_write op) (is_write op \<and> \<not> is_abort op) nxt"

definition one_ops :: "(handle_id \<Rightarrow> bool) \<Rightarrow> swd_settings \<Rightarrow> nat \<Rightarrow> handle_id \<Rightarrow> port \<Rightarrow> u8 \<Rightarrow> direction \<Rightarrow> u32
    \<Rightarrow> swd_op option \<Rightarrow> (handle_id \<times> swd_op) list" where
  "one_ops held st fresh k p a d v nxt =
     (let op = Transfer p a d v; extra = needs_rdbuff op nxt in
      [(if d = Read \<and> held k then k else fresh, op)]
      @ (if d = Write then [(fresh + 1, Idle (as_u32 (num_idle_cycles_between_writes st)))] else [])
      @ (if is_ap_write op \<and> (case nxt of Some n \<Rightarrow> is_ap_read n | None \<Rightarrow> False)
         then [(fresh + 2, Idle (as_u32 (idle_cycles_before_write_verify st)))] else [])
      @ (if extra \<and> is_write op \<and> \<not> is_abort op then [(fresh + 3, Idle (as_u32 (idle_cycles_before_write_verify st)))] else [])
      @ (if extra then [(fresh + 4, Transfer Dp DP_RDBUFF_ADDR Read 0)] else []))"

definition one_reads :: "(handle_id \<Rightarrow> bool) \<Rightarrow> nat \<Rightarrow> handle_id \<Rightarrow> swd_op \<Rightarrow> swd_op option \<Rightarrow> handle_id option list" where
  "one_reads held fresh k op nxt =
     (if is_transfer op \<and> \<not> is_write op then [if held k then Some k else None] else [])
     @ (if needs_rdbuff op nxt then [Some (fresh + 4)] else [])"

definition one_logical :: "(handle_id \<Rightarrow> bool) \<Rightarrow> nat \<Rightarrow> handle_id \<Rightarrow> swd_op \<Rightarrow> logical_mapping list" where
  "one_logical held off k op =
     (if is_transfer op \<and> \<not> is_write op \<and> held k then [if is_ap_read op then FromNext k off else Passthrough k off] else [])"

lemma expand_transfer_plan:
  assumes "nxt = (if i + 1 < length transfers then Some (transfers ! (i + 1)) else None)"
  shows "expand_transfer held st False transfers i k p a d v (plan, fresh)
    = (plan\<lparr>ep_expanded := (ep_expanded plan)\<lparr>commands := commands (ep_expanded plan) @ one_ops held st fresh k p a d v nxt\<rparr>,
        ep_read_handles := ep_read_handles plan @ one_reads held fresh k (Transfer p a d v) nxt,
        ep_logical := ep_logical plan @ one_logical held (length (ep_read_handles plan)) k (Transfer p a d v)\<rparr>, fresh + 5)"
  unfolding assms
  by (cases p; cases d)
    (simp_all add: expand_transfer_def Let_def one_ops_def one_reads_def one_logical_def needs_rdbuff_def
      schedule_transfer_def schedule_preserved_def batch_schedule_def swd_idle_def)

fun xops :: "(handle_id \<Rightarrow> bool) \<Rightarrow> swd_settings \<Rightarrow> nat \<Rightarrow> (handle_id \<times> swd_op) list \<Rightarrow> (handle_id \<times> swd_op) list" where
  "xops held st fresh [] = []"
| "xops held st fresh ((k, Transfer p a d v) # ops) =
     one_ops held st fresh k p a d v (map_option snd (next_transfer ops)) @ xops held st (fresh + 5) ops"
| "xops held st fresh ((k, op) # ops) = (fresh, op) # xops held st (fresh + 1) ops"

fun xreads :: "(handle_id \<Rightarrow> bool) \<Rightarrow> nat \<Rightarrow> (handle_id \<times> swd_op) list \<Rightarrow> handle_id option list" where
  "xreads held fresh [] = []"
| "xreads held fresh ((k, op) # ops) =
     (if is_transfer op
      then one_reads held fresh k op (map_option snd (next_transfer ops)) @ xreads held (fresh + 5) ops
      else xreads held (fresh + 1) ops)"

fun xlogical :: "(handle_id \<Rightarrow> bool) \<Rightarrow> nat \<Rightarrow> nat \<Rightarrow> (handle_id \<times> swd_op) list \<Rightarrow> logical_mapping list" where
  "xlogical held off fresh [] = []"
| "xlogical held off fresh ((k, op) # ops) =
     (if is_transfer op
      then one_logical held off k op
        @ xlogical held (off + length (one_reads held fresh k op (map_option snd (next_transfer ops)))) (fresh + 5) ops
      else xlogical held off (fresh + 1) ops)"

lemma next_transfer_filter:
  "map_option snd (next_transfer ops) = (case filter is_transfer (map snd ops) of [] \<Rightarrow> None | n # _ \<Rightarrow> Some n)"
  by (induction ops) auto

lemma expand_ops_plan:
  assumes "\<forall>x \<in> set ops. wire_op (snd x)" "drop i transfers = filter is_transfer (map snd ops)"
  shows "\<exists>fresh'. expand_ops held st False transfers i ops (plan, fresh)
    = (plan\<lparr>ep_expanded := (ep_expanded plan)\<lparr>commands := commands (ep_expanded plan) @ xops held st fresh ops\<rparr>,
        ep_read_handles := ep_read_handles plan @ xreads held fresh ops,
        ep_logical := ep_logical plan @ xlogical held (length (ep_read_handles plan)) fresh ops\<rparr>, fresh')"
  using assms
proof (induction ops arbitrary: i plan fresh)
  case Nil
  then show ?case by simp
next
  case (Cons x ops)
  obtain k op where x: "x = (k, op)" by fastforce
  show ?case
  proof (cases op)
    case (Transfer p a d v)
    let ?nxt = "map_option snd (next_transfer ops)"
    have rest: "drop (i + 1) transfers = filter is_transfer (map snd ops)"
      using Cons.prems(2) by (simp add: x Transfer) (metis drop_Suc list.sel(3) tl_drop)
    have nxt: "?nxt = (if i + 1 < length transfers then Some (transfers ! (i + 1)) else None)"
    proof (cases "i + 1 < length transfers")
      case True
      then have "filter is_transfer (map snd ops) = transfers ! (i + 1) # drop (Suc (i + 1)) transfers"
        using rest Cons_nth_drop_Suc [OF True] by metis
      then show ?thesis using True by (simp add: next_transfer_filter)
    next
      case False
      then show ?thesis using rest by (simp add: next_transfer_filter)
    qed
    let ?plan = "plan\<lparr>ep_expanded := (ep_expanded plan)\<lparr>commands := commands (ep_expanded plan) @ one_ops held st fresh k p a d v ?nxt\<rparr>,
        ep_read_handles := ep_read_handles plan @ one_reads held fresh k (Transfer p a d v) ?nxt,
        ep_logical := ep_logical plan @ one_logical held (length (ep_read_handles plan)) k (Transfer p a d v)\<rparr>"
    have e: "expand_transfer held st False transfers i k p a d v (plan, fresh) = (?plan, fresh + 5)"
      by (rule expand_transfer_plan [OF nxt])
    obtain fresh' where "expand_ops held st False transfers (i + 1) ops (?plan, fresh + 5)
      = (?plan\<lparr>ep_expanded := (ep_expanded ?plan)\<lparr>commands := commands (ep_expanded ?plan) @ xops held st (fresh + 5) ops\<rparr>,
        ep_read_handles := ep_read_handles ?plan @ xreads held (fresh + 5) ops,
        ep_logical := ep_logical ?plan @ xlogical held (length (ep_read_handles ?plan)) (fresh + 5) ops\<rparr>, fresh')"
      using Cons.IH [OF _ rest, of ?plan "fresh + 5"] Cons.prems(1) by auto
    then show ?thesis by (simp add: x Transfer e)
  next
    case (Idle n)
    then show ?thesis
      using Cons.IH [of i "plan\<lparr>ep_expanded := swd_idle fresh n (ep_expanded plan)\<rparr>" "fresh + 1"] Cons.prems
      by (simp add: x Idle swd_idle_def batch_schedule_def)
  qed (use Cons.prems in \<open>simp_all add: x\<close>)
qed

subsection \<open>Registers and values of the expanded batch\<close>

text \<open>The reads of a batch with the values they return on the wire.\<close>

fun read_trace :: "'r adi_regs \<Rightarrow> (handle_id \<times> swd_op) list \<Rightarrow> 'r \<times> u32 \<Rightarrow> (handle_id \<times> u32) list" where
  "read_trace regs ((k, Transfer p a d v) # ops) m =
     (if d = Read then [(k, fst (accept regs p a d v m))] else []) @ read_trace regs ops (snd (accept regs p a d v m))"
| "read_trace regs (_ # ops) m = read_trace regs ops m"
| "read_trace regs [] m = []"

lemma read_trace_append: "read_trace regs (xs @ ys) m = read_trace regs xs m @ read_trace regs ys (final_regs regs xs m)"
  by (induction regs xs m rule: read_trace.induct) simp_all

lemma wire_values_trace:
  assumes "distinct (map fst (read_trace regs ops m))" "(k, v) \<in> set (read_trace regs ops m)" "held k"
  shows "wire_values regs held ops m f k = Some (CrU32 v)"
proof -
  have other: "wire_values regs held xs m f j = f j" if "j \<notin> set (map fst (read_trace regs xs m))" for xs m f j
    using that
  proof (induction xs arbitrary: m f)
    case (Cons x xs)
    then show ?case by (cases x; cases "snd x"; cases m) (auto split: if_splits)
  qed simp
  show ?thesis
    using assms
  proof (induction ops arbitrary: m f)
    case (Cons x ops)
    obtain h op where x: "x = (h, op)" by fastforce
    show ?case
    proof (cases op)
      case (Transfer p a d v')
      show ?thesis
        using Cons.IH [of "snd (accept regs p a d v' m)"] Cons.prems(1,2) assms(3)
        by (cases "(k, v) \<in> set (read_trace regs ops (snd (accept regs p a d v' m)))")
          (auto simp: x Transfer other split: if_splits)
    qed (use Cons in \<open>simp_all add: x\<close>)
  qed simp
qed

lemma rdbuff_accept: "accept regs Dp DP_RDBUFF_ADDR Read v m = (snd m, m)"
  by (cases m) simp

lemma one_ops_trace:
  "final_regs regs (one_ops held st fresh k p a d v nxt) m = snd (accept regs p a d v m)"
  "read_trace regs (one_ops held st fresh k p a d v nxt) m =
     (if d = Read then [(if held k then k else fresh, fst (accept regs p a d v m))] else [])
     @ (if needs_rdbuff (Transfer p a d v) nxt then [(fresh + 4, snd (snd (accept regs p a d v m)))] else [])"
  by (auto simp: one_ops_def Let_def rdbuff_accept)

lemma xops_final:
  "\<forall>x \<in> set ops. wire_op (snd x) \<Longrightarrow> final_regs regs (xops held st fresh ops) m = final_regs regs ops m"
  by (induction held st fresh ops arbitrary: m rule: xops.induct) (auto simp: final_regs_append one_ops_trace)

text \<open>The value of each read handle: what the wire returned, when the handle is known.\<close>

definition handle_values :: "handle_id option list \<Rightarrow> (handle_id \<times> u32) list \<Rightarrow> u32 option list" where
  "handle_values hs tr = map2 (\<lambda>h (k, v). map_option (\<lambda>_. v) h) hs tr"

definition known_handles :: "handle_id option list \<Rightarrow> (handle_id \<times> u32) list \<Rightarrow> bool" where
  "known_handles hs tr \<longleftrightarrow> list_all2 (\<lambda>h (k, v). h = None \<or> h = Some k) hs tr"

lemma xreads_known:
  "\<forall>x \<in> set ops. wire_op (snd x) \<Longrightarrow> known_handles (xreads held fresh ops) (read_trace regs (xops held st fresh ops) m)"
proof (induction held st fresh ops arbitrary: m rule: xops.induct)
  case (2 held st fresh k p a d v ops)
  then show ?case
    by (cases d) (auto simp: known_handles_def read_trace_append one_ops_trace one_reads_def intro!: list_all2_appendI)
qed (auto simp: known_handles_def)

lemma read_values_known:
  assumes "known_handles hs tr" "\<And>k v. (k, v) \<in> set tr \<Longrightarrow> Some k \<in> set hs \<Longrightarrow> map_of rs k = Some (CrU32 v)"
  shows "rtraverse (read_value rs) hs = Ok (handle_values hs tr)"
proof -
  have V: "read_value rs h = Ok (map_option (\<lambda>_. v) h)" if "(h, (k, v)) \<in> set (zip hs tr)" for h k v
  proof (cases h)
    case (Some k')
    have "k' = k" using assms(1) that Some unfolding known_handles_def list_all2_iff by fastforce
    moreover have "(k, v) \<in> set tr" "Some k' \<in> set hs" using that Some by (auto dest: set_zip_leftD set_zip_rightD)
    ultimately show ?thesis using assms(2) [of k v] Some by (simp add: read_value_def)
  qed (simp add: read_value_def)
  have "length hs = length tr" using assms(1) by (simp add: known_handles_def list_all2_lengthD)
  from this V show ?thesis
    unfolding handle_values_def by (induction hs tr rule: list_induct2) auto
qed

subsection \<open>The values the caller gets\<close>

text \<open>
  The batch as the caller means it: each captured read has the value of its register, an AP read too.
\<close>

fun logical_values ::
  "'r adi_regs \<Rightarrow> (handle_id \<Rightarrow> bool) \<Rightarrow> (handle_id \<times> swd_op) list \<Rightarrow> 'r \<times> u32
     \<Rightarrow> (handle_id \<rightharpoonup> command_result) \<Rightarrow> (handle_id \<rightharpoonup> command_result)" where
  "logical_values regs held ((k, Transfer p a d v) # ops) m f =
     (let (x, m') = accept regs p a d v m; value = (if p = Ap then snd m' else x) in
      logical_values regs held ops m' (if d = Read \<and> held k then f(k \<mapsto> CrU32 value) else f))"
| "logical_values regs held (_ # ops) m f = logical_values regs held ops m f"
| "logical_values regs held [] m f = f"

text \<open>
  When a captured AP read is followed by an AP read or by a read of the read buffer, that read
  returns its value, so it must be captured too.
\<close>

fun chained :: "(handle_id \<Rightarrow> bool) \<Rightarrow> (handle_id \<times> swd_op) list \<Rightarrow> bool" where
  "chained held [] = True"
| "chained held ((k, op) # ops) =
     ((is_ap_read op \<and> held k \<longrightarrow>
        (case next_transfer ops of Some (k', n) \<Rightarrow> is_ap_read n \<or> is_rdbuff_read n \<longrightarrow> held k' | None \<Rightarrow> True))
      \<and> chained held ops)"

definition known_ids :: "nat \<Rightarrow> (handle_id \<times> swd_op) list \<Rightarrow> bool" where
  "known_ids fresh ops \<longleftrightarrow> distinct (map fst ops) \<and> (\<forall>x \<in> set ops. fst x < fresh)"

lemma xops_distinct:
  assumes "\<forall>x \<in> set ops. wire_op (snd x)" "known_ids fresh0 ops" "fresh0 \<le> fresh"
  shows "distinct (map fst (xops held st fresh ops)) \<and> (\<forall>x \<in> set (xops held st fresh ops). fst x \<in> fst ` set ops \<or> fresh \<le> fst x)"
  using assms
proof (induction ops arbitrary: fresh)
  case (Cons x ops)
  obtain k op where x: "x = (k, op)" by fastforce
  have kn: "known_ids fresh0 ops" "k < fresh0" "k \<notin> fst ` set ops" "\<forall>y \<in> set ops. fst y < fresh0"
    using Cons.prems(2) by (auto simp: known_ids_def x)
  show ?case
  proof (cases op)
    case (Transfer p a d v)
    let ?one = "one_ops held st fresh k p a d v (map_option snd (next_transfer ops))"
    have one: "distinct (map fst ?one)" "\<forall>y \<in> set ?one. fst y = k \<or> fresh \<le> fst y \<and> fst y < fresh + 5"
      using kn(2) Cons.prems(3) by (auto simp: one_ops_def Let_def)
    have rest: "distinct (map fst (xops held st (fresh + 5) ops))"
      "\<forall>y \<in> set (xops held st (fresh + 5) ops). fst y \<in> fst ` set ops \<or> fresh + 5 \<le> fst y"
      using Cons.IH [of "fresh + 5"] Cons.prems kn(1) by auto
    have "fst y \<noteq> fst z" if "y \<in> set ?one" "z \<in> set (xops held st (fresh + 5) ops)" for y z
    proof -
      have "fst z \<noteq> k \<and> (fst z < fresh \<or> fresh + 5 \<le> fst z)"
        using rest(2) [rule_format, OF that(2)] kn(2,3,4) Cons.prems(3) by auto
      then show ?thesis using one(2) [rule_format, OF that(1)] by linarith
    qed
    then have "set (map fst ?one) \<inter> set (map fst (xops held st (fresh + 5) ops)) = {}" by auto
    moreover have "\<forall>y \<in> set (xops held st fresh (x # ops)). fst y \<in> fst ` set (x # ops) \<or> fresh \<le> fst y"
      using one(2) rest(2) by (auto simp: x Transfer)
    ultimately show ?thesis using one(1) rest(1) by (simp add: x Transfer)
  next
    case (Idle n)
    have "distinct (map fst (xops held st (fresh + 1) ops))"
      "\<forall>y \<in> set (xops held st (fresh + 1) ops). fst y \<in> fst ` set ops \<or> fresh + 1 \<le> fst y"
      using Cons.IH [of "fresh + 1"] Cons.prems kn(1) by auto
    then show ?thesis using kn Cons.prems(3) by (fastforce simp: x Idle)
  qed (use Cons.prems in \<open>simp_all add: x\<close>)
qed simp

lemma trace_distinct:
  "distinct (map fst ops) \<Longrightarrow> distinct (map fst (read_trace regs ops m)) \<and> fst ` set (read_trace regs ops m) \<subseteq> fst ` set ops"
proof (induction ops arbitrary: m)
  case (Cons x ops)
  obtain k op where x: "x = (k, op)" by fastforce
  show ?case
  proof (cases op)
    case (Transfer p a d v)
    then show ?thesis using Cons.IH [of "snd (accept regs p a d v m)"] Cons.prems by (auto simp: x)
  qed (use Cons.IH [of m] Cons.prems in \<open>auto simp: x\<close>)
qed simp

lemma handle_values_append:
  "length hs = length tr \<Longrightarrow> handle_values (hs @ hs') (tr @ tr') = handle_values hs tr @ handle_values hs' tr'"
  by (simp add: handle_values_def)

text \<open>The first captured read after an AP read returns the read buffer.\<close>

lemma next_read_buffer:
  assumes "\<forall>x \<in> set ops. wire_op (snd x)" "next_transfer ops = Some (k, n)" "is_ap_read n \<or> is_rdbuff_read n" "held k"
  shows "\<exists>vs. handle_values (xreads held fresh ops) (read_trace regs (xops held st fresh ops) m) = Some (snd m) # vs"
  using assms
proof (induction ops arbitrary: fresh)
  case (Cons x ops)
  obtain h op where x: "x = (h, op)" by fastforce
  show ?case
  proof (cases op)
    case (Transfer p a d v)
    then have "d = Read" "h = k" "fst (accept regs p a d v m) = snd m"
      using Cons.prems by (cases p; cases d; cases m; auto simp: x split: prod.split)+
    then show ?thesis
      using Cons.prems(4) by (simp add: x Transfer one_reads_def read_trace_append one_ops_trace handle_values_def)
  next
    case (Idle c)
    then show ?thesis using Cons.IH [of "fresh + 1"] Cons.prems by (simp add: x)
  qed (use Cons.prems in \<open>simp_all add: x\<close>)
qed simp

lemma push_value_Some: "map_of (push_value rs k (Some x)) = (map_of rs)(k \<mapsto> CrU32 x)"
  by (simp add: push_value_def results_push_def update_conv')

lemma remap_logical_values:
  assumes "\<forall>x \<in> set ops. wire_op (snd x)" "chained held ops"
  shows "\<exists>out. remap_logical [] (pre @ handle_values (xreads held fresh ops) (read_trace regs (xops held st fresh ops) m))
      (xlogical held (length pre) fresh ops) rs = (Ok out :: ('e, results) res)
    \<and> map_of out = logical_values regs held ops m (map_of rs)"
  using assms
proof (induction ops arbitrary: pre fresh m rs)
  case (Cons x ops)
  obtain k op where x: "x = (k, op)" by fastforce
  show ?case
  proof (cases op)
    case (Transfer p a d v)
    let ?nxt = "map_option snd (next_transfer ops)" and ?m = "snd (accept regs p a d v m)"
    let ?one = "one_reads held fresh k op ?nxt" and ?tr = "read_trace regs (one_ops held st fresh k p a d v ?nxt) m"
    let ?vs = "handle_values ?one ?tr"
    let ?rest = "handle_values (xreads held (fresh + 5) ops) (read_trace regs (xops held st (fresh + 5) ops) ?m)"
    have len: "length ?one = length ?tr"
      by (cases d) (simp_all add: one_reads_def one_ops_trace Transfer)
    have lenv: "length ?vs = length ?one" using len by (simp add: handle_values_def)
    have all: "handle_values (xreads held fresh (x # ops)) (read_trace regs (xops held st fresh (x # ops)) m) = ?vs @ ?rest"
      using len by (simp add: x Transfer read_trace_append one_ops_trace(1) handle_values_append)
    have IH: "\<exists>out. remap_logical [] (pre @ ?vs @ ?rest) (xlogical held (length pre + length ?one) (fresh + 5) ops) rs' = (Ok out :: ('e, results) res)
        \<and> map_of out = logical_values regs held ops ?m (map_of rs')" for rs'
      using Cons.IH [of "pre @ ?vs" "fresh + 5" ?m rs'] Cons.prems lenv by (simp add: x)
    have xl: "xlogical held (length pre) fresh (x # ops)
        = one_logical held (length pre) k op @ xlogical held (length pre + length ?one) (fresh + 5) ops"
      by (simp add: x Transfer)
    have lv: "logical_values regs held (x # ops) m f = logical_values regs held ops ?m
        (if d = Read \<and> held k then f(k \<mapsto> CrU32 (if p = Ap then snd ?m else fst (accept regs p a d v m))) else f)" for f
      by (simp add: x Transfer split: prod.split)
    show ?thesis
    proof (cases "d = Read \<and> held k")
      case False
      then have "one_logical held (length pre) k op = []" by (cases d) (simp_all add: one_logical_def Transfer)
      then show ?thesis using IH [of rs] unfolding all xl lv if_not_P [OF False] by simp
    next
      case True
      have first: "\<exists>ws. ?vs = Some (fst (accept regs p a d v m)) # ws"
        using True by (simp add: one_reads_def one_ops_trace Transfer handle_values_def)
      have ap: "nth_value (pre @ ?vs @ ?rest) (length pre + 1) = Some (snd ?m)" if "p = Ap"
      proof (cases "needs_rdbuff op ?nxt")
        case True
        then have "?vs = [Some (fst (accept regs p a d v m)), Some (snd ?m)]"
          using \<open>d = Read \<and> held k\<close> by (simp add: one_reads_def one_ops_trace Transfer handle_values_def)
        then show ?thesis by (simp add: nth_value_def nth_append)
      next
        case False
        then obtain k' n where n: "next_transfer ops = Some (k', n)" "is_ap_read n \<or> is_rdbuff_read n"
          using True \<open>p = Ap\<close> by (cases "next_transfer ops")
            (auto simp: needs_rdbuff_def extra_rdbuff_needed_def Transfer split: if_splits)
        have "held k'" using Cons.prems(2) n True \<open>p = Ap\<close> by (auto simp: x Transfer)
        then obtain ws where "?rest = Some (snd ?m) # ws"
          using next_read_buffer [of ops k' n held "fresh + 5" regs st ?m] n Cons.prems(1) by auto
        moreover have "length ?vs = 1" using False True lenv by (simp add: one_reads_def Transfer)
        ultimately show ?thesis by (simp add: nth_value_def nth_append)
      qed
      show ?thesis
      proof (cases p)
        case Ap
        then show ?thesis
          using IH [of "push_value rs k (Some (snd ?m))"] ap True unfolding all xl lv if_P [OF True]
          by (simp add: one_logical_def Transfer push_value_Some)
      next
        case Dp
        have nth: "(nth_r (pre @ ?vs @ ?rest) (length pre) :: ('e, u32 option) res) = Ok (Some (fst (accept regs p a d v m)))"
          using first by (auto simp: nth_r_def nth_append)
        have one: "one_logical held (length pre) k op = [Passthrough k (length pre)]"
          using Dp True by (simp add: one_logical_def Transfer)
        have step: "remap_logical [] (pre @ ?vs @ ?rest) (Passthrough k (length pre) # ms) rs
            = (remap_logical [] (pre @ ?vs @ ?rest) ms (push_value rs k (Some (fst (accept regs p a d v m)))) :: ('e, results) res)" for ms
          by (simp add: nth del: nth_r_Ok)
        show ?thesis
          using IH [of "push_value rs k (Some (fst (accept regs p a d v m)))"]
          unfolding all xl lv if_P [OF True] one append_Cons append_Nil step push_value_Some by (simp add: Dp)
      qed
    qed
  next
    case (Idle n)
    then show ?thesis using Cons.IH [of pre "fresh + 1" m rs] Cons.prems by (simp add: x)
  qed (use Cons.prems in \<open>simp_all add: x\<close>)
qed simp

end
