(* ===== verification/Swd_Correct.thy ===== *)
theory Swd_Correct
  imports Swd_Expand
begin

text \<open>
  A batch of register operations over SWD, from the port to the wire: what \<open>SwdPort::run\<close> returns
  on a probe that keeps the contract of \<open>Swd_Retry\<close>, and that the bit-banged probe keeps it when the
  target on the wire reports overruns as ADIv5 does.
\<close>

definition retry_room :: "swd_settings \<Rightarrow> (handle_id \<times> swd_op) list \<Rightarrow> bool" where
  "retry_room st ops \<longleftrightarrow>
     (let r = num_retries_after_wait st * idle_step st in
      idle_room r ops \<and> num_idle_cycles_between_writes st + r < 2 ^ 32
      \<and> idle_cycles_before_write_verify st + r < 2 ^ 32 \<and> idle_cycles_after_transfer st + r < 2 ^ 32)"

lemma reg_wire: "reg_op op \<Longrightarrow> wire_op op"
  by (cases op) (simp_all add: reg_op_def)

lemma as_u32_fits: "n + r < 2 ^ 32 \<Longrightarrow> as_u32 n + r < 2 ^ 32"
  by (simp add: as_u32_def)

lemma xops_reg:
  assumes "\<forall>x \<in> set ops. reg_op (snd x)"
  shows "\<forall>x \<in> set (xops held st fresh ops). reg_op (snd x)"
  using assms
proof (induction ops arbitrary: fresh)
  case (Cons x ops)
  obtain k op where x: "x = (k, op)" by fastforce
  show ?case
  proof (cases op)
    case (Transfer p a d v)
    then show ?thesis
      using Cons.IH [of "fresh + 5"] Cons.prems by (auto simp: x one_ops_def Let_def reg_op_def DP_RDBUFF_ADDR_def)
  qed (use Cons in \<open>auto simp: x\<close>)
qed simp

lemma xops_room:
  assumes "retry_room st ops" "r = num_retries_after_wait st * idle_step st" "\<forall>x \<in> set ops. wire_op (snd x)"
  shows "idle_room r (xops held st fresh ops)"
proof -
  have st: "as_u32 (num_idle_cycles_between_writes st) + r < 2 ^ 32" "as_u32 (idle_cycles_before_write_verify st) + r < 2 ^ 32"
    using assms(1,2) as_u32_fits by (auto simp: retry_room_def Let_def)
  have "idle_room r ops" using assms(1,2) by (simp add: retry_room_def Let_def)
  then show ?thesis using assms(3)
  proof (induction ops arbitrary: fresh)
    case (Cons x ops)
    obtain k op where x: "x = (k, op)" by fastforce
    show ?case
    proof (cases op)
      case (Transfer p a d v)
      then show ?thesis
        using Cons.IH [of "fresh + 5"] Cons.prems st by (auto simp: x one_ops_def Let_def idle_room_def)
    next
      case (Idle n)
      then show ?thesis using Cons.IH [of "fresh + 1"] Cons.prems by (auto simp: x idle_room_def)
    qed (use Cons.prems in \<open>simp_all add: x\<close>)
  qed (simp add: idle_room_def)
qed

text \<open>A prefix of the expanded transfers leaves the registers as a prefix of the batch does.\<close>

lemma xops_prefix:
  assumes "\<forall>x \<in> set ops. wire_op (snd x)"
  shows "\<exists>j. final_regs regs (take i (only_transfers (xops held st fresh ops))) m
    = final_regs regs (take j (only_transfers ops)) m"
  using assms
proof (induction ops arbitrary: i fresh m)
  case (Cons x ops)
  obtain k op where x: "x = (k, op)" by fastforce
  show ?case
  proof (cases op)
    case (Transfer p a d v)
    let ?nxt = "map_option snd (next_transfer ops)" and ?m = "snd (accept regs p a d v m)"
    let ?k = "if d = Read \<and> held k then k else fresh"
    let ?extra = "if needs_rdbuff op ?nxt then [(fresh + 4, Transfer Dp DP_RDBUFF_ADDR Read 0)] else []"
    let ?rest = "only_transfers (xops held st (fresh + 5) ops)"
    have shape: "only_transfers (xops held st fresh (x # ops)) = (?k, op) # ?extra @ ?rest"
      by (simp add: x Transfer one_ops_def only_transfers_def Let_def)
    show ?thesis
    proof (cases i)
      case 0
      then show ?thesis by (auto intro: exI [of _ 0])
    next
      case (Suc i')
      obtain j where j: "final_regs regs (take (i' - length ?extra) ?rest) ?m = final_regs regs (take j (only_transfers ops)) ?m"
        using Cons.IH [of "i' - length ?extra" "fresh + 5" ?m] Cons.prems by auto
      have "final_regs regs (take i' ?extra) ?m = ?m" by (cases i') (simp_all add: rdbuff_accept)
      then have "final_regs regs (take i (only_transfers (xops held st fresh (x # ops)))) m
          = final_regs regs (take (i' - length ?extra) ?rest) ?m"
        unfolding shape Suc take_Suc_Cons take_append Transfer final_regs.simps final_regs_append by simp
      also have "\<dots> = final_regs regs (take (Suc j) (only_transfers (x # ops))) m"
        using j by (simp add: x Transfer only_transfers_def)
      finally show ?thesis by blast
    qed
  next
    case (Idle n)
    then show ?thesis using Cons.IH [of i "fresh + 1" m] Cons.prems by (simp add: x only_transfers_def)
  qed (use Cons.prems in \<open>simp_all add: x\<close>)
qed (simp add: only_transfers_def)

definition port_plan :: "(handle_id \<Rightarrow> bool) \<Rightarrow> nat \<Rightarrow> swd_settings \<Rightarrow> swd_batch \<Rightarrow> expansion_plan" where
  "port_plan held fresh st b = fst (expand_batch held fresh (batch_ops b) st False)"

lemma port_plan_shape:
  assumes "\<forall>x \<in> set (batch_ops b). wire_op (snd x)"
  shows "\<exists>tail. port_plan held fresh st b = \<lparr>ep_expanded = \<lparr>commands = xops held st fresh (batch_ops b) @ tail, cursor = 0\<rparr>,
        ep_read_handles = xreads held fresh (batch_ops b), ep_logical = xlogical held 0 fresh (batch_ops b), ep_pins = []\<rparr>
    \<and> (tail = [] \<or> (\<exists>k. tail = [(k, Idle (as_u32 (idle_cycles_after_transfer st)))]))"
proof -
  let ?ops = "batch_ops b"
  let ?plan = "\<lambda>X. \<lparr>ep_expanded = \<lparr>commands = X, cursor = 0\<rparr>, ep_read_handles = xreads held fresh ?ops,
    ep_logical = xlogical held 0 fresh ?ops, ep_pins = []\<rparr>"
  let ?X = "xops held st fresh ?ops"
  obtain fresh' where "expand_ops held st False (filter is_transfer (map snd ?ops)) 0 ?ops
      (\<lparr>ep_expanded = batch_new, ep_read_handles = [], ep_logical = [], ep_pins = []\<rparr>, fresh) = (?plan ?X, fresh')"
    using expand_ops_plan [OF assms, of 0 "filter is_transfer (map snd ?ops)" held st
        "\<lparr>ep_expanded = batch_new, ep_read_handles = [], ep_logical = [], ep_pins = []\<rparr>" fresh]
    by (auto simp: batch_new_def)
  then have p: "port_plan held fresh st b = (if ?X = [] then ?plan ?X
      else ?plan (?X @ [(fresh', Idle (as_u32 (idle_cycles_after_transfer st)))]))"
    unfolding port_plan_def expand_batch_def Let_def by (simp add: swd_idle_def batch_schedule_def)
  show ?thesis
  proof (cases "?X = []")
    case True
    then show ?thesis using p by (auto intro: exI [of _ "[]"])
  next
    case False
    then show ?thesis using p by (auto intro: exI [of _ "[(fresh', Idle (as_u32 (idle_cycles_after_transfer st)))]"])
  qed
qed

lemma port_plan_facts:
  fixes held fresh
  assumes "reg_batch b" "retry_room st (batch_ops b)"
  defines "plan \<equiv> port_plan held fresh st b"
  shows "reg_batch (ep_expanded plan)"
    "idle_room (num_retries_after_wait st * idle_step st) (batch_ops (ep_expanded plan))"
    "ep_read_handles plan = xreads held fresh (batch_ops b)" "ep_logical plan = xlogical held 0 fresh (batch_ops b)"
    "ep_pins plan = []"
    "final_regs regs (batch_ops (ep_expanded plan)) m = final_regs regs (batch_ops b) m"
    "wire_values regs h (batch_ops (ep_expanded plan)) m f = wire_values regs h (xops held st fresh (batch_ops b)) m f"
    "only_transfers (batch_ops (ep_expanded plan)) = only_transfers (xops held st fresh (batch_ops b))"
proof -
  let ?ops = "batch_ops b" and ?r = "num_retries_after_wait st * idle_step st"
  have reg: "\<forall>x \<in> set ?ops. reg_op (snd x)" and ok: "batch_ok b" using assms(1) by (auto simp: reg_batch_def)
  have wire: "\<forall>x \<in> set ?ops. wire_op (snd x)" using reg reg_wire by blast
  obtain tail where p: "plan = \<lparr>ep_expanded = \<lparr>commands = xops held st fresh ?ops @ tail, cursor = 0\<rparr>,
        ep_read_handles = xreads held fresh ?ops, ep_logical = xlogical held 0 fresh ?ops, ep_pins = []\<rparr>"
    "tail = [] \<or> (\<exists>k. tail = [(k, Idle (as_u32 (idle_cycles_after_transfer st)))])"
    using port_plan_shape [OF wire, of held fresh st] unfolding plan_def by blast
  have E: "batch_ops (ep_expanded plan) = xops held st fresh ?ops @ tail" "batch_ok (ep_expanded plan)"
    by (simp_all add: p(1) batch_ops_def batch_ok_def)
  show "reg_batch (ep_expanded plan)"
    using E xops_reg [OF reg, of held st fresh] p(2) by (auto simp: reg_batch_def reg_op_def)
  show "idle_room ?r (batch_ops (ep_expanded plan))"
    using xops_room [OF assms(2) refl wire, of held fresh] p(2) as_u32_fits [of "idle_cycles_after_transfer st" ?r] assms(2)
    by (auto simp: E idle_room_def retry_room_def Let_def)
  show "ep_read_handles plan = xreads held fresh ?ops" "ep_logical plan = xlogical held 0 fresh ?ops" "ep_pins plan = []"
    by (simp_all add: p(1))
  show "final_regs regs (batch_ops (ep_expanded plan)) m = final_regs regs ?ops m"
    using p(2) by (auto simp: E final_regs_append xops_final [OF wire])
  show "wire_values regs h (batch_ops (ep_expanded plan)) m f = wire_values regs h (xops held st fresh ?ops) m f"
    using p(2) by (auto simp: E wire_values_append)
  show "only_transfers (batch_ops (ep_expanded plan)) = only_transfers (xops held st fresh ?ops)"
    using p(2) by (auto simp: E only_transfers_def)
qed

context wait_probe begin

lemma port_run_eq:
  assumes "reg_batch b" "po_settings self = st"
  shows "swd_port_run probe held fresh self b s =
    (let plan = port_plan held fresh st b in
     sbind (retry_batch probe st (plan_held plan) (num_retries_after_wait st) (ep_expanded plan) results_new
         (max 1 (num_idle_cycles_between_writes st))) (\<lambda>rs.
     sbind (slift (remap_results (ep_read_handles plan) (ep_logical plan) (ep_pins plan) rs (po_block_counts self))) (\<lambda>out.
       sret (out, self\<lparr>po_block_counts := [], po_block_handles := []\<rparr>))) s)"
  using batch_ok_iter [of b, where ?'b = swd_port_error] assms
  by (simp add: swd_port_run_def sbind_def batch_ops_def port_plan_def leaves_pipeline reg_batch_def Let_def)

lemma port_run_new:
  assumes "reg_batch b"
  shows "swd_port_run probe held fresh (swd_port_new st) b s =
    (let plan = port_plan held fresh st b in
     sbind (retry_batch probe st (plan_held plan) (num_retries_after_wait st) (ep_expanded plan) results_new
         (max 1 (num_idle_cycles_between_writes st))) (\<lambda>rs.
     sbind (slift (remap_results (ep_read_handles plan) (ep_logical plan) (ep_pins plan) rs [])) (\<lambda>out.
       sret (out, swd_port_new st))) s)"
  by (subst port_run_eq [OF assms, of _ st]) (simp_all add: swd_port_new_def)

lemma first_idle: "max 1 (num_idle_cycles_between_writes st) \<le> idle_step st"
  by (simp add: idle_step_def)

lemma port_ok:
  assumes "reg_batch b" "retry_room st (batch_ops b)" "known_ids fresh (batch_ops b)" "chained held (batch_ops b)"
    "retry_batch probe st (plan_held (port_plan held fresh st b)) (num_retries_after_wait st)
        (ep_expanded (port_plan held fresh st b)) results_new (max 1 (num_idle_cycles_between_writes st)) s = (Ok rs, s')"
    "map_of rs = wire_values regs (plan_held (port_plan held fresh st b))
        (batch_ops (ep_expanded (port_plan held fresh st b))) (view s) (map_of results_new)"
  shows "\<exists>out. swd_port_run probe held fresh (swd_port_new st) b s = (Ok (out, swd_port_new st), s')
    \<and> map_of out = logical_values regs held (batch_ops b) (view s) Map.empty"
proof -
  let ?ops = "batch_ops b" and ?plan = "port_plan held fresh st b"
  let ?X = "xops held st fresh ?ops" and ?R = "xreads held fresh ?ops" and ?L = "xlogical held 0 fresh ?ops"
  have wire: "\<forall>x \<in> set ?ops. wire_op (snd x)" using assms(1) reg_wire by (auto simp: reg_batch_def)
  note plan = port_plan_facts [OF assms(1,2), where held = held and fresh = fresh]
  have rs: "map_of rs = wire_values regs (plan_held ?plan) ?X (view s) Map.empty"
    using assms(6) by (simp add: plan results_new_def)
  let ?tr = "read_trace regs ?X (view s)"
  have dist: "distinct (map fst ?tr)"
    using trace_distinct xops_distinct [OF wire assms(3) order.refl, of held st] by blast
  have vs: "rtraverse (read_value rs) ?R = (Ok (handle_values ?R ?tr) :: (swd_port_error, u32 option list) res)"
    by (rule read_values_known [OF xreads_known [OF wire]])
      (auto simp: rs plan_held_def plan(3) intro: wire_values_trace [OF dist])
  obtain out where out: "remap_logical [] (handle_values ?R ?tr) ?L [] = (Ok out :: (swd_port_error, results) res)"
    "map_of out = logical_values regs held ?ops (view s) Map.empty"
    using remap_logical_values [OF wire assms(4), of "[]" fresh regs st "view s" "[]"] by auto
  have "remap_results ?R ?L [] rs [] = (Ok out :: (swd_port_error, results) res)"
    using vs out(1) by (simp add: remap_results_def pins_results_def results_new_def List.map_filter_def)
  then show ?thesis
    using assms(5) out(2) by (simp add: port_run_new [OF assms(1)] plan(3-5) Let_def sbind_def)
qed

text \<open>The port's contract, when there are enough retries.\<close>

lemma port_runs_batch:
  assumes "reg_batch b" "ready s" "waits s < num_retries_after_wait st" "retry_room st (batch_ops b)"
    "known_ids fresh (batch_ops b)" "chained held (batch_ops b)"
  shows "\<exists>out s'. swd_port_run probe held fresh (swd_port_new st) b s = (Ok (out, swd_port_new st), s') \<and> ready s' \<and> waits s' \<le> waits s
    \<and> map_of out = logical_values regs held (batch_ops b) (view s) Map.empty
    \<and> view s' = final_regs regs (batch_ops b) (view s)"
proof -
  note plan = port_plan_facts [OF assms(1,4), where held = held and fresh = fresh]
  show ?thesis
    using retry_executes_once [OF assms(3) plan(1) assms(2) first_idle plan(2), of "plan_held (port_plan held fresh st b)" results_new]
      port_ok [OF assms(1,4-6)] by (metis plan(6))
qed

text \<open>However often the target waits.\<close>

lemma port_runs_prefix:
  assumes "reg_batch b" "ready s" "retry_room st (batch_ops b)" "known_ids fresh (batch_ops b)" "chained held (batch_ops b)"
  shows "(\<exists>out s'. swd_port_run probe held fresh (swd_port_new st) b s = (Ok (out, swd_port_new st), s')
      \<and> map_of out = logical_values regs held (batch_ops b) (view s) Map.empty
      \<and> view s' = final_regs regs (batch_ops b) (view s))
    \<or> (\<exists>j s'. swd_port_run probe held fresh (swd_port_new st) b s = (Err (PortTransfer WaitResponse), s')
      \<and> view s' = final_regs regs (take j (only_transfers (batch_ops b))) (view s))"
proof -
  let ?plan = "port_plan held fresh st b"
  have wire: "\<forall>x \<in> set (batch_ops b). wire_op (snd x)" using assms(1) reg_wire by (auto simp: reg_batch_def)
  note plan = port_plan_facts [OF assms(1,3), where held = held and fresh = fresh]
  from retry_prefix [OF plan(1) assms(2) first_idle plan(2), of "plan_held ?plan" results_new] show ?thesis
  proof (elim disjE exE conjE)
    fix j s'
    assume "retry_batch probe st (plan_held ?plan) (num_retries_after_wait st) (ep_expanded ?plan) results_new
        (max 1 (num_idle_cycles_between_writes st)) s = (Err (PortTransfer WaitResponse), s')"
      "view s' = final_regs regs (take j (only_transfers (batch_ops (ep_expanded ?plan)))) (view s)"
    then show ?thesis
      using xops_prefix [OF wire, of regs j held st fresh "view s"]
      by (auto simp: port_run_new [OF assms(1)] Let_def sbind_def plan)
  next
    fix rs s'
    assume "retry_batch probe st (plan_held ?plan) (num_retries_after_wait st) (ep_expanded ?plan) results_new
        (max 1 (num_idle_cycles_between_writes st)) s = (Ok rs, s')"
      "map_of rs = wire_values regs (plan_held ?plan) (batch_ops (ep_expanded ?plan)) (view s) (map_of results_new)"
      "view s' = final_regs regs (batch_ops (ep_expanded ?plan)) (view s)"
    then show ?thesis using port_ok [OF assms(1,3-5)] by (metis plan(6))
  qed
qed

end

subsection \<open>A target that reports overruns\<close>

text \<open>
  The target behind the wire: with the sticky overrun flag set it refuses all but the reads of DPIDR
  and CTRL/STAT and the write of ABORT, which clears the flag. \<open>at_busy\<close> says for each transfer to come
  whether the target is busy.
\<close>

record 'r adi_target =
  at_regs :: 'r
  at_buffer :: u32
  at_sticky :: bool
  at_busy :: "bool list"

definition reg_addr :: "bool \<Rightarrow> bool \<Rightarrow> u8" where
  "reg_addr x2 x3 = (if x3 then (if x2 then 12 else 8) else (if x2 then 4 else 0))"

definition adi_accept :: "'r adi_regs \<Rightarrow> port \<Rightarrow> u8 \<Rightarrow> direction \<Rightarrow> u32 \<Rightarrow> 'r adi_target \<Rightarrow> swd_answer \<times> 'r adi_target" where
  "adi_accept regs p a d v t =
     (case accept regs p a d v (at_regs t, at_buffer t) of
        (x, r, buf) \<Rightarrow> (AckOk x, t\<lparr>at_regs := r, at_buffer := buf, at_busy := tl (at_busy t)\<rparr>))"

definition adi_step :: "'r adi_regs \<Rightarrow> port \<Rightarrow> bool \<Rightarrow> bool \<Rightarrow> direction \<Rightarrow> u32 \<Rightarrow> 'r adi_target \<Rightarrow> swd_answer \<times> 'r adi_target" where
  "adi_step regs p x2 x3 d v t =
     (let a = reg_addr x2 x3 in
      if p = Dp \<and> d = Write \<and> a = DP_ABORT_ADDR then (AckOk 0, t\<lparr>at_sticky := at_sticky t \<and> \<not> bit v 4\<rparr>)
      else if p = Dp \<and> d = Read \<and> (a = DP_ABORT_ADDR \<or> a = DP_CTRL_ADDR) then (AckOk (ar_dp_read regs a (at_regs t)), t)
      else if at_sticky t then (AckFault, t)
      else if at_busy t \<noteq> [] \<and> hd (at_busy t) then (AckWait, t\<lparr>at_sticky := True, at_busy := tl (at_busy t)\<rparr>)
      else adi_accept regs p a d v t)"

definition adi_target :: "'r adi_regs \<Rightarrow> 'r adi_target swd_target" where
  "adi_target regs = \<lparr>tg_step = adi_step regs\<rparr>"

definition swd_wire_probe :: "'r adi_regs \<Rightarrow> 'r adi_target swd_probe" where
  "swd_wire_probe regs =
     \<lparr>sp_run_batch = run_bitbang_batch (wire_probe (adi_target regs)), sp_handles_wait = False, sp_handles_ap_pipeline = False\<rparr>"

definition target_view :: "'r adi_target \<Rightarrow> 'r \<times> u32" where
  "target_view t = (at_regs t, at_buffer t)"

definition target_waits :: "'r adi_target \<Rightarrow> nat" where
  "target_waits t = length (filter id (at_busy t))"

lemma reg_addr_bits: "a \<in> {0, 4, 8, 12} \<Longrightarrow> reg_addr (a2 a) (a3 a) = a"
  by (auto simp: reg_addr_def a2_def a3_def A2_MASK_def A3_MASK_def)

lemma sticky_exec:
  assumes "at_sticky t" "\<forall>x \<in> set ops. reg_op (snd x)"
  shows "exec_ops (adi_target regs) ops t = t"
  using assms(2)
proof (induction ops)
  case (Cons x ops)
  obtain k op where x: "x = (k, op)" by fastforce
  show ?case
  proof (cases op)
    case (Transfer p a d v)
    then have a: "reg_addr (a2 a) (a3 a) = a" "\<not> is_abort op" using Cons.prems reg_addr_bits by (auto simp: x reg_op_def)
    then have "snd (tg_transfer (adi_target regs) p a d v t) = t"
      using assms(1) by (cases p; cases d) (auto simp: tg_transfer_def adi_target_def adi_step_def Let_def Transfer)
    then show ?thesis using Cons by (simp add: x Transfer)
  qed (use Cons in \<open>simp_all add: x\<close>)
qed simp

lemma one_transfer:
  assumes "\<not> at_sticky t" "reg_op (Transfer p a d v)"
  shows "(\<exists>t'. tg_transfer (adi_target regs) p a d v t = (AckOk (fst (accept regs p a d v (target_view t))), t')
      \<and> target_view t' = snd (accept regs p a d v (target_view t)) \<and> \<not> at_sticky t' \<and> target_waits t' \<le> target_waits t)
    \<or> (\<exists>t'. tg_transfer (adi_target regs) p a d v t = (AckWait, t')
      \<and> target_view t' = target_view t \<and> at_sticky t' \<and> target_waits t' < target_waits t)"
proof -
  have a: "reg_addr (a2 a) (a3 a) = a" "\<not> is_abort (Transfer p a d v)"
    using assms(2) reg_addr_bits by (auto simp: reg_op_def)
  let ?v = "if d = Write then v else 0"
  have v: "accept regs p a d ?v m = accept regs p a d v m" for m by (cases p; cases d; cases m) simp_all
  have acc: "\<exists>t'. adi_accept regs p a d ?v t = (AckOk (fst (accept regs p a d v (target_view t))), t')
      \<and> target_view t' = snd (accept regs p a d v (target_view t)) \<and> \<not> at_sticky t' \<and> target_waits t' \<le> target_waits t"
    using assms(1) by (cases "at_busy t") (auto simp: adi_accept_def target_view_def target_waits_def v split: prod.splits)
  consider "p = Dp \<and> d = Read \<and> (a = DP_ABORT_ADDR \<or> a = DP_CTRL_ADDR)"
    | "\<not> (p = Dp \<and> d = Read \<and> (a = DP_ABORT_ADDR \<or> a = DP_CTRL_ADDR))" "at_busy t \<noteq> [] \<and> hd (at_busy t)"
    | "\<not> (p = Dp \<and> d = Read \<and> (a = DP_ABORT_ADDR \<or> a = DP_CTRL_ADDR))" "\<not> (at_busy t \<noteq> [] \<and> hd (at_busy t))"
    by blast
  then show ?thesis
  proof cases
    case 1
    then show ?thesis
      using assms(1) a by (auto simp: tg_transfer_def adi_target_def adi_step_def Let_def target_view_def
          DP_ABORT_ADDR_def DP_CTRL_ADDR_def DP_RDBUFF_ADDR_def)
  next
    case 2
    obtain bs where "at_busy t = True # bs" using 2(2) by (cases "at_busy t") auto
    moreover have "tg_transfer (adi_target regs) p a d v t = (AckWait, t\<lparr>at_sticky := True, at_busy := tl (at_busy t)\<rparr>)"
      using 2 assms(1) a by (cases p; cases d) (auto simp: tg_transfer_def adi_target_def adi_step_def Let_def)
    ultimately show ?thesis by (simp add: target_view_def target_waits_def)
  next
    case 3
    then have "tg_transfer (adi_target regs) p a d v t = adi_accept regs p a d ?v t"
      using assms(1) a by (cases p; cases d) (auto simp: tg_transfer_def adi_target_def adi_step_def Let_def)
    then show ?thesis using acc by simp
  qed
qed

lemma target_runs_ops:
  fixes regs
  assumes "\<not> at_sticky t" "\<forall>x \<in> set ops. reg_op (snd x)" "distinct (map fst rs)"
  defines "t' \<equiv> exec_ops (adi_target regs) ops t"
  shows "(\<exists>rs'. ref_ops (adi_target regs) held i ops rs t = Ok rs' \<and> \<not> at_sticky t' \<and> target_waits t' \<le> target_waits t
      \<and> distinct (map fst rs') \<and> map_of rs' = wire_values regs held ops (target_view t) (map_of rs)
      \<and> target_view t' = final_regs regs ops (target_view t))
    \<or> (\<exists>rs' j. ref_ops (adi_target regs) held i ops rs t
          = Err \<lparr>sf_error = SwdTransfer WaitResponse, sf_results = rs', sf_fault = i + j\<rparr> \<and> j < length ops
      \<and> target_waits t' < target_waits t \<and> distinct (map fst rs')
      \<and> map_of rs' = wire_values regs held (take j ops) (target_view t) (map_of rs)
      \<and> target_view t' = final_regs regs (take j ops) (target_view t))"
  using assms(1-3) unfolding t'_def
proof (induction ops arbitrary: t rs i)
  case (Cons x ops)
  obtain k op where x: "x = (k, op)" by fastforce
  have IH: "\<not> at_sticky t1 \<Longrightarrow> distinct (map fst rs1) \<Longrightarrow>
    (\<exists>rs'. ref_ops (adi_target regs) held (i + 1) ops rs1 t1 = Ok rs' \<and> \<not> at_sticky (exec_ops (adi_target regs) ops t1)
      \<and> target_waits (exec_ops (adi_target regs) ops t1) \<le> target_waits t1
      \<and> distinct (map fst rs') \<and> map_of rs' = wire_values regs held ops (target_view t1) (map_of rs1)
      \<and> target_view (exec_ops (adi_target regs) ops t1) = final_regs regs ops (target_view t1))
    \<or> (\<exists>rs' j. ref_ops (adi_target regs) held (i + 1) ops rs1 t1
          = Err \<lparr>sf_error = SwdTransfer WaitResponse, sf_results = rs', sf_fault = i + Suc j\<rparr> \<and> Suc j < length (x # ops)
      \<and> target_waits (exec_ops (adi_target regs) ops t1) < target_waits t1 \<and> distinct (map fst rs')
      \<and> map_of rs' = wire_values regs held (take j ops) (target_view t1) (map_of rs1)
      \<and> target_view (exec_ops (adi_target regs) ops t1) = final_regs regs (take j ops) (target_view t1))" for t1 rs1
    using Cons.IH [of t1 rs1 "i + 1"] Cons.prems(2) by simp
  show ?case
  proof (cases op)
    case (Transfer p a d v)
    let ?acc = "accept regs p a d v (target_view t)"
    have op: "reg_op (Transfer p a d v)" using Cons.prems(2) by (simp add: x Transfer)
    from one_transfer [OF Cons.prems(1) op, of regs] show ?thesis
    proof (elim disjE exE conjE)
      fix t1
      assume t1: "tg_transfer (adi_target regs) p a d v t = (AckOk (fst ?acc), t1)" "target_view t1 = snd ?acc"
        "\<not> at_sticky t1" "target_waits t1 \<le> target_waits t"
      let ?rs = "if d = Read \<and> held k then results_push rs k (CrU32 (fst ?acc)) else rs"
      have rs: "distinct (map fst ?rs)" "map_of ?rs = (if d = Read \<and> held k then (map_of rs)(k \<mapsto> CrU32 (fst ?acc)) else map_of rs)"
        using Cons.prems(3) by (auto simp: results_push_def distinct_update update_conv')
      have step: "ref_ops (adi_target regs) held i (x # ops) rs t = ref_ops (adi_target regs) held (i + 1) ops ?rs t1"
        "exec_ops (adi_target regs) (x # ops) t = exec_ops (adi_target regs) ops t1"
        using t1(1) by (simp_all add: x Transfer)
      from IH [OF t1(3) rs(1)] show ?thesis
      proof (elim disjE exE conjE)
        fix rs' j
        assume "ref_ops (adi_target regs) held (i + 1) ops ?rs t1
            = Err \<lparr>sf_error = SwdTransfer WaitResponse, sf_results = rs', sf_fault = i + Suc j\<rparr>" "Suc j < length (x # ops)"
          "target_waits (exec_ops (adi_target regs) ops t1) < target_waits t1" "distinct (map fst rs')"
          "map_of rs' = wire_values regs held (take j ops) (target_view t1) (map_of ?rs)"
          "target_view (exec_ops (adi_target regs) ops t1) = final_regs regs (take j ops) (target_view t1)"
        then show ?thesis
          using step t1(2,4) rs(2)
          by (intro disjI2 exI [of _ rs'] exI [of _ "Suc j"]) (simp add: x Transfer)
      qed (use step t1(2,4) rs(2) in \<open>simp add: x Transfer\<close>)
    next
      fix t1
      assume t1: "tg_transfer (adi_target regs) p a d v t = (AckWait, t1)" "target_view t1 = target_view t" "at_sticky t1"
        "target_waits t1 < target_waits t"
      have "exec_ops (adi_target regs) (x # ops) t = t1"
        using t1(1) sticky_exec [OF t1(3), of ops regs] Cons.prems(2) by (simp add: x Transfer)
      then show ?thesis
        using t1 Cons.prems(3) by (intro disjI2 exI [of _ rs] exI [of _ 0]) (simp add: x Transfer)
    qed
  next
    case (Idle n)
    from IH [OF Cons.prems(1,3)] show ?thesis
    proof (elim disjE exE conjE)
      fix rs' j
      assume "ref_ops (adi_target regs) held (i + 1) ops rs t
          = Err \<lparr>sf_error = SwdTransfer WaitResponse, sf_results = rs', sf_fault = i + Suc j\<rparr>" "Suc j < length (x # ops)"
        "target_waits (exec_ops (adi_target regs) ops t) < target_waits t" "distinct (map fst rs')"
        "map_of rs' = wire_values regs held (take j ops) (target_view t) (map_of rs)"
        "target_view (exec_ops (adi_target regs) ops t) = final_regs regs (take j ops) (target_view t)"
      then show ?thesis by (intro disjI2 exI [of _ rs'] exI [of _ "Suc j"]) (simp add: x Idle)
    qed (simp add: x Idle)
  qed (use Cons.prems in \<open>simp_all add: x reg_op_def\<close>)
qed simp

lemma wire_batch:
  "batch_ok b \<Longrightarrow> \<forall>x \<in> set (batch_ops b). wire_op (snd x) \<Longrightarrow>
   sp_run_batch (swd_wire_probe regs) held b t
     = (ref_ops (adi_target regs) held 0 (batch_ops b) [] t, exec_ops (adi_target regs) (batch_ops b) t)"
  by (simp add: swd_wire_probe_def bitbang_batch_ref)

interpretation sw: wait_probe "swd_wire_probe regs" regs target_view "\<lambda>t. \<not> at_sticky t" target_waits
  for regs :: "'r adi_regs"
proof
  fix b held and s :: "'r adi_target"
  assume b: "reg_batch b" and s: "\<not> at_sticky s"
  have ok: "batch_ok b" and reg: "\<forall>x \<in> set (batch_ops b). reg_op (snd x)" using b by (auto simp: reg_batch_def)
  have run: "sp_run_batch (swd_wire_probe regs) held b s
     = (ref_ops (adi_target regs) held 0 (batch_ops b) [] s, exec_ops (adi_target regs) (batch_ops b) s)"
    using wire_batch [OF ok] reg reg_wire by blast
  show "(\<exists>rs s'. sp_run_batch (swd_wire_probe regs) held b s = (Ok rs, s') \<and> \<not> at_sticky s' \<and> target_waits s' \<le> target_waits s
       \<and> distinct (map fst rs) \<and> map_of rs = wire_values regs held (batch_ops b) (target_view s) Map.empty
       \<and> target_view s' = final_regs regs (batch_ops b) (target_view s))
    \<or> (\<exists>f s'. sp_run_batch (swd_wire_probe regs) held b s = (Err f, s') \<and> target_waits s' < target_waits s
       \<and> sf_error f = SwdTransfer WaitResponse \<and> sf_fault f < length (batch_ops b)
       \<and> distinct (map fst (sf_results f))
       \<and> map_of (sf_results f) = wire_values regs held (take (sf_fault f) (batch_ops b)) (target_view s) Map.empty
       \<and> target_view s' = final_regs regs (take (sf_fault f) (batch_ops b)) (target_view s))"
    using target_runs_ops [OF s reg, of "[]" regs held 0] unfolding run by fastforce
next
  fix st and s :: "'r adi_target"
  show "\<exists>rs s'. sp_run_batch (swd_wire_probe regs) (\<lambda>_. False) (clear_batch (swd_wire_probe regs) st) s = (Ok rs, s') \<and> \<not> at_sticky s'
       \<and> target_waits s' \<le> target_waits s \<and> target_view s' = target_view s"
  proof -
    have "batch_ops (clear_batch (swd_wire_probe regs) st) =
      [(0, Transfer Dp DP_CTRL_ADDR Read 0), (1, Transfer Dp DP_ABORT_ADDR Write ABORT_CLEAR_STICKY),
       (2, Idle (as_u32 (idle_cycles_before_write_verify st + num_idle_cycles_between_writes st))),
       (3, Idle (as_u32 (idle_cycles_after_transfer st)))]" "batch_ok (clear_batch (swd_wire_probe regs) st)"
      by (simp_all add: clear_batch_def swd_read_def swd_write_def swd_idle_def batch_schedule_def batch_new_def
          batch_ops_def batch_ok_def swd_wire_probe_def)
    moreover have "bit ABORT_CLEAR_STICKY 4" by (simp add: ABORT_CLEAR_STICKY_def bit_simps)
    ultimately show ?thesis
      by (simp add: wire_batch tg_transfer_def adi_target_def adi_step_def Let_def reg_addr_bits DP_CTRL_ADDR_def DP_ABORT_ADDR_def
          target_view_def target_waits_def)
  qed
next
  fix st and s :: "'r adi_target"
  show "\<exists>rs s'. sp_run_batch (swd_wire_probe regs) (\<lambda>_. False) (abort_batch st) s = (Ok rs, s') \<and> target_view s' = target_view s"
  proof -
    have "batch_ops (abort_batch st) = [(0, Transfer Dp DP_ABORT_ADDR Write ABORT_DAP_ABORT),
       (1, Idle (as_u32 (num_idle_cycles_between_writes st))), (2, Idle (as_u32 (idle_cycles_after_transfer st)))]"
      "batch_ok (abort_batch st)"
      by (simp_all add: abort_batch_def swd_write_def swd_idle_def batch_schedule_def batch_new_def batch_ops_def batch_ok_def)
    then show ?thesis
      by (simp add: wire_batch tg_transfer_def adi_target_def adi_step_def Let_def reg_addr_bits DP_ABORT_ADDR_def
          target_view_def)
  qed
qed (simp_all add: swd_wire_probe_def)

end
