(* ===== verification/Swd_Properties.thy ===== *)
theory Swd_Properties
  imports Swd_Correct
begin

text \<open>What the SWD layers guarantee together: the wire, the port and the retries.\<close>

subsection \<open>One flipped bit\<close>

lemma count_ones_sum: "count_ones w = (\<Sum>i<32. of_bool (bit w i))"
proof -
  have "length (filter (bit w) [0..<n]) = (\<Sum>i<n. of_bool (bit w i))" for n
    by (induction n) simp_all
  then show ?thesis by (simp add: count_ones_def)
qed

lemma count_ones_flip:
  assumes "j < 32"
  shows "count_ones (flip_bit j w) mod 2 \<noteq> count_ones w mod 2"
proof -
  have bits: "bit (flip_bit j w) i = (if i = j then \<not> bit w j else bit w i)" if "i < 32" for i
    using that by (auto simp: bit_flip_bit_iff)
  have "(\<Sum>i<32. of_bool (bit x i)) = of_bool (bit x j) + (\<Sum>i\<in>{..<32} - {j}. of_bool (bit x i) :: nat)" for x :: u32
    using assms by (subst sum.remove [of _ j]) simp_all
  moreover have "(\<Sum>i\<in>{..<32} - {j}. of_bool (bit (flip_bit j w) i) :: nat) = (\<Sum>i\<in>{..<32} - {j}. of_bool (bit w i))"
    by (rule sum.cong) (auto simp: bits)
  ultimately have "count_ones (flip_bit j w) = of_bool (\<not> bit w j) + (\<Sum>i\<in>{..<32} - {j}. of_bool (bit w i))"
    "count_ones w = of_bool (bit w j) + (\<Sum>i\<in>{..<32} - {j}. of_bool (bit w i))"
    using bits [OF assms] assms unfolding count_ones_sum by simp_all
  then show ?thesis by (cases "bit w j") (simp_all, presburger+)
qed

lemma flipped_data: "j < 32 \<Longrightarrow> (map (bit v) [0..<32])[j := \<not> bit v j] = map (bit (flip_bit j (v :: u32))) [0..<32]"
  by (rule nth_equalityI) (auto simp: nth_list_update bit_flip_bit_iff)

text \<open>C26. A read that the target answers with OK is never accepted with a wrong value because of one
  disturbed bit: whichever of the three acknowledgement bits, the 32 data bits or the parity bit is
  inverted on the wire, the transfer is reported as an error.\<close>

theorem one_flipped_bit_is_detected:
  assumes "i < 36" "bs = drop 8 (answer_bits Read (AckOk v))"
  shows "\<exists>e. parse_transfer_response (bs[i := \<not> bs ! i]) Read = Err e"
proof -
  have bs: "bs = [True, False, False] @ data_bits v @ [False, False]" by (simp add: assms(2) answer_bits_def)
  consider "i = 0" | "i = 1" | "i = 2" | j where "i = j + 3" "j < 32" | "i = 35"
  proof -
    have "i = 0 \<or> i = 1 \<or> i = 2 \<or> i = 35 \<or> (i = (i - 3) + 3 \<and> i - 3 < 32)" using assms(1) by presburger
    then show ?thesis using that by blast
  qed
  then show ?thesis
  proof cases
    case 4
    have "bs[i := \<not> bs ! i] = [True, False, False] @ map (bit (flip_bit j v)) [0..<32] @ [count_ones v mod 2 = 1, False, False]"
    proof -
      have "i = Suc (Suc (Suc j))" using 4 by simp
      then show ?thesis using 4(2) flipped_data [of j v] by (simp add: bs data_bits_def nth_append list_update_append)
    qed
    then show ?thesis
      using count_ones_flip [OF 4(2), of v] bits_to_byte_word [of "flip_bit j v"]
      by (simp add: parse_transfer_response_def Let_def nth_r_def nth_append)
  next
    case 5
    have "bs[i := \<not> bs ! i] = [True, False, False] @ map (bit v) [0..<32] @ [\<not> (count_ones v mod 2 = 1), False, False]"
      using 5 by (simp add: bs data_bits_def nth_append list_update_append)
    then show ?thesis
      using bits_to_byte_word [of v]
      by (simp add: parse_transfer_response_def Let_def nth_r_def nth_append)
  qed (simp_all add: bs parse_transfer_response_def)
qed

theorem one_flipped_bit_is_detected_witness:
  "\<exists>e. parse_transfer_response ((drop 8 (answer_bits Read (AckOk 0x2BA01477)))[7 := \<not> drop 8 (answer_bits Read (AckOk 0x2BA01477)) ! 7]) Read
    = Err e"
  using one_flipped_bit_is_detected [of 7, OF _ refl] by simp

subsection \<open>A batch on the wire\<close>

text \<open>C20. Driving a batch of transfers and idle cycles bit by bit is executing its transfers in order on
  the target: the results are the values of the captured reads; the first answer that is not OK
  ends the results, and is reported with the index of its operation and the values before it. All
  the operations have then been on the wire.\<close>

theorem bitbang_executes_in_order:
  assumes "batch_ok b" "\<forall>x \<in> set (batch_ops b). wire_op (snd x)"
  shows "run_bitbang_batch (wire_probe tgt) held b t
    = (ref_ops tgt held 0 (batch_ops b) [] t, exec_ops tgt (batch_ops b) t)"
  by (rule bitbang_batch_ref [OF assms])

text \<open>A register file whose AP registers count their accesses.\<close>

definition counting_regs :: "u32 adi_regs" where
  "counting_regs =
     \<lparr>ar_dp_read = (\<lambda>a r. 0x2BA01477), ar_dp_write = (\<lambda>a v r. r),
      ar_ap_read = (\<lambda>a r. (r, r + 4)), ar_ap_write = (\<lambda>a v r. (0, v))\<rparr>"

definition example_target :: "bool list \<Rightarrow> u32 adi_target" where
  "example_target busy = \<lparr>at_regs = 0x20000000, at_buffer = 7, at_sticky = False, at_busy = busy\<rparr>"

definition example_batch :: swd_batch where
  "example_batch =
     \<lparr>commands = [(1, Transfer Ap 12 Read 0), (2, Transfer Ap 12 Read 0), (3, Transfer Dp 0 Read 0),
        (4, Transfer Ap 4 Write 0x1000), (5, Transfer Ap 12 Read 0)], cursor = 0\<rparr>"

lemma example_reg_batch: "reg_batch example_batch"
  by (simp add: reg_batch_def example_batch_def batch_ok_def batch_ops_def reg_op_def)

theorem bitbang_executes_in_order_witness:
  "run_bitbang_batch (wire_probe (adi_target counting_regs)) (\<lambda>_. True) example_batch (example_target [])
    = (Ok [(1, CrU32 7), (2, CrU32 0x20000000), (3, CrU32 0x2BA01477), (5, CrU32 0)],
       \<lparr>at_regs = 0x1004, at_buffer = 0x1000, at_sticky = False, at_busy = []\<rparr>)"
proof -
  have "batch_ok example_batch" "\<forall>x \<in> set (batch_ops example_batch). wire_op (snd x)"
    by (simp_all add: example_batch_def batch_ok_def batch_ops_def)
  from bitbang_executes_in_order [OF this, of "adi_target counting_regs" "\<lambda>_. True" "example_target []"] show ?thesis
    by (simp add: example_batch_def batch_ops_def tg_transfer_def adi_target_def adi_step_def adi_accept_def Let_def
        reg_addr_def a2_def a3_def A2_MASK_def A3_MASK_def counting_regs_def example_target_def results_push_def
        DP_ABORT_ADDR_def DP_CTRL_ADDR_def DP_RDBUFF_ADDR_def)
qed

subsection \<open>A batch through the port\<close>

text \<open>C1. What a caller of \<open>SwdPort::run\<close> gets from a target on the wire that is busy fewer times than
  the port retries: every captured read returns the value that its register had at that point of the
  batch (an AP read its own value, though the wire returns it with a later transfer), no other handle
  has a result, and the registers end as if each operation had been executed exactly once and in
  order, however often a WAIT made the port run the rest of the batch again.\<close>

theorem port_batch_over_the_wire:
  assumes "reg_batch b" "known_ids fresh (batch_ops b)" "chained held (batch_ops b)" "\<not> at_sticky t"
    "length (filter id (at_busy t)) < num_retries_after_wait st" "retry_room st (batch_ops b)"
  shows "\<exists>out t'. swd_port_run (swd_wire_probe regs) held fresh (swd_port_new st) b t = (Ok (out, swd_port_new st), t')
    \<and> map_of out = logical_values regs held (batch_ops b) (at_regs t, at_buffer t) Map.empty
    \<and> (at_regs t', at_buffer t') = final_regs regs (batch_ops b) (at_regs t, at_buffer t) \<and> \<not> at_sticky t'"
  using sw.port_runs_batch [OF assms(1,4) _ assms(6,2,3), of regs] assms(5)
  by (auto simp: target_view_def target_waits_def)

lemma example_room: "retry_room default_swd_settings (batch_ops example_batch)"
  by (simp add: retry_room_def default_swd_settings_def idle_step_def idle_room_def example_batch_def batch_ops_def Let_def)

lemma example_ids: "known_ids 10 (batch_ops example_batch)" "chained (\<lambda>_. True) (batch_ops example_batch)"
  by (simp_all add: known_ids_def example_batch_def batch_ops_def)

theorem port_batch_over_the_wire_witness:
  "\<exists>out t'. swd_port_run (swd_wire_probe counting_regs) (\<lambda>_. True) 10 (swd_port_new default_swd_settings) example_batch
      (example_target [False, True, True, False, True]) = (Ok (out, swd_port_new default_swd_settings), t')
    \<and> map_of out 1 = Some (CrU32 0x20000000) \<and> map_of out 2 = Some (CrU32 0x20000004)
    \<and> map_of out 3 = Some (CrU32 0x2BA01477) \<and> map_of out 4 = None \<and> map_of out 5 = Some (CrU32 0x1000) \<and> at_regs t' = 0x1004"
proof -
  have "\<not> at_sticky (example_target [False, True, True, False, True])"
    "length (filter id (at_busy (example_target [False, True, True, False, True]))) < num_retries_after_wait default_swd_settings"
    by (simp_all add: example_target_def default_swd_settings_def)
  from port_batch_over_the_wire [OF example_reg_batch example_ids this example_room, of counting_regs]
  obtain out t' where
    "swd_port_run (swd_wire_probe counting_regs) (\<lambda>_. True) 10 (swd_port_new default_swd_settings) example_batch
      (example_target [False, True, True, False, True]) = (Ok (out, swd_port_new default_swd_settings), t')"
    "map_of out = logical_values counting_regs (\<lambda>_. True) (batch_ops example_batch) (0x20000000, 7) Map.empty"
    "(at_regs t', at_buffer t') = final_regs counting_regs (batch_ops example_batch) (0x20000000, 7)"
    by (auto simp: example_target_def)
  then show ?thesis
    by (auto simp: example_batch_def batch_ops_def counting_regs_def DP_RDBUFF_ADDR_def)
qed

text \<open>C6. However often the target answers with WAIT, the port does not execute an operation twice or
  skip one: it returns the results of the whole batch, or gives up with the WAIT error after exactly
  a prefix of the transfers of the batch. In neither case does it panic or report anything else.\<close>

theorem port_never_repeats_a_transfer:
  assumes "reg_batch b" "known_ids fresh (batch_ops b)" "chained held (batch_ops b)" "\<not> at_sticky t"
    "retry_room st (batch_ops b)"
    "swd_port_run (swd_wire_probe regs) held fresh (swd_port_new st) b t = (r, t')"
  shows "\<exists>j. (at_regs t', at_buffer t') = final_regs regs (take j (only_transfers (batch_ops b))) (at_regs t, at_buffer t)
    \<and> (if is_ok r then length (only_transfers (batch_ops b)) \<le> j else r = Err (PortTransfer WaitResponse))"
proof -
  let ?tr = "only_transfers (batch_ops b)" and ?m = "(at_regs t, at_buffer t)"
  have whole: "final_regs regs (batch_ops b) ?m = final_regs regs (take (length ?tr) ?tr) ?m"
    using only_transfers_count(1) [of regs "batch_ops b"] by (simp add: only_transfers_def)
  from sw.port_runs_prefix [OF assms(1,4,5,2,3), of regs, unfolded target_view_def] show ?thesis
  proof (elim disjE exE conjE)
    fix out s'
    assume "swd_port_run (swd_wire_probe regs) held fresh (swd_port_new st) b t = (Ok (out, swd_port_new st), s')"
      "(at_regs s', at_buffer s') = final_regs regs (batch_ops b) ?m"
    then show ?thesis using assms(6) whole by (auto intro!: exI [of _ "length ?tr"])
  next
    fix j s'
    assume "swd_port_run (swd_wire_probe regs) held fresh (swd_port_new st) b t = (Err (PortTransfer WaitResponse), s')"
      "(at_regs s', at_buffer s') = final_regs regs (take j ?tr) ?m"
    then show ?thesis using assms(6) by (auto intro!: exI [of _ j])
  qed
qed

theorem port_never_repeats_a_transfer_witness:
  "\<exists>j. (at_regs (snd (swd_port_run (swd_wire_probe counting_regs) (\<lambda>_. True) 10 (swd_port_new default_swd_settings)
      example_batch (example_target (replicate 2000 True)))),
     at_buffer (snd (swd_port_run (swd_wire_probe counting_regs) (\<lambda>_. True) 10 (swd_port_new default_swd_settings)
      example_batch (example_target (replicate 2000 True)))))
    = final_regs counting_regs (take j (only_transfers (batch_ops example_batch))) (0x20000000, 7)"
proof -
  have "\<not> at_sticky (example_target (replicate 2000 True))" by (simp add: example_target_def)
  from port_never_repeats_a_transfer [OF example_reg_batch example_ids this example_room prod.collapse [symmetric], of counting_regs]
  show ?thesis by (auto simp: example_target_def)
qed

subsection \<open>A read that is not captured\<close>

text \<open>A captured AP read loses its value when the handle of the AP read after it was dropped: the value
  comes back with that second read, whose place in the list of read handles is empty.\<close>

theorem dropped_handle_loses_the_read_before:
  assumes "batch_ops b = [(1, Transfer Ap 12 Read 0), (2, Transfer Ap 12 Read 0)]"
    "plan = fst (expand_batch (\<lambda>k. k = 1) 10 (batch_ops b) default_swd_settings False)"
    "remap_results (ep_read_handles plan) (ep_logical plan) (ep_pins plan) rs [] = (Ok out :: (swd_port_error, results) res)"
  shows "map_of out 1 = None"
  using assms
  by (auto simp: expand_batch_def expand_transfer_def schedule_transfer_def schedule_preserved_def batch_schedule_def
      batch_new_def Let_def extra_rdbuff_needed_def remap_results_def pins_results_def results_new_def
      nth_value_def push_value_def List.map_filter_def read_value_def swd_idle_def split: option.splits)

end
