(* ===== verification/Swd_Block.thy ===== *)
theory Swd_Block
  imports Swd_Properties
begin

text \<open>
  The block read of an AP register (\<open>SwdPort::read_ap_block\<close> of probe-rs/src/probe/swd/port.rs): each
  read returns the value of the read before it, and the read of the read buffer the last one.
\<close>

fun ap_values :: "'r adi_regs \<Rightarrow> u8 \<Rightarrow> nat \<Rightarrow> 'r \<Rightarrow> u32 list" where
  "ap_values regs a 0 r = []"
| "ap_values regs a (Suc n) r = (case ar_ap_read regs a r of (v, r) \<Rightarrow> v # ap_values regs a n r)"

fun ap_reads_regs :: "'r adi_regs \<Rightarrow> u8 \<Rightarrow> nat \<Rightarrow> 'r \<Rightarrow> 'r" where
  "ap_reads_regs regs a 0 r = r"
| "ap_reads_regs regs a (Suc n) r = ap_reads_regs regs a n (snd (ar_ap_read regs a r))"

lemma length_ap_values [simp]: "length (ap_values regs a n r) = n"
  by (induction n arbitrary: r) (simp_all split: prod.split)

definition ap_read_ops :: "u8 \<Rightarrow> handle_id list \<Rightarrow> (handle_id \<times> swd_op) list" where
  "ap_read_ops a ks = map (\<lambda>k. (k, Transfer Ap a Read 0)) ks"

definition block_ops :: "u8 \<Rightarrow> handle_id list \<Rightarrow> handle_id \<Rightarrow> (handle_id \<times> swd_op) list" where
  "block_ops a ks e = ap_read_ops a ks @ [(e, Transfer Dp DP_RDBUFF_ADDR Read 0)]"

lemma schedule_reads_eq:
  "schedule_reads fresh n addr batch =
     ([fresh..<fresh + n], batch\<lparr>commands := commands batch @ ap_read_ops addr [fresh..<fresh + n]\<rparr>)"
proof (induction n arbitrary: fresh batch)
  case (Suc n)
  then show ?case by (simp add: batch_schedule_def ap_read_ops_def upt_conv_Cons)
qed (simp add: ap_read_ops_def)

text \<open>No operation is added to a block.\<close>

lemma block_expansion:
  "\<exists>ids e'. xops held st fresh (block_ops a ks e) = block_ops a ids e' \<and> length ids = length ks
   \<and> xreads held fresh (block_ops a ks e) = map (\<lambda>k. if held k then Some k else None) (ks @ [e])"
proof (induction ks arbitrary: fresh)
  case Nil
  show ?case
    by (rule exI [of _ "[]"])
      (simp add: block_ops_def ap_read_ops_def one_ops_def one_reads_def needs_rdbuff_def extra_rdbuff_needed_def Let_def)
next
  case (Cons k ks)
  have n: "needs_rdbuff (Transfer Ap a Read 0) (map_option snd (next_transfer (block_ops a ks e))) = False"
    by (cases ks) (simp_all add: block_ops_def ap_read_ops_def needs_rdbuff_def extra_rdbuff_needed_def DP_RDBUFF_ADDR_def)
  have c: "block_ops a (h # hs) l = (h, Transfer Ap a Read 0) # block_ops a hs l" for h hs l
    by (simp add: block_ops_def ap_read_ops_def)
  obtain ids e' where IH: "xops held st (fresh + 5) (block_ops a ks e) = block_ops a ids e'" "length ids = length ks"
    "xreads held (fresh + 5) (block_ops a ks e) = map (\<lambda>k. if held k then Some k else None) (ks @ [e])"
    using Cons.IH by blast
  show ?case
    by (rule exI [of _ "(if held k then k else fresh) # ids"], rule exI [of _ e'])
      (simp add: c one_ops_def one_reads_def Let_def n IH)
qed

lemma block_trace:
  "map snd (read_trace regs (block_ops a ks e) (r, buf)) = buf # ap_values regs a (length ks) r"
  "fst (final_regs regs (block_ops a ks e) (r, buf)) = ap_reads_regs regs a (length ks) r"
  by (induction ks arbitrary: r buf) (auto simp: block_ops_def ap_read_ops_def split: prod.split)

lemma block_values_listed:
  assumes "map snd tr = buf # vals" "length ks = Suc (length vals)" "\<not> held (hd ks)" "\<forall>k \<in> set (tl ks). held k"
  shows "handle_values (map (\<lambda>k. if held k then Some k else None) ks) tr = None # map Some vals"
proof -
  have "handle_values (map (\<lambda>k. if held k then Some k else None) ks) tr
      = map2 (\<lambda>k v. if held k then Some v else None) ks (map snd tr)"
    unfolding handle_values_def by (rule nth_equalityI) (auto split: prod.split)
  also have "\<dots> = None # map Some vals"
  proof -
    obtain k ks' where ks: "ks = k # ks'" "length ks' = length vals" using assms(2) by (cases ks) auto
    have "map2 (\<lambda>k v. if held k then Some v else None) ks' vals = map Some vals"
      using assms(4) ks by (intro nth_equalityI) (auto simp: ks)
    then show ?thesis using assms(1,3) ks by simp
  qed
  finally show ?thesis .
qed

lemma map_filter_tail: "List.map_filter (\<lambda>i. (None # map Some vals) ! i) [1..<Suc (length vals)] = vals"
proof -
  have upt: "[1..<Suc (length vals)] = map Suc [0..<length vals]" by (simp add: map_Suc_upt del: upt_Suc)
  have "filter (\<lambda>i. (None # map Some vals) ! i \<noteq> None) [1..<Suc (length vals)] = [1..<Suc (length vals)]"
    by (rule filter_True) (auto simp: nth_Cons split: nat.split)
  then have "List.map_filter (\<lambda>i. (None # map Some vals) ! i) [1..<Suc (length vals)]
      = map (\<lambda>i. the ((None # map Some vals) ! i)) [1..<Suc (length vals)]"
    by (simp only: List.map_filter_def comp_def)
  also have "\<dots> = vals" unfolding upt by (rule nth_equalityI) auto
  finally show ?thesis .
qed

lemma decode_encode_block: "decode_block_read (encode_block_read vs) = Ok vs"
proof -
  have "length (concat (map (to_le 4) vs)) = 4 * length vs" by (induction vs) simp_all
  moreover have "chunks_exact 4 (concat (map (to_le 4) vs)) = map (to_le 4) vs"
  proof (induction vs)
    case (Cons v vs)
    then show ?case by (subst chunks_exact.simps) simp
  qed (simp add: chunks_exact.simps)
  ultimately show ?thesis by (simp add: encode_block_read_def o_def from_le_32)
qed

lemma passthrough_bound:
  "Passthrough k i \<in> set (xlogical held off fresh ops) \<Longrightarrow> i < off + length (xreads held fresh ops)"
proof (induction ops arbitrary: off fresh)
  case (Cons x ops)
  obtain h op where x: "x = (h, op)" by fastforce
  show ?case
  proof (cases "is_transfer op")
    case True
    then show ?thesis
      using Cons.prems Cons.IH [of "off + length (one_reads held fresh h op (map_option snd (next_transfer ops)))" "fresh + 5"]
      by (auto simp: x one_logical_def one_reads_def split: if_splits)
  next
    case False
    then show ?thesis using Cons.prems Cons.IH [of off "fresh + 1"] by (simp add: x)
  qed
qed simp

lemma remap_logical_total:
  "\<forall>k i. Passthrough k i \<in> set ms \<longrightarrow> i < length vs \<Longrightarrow> \<exists>out. remap_logical aggs vs ms rs = (Ok out :: ('e, results) res)"
proof (induction ms arbitrary: rs)
  case (Cons m ms)
  then show ?case
  proof (cases m)
    case (Passthrough k i)
    then have "i < length vs" using Cons.prems by simp
    then show ?thesis using Cons Passthrough by (cases "k \<in> set aggs") (simp_all add: nth_r_def)
  next
    case (FromNext k i)
    then show ?thesis using Cons by simp
  qed
qed simp

text \<open>The batch and the port of one block read.\<close>

lemma read_ap_block_eq:
  assumes "read_ap_block False fresh addr (Suc n) (swd_port_new st, batch_new) = (h, self, b)"
  shows "batch_ops b = block_ops addr [fresh..<fresh + Suc n] (fresh + Suc n)" "batch_ok b"
    "fst h = fresh + Suc n" "po_settings self = st" "self\<lparr>po_block_counts := [], po_block_handles := []\<rparr> = swd_port_new st"
    "n = 0 \<Longrightarrow> po_block_counts self = [] \<and> snd h = (\<lambda>r. rbind (into_u32 r) (\<lambda>v. Ok [v]))"
    "0 < n \<Longrightarrow> po_block_counts self = [Suc n] \<and> snd h = decode_block_read"
    "concat (po_block_handles self) = [Suc fresh..<fresh + Suc n]"
  using assms
  by (cases n; auto simp: read_ap_block_def schedule_reads_eq batch_schedule_def batch_new_def swd_read_def handle_map_def
      handle_from_id_def swd_port_new_def batch_ops_def batch_ok_def block_ops_def ap_read_ops_def upt_conv_Cons)+

context wait_probe begin

lemma block_ok:
  assumes "read_ap_block False fresh addr (Suc n) (swd_port_new st, batch_new) = (h, self, b)" "addr \<in> {0, 4, 8, 12}"
    "retry_room st []" "held = (\<lambda>k. k \<in> set (concat (po_block_handles self)) \<or> k = fst h)"
    "plan' = port_plan held (fresh + Suc (Suc n)) st b"
    "retry_batch probe st (plan_held plan') (num_retries_after_wait st) (ep_expanded plan') results_new
      (max 1 (num_idle_cycles_between_writes st)) s = (Ok rs, s')"
    "map_of rs = wire_values regs (plan_held plan') (batch_ops (ep_expanded plan')) (view s) (map_of results_new)"
    "view s' = final_regs regs (batch_ops (ep_expanded plan')) (view s)"
  shows "\<exists>out. swd_port_run probe held (fresh + Suc (Suc n)) self b s = (Ok (out, swd_port_new st), s')
    \<and> fst (results_take out h) = (Ok (Some (ap_values regs addr (Suc n) (fst (view s)))) :: ('e, u32 list option) res)
    \<and> fst (view s') = ap_reads_regs regs addr (Suc n) (fst (view s))"
proof -
  define e ks ops F where "e = fresh + Suc n" and "ks = [fresh..<fresh + Suc n]" and "ops = block_ops addr ks e"
    and "F = fresh + Suc (Suc n)"
  define vals where "vals = ap_values regs addr (Suc n) (fst (view s))"
  have lenv: "length vals = Suc n" by (simp add: vals_def del: ap_values.simps)
  note defs = e_def ks_def ops_def F_def
  let ?plan = "port_plan held F st b"
  let ?R = "xreads held F ops" and ?L = "xlogical held 0 F ops" and ?X = "xops held st F ops"
  note b = read_ap_block_eq [OF assms(1), folded ks_def e_def, folded ops_def]
  have heldk: "held k = (fresh < k \<and> k \<le> e)" for k by (auto simp: assms(4) b(3,8) e_def)
  have reg: "reg_batch b"
    using b(1,2) assms(2) by (auto simp: ops_def reg_batch_def block_ops_def ap_read_ops_def reg_op_def DP_RDBUFF_ADDR_def)
  have room: "retry_room st (batch_ops b)"
    using assms(3) by (auto simp: b(1) ops_def retry_room_def idle_room_def block_ops_def ap_read_ops_def Let_def)
  have ids: "known_ids F ops" by (auto simp: defs known_ids_def block_ops_def ap_read_ops_def o_def)
  have wire: "\<forall>x \<in> set ops. wire_op (snd x)" by (auto simp: ops_def block_ops_def ap_read_ops_def)
  note plan = port_plan_facts [OF reg room, where held = held and fresh = F, unfolded b(1)]
  have none: "map_of results_new = Map.empty" by (simp add: results_new_def)
  have F: "plan' = ?plan" by (simp add: assms(5) F_def)
  have run: "retry_batch probe st (plan_held ?plan) (num_retries_after_wait st) (ep_expanded ?plan) results_new
      (max 1 (num_idle_cycles_between_writes st)) s = (Ok rs, s')"
    "map_of rs = wire_values regs (plan_held ?plan) ?X (view s) Map.empty" "view s' = final_regs regs ops (view s)"
    using assms(6-8) plan(6,7) none by (simp_all add: F)
  let ?tr = "read_trace regs ?X (view s)"
  have dist: "distinct (map fst ?tr)" using trace_distinct xops_distinct [OF wire ids order.refl, of held st] by blast
  obtain ix e' where X: "?X = block_ops addr ix e'" "length ix = Suc n"
    "?R = map (\<lambda>k. if held k then Some k else None) (ks @ [e])"
    using block_expansion [of held st F addr ks e] by (auto simp: ops_def ks_def)
  have vs: "rtraverse (read_value rs) ?R = (Ok (handle_values ?R ?tr) :: (swd_port_error, u32 option list) res)"
    by (rule read_values_known [OF xreads_known [OF wire]])
      (auto simp: run(2) plan_held_def plan(3) intro: wire_values_trace [OF dist])
  have tr: "map snd ?tr = snd (view s) # vals"
    using block_trace(1) [of regs addr ix e' "fst (view s)" "snd (view s)"] X(2) by (simp add: X(1) vals_def del: ap_values.simps)
  have "ks @ [e] = [fresh..<Suc e]" by (simp add: ks_def e_def)
  also have "\<dots> = fresh # [Suc fresh..<Suc e]" by (rule upt_conv_Cons) (simp add: e_def)
  finally have kse: "ks @ [e] = fresh # [Suc fresh..<Suc e]" .
  have hv: "handle_values ?R ?tr = None # map Some vals"
    unfolding X(3) kse
    by (rule block_values_listed [OF tr]) (auto simp: heldk e_def lenv simp del: upt_Suc)
  have lenR: "length ?R = Suc (Suc n)" by (simp add: X(3) ks_def)
  have lastR: "?R ! Suc n = Some e" by (simp add: X(3) heldk nth_append ks_def e_def)
  have "\<exists>out. remap_logical (List.map_filter (block_aggregate ?R) (po_block_counts self)) (None # map Some vals) ?L []
      = (Ok out :: (swd_port_error, results) res)"
    by (rule remap_logical_total) (use passthrough_bound [of _ _ held 0 F ops] lenR lenv in auto)
  then obtain out0 where out0: "remap_logical (List.map_filter (block_aggregate ?R) (po_block_counts self)) (None # map Some vals) ?L []
      = (Ok out0 :: (swd_port_error, results) res)" by blast
  define out where "out = fold (push_block ?R (None # map Some vals)) (po_block_counts self) out0"
  have "swd_port_run probe held F self b s = (Ok (out, swd_port_new st), s')"
    using run(1) vs out0 by (simp add: port_run_eq [OF reg b(4)] plan b(5) hv remap_results_def pins_results_def results_new_def
        sbind_def out_def)
  moreover have "fst (results_take out h) = (Ok (Some vals) :: ('e, u32 list option) res)"
  proof (cases "n = 0")
    case True
    have counts: "po_block_counts self = []" "snd h = (\<lambda>r. rbind (into_u32 r) (\<lambda>v. Ok [v]))" using True b(6) by auto
    obtain v where one: "vals = [v]" using lenv True by (cases vals) auto
    have "\<not> held fresh" "held (Suc fresh)" using True by (simp_all add: heldk e_def)
    then have "?L = [Passthrough e 1]"
      by (simp add: True defs block_ops_def ap_read_ops_def one_logical_def one_reads_def needs_rdbuff_def extra_rdbuff_needed_def
          DP_RDBUFF_ADDR_def)
    then have "out = push_value [] e (Some v)"
      using out0 by (simp add: out_def counts one List.map_filter_def)
    then show ?thesis
      by (simp add: results_take_def b(3) push_value_Some counts one)
  next
    case False
    have counts: "po_block_counts self = [Suc n]" "snd h = decode_block_read" using False b(7) by auto
    have idx: "block_value_indices ?R (Suc n) = [1..<Suc (Suc n)]" by (simp add: block_value_indices_def lenR del: upt_Suc)
    have agg: "block_aggregate ?R (Suc n) = Some e" using lastR by (simp add: block_aggregate_def idx Let_def)
    have "vals \<noteq> []" using lenv by auto
    then have "out = results_push out0 e (encode_block_read vals)"
      using map_filter_tail [of vals] lenv by (simp add: out_def counts push_block_def agg idx Let_def lenv del: upt_Suc)
    then show ?thesis
      by (simp add: results_take_def b(3) results_push_def update_conv' counts decode_encode_block)
  qed
  moreover have "fst (view s') = ap_reads_regs regs addr (Suc n) (fst (view s))"
    using block_trace(2) [of regs addr ks e "fst (view s)" "snd (view s)"] by (simp add: run(3) ops_def ks_def del: ap_reads_regs.simps)
  ultimately show ?thesis unfolding F_def vals_def by blast
qed

lemma block_batch:
  assumes "read_ap_block False fresh addr (Suc n) (swd_port_new st, batch_new) = (h, self, b)" "addr \<in> {0, 4, 8, 12}" "retry_room st []"
  shows "reg_batch b" "retry_room st (batch_ops b)" "po_settings self = st"
  using read_ap_block_eq [OF assms(1)] assms(2,3)
  by (auto simp: reg_batch_def block_ops_def ap_read_ops_def reg_op_def DP_RDBUFF_ADDR_def retry_room_def idle_room_def Let_def)

lemma port_reads_block:
  assumes "read_ap_block False fresh addr (Suc n) (swd_port_new st, batch_new) = (h, self, b)" "addr \<in> {0, 4, 8, 12}"
    "ready s" "waits s < num_retries_after_wait st" "retry_room st []"
    "held = (\<lambda>k. k \<in> set (concat (po_block_handles self)) \<or> k = fst h)"
  shows "\<exists>out s'. swd_port_run probe held (fresh + Suc (Suc n)) self b s = (Ok (out, swd_port_new st), s') \<and> ready s' \<and> waits s' \<le> waits s
    \<and> fst (results_take out h) = (Ok (Some (ap_values regs addr (Suc n) (fst (view s)))) :: ('e, u32 list option) res)
    \<and> fst (view s') = ap_reads_regs regs addr (Suc n) (fst (view s))"
proof -
  define plan where "plan = port_plan held (fresh + Suc (Suc n)) st b"
  note facts = port_plan_facts [OF block_batch(1,2) [OF assms(1,2,5)], where held = held and fresh = "fresh + Suc (Suc n)", folded plan_def]
  obtain rs s' where run: "retry_batch probe st (plan_held plan) (num_retries_after_wait st) (ep_expanded plan) results_new
      (max 1 (num_idle_cycles_between_writes st)) s = (Ok rs, s')" "ready s' \<and> waits s' \<le> waits s"
    "map_of rs = wire_values regs (plan_held plan) (batch_ops (ep_expanded plan)) (view s) (map_of results_new)"
    "view s' = final_regs regs (batch_ops (ep_expanded plan)) (view s)"
    using retry_executes_once [OF assms(4) facts(1) assms(3) first_idle facts(2), of "plan_held plan" results_new]
    by (elim exE conjE) (rule that, simp_all)
  from block_ok [OF assms(1,2,5,6) plan_def run(1,3,4)] run(2) show ?thesis by blast
qed

end

text \<open>C12. A block read of an AP register over the wire returns as many values as were asked for: the
  values of that many successive reads of the register, in order, from a target that is busy fewer
  times than the port retries; the register is not read more often than that.\<close>

theorem block_read_over_the_wire:
  assumes "read_ap_block False fresh addr count (swd_port_new st, batch_new) = (h, port, b)" "0 < count"
    "addr \<in> {0, 4, 8, 12}" "\<not> at_sticky t" "length (filter id (at_busy t)) < num_retries_after_wait st" "retry_room st []"
  shows "\<exists>out t'. swd_port_run (swd_wire_probe regs) (\<lambda>k. k \<in> set (concat (po_block_handles port)) \<or> k = fst h)
        (fresh + count + 1) port b t = (Ok (out, swd_port_new st), t')
    \<and> fst (results_take out h) = (Ok (Some (ap_values regs addr count (at_regs t))) :: (unit, u32 list option) res)
    \<and> at_regs t' = ap_reads_regs regs addr count (at_regs t)"
proof -
  obtain n where n: "count = Suc n" using assms(2) by (cases count) auto
  have "target_waits t < num_retries_after_wait st" using assms(5) by (simp add: target_waits_def)
  from sw.port_reads_block [where ?'e = unit, OF assms(1) [unfolded n] assms(3,4) this assms(6) refl, of regs] show ?thesis
    by (auto simp: target_view_def n)
qed

theorem block_read_over_the_wire_witness:
  "\<exists>out t'. swd_port_run (swd_wire_probe counting_regs)
      (\<lambda>k. k \<in> set (concat (po_block_handles (fst (snd (read_ap_block False 0 12 3 (swd_port_new default_swd_settings, batch_new)
          :: (unit, u32 list) handle \<times> swd_port \<times> swd_batch)))))
         \<or> k = fst (fst (read_ap_block False 0 12 3 (swd_port_new default_swd_settings, batch_new) :: (unit, u32 list) handle \<times> _)))
      4 (fst (snd (read_ap_block False 0 12 3 (swd_port_new default_swd_settings, batch_new) :: (unit, u32 list) handle \<times> _)))
      (snd (snd (read_ap_block False 0 12 3 (swd_port_new default_swd_settings, batch_new) :: (unit, u32 list) handle \<times> _)))
      (example_target [True]) = (Ok (out, swd_port_new default_swd_settings), t')
    \<and> fst (results_take out (fst (read_ap_block False 0 12 3 (swd_port_new default_swd_settings, batch_new))))
        = (Ok (Some [0x20000000, 0x20000004, 0x20000008]) :: (unit, u32 list option) res) \<and> at_regs t' = 0x2000000C"
proof -
  let ?r = "read_ap_block False 0 12 3 (swd_port_new default_swd_settings, batch_new) :: (unit, u32 list) handle \<times> swd_port \<times> swd_batch"
  have "?r = (fst ?r, fst (snd ?r), snd (snd ?r))" by simp
  moreover have "\<not> at_sticky (example_target [True])"
    "length (filter id (at_busy (example_target [True]))) < num_retries_after_wait default_swd_settings"
    "retry_room default_swd_settings []"
    by (simp_all add: example_target_def default_swd_settings_def retry_room_def idle_room_def idle_step_def Let_def)
  ultimately have "\<exists>out t'. swd_port_run (swd_wire_probe counting_regs)
      (\<lambda>k. k \<in> set (concat (po_block_handles (fst (snd ?r)))) \<or> k = fst (fst ?r)) (0 + 3 + 1) (fst (snd ?r)) (snd (snd ?r))
      (example_target [True]) = (Ok (out, swd_port_new default_swd_settings), t')
    \<and> fst (results_take out (fst ?r)) = (Ok (Some (ap_values counting_regs 12 3 (at_regs (example_target [True])))) :: (unit, u32 list option) res)
    \<and> at_regs t' = ap_reads_regs counting_regs 12 3 (at_regs (example_target [True]))"
    by (intro block_read_over_the_wire) simp_all
  moreover have "ap_values counting_regs 12 3 (at_regs (example_target [True])) = [0x20000000, 0x20000004, 0x20000008]"
    "ap_reads_regs counting_regs 12 3 (at_regs (example_target [True])) = 0x2000000C"
    by (simp_all add: counting_regs_def example_target_def numeral_3_eq_3)
  ultimately show ?thesis by simp
qed

end
