(* ===== verification/Arm_Dap.thy ===== *)
theory Arm_Dap
  imports Mem_Ap
begin

text \<open>
  The communication interface of ARM targets
  (probe-rs/src/architecture/arm/communication_interface.rs): the registers of debug ports and access
  ports over one transport. It selects the debug port, the AP and the register bank before each access
  and keeps a copy of the SELECT register to leave out writes of it. The transport, the wire and the
  debug sequences are parameters; the stock start sequence is a definition.
\<close>

subsection \<open>Addresses\<close>

datatype dp_address = DpDefault | DpMultidrop u32

record dp_register_address =
  dr_address :: u8
  dr_bank :: "u8 option"

datatype register_address = DpRegister dp_register_address | ApRegister u8

fun is_ap :: "register_address \<Rightarrow> bool" where
  "is_ap (DpRegister r) = False"
| "is_ap (ApRegister a) = True"

fun reg_lsb :: "register_address \<Rightarrow> u8" where
  "reg_lsb (DpRegister r) = dr_address r"
| "reg_lsb (ApRegister a) = a"

definition a2_and_3 :: "register_address \<Rightarrow> u8" where
  "a2_and_3 r = reg_lsb r AND 0xC"

datatype ap_address = ApV1 u8 | ApV2 "nat option"

record fq_ap_address =
  fq_dp :: dp_address
  fq_ap :: ap_address

subsection \<open>Registers of a debug port\<close>

definition dp_abort :: dp_register_address where "dp_abort = \<lparr>dr_address = 0, dr_bank = None\<rparr>"
definition dp_ctrl :: dp_register_address where "dp_ctrl = \<lparr>dr_address = 4, dr_bank = None\<rparr>"
definition dp_select :: dp_register_address where "dp_select = \<lparr>dr_address = 8, dr_bank = None\<rparr>"
definition dp_select1 :: dp_register_address where "dp_select1 = \<lparr>dr_address = 4, dr_bank = Some 5\<rparr>"
definition dp_idr :: dp_register_address where "dp_idr = \<lparr>dr_address = 0, dr_bank = None\<rparr>"

lemmas dp_registers = dp_abort_def dp_ctrl_def dp_select_def dp_select1_def dp_idr_def

datatype dp_version = DpVersion0 | DpVersion1 | DpVersion2 | DpVersion3 | DpUnsupported u32

definition dp_version_of :: "u32 \<Rightarrow> dp_version" where
  "dp_version_of v =
     (if v = 0 then DpVersion0 else if v = 1 then DpVersion1 else if v = 2 then DpVersion2
      else if v = 3 then DpVersion3 else DpUnsupported v)"

definition idr_version :: "u32 \<Rightarrow> u32" where "idr_version idr = reg_get 15 12 idr"
definition idr_designer :: "u32 \<Rightarrow> u32" where "idr_designer idr = reg_get 11 1 idr"
definition idr_min :: "u32 \<Rightarrow> bool" where "idr_min idr = bit idr 16"
definition ctrl_powered :: "u32 \<Rightarrow> bool" where "ctrl_powered ctrl \<longleftrightarrow> bit ctrl 31 \<and> bit ctrl 29"

subsection \<open>The copy of SELECT\<close>

datatype select_cache = DPv1 u32 | DPv3 u32 u32

fun select_word :: "select_cache \<Rightarrow> u32" where
  "select_word (DPv1 w) = w"
| "select_word (DPv3 w w1) = w"

definition cache_bank :: "select_cache \<Rightarrow> u8" where
  "cache_bank c = ucast (reg_get 3 0 (select_word c))"

fun cache_set_bank :: "u8 \<Rightarrow> select_cache \<Rightarrow> select_cache" where
  "cache_set_bank b (DPv1 w) = DPv1 (reg_set 3 0 (ucast b) w)"
| "cache_set_bank b (DPv3 w w1) = DPv3 (reg_set 3 0 (ucast b) w) w1"

text \<open>The part of SELECT and SELECT1 that selects an AP and its bank, for an address of 64 bits.\<close>

definition place_v3 :: "nat \<Rightarrow> u32 \<Rightarrow> select_cache" where
  "place_v3 a w = DPv3 (reg_set 31 4 (of_nat (a div 16 mod 2 ^ 32)) w) (of_nat (a div 2 ^ 32))"

fun place_ap :: "ap_address \<Rightarrow> nat \<Rightarrow> select_cache \<Rightarrow> (arm_error, select_cache) res" where
  "place_ap (ApV1 port) address (DPv1 w) =
     Ok (DPv1 (reg_set 7 4 (of_nat (address mod 256 div 16)) (reg_set 31 24 (ucast port) w)))"
| "place_ap (ApV2 base) address (DPv3 w w1) =
     rmap (\<lambda>a. place_v3 a w) (add64 (case base of None \<Rightarrow> 0 | Some b \<Rightarrow> b) address)"
| "place_ap (ApV1 port) address (DPv3 w w1) =
     (if port = 0 then Ok (place_v3 address w) else Err ArmOther)"
| "place_ap (ApV2 base) address (DPv1 w) = Err ArmOther"

subsection \<open>The interface\<close>

record dp_state =
  ds_version :: dp_version
  ds_select :: select_cache
  ds_valid :: bool
  ds_memory_aps :: "ap_address \<rightharpoonup> memory_ap"

definition dp_state_new :: dp_state where
  "dp_state_new = \<lparr>ds_version = DpUnsupported 0xFF, ds_select = DPv1 0, ds_valid = False, ds_memory_aps = Map.empty\<rparr>"

text \<open>\<open>tr_flush\<close> is \<open>raw_flush\<close> of the wire of the transport.\<close>

record 't dap_transport =
  tr_read :: "register_address \<Rightarrow> ('t, arm_error, u32) rsm"
  tr_write :: "register_address \<Rightarrow> u32 \<Rightarrow> ('t, arm_error, unit) rsm"
  tr_read_repeated :: "u8 \<Rightarrow> nat \<Rightarrow> ('t, arm_error, u32 list) rsm"
  tr_write_repeated :: "u8 \<Rightarrow> u32 list \<Rightarrow> ('t, arm_error, unit) rsm"
  tr_batch :: "(ap_accesses \<Rightarrow> ('t, arm_error, u32 list) rsm) option"
  tr_flush :: "('t, arm_error, unit) rsm"

text \<open>
  A debug sequence that runs on the interface: a tree of the calls it makes, each followed by what it
  does with the result. A sequence on the wire is a step of the transport.
\<close>

datatype 't dap_program =
    Finish "(arm_error, unit) res"
  | ReadDp dp_address dp_register_address "(arm_error, u32) res \<Rightarrow> 't dap_program"
  | WriteDp dp_address dp_register_address u32 "(arm_error, unit) res \<Rightarrow> 't dap_program"
  | ReadAp fq_ap_address nat "(arm_error, u32) res \<Rightarrow> 't dap_program"
  | WriteAp fq_ap_address nat u32 "(arm_error, unit) res \<Rightarrow> 't dap_program"
  | Reconnect "'t \<Rightarrow> (arm_error, unit) res \<times> 't" "(arm_error, unit) res \<Rightarrow> 't dap_program"

record 't arm_sequence =
  sq_setup :: "dp_address \<Rightarrow> ('t, arm_error, unit) rsm"
  sq_connect :: "dp_address \<Rightarrow> ('t, arm_error, unit) rsm"
  sq_stop :: "dp_address \<Rightarrow> ('t, arm_error, unit) rsm"
  sq_start :: "dp_address \<Rightarrow> 't dap_program"

record 't arm_config =
  cf_transport :: "'t dap_transport"
  cf_sequence :: "'t arm_sequence"
  cf_overrun :: bool

record 't arm_interface =
  ai_transport :: 't
  ai_current :: "dp_address option"
  ai_dps :: "dp_address \<rightharpoonup> dp_state"
  ai_epoch :: nat

type_synonym ('t, 'a) ai = "('t arm_interface, arm_error, 'a) rsm"

definition arm_create :: "'t \<Rightarrow> 't arm_interface" where
  "arm_create t = \<lparr>ai_transport = t, ai_current = None, ai_dps = Map.empty, ai_epoch = 0\<rparr>"

definition on_transport :: "('t, arm_error, 'a) rsm \<Rightarrow> ('t, 'a) ai" where
  "on_transport m s = (case m (ai_transport s) of (r, t) \<Rightarrow> (r, s\<lparr>ai_transport := t\<rparr>))"

definition update_dp :: "dp_address \<Rightarrow> (dp_state \<Rightarrow> dp_state) \<Rightarrow> 't arm_interface \<Rightarrow> 't arm_interface" where
  "update_dp dp f s = (case ai_dps s dp of None \<Rightarrow> s | Some st \<Rightarrow> s\<lparr>ai_dps := (ai_dps s)(dp \<mapsto> f st)\<rparr>)"

definition forget_memory_aps :: "('t, unit) ai" where
  "forget_memory_aps s =
     (case add64 (ai_epoch s) 1 :: (arm_error, nat) res of
        Ok e \<Rightarrow> (Ok (), s\<lparr>ai_epoch := e,
                  ai_dps := (\<lambda>dp. map_option (\<lambda>st. st\<lparr>ds_memory_aps := Map.empty\<rparr>) (ai_dps s dp))\<rparr>)
      | _ \<Rightarrow> (Panic, s))"

definition forget_memory_ap :: "fq_ap_address \<Rightarrow> 't arm_interface \<Rightarrow> 't arm_interface" where
  "forget_memory_ap ap = update_dp (fq_dp ap) (\<lambda>st. st\<lparr>ds_memory_aps := (ds_memory_aps st)(fq_ap ap := None)\<rparr>)"

subsection \<open>Calls and programs\<close>

text \<open>
  The accesses that a sequence, or a write of SELECT, makes on the interface while another access is
  in progress.
\<close>

record 't dap_calls =
  dc_read_dp :: "dp_address \<Rightarrow> dp_register_address \<Rightarrow> ('t, u32) ai"
  dc_write_dp :: "dp_address \<Rightarrow> dp_register_address \<Rightarrow> u32 \<Rightarrow> ('t, unit) ai"
  dc_read_ap :: "fq_ap_address \<Rightarrow> nat \<Rightarrow> ('t, u32) ai"
  dc_write_ap :: "fq_ap_address \<Rightarrow> nat \<Rightarrow> u32 \<Rightarrow> ('t, unit) ai"

definition debug_port_reconnect_with :: "('t, arm_error, unit) rsm \<Rightarrow> ('t, unit) ai" where
  "debug_port_reconnect_with connect = sbind forget_memory_aps (\<lambda>_. on_transport connect)"

definition resume :: "('t, 'a) ai \<Rightarrow> ((arm_error, 'a) res \<Rightarrow> ('t, 'b) ai) \<Rightarrow> ('t, 'b) ai" where
  "resume m k s = (case m s of (Panic, s) \<Rightarrow> (Panic, s) | (r, s) \<Rightarrow> k r s)"

primrec run_program :: "'t dap_calls \<Rightarrow> 't dap_program \<Rightarrow> ('t, unit) ai" where
  "run_program calls (Finish r) = slift r"
| "run_program calls (ReadDp dp reg k) = resume (dc_read_dp calls dp reg) (\<lambda>r. run_program calls (k r))"
| "run_program calls (WriteDp dp reg v k) = resume (dc_write_dp calls dp reg v) (\<lambda>r. run_program calls (k r))"
| "run_program calls (ReadAp ap a k) = resume (dc_read_ap calls ap a) (\<lambda>r. run_program calls (k r))"
| "run_program calls (WriteAp ap a v k) = resume (dc_write_ap calls ap a v) (\<lambda>r. run_program calls (k r))"
| "run_program calls (Reconnect connect k) =
     resume (debug_port_reconnect_with connect) (\<lambda>r. run_program calls (k r))"

subsection \<open>Selection\<close>

text \<open>The wire is moved to another debug port; the result says whether it was.\<close>

definition switch_dp :: "'t arm_config \<Rightarrow> dp_address \<Rightarrow> ('t, bool) ai" where
  "switch_dp cfg dp s =
     (if ai_current s = Some dp then (Ok False, s)
      else
        (let sq = cf_sequence cfg;
             connect = (\<lambda>t. case sq_connect sq dp t of (Err e, t) \<Rightarrow> sq_setup sq dp t | rt \<Rightarrow> rt);
             wire = (if ai_current s = None then sq_setup sq dp else connect)
         in sbind (on_transport (sbind (tr_flush (cf_transport cfg)) (\<lambda>_. wire)))
              (\<lambda>_ s. (Ok True, s\<lparr>ai_current := Some dp\<rparr>)) (s\<lparr>ai_current := None\<rparr>)))"

definition start_dp :: "'t arm_config \<Rightarrow> 't dap_calls \<Rightarrow> dp_address \<Rightarrow> ('t, unit) ai" where
  "start_dp cfg calls dp =
     sbind forget_memory_aps (\<lambda>_. run_program calls (sq_start (cf_sequence cfg) dp))"

definition note_version :: "dp_address \<Rightarrow> u32 \<Rightarrow> ('t, unit) ai" where
  "note_version dp idr s =
     (case ai_dps s dp of
        None \<Rightarrow> (Panic, s)
      | Some st \<Rightarrow>
          let v = dp_version_of (idr_version idr);
              st = st\<lparr>ds_version := v\<rparr>;
              st = (if v = DpVersion3 then st\<lparr>ds_select := DPv3 0 0\<rparr> else st)
          in (Ok (), s\<lparr>ai_dps := (ai_dps s)(dp \<mapsto> st)\<rparr>))"

definition init_dp :: "'t arm_config \<Rightarrow> 't dap_calls \<Rightarrow> dp_address \<Rightarrow> ('t, unit) ai" where
  "init_dp cfg calls dp =
     sbind (start_dp cfg calls dp) (\<lambda>_.
     sbind (dc_read_dp calls dp dp_ctrl) (\<lambda>ctrl.
     sbind (if bit ctrl 0 \<noteq> cf_overrun cfg then dc_write_dp calls dp dp_ctrl (flag_set 0 (cf_overrun cfg) ctrl) else sret ()) (\<lambda>_.
     sbind (dc_read_dp calls dp dp_idr) (note_version dp))))"

definition select_dp :: "'t arm_config \<Rightarrow> 't dap_calls \<Rightarrow> dp_address \<Rightarrow> ('t, dp_state) ai" where
  "select_dp cfg calls dp =
     sbind (switch_dp cfg dp) (\<lambda>switched.
     sbind (\<lambda>s. if ai_dps s dp = None then init_dp cfg calls dp (s\<lparr>ai_dps := (ai_dps s)(dp \<mapsto> dp_state_new)\<rparr>)
                else if switched then start_dp cfg calls dp s
                else (Ok (), s))
       (\<lambda>_ s. case ai_dps s dp of None \<Rightarrow> (Panic, s) | Some st \<Rightarrow> (Ok st, s)))"

definition set_cache :: "dp_address \<Rightarrow> select_cache \<Rightarrow> 't arm_interface \<Rightarrow> 't arm_interface" where
  "set_cache dp c = update_dp dp (\<lambda>st. st\<lparr>ds_select := c\<rparr>)"

definition select_dp_and_dp_bank ::
  "'t arm_config \<Rightarrow> 't dap_calls \<Rightarrow> dp_address \<Rightarrow> dp_register_address \<Rightarrow> ('t, unit) ai" where
  "select_dp_and_dp_bank cfg calls dp reg =
     sbind (select_dp cfg calls dp) (\<lambda>st s.
       if dr_address reg \<noteq> 0 \<and> dr_address reg \<noteq> 4 then (Ok (), s)
       else
         (let bank = (case dr_bank reg of None \<Rightarrow> 0 | Some b \<Rightarrow> b) in
          if \<not> ds_valid st \<or> bank \<noteq> cache_bank (ds_select st)
          then (let c = cache_set_bank bank (ds_select st) in
                dc_write_dp calls dp dp_select (select_word c) (set_cache dp c s))
          else (Ok (), s)))"

definition sync_select_cache ::
  "dp_address \<Rightarrow> dp_register_address \<Rightarrow> u32 \<Rightarrow> bool \<Rightarrow> 't arm_interface \<Rightarrow> 't arm_interface" where
  "sync_select_cache dp reg value wrote =
     (let bank = (case dr_bank reg of None \<Rightarrow> 0 | Some b \<Rightarrow> b);
          is_select = (dr_address reg = 8 \<and> bank = 0);
          is_select1 = (dr_address reg = 4 \<and> dr_bank reg = Some 5)
      in if \<not> is_select \<and> \<not> is_select1 then id
         else update_dp dp (\<lambda>st.
           if \<not> wrote then st\<lparr>ds_valid := False\<rparr>
           else st\<lparr>ds_select :=
                     (case ds_select st of
                        DPv1 w \<Rightarrow> (if is_select then DPv1 value else DPv1 w)
                      | DPv3 w w1 \<Rightarrow> (if is_select then DPv3 value w1 else DPv3 w value)),
                   ds_valid := True\<rparr>))"

definition write_select :: "'t dap_calls \<Rightarrow> dp_address \<Rightarrow> dp_state \<Rightarrow> select_cache \<Rightarrow> ('t, unit) ai" where
  "write_select calls dp st c =
     (case c of
        DPv1 w \<Rightarrow> dc_write_dp calls dp dp_select w
      | DPv3 w w1 \<Rightarrow>
          (let changed = (case ds_select st of DPv3 _ p1 \<Rightarrow> p1 \<noteq> w1 | _ \<Rightarrow> True)
           in sbind (if \<not> ds_valid st \<or> changed then dc_write_dp calls dp dp_select1 w1 else sret ())
                (\<lambda>_. dc_write_dp calls dp dp_select w)))"

definition select_ap_and_ap_bank ::
  "'t arm_config \<Rightarrow> 't dap_calls \<Rightarrow> fq_ap_address \<Rightarrow> nat \<Rightarrow> ('t, unit) ai" where
  "select_ap_and_ap_bank cfg calls ap address =
     sbind (select_dp cfg calls (fq_dp ap)) (\<lambda>st.
     sbind (slift (place_ap (fq_ap ap) address (ds_select st))) (\<lambda>placed s.
       let c = cache_set_bank 0 placed; s = set_cache (fq_dp ap) c s in
       if \<not> ds_valid st \<or> ds_select st \<noteq> c then write_select calls (fq_dp ap) st c s else (Ok (), s)))"

subsection \<open>Register accesses\<close>

definition read_raw_dp_register ::
  "'t arm_config \<Rightarrow> 't dap_calls \<Rightarrow> dp_address \<Rightarrow> dp_register_address \<Rightarrow> ('t, u32) ai" where
  "read_raw_dp_register cfg calls dp reg =
     sbind (select_dp_and_dp_bank cfg calls dp reg) (\<lambda>_. on_transport (tr_read (cf_transport cfg) (DpRegister reg)))"

definition write_raw_dp_register ::
  "'t arm_config \<Rightarrow> 't dap_calls \<Rightarrow> dp_address \<Rightarrow> dp_register_address \<Rightarrow> u32 \<Rightarrow> ('t, unit) ai" where
  "write_raw_dp_register cfg calls dp reg value =
     sbind (select_dp_and_dp_bank cfg calls dp reg) (\<lambda>_ s.
       case on_transport (tr_write (cf_transport cfg) (DpRegister reg) value) s of
         (r, s) \<Rightarrow> (r, sync_select_cache dp reg value (is_ok r) s))"

fun is_link_lost :: "arm_error \<Rightarrow> bool" where
  "is_link_lost (ArmDap DapNoAcknowledge) = True"
| "is_link_lost (ArmDap (DapProtocol p)) = True"
| "is_link_lost _ = False"

definition resynchronize :: "'t arm_config \<Rightarrow> dp_address \<Rightarrow> ('t, arm_error, unit) rsm" where
  "resynchronize cfg dp t =
     (case tr_flush (cf_transport cfg) t of
        (Panic, t) \<Rightarrow> (Panic, t)
      | (_, t) \<Rightarrow> sq_connect (cf_sequence cfg) dp t)"

definition retry_after_link_loss :: "'t arm_config \<Rightarrow> dp_address \<Rightarrow> ('t, 'a) ai \<Rightarrow> ('t, 'a) ai" where
  "retry_after_link_loss cfg dp op s =
     (case op s of
        (Err e, s) \<Rightarrow>
          if \<not> is_link_lost e then (Err e, s)
          else
            (case on_transport (resynchronize cfg dp) s of
               (Ok _, s) \<Rightarrow> sbind forget_memory_aps (\<lambda>_. op) (update_dp dp (\<lambda>st. st\<lparr>ds_valid := False\<rparr>) s)
             | (Err _, s) \<Rightarrow> (Err e, s)
             | (Panic, s) \<Rightarrow> (Panic, s))
      | rs \<Rightarrow> rs)"

definition ap_register :: "nat \<Rightarrow> u8" where
  "ap_register address = of_nat (address mod 256)"

definition read_raw_ap_register :: "'t arm_config \<Rightarrow> 't dap_calls \<Rightarrow> fq_ap_address \<Rightarrow> nat \<Rightarrow> ('t, u32) ai" where
  "read_raw_ap_register cfg calls ap address =
     retry_after_link_loss cfg (fq_dp ap)
       (sbind (select_ap_and_ap_bank cfg calls ap address) (\<lambda>_.
          on_transport (tr_read (cf_transport cfg) (ApRegister (ap_register address)))))"

definition write_raw_ap_register ::
  "'t arm_config \<Rightarrow> 't dap_calls \<Rightarrow> fq_ap_address \<Rightarrow> nat \<Rightarrow> u32 \<Rightarrow> ('t, unit) ai" where
  "write_raw_ap_register cfg calls ap address value s =
     retry_after_link_loss cfg (fq_dp ap)
       (sbind (select_ap_and_ap_bank cfg calls ap address) (\<lambda>_.
          on_transport (tr_write (cf_transport cfg) (ApRegister (ap_register address)) value)))
       (forget_memory_ap ap s)"

definition read_raw_ap_register_repeated ::
  "'t arm_config \<Rightarrow> 't dap_calls \<Rightarrow> fq_ap_address \<Rightarrow> nat \<Rightarrow> nat \<Rightarrow> ('t, u32 list) ai" where
  "read_raw_ap_register_repeated cfg calls ap address count =
     sbind (select_ap_and_ap_bank cfg calls ap address) (\<lambda>_.
       on_transport (tr_read_repeated (cf_transport cfg) (ap_register address) count))"

definition write_raw_ap_register_repeated ::
  "'t arm_config \<Rightarrow> 't dap_calls \<Rightarrow> fq_ap_address \<Rightarrow> nat \<Rightarrow> u32 list \<Rightarrow> ('t, unit) ai" where
  "write_raw_ap_register_repeated cfg calls ap address values s =
     sbind (select_ap_and_ap_bank cfg calls ap address) (\<lambda>_.
       on_transport (tr_write_repeated (cf_transport cfg) (ap_register address) values)) (forget_memory_ap ap s)"

subsection \<open>Lists of accesses\<close>

definition same_run :: "nat \<times> u32 option \<Rightarrow> nat \<times> u32 option \<Rightarrow> bool" where
  "same_run a b \<longleftrightarrow> fst a = fst b \<and> (snd a \<noteq> None) = (snd b \<noteq> None)"

text \<open>\<open>chunk_by\<close>: the longest runs of neighbours that belong together.\<close>

fun chunk_by :: "('a \<Rightarrow> 'a \<Rightarrow> bool) \<Rightarrow> 'a list \<Rightarrow> 'a list list" where
  "chunk_by f [] = []"
| "chunk_by f (x # xs) =
     (case chunk_by f xs of
        (y # ys) # runs \<Rightarrow> if f x y then (x # y # ys) # runs else [x] # (y # ys) # runs
      | runs \<Rightarrow> [x] # runs)"

fun replay_run :: "'t arm_config \<Rightarrow> 't dap_calls \<Rightarrow> fq_ap_address \<Rightarrow> ap_accesses \<Rightarrow> ('t, u32 list) ai" where
  "replay_run cfg calls ap [] = slift Panic"
| "replay_run cfg calls ap [(address, Some value)] =
     sbind (write_raw_ap_register cfg calls ap address value) (\<lambda>_. sret [])"
| "replay_run cfg calls ap [(address, None)] =
     sbind (read_raw_ap_register cfg calls ap address) (\<lambda>w. sret [w])"
| "replay_run cfg calls ap ((address, Some value) # run) =
     sbind (slift (rtraverse (\<lambda>x. case snd x of Some v \<Rightarrow> Ok v | None \<Rightarrow> Panic) ((address, Some value) # run))) (\<lambda>data.
     sbind (write_raw_ap_register_repeated cfg calls ap address data) (\<lambda>_. sret []))"
| "replay_run cfg calls ap ((address, None) # run) =
     read_raw_ap_register_repeated cfg calls ap address (Suc (length run))"

fun replay_runs :: "'t arm_config \<Rightarrow> 't dap_calls \<Rightarrow> fq_ap_address \<Rightarrow> ap_accesses list \<Rightarrow> ('t, u32 list) ai" where
  "replay_runs cfg calls ap [] = sret []"
| "replay_runs cfg calls ap (run # runs) =
     sbind (replay_run cfg calls ap run) (\<lambda>ws. sbind (replay_runs cfg calls ap runs) (\<lambda>vs. sret (ws @ vs)))"

definition access_raw_ap_registers ::
  "'t arm_config \<Rightarrow> 't dap_calls \<Rightarrow> fq_ap_address \<Rightarrow> ap_accesses \<Rightarrow> ('t, u32 list) ai" where
  "access_raw_ap_registers cfg calls ap accesses s =
     (case accesses of
        [] \<Rightarrow> (Ok [], s)
      | (start, _) # _ \<Rightarrow>
          if \<not> (\<forall>x \<in> set accesses. fst x div 16 = start div 16) then (Panic, s)
          else
            (case tr_batch (cf_transport cfg) of
               None \<Rightarrow> replay_runs cfg calls ap (chunk_by same_run accesses) s
             | Some batch \<Rightarrow>
                 sbind (select_ap_and_ap_bank cfg calls ap start) (\<lambda>_. on_transport (batch accesses))
                   (if (\<exists>x \<in> set accesses. snd x \<noteq> None) then forget_memory_ap ap s else s)))"

subsection \<open>Memory APs, start and end\<close>

definition take_memory_ap :: "fq_ap_address \<Rightarrow> 't arm_interface \<Rightarrow> memory_ap option \<times> 't arm_interface" where
  "take_memory_ap ap s =
     (case ai_dps s (fq_dp ap) of
        None \<Rightarrow> (None, s)
      | Some st \<Rightarrow> (ds_memory_aps st (fq_ap ap), forget_memory_ap ap s))"

definition store_memory_ap :: "fq_ap_address \<Rightarrow> memory_ap \<Rightarrow> 't arm_interface \<Rightarrow> 't arm_interface" where
  "store_memory_ap ap m =
     update_dp (fq_dp ap) (\<lambda>st. st\<lparr>ds_memory_aps := (ds_memory_aps st)
       (fq_ap ap := (if ds_memory_aps st (fq_ap ap) = None then Some m else None))\<rparr>)"

text \<open>\<open>keys\<close> is the order in which the table of debug ports lists them.\<close>

fun stop_others :: "'t arm_sequence \<Rightarrow> dp_address list \<Rightarrow> 't \<Rightarrow> (arm_error, unit) res \<times> 't" where
  "stop_others sq [] t = (Ok (), t)"
| "stop_others sq (dp # dps) t =
     (case sq_connect sq dp t of
        (Panic, t) \<Rightarrow> (Panic, t)
      | (Err _, t) \<Rightarrow> stop_others sq dps t
      | (Ok _, t) \<Rightarrow> (case sq_stop sq dp t of (Panic, t) \<Rightarrow> (Panic, t) | (_, t) \<Rightarrow> stop_others sq dps t))"

definition stop_current :: "'t arm_sequence \<Rightarrow> dp_address option \<Rightarrow> 't \<Rightarrow> (arm_error, unit) res \<times> 't" where
  "stop_current sq cur t =
     (case cur of
        None \<Rightarrow> (Ok (), t)
      | Some dp \<Rightarrow> (case sq_stop sq dp t of (Panic, t) \<Rightarrow> (Panic, t) | (_, t) \<Rightarrow> (Ok (), t)))"

definition disconnect :: "'t arm_config \<Rightarrow> dp_address list \<Rightarrow> ('t, unit) ai" where
  "disconnect cfg keys s =
     (let cur = ai_current s; others = filter (\<lambda>dp. Some dp \<noteq> cur) keys; sq = cf_sequence cfg in
      sbind (on_transport (sbind (stop_current sq cur) (\<lambda>_. stop_others sq others))) (\<lambda>_ s.
      sbind forget_memory_aps (\<lambda>_ s.
        (case tr_flush (cf_transport cfg) (ai_transport s) of
           (Panic, t) \<Rightarrow> (Panic, s\<lparr>ai_transport := t\<rparr>)
         | (_, t) \<Rightarrow> (Ok (), s\<lparr>ai_transport := t\<rparr>)))
        (s\<lparr>ai_dps := Map.empty\<rparr>)) (s\<lparr>ai_current := None\<rparr>))"

definition reinitialize :: "'t arm_config \<Rightarrow> 't dap_calls \<Rightarrow> dp_address list \<Rightarrow> ('t, unit) ai" where
  "reinitialize cfg calls keys s =
     sbind (disconnect cfg keys) (\<lambda>_.
       (case ai_current s of
          None \<Rightarrow> sret ()
        | Some dp \<Rightarrow> sbind (select_dp cfg calls dp) (\<lambda>_. sret ()))) s"

subsection \<open>The whole interface\<close>

text \<open>
  The calls made while an access is in progress are accesses of the same interface. Their nesting is
  bounded by a number: outside of a start sequence, a write of SELECT1 that first needs a write of
  SELECT is the deepest.
\<close>

primrec arm_calls :: "'t arm_config \<Rightarrow> nat \<Rightarrow> 't dap_calls" where
  "arm_calls cfg 0 =
     \<lparr>dc_read_dp = (\<lambda>_ _. slift Panic), dc_write_dp = (\<lambda>_ _ _. slift Panic),
      dc_read_ap = (\<lambda>_ _. slift Panic), dc_write_ap = (\<lambda>_ _ _. slift Panic)\<rparr>"
| "arm_calls cfg (Suc n) =
     \<lparr>dc_read_dp = read_raw_dp_register cfg (arm_calls cfg n),
      dc_write_dp = write_raw_dp_register cfg (arm_calls cfg n),
      dc_read_ap = read_raw_ap_register cfg (arm_calls cfg n),
      dc_write_ap = write_raw_ap_register cfg (arm_calls cfg n)\<rparr>"

definition arm_dap :: "'t arm_config \<Rightarrow> nat \<Rightarrow> fq_ap_address \<Rightarrow> 't arm_interface dap" where
  "arm_dap cfg n ap =
     \<lparr>da_read = read_raw_ap_register cfg (arm_calls cfg n) ap,
      da_write = write_raw_ap_register cfg (arm_calls cfg n) ap,
      da_access = access_raw_ap_registers cfg (arm_calls cfg n) ap,
      da_flush = sret (),
      da_epoch = ai_epoch,
      da_take_ap = take_memory_ap ap,
      da_store_ap = store_memory_ap ap\<rparr>"

subsection \<open>The stock start sequence\<close>

text \<open>\<open>ArmDebugSequence::debug_port_start_default\<close> of probe-rs/src/architecture/arm/sequences.rs.\<close>

definition prog_read :: "dp_address \<Rightarrow> dp_register_address \<Rightarrow> (u32 \<Rightarrow> 't dap_program) \<Rightarrow> 't dap_program" where
  "prog_read dp reg k = ReadDp dp reg (\<lambda>r. case r of Ok x \<Rightarrow> k x | Err e \<Rightarrow> Finish (Err e) | Panic \<Rightarrow> Finish Panic)"

definition prog_write :: "dp_address \<Rightarrow> dp_register_address \<Rightarrow> u32 \<Rightarrow> 't dap_program \<Rightarrow> 't dap_program" where
  "prog_write dp reg v k = WriteDp dp reg v (\<lambda>r. case r of Ok _ \<Rightarrow> k | Err e \<Rightarrow> Finish (Err e) | Panic \<Rightarrow> Finish Panic)"

definition power_up_value :: "u32 \<Rightarrow> u32" where
  "power_up_value idr =
     (let ctrl = flag_set 30 True (flag_set 28 True 0) in if idr_min idr then ctrl else reg_set 11 8 15 ctrl)"

definition power_up_done :: "dp_address \<Rightarrow> u32 \<Rightarrow> 't dap_program" where
  "power_up_done dp ctrl =
     prog_write dp dp_ctrl ctrl (prog_read dp dp_ctrl (\<lambda>c.
       Finish (if ctrl_powered c then Ok () else Err TargetPowerUpFailed)))"

definition on_nack ::
  "(dp_address \<Rightarrow> ('t, arm_error, unit) rsm) \<Rightarrow> dp_address \<Rightarrow> arm_error \<Rightarrow> 't dap_program \<Rightarrow> 't dap_program" where
  "on_nack connect dp e k =
     (if e = ArmDap DapNoAcknowledge
      then Reconnect (connect dp) (\<lambda>r. case r of
             Ok _ \<Rightarrow> k
           | Err e' \<Rightarrow> Finish (Err (if e' = ArmNotImplemented then e else e'))
           | Panic \<Rightarrow> Finish Panic)
      else Finish (Err e))"

text \<open>One second passes within \<open>polls\<close> rounds of the loop.\<close>

primrec poll_power ::
  "(dp_address \<Rightarrow> ('t, arm_error, unit) rsm) \<Rightarrow> dp_address \<Rightarrow> u32 \<Rightarrow> nat \<Rightarrow> (arm_error, unit) res \<Rightarrow> 't dap_program" where
  "poll_power connect dp ctrl 0 err = Finish (Err ArmTimeout)"
| "poll_power connect dp ctrl (Suc polls) err =
     (case err of
        Err e \<Rightarrow> on_nack connect dp e (poll_power connect dp ctrl polls (Ok ()))
      | Panic \<Rightarrow> Finish Panic
      | Ok _ \<Rightarrow>
          ReadDp dp dp_ctrl (\<lambda>r. case r of
            Ok c \<Rightarrow> if ctrl_powered c then power_up_done dp ctrl else poll_power connect dp ctrl polls (Ok ())
          | Err e \<Rightarrow> on_nack connect dp e (poll_power connect dp ctrl polls (Ok ()))
          | Panic \<Rightarrow> Finish Panic))"

definition power_up ::
  "(dp_address \<Rightarrow> ('t, arm_error, unit) rsm) \<Rightarrow> nat \<Rightarrow> dp_address \<Rightarrow> u32 \<Rightarrow> 't dap_program" where
  "power_up connect polls dp idr =
     WriteDp dp dp_ctrl (power_up_value idr) (poll_power connect dp (power_up_value idr) polls)"

definition debug_port_start_default ::
  "(dp_address \<Rightarrow> ('t, arm_error, unit) rsm) \<Rightarrow> nat \<Rightarrow> dp_address \<Rightarrow> 't dap_program" where
  "debug_port_start_default connect polls dp =
     prog_write dp dp_select 0 (prog_read dp dp_idr (\<lambda>idr. prog_read dp dp_ctrl (\<lambda>ctrl.
       if idr_version idr = 0 \<or> idr_designer idr = 0
       then prog_write dp dp_abort 1 (prog_write dp dp_ctrl 0x32 (power_up connect polls dp idr))
       else prog_write dp dp_abort 0x1F
              (if ctrl_powered ctrl then Finish (Ok ()) else power_up connect polls dp idr))))"

end
