(* ===== verification/Arm_Select.thy ===== *)
theory Arm_Select
  imports Arm_Dap Swd_Retry
begin

text \<open>
  A debug port with a SELECT register, and what the interface knows of it: the copy of SELECT that the
  interface keeps is the register, whenever it is marked valid and the link is up, and an access goes
  to the AP register that was asked for.
\<close>

subsection \<open>A debug port with SELECT\<close>

text \<open>The registers of all APs, by one address each; a write returns what it leaves in the read buffer.\<close>

record 'm ap_space =
  as_read :: "nat \<Rightarrow> 'm \<Rightarrow> u32 \<times> 'm"
  as_write :: "nat \<Rightarrow> u32 \<Rightarrow> 'm \<Rightarrow> u32 \<times> 'm"

record 'm dp_target =
  dt_select :: u32
  dt_select1 :: u32
  dt_values :: "u8 \<times> u32 \<Rightarrow> u32"
  dt_aps :: 'm

definition dt_bank :: "u8 \<Rightarrow> 'm dp_target \<Rightarrow> u32" where
  "dt_bank a r = (if a = 0 \<or> a = 4 then reg_get 3 0 (dt_select r) else 0)"

text \<open>The AP register behind the register address \<open>a\<close> of an AP transfer.\<close>

definition selected :: "bool \<Rightarrow> u32 \<Rightarrow> u32 \<Rightarrow> u8 \<Rightarrow> nat" where
  "selected v3 w w1 a =
     (if v3 then unat w1 * 2 ^ 32 + unat (reg_get 31 4 w) * 16 + unat a
      else unat (reg_get 31 24 w) * 256 + unat (reg_get 7 4 w) * 16 + unat a)"

definition dp_put :: "bool \<Rightarrow> u8 \<Rightarrow> u32 \<Rightarrow> 'm dp_target \<Rightarrow> 'm dp_target" where
  "dp_put v3 a v r =
     (if a = 8 then r\<lparr>dt_select := v\<rparr>
      else if v3 \<and> a = 4 \<and> dt_bank 4 r = 5 then r\<lparr>dt_select1 := v\<rparr>
      else r\<lparr>dt_values := (dt_values r)((a, dt_bank a r) := v)\<rparr>)"

definition dp_regs :: "bool \<Rightarrow> 'm ap_space \<Rightarrow> 'm dp_target adi_regs" where
  "dp_regs v3 space =
     \<lparr>ar_dp_read = (\<lambda>a r. dt_values r (a, dt_bank a r)),
      ar_dp_write = dp_put v3,
      ar_ap_read = (\<lambda>a r. case as_read space (selected v3 (dt_select r) (dt_select1 r) a) (dt_aps r) of
                       (x, m) \<Rightarrow> (x, r\<lparr>dt_aps := m\<rparr>)),
      ar_ap_write = (\<lambda>a v r. case as_write space (selected v3 (dt_select r) (dt_select1 r) a) v (dt_aps r) of
                       (x, m) \<Rightarrow> (x, r\<lparr>dt_aps := m\<rparr>))\<rparr>"

text \<open>Accesses of AP registers, one after the other.\<close>

fun hw_list :: "'r adi_regs \<Rightarrow> (u8 \<times> u32 option) list \<Rightarrow> 'r \<Rightarrow> u32 list \<times> 'r" where
  "hw_list regs [] r = ([], r)"
| "hw_list regs ((a, None) # acs) r =
     (case ar_ap_read regs a r of (x, r) \<Rightarrow> (case hw_list regs acs r of (xs, r) \<Rightarrow> (x # xs, r)))"
| "hw_list regs ((a, Some v) # acs) r = hw_list regs acs (snd (ar_ap_write regs a v r))"

fun space_list :: "'m ap_space \<Rightarrow> (nat \<times> u32 option) list \<Rightarrow> 'm \<Rightarrow> u32 list \<times> 'm" where
  "space_list space [] m = ([], m)"
| "space_list space ((l, None) # acs) m =
     (case as_read space l m of (x, m) \<Rightarrow> (case space_list space acs m of (xs, m) \<Rightarrow> (x # xs, m)))"
| "space_list space ((l, Some v) # acs) m = space_list space acs (snd (as_write space l v m))"

lemma hw_list_space:
  "hw_list (dp_regs v3 space) acs r =
     (case space_list space (map (\<lambda>(a, x). (selected v3 (dt_select r) (dt_select1 r) a, x)) acs) (dt_aps r) of
        (xs, m) \<Rightarrow> (xs, r\<lparr>dt_aps := m\<rparr>))"
proof (induction acs arbitrary: r)
  case (Cons ac acs)
  then show ?case by (cases ac; cases "snd ac") (auto simp: dp_regs_def split: prod.split)
qed simp

subsection \<open>What a transport does\<close>

datatype dap_access =
    ReadReg register_address
  | WriteReg register_address u32
  | ReadRepeat u8 nat
  | WriteRepeat u8 "u32 list"
  | AccessList ap_accesses

fun tr_do :: "'t dap_transport \<Rightarrow> dap_access \<Rightarrow> ('t, arm_error, u32 list) rsm" where
  "tr_do tp (ReadReg r) = sbind (tr_read tp r) (\<lambda>x. sret [x])"
| "tr_do tp (WriteReg r v) = sbind (tr_write tp r v) (\<lambda>_. sret [])"
| "tr_do tp (ReadRepeat a n) = tr_read_repeated tp a n"
| "tr_do tp (WriteRepeat a vs) = sbind (tr_write_repeated tp a vs) (\<lambda>_. sret [])"
| "tr_do tp (AccessList acs) = (case tr_batch tp of None \<Rightarrow> slift Panic | Some batch \<Rightarrow> batch acs)"

definition ap_place :: "u8 \<Rightarrow> u8" where "ap_place a = a2_and_3 (ApRegister a)"

fun hw_do :: "'r adi_regs \<Rightarrow> dap_access \<Rightarrow> 'r \<Rightarrow> u32 list \<times> 'r" where
  "hw_do regs (ReadReg (DpRegister d)) r = ([ar_dp_read regs (dr_address d) r], r)"
| "hw_do regs (WriteReg (DpRegister d) v) r = ([], if dr_address d = 0 then r else ar_dp_write regs (dr_address d) v r)"
| "hw_do regs (ReadReg (ApRegister a)) r = hw_list regs [(ap_place a, None)] r"
| "hw_do regs (WriteReg (ApRegister a) v) r = hw_list regs [(ap_place a, Some v)] r"
| "hw_do regs (ReadRepeat a n) r = hw_list regs (replicate n (ap_place a, None)) r"
| "hw_do regs (WriteRepeat a vs) r = hw_list regs (map (\<lambda>v. (ap_place a, Some v)) vs) r"
| "hw_do regs (AccessList acs) r = hw_list regs (map (\<lambda>(a, x). (ap_place (ap_register a), x)) acs) r"

text \<open>The registers of a debug port that are accessed through the interface: all but the read buffer.\<close>

definition dp_reg_ok :: "dp_register_address \<Rightarrow> bool" where
  "dp_reg_ok d \<longleftrightarrow> dr_address d \<in> {0, 4, 8} \<and>
     (case dr_bank d of None \<Rightarrow> True | Some b \<Rightarrow> b < 16 \<and> (dr_address d = 8 \<longrightarrow> b = 0))"

fun access_ok :: "'t dap_transport \<Rightarrow> dap_access \<Rightarrow> bool" where
  "access_ok tp (ReadReg (DpRegister d)) = dp_reg_ok d"
| "access_ok tp (WriteReg (DpRegister d) v) = dp_reg_ok d"
| "access_ok tp (ReadRepeat a n) = (n \<noteq> 0)"
| "access_ok tp (WriteRepeat a vs) = (vs \<noteq> [])"
| "access_ok tp (AccessList acs) = (acs \<noteq> [] \<and> tr_batch tp \<noteq> None)"
| "access_ok tp _ = True"

fun is_ap_access :: "dap_access \<Rightarrow> bool" where
  "is_ap_access (ReadReg (DpRegister d)) = False"
| "is_ap_access (WriteReg (DpRegister d) v) = False"
| "is_ap_access _ = True"

text \<open>The accesses that change the selection.\<close>

fun selects :: "bool \<Rightarrow> dap_access \<Rightarrow> 'm dp_target \<Rightarrow> bool" where
  "selects v3 (WriteReg (DpRegister d) v) r = (dr_address d = 8 \<or> v3 \<and> dr_address d = 4 \<and> dt_bank 4 r = 5)"
| "selects v3 _ r = False"

definition same_select :: "'m dp_target \<Rightarrow> 'm dp_target \<Rightarrow> bool" where
  "same_select r r' \<longleftrightarrow> dt_select r' = dt_select r \<and> dt_select1 r' = dt_select1 r"

lemma ap_access_select:
  assumes "is_ap_access acc" "hw_do (dp_regs v3 space) acc r = (xs, r')"
  shows "same_select r r' \<and> dt_values r' = dt_values r"
  using assms by (cases "(dp_regs v3 space, acc, r)" rule: hw_do.cases)
    (auto simp: hw_list_space same_select_def simp del: hw_list.simps split: prod.splits)

lemma dp_regs_simps [simp]:
  "ar_dp_read (dp_regs v3 space) a r = dt_values r (a, dt_bank a r)"
  "ar_dp_write (dp_regs v3 space) = dp_put v3"
  by (simp_all add: dp_regs_def)

lemma unselected_write: "\<not> selects v3 (WriteReg (DpRegister d) v) r \<Longrightarrow> same_select r (dp_put v3 (dr_address d) v r) \<and> dt_aps (dp_put v3 (dr_address d) v r) = dt_aps r"
  by (auto simp: dp_put_def same_select_def)

subsection \<open>Placing an address\<close>

fun ap_location :: "bool \<Rightarrow> ap_address \<Rightarrow> nat \<Rightarrow> nat option" where
  "ap_location False (ApV1 port) a = Some (unat port * 256 + a mod 256)"
| "ap_location True (ApV1 port) a = (if port = 0 \<and> a < 2 ^ 64 then Some a else None)"
| "ap_location True (ApV2 base) a =
     (let b = (case base of None \<Rightarrow> 0 | Some b \<Rightarrow> b) in if 16 dvd b \<and> b + a < 2 ^ 64 then Some (b + a) else None)"
| "ap_location False (ApV2 base) a = None"

fun select1_word :: "select_cache \<Rightarrow> u32" where
  "select1_word (DPv1 w) = 0"
| "select1_word (DPv3 w w1) = w1"

fun is_v3 :: "select_cache \<Rightarrow> bool" where
  "is_v3 (DPv1 w) = False"
| "is_v3 (DPv3 w w1) = True"

lemma twelve_bits: "bit (12 :: u8) k \<longleftrightarrow> k = 2 \<or> k = 3"
proof -
  have eq: "(12 :: u8) = push_bit 2 (mask 2)" by (simp add: mask_eq_exp_minus_1 push_bit_eq_mult)
  have "bit (12 :: u8) k \<longleftrightarrow> 2 \<le> k \<and> k < 8 \<and> k - 2 < 2" unfolding eq by (simp only: bit_simps) auto
  then show ?thesis by auto
qed

lemma unat_ap_place:
  assumes "4 dvd a"
  shows "unat (ap_place (ap_register a)) = a mod 16"
proof -
  have four: "\<not> bit a 0" "\<not> bit a 1"
  proof -
    obtain q where "a = push_bit 2 q" using assms by (auto simp: push_bit_eq_mult mult.commute elim!: dvdE)
    then show "\<not> bit a 0" "\<not> bit a 1" by (simp_all add: bit_simps)
  qed
  have "ap_place (ap_register a) = (of_nat (take_bit 4 a) :: u8)"
  proof (rule bit_word_eqI)
    fix k assume k: "k < LENGTH(8)"
    have "bit (of_nat (a mod 256) :: u8) k = bit a k"
      using k by (simp add: bit_simps flip: take_bit_eq_mod [of 8 a, simplified])
    moreover have "k < 4 \<longleftrightarrow> k = 0 \<or> k = 1 \<or> k = 2 \<or> k = 3" by auto
    moreover have "bit (ap_place (ap_register a)) k \<longleftrightarrow> bit (of_nat (a mod 256) :: u8) k \<and> (k = 2 \<or> k = 3)"
      by (simp only: ap_place_def a2_and_3_def ap_register_def reg_lsb.simps bit_and_iff twelve_bits)
    ultimately show "bit (ap_place (ap_register a)) k = bit (of_nat (take_bit 4 a) :: u8) k"
      using four k by (auto simp: bit_of_nat_iff bit_take_bit_iff)
  qed
  moreover have "unat (of_nat (take_bit 4 a) :: u8) = take_bit 4 a" by (simp add: unat_of_nat take_bit_eq_mod)
  ultimately show ?thesis by (simp add: take_bit_eq_mod)
qed

lemma reg_fields:
  "reg_get 31 24 (reg_set 3 0 x (reg_set 7 4 y (reg_set 31 24 z w))) = take_bit 8 z"
  "reg_get 7 4 (reg_set 3 0 x (reg_set 7 4 y v)) = take_bit 4 y"
  "reg_get 31 4 (reg_set 3 0 x (reg_set 31 4 y w)) = take_bit 28 y"
  "reg_get 3 0 (reg_set 3 0 x w) = take_bit 4 x"
  by (rule bit_word_eqI; auto simp: reg_get_def reg_set_def bit_simps)+

lemma unat_take_bit: "unat (take_bit n w) = unat (w :: u32) mod 2 ^ n"
proof -
  have "unat (take_bit n w) = take_bit n (unat w)" by (rule unsigned_take_bit_eq)
  then show ?thesis by (simp only: take_bit_eq_mod [of n "unat w"])
qed

lemma placed_v1:
  assumes "x div 16 = a div 16" "4 dvd x" "c = cache_set_bank 0 (DPv1 (reg_set 7 4 (of_nat (a mod 256 div 16)) (reg_set 31 24 (ucast (port :: u8)) w)))"
  shows "selected False (select_word c) (select1_word c) (ap_place (ap_register x)) = unat port * 256 + x mod 256"
proof -
  have "unat (take_bit 4 (of_nat (a mod 256 div 16)) :: u32) = a mod 256 div 16"
    unfolding unat_take_bit by (simp add: unat_of_nat)
  moreover have "unat (take_bit 8 (ucast port :: u32)) = unat port"
  proof -
    have "unat port < 2 ^ LENGTH(8)" by (rule unsigned_less)
    then have "unat port < 256" by simp
    then show ?thesis unfolding unat_take_bit by (simp add: unsigned_ucast_eq take_bit_eq_mod)
  qed
  moreover have "a mod 256 div 16 * 16 + x mod 16 = x mod 256"
    using mod_mult2_eq [of x 16 16] mod_mult2_eq [of a 16 16] assms(1) by simp
  ultimately show ?thesis by (simp add: assms(3) selected_def reg_fields unat_ap_place [OF assms(2)])
qed

lemma placed_v3:
  assumes "(b + x) div 16 = A div 16" "A < 2 ^ 64" "4 dvd x" "16 dvd b" "c = cache_set_bank 0 (place_v3 A w)"
  shows "selected True (select_word c) (select1_word c) (ap_place (ap_register x)) = b + x"
proof -
  have "unat (take_bit 28 (of_nat (A div 16 mod 2 ^ 32)) :: u32) = A div 16 mod 2 ^ 28"
    unfolding unat_take_bit by (simp add: unat_of_nat mod_mod_cancel)
  moreover have "unat (of_nat (A div 2 ^ 32) :: u32) = A div 2 ^ 32"
    using assms(2) by (simp add: unat_of_nat div_less_iff_less_mult)
  moreover have "A div 2 ^ 32 * 2 ^ 32 + A div 16 mod 2 ^ 28 * 16 + x mod 16 = b + x"
  proof -
    obtain q where q: "b = 16 * q" using assms(4) by blast
    have "A div 16 = q + x div 16" using assms(1) q by simp
    moreover have "A div 2 ^ 32 = A div 16 div 2 ^ 28" by (simp add: div_mult2_eq [symmetric])
    moreover have "n div 2 ^ 28 * 2 ^ 32 + n mod 2 ^ 28 * 16 = n * 16" for n :: nat
    proof -
      have "n * 16 = (n div 2 ^ 28 * 2 ^ 28 + n mod 2 ^ 28) * 16" by (simp only: div_mult_mod_eq)
      also have "\<dots> = n div 2 ^ 28 * (2 ^ 28 * 16) + n mod 2 ^ 28 * 16" by (simp only: add_mult_distrib mult.assoc)
      also have "(2 ^ 28 * 16 :: nat) = 2 ^ 32" by simp
      finally show ?thesis by (rule sym)
    qed
    ultimately show ?thesis using q by simp
  qed
  ultimately show ?thesis by (simp add: assms(5) place_v3_def selected_def reg_fields unat_ap_place [OF assms(3)])
qed

text \<open>Once a cache has been placed for one register, all registers of its bank are where they should be.\<close>

lemma place_ap_located:
  assumes "place_ap p a c = Ok c1" "is_v3 c = v3" "ap_location v3 p x = Some l" "x div 16 = a div 16" "4 dvd x" "a < 2 ^ 64"
  shows "selected v3 (select_word (cache_set_bank 0 c1)) (select1_word (cache_set_bank 0 c1)) (ap_place (ap_register x)) = l"
proof (cases "(v3, p, c)" rule: prod_cases3)
  case (fields v p' c')
  show ?thesis
  proof (cases c)
    case (DPv1 w)
    then have "\<not> v3" using assms(2) by auto
    moreover from this obtain port where port: "p = ApV1 port" using assms(3) by (cases p) auto
    ultimately show ?thesis using assms(1,3) DPv1 placed_v1 [OF assms(4,5) refl, of port w] by auto
  next
    case (DPv3 w w1)
    then have v3: "v3" using assms(2) by auto
    show ?thesis
    proof (cases p)
      case (ApV1 port)
      then show ?thesis using assms DPv3 v3 placed_v3 [of 0 x a] by (auto split: if_splits)
    next
      case (ApV2 base)
      define b where "b = (case base of None \<Rightarrow> 0 | Some b \<Rightarrow> b)"
      have b: "16 dvd b" "l = b + x" using assms(3) ApV2 v3 by (auto simp: b_def [symmetric] Let_def split: if_splits)
      obtain q where "b = 16 * q" using b(1) by blast
      then have "(b + x) div 16 = (b + a) div 16" using assms(4) by simp
      moreover have "b + a < 2 ^ 64" "c1 = place_v3 (b + a) w"
        using assms(1) ApV2 DPv3 by (auto simp: b_def [symmetric] add_w_def split: if_splits)
      ultimately show ?thesis using placed_v3 [of b x "b + a"] b assms(5) v3 by auto
    qed
  qed
qed

lemma place_ap_kind: "place_ap p a c = Ok c1 \<Longrightarrow> is_v3 (cache_set_bank b c1) = is_v3 c"
  by (cases "(p, a, c)" rule: place_ap.cases) (auto simp: place_v3_def split: if_splits res.splits)

lemma place_ap_none_lost: "place_ap p a c = Err e \<Longrightarrow> \<not> is_link_lost e"
  by (cases "(p, a, c)" rule: place_ap.cases) (auto simp: add_w_def split: if_splits)

lemma unselected_same:
  assumes "\<not> selects v3 acc r" "hw_do (dp_regs v3 space) acc r = (xs, r')"
  shows "same_select r r'"
proof (cases "is_ap_access acc")
  case True
  then show ?thesis using ap_access_select assms(2) by blast
next
  case False
  then show ?thesis
    using assms unselected_write [of v3]
    by (cases acc rule: is_ap_access.cases) (auto simp: same_select_def split: if_splits)
qed

lemma bank_set: "b < 16 \<Longrightarrow> reg_get 3 0 (select_word (cache_set_bank b c)) = ucast (b :: u8)"
proof -
  assume "b < 16"
  then have "unat b < 2 ^ 4" by (simp add: word_less_nat_alt)
  then have "unat (ucast b :: u32) mod 2 ^ 4 = unat (ucast b :: u32)" by (simp add: unsigned_ucast_eq take_bit_eq_mod)
  then have "take_bit 4 (ucast b :: u32) = ucast b" by (simp only: word_unat_eq_iff unat_take_bit)
  then show ?thesis by (cases c) (simp_all add: reg_fields)
qed

lemma bank_cached: "reg_get 3 0 (select_word c) = ucast (cache_bank c)"
  by (rule bit_word_eqI) (auto simp: cache_bank_def reg_get_def bit_simps)

lemma set_bank_kind [simp]: "is_v3 (cache_set_bank b c) = is_v3 c" "select1_word (cache_set_bank b c) = select1_word c"
  by (cases c; simp)+

lemma bank5: "(ucast (b :: u8) :: u32) = 5 \<longleftrightarrow> b = 5"
proof
  assume "(ucast b :: u32) = 5"
  then have "unat (ucast b :: u32) = 5" by simp
  moreover have "unat b < 2 ^ LENGTH(8)" by (rule unsigned_less)
  ultimately have "unat b = 5" by (simp add: unsigned_ucast_eq take_bit_eq_mod)
  then show "b = 5" by (simp add: word_unat_eq_iff)
qed simp

end
