(* ===== verification/Arm_Sync.thy ===== *)
theory Arm_Sync
  imports Arm_Select
begin

text \<open>
  The steps of the interface on a connected debug port, and the invariant of its copy of SELECT:
  every access, also one that fails, leaves a copy that is either marked as unknown or is the register.
\<close>

subsection \<open>A connected debug port\<close>

declare arm_calls.simps [simp del]

lemma arm_calls_Suc:
  "dc_read_dp (arm_calls cfg (Suc n)) = read_raw_dp_register cfg (arm_calls cfg n)"
  "dc_write_dp (arm_calls cfg (Suc n)) = write_raw_dp_register cfg (arm_calls cfg n)"
  by (simp_all add: arm_calls.simps)

definition connected :: "dp_address \<Rightarrow> dp_state \<Rightarrow> 't arm_interface \<Rightarrow> bool" where
  "connected dp st s \<longleftrightarrow> ai_current s = Some dp \<and> ai_dps s dp = Some st"

definition with_dp :: "dp_address \<Rightarrow> 't \<Rightarrow> dp_state \<Rightarrow> 't arm_interface \<Rightarrow> 't arm_interface" where
  "with_dp dp t st s = s\<lparr>ai_transport := t, ai_dps := (ai_dps s)(dp \<mapsto> st)\<rparr>"

lemma with_dp_simps [simp]:
  "ai_transport (with_dp dp t st s) = t" "ai_current (with_dp dp t st s) = ai_current s"
  "ai_dps (with_dp dp t st s) = (ai_dps s)(dp \<mapsto> st)" "ai_epoch (with_dp dp t st s) = ai_epoch s"
  "with_dp dp t st (with_dp dp t' st' s) = with_dp dp t st s"
  by (simp_all add: with_dp_def)

lemma with_dp_same: "connected dp st s \<Longrightarrow> with_dp dp (ai_transport s) st s = s"
  by (simp add: with_dp_def connected_def fun_upd_idem)

lemma connected_with_dp [simp]: "connected dp st s \<Longrightarrow> connected dp st' (with_dp dp t st' s)"
  by (simp add: connected_def)

lemma transport_with_dp: "connected dp st s \<Longrightarrow> s\<lparr>ai_transport := t\<rparr> = with_dp dp t st s"
  by (simp add: with_dp_def connected_def fun_upd_idem)

lemma on_transport_with_dp:
  "connected dp st s \<Longrightarrow> on_transport m s = (case m (ai_transport s) of (r, t) \<Rightarrow> (r, with_dp dp t st s))"
  by (simp add: on_transport_def transport_with_dp)

lemma update_with_dp: "connected dp st s \<Longrightarrow> update_dp dp f s = with_dp dp (ai_transport s) (f st) s"
  by (simp add: update_dp_def connected_def with_dp_def)

lemma select_dp_connected: "connected dp st s \<Longrightarrow> select_dp cfg calls dp s = (Ok st, s)"
  by (simp add: select_dp_def switch_dp_def connected_def sbind_def)

definition reg_bank :: "dp_register_address \<Rightarrow> u8" where
  "reg_bank reg = (case dr_bank reg of None \<Rightarrow> 0 | Some b \<Rightarrow> b)"

definition sync_state :: "dp_register_address \<Rightarrow> u32 \<Rightarrow> bool \<Rightarrow> dp_state \<Rightarrow> dp_state" where
  "sync_state reg value wrote st =
     (if \<not> (dr_address reg = 8 \<and> reg_bank reg = 0) \<and> \<not> (dr_address reg = 4 \<and> dr_bank reg = Some 5) then st
      else if \<not> wrote then st\<lparr>ds_valid := False\<rparr>
      else st\<lparr>ds_select :=
                (case ds_select st of
                   DPv1 w \<Rightarrow> (if dr_address reg = 8 \<and> reg_bank reg = 0 then DPv1 value else DPv1 w)
                 | DPv3 w w1 \<Rightarrow> (if dr_address reg = 8 \<and> reg_bank reg = 0 then DPv3 value w1 else DPv3 w value)),
              ds_valid := True\<rparr>)"

lemma sync_with_dp:
  "connected dp st s \<Longrightarrow> sync_select_cache dp reg v ok s = with_dp dp (ai_transport s) (sync_state reg v ok st) s"
  by (cases "ds_select st")
    (auto simp: sync_select_cache_def sync_state_def reg_bank_def Let_def update_with_dp with_dp_same)

lemma dp_select_simps [simp]:
  "dr_address dp_select = 8" "reg_bank dp_select = 0" "dr_address dp_select1 = 4" "reg_bank dp_select1 = 5"
  "dr_bank dp_select1 = Some 5"
  by (simp_all add: dp_registers reg_bank_def)

text \<open>A write of a register that needs no bank.\<close>

lemma write_plain:
  assumes "connected dp st s" "dr_address reg \<noteq> 0" "dr_address reg \<noteq> 4"
  shows "write_raw_dp_register cfg calls dp reg v s
    = (case tr_write (cf_transport cfg) (DpRegister reg) v (ai_transport s) of
         (r, t) \<Rightarrow> (r, with_dp dp t (sync_state reg v (is_ok r) st) s))"
  using assms
  by (simp add: write_raw_dp_register_def select_dp_and_dp_bank_def select_dp_connected sbind_def on_transport_with_dp
      sync_with_dp [of dp st "with_dp dp _ st s"] split: prod.split)

lemma sync_select_cached:
  "sync_state dp_select (select_word c) ok (st\<lparr>ds_select := c\<rparr>) = st\<lparr>ds_select := c, ds_valid := ok\<rparr>"
  by (cases c) (auto simp: sync_state_def dp_select_def reg_bank_def)

text \<open>The write of SELECT that moves to the bank of a register.\<close>

definition needs_bank :: "dp_register_address \<Rightarrow> dp_state \<Rightarrow> bool" where
  "needs_bank reg st \<longleftrightarrow>
     dr_address reg \<in> {0, 4} \<and> (\<not> ds_valid st \<or> reg_bank reg \<noteq> cache_bank (ds_select st))"

lemma bank_step:
  assumes "connected dp st s" "c = cache_set_bank (reg_bank reg) (ds_select st)"
  shows "select_dp_and_dp_bank cfg (arm_calls cfg (Suc n)) dp reg s
    = (if needs_bank reg st
       then (case tr_write (cf_transport cfg) (DpRegister dp_select) (select_word c) (ai_transport s) of
               (r, t) \<Rightarrow> (r, with_dp dp t (st\<lparr>ds_select := c, ds_valid := is_ok r\<rparr>) s))
       else (Ok (), s))"
proof -
  let ?s = "with_dp dp (ai_transport s) (st\<lparr>ds_select := c\<rparr>) s"
  have "write_raw_dp_register cfg (arm_calls cfg n) dp dp_select (select_word c) ?s
    = (case tr_write (cf_transport cfg) (DpRegister dp_select) (select_word c) (ai_transport s) of
               (r, t) \<Rightarrow> (r, with_dp dp t (st\<lparr>ds_select := c, ds_valid := is_ok r\<rparr>) s))"
    using write_plain [OF connected_with_dp [OF assms(1)], of dp_select cfg "arm_calls cfg n" "select_word c"]
    by (simp add: sync_select_cached)
  then show ?thesis
    using assms
    by (auto simp: select_dp_and_dp_bank_def select_dp_connected sbind_def needs_bank_def reg_bank_def [symmetric] Let_def
        set_cache_def update_with_dp arm_calls_Suc)
qed

text \<open>The write of SELECT1 and the selection of an AP.\<close>

lemma write_select1:
  fixes s :: "'t arm_interface"
  assumes "connected dp st s" "c = cache_set_bank 5 (ds_select st)"
  shows "write_raw_dp_register cfg (arm_calls cfg (Suc n)) dp dp_select1 v s
    = (let bank = (if needs_bank dp_select1 st
                   then (case tr_write (cf_transport cfg) (DpRegister dp_select) (select_word c) (ai_transport s) of
                           (r, t) \<Rightarrow> (r, st\<lparr>ds_select := c, ds_valid := is_ok r\<rparr>, t))
                   else (Ok (), st, ai_transport s))
       in case bank of
            (Ok _, st', t) \<Rightarrow>
              (case tr_write (cf_transport cfg) (DpRegister dp_select1) v t of
                 (r, t) \<Rightarrow> (r, with_dp dp t (sync_state dp_select1 v (is_ok r) st') s))
          | (r, st', t) \<Rightarrow> (r, with_dp dp t st' s))"
proof -
  have "on_transport m (with_dp dp t st' s) = (case m t of (r, t) \<Rightarrow> (r, with_dp dp t st' s))" for m :: "('t, arm_error, unit) rsm" and t st'
    using on_transport_with_dp [OF connected_with_dp [OF assms(1)], of m t] by (auto split: prod.split)
  moreover have "sync_select_cache dp reg v' ok (with_dp dp t st' s) = with_dp dp t (sync_state reg v' ok st') s" for reg v' ok t st'
    using sync_with_dp [OF connected_with_dp [OF assms(1)], of reg v' ok t st'] by simp
  moreover have "with_dp dp (ai_transport s) st s = s" by (rule with_dp_same [OF assms(1)])
  moreover note on_transport_with_dp [OF assms(1), of "tr_write (cf_transport cfg) (DpRegister dp_select1) v"]
  ultimately show ?thesis
    using bank_step [OF assms(1), of c dp_select1 cfg n] assms(2)
    by (auto simp: write_raw_dp_register_def sbind_def Let_def split: prod.splits res.splits)
qed

lemma select_same: "ds_select st = c \<Longrightarrow> st\<lparr>ds_select := c\<rparr> = st"
  by (cases st) simp

lemma select_ap_step:
  assumes "connected dp st s" "fq_dp ap = dp"
  shows "select_ap_and_ap_bank cfg calls ap a s
    = (case place_ap (fq_ap ap) a (ds_select st) of
         Ok placed \<Rightarrow>
           (let c = cache_set_bank 0 placed in
            if \<not> ds_valid st \<or> ds_select st \<noteq> c
            then write_select calls dp st c (with_dp dp (ai_transport s) (st\<lparr>ds_select := c\<rparr>) s)
            else (Ok (), s))
       | Err e \<Rightarrow> (Err e, s)
       | Panic \<Rightarrow> (Panic, s))"
  using assms with_dp_same [OF assms(1)]
  by (auto simp: select_same select_ap_and_ap_bank_def select_dp_connected sbind_def set_cache_def update_with_dp Let_def
      split: res.split)

subsection \<open>The contract of a transport\<close>

fun cache_true :: "'m dp_target \<Rightarrow> select_cache \<Rightarrow> bool" where
  "cache_true r (DPv1 w) = (dt_select r = w)"
| "cache_true r (DPv3 w w1) = (dt_select r = w \<and> dt_select1 r = w1)"

text \<open>
  While the link is up, an access that succeeds is the access of the registers, and one that fails
  leaves the selection alone unless it was to change it. A target that stops answering does not answer
  again before the link was made anew; what it selects then is not known.
\<close>

declare tr_do.simps [simp del]

locale selecting_transport =
  fixes cfg :: "'t arm_config" and v3 :: bool and space :: "'m ap_space"
    and view :: "'t \<Rightarrow> 'm dp_target" and down :: "'t \<Rightarrow> bool"
  assumes done_law: "\<not> down t \<Longrightarrow> access_ok (cf_transport cfg) acc \<Longrightarrow> tr_do (cf_transport cfg) acc t = (Ok xs, t') \<Longrightarrow>
      \<not> down t' \<and> hw_do (dp_regs v3 space) acc (view t) = (xs, view t')"
    and failed_law: "\<not> down t \<Longrightarrow> access_ok (cf_transport cfg) acc \<Longrightarrow> tr_do (cf_transport cfg) acc t = (Err e, t') \<Longrightarrow>
      (if is_link_lost e then down t' else \<not> down t' \<and> (selects v3 acc (view t) \<or> same_select (view t) (view t')))"
    and down_law: "down t \<Longrightarrow> access_ok (cf_transport cfg) acc \<Longrightarrow>
      \<exists>e t'. tr_do (cf_transport cfg) acc t = (Err e, t') \<and> is_link_lost e \<and> down t'"
    and panic_law: "access_ok (cf_transport cfg) acc \<Longrightarrow> fst (tr_do (cf_transport cfg) acc t) \<noteq> Panic"
    and connect_law: "down t \<Longrightarrow> resynchronize cfg dp t = (Ok (), t') \<Longrightarrow> \<not> down t'"
    and connect_fails: "down t \<Longrightarrow> resynchronize cfg dp t = (Err e, t') \<Longrightarrow> down t'"
    and connect_returns: "down t \<Longrightarrow> fst (resynchronize cfg dp t) \<noteq> Panic"
begin

definition told :: "dp_state \<Rightarrow> 't \<Rightarrow> bool" where
  "told st t \<longleftrightarrow> is_v3 (ds_select st) = v3 \<and> (ds_valid st \<and> \<not> down t \<longrightarrow> cache_true (view t) (ds_select st))"

definition in_sync :: "dp_address \<Rightarrow> 't arm_interface \<Rightarrow> bool" where
  "in_sync dp s \<longleftrightarrow> (\<exists>st. connected dp st s \<and> told st (ai_transport s))"

text \<open>An error that means a lost link leaves the link down.\<close>

definition gone :: "(arm_error, 'b) res \<Rightarrow> 't \<Rightarrow> bool" where
  "gone r t \<longleftrightarrow> (\<forall>e. r = Err e \<longrightarrow> is_link_lost e \<longrightarrow> down t)"

lemma do_gone:
  assumes "access_ok (cf_transport cfg) acc" "tr_do (cf_transport cfg) acc t = (r, t')"
  shows "gone r t'"
  unfolding gone_def
proof (intro allI impI)
  fix e assume e: "r = Err e" "is_link_lost e"
  show "down t'"
  proof (cases "down t")
    case True
    then show ?thesis using down_law [OF True assms(1)] assms(2) by auto
  next
    case False
    then show ?thesis using failed_law [OF False assms(1)] assms(2) e by auto
  qed
qed

lemma gone_rmap [simp]: "gone (rmap f r) t = gone r t"
  by (cases r) (simp_all add: gone_def)

lemma gone_ok [simp]: "gone (Ok x) t"
  by (simp add: gone_def)

lemma write_do:
  "tr_write (cf_transport cfg) r v t = (x, t') \<Longrightarrow> tr_do (cf_transport cfg) (WriteReg r v) t = (rmap (\<lambda>_. []) x, t')"
  by (cases x) (simp_all add: sbind_def tr_do.simps)

lemma select_ok [simp]: "dp_reg_ok dp_select" "dp_reg_ok dp_select1"
  by (simp_all add: dp_reg_ok_def dp_registers)

text \<open>A write of SELECT makes the cached word true.\<close>

lemma select_written:
  assumes "tr_write (cf_transport cfg) (DpRegister dp_select) (select_word c) t = (r, t')" "is_v3 c = v3"
    and "v3 \<Longrightarrow> \<not> down t \<Longrightarrow> dt_select1 (view t) = select1_word c"
  shows "r \<noteq> Panic" "gone r t'" "told (st\<lparr>ds_select := c, ds_valid := is_ok r\<rparr>) t'"
    "is_ok r \<Longrightarrow> \<not> down t \<and> \<not> down t' \<and> dt_select (view t') = select_word c
       \<and> dt_select1 (view t') = dt_select1 (view t) \<and> dt_aps (view t') = dt_aps (view t)"
proof -
  note do = write_do [OF assms(1)]
  have ok: "access_ok (cf_transport cfg) (WriteReg (DpRegister dp_select) (select_word c))" by simp
  show np: "r \<noteq> Panic" using panic_law [OF ok, of t] do by (cases r) auto
  show "gone r t'" using do_gone [OF ok do] by simp
  have fin: "\<not> down t \<and> \<not> down t' \<and> view t' = view t\<lparr>dt_select := select_word c\<rparr>" if "is_ok r"
  proof -
    have r: "r = Ok ()" using that by (cases r) auto
    then have "\<not> down t" using down_law [OF _ ok, of t] do by auto
    from done_law [OF this ok, of "[]" t'] do r show ?thesis using \<open>\<not> down t\<close> by (auto simp: dp_put_def)
  qed
  then show "is_ok r \<Longrightarrow> \<not> down t \<and> \<not> down t' \<and> dt_select (view t') = select_word c
       \<and> dt_select1 (view t') = dt_select1 (view t) \<and> dt_aps (view t') = dt_aps (view t)" by simp
  show "told (st\<lparr>ds_select := c, ds_valid := is_ok r\<rparr>) t'"
    unfolding told_def using fin assms(2,3) by (cases c) auto
qed

text \<open>An access that does not select keeps what is known.\<close>

lemma access_kept:
  assumes "access_ok (cf_transport cfg) acc" "told st t" "\<not> down t \<Longrightarrow> \<not> selects v3 acc (view t)"
    "tr_do (cf_transport cfg) acc t = (r, t')"
  shows "r \<noteq> Panic" "told st t'"
    "gone r t'"
    "r = Ok xs \<Longrightarrow> \<not> down t \<and> \<not> down t' \<and> hw_do (dp_regs v3 space) acc (view t) = (xs, view t')"
proof -
  show "gone r t'" by (rule do_gone [OF assms(1,4)])
  show np: "r \<noteq> Panic" using panic_law [OF assms(1), of t] assms(4) by auto
  show ok: "r = Ok xs \<Longrightarrow> \<not> down t \<and> \<not> down t' \<and> hw_do (dp_regs v3 space) acc (view t) = (xs, view t')" for xs
    using down_law [OF _ assms(1), of t] done_law [OF _ assms(1), of t xs t'] assms(4) by auto
  have "same_select (view t) (view t') \<and> \<not> down t" if "\<not> down t'"
  proof (cases r)
    case (Ok xs)
    then show ?thesis using ok [OF Ok] assms(3) unselected_same by blast
  next
    case (Err e)
    have up: "\<not> down t" using down_law [OF _ assms(1), of t] assms(4) that Err by auto
    then show ?thesis
      using failed_law [OF up assms(1), of e t'] assms(3,4) that Err by (auto split: if_splits)
  qed (use np in simp)
  then show "told st t'"
    using assms(2) unfolding told_def by (cases "ds_select st") (auto simp: same_select_def)
qed

text \<open>The move to the bank of a debug port register.\<close>

definition bank_good :: "dp_register_address \<Rightarrow> 't \<Rightarrow> dp_state \<Rightarrow> 't \<Rightarrow> bool" where
  "bank_good reg t st' t' \<longleftrightarrow>
     (v3 \<longrightarrow> ds_valid st') \<and> down t' = down t
     \<and> (dr_address reg \<in> {0, 4} \<longrightarrow> ds_valid st' \<and> (\<not> down t' \<longrightarrow> dt_bank (dr_address reg) (view t') = ucast (reg_bank reg)))
     \<and> (\<not> down t' \<longrightarrow> dt_aps (view t') = dt_aps (view t))"

lemma bank_selected:
  assumes "connected dp st s" "told st (ai_transport s)" "v3 \<longrightarrow> ds_valid st" "dp_reg_ok reg"
    "select_dp_and_dp_bank cfg (arm_calls cfg (Suc n)) dp reg s = (r, s')"
  obtains t' st' where "s' = with_dp dp t' st' s" "told st' t'" "r \<noteq> Panic"
    "is_ok r \<longrightarrow> bank_good reg (ai_transport s) st' t'"
proof (cases "needs_bank reg st")
  case False
  then have "s' = with_dp dp (ai_transport s) st s" "r = Ok ()"
    using assms(5) bank_step [OF assms(1) refl] with_dp_same [OF assms(1)] by auto
  moreover have "dt_bank (dr_address reg) (view (ai_transport s)) = ucast (reg_bank reg)"
    if "dr_address reg \<in> {0, 4}" "\<not> down (ai_transport s)"
  proof -
    have "cache_true (view (ai_transport s)) (ds_select st)" "reg_bank reg = cache_bank (ds_select st)"
      using False that assms(2) by (auto simp: needs_bank_def told_def)
    then show ?thesis using that(1) bank_cached [of "ds_select st"] by (cases "ds_select st") (auto simp: dt_bank_def)
  qed
  moreover have "dr_address reg \<in> {0, 4} \<longrightarrow> ds_valid st" using False by (auto simp: needs_bank_def)
  ultimately show ?thesis using that [of "ai_transport s" st] assms(2,3) by (auto simp: bank_good_def)
next
  case True
  define c where "c = cache_set_bank (reg_bank reg) (ds_select st)"
  obtain t' where w: "tr_write (cf_transport cfg) (DpRegister dp_select) (select_word c) (ai_transport s) = (r, t')"
    "s' = with_dp dp t' (st\<lparr>ds_select := c, ds_valid := is_ok r\<rparr>) s"
    using assms(5) bank_step [OF assms(1) c_def] True by (auto split: prod.splits)
  have "v3 \<Longrightarrow> \<not> down (ai_transport s) \<Longrightarrow> dt_select1 (view (ai_transport s)) = select1_word c"
    using assms(2) [unfolded told_def] assms(3) by (cases "ds_select st") (auto simp: c_def)
  moreover have "is_v3 c = v3" using assms(2) by (simp add: c_def told_def)
  ultimately have sel: "r \<noteq> Panic" "told (st\<lparr>ds_select := c, ds_valid := is_ok r\<rparr>) t'"
    "is_ok r \<Longrightarrow> \<not> down (ai_transport s) \<and> \<not> down t' \<and> dt_select (view t') = select_word c
       \<and> dt_select1 (view t') = dt_select1 (view (ai_transport s)) \<and> dt_aps (view t') = dt_aps (view (ai_transport s))"
    using select_written(1,3,4) [OF w(1)] by blast+
  have "reg_bank reg < 16" using assms(4) by (auto simp: dp_reg_ok_def reg_bank_def split: option.splits)
  then show ?thesis using that [OF w(2) sel(2,1)] sel(3) bank_set [of "reg_bank reg"] by (auto simp: c_def dt_bank_def bank_good_def)
qed

text \<open>The words that select an AP.\<close>

lemma write_dp_select:
  assumes "connected dp st s" "is_v3 (ds_select st) = is_v3 c" "select1_word (ds_select st) = select1_word c"
  shows "dc_write_dp (arm_calls cfg (Suc n)) dp dp_select (select_word c) s
    = (case tr_write (cf_transport cfg) (DpRegister dp_select) (select_word c) (ai_transport s) of
         (r, t) \<Rightarrow> (r, with_dp dp t (if is_ok r then st\<lparr>ds_select := c, ds_valid := True\<rparr> else st\<lparr>ds_valid := False\<rparr>) s))"
  using write_plain [OF assms(1), of dp_select cfg "arm_calls cfg n" "select_word c"] assms(2,3)
  by (cases c; cases "ds_select st") (simp_all add: sync_state_def arm_calls_Suc split: prod.split)

text \<open>The write of SELECT1, from whatever is known.\<close>

lemma select1_written:
  assumes "connected dp st s" "ds_select st = DPv3 w w1'" "reg_get 3 0 w = 0" v3
    "dc_write_dp (arm_calls cfg (Suc (Suc n))) dp dp_select1 w1 s = (r, s')"
  obtains t' st' where "s' = with_dp dp t' st' s" "told st' t'" "r \<noteq> Panic" "gone r t'"
    "is_ok r \<Longrightarrow> (\<exists>u. ds_select st' = DPv3 u w1) \<and> \<not> down (ai_transport s) \<and> \<not> down t'
       \<and> dt_select1 (view t') = w1 \<and> dt_aps (view t') = dt_aps (view (ai_transport s))"
proof -
  define c where "c = cache_set_bank 5 (DPv3 w w1')"
  obtain u where c: "c = DPv3 u w1'" "reg_get 3 0 u = 5" using bank_set [of 5 "DPv3 w w1'"] by (simp add: c_def)
  have "needs_bank dp_select1 st" using assms(2,3) by (simp add: needs_bank_def cache_bank_def)
  note eq = write_select1 [OF assms(1), of c cfg n w1, folded arm_calls_Suc, unfolded assms(2), folded c_def, OF refl]
  obtain r1 t1 where w: "tr_write (cf_transport cfg) (DpRegister dp_select) (select_word c) (ai_transport s) = (r1, t1)" by fastforce
  let ?v = "view (ai_transport s)"
  have ok: "access_ok (cf_transport cfg) (WriteReg (DpRegister dp_select) (select_word c))"
    "access_ok (cf_transport cfg) (WriteReg (DpRegister dp_select1) w1)" by simp_all
  have np: "r1 \<noteq> Panic" using panic_law [OF ok(1), of "ai_transport s"] write_do [OF w] by (cases r1) auto
  show ?thesis
  proof (cases "is_ok r1")
    case False
    then have "s' = with_dp dp t1 (st\<lparr>ds_select := c, ds_valid := False\<rparr>) s" "\<not> is_ok r" "r \<noteq> Panic" "r = r1"
      using eq assms(5) w np \<open>needs_bank dp_select1 st\<close> by (auto simp: Let_def split: res.splits)
    moreover have "told (st\<lparr>ds_select := c, ds_valid := False\<rparr>) t1" unfolding told_def using assms(4) c(1) by simp
    moreover have "gone r1 t1" using do_gone [OF ok(1) write_do [OF w]] by simp
    ultimately show ?thesis using that [of t1 "st\<lparr>ds_select := c, ds_valid := False\<rparr>"] by blast
  next
    case True
    then have r1: "r1 = Ok ()" by (cases r1) auto
    obtain t2 where w2: "tr_write (cf_transport cfg) (DpRegister dp_select1) w1 t1 = (r, t2)"
      "s' = with_dp dp t2 (sync_state dp_select1 w1 (is_ok r) (st\<lparr>ds_select := c, ds_valid := True\<rparr>)) s"
      using eq assms(5) w r1 \<open>needs_bank dp_select1 st\<close> by (auto simp: Let_def split: prod.splits)
    have up: "\<not> down (ai_transport s)" using down_law [OF _ ok(1), of "ai_transport s"] write_do [OF w] r1 by auto
    have h1: "\<not> down t1" "view t1 = ?v\<lparr>dt_select := u\<rparr>"
      using done_law [OF up ok(1), of "[]" t1] write_do [OF w] r1 c(1) by (auto simp: dp_put_def)
    have g2: "gone r t2" using do_gone [OF ok(2) write_do [OF w2(1)]] by simp
    have np2: "r \<noteq> Panic" using panic_law [OF ok(2), of t1] write_do [OF w2(1)] by (cases r) auto
    show ?thesis
    proof (cases "is_ok r")
      case False
      then have "told (sync_state dp_select1 w1 (is_ok r) (st\<lparr>ds_select := c, ds_valid := True\<rparr>)) t2"
        unfolding told_def sync_state_def using assms(4) c(1) by simp
      then show ?thesis using that [OF w2(2) _ np2 g2] False by blast
    next
      case ok2: True
      then have "r = Ok ()" by (cases r) auto
      then have h2: "\<not> down t2" "view t2 = ?v\<lparr>dt_select := u, dt_select1 := w1\<rparr>"
        using done_law [OF h1(1) ok(2), of "[]" t2] write_do [OF w2(1)] c(2) h1(2) assms(4)
        by (auto simp: dp_put_def dt_bank_def)
      define st2 where "st2 = sync_state dp_select1 w1 (is_ok r) (st\<lparr>ds_select := c, ds_valid := True\<rparr>)"
      have s2: "ds_select st2 = DPv3 u w1" using c(1) ok2 by (simp add: st2_def sync_state_def)
      then have "told st2 t2" unfolding told_def using assms(4) h2 by simp
      then show ?thesis using that [OF w2(2) [folded st2_def] _ np2 g2] s2 h2 up by auto
    qed
  qed
qed

lemma select_finished:
  assumes "connected dp st s" "is_v3 c = v3" "is_v3 (ds_select st) = v3" "select1_word (ds_select st) = select1_word c"
    "v3 \<Longrightarrow> \<not> down (ai_transport s) \<Longrightarrow> dt_select1 (view (ai_transport s)) = select1_word c"
    "dc_write_dp (arm_calls cfg (Suc n)) dp dp_select (select_word c) s = (r, s')"
  obtains t' st' where "s' = with_dp dp t' st' s" "told st' t'" "r \<noteq> Panic" "gone r t'"
    "is_ok r \<Longrightarrow> ds_select st' = c \<and> ds_valid st' \<and> \<not> down (ai_transport s) \<and> \<not> down t'
       \<and> dt_aps (view t') = dt_aps (view (ai_transport s))"
proof -
  obtain t' where w: "tr_write (cf_transport cfg) (DpRegister dp_select) (select_word c) (ai_transport s) = (r, t')"
    "s' = with_dp dp t' (if is_ok r then st\<lparr>ds_select := c, ds_valid := True\<rparr> else st\<lparr>ds_valid := False\<rparr>) s"
    using assms(6) write_dp_select [OF assms(1), of c n] assms(2-4) by (auto split: prod.splits)
  note sel = select_written [OF w(1) assms(2,5)]
  have "told (if is_ok r then st\<lparr>ds_select := c, ds_valid := True\<rparr> else st\<lparr>ds_valid := False\<rparr>) t'"
    using sel(3) [of st] assms(3) by (auto simp: told_def)
  from that [OF w(2) this sel(1,2)] sel(4) show ?thesis by auto
qed

lemma ap_selected:
  assumes "connected dp st s" "told st (ai_transport s)" "fq_dp ap = dp"
    "select_ap_and_ap_bank cfg (arm_calls cfg (Suc (Suc n))) ap a s = (r, s')" "r \<noteq> Panic"
  obtains t' st' where "s' = with_dp dp t' st' s" "told st' t'" "gone r t'"
    "is_ok r \<Longrightarrow> ds_valid st' \<and> down t' = down (ai_transport s)
       \<and> (\<exists>placed. place_ap (fq_ap ap) a (ds_select st) = Ok placed \<and> ds_select st' = cache_set_bank 0 placed)
       \<and> (\<not> down t' \<longrightarrow> dt_aps (view t') = dt_aps (view (ai_transport s)))"
proof (cases "place_ap (fq_ap ap) a (ds_select st)")
  case (Ok placed)
  define c where "c = cache_set_bank 0 placed"
  have kind: "is_v3 c = v3" using place_ap_kind [OF Ok] assms(2) by (simp add: c_def told_def)
  have stk: "is_v3 (ds_select st) = v3" using assms(2) by (simp add: told_def)
  let ?t = "ai_transport s" and ?st = "st\<lparr>ds_select := c\<rparr>"
  note step = select_ap_step [OF assms(1,3), of cfg "arm_calls cfg (Suc (Suc n))" a, unfolded Ok res.case, folded c_def]
  show ?thesis
  proof (cases "\<not> ds_valid st \<or> ds_select st \<noteq> c")
    case False
    then have "s' = with_dp dp ?t st s" "r = Ok ()" using step assms(4) with_dp_same [OF assms(1)] by (auto simp: Let_def)
    then show ?thesis using that [OF _ assms(2)] Ok False by (auto simp: c_def)
  next
    case True
    then have w: "write_select (arm_calls cfg (Suc (Suc n))) dp st c (with_dp dp ?t ?st s) = (r, s')"
      using step assms(4) by (simp add: Let_def)
    have conn: "connected dp ?st (with_dp dp ?t ?st s)" using assms(1) by simp
    show ?thesis
    proof (cases c)
      case (DPv1 w)
      then have f: "dc_write_dp (arm_calls cfg (Suc (Suc n))) dp dp_select (select_word c) (with_dp dp ?t ?st s) = (r, s')"
        using w by (simp add: write_select_def)
      have nv3: "\<not> v3" "is_v3 (ds_select ?st) = v3" "select1_word (ds_select ?st) = select1_word c" using DPv1 kind by simp_all
      obtain st' t' where one: "s' = with_dp dp t' st' (with_dp dp ?t ?st s)" "told st' t'" "gone r t'"
        "is_ok r \<Longrightarrow> ds_select st' = c \<and> ds_valid st' \<and> \<not> down ?t \<and> \<not> down t' \<and> dt_aps (view t') = dt_aps (view ?t)"
        by (rule select_finished [OF conn kind nv3(2,3) _ f]) (use nv3(1) in simp_all)
      then show ?thesis using that [of t' st'] Ok by (auto simp: c_def [symmetric])
    next
      case (DPv3 w0 w1)
      then have v3: "v3" using kind by simp
      have bank: "reg_get 3 0 w0 = 0" using bank_set [of 0 placed] DPv3 by (simp add: c_def)
      define changed where "changed = (case ds_select st of DPv3 _ p1 \<Rightarrow> p1 \<noteq> w1 | _ \<Rightarrow> True)"
      have steps: "sbind (if \<not> ds_valid st \<or> changed then dc_write_dp (arm_calls cfg (Suc (Suc n))) dp dp_select1 w1 else sret ())
          (\<lambda>_. dc_write_dp (arm_calls cfg (Suc (Suc n))) dp dp_select w0) (with_dp dp ?t ?st s) = (r, s')"
        using w DPv3 by (simp add: write_select_def changed_def)
      show ?thesis
      proof (cases "\<not> ds_valid st \<or> changed")
        case False
        then obtain u where u: "ds_select st = DPv3 u w1" "ds_valid st"
          using stk v3 by (cases "ds_select st") (auto simp: changed_def)
        have s1: "\<not> down ?t \<Longrightarrow> dt_select1 (view ?t) = select1_word c"
          using assms(2) u DPv3 unfolding told_def by simp
        have f: "dc_write_dp (arm_calls cfg (Suc (Suc n))) dp dp_select (select_word c) (with_dp dp ?t ?st s) = (r, s')"
          using steps False DPv3 by simp
        have k: "is_v3 (ds_select ?st) = v3" "select1_word (ds_select ?st) = select1_word c" using kind by simp_all
        obtain st' t' where one: "s' = with_dp dp t' st' (with_dp dp ?t ?st s)" "told st' t'" "gone r t'"
          "is_ok r \<Longrightarrow> ds_select st' = c \<and> ds_valid st' \<and> \<not> down ?t \<and> \<not> down t' \<and> dt_aps (view t') = dt_aps (view ?t)"
          by (rule select_finished [OF conn kind k _ f]) (use s1 in simp_all)
        then show ?thesis using that [of t' st'] Ok by (auto simp: c_def [symmetric])
      next
        case True
        obtain r1 s1 where f: "dc_write_dp (arm_calls cfg (Suc (Suc n))) dp dp_select1 w1 (with_dp dp ?t ?st s) = (r1, s1)" by fastforce
        have c3: "ds_select ?st = DPv3 w0 w1" using DPv3 by simp
        obtain st1 t1 where one:
          "s1 = with_dp dp t1 st1 (with_dp dp ?t ?st s)" "told st1 t1" "r1 \<noteq> Panic" "gone r1 t1"
          "is_ok r1 \<Longrightarrow> (\<exists>u. ds_select st1 = DPv3 u w1) \<and> \<not> down ?t \<and> \<not> down t1
             \<and> dt_select1 (view t1) = w1 \<and> dt_aps (view t1) = dt_aps (view ?t)"
          by (rule select1_written [OF conn c3 bank v3 f], rule that, assumption+, simp)
        show ?thesis
        proof (cases "is_ok r1")
          case False
          then have "r = r1" "s' = s1" using steps True f one(3) by (cases r1; auto simp: sbind_def)+
          then show ?thesis using that [of t1 st1] one False by auto
        next
          case ok: True
          then have "r1 = Ok ()" by (cases r1) auto
          then have "dc_write_dp (arm_calls cfg (Suc (Suc n))) dp dp_select (select_word c) (with_dp dp t1 st1 s) = (r, s')"
            using steps True f one(1) DPv3 by (simp add: sbind_def)
          then have f2: "dc_write_dp (arm_calls cfg (Suc (Suc n))) dp dp_select (select_word c) (with_dp dp t1 st1 s) = (r, s')" .
          have conn1: "connected dp st1 (with_dp dp t1 st1 s)" using assms(1) by simp
          have k: "is_v3 (ds_select st1) = v3" "select1_word (ds_select st1) = select1_word c"
            using one(5) [OF ok] DPv3 v3 by auto
          have "dt_select1 (view t1) = select1_word c" using one(5) [OF ok] DPv3 by simp
          then obtain st' t' where two: "s' = with_dp dp t' st' (with_dp dp t1 st1 s)" "told st' t'" "gone r t'"
            "is_ok r \<Longrightarrow> ds_select st' = c \<and> ds_valid st' \<and> \<not> down t1 \<and> \<not> down t' \<and> dt_aps (view t') = dt_aps (view t1)"
            by (rule_tac select_finished [OF conn1 kind k _ f2]) simp_all
          then show ?thesis using that [of t' st'] one(5) [OF ok] Ok by (auto simp: c_def [symmetric])
        qed
      qed
    qed
  qed
next
  case (Err e)
  then have "s' = with_dp dp (ai_transport s) st s" "\<not> is_ok r" "gone r (ai_transport s)"
    using place_ap_none_lost [OF Err] select_ap_step [OF assms(1,3), of cfg "arm_calls cfg (Suc (Suc n))" a] assms(4) with_dp_same [OF assms(1)]
    by (auto simp: gone_def)
  then show ?thesis using that assms(2) by blast
next
  case Panic
  then show ?thesis using select_ap_step [OF assms(1,3), of cfg "arm_calls cfg (Suc (Suc n))" a] assms(4,5) by auto
qed

end

end
