(* ===== verification/Arm_Access.thy ===== *)
theory Arm_Access
  imports Arm_Sync
begin

text \<open>
  The register accesses of the interface on a connected debug port: they keep the copy of SELECT, and
  an access that succeeds is that of the register that was asked for.
\<close>

context selecting_transport begin

subsection \<open>Registers of the debug port\<close>

lemma in_syncI: "connected dp st s \<Longrightarrow> told st (ai_transport s) \<Longrightarrow> in_sync dp s"
  by (auto simp: in_sync_def)

lemma told_plain: "told (st\<lparr>ds_memory_aps := m\<rparr>) t = told st t" "is_v3 (ds_select st) = v3 \<Longrightarrow> told (st\<lparr>ds_valid := False\<rparr>) t"
  by (simp_all add: told_def)

lemma told_down: "told st t \<Longrightarrow> down t' \<Longrightarrow> told st t'"
  by (simp add: told_def)

text \<open>The write of a register once its bank is selected.\<close>

lemma written_told:
  assumes "told st t" "v3 \<longrightarrow> ds_valid st" "dp_reg_ok reg" "tr_write (cf_transport cfg) (DpRegister reg) v t = (r, t')"
    "dr_address reg \<in> {0, 4} \<longrightarrow> ds_valid st \<and> (\<not> down t \<longrightarrow> dt_bank (dr_address reg) (view t) = ucast (reg_bank reg))"
  shows "told (sync_state reg v (is_ok r) st) t'" "r \<noteq> Panic" "is_ok r \<Longrightarrow> v3 \<longrightarrow> ds_valid (sync_state reg v (is_ok r) st)"
proof -
  have ok: "access_ok (cf_transport cfg) (WriteReg (DpRegister reg) v)" using assms(3) by simp
  note do = write_do [OF assms(4)]
  show np: "r \<noteq> Panic" using panic_law [OF ok, of t] do by (cases r) auto
  have kind: "is_v3 (ds_select st) = v3" using assms(1) by (simp add: told_def)
  show "told (sync_state reg v (is_ok r) st) t'"
  proof (cases "is_ok r")
    case True
    then have "r = Ok ()" by (cases r) auto
    then have up: "\<not> down t" using down_law [OF _ ok, of t] do by auto
    from done_law [OF up ok, of "[]" t'] do \<open>r = Ok ()\<close>
    have hw: "\<not> down t'" "view t' = (if dr_address reg = 0 then view t else dp_put v3 (dr_address reg) v (view t))" by auto
    have cached: "ds_valid st \<Longrightarrow> cache_true (view t) (ds_select st)" using assms(1) up by (simp add: told_def)
    consider "dr_address reg = 8" "reg_bank reg = 0" | "dr_address reg = 4" "dr_bank reg = Some 5"
      | "\<not> (dr_address reg = 8 \<and> reg_bank reg = 0)" "\<not> (dr_address reg = 4 \<and> dr_bank reg = Some 5)" by blast
    then show ?thesis
    proof cases
      case 1
      then show ?thesis
        unfolding told_def using kind cached assms(2) hw True
        by (cases "ds_select st") (auto simp: sync_state_def dp_put_def)
    next
      case 2
      then have "reg_bank reg = 5" by (simp add: reg_bank_def)
      then show ?thesis
        unfolding told_def using kind cached assms(5) hw True 2 up
        by (cases "ds_select st") (auto simp: sync_state_def dp_put_def)
    next
      case 3
      then have st: "sync_state reg v (is_ok r) st = st" by (auto simp: sync_state_def)
      have "dr_address reg = 8 \<Longrightarrow> reg_bank reg = 0"
        using assms(3) by (auto simp: dp_reg_ok_def reg_bank_def split: option.splits)
      moreover have "reg_bank reg \<noteq> 5 \<Longrightarrow> (ucast (reg_bank reg) :: u32) \<noteq> 5"
        by (metis (no_types) bank5)
      moreover have "dr_address reg = 4 \<Longrightarrow> reg_bank reg \<noteq> 5" using 3(2) by (auto simp: reg_bank_def split: option.splits)
      ultimately have "dr_address reg \<noteq> 8" "\<not> (dr_address reg = 4 \<and> dt_bank 4 (view t) = 5)"
        using 3(1) assms(5) up by auto
      then have "same_select (view t) (view t')" using hw(2) by (auto simp: same_select_def dp_put_def)
      then show ?thesis
        unfolding told_def st using assms(1) [unfolded told_def] up by (cases "ds_select st") (auto simp: same_select_def)
    qed
  next
    case False
    show ?thesis
    proof (cases "(dr_address reg = 8 \<and> reg_bank reg = 0) \<or> (dr_address reg = 4 \<and> dr_bank reg = Some 5)")
      case True
      then show ?thesis using False kind by (auto simp: sync_state_def told_def)
    next
      case plain: False
      then have st: "sync_state reg v (is_ok r) st = st" by (auto simp: sync_state_def)
      have "\<not> down t \<Longrightarrow> \<not> selects v3 (WriteReg (DpRegister reg) v) (view t)"
        using plain assms(3,5) bank5 by (auto simp: dp_reg_ok_def reg_bank_def split: option.splits)
      from access_kept(2) [OF ok assms(1) this do] st show ?thesis by simp
    qed
  qed
  show "is_ok r \<Longrightarrow> v3 \<longrightarrow> ds_valid (sync_state reg v (is_ok r) st)" using assms(2) by (auto simp: sync_state_def)
qed

lemma write_dp_sync:
  assumes "connected dp st s" "told st (ai_transport s)" "v3 \<longrightarrow> ds_valid st" "dp_reg_ok reg"
    "write_raw_dp_register cfg (arm_calls cfg (Suc n)) dp reg v s = (r, s')"
  obtains t' st' where "s' = with_dp dp t' st' s" "told st' t'" "r \<noteq> Panic" "is_ok r \<Longrightarrow> v3 \<longrightarrow> ds_valid st'"
proof -
  obtain r1 s1 where f: "select_dp_and_dp_bank cfg (arm_calls cfg (Suc n)) dp reg s = (r1, s1)" by fastforce
  obtain st1 t1 where one: "s1 = with_dp dp t1 st1 s" "told st1 t1" "r1 \<noteq> Panic"
    "is_ok r1 \<longrightarrow> bank_good reg (ai_transport s) st1 t1"
    by (rule bank_selected [OF assms(1-4) f])
  show ?thesis
  proof (cases "is_ok r1")
    case False
    then have "s' = s1" "r = r1" using f assms(5) one(3) by (cases r1; auto simp: write_raw_dp_register_def sbind_def)+
    then show ?thesis using that [of t1 st1] one False by auto
  next
    case True
    then have r1: "r1 = Ok ()" by (cases r1) auto
    obtain r2 t2 where w: "tr_write (cf_transport cfg) (DpRegister reg) v t1 = (r2, t2)" by fastforce
    have conn: "connected dp st' (with_dp dp t st' s)" for t st' using assms(1) by simp
    have "r = r2" "s' = with_dp dp t2 (sync_state reg v (is_ok r2) st1) s"
      using assms(5) f r1 one(1) w
      by (auto simp: write_raw_dp_register_def sbind_def on_transport_with_dp [OF conn] sync_with_dp [OF conn])
    then show ?thesis
      using written_told [OF one(2) _ assms(4) w] one(4) True that [of t2 "sync_state reg v (is_ok r2) st1"]
      by (auto simp: bank_good_def)
  qed
qed

lemma read_dp_sync:
  assumes "connected dp st s" "told st (ai_transport s)" "v3 \<longrightarrow> ds_valid st" "dp_reg_ok reg"
    "read_raw_dp_register cfg (arm_calls cfg (Suc n)) dp reg s = (r, s')"
  obtains t' st' where "s' = with_dp dp t' st' s" "told st' t'" "r \<noteq> Panic"
    "\<And>x. r = Ok x \<Longrightarrow> (v3 \<longrightarrow> ds_valid st') \<and> x = dt_values (view t') (dr_address reg, dt_bank (dr_address reg) (view t'))
       \<and> (dr_address reg \<in> {0, 4} \<longrightarrow> dt_bank (dr_address reg) (view t') = ucast (reg_bank reg))
       \<and> dt_aps (view t') = dt_aps (view (ai_transport s))"
proof -
  obtain r1 s1 where f: "select_dp_and_dp_bank cfg (arm_calls cfg (Suc n)) dp reg s = (r1, s1)" by fastforce
  obtain st1 t1 where one: "s1 = with_dp dp t1 st1 s" "told st1 t1" "r1 \<noteq> Panic"
    "is_ok r1 \<longrightarrow> bank_good reg (ai_transport s) st1 t1"
    by (rule bank_selected [OF assms(1-4) f])
  show ?thesis
  proof (cases "is_ok r1")
    case False
    then have "s' = s1" "r \<noteq> Panic" "\<not> is_ok r" using f assms(5) one(3) by (cases r1; auto simp: read_raw_dp_register_def sbind_def)+
    moreover from this have "r \<noteq> Ok x" for x by auto
    ultimately show ?thesis using that [of t1 st1] one by auto
  next
    case True
    then have r1: "r1 = Ok ()" by (cases r1) auto
    obtain r2 t2 where q: "tr_read (cf_transport cfg) (DpRegister reg) t1 = (r2, t2)" by fastforce
    have conn: "connected dp st' (with_dp dp t st' s)" for t st' using assms(1) by simp
    have res: "r = r2" "s' = with_dp dp t2 st1 s"
      using assms(5) f r1 one(1) q
      by (auto simp: read_raw_dp_register_def sbind_def on_transport_with_dp [OF conn])
    have ok: "access_ok (cf_transport cfg) (ReadReg (DpRegister reg))" using assms(4) by simp
    have do: "tr_do (cf_transport cfg) (ReadReg (DpRegister reg)) t1 = (rmap (\<lambda>x. [x]) r2, t2)"
      using q by (cases r2) (simp_all add: tr_do.simps sbind_def)
    note kept = access_kept [OF ok one(2) _ do]
    have "r2 \<noteq> Panic" using kept(1) by (cases r2) auto
    moreover have "\<not> down t1 \<and> view t2 = view t1 \<and> x = dt_values (view t1) (dr_address reg, dt_bank (dr_address reg) (view t1))"
      if "r2 = Ok x" for x using kept(4) [of "[x]"] that by auto
    ultimately show ?thesis using that [of t2 st1] res kept(2) one(4) True by (auto simp: bank_good_def)
  qed
qed

subsection \<open>Registers of an AP\<close>

text \<open>What a step of the transport does, as one access.\<close>

definition runs :: "('t, arm_error, 'a) rsm \<Rightarrow> dap_access \<Rightarrow> ('a \<Rightarrow> u32 list) \<Rightarrow> bool" where
  "runs q acc g \<longleftrightarrow> (\<forall>t. tr_do (cf_transport cfg) acc t = (rmap g (fst (q t)), snd (q t)))"

lemma runs_simps:
  "runs (tr_read (cf_transport cfg) r) (ReadReg r) (\<lambda>x. [x])"
  "runs (tr_write (cf_transport cfg) r v) (WriteReg r v) (\<lambda>_. [])"
  "runs (tr_read_repeated (cf_transport cfg) a n) (ReadRepeat a n) id"
  "runs (tr_write_repeated (cf_transport cfg) a vs) (WriteRepeat a vs) (\<lambda>_. [])"
  "tr_batch (cf_transport cfg) = Some batch \<Longrightarrow> runs (batch acs) (AccessList acs) id"
proof -
  have "rmap id r = r" for r :: "(arm_error, u32 list) res" by (cases r) simp_all
  then show "runs (tr_read (cf_transport cfg) r) (ReadReg r) (\<lambda>x. [x])"
    "runs (tr_write (cf_transport cfg) r v) (WriteReg r v) (\<lambda>_. [])"
    "runs (tr_read_repeated (cf_transport cfg) a n) (ReadRepeat a n) id"
    "runs (tr_write_repeated (cf_transport cfg) a vs) (WriteRepeat a vs) (\<lambda>_. [])"
    "tr_batch (cf_transport cfg) = Some batch \<Longrightarrow> runs (batch acs) (AccessList acs) id"
    by (auto simp: runs_def tr_do.simps sbind_def split: prod.split res.split)
qed

text \<open>All registers of the bank of \<open>a\<close> are selected.\<close>

definition located :: "'m dp_target \<Rightarrow> ap_address \<Rightarrow> nat \<Rightarrow> bool" where
  "located r p a \<longleftrightarrow>
     (\<forall>y l. ap_location v3 p y = Some l \<longrightarrow> y div 16 = a div 16 \<longrightarrow> 4 dvd y \<longrightarrow>
        selected v3 (dt_select r) (dt_select1 r) (ap_place (ap_register y)) = l)"

definition reached :: "ap_address \<Rightarrow> nat \<Rightarrow> dap_access \<Rightarrow> u32 list \<Rightarrow> 't \<Rightarrow> 't \<Rightarrow> bool" where
  "reached p a acc xs t t' \<longleftrightarrow> \<not> down t \<and> \<not> down t' \<and>
     (\<exists>r. dt_aps r = dt_aps (view t) \<and> (a < 2 ^ 64 \<longrightarrow> located r p a) \<and> hw_do (dp_regs v3 space) acc r = (xs, view t'))"

lemma placed_located:
  assumes "told st t" "\<not> down t" "ds_valid st" "place_ap p a c = Ok placed" "is_v3 c = v3" "ds_select st = cache_set_bank 0 placed"
    "a < 2 ^ 64"
  shows "located (view t) p a"
  unfolding located_def
proof (intro allI impI)
  fix y l
  assume y: "ap_location v3 p y = Some l" "y div 16 = a div 16" "4 dvd y"
  have "cache_true (view t) (cache_set_bank 0 placed)" using assms(1-3,6) by (simp add: told_def)
  then have "dt_select (view t) = select_word (cache_set_bank 0 placed)"
    "v3 \<Longrightarrow> dt_select1 (view t) = select1_word (cache_set_bank 0 placed)"
    using place_ap_kind [OF assms(4), of 0] assms(5) by (cases "cache_set_bank 0 placed"; auto)+
  then show "selected v3 (dt_select (view t)) (dt_select1 (view t)) (ap_place (ap_register y)) = l"
    using place_ap_located [OF assms(4,5) y assms(7)] by (cases v3) (simp_all add: selected_def)
qed

lemma ap_once:
  assumes "connected dp st s" "told st (ai_transport s)" "fq_dp ap = dp" "runs q acc g"
    "access_ok (cf_transport cfg) acc" "is_ap_access acc"
    "sbind (select_ap_and_ap_bank cfg (arm_calls cfg (Suc (Suc n))) ap a) (\<lambda>_. on_transport q) s = (r, s')" "r \<noteq> Panic"
  obtains t' st' where "s' = with_dp dp t' st' s" "told st' t'" "gone r t'"
    "\<forall>x. r = Ok x \<longrightarrow> ds_valid st' \<and> reached (fq_ap ap) a acc (g x) (ai_transport s) t'"
proof -
  obtain r1 s1 where f: "select_ap_and_ap_bank cfg (arm_calls cfg (Suc (Suc n))) ap a s = (r1, s1)" by fastforce
  have np: "r1 \<noteq> Panic" using assms(7,8) f by (auto simp: sbind_def)
  obtain t1 st1 where one: "s1 = with_dp dp t1 st1 s" "told st1 t1" "gone r1 t1"
    "is_ok r1 \<Longrightarrow> ds_valid st1 \<and> down t1 = down (ai_transport s)
       \<and> (\<exists>placed. place_ap (fq_ap ap) a (ds_select st) = Ok placed \<and> ds_select st1 = cache_set_bank 0 placed)
       \<and> (\<not> down t1 \<longrightarrow> dt_aps (view t1) = dt_aps (view (ai_transport s)))"
    by (rule ap_selected [OF assms(1-3) f np]) simp
  show ?thesis
  proof (cases "is_ok r1")
    case False
    then obtain e where e: "r1 = Err e" using np by (cases r1) auto
    then have "s' = s1" "r = Err e" using f assms(7) by (auto simp: sbind_def)
    then show ?thesis using that [of t1 st1] one(1-3) e by (auto simp: gone_def)
  next
    case True
    then have r1: "r1 = Ok ()" by (cases r1) auto
    obtain t2 where q: "q t1 = (r, t2)" "s' = with_dp dp t2 st1 s"
    proof -
      have conn: "connected dp st1 (with_dp dp t1 st1 s)" using assms(1) by simp
      show ?thesis
        using assms(7) f r1 one(1) that by (auto simp: sbind_def on_transport_with_dp [OF conn] split: prod.splits)
    qed
    have do: "tr_do (cf_transport cfg) acc t1 = (rmap g r, t2)" using assms(4) q(1) by (simp add: runs_def)
    have "\<not> selects v3 acc (view t1)" using assms(6) by (cases acc rule: is_ap_access.cases) auto
    note kept = access_kept [OF assms(5) one(2) this do]
    have "ds_valid st1 \<and> reached (fq_ap ap) a acc (g x) (ai_transport s) t2" if "r = Ok x" for x
    proof -
      have k: "\<not> down t1" "\<not> down t2" "hw_do (dp_regs v3 space) acc (view t1) = (g x, view t2)"
        using kept(4) [of "g x"] that by auto
      obtain placed where p: "place_ap (fq_ap ap) a (ds_select st) = Ok placed" "ds_select st1 = cache_set_bank 0 placed"
        "ds_valid st1" "\<not> down (ai_transport s)" "dt_aps (view t1) = dt_aps (view (ai_transport s))"
        using one(4) [OF True] k(1) by auto
      have "is_v3 (ds_select st) = v3" using assms(2) by (simp add: told_def)
      from placed_located [OF one(2) k(1) p(3,1) this p(2)] k p show ?thesis by (auto simp: reached_def)
    qed
    then show ?thesis using that [OF q(2) kept(2)] kept(3) by simp
  qed
qed

lemma ap_once_sync:
  assumes "in_sync dp s" "fq_dp ap = dp" "runs q acc g" "access_ok (cf_transport cfg) acc" "is_ap_access acc"
    "sbind (select_ap_and_ap_bank cfg (arm_calls cfg (Suc (Suc n))) ap a) (\<lambda>_. on_transport q) s = (r, s')" "r \<noteq> Panic"
  shows "in_sync dp s'" "gone r (ai_transport s')"
    "r = Ok x \<Longrightarrow> reached (fq_ap ap) a acc (g x) (ai_transport s) (ai_transport s')"
proof -
  obtain st where st: "connected dp st s" "told st (ai_transport s)" using assms(1) by (auto simp: in_sync_def)
  obtain t' st' where "s' = with_dp dp t' st' s" "told st' t'" "gone r t'"
    "\<forall>x. r = Ok x \<longrightarrow> ds_valid st' \<and> reached (fq_ap ap) a acc (g x) (ai_transport s) t'"
    by (rule ap_once [OF st assms(2-7)])
  then show "in_sync dp s'" "gone r (ai_transport s')"
    "r = Ok x \<Longrightarrow> reached (fq_ap ap) a acc (g x) (ai_transport s) (ai_transport s')"
    using in_syncI [of dp st' s'] st(1) by auto
qed

lemma forget_all_sync:
  assumes "in_sync dp s" "forget_memory_aps s = (r, s')"
  shows "in_sync dp s'" "ai_transport s' = ai_transport s"
  using assms by (auto simp: forget_memory_aps_def in_sync_def connected_def told_plain add_w_def split: if_splits)

lemma forget_sync:
  assumes "in_sync dp s"
  shows "in_sync dp (forget_memory_ap ap s)" "ai_transport (forget_memory_ap ap s) = ai_transport s"
  using assms by (auto simp: forget_memory_ap_def update_dp_def in_sync_def connected_def told_plain split: option.splits)

text \<open>The retry after a lost link: the copy of SELECT is unknown, so it is written again.\<close>

lemma retry_sync:
  assumes "in_sync dp s" "retry_after_link_loss cfg dp op s = (r, s')" "r \<noteq> Panic"
    "\<And>s r s'. in_sync dp s \<Longrightarrow> op s = (r, s') \<Longrightarrow> r \<noteq> Panic \<Longrightarrow> in_sync dp s' \<and> gone r (ai_transport s')"
  shows "in_sync dp s'"
proof -
  obtain r1 s1 where f: "op s = (r1, s1)" by fastforce
  have np: "r1 \<noteq> Panic" using assms(2,3) f by (auto simp: retry_after_link_loss_def)
  have one: "in_sync dp s1" "gone r1 (ai_transport s1)" using assms(4) [OF assms(1) f np] by auto
  show ?thesis
  proof (cases "\<exists>e. r1 = Err e \<and> is_link_lost e")
    case False
    then have "s' = s1" using f assms(2) np by (cases r1) (auto simp: retry_after_link_loss_def)
    then show ?thesis using one by simp
  next
    case True
    then obtain e where e: "r1 = Err e" "is_link_lost e" by blast
    have dn: "down (ai_transport s1)" using one(2) e by (simp add: gone_def)
    obtain st where st: "connected dp st s1" "told st (ai_transport s1)" using one(1) by (auto simp: in_sync_def)
    obtain r2 t2 where w: "resynchronize cfg dp (ai_transport s1) = (r2, t2)" by fastforce
    have o: "on_transport (resynchronize cfg dp) s1 = (r2, with_dp dp t2 st s1)"
      by (simp add: on_transport_with_dp [OF st(1)] w)
    show ?thesis
    proof (cases r2)
      case Panic
      then show ?thesis using connect_returns [OF dn, of dp] w by simp
    next
      case (Err e2)
      then have "s' = with_dp dp t2 st s1" using assms(2) f e o by (simp add: retry_after_link_loss_def)
      moreover have "down t2" using connect_fails [OF dn] w Err by blast
      ultimately show ?thesis
        using in_syncI [OF connected_with_dp [OF st(1)]] told_down [OF st(2)] by simp
    next
      case (Ok u)
      define s2 where "s2 = update_dp dp (\<lambda>st. st\<lparr>ds_valid := False\<rparr>) (with_dp dp t2 st s1)"
      have "s2 = with_dp dp t2 (st\<lparr>ds_valid := False\<rparr>) s1"
        using update_with_dp [OF connected_with_dp [OF st(1)]] by (simp add: s2_def)
      then have "in_sync dp s2"
        using in_syncI [OF connected_with_dp [OF st(1)]] told_plain(2) st(2) by (simp add: told_def)
      obtain r3 s3 where g: "forget_memory_aps s2 = (r3, s3)" by fastforce
      have res: "sbind forget_memory_aps (\<lambda>_. op) s2 = (r, s')"
        using assms(2) f e o Ok by (simp add: retry_after_link_loss_def s2_def)
      note s3 = forget_all_sync [OF \<open>in_sync dp s2\<close> g]
      show ?thesis
      proof (cases r3)
        case (Ok u3)
        then have "op s3 = (r, s')" using res g by (simp add: sbind_def)
        then show ?thesis using assms(4) [OF s3(1)] assms(3) by blast
      qed (use res g s3(1) assms(3) in \<open>auto simp: sbind_def\<close>)
    qed
  qed
qed

lemma retried_access_sync:
  assumes "in_sync dp s" "fq_dp ap = dp" "runs q acc g" "access_ok (cf_transport cfg) acc" "is_ap_access acc" "r \<noteq> Panic"
    "retry_after_link_loss cfg dp
       (sbind (select_ap_and_ap_bank cfg (arm_calls cfg (Suc (Suc n))) ap a) (\<lambda>_. on_transport q)) s = (r, s')"
  shows "in_sync dp s'"
proof (rule retry_sync [OF assms(1,7,6)])
  fix s r s'
  assume a: "in_sync dp s" "sbind (select_ap_and_ap_bank cfg (arm_calls cfg (Suc (Suc n))) ap a) (\<lambda>_. on_transport q) s = (r, s')"
    "r \<noteq> Panic"
  from ap_once_sync(1,2) [OF a(1) assms(2-5) a(2,3)] show "in_sync dp s' \<and> gone r (ai_transport s')" ..
qed

lemma read_ap_sync:
  assumes "in_sync dp s" "fq_dp ap = dp" "r \<noteq> Panic" "read_raw_ap_register cfg (arm_calls cfg (Suc (Suc n))) ap a s = (r, s')"
  shows "in_sync dp s'"
  by (rule retried_access_sync [OF assms(1,2) runs_simps(1) _ _ assms(3)])
    (use assms(2,4) in \<open>simp_all add: read_raw_ap_register_def\<close>)

lemma write_ap_sync:
  assumes "in_sync dp s" "fq_dp ap = dp" "r \<noteq> Panic" "write_raw_ap_register cfg (arm_calls cfg (Suc (Suc n))) ap a v s = (r, s')"
  shows "in_sync dp s'"
  by (rule retried_access_sync [OF forget_sync(1) [OF assms(1)] assms(2) runs_simps(2) _ _ assms(3)])
    (use assms(2,4) in \<open>simp_all add: write_raw_ap_register_def\<close>)

lemma read_repeated_sync:
  assumes "in_sync dp s" "fq_dp ap = dp" "r \<noteq> Panic" "count \<noteq> 0"
    "read_raw_ap_register_repeated cfg (arm_calls cfg (Suc (Suc n))) ap a count s = (r, s')"
  shows "in_sync dp s'"
  by (rule ap_once_sync(1) [OF assms(1,2) runs_simps(3) _ _ _ assms(3)])
    (use assms(4,5) in \<open>simp_all add: read_raw_ap_register_repeated_def\<close>)

lemma write_repeated_sync:
  assumes "in_sync dp s" "fq_dp ap = dp" "r \<noteq> Panic" "values \<noteq> []"
    "write_raw_ap_register_repeated cfg (arm_calls cfg (Suc (Suc n))) ap a values s = (r, s')"
  shows "in_sync dp s'"
  by (rule ap_once_sync(1) [OF forget_sync(1) [OF assms(1)] assms(2) runs_simps(4) _ _ _ assms(3)])
    (use assms(4,5) in \<open>simp_all add: write_raw_ap_register_repeated_def\<close>)

lemma replay_run_sync:
  assumes "in_sync dp s" "fq_dp ap = dp" "r \<noteq> Panic" "replay_run cfg (arm_calls cfg (Suc (Suc n))) ap run s = (r, s')"
  shows "in_sync dp s'"
proof -
  let ?calls = "arm_calls cfg (Suc (Suc n))"
  consider "run = []" | a v where "run = [(a, Some v)]" | a where "run = [(a, None)]"
    | a v x xs where "run = (a, Some v) # x # xs" | a x xs where "run = (a, None) # x # xs"
    by (cases "(cfg, ?calls, ap, run)" rule: replay_run.cases) (auto simp: neq_Nil_conv)
  then show ?thesis
  proof cases
    case 2
    obtain r1 s1 where f: "write_raw_ap_register cfg ?calls ap a v s = (r1, s1)" by fastforce
    then have "s' = s1" "r1 \<noteq> Panic" using assms(3,4) 2 by (cases r1; auto simp: sbind_def)+
    then show ?thesis using write_ap_sync [OF assms(1,2) _ f] by simp
  next
    case 3
    obtain r1 s1 where f: "read_raw_ap_register cfg ?calls ap a s = (r1, s1)" by fastforce
    then have "s' = s1" "r1 \<noteq> Panic" using assms(3,4) 3 by (cases r1; auto simp: sbind_def)+
    then show ?thesis using read_ap_sync [OF assms(1,2) _ f] by simp
  next
    case 4
    define q where "q = (rtraverse (\<lambda>x. case snd x of Some v \<Rightarrow> Ok v | None \<Rightarrow> Panic) run :: (arm_error, u32 list) res)"
    have res: "sbind (slift q) (\<lambda>data. sbind (write_raw_ap_register_repeated cfg ?calls ap a data) (\<lambda>_. sret [])) s = (r, s')"
      using assms(4) 4 by (simp add: q_def)
    show ?thesis
    proof (cases q)
      case (Ok data)
      then have "data \<noteq> []" using 4 by (auto simp: q_def)
      obtain r1 s1 where f: "write_raw_ap_register_repeated cfg ?calls ap a data s = (r1, s1)" by fastforce
      then have "s' = s1" "r1 \<noteq> Panic" using assms(3) res Ok by (cases r1; auto simp: sbind_def)+
      then show ?thesis using write_repeated_sync [OF assms(1,2) _ \<open>data \<noteq> []\<close> f] by simp
    qed (use res assms(1,3) in \<open>auto simp: sbind_def\<close>)
  next
    case 5
    then show ?thesis using read_repeated_sync [OF assms(1-3), of "Suc (length (x # xs))" n a s'] assms(4) by simp
  qed (use assms in simp)
qed

lemma replay_runs_sync:
  assumes "in_sync dp s" "fq_dp ap = dp" "r \<noteq> Panic" "replay_runs cfg (arm_calls cfg (Suc (Suc n))) ap rs s = (r, s')"
  shows "in_sync dp s'"
  using assms
proof (induction rs arbitrary: s r s')
  case (Cons run rs)
  obtain r1 s1 where f: "replay_run cfg (arm_calls cfg (Suc (Suc n))) ap run s = (r1, s1)" by fastforce
  have np: "r1 \<noteq> Panic" using Cons.prems(3,4) f by (auto simp: sbind_def)
  have one: "in_sync dp s1" by (rule replay_run_sync [OF Cons.prems(1,2) np f])
  show ?case
  proof (cases r1)
    case (Ok ws)
    obtain r2 s2 where g: "replay_runs cfg (arm_calls cfg (Suc (Suc n))) ap rs s1 = (r2, s2)" by fastforce
    then have "s' = s2" "r2 \<noteq> Panic" using Cons.prems(3,4) f Ok by (cases r2; auto simp: sbind_def)+
    then show ?thesis using Cons.IH [OF one Cons.prems(2) _ g] by simp
  qed (use Cons.prems(4) f np one in \<open>auto simp: sbind_def\<close>)
qed simp

lemma access_list_sync:
  assumes "in_sync dp s" "fq_dp ap = dp" "r \<noteq> Panic"
    "access_raw_ap_registers cfg (arm_calls cfg (Suc (Suc n))) ap acs s = (r, s')"
  shows "in_sync dp s'"
proof (cases acs)
  case Nil
  then show ?thesis using assms by (simp add: access_raw_ap_registers_def)
next
  case (Cons ac acs')
  obtain start x where ac: "ac = (start, x)" by fastforce
  define s0 where "s0 = (if (\<exists>x \<in> set acs. snd x \<noteq> None) then forget_memory_ap ap s else s)"
  have s0: "in_sync dp s0" using assms(1) forget_sync(1) by (simp add: s0_def)
  have bank: "\<forall>x \<in> set acs. fst x div 16 = start div 16"
    using assms(3,4) Cons ac by (auto simp: access_raw_ap_registers_def split: if_splits)
  show ?thesis
  proof (cases "tr_batch (cf_transport cfg)")
    case None
    then show ?thesis
      using replay_runs_sync [OF assms(1-3), of n "chunk_by same_run acs" s'] assms(4) bank Cons ac
      by (simp add: access_raw_ap_registers_def)
  next
    case (Some batch)
    then have "sbind (select_ap_and_ap_bank cfg (arm_calls cfg (Suc (Suc n))) ap start) (\<lambda>_. on_transport (batch acs)) s0 = (r, s')"
      using assms(4) bank unfolding access_raw_ap_registers_def s0_def by (simp add: Cons ac)
    from ap_once_sync(1) [OF s0 assms(2) runs_simps(5) [OF Some] _ _ this assms(3)] show ?thesis
      using Cons Some by simp
  qed
qed

end

end
