(* ===== verification/Arm_Values.thy ===== *)
theory Arm_Values
  imports Arm_Access
begin

text \<open>
  What the accesses of the interface return when the link stays up: the values of the AP registers that
  were asked for, however the accesses are grouped.
\<close>

definition unlocated :: "ap_accesses \<Rightarrow> (nat \<Rightarrow> nat) \<Rightarrow> (nat \<times> u32 option) list" where
  "unlocated acs loc = map (\<lambda>(y, x). (loc y, x)) acs"

lemma chunk_by_concat: "concat (chunk_by f xs) = xs"
  by (induction f xs rule: chunk_by.induct) (auto split: list.splits)

lemma chunk_by_runs:
  "run \<in> set (chunk_by same_run xs) \<Longrightarrow> run \<noteq> [] \<and> (\<forall>x \<in> set run. same_run (hd run) x)"
proof (induction "same_run" xs arbitrary: run rule: chunk_by.induct)
  case (2 x xs)
  show ?case
  proof (cases "chunk_by same_run xs")
    case Nil
    then show ?thesis using 2 by (auto simp: same_run_def)
  next
    case (Cons r rs)
    then obtain y ys where r: "r = y # ys" using 2(1) [of r] by (cases r) auto
    then have "\<forall>z \<in> set ys. same_run y z" using 2(1) [of r] Cons by auto
    then show ?thesis using 2 Cons r by (fastforce simp: same_run_def split: if_splits)
  qed
qed simp

lemma space_list_append:
  "space_list space (xs @ ys) m =
     (case space_list space xs m of (ws, m) \<Rightarrow> (case space_list space ys m of (vs, m) \<Rightarrow> (ws @ vs, m)))"
  by (induction space xs m rule: space_list.induct) (auto split: prod.splits)

locale steady_transport = selecting_transport +
  assumes up: "\<not> down t"
begin

lemma gone_iff: "gone r t \<Longrightarrow> r = Err e \<Longrightarrow> \<not> is_link_lost e"
  using up by (auto simp: gone_def)

text \<open>What was reached, in terms of the registers of the APs.\<close>

definition place_of :: "ap_address \<Rightarrow> nat \<Rightarrow> nat" where
  "place_of p y = (case ap_location v3 p y of Some l \<Rightarrow> l | None \<Rightarrow> 0)"

definition addresses_ok :: "ap_address \<Rightarrow> nat \<Rightarrow> nat \<Rightarrow> bool" where
  "addresses_ok p a y \<longleftrightarrow> y div 16 = a div 16 \<and> 4 dvd y \<and> ap_location v3 p y \<noteq> None"

lemma reached_list:
  assumes "reached p a acc xs t t'" "a < 2 ^ 64" "\<forall>x \<in> set acs. addresses_ok p a (fst x)"
    "\<And>r. hw_do (dp_regs v3 space) acc r = hw_list (dp_regs v3 space) (map (\<lambda>(y, x). (ap_place (ap_register y), x)) acs) r"
  shows "space_list space (unlocated acs (place_of p)) (dt_aps (view t)) = (xs, dt_aps (view t'))"
proof -
  obtain r where r: "dt_aps r = dt_aps (view t)" "located r p a" "hw_do (dp_regs v3 space) acc r = (xs, view t')"
    using assms(1,2) by (auto simp: reached_def)
  have "selected v3 (dt_select r) (dt_select1 r) (ap_place (ap_register y)) = place_of p y" if "(y, x) \<in> set acs" for y x
    using r(2) assms(3) that by (fastforce simp: located_def addresses_ok_def place_of_def)
  then have "map (\<lambda>(a, x). (selected v3 (dt_select r) (dt_select1 r) a, x)) (map (\<lambda>(y, x). (ap_place (ap_register y), x)) acs)
      = unlocated acs (place_of p)" by (auto simp: case_prod_unfold unlocated_def)
  from r(3) [unfolded assms(4) hw_list_space this] show ?thesis
    using r(1) by (auto split: prod.splits dest!: sym [of _ "view t'"])
qed

lemma ap_once_value:
  assumes "in_sync dp s" "fq_dp ap = dp" "runs q acc g" "access_ok (cf_transport cfg) acc" "is_ap_access acc"
    "sbind (select_ap_and_ap_bank cfg (arm_calls cfg (Suc (Suc n))) ap a) (\<lambda>_. on_transport q) s = (Ok x, s')"
    "a < 2 ^ 64" "\<forall>x \<in> set acs. addresses_ok (fq_ap ap) a (fst x)"
    "\<And>r. hw_do (dp_regs v3 space) acc r = hw_list (dp_regs v3 space) (map (\<lambda>(y, x). (ap_place (ap_register y), x)) acs) r"
  shows "space_list space (unlocated acs (place_of (fq_ap ap))) (dt_aps (view (ai_transport s))) = (g x, dt_aps (view (ai_transport s')))"
  using reached_list [OF ap_once_sync(3) [OF assms(1-6)] assms(7-9)] by simp

lemma retry_once:
  assumes "in_sync dp s" "fq_dp ap = dp" "runs q acc g" "access_ok (cf_transport cfg) acc" "is_ap_access acc"
    "retry_after_link_loss cfg dp (sbind (select_ap_and_ap_bank cfg (arm_calls cfg (Suc (Suc n))) ap a) (\<lambda>_. on_transport q)) s = (r, s')"
  shows "sbind (select_ap_and_ap_bank cfg (arm_calls cfg (Suc (Suc n))) ap a) (\<lambda>_. on_transport q) s = (r, s')"
proof -
  obtain r1 s1 where f: "sbind (select_ap_and_ap_bank cfg (arm_calls cfg (Suc (Suc n))) ap a) (\<lambda>_. on_transport q) s = (r1, s1)"
    by fastforce
  show ?thesis
  proof (cases r1)
    case (Err e)
    then have "\<not> is_link_lost e" using ap_once_sync(2) [OF assms(1-5) f] gone_iff [of r1 _ e] by simp
    then show ?thesis using assms(6) f Err by (simp add: retry_after_link_loss_def)
  qed (use assms(6) f in \<open>simp_all add: retry_after_link_loss_def\<close>)
qed

lemma read_ap_value:
  assumes "in_sync dp s" "fq_dp ap = dp" "read_raw_ap_register cfg (arm_calls cfg (Suc (Suc n))) ap a s = (Ok x, s')"
    "a < 2 ^ 64" "addresses_ok (fq_ap ap) a a"
  shows "as_read space (place_of (fq_ap ap) a) (dt_aps (view (ai_transport s))) = (x, dt_aps (view (ai_transport s')))"
proof -
  have "sbind (select_ap_and_ap_bank cfg (arm_calls cfg (Suc (Suc n))) ap a)
      (\<lambda>_. on_transport (tr_read (cf_transport cfg) (ApRegister (ap_register a)))) s = (Ok x, s')"
    by (rule retry_once [OF assms(1,2) runs_simps(1)]) (use assms(2,3) in \<open>simp_all add: read_raw_ap_register_def\<close>)
  from ap_once_value [OF assms(1,2) runs_simps(1) _ _ this assms(4), of "[(a, None)]"] assms(5) show ?thesis
    by (auto simp: unlocated_def split: prod.splits)
qed

lemma write_ap_value:
  assumes "in_sync dp s" "fq_dp ap = dp" "write_raw_ap_register cfg (arm_calls cfg (Suc (Suc n))) ap a v s = (Ok u, s')"
    "a < 2 ^ 64" "addresses_ok (fq_ap ap) a a"
  shows "snd (as_write space (place_of (fq_ap ap) a) v (dt_aps (view (ai_transport s)))) = dt_aps (view (ai_transport s'))"
proof -
  let ?s = "forget_memory_ap ap s"
  have "sbind (select_ap_and_ap_bank cfg (arm_calls cfg (Suc (Suc n))) ap a)
      (\<lambda>_. on_transport (tr_write (cf_transport cfg) (ApRegister (ap_register a)) v)) ?s = (Ok u, s')"
    by (rule retry_once [OF forget_sync(1) [OF assms(1)] assms(2) runs_simps(2)])
      (use assms(2,3) in \<open>simp_all add: write_raw_ap_register_def\<close>)
  from ap_once_value [OF forget_sync(1) [OF assms(1)] assms(2) runs_simps(2) _ _ this assms(4), of "[(a, Some v)]"] assms(5)
  show ?thesis using forget_sync(2) [OF assms(1), of ap] by (auto simp: unlocated_def split: prod.splits)
qed

lemma replay_run_value:
  assumes "in_sync dp s" "fq_dp ap = dp" "replay_run cfg (arm_calls cfg (Suc (Suc n))) ap run s = (Ok ws, s')"
    "run \<noteq> []" "\<forall>x \<in> set run. same_run (hd run) x" "b < 2 ^ 64" "\<forall>x \<in> set run. addresses_ok (fq_ap ap) b (fst x)"
    "\<forall>x \<in> set run. fst x < 2 ^ 64"
  shows "space_list space (unlocated run (place_of (fq_ap ap))) (dt_aps (view (ai_transport s))) = (ws, dt_aps (view (ai_transport s')))"
proof -
  let ?calls = "arm_calls cfg (Suc (Suc n))"
  have own: "addresses_ok (fq_ap ap) a y" if "a \<in> fst ` set run" "y \<in> fst ` set run" for a y
  proof -
    have "addresses_ok (fq_ap ap) b a" "addresses_ok (fq_ap ap) b y" using assms(7) that by auto
    then show ?thesis by (simp add: addresses_ok_def)
  qed
  consider a v where "run = [(a, Some v)]" | a where "run = [(a, None)]"
    | a v x xs where "run = (a, Some v) # x # xs" | a x xs where "run = (a, None) # x # xs"
    using assms(4) by (cases "(cfg, ?calls, ap, run)" rule: replay_run.cases) (auto simp: neq_Nil_conv)
  then show ?thesis
  proof cases
    case 1
    then have "write_raw_ap_register cfg ?calls ap a v s = (Ok (), s')" "ws = []"
      using assms(3) by (auto simp: sbind_def split: prod.splits res.splits)
    then show ?thesis
      using write_ap_value [OF assms(1,2), of n a v "()" s'] own 1 assms(8) by (simp add: unlocated_def)
  next
    case 2
    then obtain x where "read_raw_ap_register cfg ?calls ap a s = (Ok x, s')" "ws = [x]"
      using assms(3) by (auto simp: sbind_def split: prod.splits res.splits)
    then show ?thesis
      using read_ap_value [OF assms(1,2), of n a x s'] own 2 assms(8) by (simp add: unlocated_def)
  next
    case 3
    define data where "data = map (the \<circ> snd) run"
    have each: "fst x = a \<and> snd x = Some (the (snd x))" if "x \<in> set run" for x
      using assms(5) that 3 by (auto simp: same_run_def)
    have "rtraverse (\<lambda>x. case snd x of Some v \<Rightarrow> Ok v | None \<Rightarrow> Panic) run = (Ok data :: (arm_error, u32 list) res)"
      unfolding data_def by (rule rtraverse_Ok_eq) (use each in \<open>force split: option.splits\<close>)
    then have w: "write_raw_ap_register_repeated cfg ?calls ap a data s = (Ok (), s')" "ws = []"
      using assms(3) 3 by (auto simp: sbind_def split: prod.splits res.splits)
    have runeq: "map (\<lambda>(y, x). (ap_place (ap_register y), x)) run = map (\<lambda>v. (ap_place (ap_register a), Some v)) data"
      unfolding data_def using each by (auto simp: case_prod_unfold)
    have "a \<in> fst ` set run" using 3 by auto
    then have ok: "a < 2 ^ 64" "\<forall>x \<in> set run. addresses_ok (fq_ap ap) a (fst x)" using assms(8) own by auto
    have sel: "sbind (select_ap_and_ap_bank cfg ?calls ap a)
        (\<lambda>_. on_transport (tr_write_repeated (cf_transport cfg) (ap_register a) data)) (forget_memory_ap ap s) = (Ok (), s')"
      using w(1) by (simp add: write_raw_ap_register_repeated_def)
    have hw: "hw_do (dp_regs v3 space) (WriteRepeat (ap_register a) data) r
        = hw_list (dp_regs v3 space) (map (\<lambda>(y, x). (ap_place (ap_register y), x)) run) r" for r
      by (simp only: hw_do.simps runeq)
    have "data \<noteq> []" using 3 by (simp add: data_def)
    then show ?thesis
      using ap_once_value [OF forget_sync(1) [OF assms(1)] assms(2) runs_simps(4) _ _ sel ok hw] forget_sync(2) [OF assms(1), of ap] w(2)
      by simp
  next
    case 4
    have each: "x = (a, None)" if "x \<in> set run" for x
      using assms(5) that 4 by (cases x) (auto simp: same_run_def)
    have run: "run = replicate (length run) (a, None)" by (rule replicate_eqI) (use each in auto)
    have r: "read_raw_ap_register_repeated cfg ?calls ap a (length run) s = (Ok ws, s')" using assms(3) 4 by simp
    have "a \<in> fst ` set run" using 4 by auto
    then have ok: "a < 2 ^ 64" "\<forall>x \<in> set run. addresses_ok (fq_ap ap) a (fst x)" using assms(8) own by auto
    have sel: "sbind (select_ap_and_ap_bank cfg ?calls ap a)
        (\<lambda>_. on_transport (tr_read_repeated (cf_transport cfg) (ap_register a) (length run))) s = (Ok ws, s')"
      using r by (simp add: read_raw_ap_register_repeated_def)
    have "map (\<lambda>(y, x). (ap_place (ap_register y), x)) run = replicate (length run) (ap_place (ap_register a), None)"
      by (subst run) simp
    then show ?thesis using ap_once_value [OF assms(1,2) runs_simps(3) _ _ sel ok] assms(4) by simp
  qed
qed

lemma replay_runs_value:
  assumes "in_sync dp s" "fq_dp ap = dp" "replay_runs cfg (arm_calls cfg (Suc (Suc n))) ap rs s = (Ok ws, s')"
    "\<forall>run \<in> set rs. run \<noteq> [] \<and> (\<forall>x \<in> set run. same_run (hd run) x)" "b < 2 ^ 64"
    "\<forall>x \<in> set (concat rs). addresses_ok (fq_ap ap) b (fst x) \<and> fst x < 2 ^ 64"
  shows "space_list space (unlocated (concat rs) (place_of (fq_ap ap))) (dt_aps (view (ai_transport s))) = (ws, dt_aps (view (ai_transport s')))"
  using assms(1,3,4,6)
proof (induction rs arbitrary: s ws)
  case Nil
  then show ?case by (simp add: unlocated_def)
next
  case (Cons run rs)
  obtain us s1 vs where f: "replay_run cfg (arm_calls cfg (Suc (Suc n))) ap run s = (Ok us, s1)"
    "replay_runs cfg (arm_calls cfg (Suc (Suc n))) ap rs s1 = (Ok vs, s')" "ws = us @ vs"
    using Cons.prems(2) by auto
  have "in_sync dp s1" by (rule replay_run_sync [OF Cons.prems(1) assms(2) _ f(1)]) simp
  from Cons.IH [OF this f(2)] Cons.prems(3,4)
  have "space_list space (unlocated (concat rs) (place_of (fq_ap ap))) (dt_aps (view (ai_transport s1))) = (vs, dt_aps (view (ai_transport s')))"
    by auto
  moreover have "space_list space (unlocated run (place_of (fq_ap ap))) (dt_aps (view (ai_transport s))) = (us, dt_aps (view (ai_transport s1)))"
    by (rule replay_run_value [OF Cons.prems(1) assms(2) f(1) _ _ assms(5)]) (use Cons.prems(3,4) in auto)
  ultimately show ?case by (simp add: unlocated_def space_list_append f(3))
qed

text \<open>A list of accesses of one bank, as one batch or replayed.\<close>

lemma access_list_value:
  assumes "in_sync dp s" "fq_dp ap = dp" "access_raw_ap_registers cfg (arm_calls cfg (Suc (Suc n))) ap acs s = (Ok ws, s')"
    "\<forall>x \<in> set acs. addresses_ok (fq_ap ap) (fst (hd acs)) (fst x) \<and> fst x < 2 ^ 64"
  shows "space_list space (unlocated acs (place_of (fq_ap ap))) (dt_aps (view (ai_transport s))) = (ws, dt_aps (view (ai_transport s')))"
proof (cases acs)
  case Nil
  then show ?thesis using assms(3) by (simp add: access_raw_ap_registers_def unlocated_def)
next
  case (Cons ac acs')
  obtain start x where ac: "ac = (start, x)" by fastforce
  define s0 where "s0 = (if (\<exists>x \<in> set acs. snd x \<noteq> None) then forget_memory_ap ap s else s)"
  have s0: "in_sync dp s0" "ai_transport s0 = ai_transport s" using assms(1) forget_sync [OF assms(1)] by (simp_all add: s0_def)
  have bank: "\<forall>x \<in> set acs. fst x div 16 = start div 16"
    using assms(3) Cons ac by (auto simp: access_raw_ap_registers_def split: if_splits)
  have start: "start < 2 ^ 64" "\<forall>x \<in> set acs. addresses_ok (fq_ap ap) start (fst x)" using assms(4) Cons ac by auto
  show ?thesis
  proof (cases "tr_batch (cf_transport cfg)")
    case None
    then have "replay_runs cfg (arm_calls cfg (Suc (Suc n))) ap (chunk_by same_run acs) s = (Ok ws, s')"
      using assms(3) bank Cons ac by (simp add: access_raw_ap_registers_def)
    from replay_runs_value [OF assms(1,2) this _ start(1)] chunk_by_runs [of _ acs] assms(4) start(2) show ?thesis
      by (simp add: chunk_by_concat)
  next
    case (Some batch)
    then have "sbind (select_ap_and_ap_bank cfg (arm_calls cfg (Suc (Suc n))) ap start) (\<lambda>_. on_transport (batch acs)) s0 = (Ok ws, s')"
      using assms(3) bank unfolding access_raw_ap_registers_def s0_def by (simp add: Cons ac)
    from ap_once_value [OF s0(1) assms(2) runs_simps(5) [OF Some] _ _ this start] show ?thesis
      using Cons Some s0(2) by simp
  qed
qed

end

end
