(* ===== verification/Arm_Memory.thy ===== *)
theory Arm_Memory
  imports Arm_Values Adi_Complete
begin

text \<open>
  The interface as the register access of a memory AP: with a memory AP behind the transport, the
  accesses of its registers keep the contract that the memory interface rests on.
\<close>

subsection \<open>A transport that answers\<close>

locale ready_transport = steady_transport +
  fixes ready :: "'a \<Rightarrow> bool"
  assumes ready_law: "ready t \<Longrightarrow> access_ok (cf_transport cfg) acc \<Longrightarrow> \<exists>xs t'. tr_do (cf_transport cfg) acc t = (Ok xs, t') \<and> ready t'"
begin

lemma write_ready:
  assumes "ready t" "dp_reg_ok reg"
  obtains t' where "tr_write (cf_transport cfg) (DpRegister reg) v t = (Ok (), t')" "ready t'"
proof -
  obtain r t' where w: "tr_write (cf_transport cfg) (DpRegister reg) v t = (r, t')" by fastforce
  obtain xs t1 where "tr_do (cf_transport cfg) (WriteReg (DpRegister reg) v) t = (Ok xs, t1)" "ready t1"
    using ready_law [OF assms(1), of "WriteReg (DpRegister reg) v"] assms(2) by auto
  then show ?thesis using that [of t'] write_do [OF w] w by (cases r) auto
qed

lemma select_ready:
  assumes "connected dp st s" "ready (ai_transport s)"
  obtains s' st' where "dc_write_dp (arm_calls cfg (Suc n)) dp dp_select w s = (Ok (), s')" "connected dp st' s'" "ready (ai_transport s')"
proof -
  obtain t' where t': "tr_write (cf_transport cfg) (DpRegister dp_select) w (ai_transport s) = (Ok (), t')" "ready t'"
    by (rule write_ready [OF assms(2), of dp_select]) simp_all
  then show ?thesis
    using that [of "with_dp dp t' (sync_state dp_select w True st) s" "sync_state dp_select w True st"] assms(1)
      write_plain [OF assms(1), of dp_select cfg "arm_calls cfg n" w] by (simp add: arm_calls_Suc)
qed

lemma select1_ready:
  assumes "connected dp st s" "ready (ai_transport s)"
  obtains s' st' where "dc_write_dp (arm_calls cfg (Suc (Suc n))) dp dp_select1 w s = (Ok (), s')" "connected dp st' s'" "ready (ai_transport s')"
proof -
  define c where "c = cache_set_bank 5 (ds_select st)"
  obtain t1 where t1: "tr_write (cf_transport cfg) (DpRegister dp_select) (select_word c) (ai_transport s) = (Ok (), t1)" "ready t1"
    by (rule write_ready [OF assms(2), of dp_select]) simp_all
  obtain t2 where t2: "tr_write (cf_transport cfg) (DpRegister dp_select1) w t1 = (Ok (), t2)" "ready t2"
    by (rule write_ready [OF t1(2), of dp_select1]) simp_all
  obtain t3 where t3: "tr_write (cf_transport cfg) (DpRegister dp_select1) w (ai_transport s) = (Ok (), t3)" "ready t3"
    by (rule write_ready [OF assms(2), of dp_select1]) simp_all
  note eq = write_select1 [OF assms(1) c_def, of cfg n w, folded arm_calls_Suc]
  show ?thesis
  proof (cases "needs_bank dp_select1 st")
    case True
    then have "dc_write_dp (arm_calls cfg (Suc (Suc n))) dp dp_select1 w s
        = (Ok (), with_dp dp t2 (sync_state dp_select1 w True (st\<lparr>ds_select := c, ds_valid := True\<rparr>)) s)"
      using eq t1(1) t2(1) by simp
    from that [OF this connected_with_dp [OF assms(1)]] t2(2) show ?thesis by simp
  next
    case False
    then have "dc_write_dp (arm_calls cfg (Suc (Suc n))) dp dp_select1 w s = (Ok (), with_dp dp t3 (sync_state dp_select1 w True st) s)"
      using eq t3(1) by simp
    from that [OF this connected_with_dp [OF assms(1)]] t3(2) show ?thesis by simp
  qed
qed

lemma place_total: "ap_location v3 p a = Some l \<Longrightarrow> is_v3 c = v3 \<Longrightarrow> \<exists>placed. place_ap p a c = Ok placed"
  by (cases p; cases c) (auto simp: add_w_def Let_def split: if_splits)

lemma ap_ready:
  assumes "in_sync dp s" "ready (ai_transport s)" "fq_dp ap = dp" "ap_location v3 (fq_ap ap) a = Some l"
  obtains s' where "select_ap_and_ap_bank cfg (arm_calls cfg (Suc (Suc n))) ap a s = (Ok (), s')" "ready (ai_transport s')"
proof -
  obtain st where st: "connected dp st s" "told st (ai_transport s)" using assms(1) by (auto simp: in_sync_def)
  then have kind: "is_v3 (ds_select st) = v3" by (simp add: told_def)
  obtain placed where p: "place_ap (fq_ap ap) a (ds_select st) = Ok placed" using place_total [OF assms(4) kind] by blast
  define c where "c = cache_set_bank 0 placed"
  let ?calls = "arm_calls cfg (Suc (Suc n))" and ?s = "with_dp dp (ai_transport s) (st\<lparr>ds_select := c\<rparr>) s"
  note step = select_ap_step [OF st(1) assms(3), of cfg ?calls a, unfolded p res.case, folded c_def]
  have conn: "connected dp (st\<lparr>ds_select := c\<rparr>) ?s" using st(1) by simp
  show ?thesis
  proof (cases "\<not> ds_valid st \<or> ds_select st \<noteq> c")
    case False
    then show ?thesis using that [of s] step assms(2) by (auto simp: Let_def)
  next
    case True
    have "\<exists>s'. write_select ?calls dp st c ?s = (Ok (), s') \<and> ready (ai_transport s')"
    proof (cases c)
      case (DPv1 w)
      obtain s1 st1 where "dc_write_dp ?calls dp dp_select w ?s = (Ok (), s1)" "connected dp st1 s1" "ready (ai_transport s1)"
        by (rule select_ready [OF conn, of "Suc n" w]) (use assms(2) in simp_all)
      then show ?thesis using DPv1 by (simp add: write_select_def)
    next
      case (DPv3 w w1)
      obtain s1 st1 where one: "dc_write_dp ?calls dp dp_select1 w1 ?s = (Ok (), s1)" "connected dp st1 s1" "ready (ai_transport s1)"
        by (rule select1_ready [OF conn, of n w1]) (use assms(2) in simp_all)
      obtain s2 st2 where two: "dc_write_dp ?calls dp dp_select w s1 = (Ok (), s2)" "connected dp st2 s2" "ready (ai_transport s2)"
        by (rule select_ready [OF one(2,3), of "Suc n" w])
      obtain s3 st3 where three: "dc_write_dp ?calls dp dp_select w ?s = (Ok (), s3)" "connected dp st3 s3" "ready (ai_transport s3)"
        by (rule select_ready [OF conn, of "Suc n" w]) (use assms(2) in simp_all)
      show ?thesis
        unfolding DPv3 write_select_def Let_def select_cache.case
        using one two three DPv3 by (auto simp: sbind_def)
    qed
    then show ?thesis using that step True by (auto simp: Let_def)
  qed
qed

lemma ap_once_ready:
  assumes "in_sync dp s" "ready (ai_transport s)" "fq_dp ap = dp" "ap_location v3 (fq_ap ap) a = Some l"
    "runs q acc g" "access_ok (cf_transport cfg) acc"
  shows "\<exists>x s'. sbind (select_ap_and_ap_bank cfg (arm_calls cfg (Suc (Suc n))) ap a) (\<lambda>_. on_transport q) s = (Ok x, s')
    \<and> ready (ai_transport s')"
proof -
  obtain s1 where s1: "select_ap_and_ap_bank cfg (arm_calls cfg (Suc (Suc n))) ap a s = (Ok (), s1)" "ready (ai_transport s1)"
    by (rule ap_ready [OF assms(1-4)])
  obtain xs t2 where t2: "tr_do (cf_transport cfg) acc (ai_transport s1) = (Ok xs, t2)" "ready t2"
    using ready_law [OF s1(2) assms(6)] by blast
  then obtain x where "q (ai_transport s1) = (Ok x, t2)"
    using assms(5) by (cases "q (ai_transport s1)"; cases "fst (q (ai_transport s1))") (auto simp: runs_def)
  then show ?thesis using s1(1) t2(2) by (simp add: sbind_def on_transport_def)
qed

lemma retry_done: "op s = (Ok x, s') \<Longrightarrow> retry_after_link_loss cfg dp op s = (Ok x, s')"
  by (simp add: retry_after_link_loss_def)

text \<open>So do the accesses of a register, and those of a run.\<close>

lemma read_ap_ready:
  assumes "in_sync dp s" "ready (ai_transport s)" "fq_dp ap = dp" "ap_location v3 (fq_ap ap) a = Some l"
  shows "\<exists>x s'. read_raw_ap_register cfg (arm_calls cfg (Suc (Suc n))) ap a s = (Ok x, s') \<and> ready (ai_transport s')"
proof -
  have "access_ok (cf_transport cfg) (ReadReg (ApRegister (ap_register a)))" by simp
  from ap_once_ready [OF assms runs_simps(1) this, of n]
  obtain x s' where f: "sbind (select_ap_and_ap_bank cfg (arm_calls cfg (Suc (Suc n))) ap a)
      (\<lambda>_. on_transport (tr_read (cf_transport cfg) (ApRegister (ap_register a)))) s = (Ok x, s')" "ready (ai_transport s')" by blast
  have "read_raw_ap_register cfg (arm_calls cfg (Suc (Suc n))) ap a s = (Ok x, s')"
    unfolding read_raw_ap_register_def by (rule retry_done) (rule f(1))
  then show ?thesis using f(2) by blast
qed

lemma write_ap_ready:
  assumes "in_sync dp s" "ready (ai_transport s)" "fq_dp ap = dp" "ap_location v3 (fq_ap ap) a = Some l"
  shows "\<exists>s'. write_raw_ap_register cfg (arm_calls cfg (Suc (Suc n))) ap a v s = (Ok (), s') \<and> ready (ai_transport s')"
proof -
  have "in_sync dp (forget_memory_ap ap s)" "ready (ai_transport (forget_memory_ap ap s))"
    using assms(1,2) forget_sync [OF assms(1)] by simp_all
  from ap_once_ready [OF this assms(3,4) runs_simps(2) [of "ApRegister (ap_register a)" v], of n]
  obtain s' where f: "sbind (select_ap_and_ap_bank cfg (arm_calls cfg (Suc (Suc n))) ap a)
      (\<lambda>_. on_transport (tr_write (cf_transport cfg) (ApRegister (ap_register a)) v)) (forget_memory_ap ap s) = (Ok (), s')"
    "ready (ai_transport s')" by auto
  have "write_raw_ap_register cfg (arm_calls cfg (Suc (Suc n))) ap a v s = (Ok (), s')"
    unfolding write_raw_ap_register_def by (rule retry_done) (rule f(1))
  then show ?thesis using f(2) by blast
qed

lemma replay_run_ready:
  assumes "in_sync dp s" "ready (ai_transport s)" "fq_dp ap = dp" "run \<noteq> []" "\<forall>x \<in> set run. same_run (hd run) x"
    "ap_location v3 (fq_ap ap) (fst (hd run)) = Some l"
  shows "\<exists>ws s'. replay_run cfg (arm_calls cfg (Suc (Suc n))) ap run s = (Ok ws, s') \<and> ready (ai_transport s')"
proof -
  let ?calls = "arm_calls cfg (Suc (Suc n))"
  consider a v where "run = [(a, Some v)]" | a where "run = [(a, None)]"
    | a v x xs where "run = (a, Some v) # x # xs" | a x xs where "run = (a, None) # x # xs"
    using assms(4) by (cases "(cfg, ?calls, ap, run)" rule: replay_run.cases) (auto simp: neq_Nil_conv)
  then show ?thesis
  proof cases
    case (1 a v)
    have "ap_location v3 (fq_ap ap) a = Some l" using assms(6) 1 by simp
    from write_ap_ready [OF assms(1-3) this, of n v] show ?thesis by (auto simp: 1 sbind_def)
  next
    case (2 a)
    have "ap_location v3 (fq_ap ap) a = Some l" using assms(6) 2 by simp
    from read_ap_ready [OF assms(1-3) this, of n] show ?thesis by (auto simp: 2 sbind_def)
  next
    case (3 a v x xs)
    define data where "data = map (the \<circ> snd) run"
    have each: "snd x = Some (the (snd x))" if "x \<in> set run" for x
      using assms(5) that 3 by (auto simp: same_run_def)
    have d: "rtraverse (\<lambda>x. case snd x of Some v \<Rightarrow> Ok v | None \<Rightarrow> Panic) run = (Ok data :: (arm_error, u32 list) res)"
      unfolding data_def by (rule rtraverse_Ok_eq) (use each in \<open>force split: option.splits\<close>)
    have s: "in_sync dp (forget_memory_ap ap s)" "ready (ai_transport (forget_memory_ap ap s))"
      using assms(1,2) forget_sync [OF assms(1)] by simp_all
    have loc: "ap_location v3 (fq_ap ap) a = Some l" "access_ok (cf_transport cfg) (WriteRepeat (ap_register a) data)"
      using assms(4,6) 3 by (simp_all add: data_def)
    from ap_once_ready [OF s assms(3) loc(1) runs_simps(4) loc(2), of n] obtain s'
      where "write_raw_ap_register_repeated cfg ?calls ap a data s = (Ok (), s')" "ready (ai_transport s')"
      by (auto simp: write_raw_ap_register_repeated_def)
    then show ?thesis using d [unfolded 3] unfolding 3 replay_run.simps by (simp add: sbind_def del: rtraverse.simps)
  next
    case (4 a x xs)
    have loc: "ap_location v3 (fq_ap ap) a = Some l" "access_ok (cf_transport cfg) (ReadRepeat (ap_register a) (length run))"
      using assms(6) 4 by simp_all
    from ap_once_ready [OF assms(1-3) loc(1) runs_simps(3) loc(2), of n] show ?thesis
      by (simp add: 4 read_raw_ap_register_repeated_def)
  qed
qed

lemma replay_runs_ready:
  assumes "in_sync dp s" "ready (ai_transport s)" "fq_dp ap = dp"
    "\<forall>run \<in> set rs. run \<noteq> [] \<and> (\<forall>x \<in> set run. same_run (hd run) x) \<and> ap_location v3 (fq_ap ap) (fst (hd run)) \<noteq> None"
  shows "\<exists>ws s'. replay_runs cfg (arm_calls cfg (Suc (Suc n))) ap rs s = (Ok ws, s') \<and> ready (ai_transport s')"
  using assms(1,2,4)
proof (induction rs arbitrary: s)
  case (Cons run rs)
  obtain l where l: "ap_location v3 (fq_ap ap) (fst (hd run)) = Some l" using Cons.prems(3) by auto
  obtain ws s1 where one: "replay_run cfg (arm_calls cfg (Suc (Suc n))) ap run s = (Ok ws, s1)" "ready (ai_transport s1)"
    using replay_run_ready [OF Cons.prems(1,2) assms(3) _ _ l, of n] Cons.prems(3) by auto
  have "in_sync dp s1" by (rule replay_run_sync [OF Cons.prems(1) assms(3) _ one(1)]) simp
  then have "\<exists>ws s'. replay_runs cfg (arm_calls cfg (Suc (Suc n))) ap rs s1 = (Ok ws, s') \<and> ready (ai_transport s')"
    using Cons.IH one(2) Cons.prems(3) by simp
  then show ?case using one(1) by (auto simp: sbind_def)
qed simp

text \<open>A list of accesses, as a batch or replayed.\<close>

lemma access_ready:
  assumes "in_sync dp s" "ready (ai_transport s)" "fq_dp ap = dp"
    "\<forall>x \<in> set acs. addresses_ok (fq_ap ap) (fst (hd acs)) (fst x)"
  obtains ws s' where "access_raw_ap_registers cfg (arm_calls cfg (Suc (Suc n))) ap acs s = (Ok ws, s')" "ready (ai_transport s')"
proof (cases acs)
  case Nil
  then show ?thesis using that assms(2) by (simp add: access_raw_ap_registers_def)
next
  case (Cons ac acs')
  obtain start x where ac: "ac = (start, x)" by fastforce
  define s0 where "s0 = (if (\<exists>x \<in> set acs. snd x \<noteq> None) then forget_memory_ap ap s else s)"
  have s0: "in_sync dp s0" "ready (ai_transport s0)" using assms(1,2) forget_sync [OF assms(1)] by (simp_all add: s0_def)
  have bank: "\<forall>x \<in> set acs. fst x div 16 = start div 16" using assms(4) Cons ac by (auto simp: addresses_ok_def)
  show ?thesis
  proof (cases "tr_batch (cf_transport cfg)")
    case None
    have "hd run \<in> set acs" if "run \<in> set (chunk_by same_run acs)" for run
    proof -
      have "set run \<subseteq> set (concat (chunk_by same_run acs))" using that by auto
      then show ?thesis using chunk_by_runs [OF that] by (auto simp: chunk_by_concat)
    qed
    then have runs: "\<forall>run \<in> set (chunk_by same_run acs). run \<noteq> [] \<and> (\<forall>x \<in> set run. same_run (hd run) x)
        \<and> ap_location v3 (fq_ap ap) (fst (hd run)) \<noteq> None"
      using chunk_by_runs [of _ acs] assms(4) by (auto simp: addresses_ok_def)
    show ?thesis
      using replay_runs_ready [OF assms(1-3) runs, of n] that bank None Cons ac by (auto simp: access_raw_ap_registers_def)
  next
    case (Some batch)
    obtain l where "ap_location v3 (fq_ap ap) start = Some l" using assms(4) Cons ac by (auto simp: addresses_ok_def)
    then obtain s1 where s1: "select_ap_and_ap_bank cfg (arm_calls cfg (Suc (Suc n))) ap start s0 = (Ok (), s1)" "ready (ai_transport s1)"
      by (rule ap_ready [OF s0 assms(3)])
    obtain ws t2 where t2: "batch acs (ai_transport s1) = (Ok ws, t2)" "ready t2"
      using ready_law [OF s1(2), of "AccessList acs"] Some Cons by (auto simp: tr_do.simps)
    have "access_raw_ap_registers cfg (arm_calls cfg (Suc (Suc n))) ap acs s = (Ok ws, s1\<lparr>ai_transport := t2\<rparr>)"
      using bank Some s1(1) t2(1) unfolding access_raw_ap_registers_def s0_def
      by (simp add: Cons ac sbind_def on_transport_def)
    then show ?thesis using that t2(2) by simp
  qed
qed

end

subsection \<open>A memory AP behind the transport\<close>

lemma ap_run_registers:
  "ap_run limit la acs v = Some (v', es) \<Longrightarrow> x \<in> set acs \<Longrightarrow> fst x \<in> {CSW, TAR, TAR2, DRW}"
proof (induction acs arbitrary: v es)
  case (Cons ac acs)
  then show ?case by (cases ac) (fastforce simp: ap_step_def split: option.splits if_splits)
qed simp

lemma register_banks:
  "y \<in> {CSW, TAR, TAR2, DRW} \<Longrightarrow> y div 16 = 0xD0 \<and> 4 dvd y \<and> y < 2 ^ 64"
  by (auto simp: register_addresses)

text \<open>
  The registers of the AP \<open>ap\<close> among those of all APs: they run the machine of a memory AP.
\<close>

locale memory_behind = ready_transport cfg v3 space view down ready
  for cfg :: "'t arm_config" and v3 and space :: "'m ap_space" and view down ready +
  fixes ap :: fq_ap_address and limit :: nat and la :: bool
    and cell_view :: "ap_view \<Rightarrow> 'm \<Rightarrow> bool" and cells :: "'m \<Rightarrow> flat"
  assumes cells_aligned: "4 dvd limit" and cells_limit: "limit + 0x400 \<le> 2 ^ 64" and cells_narrow: "la \<or> limit < 2 ^ 32"
    and cells_law: "cell_view v m \<Longrightarrow> cells m = av_mem v"
    and cells_access: "cell_view v m \<Longrightarrow> space_list space (unlocated acs (place_of (fq_ap ap))) m = (ws, m') \<Longrightarrow>
      ap_run limit la acs v = Some (v', es) \<Longrightarrow> cell_view v' m' \<and> list_all2 word_ok es ws"
    and registers_there: "y \<in> {CSW, TAR, TAR2, DRW} \<Longrightarrow> ap_location v3 (fq_ap ap) y \<noteq> None"
begin

definition stack_view :: "ap_view \<Rightarrow> 't arm_interface \<Rightarrow> bool" where
  "stack_view v s \<longleftrightarrow> in_sync (fq_dp ap) s \<and> ready (ai_transport s) \<and> cell_view v (dt_aps (view (ai_transport s)))"

definition stack_cells :: "'t arm_interface \<Rightarrow> flat" where
  "stack_cells s = cells (dt_aps (view (ai_transport s)))"

lemma run_addresses:
  assumes "ap_run limit la acs v = Some (v', es)"
  shows "\<forall>x \<in> set acs. addresses_ok (fq_ap ap) (fst (hd acs)) (fst x) \<and> fst x < 2 ^ 64"
proof
  fix x
  assume x: "x \<in> set acs"
  then have "hd acs \<in> set acs" by (cases acs) auto
  then show "addresses_ok (fq_ap ap) (fst (hd acs)) (fst x) \<and> fst x < 2 ^ 64"
    using ap_run_registers [OF assms] x register_banks registers_there unfolding addresses_ok_def by metis
qed

lemma stack_access:
  assumes "stack_view v s" "ap_run limit la acs v = Some (v', es)"
  obtains ws s' where "da_access (arm_dap cfg (Suc (Suc n)) ap) acs s = (Ok ws, s')" "stack_view v' s'" "list_all2 word_ok es ws"
proof -
  have s: "in_sync (fq_dp ap) s" "ready (ai_transport s)" "cell_view v (dt_aps (view (ai_transport s)))"
    using assms(1) by (simp_all add: stack_view_def)
  note addr = run_addresses [OF assms(2)]
  obtain ws s' where a: "access_raw_ap_registers cfg (arm_calls cfg (Suc (Suc n))) ap acs s = (Ok ws, s')" "ready (ai_transport s')"
    by (rule access_ready [OF s(1,2) refl]) (use addr in auto)
  have "in_sync (fq_dp ap) s'" by (rule access_list_sync [OF s(1) refl _ a(1)]) simp
  moreover note cells_access [OF s(3) access_list_value [OF s(1) refl a(1) addr] assms(2)]
  ultimately show ?thesis using that [of ws s'] a by (simp add: arm_dap_def stack_view_def)
qed

lemma stack_reliable: "reliable_ap (arm_dap cfg (Suc (Suc n)) ap) limit la stack_view stack_cells"
proof unfold_locales
  show "4 dvd limit" by (rule cells_aligned)
  show "limit \<le> 2 ^ 64" "limit + 0x400 \<le> 2 ^ 64" using cells_limit by simp_all
  show "la \<or> limit < 2 ^ 32" by (rule cells_narrow)
  show "stack_view v d \<Longrightarrow> stack_cells d = av_mem v" for v d
    using cells_law by (simp add: stack_view_def stack_cells_def)
  show "stack_view v d \<Longrightarrow> da_access (arm_dap cfg (Suc (Suc n)) ap) acs d = (Ok ws, d') \<Longrightarrow>
      ap_run limit la acs v = Some (v', es) \<Longrightarrow> stack_view v' d' \<and> list_all2 word_ok es ws" for v d acs ws d' v' es
    using stack_access [of v d acs v' es n] by fastforce
  show "stack_view v d \<Longrightarrow> ap_run limit la acs v = Some (v', es) \<Longrightarrow>
      \<exists>ws d'. da_access (arm_dap cfg (Suc (Suc n)) ap) acs d = (Ok ws, d')" for v d acs v' es
    using stack_access [of v d acs v' es n] by blast
qed

end

sublocale memory_behind \<subseteq> stack: reliable_ap "arm_dap cfg (Suc (Suc n)) ap" limit la stack_view stack_cells for n
  by (rule stack_reliable)

end
