(* ===== verification/Swd_Refuse.thy ===== *)
theory Swd_Refuse
  imports Swd_Block
begin

text \<open>
  The SWD port from any state of the target, one that refuses transfers because of an earlier error
  included: a batch is executed as a whole, or a prefix of it is and the port reports a transfer error.
\<close>

locale refusing_probe = wait_probe +
  assumes refused: "reg_batch b \<Longrightarrow> \<not> ready s \<Longrightarrow>
    (\<exists>rs s'. sp_run_batch probe held b s = (Ok rs, s') \<and> distinct (map fst rs)
       \<and> map_of rs = wire_values regs held (batch_ops b) (view s) Map.empty \<and> view s' = final_regs regs (batch_ops b) (view s))
    \<or> (\<exists>f s'. sp_run_batch probe held b s = (Err f, s') \<and> sf_error f = SwdTransfer FaultResponse \<and> view s' = view s)"
begin

lemma retry_outcome:
  assumes "reg_batch b" "idle \<le> idle_step st" "idle_room (n * idle_step st) (batch_ops b)"
  shows "(\<exists>rs s'. retry_batch probe st held n b collected idle s = (Ok rs, s')
      \<and> map_of rs = wire_values regs held (batch_ops b) (view s) (map_of collected) \<and> view s' = final_regs regs (batch_ops b) (view s))
    \<or> (\<exists>e j s'. retry_batch probe st held n b collected idle s = (Err (PortTransfer e), s') \<and> e \<in> {WaitResponse, FaultResponse}
      \<and> view s' = final_regs regs (take j (only_transfers (batch_ops b))) (view s))"
proof (cases "ready s")
  case True
  from retry_prefix [OF assms(1) True assms(2,3), of held collected] show ?thesis by blast
next
  case False
  show ?thesis
  proof (cases n)
    case 0
    obtain rs s' where "sp_run_batch probe (\<lambda>_. False) (abort_batch st) s = (Ok rs, s')" "view s' = view s"
      using abort_runs by blast
    then show ?thesis by (auto simp: 0 write_abort_dap_def probe_batch_def sbind_def intro!: exI [of _ 0])
  next
    case (Suc m)
    from refused [OF assms(1) False, of held] show ?thesis
    proof (elim disjE exE conjE)
      fix rs s'
      assume "sp_run_batch probe held b s = (Ok rs, s')" "distinct (map fst rs)"
        "map_of rs = wire_values regs held (batch_ops b) (view s) Map.empty" "view s' = final_regs regs (batch_ops b) (view s)"
      then show ?thesis
        using wire_values_base [of regs held "batch_ops b" "view s" "map_of collected"] by (simp add: Suc merge_all)
    next
      fix f s'
      assume f: "sp_run_batch probe held b s = (Err f, s')" "sf_error f = SwdTransfer FaultResponse" "view s' = view s"
      obtain rs2 s2 where c: "sp_run_batch probe (\<lambda>_. False) (clear_batch probe st) s' = (Ok rs2, s2)" "view s2 = view s'"
        using clear_runs by blast
      have "clear_overrun_and_sticky_err probe st s' = (Ok (), s2)"
        by (simp add: clear_overrun_and_sticky_err_def probe_batch_def sbind_def c(1))
      then have "retry_batch probe st held n b collected idle s = (Err (PortTransfer FaultResponse), s2)"
        using f(1,2) by (simp add: Suc sbind_def)
      then show ?thesis using c(2) f(3) by (auto intro!: exI [of _ 0])
    qed
  qed
qed

lemma port_outcome:
  assumes "reg_batch b" "retry_room st (batch_ops b)" "known_ids fresh (batch_ops b)" "chained held (batch_ops b)"
  shows "(\<exists>out s'. swd_port_run probe held fresh (swd_port_new st) b s = (Ok (out, swd_port_new st), s')
      \<and> map_of out = logical_values regs held (batch_ops b) (view s) Map.empty
      \<and> view s' = final_regs regs (batch_ops b) (view s))
    \<or> (\<exists>e j s'. swd_port_run probe held fresh (swd_port_new st) b s = (Err (PortTransfer e), s') \<and> e \<in> {WaitResponse, FaultResponse}
      \<and> view s' = final_regs regs (take j (only_transfers (batch_ops b))) (view s))"
proof -
  let ?plan = "port_plan held fresh st b"
  have wire: "\<forall>x \<in> set (batch_ops b). wire_op (snd x)" using assms(1) reg_wire by (auto simp: reg_batch_def)
  note plan = port_plan_facts [OF assms(1,2), where held = held and fresh = fresh]
  from retry_outcome [OF plan(1) first_idle plan(2), of "plan_held ?plan" results_new s] show ?thesis
  proof (elim disjE exE conjE)
    fix e j s'
    assume "retry_batch probe st (plan_held ?plan) (num_retries_after_wait st) (ep_expanded ?plan) results_new
        (max 1 (num_idle_cycles_between_writes st)) s = (Err (PortTransfer e), s')" "e \<in> {WaitResponse, FaultResponse}"
      "view s' = final_regs regs (take j (only_transfers (batch_ops (ep_expanded ?plan)))) (view s)"
    then show ?thesis
      using xops_prefix [OF wire, of regs j held st fresh "view s"]
      by (auto simp: port_run_new [OF assms(1)] Let_def sbind_def plan)
  next
    fix rs s'
    assume "retry_batch probe st (plan_held ?plan) (num_retries_after_wait st) (ep_expanded ?plan) results_new
        (max 1 (num_idle_cycles_between_writes st)) s = (Ok rs, s')"
      "map_of rs = wire_values regs (plan_held ?plan) (batch_ops (ep_expanded ?plan)) (view s) (map_of results_new)"
      "view s' = final_regs regs (batch_ops (ep_expanded ?plan)) (view s)"
    then show ?thesis using port_ok [OF assms] by (metis plan(6))
  qed
qed

lemma block_outcome:
  assumes "read_ap_block False fresh addr (Suc n) (swd_port_new st, batch_new) = (h, self, b)" "addr \<in> {0, 4, 8, 12}"
    "retry_room st []" "held = (\<lambda>k. k \<in> set (concat (po_block_handles self)) \<or> k = fst h)"
  shows "(\<exists>out s'. swd_port_run probe held (fresh + Suc (Suc n)) self b s = (Ok (out, swd_port_new st), s')
      \<and> fst (results_take out h) = (Ok (Some (ap_values regs addr (Suc n) (fst (view s)))) :: ('e, u32 list option) res)
      \<and> fst (view s') = ap_reads_regs regs addr (Suc n) (fst (view s)))
    \<or> (\<exists>e j s'. swd_port_run probe held (fresh + Suc (Suc n)) self b s = (Err (PortTransfer e), s') \<and> e \<in> {WaitResponse, FaultResponse}
      \<and> view s' = final_regs regs (take j (only_transfers (batch_ops b))) (view s))"
proof -
  define F where "F = fresh + Suc (Suc n)"
  define plan where "plan = port_plan held F st b"
  note bb = block_batch [OF assms(1-3)]
  note facts = port_plan_facts [OF bb(1,2), where held = held and fresh = F, folded plan_def]
  have wire: "\<forall>x \<in> set (batch_ops b). wire_op (snd x)" using bb(1) reg_wire by (auto simp: reg_batch_def)
  from retry_outcome [OF facts(1) first_idle facts(2), of "plan_held plan" results_new s] show ?thesis
  proof (elim disjE exE conjE)
    fix e j s'
    assume "retry_batch probe st (plan_held plan) (num_retries_after_wait st) (ep_expanded plan) results_new
        (max 1 (num_idle_cycles_between_writes st)) s = (Err (PortTransfer e), s')" "e \<in> {WaitResponse, FaultResponse}"
      "view s' = final_regs regs (take j (only_transfers (batch_ops (ep_expanded plan)))) (view s)"
    then show ?thesis
      using xops_prefix [OF wire, of regs j held st F "view s"] facts
      unfolding F_def [symmetric] by (auto simp: port_run_eq [OF bb(1,3)] Let_def sbind_def plan_def [symmetric])
  next
    fix rs s'
    assume r: "retry_batch probe st (plan_held plan) (num_retries_after_wait st) (ep_expanded plan) results_new
        (max 1 (num_idle_cycles_between_writes st)) s = (Ok rs, s')"
      "map_of rs = wire_values regs (plan_held plan) (batch_ops (ep_expanded plan)) (view s) (map_of results_new)"
      "view s' = final_regs regs (batch_ops (ep_expanded plan)) (view s)"
    from block_ok [OF assms(1-4) plan_def [unfolded F_def] r] show ?thesis by blast
  qed
qed

text \<open>With enough retries for the WAITs to come the batch is executed, and there are enough after it.\<close>

definition enough :: "swd_settings \<Rightarrow> 'a \<Rightarrow> bool" where
  "enough st s \<longleftrightarrow> ready s \<and> waits s < num_retries_after_wait st"

lemma port_outcome_enough:
  assumes "reg_batch b" "retry_room st (batch_ops b)" "known_ids fresh (batch_ops b)" "chained held (batch_ops b)"
  shows "(\<exists>out s'. swd_port_run probe held fresh (swd_port_new st) b s = (Ok (out, swd_port_new st), s')
      \<and> (enough st s \<longrightarrow> enough st s')
      \<and> map_of out = logical_values regs held (batch_ops b) (view s) Map.empty
      \<and> view s' = final_regs regs (batch_ops b) (view s))
    \<or> (\<exists>e j s'. \<not> enough st s \<and> swd_port_run probe held fresh (swd_port_new st) b s = (Err (PortTransfer e), s')
      \<and> e \<in> {WaitResponse, FaultResponse} \<and> view s' = final_regs regs (take j (only_transfers (batch_ops b))) (view s))"
proof (cases "enough st s")
  case True
  then show ?thesis
    using port_runs_batch [OF assms(1) _ _ assms(2-4), of s] by (fastforce simp: enough_def)
next
  case False
  then show ?thesis using port_outcome [OF assms, of s] by blast
qed

lemma block_outcome_enough:
  assumes "read_ap_block False fresh addr (Suc n) (swd_port_new st, batch_new) = (h, self, b)" "addr \<in> {0, 4, 8, 12}"
    "retry_room st []" "held = (\<lambda>k. k \<in> set (concat (po_block_handles self)) \<or> k = fst h)"
  shows "(\<exists>out s'. swd_port_run probe held (fresh + Suc (Suc n)) self b s = (Ok (out, swd_port_new st), s')
      \<and> (enough st s \<longrightarrow> enough st s')
      \<and> fst (results_take out h) = (Ok (Some (ap_values regs addr (Suc n) (fst (view s)))) :: ('e, u32 list option) res)
      \<and> fst (view s') = ap_reads_regs regs addr (Suc n) (fst (view s)))
    \<or> (\<exists>e j s'. \<not> enough st s \<and> swd_port_run probe held (fresh + Suc (Suc n)) self b s = (Err (PortTransfer e), s')
      \<and> e \<in> {WaitResponse, FaultResponse} \<and> view s' = final_regs regs (take j (only_transfers (batch_ops b))) (view s))"
proof (cases "enough st s")
  case True
  then show ?thesis
    using port_reads_block [OF assms(1,2) _ _ assms(3,4), of s] by (fastforce simp: enough_def)
next
  case False
  then show ?thesis using block_outcome [OF assms, of s] by blast
qed

end

subsection \<open>The target that reports overruns\<close>

lemma sticky_ref:
  assumes "at_sticky t" "\<forall>x \<in> set ops. reg_op (snd x)" "distinct (map fst rs)"
  shows "(\<exists>rs'. ref_ops (adi_target regs) held i ops rs t = Ok rs' \<and> distinct (map fst rs')
      \<and> map_of rs' = wire_values regs held ops (target_view t) (map_of rs) \<and> final_regs regs ops (target_view t) = target_view t)
    \<or> (\<exists>f. ref_ops (adi_target regs) held i ops rs t = Err f \<and> sf_error f = SwdTransfer FaultResponse)"
  using assms(2,3)
proof (induction ops arbitrary: rs i)
  case (Cons x ops)
  obtain k op where x: "x = (k, op)" by fastforce
  show ?case
  proof (cases op)
    case (Transfer p a d v)
    have op: "reg_op (Transfer p a d v)" using Cons.prems(1) by (simp add: x Transfer)
    then have a: "reg_addr (a2 a) (a3 a) = a" "\<not> is_abort (Transfer p a d v)" using reg_addr_bits by (auto simp: reg_op_def)
    show ?thesis
    proof (cases "p = Dp \<and> d = Read \<and> (a = DP_ABORT_ADDR \<or> a = DP_CTRL_ADDR)")
      case True
      have acc: "accept regs p a d v (target_view t) = (ar_dp_read regs a (at_regs t), target_view t)"
        using True by (auto simp: target_view_def DP_ABORT_ADDR_def DP_CTRL_ADDR_def DP_RDBUFF_ADDR_def)
      have tr: "tg_transfer (adi_target regs) p a d v t = (AckOk (ar_dp_read regs a (at_regs t)), t)"
        using True a by (auto simp: tg_transfer_def adi_target_def adi_step_def Let_def)
      define rs1 where "rs1 = (if held k then results_push rs k (CrU32 (ar_dp_read regs a (at_regs t))) else rs)"
      have d1: "distinct (map fst rs1)" "map_of rs1 = (if held k then (map_of rs)(k \<mapsto> CrU32 (ar_dp_read regs a (at_regs t))) else map_of rs)"
        using Cons.prems(2) by (auto simp: rs1_def results_push_def update_conv' distinct_update)
      have "ref_ops (adi_target regs) held i (x # ops) rs t = ref_ops (adi_target regs) held (i + 1) ops rs1 t"
        "wire_values regs held (x # ops) (target_view t) (map_of rs) = wire_values regs held ops (target_view t) (map_of rs1)"
        "final_regs regs (x # ops) (target_view t) = final_regs regs ops (target_view t)"
        using True tr acc d1(2) by (simp_all add: x Transfer rs1_def)
      moreover have "\<forall>x \<in> set ops. reg_op (snd x)" using Cons.prems(1) by simp
      ultimately show ?thesis using Cons.IH [OF _ d1(1), of "i + 1"] by simp
    next
      case False
      then have "tg_transfer (adi_target regs) p a d v t = (AckFault, t)"
        using assms(1) a by (cases p; cases d) (auto simp: tg_transfer_def adi_target_def adi_step_def Let_def)
      then show ?thesis by (simp add: x Transfer)
    qed
  next
    case (Idle n)
    show ?thesis using Cons.IH [OF _ Cons.prems(2), of "i + 1"] Cons.prems(1) by (simp add: x Idle)
  qed (use Cons.prems in \<open>simp_all add: x reg_op_def\<close>)
qed simp

interpretation swr: refusing_probe "swd_wire_probe regs" regs target_view "\<lambda>t. \<not> at_sticky t" target_waits
  for regs :: "'r adi_regs"
proof unfold_locales
  fix b held and s :: "'r adi_target"
  assume b: "reg_batch b" and s: "\<not> \<not> at_sticky s"
  have ok: "batch_ok b" and reg: "\<forall>x \<in> set (batch_ops b). reg_op (snd x)" using b by (auto simp: reg_batch_def)
  have run: "sp_run_batch (swd_wire_probe regs) held b s
     = (ref_ops (adi_target regs) held 0 (batch_ops b) [] s, exec_ops (adi_target regs) (batch_ops b) s)"
    using wire_batch [OF ok] reg reg_wire by blast
  have same: "exec_ops (adi_target regs) (batch_ops b) s = s" using sticky_exec [OF _ reg] s by simp
  show "(\<exists>rs s'. sp_run_batch (swd_wire_probe regs) held b s = (Ok rs, s') \<and> distinct (map fst rs)
       \<and> map_of rs = wire_values regs held (batch_ops b) (target_view s) Map.empty
       \<and> target_view s' = final_regs regs (batch_ops b) (target_view s))
    \<or> (\<exists>f s'. sp_run_batch (swd_wire_probe regs) held b s = (Err f, s') \<and> sf_error f = SwdTransfer FaultResponse
       \<and> target_view s' = target_view s)"
    using sticky_ref [OF _ reg, of s "[]" regs held 0] s unfolding run same by auto
qed

end
