(* ===== verification/Arm_Swd.thy ===== *)
theory Arm_Swd
  imports Arm_Memory Swd_Refuse
begin

text \<open>
  The transport over an SWD probe (\<open>SwdTransport\<close> of
  probe-rs/src/architecture/arm/communication_interface.rs) and its contract on the wire: it does the
  accesses of a debug port with a SELECT register.
\<close>

subsection \<open>The transport\<close>

fun transfer_error_to_dap :: "swd_transfer_error \<Rightarrow> wire_protocol \<Rightarrow> dap_error" where
  "transfer_error_to_dap NoAcknowledge protocol = DapNoAcknowledge"
| "transfer_error_to_dap WaitResponse protocol = DapWaitResponse"
| "transfer_error_to_dap FaultResponse protocol = DapFaultResponse"
| "transfer_error_to_dap IncorrectParity protocol = DapIncorrectParity"
| "transfer_error_to_dap ProtocolError protocol = DapProtocol protocol"

text \<open>Which error a probe reports is left out.\<close>

fun port_error_to_arm :: "swd_port_error \<Rightarrow> arm_error" where
  "port_error_to_arm (PortTransfer e) = ArmDap (transfer_error_to_dap e WireSwd)"
| "port_error_to_arm (PortProbe e) = ArmProbe 0"

definition with_port ::
  "swd_settings \<Rightarrow> (swd_port \<Rightarrow> ('p, swd_port_error, 'a) rsm) \<Rightarrow> ('p, arm_error, 'a) rsm" where
  "with_port st f = map_err port_error_to_arm (f (swd_port_new st))"

definition taken :: "results \<Rightarrow> (swd_port_error, 'a) handle \<Rightarrow> (swd_port_error, 'a) res" where
  "taken out h = rbind (fst (results_take out h)) (\<lambda>x. case x of Some v \<Rightarrow> Ok v | None \<Rightarrow> Panic)"

text \<open>A block read of \<open>count\<close> words.\<close>

definition port_read_block ::
  "'p swd_probe \<Rightarrow> u8 \<Rightarrow> nat \<Rightarrow> swd_port \<Rightarrow> ('p, swd_port_error, u32 list) rsm" where
  "port_read_block probe addr count port =
     (case read_ap_block (sp_handles_ap_pipeline probe) 0 addr count (port, batch_new) of
        (h, port, batch) \<Rightarrow>
          sbind (swd_port_run probe (\<lambda>k. k \<in> set (concat (po_block_handles port)) \<or> k = fst h) (0 + Suc count) port batch)
            (\<lambda>(out, _). slift (taken out h)))"

definition swd_tr_read :: "'p swd_probe \<Rightarrow> swd_settings \<Rightarrow> register_address \<Rightarrow> ('p, arm_error, u32) rsm" where
  "swd_tr_read probe st register =
     (let addr = a2_and_3 register in
      if is_ap register
      then with_port st (\<lambda>port. sbind (port_read_block probe addr 1 port) (\<lambda>vs. slift (nth_r vs 0)))
      else with_port st (\<lambda>port.
             (case swd_read 0 Dp addr batch_new of
                (h, batch) \<Rightarrow> sbind (swd_port_run probe (\<lambda>k. k = fst h) 1 port batch) (\<lambda>(out, _). slift (taken out h)))))"

definition swd_tr_write :: "'p swd_probe \<Rightarrow> swd_settings \<Rightarrow> register_address \<Rightarrow> u32 \<Rightarrow> ('p, arm_error, unit) rsm" where
  "swd_tr_write probe st register value =
     with_port st (\<lambda>port.
       sbind (swd_port_run probe (\<lambda>_. False) 1 port
                (swd_write 0 (if is_ap register then Ap else Dp) (a2_and_3 register) value batch_new)) (\<lambda>_. sret ()))"

definition swd_tr_read_repeated :: "'p swd_probe \<Rightarrow> swd_settings \<Rightarrow> u8 \<Rightarrow> nat \<Rightarrow> ('p, arm_error, u32 list) rsm" where
  "swd_tr_read_repeated probe st address count =
     with_port st (\<lambda>port. sbind (port_read_block probe (a2_and_3 (ApRegister address)) count port) (\<lambda>vs.
       slift (if length vs = count then Ok vs else Panic)))"

definition swd_tr_write_repeated :: "'p swd_probe \<Rightarrow> swd_settings \<Rightarrow> u8 \<Rightarrow> u32 list \<Rightarrow> ('p, arm_error, unit) rsm" where
  "swd_tr_write_repeated probe st address values =
     with_port st (\<lambda>port.
       sbind (swd_port_run probe (\<lambda>_. False) (Suc (length values)) port
                (write_ap_block (sp_handles_ap_pipeline probe) 0 (a2_and_3 (ApRegister address)) values batch_new)) (\<lambda>_. sret ()))"

text \<open>The list of accesses as one batch; the handles of the reads are kept.\<close>

fun schedule_accesses ::
  "nat \<Rightarrow> ap_accesses \<Rightarrow> swd_batch \<Rightarrow> (swd_port_error, u32) handle list \<times> swd_batch" where
  "schedule_accesses fresh [] batch = ([], batch)"
| "schedule_accesses fresh ((address, Some value) # acs) batch =
     schedule_accesses (fresh + 1) acs (swd_write fresh Ap (a2_and_3 (ApRegister (ap_register address))) value batch)"
| "schedule_accesses fresh ((address, None) # acs) batch =
     (case swd_read fresh Ap (a2_and_3 (ApRegister (ap_register address))) batch of
        (h, batch) \<Rightarrow> (case schedule_accesses (fresh + 1) acs batch of (hs, batch) \<Rightarrow> (h # hs, batch)))"

definition swd_access_ap :: "'p swd_probe \<Rightarrow> swd_settings \<Rightarrow> ap_accesses \<Rightarrow> ('p, arm_error, u32 list) rsm" where
  "swd_access_ap probe st accesses =
     with_port st (\<lambda>port.
       (case schedule_accesses 0 accesses batch_new of
          (hs, batch) \<Rightarrow>
            sbind (swd_port_run probe (\<lambda>k. k \<in> set (map fst hs)) (length accesses) port batch) (\<lambda>(out, _).
              slift (rtraverse (taken out) hs))))"

definition swd_transport :: "'p swd_probe \<Rightarrow> swd_settings \<Rightarrow> 'p dap_transport" where
  "swd_transport probe st =
     \<lparr>tr_read = swd_tr_read probe st, tr_write = swd_tr_write probe st,
      tr_read_repeated = swd_tr_read_repeated probe st, tr_write_repeated = swd_tr_write_repeated probe st,
      tr_batch = Some (swd_access_ap probe st), tr_flush = sret ()\<rparr>"

subsection \<open>Its batches\<close>

lemma ap_place_cases: "ap_place a \<in> {0, 4, 8, 12}"
proof -
  let ?x = "take_bit 2 (drop_bit 2 a)"
  have "ap_place a = push_bit 2 ?x"
  proof (rule bit_word_eqI)
    fix k assume "k < LENGTH(8)"
    have "bit (push_bit 2 ?x) k \<longleftrightarrow> 2 \<le> k \<and> k < 8 \<and> k - 2 < 2 \<and> bit a (2 + (k - 2))"
      unfolding bit_push_bit_iff bit_take_bit_iff bit_drop_bit_eq by auto
    moreover have "2 \<le> k \<Longrightarrow> bit a (2 + (k - 2)) = bit a k" by (simp only: le_add_diff_inverse)
    moreover have "2 \<le> k \<and> k < 8 \<and> k - 2 < 2 \<longleftrightarrow> k = 2 \<or> k = 3" by auto
    ultimately have "bit (push_bit 2 ?x) k \<longleftrightarrow> bit a k \<and> (k = 2 \<or> k = 3)" by blast
    then show "bit (ap_place a) k = bit (push_bit 2 ?x) k"
      unfolding ap_place_def a2_and_3_def reg_lsb.simps bit_and_iff twelve_bits by simp
  qed
  moreover have "unat ?x < 4" using take_bit_nat_less_exp [of 2 "unat (drop_bit 2 a)"] by (simp add: unsigned_take_bit_eq)
  then have "unat ?x = 0 \<or> unat ?x = 1 \<or> unat ?x = 2 \<or> unat ?x = 3" by auto
  then have "?x = 0 \<or> ?x = 1 \<or> ?x = 2 \<or> ?x = 3" by (simp add: word_unat_eq_iff)
  ultimately show ?thesis by auto
qed

lemma dp_place: "dp_reg_ok d \<Longrightarrow> a2_and_3 (DpRegister d) = dr_address d"
  by (auto simp: dp_reg_ok_def a2_and_3_def)

text \<open>Operations that leave the selection alone.\<close>

definition calm :: "swd_op \<Rightarrow> bool" where
  "calm op \<longleftrightarrow> (case op of Transfer p a d v \<Rightarrow> p = Ap \<or> d = Read | _ \<Rightarrow> True)"

lemma calm_select:
  "\<forall>x \<in> set ops. calm (snd x) \<Longrightarrow> same_select r (fst (final_regs (dp_regs v3 space) ops (r, buf)))"
proof (induction ops arbitrary: r buf)
  case (Cons x ops)
  obtain k op where x: "x = (k, op)" by fastforce
  show ?case
  proof (cases op)
    case (Transfer p a d v)
    obtain y r1 buf1 where acc: "accept (dp_regs v3 space) p a d v (r, buf) = (y, r1, buf1)" by (cases "accept (dp_regs v3 space) p a d v (r, buf)")
    have "same_select r r1"
      using acc Cons.prems x Transfer
      by (cases p; cases d) (auto simp: calm_def same_select_def dp_regs_def split: prod.splits)
    moreover have "same_select r1 (fst (final_regs (dp_regs v3 space) ops (r1, buf1)))" using Cons by simp
    ultimately show ?thesis by (simp add: x Transfer acc same_select_def)
  qed (use Cons x in simp_all)
qed (simp add: same_select_def)

lemma only_transfers_sub: "x \<in> set (take j (only_transfers ops)) \<Longrightarrow> x \<in> set ops"
  by (auto simp: only_transfers_def dest: in_set_takeD)

text \<open>A register operation by itself.\<close>

definition one_op :: "handle_id \<Rightarrow> swd_op \<Rightarrow> swd_batch" where
  "one_op k op = \<lparr>commands = [(k, op)], cursor = 0\<rparr>"

lemma one_op_simps [simp]: "batch_ops (one_op k op) = [(k, op)]" "batch_ok (one_op k op)"
  by (simp_all add: one_op_def batch_ops_def batch_ok_def)

lemma swd_write_new: "swd_write k p a v batch_new = one_op k (Transfer p a Write v)"
  by (simp add: swd_write_def batch_schedule_def batch_new_def one_op_def)

lemma swd_read_new: "swd_read k p a batch_new = ((k, \<lambda>r. rbind (Ok r) into_u32), one_op k (Transfer p a Read 0))"
  by (simp add: swd_read_def batch_schedule_def batch_new_def one_op_def handle_map_def handle_from_id_def)

definition settings_ok :: "swd_settings \<Rightarrow> bool" where
  "settings_ok st \<longleftrightarrow> retry_room st []"

lemma settings_room: "settings_ok st \<Longrightarrow> \<forall>x \<in> set ops. is_transfer (snd x) \<Longrightarrow> retry_room st ops"
  by (induction ops) (auto simp: settings_ok_def retry_room_def idle_room_def Let_def elim!: is_transfer.elims)

text \<open>A target that waits fewer times than the port retries, and what an access over the wire comes to.\<close>

definition answering :: "swd_settings \<Rightarrow> 'r adi_target \<Rightarrow> bool" where
  "answering st t \<longleftrightarrow> \<not> at_sticky t \<and> length (filter id (at_busy t)) < num_retries_after_wait st"

lemma enough_answering [simp]: "swr.enough st t = answering st t"
  by (simp add: swr.enough_def answering_def target_waits_def)

definition swd_result ::
  "swd_settings \<Rightarrow> bool \<Rightarrow> 'm ap_space \<Rightarrow> dap_access \<Rightarrow> 'm dp_target adi_target \<Rightarrow> (arm_error, u32 list) res \<times> 'm dp_target adi_target \<Rightarrow> bool" where
  "swd_result st v3 space acc t rt \<longleftrightarrow>
     (\<exists>xs. fst rt = Ok xs \<and> (answering st t \<longrightarrow> answering st (snd rt)) \<and> hw_do (dp_regs v3 space) acc (at_regs t) = (xs, at_regs (snd rt)))
     \<or> (\<exists>e. \<not> answering st t \<and> fst rt = Err e \<and> \<not> is_link_lost e \<and> (selects v3 acc (at_regs t) \<or> same_select (at_regs t) (at_regs (snd rt))))"

lemma wait_fault_not_lost: "e \<in> {WaitResponse, FaultResponse} \<Longrightarrow> \<not> is_link_lost (port_error_to_arm (PortTransfer e))"
  by auto

subsection \<open>Accesses over the wire\<close>

abbreviation wire_transport :: "bool \<Rightarrow> 'm ap_space \<Rightarrow> swd_settings \<Rightarrow> 'm dp_target adi_target dap_transport" where
  "wire_transport v3 space st \<equiv> swd_transport (swd_wire_probe (dp_regs v3 space)) st"

lemma wire_flags [simp]: "\<not> sp_handles_ap_pipeline (swd_wire_probe regs)" "\<not> sp_handles_wait (swd_wire_probe regs)"
  by (simp_all add: swd_wire_probe_def)

lemma calm_prefix:
  "\<forall>x \<in> set ops. calm (snd x) \<Longrightarrow>
     same_select r (fst (final_regs (dp_regs v3 space) (take j (only_transfers ops)) (r, buf)))"
  by (rule calm_select) (auto dest: only_transfers_sub)

lemma one_prefix:
  "final_regs regs (take j (only_transfers [(k, Transfer p a d v)])) m \<in> {m, final_regs regs [(k, Transfer p a d v)] m}"
  by (cases j) (simp_all add: only_transfers_def)

text \<open>The write of one register, other than ABORT.\<close>

lemma wire_write_result:
  assumes "settings_ok st" "case r of DpRegister d \<Rightarrow> dp_reg_ok d \<and> dr_address d \<noteq> 0 | ApRegister a \<Rightarrow> True"
  shows "swd_result st v3 space (WriteReg r v) t (tr_do (wire_transport v3 space st) (WriteReg r v) t)"
proof -
  define p where "p = (if is_ap r then Ap else Dp)"
  define a where "a = a2_and_3 r"
  let ?regs = "dp_regs v3 space" and ?op = "Transfer p a Write v"
  have a: "a \<in> {0, 4, 8, 12}" "p = Dp \<Longrightarrow> a \<noteq> 0"
    using assms(2) ap_place_cases dp_place by (cases r; auto simp: a_def p_def ap_place_def dp_reg_ok_def)+
  then have op: "reg_op ?op" by (cases p) (auto simp: reg_op_def DP_ABORT_ADDR_def)
  have hyps: "reg_batch (one_op 0 ?op)" "retry_room st (batch_ops (one_op 0 ?op))" "known_ids 1 (batch_ops (one_op 0 ?op))"
    "chained (\<lambda>_. False) (batch_ops (one_op 0 ?op))"
    using op settings_room [OF assms(1)] by (simp_all add: reg_batch_def known_ids_def)
  have tr: "tr_do (wire_transport v3 space st) (WriteReg r v) t =
      (case swd_port_run (swd_wire_probe ?regs) (\<lambda>_. False) 1 (swd_port_new st) (one_op 0 ?op) t of
         (Ok _, t) \<Rightarrow> (Ok [], t) | (Err e, t) \<Rightarrow> (Err (port_error_to_arm e), t) | (Panic, t) \<Rightarrow> (Panic, t))"
    by (auto simp: tr_do.simps swd_transport_def swd_tr_write_def with_port_def map_err_def swd_write_new sbind_def p_def a_def
        split: prod.splits res.splits)
  obtain r1 buf1 where fin: "final_regs ?regs [(0, ?op)] (at_regs t, at_buffer t) = (r1, buf1)" by fastforce
  have hw: "hw_do ?regs (WriteReg r v) (at_regs t) = ([], r1)"
    using fin assms(2) dp_place
    by (cases r) (auto simp: p_def a_def ap_place_def DP_ABORT_ADDR_def split: prod.splits)
  from swr.port_outcome_enough [OF hyps, of ?regs t] show ?thesis
  proof (elim disjE exE conjE)
    fix out t'
    assume n: "swr.enough st t \<longrightarrow> swr.enough st t'"
      and o: "swd_port_run (swd_wire_probe ?regs) (\<lambda>_. False) 1 (swd_port_new st) (one_op 0 ?op) t = (Ok (out, swd_port_new st), t')"
      "target_view t' = final_regs ?regs (batch_ops (one_op 0 ?op)) (target_view t)"
    then show ?thesis using n fin hw unfolding swd_result_def tr by (auto simp: target_view_def)
  next
    fix e j t'
    assume n: "\<not> swr.enough st t"
      and o: "swd_port_run (swd_wire_probe ?regs) (\<lambda>_. False) 1 (swd_port_new st) (one_op 0 ?op) t = (Err (PortTransfer e), t')"
      "e \<in> {WaitResponse, FaultResponse}"
      "target_view t' = final_regs ?regs (take j (only_transfers (batch_ops (one_op 0 ?op)))) (target_view t)"
    have "at_regs t' \<in> {at_regs t, r1}"
      using o(3) one_prefix [of ?regs j 0 p a Write v "(at_regs t, at_buffer t)"] fin by (auto simp: target_view_def)
    then have "selects v3 (WriteReg r v) (at_regs t) \<or> same_select (at_regs t) (at_regs t')"
      using unselected_same [OF _ hw] by (auto simp: same_select_def)
    then show ?thesis using n o(1) wait_fault_not_lost [OF o(2)] unfolding swd_result_def tr by auto
  qed
qed

text \<open>The read of a register of the debug port.\<close>

lemma wire_read_dp_result:
  assumes "settings_ok st" "dp_reg_ok d"
  shows "swd_result st v3 space (ReadReg (DpRegister d)) t (tr_do (wire_transport v3 space st) (ReadReg (DpRegister d)) t)"
proof -
  let ?regs = "dp_regs v3 space" and ?a = "dr_address d"
  let ?b = "one_op 0 (Transfer Dp ?a Read 0)" and ?held = "\<lambda>k. k = (0 :: nat)"
  let ?h = "(0, \<lambda>r. rbind (Ok r) into_u32) :: (swd_port_error, u32) handle"
  have a: "?a \<in> {0, 4, 8}" using assms(2) by (simp add: dp_reg_ok_def)
  then have hyps: "reg_batch ?b" "retry_room st (batch_ops ?b)" "known_ids 1 (batch_ops ?b)" "chained ?held (batch_ops ?b)"
    using settings_room [OF assms(1)] by (auto simp: reg_batch_def known_ids_def reg_op_def)
  have tr: "tr_do (wire_transport v3 space st) (ReadReg (DpRegister d)) t =
      (case swd_port_run (swd_wire_probe ?regs) ?held 1 (swd_port_new st) ?b t of
         (Ok (out, _), t) \<Rightarrow>
           (case taken out ?h of Ok x \<Rightarrow> (Ok [x], t) | Err e \<Rightarrow> (Err (port_error_to_arm e), t) | Panic \<Rightarrow> (Panic, t))
       | (Err e, t) \<Rightarrow> (Err (port_error_to_arm e), t) | (Panic, t) \<Rightarrow> (Panic, t))"
    by (auto simp: tr_do.simps swd_transport_def swd_tr_read_def with_port_def map_err_def swd_read_new sbind_def dp_place [OF assms(2)]
        split: prod.splits res.splits)
  from swr.port_outcome_enough [OF hyps, of ?regs t] show ?thesis
  proof (elim disjE exE conjE)
    fix out t'
    assume n: "swr.enough st t \<longrightarrow> swr.enough st t'"
      and o: "swd_port_run (swd_wire_probe ?regs) ?held 1 (swd_port_new st) ?b t = (Ok (out, swd_port_new st), t')"
      "map_of out = logical_values ?regs ?held (batch_ops ?b) (target_view t) Map.empty"
      "target_view t' = final_regs ?regs (batch_ops ?b) (target_view t)"
    have "map_of out 0 = Some (CrU32 (ar_dp_read ?regs ?a (at_regs t)))" "at_regs t' = at_regs t"
      using o(2,3) a by (auto simp: target_view_def DP_RDBUFF_ADDR_def)
    then show ?thesis using n o(1) unfolding swd_result_def tr by (simp add: taken_def results_take_def)
  next
    fix e j t'
    assume n: "\<not> swr.enough st t"
      and o: "swd_port_run (swd_wire_probe ?regs) ?held 1 (swd_port_new st) ?b t = (Err (PortTransfer e), t')"
      "e \<in> {WaitResponse, FaultResponse}"
      "target_view t' = final_regs ?regs (take j (only_transfers (batch_ops ?b))) (target_view t)"
    have "same_select (at_regs t) (at_regs t')"
      using calm_prefix [of "batch_ops ?b" "at_regs t" v3 space j "at_buffer t"] o(3)
      by (cases "final_regs ?regs (take j (only_transfers (batch_ops ?b))) (target_view t)") (auto simp: target_view_def calm_def)
    then show ?thesis using n o(1) wait_fault_not_lost [OF o(2)] unfolding swd_result_def tr by auto
  qed
qed

lemma hw_list_reads: "hw_list regs (replicate n (a, None)) r = (ap_values regs a n r, ap_reads_regs regs a n r)"
  by (induction n arbitrary: r) (auto split: prod.split)

lemma block_calm: "\<forall>x \<in> set (block_ops a ks e). calm (snd x)"
  by (auto simp: block_ops_def ap_read_ops_def calm_def)

text \<open>A block read, of one word too.\<close>

lemma wire_block_result:
  assumes "settings_ok st"
  obtains t' where "port_read_block (swd_wire_probe (dp_regs v3 space)) (ap_place a) (Suc n) (swd_port_new st) t
      = (Ok (ap_values (dp_regs v3 space) (ap_place a) (Suc n) (at_regs t)), t')"
      "at_regs t' = ap_reads_regs (dp_regs v3 space) (ap_place a) (Suc n) (at_regs t)" "answering st t \<longrightarrow> answering st t'"
  | e t' where "port_read_block (swd_wire_probe (dp_regs v3 space)) (ap_place a) (Suc n) (swd_port_new st) t = (Err (PortTransfer e), t')"
      "e \<in> {WaitResponse, FaultResponse}" "same_select (at_regs t) (at_regs t')" "\<not> answering st t"
proof -
  let ?regs = "dp_regs v3 space"
  obtain h self b where rb: "read_ap_block False 0 (ap_place a) (Suc n) (swd_port_new st, batch_new)
      = (h :: (swd_port_error, u32 list) handle, self, b)" by (metis prod_cases3)
  define held where "held = (\<lambda>k. k \<in> set (concat (po_block_handles self)) \<or> k = fst h)"
  have run: "port_read_block (swd_wire_probe ?regs) (ap_place a) (Suc n) (swd_port_new st) t
      = (case swd_port_run (swd_wire_probe ?regs) held (0 + Suc (Suc n)) self b t of
           (Ok (out, _), t) \<Rightarrow> (taken out h, t) | (Err e, t) \<Rightarrow> (Err e, t) | (Panic, t) \<Rightarrow> (Panic, t))"
    unfolding port_read_block_def wire_flags(1) [THEN Eq_FalseI] rb prod.case held_def
    by (auto simp: sbind_def split: prod.splits res.splits)
  have room: "retry_room st []" using assms by (simp add: settings_ok_def)
  from swr.block_outcome_enough [OF rb ap_place_cases room held_def, of ?regs t] show ?thesis
  proof (elim disjE exE conjE)
    fix out t'
    assume n: "swr.enough st t \<longrightarrow> swr.enough st t'"
      and o: "swd_port_run (swd_wire_probe ?regs) held (0 + Suc (Suc n)) self b t = (Ok (out, swd_port_new st), t')"
      "fst (results_take out h) = Ok (Some (ap_values ?regs (ap_place a) (Suc n) (fst (target_view t))))"
      "fst (target_view t') = ap_reads_regs ?regs (ap_place a) (Suc n) (fst (target_view t))"
    then show ?thesis using that(1) [of t'] n run by (simp add: taken_def target_view_def del: ap_values.simps ap_reads_regs.simps)
  next
    fix e j t'
    assume n: "\<not> swr.enough st t"
      and o: "swd_port_run (swd_wire_probe ?regs) held (0 + Suc (Suc n)) self b t = (Err (PortTransfer e), t')"
      "e \<in> {WaitResponse, FaultResponse}"
      "target_view t' = final_regs ?regs (take j (only_transfers (batch_ops b))) (target_view t)"
    have "same_select (at_regs t) (at_regs t')"
      using calm_prefix [of "batch_ops b" "at_regs t" v3 space j "at_buffer t"] o(3) block_calm read_ap_block_eq(1) [OF rb]
      by (cases "final_regs ?regs (take j (only_transfers (batch_ops b))) (target_view t)") (auto simp: target_view_def)
    then show ?thesis using that(2) [of e t'] n o(1,2) run by simp
  qed
qed

lemma wire_read_ap_result:
  assumes "settings_ok st"
  shows "swd_result st v3 space (ReadReg (ApRegister a)) t (tr_do (wire_transport v3 space st) (ReadReg (ApRegister a)) t)"
proof -
  let ?regs = "dp_regs v3 space"
  have tr: "tr_do (wire_transport v3 space st) (ReadReg (ApRegister a)) t =
      (case port_read_block (swd_wire_probe ?regs) (ap_place a) (Suc 0) (swd_port_new st) t of
         (Ok vs, t) \<Rightarrow> (rbind (nth_r vs 0) (\<lambda>x. Ok [x]), t) | (Err e, t) \<Rightarrow> (Err (port_error_to_arm e), t) | (Panic, t) \<Rightarrow> (Panic, t))"
    by (auto simp: tr_do.simps swd_transport_def swd_tr_read_def with_port_def map_err_def sbind_def ap_place_def nth_r_def
        split: prod.splits res.splits)
  show ?thesis
  proof (rule wire_block_result [OF assms, of v3 space a 0 t])
    fix t'
    assume "port_read_block (swd_wire_probe ?regs) (ap_place a) (Suc 0) (swd_port_new st) t
        = (Ok (ap_values ?regs (ap_place a) (Suc 0) (at_regs t)), t')"
      "at_regs t' = ap_reads_regs ?regs (ap_place a) (Suc 0) (at_regs t)" "answering st t \<longrightarrow> answering st t'"
    then show ?thesis unfolding swd_result_def tr by (auto simp: nth_r_def split: prod.split)
  next
    fix e t'
    assume o: "port_read_block (swd_wire_probe ?regs) (ap_place a) (Suc 0) (swd_port_new st) t = (Err (PortTransfer e), t')"
      "e \<in> {WaitResponse, FaultResponse}" "same_select (at_regs t) (at_regs t')" "\<not> answering st t"
    then show ?thesis using wait_fault_not_lost [OF o(2)] unfolding swd_result_def tr by auto
  qed
qed

lemma wire_read_repeated_result:
  assumes "settings_ok st" "n \<noteq> 0"
  shows "swd_result st v3 space (ReadRepeat a n) t (tr_do (wire_transport v3 space st) (ReadRepeat a n) t)"
proof -
  let ?regs = "dp_regs v3 space"
  obtain m where n: "n = Suc m" using assms(2) by (cases n) auto
  have tr: "tr_do (wire_transport v3 space st) (ReadRepeat a n) t =
      (case port_read_block (swd_wire_probe ?regs) (ap_place a) n (swd_port_new st) t of
         (Ok vs, t) \<Rightarrow> (if length vs = n then Ok vs else Panic, t) | (Err e, t) \<Rightarrow> (Err (port_error_to_arm e), t) | (Panic, t) \<Rightarrow> (Panic, t))"
    by (auto simp: tr_do.simps swd_transport_def swd_tr_read_repeated_def with_port_def map_err_def sbind_def ap_place_def
        split: prod.splits res.splits)
  show ?thesis
  proof (rule wire_block_result [OF assms(1), of v3 space a m t])
    fix t'
    assume "port_read_block (swd_wire_probe ?regs) (ap_place a) (Suc m) (swd_port_new st) t
        = (Ok (ap_values ?regs (ap_place a) (Suc m) (at_regs t)), t')"
      "at_regs t' = ap_reads_regs ?regs (ap_place a) (Suc m) (at_regs t)" "answering st t \<longrightarrow> answering st t'"
    then show ?thesis
      unfolding swd_result_def tr by (simp add: n hw_list_reads del: ap_values.simps ap_reads_regs.simps replicate_Suc)
  next
    fix e t'
    assume o: "port_read_block (swd_wire_probe ?regs) (ap_place a) (Suc m) (swd_port_new st) t = (Err (PortTransfer e), t')"
      "e \<in> {WaitResponse, FaultResponse}" "same_select (at_regs t) (at_regs t')" "\<not> answering st t"
    then show ?thesis using wait_fault_not_lost [OF o(2)] unfolding swd_result_def tr by (auto simp: n)
  qed
qed

end
