(* ===== verification/Arm_Wire.thy ===== *)
theory Arm_Wire
  imports Arm_Swd
begin

text \<open>
  Lists of accesses and block writes over the wire, the write of ABORT, and the contract of the
  interface on the wire: the locales of the interface hold for the SWD transport.
\<close>

text \<open>A list of AP accesses as operations.\<close>

fun access_ops :: "nat \<Rightarrow> (u8 \<times> u32 option) list \<Rightarrow> (handle_id \<times> swd_op) list" where
  "access_ops i [] = []"
| "access_ops i ((a, x) # acs) =
     (i, case x of None \<Rightarrow> Transfer Ap a Read 0 | Some v \<Rightarrow> Transfer Ap a Write v) # access_ops (i + 1) acs"

fun read_ids :: "nat \<Rightarrow> (u8 \<times> u32 option) list \<Rightarrow> handle_id list" where
  "read_ids i [] = []"
| "read_ids i ((a, None) # acs) = i # read_ids (i + 1) acs"
| "read_ids i ((a, Some v) # acs) = read_ids (i + 1) acs"

definition placed_list :: "ap_accesses \<Rightarrow> (u8 \<times> u32 option) list" where
  "placed_list acs = map (\<lambda>(a, x). (ap_place (ap_register a), x)) acs"

lemma access_ops_ids: "map fst (access_ops i acs) = [i..<i + length acs]"
proof (induction i acs rule: access_ops.induct)
  case (2 i a x acs)
  then show ?case by (simp add: upt_conv_Cons del: upt_Suc)
qed simp

lemma read_ids_range: "k \<in> set (read_ids i acs) \<Longrightarrow> i \<le> k \<and> k < i + length acs"
  by (induction i acs rule: read_ids.induct) auto

lemma access_ops_ok:
  "\<forall>(a, x) \<in> set acs. a \<in> {0, 4, 8, 12} \<Longrightarrow>
     \<forall>x \<in> set (access_ops i acs). reg_op (snd x) \<and> calm (snd x) \<and> is_transfer (snd x)"
  by (induction i acs rule: access_ops.induct) (auto simp: reg_op_def calm_def split: option.split)

lemma access_ops_final:
  "fst (final_regs regs (access_ops i acs) (r, buf)) = snd (hw_list regs acs r)"
proof (induction acs arbitrary: i r buf)
  case (Cons ac acs)
  then show ?case by (cases ac; cases "snd ac") (auto split: prod.split)
qed simp

lemma access_ops_values:
  assumes "\<forall>k \<in> set (read_ids i acs). held k"
  shows "(\<forall>k < i. logical_values regs held (access_ops i acs) (r, buf) f k = f k)
    \<and> map (logical_values regs held (access_ops i acs) (r, buf) f) (read_ids i acs) = map (\<lambda>w. Some (CrU32 w)) (fst (hw_list regs acs r))"
  using assms
proof (induction acs arbitrary: i r buf f)
  case (Cons ac acs)
  obtain a x where ac: "ac = (a, x)" by fastforce
  show ?case
  proof (cases x)
    case None
    obtain y r1 where y: "ar_ap_read regs a r = (y, r1)" by fastforce
    define g where "g = f(i \<mapsto> CrU32 y)"
    have "\<forall>k \<in> set (read_ids (i + 1) acs). held k" "held i" using Cons.prems ac None by auto
    from Cons.IH [OF this(1), of r1 y g] this(2)
    have IH: "\<forall>k < Suc i. logical_values regs held (access_ops (Suc i) acs) (r1, y) g k = g k"
      "map (logical_values regs held (access_ops (Suc i) acs) (r1, y) g) (read_ids (Suc i) acs) = map (\<lambda>w. Some (CrU32 w)) (fst (hw_list regs acs r1))"
      by simp_all
    have eq: "logical_values regs held (access_ops i (ac # acs)) (r, buf) f = logical_values regs held (access_ops (Suc i) acs) (r1, y) g"
      using y \<open>held i\<close> by (simp add: ac None g_def)
    have "g i = Some (CrU32 y)" "\<forall>k < i. g k = f k" by (simp_all add: g_def)
    then show ?thesis unfolding eq using IH y by (simp add: ac None split: prod.split)
  next
    case (Some v)
    obtain y r1 where y: "ar_ap_write regs a v r = (y, r1)" by fastforce
    have "\<forall>k \<in> set (read_ids (i + 1) acs). held k" using Cons.prems ac Some by auto
    from Cons.IH [OF this, of r1 y f] show ?thesis using y by (auto simp: ac Some)
  qed
qed simp

lemma access_ops_chained:
  "\<forall>k \<in> set (read_ids i acs). held k \<Longrightarrow> chained held (access_ops i acs)"
proof (induction acs arbitrary: i)
  case (Cons ac acs)
  obtain a x where ac: "ac = (a, x)" by fastforce
  have IH: "chained held (access_ops (i + 1) acs)" using Cons ac by (cases x) auto
  have "case next_transfer (access_ops (i + 1) acs) of Some (k', n) \<Rightarrow> is_ap_read n \<or> is_rdbuff_read n \<longrightarrow> held k' | None \<Rightarrow> True"
    using Cons.prems ac
    by (cases acs; cases x; cases "snd (hd acs)") (auto split: prod.splits option.splits)
  then show ?case using IH by (simp add: ac)
qed simp

text \<open>The whole list as a batch, without or with a read of the read buffer behind it.\<close>

lemma schedule_access_ops:
  "batch_ok b \<Longrightarrow> schedule_accesses i acs b = (hs, b') \<Longrightarrow>
     batch_ok b' \<and> batch_ops b' = batch_ops b @ access_ops i (placed_list acs)
     \<and> hs = map (\<lambda>k. (k, \<lambda>r. rbind (Ok r) into_u32)) (read_ids i (placed_list acs))"
proof (induction i acs b arbitrary: hs b' rule: schedule_accesses.induct)
  case (2 fresh address v acs b)
  have "batch_ok (swd_write fresh Ap (a2_and_3 (ApRegister (ap_register address))) v b)
    \<and> batch_ops (swd_write fresh Ap (a2_and_3 (ApRegister (ap_register address))) v b)
      = batch_ops b @ [(fresh, Transfer Ap (ap_place (ap_register address)) Write v)]"
    using "2.prems"(1) by (auto simp: swd_write_def batch_schedule_def batch_ok_def batch_ops_def ap_place_def)
  then show ?case using "2.IH" [of hs b'] "2.prems"(2) by (simp add: placed_list_def)
next
  case (3 fresh address acs b)
  obtain h b1 where rd: "swd_read fresh Ap (a2_and_3 (ApRegister (ap_register address))) b = (h :: (swd_port_error, u32) handle, b1)" by fastforce
  obtain hs1 b2 where sc: "schedule_accesses (fresh + 1) acs b1 = (hs1, b2)" by fastforce
  have "batch_ok b1 \<and> batch_ops b1 = batch_ops b @ [(fresh, Transfer Ap (ap_place (ap_register address)) Read 0)]
    \<and> h = (fresh, \<lambda>r. rbind (Ok r) into_u32)"
    using rd "3.prems"(1)
    by (auto simp: swd_read_def batch_schedule_def batch_ok_def batch_ops_def ap_place_def handle_map_def handle_from_id_def)
  then show ?case using "3.IH" [OF rd [symmetric] _ sc] "3.prems"(2) rd sc by (auto simp: placed_list_def)
qed (simp add: placed_list_def)

lemma placed_list_ok: "\<forall>(a, x) \<in> set (placed_list acs). a \<in> {0, 4, 8, 12}"
  using ap_place_cases by (fastforce simp: placed_list_def)

lemma taken_reads:
  assumes "map f ks = map (\<lambda>w. Some (CrU32 w)) ws" "map_of out = f"
  shows "rtraverse (taken out) (map (\<lambda>k. (k, \<lambda>r. rbind (Ok r) into_u32)) ks) = Ok ws"
  using assms
proof (induction ks arbitrary: ws)
  case (Cons k ks)
  then obtain w ws' where ws: "ws = w # ws'" "f k = Some (CrU32 w)" "map f ks = map (\<lambda>w. Some (CrU32 w)) ws'" by (cases ws) auto
  then have "taken out (k, \<lambda>r. rbind (Ok r) into_u32) = Ok w" using Cons.prems(2) by (simp add: taken_def results_take_def)
  then show ?case using Cons.IH [OF ws(3)] Cons.prems(2) ws(1) by simp
qed simp

lemma wire_list_result:
  assumes "settings_ok st" "acs \<noteq> []"
  shows "swd_result st v3 space (AccessList acs) t (tr_do (wire_transport v3 space st) (AccessList acs) t)"
proof -
  let ?regs = "dp_regs v3 space" and ?as = "placed_list acs"
  obtain hs b where sc: "schedule_accesses 0 acs batch_new = (hs, b)" by fastforce
  have new: "batch_ok batch_new" "batch_ops batch_new = []" by (simp_all add: batch_new_def batch_ok_def batch_ops_def)
  from schedule_access_ops [OF new(1) sc] new(2)
  have b: "batch_ok b" "batch_ops b = access_ops 0 ?as" "hs = map (\<lambda>k. (k, \<lambda>r. rbind (Ok r) into_u32)) (read_ids 0 ?as)" by auto
  define held where "held = (\<lambda>k. k \<in> set (map fst hs))"
  have held: "\<forall>k \<in> set (read_ids 0 ?as). held k" by (auto simp: held_def b(3))
  note ops = access_ops_ok [OF placed_list_ok, of 0 acs]
  have "known_ids (length acs) (batch_ops b)"
  proof -
    have "map fst (batch_ops b) = [0..<length acs]" using access_ops_ids [of 0 ?as] by (simp add: b(2) placed_list_def)
    then have "distinct (map fst (batch_ops b))" "\<forall>k \<in> set (map fst (batch_ops b)). k < length acs" by simp_all
    then show ?thesis by (auto simp: known_ids_def)
  qed
  moreover have "reg_batch b" "retry_room st (batch_ops b)" "chained held (batch_ops b)"
    using ops b settings_room [OF assms(1)] access_ops_chained [OF held] by (auto simp: reg_batch_def)
  ultimately have hyps: "reg_batch b" "retry_room st (batch_ops b)" "known_ids (length acs) (batch_ops b)" "chained held (batch_ops b)" by blast+
  have tr: "tr_do (wire_transport v3 space st) (AccessList acs) t =
      (case swd_port_run (swd_wire_probe ?regs) held (length acs) (swd_port_new st) b t of
         (Ok (out, _), t) \<Rightarrow>
           (case rtraverse (taken out) hs of Ok ws \<Rightarrow> (Ok ws, t) | Err e \<Rightarrow> (Err (port_error_to_arm e), t) | Panic \<Rightarrow> (Panic, t))
       | (Err e, t) \<Rightarrow> (Err (port_error_to_arm e), t) | (Panic, t) \<Rightarrow> (Panic, t))"
    unfolding held_def
    by (auto simp: tr_do.simps swd_transport_def swd_access_ap_def with_port_def map_err_def sbind_def sc
        split: prod.splits res.splits)
  from swr.port_outcome_enough [OF hyps, of ?regs t] show ?thesis
  proof (elim disjE exE conjE)
    fix out t'
    assume n: "swr.enough st t \<longrightarrow> swr.enough st t'"
      and o: "swd_port_run (swd_wire_probe ?regs) held (length acs) (swd_port_new st) b t = (Ok (out, swd_port_new st), t')"
      "map_of out = logical_values ?regs held (batch_ops b) (target_view t) Map.empty"
      "target_view t' = final_regs ?regs (batch_ops b) (target_view t)"
    have "rtraverse (taken out) hs = Ok (fst (hw_list ?regs ?as (at_regs t)))"
      unfolding b(3)
      by (rule taken_reads [OF _ o(2)])
        (use access_ops_values [OF held, of ?regs "at_regs t" "at_buffer t" Map.empty] in \<open>simp only: b(2) target_view_def\<close>)
    moreover have "at_regs t' = snd (hw_list ?regs ?as (at_regs t))"
      using arg_cong [OF o(3), of fst] access_ops_final [of ?regs 0 ?as "at_regs t" "at_buffer t"] by (simp add: target_view_def b(2))
    ultimately show ?thesis using n o(1) unfolding swd_result_def tr
      by (simp add: placed_list_def [symmetric])
  next
    fix e j t'
    assume n: "\<not> swr.enough st t"
      and o: "swd_port_run (swd_wire_probe ?regs) held (length acs) (swd_port_new st) b t = (Err (PortTransfer e), t')"
      "e \<in> {WaitResponse, FaultResponse}"
      "target_view t' = final_regs ?regs (take j (only_transfers (batch_ops b))) (target_view t)"
    have "same_select (at_regs t) (at_regs t')"
      using calm_prefix [of "batch_ops b" "at_regs t" v3 space j "at_buffer t"] o(3) ops
      by (cases "final_regs ?regs (take j (only_transfers (batch_ops b))) (target_view t)") (auto simp: target_view_def b(2))
    then show ?thesis using n o(1) wait_fault_not_lost [OF o(2)] unfolding swd_result_def tr by auto
  qed
qed

text \<open>A block write: the writes, and a read of the read buffer behind them.\<close>

lemma write_each_ops:
  "batch_ok b \<Longrightarrow> batch_ok (write_each i a vs b)
     \<and> batch_ops (write_each i a vs b) = batch_ops b @ access_ops i (map (\<lambda>v. (a, Some v)) vs)"
proof (induction i a vs b rule: write_each.induct)
  case (2 fresh addr v vs b)
  have "batch_ok (swd_write fresh Ap addr v b) \<and> batch_ops (swd_write fresh Ap addr v b) = batch_ops b @ [(fresh, Transfer Ap addr Write v)]"
    using "2.prems" by (auto simp: swd_write_def batch_schedule_def batch_ok_def batch_ops_def)
  then show ?case using "2.IH" by simp
qed simp

lemma calm_chained: "chained (\<lambda>_. False) ops"
  by (induction ops) auto

lemma wire_write_repeated_result:
  assumes "settings_ok st"
  shows "swd_result st v3 space (WriteRepeat a vs) t (tr_do (wire_transport v3 space st) (WriteRepeat a vs) t)"
proof -
  let ?regs = "dp_regs v3 space" and ?as = "map (\<lambda>v. (ap_place a, Some v)) vs"
  define b where "b = write_ap_block False 0 (ap_place a) vs batch_new"
  have new: "batch_ok batch_new" "batch_ops batch_new = []" by (simp_all add: batch_new_def batch_ok_def batch_ops_def)
  have b: "batch_ok b" "batch_ops b = access_ops 0 ?as @ [(length vs, Transfer Dp DP_RDBUFF_ADDR Read 0)]"
    using write_each_ops [OF new(1), of 0 "ap_place a" vs] new(2)
    by (auto simp: b_def write_ap_block_def batch_schedule_def batch_ok_def batch_ops_def Let_def)
  have "\<forall>(a, x) \<in> set ?as. a \<in> {0, 4, 8, 12}" using ap_place_cases by auto
  note ops = access_ops_ok [OF this, of 0]
  have "map fst (batch_ops b) = [0..<Suc (length vs)]" using access_ops_ids [of 0 ?as] by (simp add: b(2))
  then have "distinct (map fst (batch_ops b))" "\<forall>k \<in> set (map fst (batch_ops b)). k < Suc (length vs)" by (simp_all del: upt_Suc)
  then have "known_ids (Suc (length vs)) (batch_ops b)" by (auto simp: known_ids_def)
  moreover have "reg_batch b" "\<forall>x \<in> set (batch_ops b). is_transfer (snd x)" "\<forall>x \<in> set (batch_ops b). calm (snd x)"
    using ops b by (auto simp: reg_batch_def reg_op_def DP_RDBUFF_ADDR_def calm_def)
  ultimately have hyps: "reg_batch b" "retry_room st (batch_ops b)" "known_ids (Suc (length vs)) (batch_ops b)"
    "chained (\<lambda>_. False) (batch_ops b)" and calm: "\<forall>x \<in> set (batch_ops b). calm (snd x)"
    using settings_room [OF assms] calm_chained by blast+
  have tr: "tr_do (wire_transport v3 space st) (WriteRepeat a vs) t =
      (case swd_port_run (swd_wire_probe ?regs) (\<lambda>_. False) (Suc (length vs)) (swd_port_new st) b t of
         (Ok _, t) \<Rightarrow> (Ok [], t) | (Err e, t) \<Rightarrow> (Err (port_error_to_arm e), t) | (Panic, t) \<Rightarrow> (Panic, t))"
    unfolding b_def
    by (auto simp: tr_do.simps swd_transport_def swd_tr_write_repeated_def with_port_def map_err_def sbind_def ap_place_def
        split: prod.splits res.splits)
  have hw: "hw_list ?regs ?as r = ([], snd (hw_list ?regs ?as r))" for r
    by (induction vs arbitrary: r) auto
  from swr.port_outcome_enough [OF hyps, of ?regs t] show ?thesis
  proof (elim disjE exE conjE)
    fix out t'
    assume n: "swr.enough st t \<longrightarrow> swr.enough st t'"
      and o: "swd_port_run (swd_wire_probe ?regs) (\<lambda>_. False) (Suc (length vs)) (swd_port_new st) b t = (Ok (out, swd_port_new st), t')"
        "target_view t' = final_regs ?regs (batch_ops b) (target_view t)"
    have "final_regs ?regs [(k, Transfer Dp DP_RDBUFF_ADDR Read 0)] m = m" for k and m :: "'a dp_target \<times> u32" by (cases m) simp
    then have "at_regs t' = snd (hw_list ?regs ?as (at_regs t))"
      using arg_cong [OF o(2), of fst] access_ops_final [of ?regs 0 ?as "at_regs t" "at_buffer t"]
      by (simp add: target_view_def b(2) final_regs_append)
    then have "hw_do ?regs (WriteRepeat a vs) (at_regs t) = ([], at_regs t')" using hw [of "at_regs t"] by simp
    then show ?thesis using n o(1) unfolding swd_result_def tr by simp
  next
    fix e j t'
    assume n: "\<not> swr.enough st t"
      and o: "swd_port_run (swd_wire_probe ?regs) (\<lambda>_. False) (Suc (length vs)) (swd_port_new st) b t = (Err (PortTransfer e), t')"
        "e \<in> {WaitResponse, FaultResponse}"
        "target_view t' = final_regs ?regs (take j (only_transfers (batch_ops b))) (target_view t)"
    have "same_select (at_regs t) (at_regs t')"
      using calm_prefix [OF calm, of "at_regs t" v3 space j "at_buffer t"] arg_cong [OF o(3), of fst] by (simp add: target_view_def)
    then show ?thesis using n o(1) wait_fault_not_lost [OF o(2)] unfolding swd_result_def tr by auto
  qed
qed

text \<open>The write of ABORT is answered in any state.\<close>

lemma abort_run:
  "\<exists>t'. swd_port_run (swd_wire_probe regs) (\<lambda>_. False) 1 (swd_port_new st) (one_op 0 (Transfer Dp 0 Write v)) t
      = ((if num_retries_after_wait st = 0 then Err (PortTransfer WaitResponse) else Ok ([], swd_port_new st)), t')
    \<and> at_regs t' = at_regs t \<and> at_busy t' = at_busy t \<and> (\<not> at_sticky t \<longrightarrow> \<not> at_sticky t')"
proof -
  let ?op = "Transfer Dp 0 Write v"
  define plan where "plan = fst (expand_batch (\<lambda>_. False) 1 [(0, ?op)] st False)"
  have plan: "batch_ops (ep_expanded plan) = [(1, ?op), (2, Idle (as_u32 (num_idle_cycles_between_writes st))), (6, Idle (as_u32 (idle_cycles_after_transfer st)))]"
    "batch_ok (ep_expanded plan)" "ep_read_handles plan = []" "ep_logical plan = []" "ep_pins plan = []"
    by (simp_all add: plan_def expand_batch_def expand_transfer_def schedule_transfer_def swd_idle_def batch_schedule_def batch_new_def
        extra_rdbuff_needed_def DP_ABORT_ADDR_def batch_ops_def batch_ok_def Let_def)
  have run: "swd_port_run (swd_wire_probe regs) (\<lambda>_. False) 1 (swd_port_new st) (one_op 0 ?op) t =
    sbind (retry_batch (swd_wire_probe regs) st (plan_held plan) (num_retries_after_wait st) (ep_expanded plan) results_new
        (max 1 (num_idle_cycles_between_writes st))) (\<lambda>rs. sret (results_new, swd_port_new st)) t"
    using batch_ok_iter [OF one_op_simps(2), where ?'b = swd_port_error, of 0 ?op]
    by (simp add: swd_port_run_def sbind_def swd_port_new_def Let_def plan_def [symmetric, simplified One_nat_def] plan(3-5) one_op_def
        remap_results_def pins_results_def results_new_def List.map_filter_def split: prod.split res.split)
  show ?thesis
  proof (cases "num_retries_after_wait st")
    case 0
    have ops: "batch_ops (abort_batch st) = [(0, Transfer Dp DP_ABORT_ADDR Write ABORT_DAP_ABORT),
       (1, Idle (as_u32 (num_idle_cycles_between_writes st))), (2, Idle (as_u32 (idle_cycles_after_transfer st)))]"
      "batch_ok (abort_batch st)"
      by (simp_all add: abort_batch_def swd_write_def swd_idle_def batch_schedule_def batch_new_def batch_ops_def batch_ok_def)
    then show ?thesis
      unfolding run
      by (simp add: 0 sbind_def write_abort_dap_def probe_batch_def wire_batch tg_transfer_def adi_target_def adi_step_def Let_def
          reg_addr_bits DP_ABORT_ADDR_def)
  next
    case (Suc n)
    show ?thesis
      unfolding run
      by (simp add: Suc sbind_def wire_batch [OF plan(2)] plan tg_transfer_def adi_target_def adi_step_def Let_def
          reg_addr_bits DP_ABORT_ADDR_def results_new_def)
  qed
qed

lemma wire_abort_result:
  assumes "dp_reg_ok d" "dr_address d = 0"
  shows "swd_result st v3 space (WriteReg (DpRegister d) v) t (tr_do (wire_transport v3 space st) (WriteReg (DpRegister d) v) t)"
proof -
  let ?regs = "dp_regs v3 space"
  obtain t' where t': "swd_port_run (swd_wire_probe ?regs) (\<lambda>_. False) 1 (swd_port_new st) (one_op 0 (Transfer Dp 0 Write v)) t
      = ((if num_retries_after_wait st = 0 then Err (PortTransfer WaitResponse) else Ok ([], swd_port_new st)), t')"
    "at_regs t' = at_regs t" "at_busy t' = at_busy t" "\<not> at_sticky t \<longrightarrow> \<not> at_sticky t'"
    using abort_run [of ?regs st v t] by blast
  have "tr_do (wire_transport v3 space st) (WriteReg (DpRegister d) v) t
      = (if num_retries_after_wait st = 0 then Err (port_error_to_arm (PortTransfer WaitResponse)) else Ok [], t')"
    using t'(1) assms
    by (simp add: tr_do.simps swd_transport_def swd_tr_write_def with_port_def map_err_def swd_write_new sbind_def dp_place)
  then show ?thesis
    using t'(2-4) assms(2) by (auto simp: swd_result_def answering_def same_select_def)
qed

lemma wire_result:
  assumes "settings_ok st" "access_ok (wire_transport v3 space st) acc"
  shows "swd_result st v3 space acc t (tr_do (wire_transport v3 space st) acc t)"
proof (cases acc)
  case (ReadReg r)
  then show ?thesis
    using assms wire_read_dp_result wire_read_ap_result by (cases r) auto
next
  case (WriteReg r v)
  show ?thesis
  proof (cases "\<exists>d. r = DpRegister d \<and> dr_address d = 0")
    case True
    then show ?thesis using assms(2) WriteReg wire_abort_result by auto
  next
    case False
    have "case r of DpRegister d \<Rightarrow> dp_reg_ok d \<and> dr_address d \<noteq> 0 | ApRegister a \<Rightarrow> True"
      using assms(2) WriteReg False by (cases r) auto
    from wire_write_result [OF assms(1) this] show ?thesis by (simp add: WriteReg)
  qed
next
  case (ReadRepeat a n)
  then show ?thesis using assms wire_read_repeated_result by auto
next
  case (WriteRepeat a vs)
  then show ?thesis using assms wire_write_repeated_result by auto
next
  case (AccessList acs)
  then show ?thesis using assms wire_list_result by auto
qed

subsection \<open>The interface on the wire\<close>

definition wire_config :: "swd_settings \<Rightarrow> 'm dp_target adi_target arm_sequence \<Rightarrow> bool \<Rightarrow> 'm ap_space \<Rightarrow> bool \<Rightarrow> 'm dp_target adi_target arm_config" where
  "wire_config st sq v3 space overrun =
     \<lparr>cf_transport = wire_transport v3 space st, cf_sequence = sq, cf_overrun = overrun\<rparr>"

lemma wire_config_simps [simp]:
  "cf_transport (wire_config st sq v3 space overrun) = wire_transport v3 space st"
  "cf_sequence (wire_config st sq v3 space overrun) = sq"
  "tr_batch (wire_transport v3 space st) \<noteq> None"
  by (simp_all add: wire_config_def swd_transport_def)

lemma wire_steady:
  fixes space :: "'m ap_space"
  assumes "settings_ok st"
  shows "steady_transport (wire_config st sq v3 space overrun) v3 space at_regs (\<lambda>_. False)"
proof unfold_locales
  fix t t' :: "'m dp_target adi_target" and acc xs
  assume "access_ok (cf_transport (wire_config st sq v3 space overrun)) acc"
    "tr_do (cf_transport (wire_config st sq v3 space overrun)) acc t = (Ok xs, t')"
  then show "\<not> False \<and> hw_do (dp_regs v3 space) acc (at_regs t) = (xs, at_regs t')"
    using wire_result [OF assms, of v3 space acc t] by (auto simp: swd_result_def)
next
  fix t t' :: "'m dp_target adi_target" and acc e
  assume "access_ok (cf_transport (wire_config st sq v3 space overrun)) acc"
    "tr_do (cf_transport (wire_config st sq v3 space overrun)) acc t = (Err e, t')"
  then show "if is_link_lost e then False else \<not> False \<and> (selects v3 acc (at_regs t) \<or> same_select (at_regs t) (at_regs t'))"
    using wire_result [OF assms, of v3 space acc t] by (auto simp: swd_result_def)
next
  fix t :: "'m dp_target adi_target" and acc
  assume "access_ok (cf_transport (wire_config st sq v3 space overrun)) acc"
  then show "fst (tr_do (cf_transport (wire_config st sq v3 space overrun)) acc t) \<noteq> Panic"
    using wire_result [OF assms, of v3 space acc t] by (auto simp: swd_result_def)
qed simp_all

lemma wire_ready:
  fixes space :: "'m ap_space"
  assumes "settings_ok st"
  shows "ready_transport (wire_config st sq v3 space overrun) v3 space at_regs (\<lambda>_. False) (answering st)"
proof (intro ready_transport.intro ready_transport_axioms.intro wire_steady [OF assms])
  fix t :: "'m dp_target adi_target" and acc
  assume "answering st t" "access_ok (cf_transport (wire_config st sq v3 space overrun)) acc"
  then show "\<exists>xs t'. tr_do (cf_transport (wire_config st sq v3 space overrun)) acc t = (Ok xs, t') \<and> answering st t'"
    using wire_result [OF assms, of v3 space acc t]
    by (cases "tr_do (wire_transport v3 space st) acc t") (auto simp: swd_result_def)
qed

text \<open>The settings that a port starts with are good enough.\<close>

lemma default_settings_ok: "settings_ok default_swd_settings"
  by (simp add: settings_ok_def default_swd_settings_def retry_room_def idle_room_def idle_step_def Let_def)

interpretation wire: ready_transport "wire_config default_swd_settings sq v3 space overrun" v3 space at_regs "\<lambda>_. False"
    "answering default_swd_settings"
  for sq v3 space overrun
  by (rule wire_ready [OF default_settings_ok])

end
