(* ===== verification/Arm_Stack.thy ===== *)
theory Arm_Stack
  imports Arm_Wire Adi_Properties
begin

text \<open>
  The whole stack: the memory interface on the communication interface, over the SWD port and the bits
  of the wire, to a debug port with the mock AP of the crate's tests behind it.
\<close>

subsection \<open>The mock AP behind a debug port\<close>

text \<open>The registers from \<open>b\<close> on are those of the mock; all others read as zero.\<close>

definition mock_space :: "nat \<Rightarrow> mock_ap ap_space" where
  "mock_space b =
     \<lparr>as_read = (\<lambda>l m. if b \<le> l \<and> l < b + 256
        then (case mock_read (0xD00 + (l - b)) m of (Ok x, m) \<Rightarrow> (x, m) | (_, m) \<Rightarrow> (0, m)) else (0, m)),
      as_write = (\<lambda>l v m. if b \<le> l \<and> l < b + 256 then (0, snd (mock_write (0xD00 + (l - b)) v m)) else (0, m))\<rparr>"

lemma mock_space_simps:
  assumes "k < 256"
  shows "as_read (mock_space b) (b + k) m = (case mock_read (0xD00 + k) m of (Ok x, m) \<Rightarrow> (x, m) | (_, m) \<Rightarrow> (0, m))"
    "as_write (mock_space b) (b + k) v m = (0, snd (mock_write (0xD00 + k) v m))"
  using assms by (simp_all add: mock_space_def)

lemma mock_space_run:
  assumes "mock_view limit v m" "ap_run limit False acs v = Some (v', es)" "limit < 2 ^ 32"
    "space_list (mock_space b) (unlocated acs loc) m = (ws, m')"
    "\<forall>y \<in> {CSW, TAR, TAR2, DRW}. loc y = b + (y - 0xD00)"
  shows "mock_view limit v' m' \<and> list_all2 word_ok es ws"
  using assms(1,2,4)
proof (induction acs arbitrary: v m es ws)
  case Nil
  then show ?case by (simp add: unlocated_def)
next
  case (Cons ac acs)
  obtain y x where ac: "ac = (y, x)" by fastforce
  obtain u es1 es2 where u: "ap_step limit False (y, x) v = Some (u, es1)"
    "ap_run limit False acs u = Some (v', es2)" "es = es1 @ es2"
    using Cons.prems(2) ac by (auto split: option.splits)
  have "y \<in> {CSW, TAR, TAR2, DRW}" using ap_run_registers [OF Cons.prems(2), of ac] ac by simp
  then have "loc y = b + (y - 0xD00)" "0xD00 \<le> y" "y < 0xE00"
    using assms(5) by (auto simp: register_addresses)
  then obtain k where k: "y = 0xD00 + k" "loc y = b + k" "k < 256" using that [of "y - 0xD00"] by simp
  show ?case
  proof (cases x)
    case None
    obtain w m1 where r: "mock_read y m = (Ok w, m1)"
      using mock_read_total [OF Cons.prems(1) _ assms(3)] u(1) None by blast
    obtain ws2 where ws: "space_list (mock_space b) (unlocated acs loc) m1 = (ws2, m')" "ws = w # ws2"
      using Cons.prems(3) ac None r k(1,2) mock_space_simps(1) [OF k(3), of b m] by (auto simp: unlocated_def split: prod.splits)
    from mock_read_step [OF Cons.prems(1) r] u(1) None
    have "mock_view limit u m1" "list_all2 word_ok es1 [w]" by simp_all
    with Cons.IH [OF this(1) u(2) ws(1)] u(3) ws(2) list_all2_appendI [of word_ok es1 "[w]" es2 ws2] show ?thesis by simp
  next
    case (Some w)
    obtain m1 where r: "mock_write y w m = (Ok (), m1)"
      using mock_write_total [OF Cons.prems(1) _ assms(3)] u(1) Some by blast
    have ws: "space_list (mock_space b) (unlocated acs loc) m1 = (ws, m')"
      using Cons.prems(3) ac Some r k(1,2) mock_space_simps(2) [OF k(3), of b w m] by (simp add: unlocated_def)
    from mock_write_step [OF Cons.prems(1) r] u(1) Some
    have "mock_view limit u m1" "es1 = []" by simp_all
    with Cons.IH [OF this(1) u(2) ws] u(3) show ?thesis by simp
  qed
qed

lemma mock_behind:
  assumes "settings_ok st" "\<forall>y \<in> {CSW, TAR, TAR2, DRW}. ap_location v3 (fq_ap ap) y = Some (b + (y - 0xD00))"
  shows "memory_behind (wire_config st sq v3 (mock_space b) overrun) v3 (mock_space b) at_regs (\<lambda>_. False) (answering st)
    ap (mock_limit k) False (mock_view (mock_limit k)) mock_mem"
proof (intro memory_behind.intro wire_ready [OF assms(1)] memory_behind_axioms.intro)
  show "4 dvd mock_limit k" "mock_limit k + 0x400 \<le> 2 ^ 64" "False \<or> mock_limit k < 2 ^ 32"
    using mock.limit_aligned mock.limit_window mock.limit_narrow by blast+
  fix v m
  show "mock_view (mock_limit k) v m \<Longrightarrow> mock_mem m = av_mem v" by (rule mock.mem_law)
next
  note steady = wire_steady [OF assms(1), of sq v3 "mock_space b" overrun]
  fix v m acs ws m' v' es
  assume a: "mock_view (mock_limit k) v m"
    "space_list (mock_space b) (unlocated acs (steady_transport.place_of v3 (fq_ap ap))) m = (ws, m')"
    "ap_run (mock_limit k) False acs v = Some (v', es)"
  have small: "mock_limit k < 2 ^ 32" using mock.limit_narrow by blast
  have "\<forall>y \<in> {CSW, TAR, TAR2, DRW}. steady_transport.place_of v3 (fq_ap ap) y = b + (y - 0xD00)"
    using assms(2) by (simp add: steady_transport.place_of_def [OF steady])
  from mock_space_run [OF a(1,3) small a(2) this]
  show "mock_view (mock_limit k) v' m' \<and> list_all2 word_ok es ws" .
next
  show "y \<in> {CSW, TAR, TAR2, DRW} \<Longrightarrow> ap_location v3 (fq_ap ap) y \<noteq> None" for y
    using assms(2) by fastforce
qed

text \<open>An AP of ADIv5 by its number, and one of ADIv6 by its address.\<close>

lemma v1_registers: "\<forall>y \<in> {CSW, TAR, TAR2, DRW}. ap_location False (ApV1 port) y = Some (unat port * 256 + (y - 0xD00))"
  unfolding register_addresses by simp

lemma v2_registers:
  "16 dvd b \<Longrightarrow> b < 2 ^ 63 \<Longrightarrow>
     \<forall>y \<in> {CSW, TAR, TAR2, DRW}. ap_location True (ApV2 (Some b)) y = Some (b + 0xD00 + (y - 0xD00))"
  by (simp add: register_addresses)

interpretation v1_stack: memory_behind
    "wire_config default_swd_settings sq False (mock_space (unat port * 256)) overrun" False "mock_space (unat port * 256)"
    at_regs "\<lambda>_. False" "answering default_swd_settings" "\<lparr>fq_dp = dp, fq_ap = ApV1 port\<rparr>"
    "mock_limit k" False "mock_view (mock_limit k)" mock_mem
  for sq overrun dp port k
  by (rule mock_behind [OF default_settings_ok]) (unfold fq_ap_address.simps, rule v1_registers)

interpretation v2_stack: memory_behind
    "wire_config default_swd_settings sq True (mock_space (16 * unat (b :: 32 word) + 0xD00)) overrun" True
    "mock_space (16 * unat b + 0xD00)" at_regs "\<lambda>_. False" "answering default_swd_settings"
    "\<lparr>fq_dp = dp, fq_ap = ApV2 (Some (16 * unat b))\<rparr>" "mock_limit k" False "mock_view (mock_limit k)" mock_mem
  for sq overrun dp b k
proof (rule mock_behind [OF default_settings_ok])
  have "unat b < 2 ^ LENGTH(32)" by (rule unsigned_less)
  then show "\<forall>y \<in> {CSW, TAR, TAR2, DRW}. ap_location True (fq_ap \<lparr>fq_dp = dp, fq_ap = ApV2 (Some (16 * unat b))\<rparr>) y
      = Some (16 * unat b + 0xD00 + (y - 0xD00))"
    using v2_registers [of "16 * unat b"] by simp
qed

end
