(* ===== verification/Arm_Cut.thy ===== *)
theory Arm_Cut
  imports Arm_Stack
begin

text \<open>
  A wire that can be cut: at any access the link may be lost, until the debug port is connected again.
  Requests of all kinds, in any order, keep the copy of SELECT that the interface holds.
\<close>

subsection \<open>The wire\<close>

text \<open>\<open>cu_cuts\<close> says for each step to come whether the link is lost, or not made again, at it.\<close>

record 't cut =
  cu_target :: 't
  cu_down :: bool
  cu_cuts :: "bool list"

text \<open>What becomes of a target whose link is lost, a parameter, is anything.\<close>

definition cut_step :: "('t \<Rightarrow> 't) \<Rightarrow> ('t, arm_error, 'a) rsm \<Rightarrow> ('t cut, arm_error, 'a) rsm" where
  "cut_step lose q c =
     (if cu_down c \<or> (cu_cuts c \<noteq> [] \<and> hd (cu_cuts c))
      then (Err (ArmDap DapNoAcknowledge), c\<lparr>cu_target := lose (cu_target c), cu_down := True, cu_cuts := tl (cu_cuts c)\<rparr>)
      else (case q (cu_target c) of (r, t) \<Rightarrow> (r, c\<lparr>cu_target := t, cu_cuts := tl (cu_cuts c)\<rparr>)))"

definition cut_transport :: "('t \<Rightarrow> 't) \<Rightarrow> 't dap_transport \<Rightarrow> 't cut dap_transport" where
  "cut_transport lose tp =
     \<lparr>tr_read = (\<lambda>r. cut_step lose (tr_read tp r)), tr_write = (\<lambda>r v. cut_step lose (tr_write tp r v)),
      tr_read_repeated = (\<lambda>a n. cut_step lose (tr_read_repeated tp a n)),
      tr_write_repeated = (\<lambda>a vs. cut_step lose (tr_write_repeated tp a vs)),
      tr_batch = map_option (\<lambda>batch acs. cut_step lose (batch acs)) (tr_batch tp), tr_flush = sret ()\<rparr>"

definition cut_connect :: "('t cut, arm_error, unit) rsm" where
  "cut_connect c =
     (if cu_cuts c \<noteq> [] \<and> hd (cu_cuts c) then (Err (ArmDap DapNoAcknowledge), c\<lparr>cu_cuts := tl (cu_cuts c)\<rparr>)
      else (Ok (), c\<lparr>cu_down := False, cu_cuts := tl (cu_cuts c)\<rparr>))"

definition cut_config ::
  "swd_settings \<Rightarrow> ('m dp_target adi_target \<Rightarrow> 'm dp_target adi_target) \<Rightarrow> 'm dp_target adi_target cut arm_sequence
     \<Rightarrow> bool \<Rightarrow> 'm ap_space \<Rightarrow> bool \<Rightarrow> 'm dp_target adi_target cut arm_config" where
  "cut_config st lose sq v3 space overrun =
     \<lparr>cf_transport = cut_transport lose (wire_transport v3 space st),
      cf_sequence = sq\<lparr>sq_connect := \<lambda>_. cut_connect\<rparr>, cf_overrun = overrun\<rparr>"

definition cut_regs :: "'m dp_target adi_target cut \<Rightarrow> 'm dp_target" where
  "cut_regs c = at_regs (cu_target c)"

lemma sbind_cut: "sbind (cut_step lose q) (\<lambda>x. sret (f x)) c = cut_step lose (sbind q (\<lambda>x. sret (f x))) c"
  by (auto simp: cut_step_def sbind_def split: prod.splits res.splits)

lemma cut_do: "access_ok (cut_transport lose tp) acc \<Longrightarrow> tr_do (cut_transport lose tp) acc c = cut_step lose (tr_do tp acc) c"
proof (cases acc)
  case (ReadReg r)
  then show ?thesis by (simp add: tr_do.simps cut_transport_def sbind_cut)
next
  case (WriteReg r v)
  then show ?thesis by (simp add: tr_do.simps cut_transport_def sbind_cut)
next
  case (WriteRepeat a vs)
  then show ?thesis by (simp add: tr_do.simps cut_transport_def sbind_cut)
qed (auto simp: tr_do.simps cut_transport_def)

lemma cut_access_ok: "access_ok (cut_transport lose tp) acc = access_ok tp acc"
  by (cases "(tp, acc)" rule: access_ok.cases) (simp_all add: cut_transport_def)

lemma cut_selecting:
  fixes space :: "'m ap_space"
  assumes "settings_ok st"
  shows "selecting_transport (cut_config st lose sq v3 space overrun) v3 space cut_regs cu_down"
proof -
  let ?cfg = "cut_config st lose sq v3 space overrun"
  have tp: "cf_transport ?cfg = cut_transport lose (wire_transport v3 space st)" by (simp add: cut_config_def)
  have do: "tr_do (cf_transport ?cfg) acc c = cut_step lose (tr_do (wire_transport v3 space st) acc) c"
    "access_ok (wire_transport v3 space st) acc" if "access_ok (cf_transport ?cfg) acc" for acc c
    using that cut_do cut_access_ok unfolding tp by metis+
  have sync: "resynchronize ?cfg dp c = cut_connect c" for dp c
    by (simp add: resynchronize_def cut_config_def cut_transport_def)
  show ?thesis
  proof (rule selecting_transport.intro, unfold sync)
    fix c c' :: "'m dp_target adi_target cut" and acc xs
    assume up: "\<not> cu_down c" and ok: "access_ok (cf_transport ?cfg) acc" and "tr_do (cf_transport ?cfg) acc c = (Ok xs, c')"
    then show "\<not> cu_down c' \<and> hw_do (dp_regs v3 space) acc (cut_regs c) = (xs, cut_regs c')"
      using wire_result [OF assms do(2) [OF ok], of "cu_target c"]
      by (auto simp: do(1) [OF ok] cut_step_def swd_result_def cut_regs_def split: if_splits prod.splits)
  next
    fix c c' :: "'m dp_target adi_target cut" and acc e
    assume up: "\<not> cu_down c" and ok: "access_ok (cf_transport ?cfg) acc" and "tr_do (cf_transport ?cfg) acc c = (Err e, c')"
    then show "if is_link_lost e then cu_down c' else \<not> cu_down c' \<and> (selects v3 acc (cut_regs c) \<or> same_select (cut_regs c) (cut_regs c'))"
      using wire_result [OF assms do(2) [OF ok], of "cu_target c"]
      by (auto simp: do(1) [OF ok] cut_step_def swd_result_def cut_regs_def split: if_splits prod.splits)
  next
    fix c :: "'m dp_target adi_target cut" and acc
    assume "cu_down c" and ok: "access_ok (cf_transport ?cfg) acc"
    then show "\<exists>e c'. tr_do (cf_transport ?cfg) acc c = (Err e, c') \<and> is_link_lost e \<and> cu_down c'"
      by (simp add: do(1) [OF ok] cut_step_def)
  next
    fix c :: "'m dp_target adi_target cut" and acc
    assume ok: "access_ok (cf_transport ?cfg) acc"
    show "fst (tr_do (cf_transport ?cfg) acc c) \<noteq> Panic"
      using wire_result [OF assms do(2) [OF ok], of "cu_target c"]
      by (auto simp: do(1) [OF ok] cut_step_def swd_result_def split: prod.splits)
  qed (auto simp: cut_connect_def split: if_splits)
qed

interpretation cut: selecting_transport "cut_config default_swd_settings lose sq v3 space overrun" v3 space cut_regs cu_down
  for lose sq v3 space overrun
  by (rule cut_selecting [OF default_settings_ok])

subsection \<open>Requests\<close>

datatype dap_request =
    AskDp dp_register_address
  | PutDp dp_register_address u32
  | AskAp ap_address nat
  | PutAp ap_address nat u32
  | AskRepeat ap_address nat nat
  | PutRepeat ap_address nat "u32 list"
  | AskList ap_address ap_accesses

fun do_request :: "'t arm_config \<Rightarrow> 't dap_calls \<Rightarrow> dp_address \<Rightarrow> dap_request \<Rightarrow> ('t, u32 list) ai" where
  "do_request cfg calls dp (AskDp d) = sbind (read_raw_dp_register cfg calls dp d) (\<lambda>x. sret [x])"
| "do_request cfg calls dp (PutDp d v) = sbind (write_raw_dp_register cfg calls dp d v) (\<lambda>_. sret [])"
| "do_request cfg calls dp (AskAp p a) = sbind (read_raw_ap_register cfg calls \<lparr>fq_dp = dp, fq_ap = p\<rparr> a) (\<lambda>x. sret [x])"
| "do_request cfg calls dp (PutAp p a v) = sbind (write_raw_ap_register cfg calls \<lparr>fq_dp = dp, fq_ap = p\<rparr> a v) (\<lambda>_. sret [])"
| "do_request cfg calls dp (AskRepeat p a n) = read_raw_ap_register_repeated cfg calls \<lparr>fq_dp = dp, fq_ap = p\<rparr> a n"
| "do_request cfg calls dp (PutRepeat p a vs) =
     sbind (write_raw_ap_register_repeated cfg calls \<lparr>fq_dp = dp, fq_ap = p\<rparr> a vs) (\<lambda>_. sret [])"
| "do_request cfg calls dp (AskList p acs) = access_raw_ap_registers cfg calls \<lparr>fq_dp = dp, fq_ap = p\<rparr> acs"

text \<open>One request after the other, also after errors; a panic ends them all.\<close>

fun run_requests :: "'t arm_config \<Rightarrow> 't dap_calls \<Rightarrow> dp_address \<Rightarrow> dap_request list \<Rightarrow> 't arm_interface \<Rightarrow> 't arm_interface option" where
  "run_requests cfg calls dp [] s = Some s"
| "run_requests cfg calls dp (q # qs) s =
     (case do_request cfg calls dp q s of (Panic, s) \<Rightarrow> None | (_, s) \<Rightarrow> run_requests cfg calls dp qs s)"

text \<open>For DPv3, requests of AP registers only.\<close>

fun request_ok :: "bool \<Rightarrow> dap_request \<Rightarrow> bool" where
  "request_ok v3 (AskDp d) = (\<not> v3 \<and> dp_reg_ok d)"
| "request_ok v3 (PutDp d v) = (\<not> v3 \<and> dp_reg_ok d)"
| "request_ok v3 (AskRepeat p a n) = (n \<noteq> 0)"
| "request_ok v3 (PutRepeat p a vs) = (vs \<noteq> [])"
| "request_ok v3 _ = True"

definition select_known :: "bool \<Rightarrow> ('t \<Rightarrow> 'm dp_target) \<Rightarrow> ('t \<Rightarrow> bool) \<Rightarrow> dp_address \<Rightarrow> 't arm_interface \<Rightarrow> bool" where
  "select_known v3 view down dp s \<longleftrightarrow>
     (\<exists>st. ai_current s = Some dp \<and> ai_dps s dp = Some st \<and> is_v3 (ds_select st) = v3
       \<and> (ds_valid st \<and> \<not> down (ai_transport s) \<longrightarrow> cache_true (view (ai_transport s)) (ds_select st)))"

context selecting_transport begin

lemma known_sync: "select_known v3 view down dp s = in_sync dp s"
  by (auto simp: select_known_def in_sync_def connected_def told_def)

lemma bound_fst: "sbind m (\<lambda>x. sret (f x)) s = (r, s') \<Longrightarrow> \<exists>r1. m s = (r1, s') \<and> (r \<noteq> Panic \<longrightarrow> r1 \<noteq> Panic)"
  by (auto simp: sbind_def split: prod.splits res.splits)

lemma request_sync:
  assumes "in_sync dp s" "request_ok v3 q" "do_request cfg (arm_calls cfg (Suc (Suc n))) dp q s = (r, s')" "r \<noteq> Panic"
  shows "in_sync dp s'"
proof -
  let ?calls = "arm_calls cfg (Suc (Suc n))"
  obtain st where st: "connected dp st s" "told st (ai_transport s)" using assms(1) by (auto simp: in_sync_def)
  have keep: "in_sync dp s'" if "s' = with_dp dp t st' s" "told st' t" for t st'
    using in_syncI [of dp st' s'] st(1) that by simp
  show ?thesis
  proof (cases q)
    case (AskDp d)
    then obtain r1 where f: "read_raw_dp_register cfg ?calls dp d s = (r1, s')" using assms(3) bound_fst by fastforce
    show ?thesis by (rule read_dp_sync [OF st _ _ f]) (use assms(2) AskDp keep in auto)
  next
    case (PutDp d v)
    then obtain r1 where f: "write_raw_dp_register cfg ?calls dp d v s = (r1, s')" using assms(3) bound_fst by fastforce
    show ?thesis by (rule write_dp_sync [OF st _ _ f]) (use assms(2) PutDp keep in auto)
  next
    case (AskAp p a)
    then obtain r1 where f: "read_raw_ap_register cfg ?calls \<lparr>fq_dp = dp, fq_ap = p\<rparr> a s = (r1, s')" "r1 \<noteq> Panic"
      using assms(3,4) bound_fst by fastforce
    show ?thesis using read_ap_sync [OF assms(1) _ f(2,1)] by simp
  next
    case (PutAp p a v)
    then obtain r1 where f: "write_raw_ap_register cfg ?calls \<lparr>fq_dp = dp, fq_ap = p\<rparr> a v s = (r1, s')" "r1 \<noteq> Panic"
      using assms(3,4) bound_fst by fastforce
    show ?thesis using write_ap_sync [OF assms(1) _ f(2,1)] by simp
  next
    case (AskRepeat p a m)
    then show ?thesis
      using read_repeated_sync [OF assms(1) _ assms(4), of "\<lparr>fq_dp = dp, fq_ap = p\<rparr>" m n a s'] assms(2,3) by simp
  next
    case (PutRepeat p a vs)
    then obtain r1 where f: "write_raw_ap_register_repeated cfg ?calls \<lparr>fq_dp = dp, fq_ap = p\<rparr> a vs s = (r1, s')" "r1 \<noteq> Panic"
      using assms(3,4) bound_fst by fastforce
    show ?thesis using write_repeated_sync [OF assms(1) _ f(2) _ f(1)] assms(2) PutRepeat by simp
  next
    case (AskList p acs)
    then show ?thesis
      using access_list_sync [OF assms(1) _ assms(4), of "\<lparr>fq_dp = dp, fq_ap = p\<rparr>" n acs s'] assms(3) by simp
  qed
qed

lemma requests_sync:
  assumes "in_sync dp s" "\<forall>q \<in> set qs. request_ok v3 q" "run_requests cfg (arm_calls cfg (Suc (Suc n))) dp qs s = Some s'"
  shows "in_sync dp s'"
  using assms
proof (induction qs arbitrary: s)
  case (Cons q qs)
  obtain r s1 where f: "do_request cfg (arm_calls cfg (Suc (Suc n))) dp q s = (r, s1)" by fastforce
  then have "r \<noteq> Panic" "run_requests cfg (arm_calls cfg (Suc (Suc n))) dp qs s1 = Some s'"
    using Cons.prems(3) by (cases r; simp)+
  moreover have "in_sync dp s1"
    by (rule request_sync [OF Cons.prems(1) _ f]) (use Cons.prems(2) \<open>r \<noteq> Panic\<close> in simp_all)
  ultimately show ?case using Cons by simp
qed simp

text \<open>Requests of debug port registers do not panic.\<close>

fun is_dp_request :: "dap_request \<Rightarrow> bool" where
  "is_dp_request (AskDp d) = True"
| "is_dp_request (PutDp d v) = True"
| "is_dp_request _ = False"

lemma dp_requests_run:
  assumes "in_sync dp s" "\<forall>q \<in> set qs. request_ok v3 q \<and> is_dp_request q"
  shows "\<exists>s'. run_requests cfg (arm_calls cfg (Suc (Suc n))) dp qs s = Some s'"
  using assms
proof (induction qs arbitrary: s)
  case (Cons q qs)
  let ?calls = "arm_calls cfg (Suc (Suc n))"
  obtain st where st: "connected dp st s" "told st (ai_transport s)" using Cons.prems(1) by (auto simp: in_sync_def)
  obtain r s1 where f: "do_request cfg ?calls dp q s = (r, s1)" by fastforce
  have np: "r \<noteq> Panic"
  proof (cases q)
    case (AskDp d)
    obtain r1 s2 where g: "read_raw_dp_register cfg ?calls dp d s = (r1, s2)" by fastforce
    have "r1 \<noteq> Panic" by (rule read_dp_sync [OF st _ _ g]) (use Cons.prems(2) AskDp in auto)
    then show ?thesis using f g AskDp by (cases r1) (auto simp: sbind_def)
  next
    case (PutDp d v)
    obtain r1 s2 where g: "write_raw_dp_register cfg ?calls dp d v s = (r1, s2)" by fastforce
    have "r1 \<noteq> Panic" by (rule write_dp_sync [OF st _ _ g]) (use Cons.prems(2) PutDp in auto)
    then show ?thesis using f g PutDp by (cases r1) (auto simp: sbind_def)
  qed (use Cons.prems(2) in auto)
  have "in_sync dp s1" by (rule request_sync [OF Cons.prems(1) _ f np]) (use Cons.prems(2) in simp)
  then have "\<exists>s'. run_requests cfg ?calls dp qs s1 = Some s'" using Cons by simp
  then show ?case using f np by (cases r) auto
qed simp

end

end
