(* ===== verification/Arm_Properties.thy ===== *)
theory Arm_Properties
  imports Arm_Cut
begin

text \<open>
  What the communication interface promises, over the SWD port and the bits of the wire.
\<close>

subsection \<open>An example\<close>

text \<open>A debug port that was connected, with some APs behind it, and a sequence that does nothing but the stock start.\<close>

definition example_sequence :: "'t arm_sequence" where
  "example_sequence =
     \<lparr>sq_setup = (\<lambda>_. sret ()), sq_connect = (\<lambda>_. sret ()), sq_stop = (\<lambda>_. sret ()),
      sq_start = debug_port_start_default (\<lambda>_. sret ()) 3\<rparr>"

definition example_dp_target :: "'m \<Rightarrow> bool list \<Rightarrow> 'm dp_target adi_target" where
  "example_dp_target aps busy =
     \<lparr>at_regs = \<lparr>dt_select = 0xF0, dt_select1 = 0, dt_values = (\<lambda>_. 0), dt_aps = aps\<rparr>,
      at_buffer = 0, at_sticky = False, at_busy = busy\<rparr>"

definition example_interface :: "'t \<Rightarrow> 't arm_interface" where
  "example_interface t = \<lparr>ai_transport = t, ai_current = Some DpDefault, ai_dps = [DpDefault \<mapsto> dp_state_new], ai_epoch = 0\<rparr>"

lemma example_known: "select_known False view down DpDefault (example_interface t)"
  by (simp add: select_known_def example_interface_def dp_state_new_def)

lemma example_answering: "answering default_swd_settings (example_dp_target aps [True, False, True])"
  by (simp add: answering_def example_dp_target_def default_swd_settings_def)

text \<open>APs whose registers all count: a read adds the count to the place of the register, a write sets it.\<close>

definition counting_space :: "u32 ap_space" where
  "counting_space = \<lparr>as_read = (\<lambda>l m. (of_nat l + m, m + 1)), as_write = (\<lambda>l v m. (0, v))\<rparr>"

subsection \<open>The copy of SELECT\<close>

text \<open>C4. Any requests of the port registers (all but the read buffer) and AP registers behind a connected
  DPv1 or DPv2 port, and any requests of the AP registers behind a connected DPv3 port, whether they
  succeed or fail, and however often the link is lost and made again on the way: whenever the link is
  up, the copy of SELECT that the interface holds as valid is the SELECT register of the target, so no
  access goes to another bank or another AP than the interface believes. (Requests of the registers of a
  DPv3 port itself are left out: \<open>v3_select1_trusted\<close> shows how one of them makes the interface
  believe in a SELECT1 that it did not write.)\<close>

theorem requests_keep_select:
  assumes "settings_ok st" "select_known v3 cut_regs cu_down dp s" "\<forall>q \<in> set qs. request_ok v3 q"
    "run_requests (cut_config st lose sq v3 space overrun)
       (arm_calls (cut_config st lose sq v3 space overrun) (Suc (Suc n))) dp qs s = Some s'"
  shows "select_known v3 cut_regs cu_down dp s'"
proof -
  note sel = cut_selecting [OF assms(1), of lose sq v3 space overrun]
  show ?thesis
    using selecting_transport.requests_sync [OF sel _ assms(3,4)] assms(2) selecting_transport.known_sync [OF sel] by blast
qed

definition example_requests :: "dap_request list" where
  "example_requests = [PutDp dp_select 0x10, AskDp dp_ctrl, PutDp \<lparr>dr_address = 4, dr_bank = Some 1\<rparr> 7, AskDp dp_idr]"

definition example_cut :: "u32 dp_target adi_target cut arm_interface" where
  "example_cut = example_interface \<lparr>cu_target = example_dp_target 0 [True], cu_down = False, cu_cuts = [False, False, True]\<rparr>"

theorem requests_keep_select_witness:
  "\<exists>s'. run_requests (cut_config default_swd_settings id example_sequence False counting_space False)
       (arm_calls (cut_config default_swd_settings id example_sequence False counting_space False) 2) DpDefault
       example_requests example_cut = Some s' \<and> select_known False cut_regs cu_down DpDefault s'"
proof -
  let ?cfg = "cut_config default_swd_settings id example_sequence False counting_space False"
  have calls: "arm_calls ?cfg 2 = arm_calls ?cfg (Suc (Suc 0))" by (simp add: numeral_2_eq_2)
  have known: "select_known False cut_regs cu_down DpDefault example_cut" by (simp add: example_cut_def example_known)
  have ok: "\<forall>q \<in> set example_requests. request_ok False q"
    by (simp add: example_requests_def dp_reg_ok_def dp_registers)
  have "\<exists>s'. run_requests ?cfg (arm_calls ?cfg (Suc (Suc 0))) DpDefault example_requests example_cut = Some s'"
    by (rule cut.dp_requests_run [OF known [unfolded cut.known_sync]])
      (use ok in \<open>auto simp: example_requests_def\<close>)
  then obtain s' where s': "run_requests ?cfg (arm_calls ?cfg (Suc (Suc 0))) DpDefault example_requests example_cut = Some s'" by blast
  from requests_keep_select [OF default_settings_ok known ok this] s' show ?thesis unfolding calls by blast
qed

text \<open>On DPv3 a request of a debug port register writes SELECT alone when the copy is not valid, as after
  a failed write of SELECT1, a lost link or the first connection, and then takes the copy of SELECT1 for
  valid as well, whatever the register of the target holds.\<close>

definition example_v3 :: "u32 dp_target adi_target arm_interface" where
  "example_v3 = (example_interface ((example_dp_target 0 []) \<lparr>at_regs := (at_regs (example_dp_target 0 []))\<lparr>dt_select1 := 1\<rparr>\<rparr>))
     \<lparr>ai_dps := [DpDefault \<mapsto> dp_state_new\<lparr>ds_version := DpVersion3, ds_select := DPv3 0 0\<rparr>]\<rparr>"

lemma v3_select1_trusted:
  defines "cfg \<equiv> wire_config default_swd_settings example_sequence True counting_space False"
  shows "select_known True at_regs (\<lambda>_. False) DpDefault example_v3
    \<and> (\<exists>s'. run_requests cfg (arm_calls cfg 2) DpDefault [AskDp dp_ctrl] example_v3 = Some s'
      \<and> \<not> select_known True at_regs (\<lambda>_. False) DpDefault s')"
proof -
  let ?t = "ai_transport example_v3"
  note ready = wire_ready [OF default_settings_ok, of example_sequence True counting_space False, folded cfg_def]
  note sel = steady_transport.axioms(1) [OF wire_steady [OF default_settings_ok, of example_sequence True counting_space False, folded cfg_def]]
  have ok: "access_ok (cf_transport cfg) (WriteReg (DpRegister dp_select) 0)" "access_ok (cf_transport cfg) (ReadReg (DpRegister dp_ctrl))"
    by (simp_all add: dp_reg_ok_def dp_registers)
  have start: "answering default_swd_settings ?t"
    by (simp add: example_v3_def example_interface_def answering_def example_dp_target_def default_swd_settings_def)
  obtain xs t1 where w: "tr_do (cf_transport cfg) (WriteReg (DpRegister dp_select) 0) ?t = (Ok xs, t1)" and t1: "answering default_swd_settings t1"
    using ready_transport.ready_law [OF ready start ok(1)] by blast
  obtain ys t2 where r: "tr_do (cf_transport cfg) (ReadReg (DpRegister dp_ctrl)) t1 = (Ok ys, t2)"
    using ready_transport.ready_law [OF ready t1 ok(2)] by blast
  have "at_regs t2 = dp_put True 8 0 (at_regs ?t)"
    using selecting_transport.done_law [OF sel _ ok(1) w] selecting_transport.done_law [OF sel _ ok(2) r]
    by (simp add: dp_registers)
  then have "dt_select1 (at_regs t2) = 1" by (simp add: dp_put_def example_v3_def example_interface_def)
  moreover obtain y where "tr_write (cf_transport cfg) (DpRegister dp_select) 0 ?t = (Ok (), t1)"
    "tr_read (cf_transport cfg) (DpRegister dp_ctrl) t1 = (Ok y, t2)"
    using w r by (auto simp: tr_do.simps sbind_def split: prod.splits res.splits)
  moreover have "reg_set 3 0 0 (0 :: u32) = 0" by code_simp
  moreover have calls: "arm_calls cfg 2 = arm_calls cfg (Suc (Suc 0))" by (simp add: numeral_2_eq_2)
  ultimately show ?thesis
    by (simp add: arm_calls.simps run_requests.simps sret_def example_v3_def example_interface_def select_known_def calls read_raw_dp_register_def
        write_raw_dp_register_def select_dp_and_dp_bank_def select_dp_def switch_dp_def set_cache_def update_dp_def
        sync_select_cache_def on_transport_def sbind_def dp_registers dp_state_new_def cache_bank_def)
qed

subsection \<open>Values\<close>

lemma located_addresses:
  assumes "steady_transport cfg v3 space view down"
    "\<forall>x \<in> set acs. fst x div 16 = fst (hd acs) div 16 \<and> 4 dvd fst x \<and> fst x < 2 ^ 64 \<and> ap_location v3 p (fst x) = Some (loc (fst x))"
  shows "\<forall>x \<in> set acs. steady_transport.addresses_ok v3 p (fst (hd acs)) (fst x) \<and> fst x < 2 ^ 64"
    "unlocated acs (steady_transport.place_of v3 p) = map (\<lambda>(y, x). (loc y, x)) acs"
  using assms(2)
  by (auto simp: steady_transport.addresses_ok_def [OF assms(1)] steady_transport.place_of_def [OF assms(1)] unlocated_def)

text \<open>C7. Accesses of registers of one bank of an AP, made as one batch over the wire, all succeed on a
  target that waits fewer times than the port retries, whatever was selected before: the values are
  those of the registers that were asked for, in order, and the writes reach just those.\<close>

theorem ap_list_over_the_wire:
  assumes "settings_ok st" "select_known v3 at_regs (\<lambda>_. False) (fq_dp ap) s" "answering st (ai_transport s)"
    "\<forall>x \<in> set acs. fst x div 16 = fst (hd acs) div 16 \<and> 4 dvd fst x \<and> fst x < 2 ^ 64
       \<and> ap_location v3 (fq_ap ap) (fst x) = Some (loc (fst x))"
  shows "\<exists>ws s'. access_raw_ap_registers (wire_config st sq v3 space overrun)
       (arm_calls (wire_config st sq v3 space overrun) (Suc (Suc n))) ap acs s = (Ok ws, s')
    \<and> space_list space (map (\<lambda>(y, x). (loc y, x)) acs) (dt_aps (at_regs (ai_transport s)))
        = (ws, dt_aps (at_regs (ai_transport s')))"
proof -
  note ready = wire_ready [OF assms(1), of sq v3 space overrun]
  note steady = wire_steady [OF assms(1), of sq v3 space overrun]
  note sel = steady_transport.axioms(1) [OF steady]
  have sync: "selecting_transport.in_sync v3 at_regs (\<lambda>_. False) (fq_dp ap) s"
    using assms(2) selecting_transport.known_sync [OF sel] by blast
  note addr = located_addresses [OF steady assms(4)]
  obtain ws s' where run: "access_raw_ap_registers (wire_config st sq v3 space overrun)
       (arm_calls (wire_config st sq v3 space overrun) (Suc (Suc n))) ap acs s = (Ok ws, s')"
    by (rule ready_transport.access_ready [OF ready sync assms(3) refl]) (use addr(1) in auto)
  from steady_transport.access_list_value [OF steady sync refl run addr(1)] run show ?thesis
    unfolding addr(2) by blast
qed

definition example_accesses :: ap_accesses where
  "example_accesses = [(CSW, None), (TAR, Some 5), (DRW, None), (TAR, None)]"

theorem ap_list_over_the_wire_witness:
  "\<exists>s'. access_raw_ap_registers (wire_config default_swd_settings example_sequence False counting_space False)
       (arm_calls (wire_config default_swd_settings example_sequence False counting_space False) 2)
       \<lparr>fq_dp = DpDefault, fq_ap = ApV1 3\<rparr> example_accesses (example_interface (example_dp_target 1 [True, False, True]))
     = (Ok [0x301, 0x311, 0x30A], s')"
proof -
  let ?cfg = "wire_config default_swd_settings example_sequence False counting_space False"
  let ?s = "example_interface (example_dp_target 1 [True, False, True])" and ?ap = "\<lparr>fq_dp = DpDefault, fq_ap = ApV1 3\<rparr>"
  define loc where "loc = (\<lambda>y :: nat. 0x300 + y mod 256)"
  have "\<exists>ws s'. access_raw_ap_registers ?cfg (arm_calls ?cfg (Suc (Suc 0))) ?ap example_accesses ?s = (Ok ws, s')
    \<and> space_list counting_space (map (\<lambda>(y, x). (loc y, x)) example_accesses) (dt_aps (at_regs (ai_transport ?s)))
        = (ws, dt_aps (at_regs (ai_transport s')))"
  proof (rule ap_list_over_the_wire [OF default_settings_ok])
    show "select_known False at_regs (\<lambda>_. False) (fq_dp ?ap) ?s" by (simp add: example_known)
    show "answering default_swd_settings (ai_transport ?s)" using example_answering by (simp add: example_interface_def)
    show "\<forall>x \<in> set example_accesses. fst x div 16 = fst (hd example_accesses) div 16 \<and> 4 dvd fst x \<and> fst x < 2 ^ 64
       \<and> ap_location False (fq_ap ?ap) (fst x) = Some (loc (fst x))"
      unfolding example_accesses_def register_addresses loc_def by simp
  qed
  moreover have "fst (space_list counting_space (map (\<lambda>(y, x). (loc y, x)) example_accesses) (dt_aps (at_regs (ai_transport ?s))))
      = [0x301, 0x311, 0x30A]"
    by (simp add: loc_def example_accesses_def counting_space_def example_interface_def example_dp_target_def register_addresses)
  ultimately show ?thesis by (auto simp: numeral_2_eq_2)
qed

text \<open>The interface over a transport that has no batches.\<close>

definition replay_config :: "'t arm_config \<Rightarrow> 't arm_config" where
  "replay_config cfg = cfg\<lparr>cf_transport := (cf_transport cfg)\<lparr>tr_batch := None\<rparr>\<rparr>"

lemma replay_do:
  "access_ok (cf_transport (replay_config cfg)) acc \<Longrightarrow>
     access_ok (cf_transport cfg) acc \<and> tr_do (cf_transport (replay_config cfg)) acc = tr_do (cf_transport cfg) acc"
  by (cases "(cf_transport cfg, acc)" rule: access_ok.cases) (auto simp: replay_config_def tr_do.simps fun_eq_iff)

lemma replay_steady:
  assumes "steady_transport cfg v3 space view down"
  shows "steady_transport (replay_config cfg) v3 space view down"
proof -
  have sync: "resynchronize (replay_config cfg) = resynchronize cfg"
    by (simp add: fun_eq_iff resynchronize_def replay_config_def split: prod.split res.split)
  note sel = steady_transport.axioms(1) [OF assms]
  show ?thesis
  proof (unfold_locales, unfold sync)
    fix t acc xs t'
    assume a: "\<not> down t" "access_ok (cf_transport (replay_config cfg)) acc" "tr_do (cf_transport (replay_config cfg)) acc t = (Ok xs, t')"
    show "\<not> down t' \<and> hw_do (dp_regs v3 space) acc (view t) = (xs, view t')"
      using selecting_transport.done_law [OF sel a(1), of acc xs t'] replay_do [OF a(2)] a(3) by simp
  next
    fix t acc e t'
    assume a: "\<not> down t" "access_ok (cf_transport (replay_config cfg)) acc" "tr_do (cf_transport (replay_config cfg)) acc t = (Err e, t')"
    show "if is_link_lost e then down t' else \<not> down t' \<and> (selects v3 acc (view t) \<or> same_select (view t) (view t'))"
      using selecting_transport.failed_law [OF sel a(1), of acc e t'] replay_do [OF a(2)] a(3) by simp
  next
    fix t acc
    assume a: "access_ok (cf_transport (replay_config cfg)) acc"
    show "fst (tr_do (cf_transport (replay_config cfg)) acc t) \<noteq> Panic"
      using selecting_transport.panic_law [OF sel, of acc t] replay_do [OF a] by simp
  qed (use steady_transport.up [OF assms] in blast)+
qed

lemma replay_ready:
  assumes "ready_transport cfg v3 space view down ready"
  shows "ready_transport (replay_config cfg) v3 space view down ready"
proof (intro ready_transport.intro ready_transport_axioms.intro replay_steady ready_transport.axioms(1) [OF assms])
  fix t acc
  assume "ready t" "access_ok (cf_transport (replay_config cfg)) acc"
  then show "\<exists>xs t'. tr_do (cf_transport (replay_config cfg)) acc t = (Ok xs, t') \<and> ready t'"
    using ready_transport.ready_law [OF assms, of t acc] replay_do [of cfg acc] by simp
qed

text \<open>C14. A list of accesses that a transport takes as one batch, and the same list replayed as single
  and repeated accesses, which is what the interface does on a transport without batches: both succeed
  on a target that waits fewer times than the port retries, return the same values and leave the same
  contents of the AP registers.\<close>

theorem replay_equals_batch:
  assumes "settings_ok st" "select_known v3 at_regs (\<lambda>_. False) (fq_dp ap) s" "answering st (ai_transport s)"
    "\<forall>x \<in> set acs. fst x div 16 = fst (hd acs) div 16 \<and> 4 dvd fst x \<and> fst x < 2 ^ 64 \<and> ap_location v3 (fq_ap ap) (fst x) \<noteq> None"
  shows "\<exists>ws s1 s2. access_raw_ap_registers (wire_config st sq v3 space overrun)
         (arm_calls (wire_config st sq v3 space overrun) (Suc (Suc n))) ap acs s = (Ok ws, s1)
    \<and> access_raw_ap_registers (replay_config (wire_config st sq v3 space overrun))
         (arm_calls (replay_config (wire_config st sq v3 space overrun)) (Suc (Suc n))) ap acs s = (Ok ws, s2)
    \<and> dt_aps (at_regs (ai_transport s1)) = dt_aps (at_regs (ai_transport s2))"
proof -
  let ?cfg = "wire_config st sq v3 space overrun"
  note ready = wire_ready [OF assms(1), of sq v3 space overrun]
  note steady = ready_transport.axioms(1) [OF ready]
  note rready = replay_ready [OF ready]
  note rsteady = ready_transport.axioms(1) [OF rready]
  have sync: "selecting_transport.in_sync v3 at_regs (\<lambda>_. False) (fq_dp ap) s"
    using assms(2) selecting_transport.known_sync [OF steady_transport.axioms(1) [OF steady]] by blast
  have "\<forall>x \<in> set acs. fst x div 16 = fst (hd acs) div 16 \<and> 4 dvd fst x \<and> fst x < 2 ^ 64
      \<and> ap_location v3 (fq_ap ap) (fst x) = Some (the (ap_location v3 (fq_ap ap) (fst x)))"
    using assms(4) by auto
  note addr = located_addresses(1) [OF steady this]
  obtain ws s1 where b: "access_raw_ap_registers ?cfg (arm_calls ?cfg (Suc (Suc n))) ap acs s = (Ok ws, s1)"
    by (rule ready_transport.access_ready [OF ready sync assms(3) refl]) (use addr in auto)
  obtain vs s2 where r: "access_raw_ap_registers (replay_config ?cfg) (arm_calls (replay_config ?cfg) (Suc (Suc n))) ap acs s = (Ok vs, s2)"
    by (rule ready_transport.access_ready [OF rready sync assms(3) refl]) (use addr in auto)
  from steady_transport.access_list_value [OF steady sync refl b addr] steady_transport.access_list_value [OF rsteady sync refl r addr] b r
  show ?thesis by auto
qed

theorem replay_equals_batch_witness:
  "\<exists>ws s1 s2. access_raw_ap_registers (wire_config default_swd_settings example_sequence False counting_space False)
         (arm_calls (wire_config default_swd_settings example_sequence False counting_space False) 2)
         \<lparr>fq_dp = DpDefault, fq_ap = ApV1 3\<rparr> example_accesses (example_interface (example_dp_target 1 [True, False, True])) = (Ok ws, s1)
    \<and> access_raw_ap_registers (replay_config (wire_config default_swd_settings example_sequence False counting_space False))
         (arm_calls (replay_config (wire_config default_swd_settings example_sequence False counting_space False)) 2)
         \<lparr>fq_dp = DpDefault, fq_ap = ApV1 3\<rparr> example_accesses (example_interface (example_dp_target 1 [True, False, True])) = (Ok ws, s2)
    \<and> dt_aps (at_regs (ai_transport s1)) = dt_aps (at_regs (ai_transport s2))"
  unfolding numeral_2_eq_2
proof (rule replay_equals_batch [OF default_settings_ok])
  let ?s = "example_interface (example_dp_target (1 :: u32) [True, False, True])" and ?ap = "\<lparr>fq_dp = DpDefault, fq_ap = ApV1 3\<rparr>"
  show "select_known False at_regs (\<lambda>_. False) (fq_dp ?ap) ?s" by (simp add: example_known)
  show "answering default_swd_settings (ai_transport ?s)" using example_answering by (simp add: example_interface_def)
  show "\<forall>x \<in> set example_accesses. fst x div 16 = fst (hd example_accesses) div 16 \<and> 4 dvd fst x \<and> fst x < 2 ^ 64
     \<and> ap_location False (fq_ap ?ap) (fst x) \<noteq> None"
    unfolding example_accesses_def register_addresses by simp
qed

subsection \<open>Memory accesses\<close>

text \<open>The memory interface with the mock AP in place of the stack below it.\<close>

definition mock_below :: "mock_ap dp_target adi_target arm_interface adi \<Rightarrow> mock_ap adi" where
  "mock_below s = \<lparr>adi_ap = adi_ap s, adi_dap = dt_aps (at_regs (ai_transport (adi_dap s))), adi_trusted = adi_trusted s, adi_since = adi_since s\<rparr>"

text \<open>C3. From the memory interface down to the bits of the SWD wire: on a connected debug port whose
  target waits fewer times than the port retries, operations in range, at their alignment and of a
  width that the AP has all succeed, and what they read and leave behind is what they would on a flat
  byte memory; after them the stack is in the same good state.\<close>

theorem stack_operations_succeed:
  assumes "settings_ok st" "select_known False at_regs (\<lambda>_. False) dp (adi_dap s)" "answering st (ai_transport (adi_dap s))"
    "mock_ready k (mock_below s)" "\<forall>op \<in> set ops. op_feasible (only_32bit (adi_ap s)) (mock_limit k) op"
    "cfg = wire_config st sq False (mock_space (unat port * 256)) overrun"
  shows "\<exists>ops' t. run_operations (arm_dap cfg (Suc (Suc n)) \<lparr>fq_dp = dp, fq_ap = ApV1 port\<rparr>) ops s = (Ok (), ops', t)
    \<and> (ops', mock_content (mock_below t)) = flat_ops ops (mock_content (mock_below s))
    \<and> select_known False at_regs (\<lambda>_. False) dp (adi_dap t) \<and> answering st (ai_transport (adi_dap t)) \<and> mock_ready k (mock_below t)"
proof -
  let ?ap = "\<lparr>fq_dp = dp, fq_ap = ApV1 port\<rparr>" and ?space = "mock_space (unat port * 256)"
  have behind: "memory_behind cfg False ?space at_regs (\<lambda>_. False) (answering st) ?ap (mock_limit k) False (mock_view (mock_limit k)) mock_mem"
    unfolding assms(6) by (rule mock_behind [OF assms(1)]) (unfold fq_ap_address.simps, rule v1_registers)
  note sel = steady_transport.axioms(1) [OF wire_steady [OF assms(1), of sq False ?space overrun]]
  note view_def = memory_behind.stack_view_def [OF behind, unfolded fq_ap_address.simps] and cells_def = memory_behind.stack_cells_def [OF behind]
  let ?view = "memory_behind.stack_view False at_regs (\<lambda>_. False) (answering st) ?ap (mock_view (mock_limit k))"
  let ?cells = "memory_behind.stack_cells at_regs mock_mem"
  have sync: "select_known False at_regs (\<lambda>_. False) dp d = selecting_transport.in_sync False at_regs (\<lambda>_. False) dp d"
    for d :: "mock_ap dp_target adi_target arm_interface"
    by (rule selecting_transport.known_sync [OF sel])
  have ready: "adi_ready False ?view u \<longleftrightarrow> select_known False at_regs (\<lambda>_. False) dp (adi_dap u)
      \<and> answering st (ai_transport (adi_dap u)) \<and> mock_ready k (mock_below u)" for u
    by (auto simp: adi_ready_def view_def sync mock_below_def)
  have content: "adi_content ?cells u = mock_content (mock_below u)" for u
    by (simp add: adi_content_def cells_def mock_below_def)
  have stack: "reliable_ap (arm_dap cfg (Suc (Suc n)) ?ap) (mock_limit k) False ?view ?cells"
    by (rule memory_behind.stack_reliable [OF behind])
  have "adi_ready False ?view s" using assms(2-4) by (simp add: ready)
  from reliable_ap.run_from_total [OF stack this assms(5)]
  obtain ops' t where run: "run_from (arm_dap cfg (Suc (Suc n)) ?ap) 0 ops s = (Ok (), ops', t)" by blast
  have "mem_ap (arm_dap cfg (Suc (Suc n)) ?ap) (mock_limit k) False ?view ?cells" by (rule reliable_ap.axioms(1) [OF stack])
  from mem_ap.run_from_flat [OF this run \<open>adi_ready False ?view s\<close>] assms(5)
  have "(ops', adi_content ?cells t) = flat_ops ops (adi_content ?cells s)" "adi_ready False ?view t"
    by (simp_all add: op_feasible_def)
  then show ?thesis using run by (auto simp: run_operations_def ready content)
qed

definition example_stack :: "mock_ap dp_target adi_target arm_interface adi" where
  "example_stack =
     \<lparr>adi_ap = adi_ap (mock_started 64),
      adi_dap = example_interface (example_dp_target (adi_dap (mock_started 64)) [True, False, True]),
      adi_trusted = True, adi_since = 0\<rparr>"

theorem stack_operations_succeed_witness:
  "\<exists>ops' t. run_operations (arm_dap (wire_config default_swd_settings example_sequence False (mock_space (unat (0 :: u8) * 256)) False) (Suc (Suc 0))
         \<lparr>fq_dp = DpDefault, fq_ap = ApV1 0\<rparr>) sample_operations example_stack = (Ok (), ops', t)
    \<and> (ops', mock_content (mock_below t)) = flat_ops sample_operations (mock_content (mock_below example_stack))
    \<and> select_known False at_regs (\<lambda>_. False) DpDefault (adi_dap t) \<and> answering default_swd_settings (ai_transport (adi_dap t))
    \<and> mock_ready 16 (mock_below t)"
proof (rule stack_operations_succeed [OF default_settings_ok _ _ _ _ refl])
  have below: "mock_below example_stack = mock_started 64"
    by (simp add: mock_below_def example_stack_def example_interface_def example_dp_target_def mock_started_def)
  show "mock_ready 16 (mock_below example_stack)" using mock_started_ready [of 16] unfolding below by (simp add: mock_limit_16)
  show "select_known False at_regs (\<lambda>_. False) DpDefault (adi_dap example_stack)" by (simp add: example_stack_def example_known)
  show "answering default_swd_settings (ai_transport (adi_dap example_stack))"
    using example_answering by (simp add: example_stack_def example_interface_def)
  show "\<forall>op \<in> set sample_operations. op_feasible (only_32bit (adi_ap example_stack)) (mock_limit 16) op"
    using sample_feasible mock_started_wide [of 64] unfolding mock_limit_16 by (simp add: example_stack_def)
qed

end
