(* ===== verification/Arm_Start.thy ===== *)
theory Arm_Start
  imports Arm_Properties
begin

text \<open>
  The first use of a debug port: the stock start sequence on a target that is powered, and what the
  interface then knows of it.
\<close>

context ready_transport begin

text \<open>A debug port of DPv1 or DPv2 whose copy of SELECT is right, on a transport that answers.\<close>

definition good :: "dp_address \<Rightarrow> (u8 \<times> u32 \<Rightarrow> u32) \<Rightarrow> 'b \<Rightarrow> 'a arm_interface \<Rightarrow> bool" where
  "good dp vals aps s \<longleftrightarrow> in_sync dp s \<and> ready (ai_transport s)
     \<and> dt_values (view (ai_transport s)) = vals \<and> dt_aps (view (ai_transport s)) = aps"

lemma write_effect:
  assumes "tr_write (cf_transport cfg) (DpRegister reg) v t = (Ok (), t')" "dp_reg_ok reg"
  shows "view t' = (if dr_address reg = 0 then view t else dp_put v3 (dr_address reg) v (view t))"
  using done_law [OF up, of "WriteReg (DpRegister reg) v" t "[]" t'] write_do [OF assms(1)] assms(2) by auto

lemma bank_ready:
  assumes "connected dp st s" "told st (ai_transport s)" "ready (ai_transport s)" "dp_reg_ok reg" "\<not> v3"
  obtains t' st' where "select_dp_and_dp_bank cfg (arm_calls cfg (Suc n)) dp reg s = (Ok (), with_dp dp t' st' s)"
    "told st' t'" "ready t'" "bank_good reg (ai_transport s) st' t'"
    "dt_values (view t') = dt_values (view (ai_transport s))"
proof -
  define c where "c = cache_set_bank (reg_bank reg) (ds_select st)"
  obtain t1 where t1: "tr_write (cf_transport cfg) (DpRegister dp_select) (select_word c) (ai_transport s) = (Ok (), t1)" "ready t1"
    by (rule write_ready [OF assms(3), of dp_select]) simp_all
  have "view t1 = view (ai_transport s)\<lparr>dt_select := select_word c\<rparr>"
    using write_effect [OF t1(1)] by (simp add: dp_put_def)
  moreover define s1 where "s1 = (if needs_bank reg st then with_dp dp t1 (st\<lparr>ds_select := c, ds_valid := True\<rparr>) s else s)"
  ultimately have s1: "select_dp_and_dp_bank cfg (arm_calls cfg (Suc n)) dp reg s = (Ok (), s1)" "ready (ai_transport s1)"
    "dt_values (view (ai_transport s1)) = dt_values (view (ai_transport s))"
    using bank_step [OF assms(1) c_def, of cfg n] t1 assms(3) by (simp_all add: s1_def)
  show ?thesis
    by (rule bank_selected [OF assms(1,2) _ assms(4) s1(1)]) (use that s1 assms(5) in auto)
qed

lemma read_dp_good:
  assumes "good dp vals aps s" "dp_reg_ok reg" "dr_address reg \<in> {0, 4}" "\<not> v3"
  obtains s' where "read_raw_dp_register cfg (arm_calls cfg (Suc n)) dp reg s = (Ok (vals (dr_address reg, ucast (reg_bank reg))), s')"
    "good dp vals aps s'" "ai_epoch s' = ai_epoch s"
proof -
  obtain st where st: "connected dp st s" "told st (ai_transport s)" "ready (ai_transport s)"
    "dt_values (view (ai_transport s)) = vals" "dt_aps (view (ai_transport s)) = aps"
    using assms(1) by (auto simp: good_def in_sync_def)
  obtain t1 st1 where one: "select_dp_and_dp_bank cfg (arm_calls cfg (Suc n)) dp reg s = (Ok (), with_dp dp t1 st1 s)"
    "told st1 t1" "ready t1" "bank_good reg (ai_transport s) st1 t1" "dt_values (view t1) = dt_values (view (ai_transport s))"
    by (rule bank_ready [OF st(1-3) assms(2,4)])
  obtain xs t2 where d: "tr_do (cf_transport cfg) (ReadReg (DpRegister reg)) t1 = (Ok xs, t2)" "ready t2"
    using ready_law [OF one(3), of "ReadReg (DpRegister reg)"] assms(2) by auto
  have hw: "view t2 = view t1" "xs = [dt_values (view t1) (dr_address reg, dt_bank (dr_address reg) (view t1))]"
    using done_law [OF up _ d(1)] assms(2) by auto
  have x: "xs = [vals (dr_address reg, ucast (reg_bank reg))]"
    using hw(2) one(4,5) assms(3) st(4) up unfolding bank_good_def by auto
  have q: "tr_read (cf_transport cfg) (DpRegister reg) t1 = (Ok (vals (dr_address reg, ucast (reg_bank reg))), t2)"
    using d(1) x by (auto simp: tr_do.simps sbind_def split: prod.splits res.splits)
  have conn: "connected dp st1 (with_dp dp t1 st1 s)" using st(1) by simp
  have "told st1 t2" using one(2) hw(1) up by (simp add: told_def)
  then have "good dp vals aps (with_dp dp t2 st1 s)"
    using in_syncI [of dp st1 "with_dp dp t2 st1 s"] st one(4,5) hw(1) d(2) up by (auto simp: good_def bank_good_def)
  moreover have "read_raw_dp_register cfg (arm_calls cfg (Suc n)) dp reg s
      = (Ok (vals (dr_address reg, ucast (reg_bank reg))), with_dp dp t2 st1 s)"
    using one(1) q by (simp add: read_raw_dp_register_def sbind_def on_transport_with_dp [OF conn])
  ultimately show ?thesis using that by simp
qed

lemma write_dp_good:
  assumes "good dp vals aps s" "dp_reg_ok reg" "\<not> v3"
  obtains s' where "write_raw_dp_register cfg (arm_calls cfg (Suc n)) dp reg v s = (Ok (), s')" "ai_epoch s' = ai_epoch s"
    "good dp (if dr_address reg = 4 then vals((4, ucast (reg_bank reg)) := v) else vals) aps s'"
proof -
  obtain st where st: "connected dp st s" "told st (ai_transport s)" "ready (ai_transport s)"
    "dt_values (view (ai_transport s)) = vals" "dt_aps (view (ai_transport s)) = aps"
    using assms(1) by (auto simp: good_def in_sync_def)
  obtain t1 st1 where one: "select_dp_and_dp_bank cfg (arm_calls cfg (Suc n)) dp reg s = (Ok (), with_dp dp t1 st1 s)"
    "told st1 t1" "ready t1" "bank_good reg (ai_transport s) st1 t1" "dt_values (view t1) = dt_values (view (ai_transport s))"
    by (rule bank_ready [OF st(1-3) assms(2,3)])
  obtain t2 where w: "tr_write (cf_transport cfg) (DpRegister reg) v t1 = (Ok (), t2)" "ready t2"
    by (rule write_ready [OF one(3) assms(2)])
  define st2 where "st2 = sync_state reg v True st1"
  have conn: "connected dp st' (with_dp dp t st' s)" for t st' using st(1) by simp
  have t2: "told st2 t2"
    using written_told(1) [OF one(2) _ assms(2) w(1)] one(4) by (auto simp: st2_def bank_good_def)
  have bank: "dr_address reg = 4 \<Longrightarrow> dt_bank 4 (view t1) = ucast (reg_bank reg)" "dt_aps (view t1) = aps"
    using one(4) st(5) up unfolding bank_good_def by auto
  have "dt_values (view t2) = (if dr_address reg = 4 then vals((4, ucast (reg_bank reg)) := v) else vals)" "dt_aps (view t2) = aps"
    using write_effect [OF w(1) assms(2)] bank one(5) st(4) assms(2,3)
    by (auto simp: dp_put_def dp_reg_ok_def)
  then have "good dp (if dr_address reg = 4 then vals((4, ucast (reg_bank reg)) := v) else vals) aps (with_dp dp t2 st2 s)"
    using in_syncI [OF conn, of st2 t2] t2 w(2) by (simp add: good_def)
  moreover have "write_raw_dp_register cfg (arm_calls cfg (Suc n)) dp reg v s = (Ok (), with_dp dp t2 st2 s)"
    using one(1) w(1)
    by (simp add: write_raw_dp_register_def sbind_def on_transport_with_dp [OF conn] sync_with_dp [OF conn] st2_def)
  ultimately show ?thesis using that by simp
qed

lemma forget_good:
  assumes "good dp vals aps s" "ai_epoch s + 1 < 2 ^ 64"
  obtains s' where "forget_memory_aps s = (Ok (), s')" "good dp vals aps s'" "ai_epoch s' = ai_epoch s + 1"
proof -
  obtain r s' where f: "forget_memory_aps s = (r, s')" by fastforce
  then have "r = Ok ()" "ai_epoch s' = ai_epoch s + 1" using assms(2) by (auto simp: forget_memory_aps_def add_w_def)
  then show ?thesis using that f forget_all_sync [OF _ f, of dp] assms(1) by (auto simp: good_def)
qed

text \<open>The stock sequence on a target that is powered.\<close>

definition powered :: "(u8 \<times> u32 \<Rightarrow> u32) \<Rightarrow> bool" where
  "powered vals \<longleftrightarrow> idr_version (vals (0, 0)) \<noteq> 0 \<and> idr_designer (vals (0, 0)) \<noteq> 0 \<and> ctrl_powered (vals (4, 0))"

lemma start_regs [simp]:
  "dp_reg_ok dp_ctrl" "dp_reg_ok dp_idr" "dp_reg_ok dp_abort" "dr_address dp_ctrl = 4" "dr_address dp_idr = 0"
  "dr_address dp_abort = 0" "reg_bank dp_ctrl = 0" "reg_bank dp_idr = 0"
  by (simp_all add: dp_reg_ok_def dp_registers reg_bank_def)

lemma start_good:
  assumes "good dp vals aps s" "powered vals" "\<not> v3"
  obtains s' where "run_program (arm_calls cfg (Suc (Suc n))) (debug_port_start_default connect polls dp) s = (Ok (), s')"
    "good dp vals aps s'" "ai_epoch s' = ai_epoch s"
proof -
  obtain s1 where s1: "write_raw_dp_register cfg (arm_calls cfg (Suc n)) dp dp_select 0 s = (Ok (), s1)" "ai_epoch s1 = ai_epoch s"
    "good dp vals aps s1"
    by (rule write_dp_good [OF assms(1) select_ok(1) assms(3), of n 0]) simp
  obtain s2 where s2: "read_raw_dp_register cfg (arm_calls cfg (Suc n)) dp dp_idr s1 = (Ok (vals (0, 0)), s2)" "good dp vals aps s2"
    "ai_epoch s2 = ai_epoch s1"
    by (rule read_dp_good [OF s1(3), of dp_idr n]) (use assms(3) in simp_all)
  obtain s3 where s3: "read_raw_dp_register cfg (arm_calls cfg (Suc n)) dp dp_ctrl s2 = (Ok (vals (4, 0)), s3)" "good dp vals aps s3"
    "ai_epoch s3 = ai_epoch s2"
    by (rule read_dp_good [OF s2(2), of dp_ctrl n]) (use assms(3) in simp_all)
  obtain s4 where s4: "write_raw_dp_register cfg (arm_calls cfg (Suc n)) dp dp_abort 0x1F s3 = (Ok (), s4)" "ai_epoch s4 = ai_epoch s3"
    "good dp vals aps s4"
    by (rule write_dp_good [OF s3(2), where reg = dp_abort and v = "0x1F" and n = n]) (use assms(3) in simp_all)
  have "run_program (arm_calls cfg (Suc (Suc n))) (debug_port_start_default connect polls dp) s = (Ok (), s4)"
    using s1(1) s2(1) s3(1) s4(1) assms(2)
    by (simp add: debug_port_start_default_def prog_read_def prog_write_def resume_def arm_calls_Suc powered_def)
  then show ?thesis using that s4 s1(2) s2(3) s3(3) by simp
qed

text \<open>The rest of the first use: overrun detection as it is configured, and the version.\<close>

definition overrun_set :: "bool \<Rightarrow> (u8 \<times> u32 \<Rightarrow> u32) \<Rightarrow> u8 \<times> u32 \<Rightarrow> u32" where
  "overrun_set overrun vals = (if bit (vals (4, 0)) 0 \<noteq> overrun then vals((4, 0) := flag_set 0 overrun (vals (4, 0))) else vals)"

lemma overrun_good:
  assumes "good dp vals aps s" "\<not> v3"
  obtains s' where "(if bit (vals (4, 0)) 0 \<noteq> cf_overrun cfg
      then write_raw_dp_register cfg (arm_calls cfg (Suc n)) dp dp_ctrl (flag_set 0 (cf_overrun cfg) (vals (4, 0))) else sret ()) s = (Ok (), s')"
    "good dp (overrun_set (cf_overrun cfg) vals) aps s'"
proof (cases "bit (vals (4, 0)) 0 \<noteq> cf_overrun cfg")
  case True
  show ?thesis
    by (rule write_dp_good [OF assms(1), where reg = dp_ctrl and v = "flag_set 0 (cf_overrun cfg) (vals (4, 0))" and n = n])
      (use that True assms(2) in \<open>simp_all add: overrun_set_def\<close>)
next
  case False
  then show ?thesis using that assms(1) by (simp add: overrun_set_def)
qed

lemma version_good:
  assumes "good dp vals aps s" "\<not> v3" "idr_version idr \<noteq> 3"
  obtains st s' where "note_version dp idr s = (Ok (), s')" "good dp vals aps s'" "ai_dps s' dp = Some st"
    "ds_version st = dp_version_of (idr_version idr)"
proof -
  obtain st where st: "connected dp st s" "told st (ai_transport s)" using assms(1) by (auto simp: good_def in_sync_def)
  define st1 where "st1 = st\<lparr>ds_version := dp_version_of (idr_version idr)\<rparr>"
  have "dp_version_of (idr_version idr) \<noteq> DpVersion3" using assms(3) by (simp add: dp_version_of_def)
  then have "note_version dp idr s = (Ok (), with_dp dp (ai_transport s) st1 s)"
    using st(1) by (simp add: note_version_def connected_def Let_def st1_def with_dp_def)
  moreover have "told st1 (ai_transport s)" using st(2) by (simp add: told_def st1_def)
  then have "good dp vals aps (with_dp dp (ai_transport s) st1 s)"
    using in_syncI [OF connected_with_dp [OF st(1)], of st1 "ai_transport s"] assms(1) unfolding good_def by simp
  ultimately show ?thesis using that [of "with_dp dp (ai_transport s) st1 s" st1] by (simp add: st1_def)
qed

lemma init_good:
  assumes "good dp vals aps s" "powered vals" "\<not> v3" "idr_version (vals (0, 0)) \<noteq> 3" "ai_epoch s + 1 < 2 ^ 64"
    "sq_start (cf_sequence cfg) dp = debug_port_start_default connect polls dp"
  obtains st s' where "init_dp cfg (arm_calls cfg (Suc (Suc n))) dp s = (Ok (), s')" "good dp (overrun_set (cf_overrun cfg) vals) aps s'"
    "ai_dps s' dp = Some st" "ds_version st = dp_version_of (idr_version (vals (0, 0)))"
proof -
  let ?calls = "arm_calls cfg (Suc (Suc n))" and ?vals = "overrun_set (cf_overrun cfg) vals"
  obtain s1 where s1: "forget_memory_aps s = (Ok (), s1)" "good dp vals aps s1" by (rule forget_good [OF assms(1,5)])
  obtain s2 where s2: "run_program ?calls (debug_port_start_default connect polls dp) s1 = (Ok (), s2)" "good dp vals aps s2"
    by (rule start_good [OF s1(2) assms(2,3), of n connect polls])
  obtain s3 where s3: "read_raw_dp_register cfg (arm_calls cfg (Suc n)) dp dp_ctrl s2 = (Ok (vals (4, 0)), s3)" "good dp vals aps s3"
    by (rule read_dp_good [OF s2(2), of dp_ctrl n]) (use assms(3) in simp_all)
  obtain s4 where s4: "(if bit (vals (4, 0)) 0 \<noteq> cf_overrun cfg
      then write_raw_dp_register cfg (arm_calls cfg (Suc n)) dp dp_ctrl (flag_set 0 (cf_overrun cfg) (vals (4, 0))) else sret ()) s3 = (Ok (), s4)"
    "good dp ?vals aps s4"
    by (rule overrun_good [OF s3(2) assms(3)])
  have idr: "?vals (0, 0) = vals (0, 0)" by (simp add: overrun_set_def)
  obtain s5 where s5: "read_raw_dp_register cfg (arm_calls cfg (Suc n)) dp dp_idr s4 = (Ok (vals (0, 0)), s5)" "good dp ?vals aps s5"
    by (rule read_dp_good [OF s4(2), of dp_idr n]) (use assms(3) idr in simp_all)
  obtain st s6 where s6: "note_version dp (vals (0, 0)) s5 = (Ok (), s6)" "good dp ?vals aps s6" "ai_dps s6 dp = Some st"
    "ds_version st = dp_version_of (idr_version (vals (0, 0)))"
    by (rule version_good [OF s5(2) assms(3,4)])
  have "init_dp cfg ?calls dp s = (Ok (), s6)"
    using s1(1) s2(1) s3(1) s4(1) s5(1) s6(1) assms(6)
    by (cases "bit (vals (4, 0)) 0 = cf_overrun cfg") (simp_all add: init_dp_def start_dp_def sbind_def arm_calls_Suc)
  then show ?thesis using that s6 by blast
qed

lemma connect_good:
  assumes "tr_flush (cf_transport cfg) = sret ()" "ai_current s = None" "ai_dps s dp = None"
    "sq_setup (cf_sequence cfg) dp (ai_transport s) = (Ok (), t)" "ready t" "powered (dt_values (view t))" "\<not> v3"
    "idr_version (dt_values (view t) (0, 0)) \<noteq> 3" "ai_epoch s + 1 < 2 ^ 64"
    "sq_start (cf_sequence cfg) dp = debug_port_start_default connect polls dp"
  obtains st s' where "select_dp cfg (arm_calls cfg (Suc (Suc n))) dp s = (Ok st, s')"
    "good dp (overrun_set (cf_overrun cfg) (dt_values (view t))) (dt_aps (view t)) s'"
    "ds_version st = dp_version_of (idr_version (dt_values (view t) (0, 0)))"
proof -
  define s1 where "s1 = s\<lparr>ai_transport := t, ai_current := Some dp\<rparr>"
  define s2 where "s2 = s1\<lparr>ai_dps := (ai_dps s1)(dp \<mapsto> dp_state_new)\<rparr>"
  have "switch_dp cfg dp s = (Ok True, s1)"
    using assms(1,2,4) by (simp add: switch_dp_def on_transport_def sbind_def s1_def)
  moreover have "connected dp dp_state_new s2" by (simp add: connected_def s2_def s1_def)
  then have "in_sync dp s2" by (rule in_syncI) (unfold told_def, use assms(7) in \<open>simp add: dp_state_new_def\<close>)
  then have "good dp (dt_values (view t)) (dt_aps (view t)) s2" using assms(5) by (simp add: good_def s2_def s1_def)
  moreover have "ai_epoch s2 + 1 < 2 ^ 64" using assms(9) by (simp add: s2_def s1_def)
  ultimately obtain st s3 where s3: "init_dp cfg (arm_calls cfg (Suc (Suc n))) dp s2 = (Ok (), s3)"
    "good dp (overrun_set (cf_overrun cfg) (dt_values (view t))) (dt_aps (view t)) s3"
    "ai_dps s3 dp = Some st" "ds_version st = dp_version_of (idr_version (dt_values (view t) (0, 0)))"
    using init_good [OF _ assms(6-8) _ assms(10), of "dt_aps (view t)" s2 n] by blast
  have "ai_dps s1 dp = None" using assms(3) by (simp add: s1_def)
  then have "select_dp cfg (arm_calls cfg (Suc (Suc n))) dp s = (Ok st, s3)"
    using \<open>switch_dp cfg dp s = (Ok True, s1)\<close> s3(1,3) by (simp add: select_dp_def sbind_def s2_def)
  then show ?thesis using that s3(2,4) by blast
qed

end

subsection \<open>On the wire\<close>

text \<open>C13. The first use of a debug port: over the wire, a target of DPv1 or DPv2 that is powered and waits
  fewer times than the port retries is connected by the stock start sequence. The interface then knows
  the version that the target names and its SELECT register, and the target has the overrun detection
  that is configured; nothing else of it has changed.\<close>

theorem first_use_connects:
  assumes "settings_ok st" "sq_setup sq dp t = (Ok (), t1)" "answering st t1"
    "sq_start sq dp = debug_port_start_default connect polls dp"
    "ctrl_powered (dt_values (at_regs t1) (4, 0))" "idr_designer (dt_values (at_regs t1) (0, 0)) \<noteq> 0"
    "idr_version (dt_values (at_regs t1) (0, 0)) \<in> {1, 2}"
    "cfg = wire_config st sq False space overrun"
  shows "\<exists>dps s'. select_dp cfg (arm_calls cfg (Suc (Suc n))) dp (arm_create t) = (Ok dps, s')
    \<and> ds_version dps = dp_version_of (idr_version (dt_values (at_regs t1) (0, 0)))
    \<and> select_known False at_regs (\<lambda>_. False) dp s' \<and> answering st (ai_transport s')
    \<and> dt_aps (at_regs (ai_transport s')) = dt_aps (at_regs t1)
    \<and> dt_values (at_regs (ai_transport s')) = (dt_values (at_regs t1))((4, 0) := flag_set 0 overrun (dt_values (at_regs t1) (4, 0)))"
proof -
  note ready = wire_ready [OF assms(1), of sq False space overrun, folded assms(8)]
  note sel = steady_transport.axioms(1) [OF ready_transport.axioms(1) [OF ready]]
  let ?vals = "dt_values (at_regs t1)"
  have pow: "ready_transport.powered ?vals"
    using assms(5-7) by (auto simp: ready_transport.powered_def [OF ready])
  have flush: "tr_flush (cf_transport cfg) = sret ()" by (simp add: assms(8) swd_transport_def)
  have set: "ready_transport.overrun_set overrun ?vals = ?vals((4, 0) := flag_set 0 overrun (?vals (4, 0)))"
  proof -
    have "flag_set 0 overrun w = w" if "bit w 0 = overrun" for w :: u32
    proof (rule bit_word_eqI)
      show "bit (flag_set 0 overrun w) k = bit w k" for k using that by (cases k) (auto simp: flag_set_def bit_simps)
    qed
    then show ?thesis by (auto simp: ready_transport.overrun_set_def [OF ready] fun_upd_idem)
  qed
  obtain dps s' where s': "select_dp cfg (arm_calls cfg (Suc (Suc n))) dp (arm_create t) = (Ok dps, s')"
    "ready_transport.good False at_regs (\<lambda>_. False) (answering st) dp (ready_transport.overrun_set (cf_overrun cfg) ?vals) (dt_aps (at_regs t1)) s'"
    "ds_version dps = dp_version_of (idr_version (?vals (0, 0)))"
    by (rule ready_transport.connect_good [OF ready flush, of "arm_create t" dp t1 connect polls n])
      (use assms(2-4,7,8) pow in \<open>auto simp: arm_create_def\<close>)
  then show ?thesis
    using selecting_transport.known_sync [OF sel, of dp s'] set
    by (simp add: ready_transport.good_def [OF ready] assms(8) wire_config_def)
qed

definition powered_target :: "bool list \<Rightarrow> u32 dp_target adi_target" where
  "powered_target busy =
     (example_dp_target 1 busy)\<lparr>at_regs := \<lparr>dt_select = 0xF0, dt_select1 = 0,
        dt_values = (\<lambda>_. 0)((0, 0) := 0x2BA01477, (4, 0) := 0xF0000000), dt_aps = 1\<rparr>\<rparr>"

theorem first_use_connects_witness:
  "\<exists>dps s'. select_dp (wire_config default_swd_settings example_sequence False counting_space True)
       (arm_calls (wire_config default_swd_settings example_sequence False counting_space True) (Suc (Suc 0))) DpDefault
       (arm_create (powered_target [True, False, True])) = (Ok dps, s')
    \<and> ds_version dps = DpVersion1 \<and> dt_values (at_regs (ai_transport s')) (4, 0) = 0xF0000001"
proof -
  let ?cfg = "wire_config default_swd_settings example_sequence False counting_space True" and ?t = "powered_target [True, False, True]"
  have v: "dt_values (at_regs ?t) (0, 0) = 0x2BA01477" "dt_values (at_regs ?t) (4, 0) = 0xF0000000"
    by (simp_all add: powered_target_def)
  have idr: "idr_version 0x2BA01477 = 1" "idr_designer 0x2BA01477 \<noteq> 0" "ctrl_powered 0xF0000000" "flag_set 0 True (0xF0000000 :: u32) = 0xF0000001"
    by code_simp+
  have "\<exists>dps s'. select_dp ?cfg (arm_calls ?cfg (Suc (Suc 0))) DpDefault (arm_create ?t) = (Ok dps, s')
    \<and> ds_version dps = dp_version_of (idr_version (dt_values (at_regs ?t) (0, 0)))
    \<and> select_known False at_regs (\<lambda>_. False) DpDefault s' \<and> answering default_swd_settings (ai_transport s')
    \<and> dt_aps (at_regs (ai_transport s')) = dt_aps (at_regs ?t)
    \<and> dt_values (at_regs (ai_transport s')) = (dt_values (at_regs ?t))((4, 0) := flag_set 0 True (dt_values (at_regs ?t) (4, 0)))"
    by (rule first_use_connects [where connect = "\<lambda>_. sret ()" and polls = 3, OF default_settings_ok _ _ _ _ _ _ refl])
      (use idr in \<open>simp_all add: v example_sequence_def answering_def powered_target_def example_dp_target_def default_swd_settings_def\<close>)
  then show ?thesis using idr by (auto simp: v dp_version_of_def)
qed

end
