(* ===== verification/Spec2Isabelle.thy ===== *)
theory Spec2Isabelle
  imports Flash_Layout Jtag_Probe Adi_Properties Rtt_Attach Swd_Block Arm_Start
begin

text \<open>
  A verification library for probe-rs, a debugger and flasher for embedded targets.

  \<^bold>\<open>The program\<close>

  A host tool asks the library to attach to a target, read and write its memory, flash an image and
  exchange data with the running program. The parts that are modelled form five stacks:

  \<^item> flashing: an image is staged by address (builder.rs), laid out into the sectors and pages of a
    flash region (flash_properties.rs) and turned into what has to be erased, filled and programmed;
  \<^item> JTAG: commands for one TAP of a scan chain are padded for the others (jtag/chain.rs), lowered to
    walks through the TAP states and shifts (jtag/mod.rs), to clocks, and sent by a probe (xvc);
  \<^item> SWD: register transfers are expanded by the posting rules of ADIv5, run and run again after a
    WAIT (swd/port.rs), and turned into the levels of the wire (swd/mod.rs);
  \<^item> debug ports: the communication interface (arm/communication_interface.rs) connects to a debug
    port, selects the AP and the register bank before each access, keeps a copy of SELECT to leave
    out writes of it, connects again after a lost link, and runs lists of accesses as one batch of the
    SWD port; it stands between the memory APs above it and the SWD port below;
  \<^item> memory: accesses of any width are cut into accesses of the registers of a memory access port
    (adi_memory_interface.rs, ap/memory_ap), on the trait of memory/mod.rs; the RTT channels
    (rtt.rs, rtt/channel.rs) are rings in that memory.

  \<^bold>\<open>Conventions\<close>

  A fallible function returns \<open>Ok\<close>, \<open>Err\<close> or \<open>Panic\<close> (Prelude); code that keeps a state passes it
  through \<open>rsm\<close>. Lengths, addresses and counters are natural numbers with the checks of their width
  written out (\<open>add64\<close>, \<open>add_w\<close>: a sum that does not fit is a panic, as in a build with overflow checks);
  values whose bits matter are words. A handle is a number, and whether its owner still holds it, a
  reference count of the running program, is an argument \<open>held\<close>. Hardware and third-party code are
  parameters: records of operations, with the behaviour that the code relies on as the assumptions of
  a locale, each interpreted on a definition of the library.

  \<^bold>\<open>Theories\<close>

  \<^item> Prelude: results, checked arithmetic, state passing, little-endian bytes, chunks.
  \<^item> Target_Memory (probe-rs-target/src/memory.rs): ranges, memory regions, merging of adjacent RAM.
  \<^item> Flash_Properties, Flash_Error (flash_properties.rs): sectors and pages of a region; the sector of
    an address exists, is unique and contains it.
  \<^item> Flash_Builder, Flash_Layout (flashing/builder.rs): chunks stay sorted and disjoint, an overlap is
    refused; each page of a layout has the staged bytes or what the flash held, every staged byte is
    in a page, the erased sectors are known exactly and the fills are exactly the rest of each page.
  \<^item> Probe_Batch (probe/bits.rs, probe/queue.rs): bit sequences, batches with a cursor, results.
  \<^item> Jtag_Tap, Jtag_Xvc, Jtag_Probe (jtag/mod.rs, xvc): the paths between TAP states are shortest and
    end where they say; the clocks of a batch shift its data and nothing else; a batch that succeeds
    has sent all its clocks, and the captured bits are the TDO levels at the clocks of their exchange.
  \<^item> Scan_Chain, Jtag_Chain, Jtag_Driver (probe/common.rs, jtag/chain.rs): lengths of instruction
    registers and IDCODEs from a scan; a selected TAP gets its bits and the others their bypass; a batch
    of commands is the operations of \<open>commands_ops\<close>, and its answers are cut from its own exchanges.
  \<^item> Swd_Wire, Swd_Port (swd/mod.rs, swd/port.rs): the model of the SWD layers. Swd_Device is a
    target on the wire; Swd_Retry, Swd_Expand, Swd_Correct relate a port to the registers of a target:
    a batch returns the values of its registers and executes each transfer once, through any WAITs.
    Swd_Properties and Swd_Block state it, with the error detection of the wire and the block reads.
  \<^item> Memory_Interface (memory/mod.rs), Mem_Ap (arm/ap): the trait with its default methods and
    batches; the seven kinds of memory AP.
  \<^item> Adi_Memory, Adi_Sync, Adi_Flat, Adi_Refines, Adi_Complete, Adi_Equal, Adi_Core, Mock_Ap, Adi_Properties
    (arm/memory/adi_memory_interface.rs): the model; the noted transfer size is the one of the AP; a
    batch does on a flat memory what its operations say, in order, and stops at the first error; it
    succeeds whenever it can, and so does the generic execution of its operations one at a time, with
    the same results.
  \<^item> Arm_Dap (arm/communication_interface.rs, arm/dp, the stock start of arm/sequences.rs): the model
    of the interface over any transport. Arm_Select, Arm_Sync, Arm_Access: the contract of a transport
    to a debug port with SELECT registers, and the invariant that a copy of SELECT marked as valid is
    the register, also after errors and lost links. Arm_Values, Arm_Memory: what accesses return, as
    single accesses, runs and batches; a memory AP behind the interface is what the memory interface
    asks for. Swd_Refuse, Arm_Swd, Arm_Wire: the transport over the SWD port keeps that contract on the
    bits of the wire, to a target that waits or refuses transfers. Arm_Stack, Arm_Cut, Arm_Properties,
    Arm_Start: the whole stack from a memory operation to the wire, a wire that is cut at any access,
    the properties, and the first connection to a debug port.
  \<^item> Rtt_Ring, Rtt_Channel, Rtt_Properties, Rtt_Block, Rtt_Attach (rtt/channel.rs, rtt.rs): a channel
    is a queue in target memory; sessions of reads and writes of both sides lose and reorder nothing;
    attaching finds the control blocks that are in the scanned memory and gives well-formed channels.

  \<^bold>\<open>Bounds and fuel\<close>

  Loops are structural or have a measure. Loops that wait for a time limit take the number of their
  rounds (the instants that the clock returns) as a list or a number, and the theorems hold for any.
  The retries of an SWD batch are bounded by the setting \<open>num_retries_after_wait\<close>, as in the code: with a
  target that is busy fewer times than that the port succeeds, with any target it ends. Idle cycles
  are 32-bit: \<open>retry_room\<close> says that the growing idle phases fit, which the default settings satisfy for
  any batch with idle phases below 2^32 - 128000 cycles.
  The accesses of the interface that are made inside another access (the write of SELECT inside a
  read) are \<open>arm_calls\<close>, whose nesting is a number: an access of a connected port nests at most two deep,
  and the theorems hold for any bound from there on. \<open>poll_power\<close>
  takes the rounds that fit into its second, at least one.

  \<^bold>\<open>Not modelled\<close>

  Of the debug ports: the transport over JTAG, the sequences on the raw wire (setup, connect and stop
  are parameters), vendor sequences, SWO and the listing of APs; the property of the first connection is
  about a target that is powered.

  Flashing on the target (loader, flasher, flash algorithms), the control of cores, ROM tables and
  vendor sequences, RISC-V and Xtensa, the drivers of probes whose firmware protocols are outside the
  repository, sessions and the registry of targets, debug information and unwinding, core dumps,
  semihosting, the command line tools and servers. They are sequences of operations of the modelled
  interfaces, wire formats of third-party firmware, or input and output. The manifest lists each.
\<close>

end
